(* ===== verification/Prelude.thy ===== *)
theory Prelude
  imports Main "HOL-Library.Sublist"
begin

text \<open>
  Shared vocabulary of the development.

  A Rust \<^verbatim>\<open>&str\<close> or \<^verbatim>\<open>String\<close> is the list of its UTF-8 bytes, an Isabelle
  \<^typ>\<open>string\<close> (an Isabelle \<^typ>\<open>char\<close> is one byte), so that \<^verbatim>\<open>len()\<close>, slicing and the
  size limits of the program count bytes exactly as the code does. Operations that walk
  over Unicode scalars use \<open>utf8_chars\<close>, which groups a lead byte with its continuation
  bytes. A \<^verbatim>\<open>usize\<close> or \<^verbatim>\<open>u64\<close> is a \<^typ>\<open>nat\<close>; where the code checks for overflow the
  64-bit bound is written out. A \<^verbatim>\<open>Result\<close> is a sum with the error on the left, and
  \<open>res_bind\<close> is the \<^verbatim>\<open>?\<close> operator.

  The functions below model the parts of the Rust standard library the program uses;
  the components only use them through the lemmas proved here.
\<close>

named_theorems res_simps \<open>equations that run the result type\<close>
named_theorems str_iff \<open>characterisations of the string library by concatenation\<close>

abbreviation (input) LF :: char where
  "LF \<equiv> CHR 0x0A"

abbreviation (input) CR :: char where
  "CR \<equiv> CHR 0x0D"

section \<open>Results and checked arithmetic\<close>

definition res_bind :: "'e + 'a \<Rightarrow> ('a \<Rightarrow> 'e + 'b) \<Rightarrow> 'e + 'b" where
  "res_bind r f = (case r of Inl e \<Rightarrow> Inl e | Inr x \<Rightarrow> f x)"

definition ok_or :: "'a option \<Rightarrow> 'e \<Rightarrow> 'e + 'a" where
  "ok_or m e = (case m of None \<Rightarrow> Inl e | Some x \<Rightarrow> Inr x)"

definition u64_bound :: nat where
  "u64_bound = 18446744073709551616"

definition checked_add :: "nat \<Rightarrow> nat \<Rightarrow> nat option" where
  "checked_add a b = (if a + b < u64_bound then Some (a + b) else None)"

definition checked_mul :: "nat \<Rightarrow> nat \<Rightarrow> nat option" where
  "checked_mul a b = (if a * b < u64_bound then Some (a * b) else None)"

definition checked_sub :: "nat \<Rightarrow> nat \<Rightarrow> nat option" where
  "checked_sub a b = (if b \<le> a then Some (a - b) else None)"

lemma res_bind_Inl [simp, res_simps]: "res_bind (Inl e) f = Inl e"
  by (simp add: res_bind_def)

lemma res_bind_Inr [simp, res_simps]: "res_bind (Inr x) f = f x"
  by (simp add: res_bind_def)

lemma res_bind_eq_Inr: "res_bind r f = Inr y \<longleftrightarrow> (\<exists>x. r = Inr x \<and> f x = Inr y)"
  by (cases r) auto

lemma res_bind_eq_Inl:
  "res_bind r f = Inl e \<longleftrightarrow> r = Inl e \<or> (\<exists>x. r = Inr x \<and> f x = Inl e)"
  by (cases r) auto

lemma res_bind_InrE [elim!]:
  assumes "res_bind r f = Inr y"
  obtains x where "r = Inr x" and "f x = Inr y"
  using assms by (auto simp: res_bind_eq_Inr)

lemma res_bind_cong [fundef_cong]:
  "r = r' \<Longrightarrow> (\<And>x. r' = Inr x \<Longrightarrow> f x = g x) \<Longrightarrow> res_bind r f = res_bind r' g"
  by (cases r') auto

text \<open>A fallible operation that may also panic or not return, which is \<^term>\<open>None\<close>.\<close>

definition run_bind :: "('e + 'a) option \<Rightarrow> ('a \<Rightarrow> ('e + 'b) option) \<Rightarrow> ('e + 'b) option" where
  "run_bind r f = (case r of None \<Rightarrow> None | Some (Inl e) \<Rightarrow> Some (Inl e) | Some (Inr x) \<Rightarrow> f x)"

lemma run_bind_Some [simp]:
  "run_bind (Some r) f = (case r of Inl e \<Rightarrow> Some (Inl e) | Inr x \<Rightarrow> f x)"
  by (simp add: run_bind_def)

lemma run_bind_eq_Inr:
  "run_bind r f = Some (Inr y) \<longleftrightarrow> (\<exists>x. r = Some (Inr x) \<and> f x = Some (Inr y))"
  by (auto simp: run_bind_def split: option.splits sum.splits)

lemma run_bind_total:
  "\<exists>x. r = Some x \<Longrightarrow> (\<And>x. \<exists>y. f x = Some y) \<Longrightarrow> \<exists>y. run_bind r f = Some y"
  by (auto simp: run_bind_def split: option.splits sum.splits)

lemma ok_or_simps [simp, res_simps]:
  "ok_or None e = Inl e" "ok_or (Some x) e = Inr x"
  by (simp_all add: ok_or_def)

lemma ok_or_eq_Inr [simp]: "ok_or m e = Inr x \<longleftrightarrow> m = Some x"
  by (cases m) auto

lemma ok_or_eq_Inl [simp]: "ok_or m e = Inl e' \<longleftrightarrow> m = None \<and> e' = e"
  by (cases m) auto

lemma checked_add_Some [simp]:
  "checked_add a b = Some c \<longleftrightarrow> c = a + b \<and> a + b < u64_bound"
  by (auto simp: checked_add_def)

lemma checked_add_None [simp]: "checked_add a b = None \<longleftrightarrow> u64_bound \<le> a + b"
  by (auto simp: checked_add_def)

lemma checked_mul_Some [simp]:
  "checked_mul a b = Some c \<longleftrightarrow> c = a * b \<and> a * b < u64_bound"
  by (auto simp: checked_mul_def)

lemma checked_sub_Some [simp]: "checked_sub a b = Some c \<longleftrightarrow> b \<le> a \<and> c = a - b"
  by (auto simp: checked_sub_def)

lemma checked_sub_None [simp]: "checked_sub a b = None \<longleftrightarrow> a < b"
  by (auto simp: checked_sub_def)

section \<open>Byte strings\<close>

fun strip_prefix :: "'a list \<Rightarrow> 'a list \<Rightarrow> 'a list option" where
  "strip_prefix [] s = Some s"
| "strip_prefix (x # xs) [] = None"
| "strip_prefix (x # xs) (y # ys) = (if x = y then strip_prefix xs ys else None)"

definition strip_suffix :: "'a list \<Rightarrow> 'a list \<Rightarrow> 'a list option" where
  "strip_suffix p s = map_option rev (strip_prefix (rev p) (rev s))"

definition starts_with :: "'a list \<Rightarrow> 'a list \<Rightarrow> bool" where
  "starts_with s p = (case strip_prefix p s of None \<Rightarrow> False | Some _ \<Rightarrow> True)"

fun find_sub :: "'a list \<Rightarrow> 'a list \<Rightarrow> nat option" where
  "find_sub p [] = (if p = [] then Some 0 else None)"
| "find_sub p (x # s) =
     (if starts_with (x # s) p then Some 0 else map_option Suc (find_sub p s))"

definition contains_sub :: "'a list \<Rightarrow> 'a list \<Rightarrow> bool" where
  "contains_sub s p = (find_sub p s \<noteq> None)"

fun split_once :: "'a \<Rightarrow> 'a list \<Rightarrow> ('a list \<times> 'a list) option" where
  "split_once c [] = None"
| "split_once c (x # s) =
     (if x = c then Some ([], s)
      else map_option (\<lambda>(a, b). (x # a, b)) (split_once c s))"

fun split_inclusive :: "'a \<Rightarrow> 'a list \<Rightarrow> 'a list list" where
  "split_inclusive c [] = []"
| "split_inclusive c (x # s) =
     (if x = c then [x] # split_inclusive c s
      else case split_inclusive c s of
             [] \<Rightarrow> [[x]]
           | l # ls \<Rightarrow> (x # l) # ls)"

fun split_on :: "'a \<Rightarrow> 'a list \<Rightarrow> 'a list list" where
  "split_on c [] = [[]]"
| "split_on c (x # s) =
     (if x = c then [] # split_on c s
      else case split_on c s of
             [] \<Rightarrow> [[x]]
           | l # ls \<Rightarrow> (x # l) # ls)"

definition split_terminator :: "'a \<Rightarrow> 'a list \<Rightarrow> 'a list list" where
  "split_terminator c s =
     (let ls = split_on c s in if last ls = [] then butlast ls else ls)"

fun join_with :: "'a list \<Rightarrow> 'a list list \<Rightarrow> 'a list" where
  "join_with sep [] = []"
| "join_with sep [l] = l"
| "join_with sep (l # m # ls) = l @ sep @ join_with sep (m # ls)"

lemma strip_prefix_Some [simp, str_iff]: "strip_prefix p s = Some r \<longleftrightarrow> s = p @ r"
  by (induction p s rule: strip_prefix.induct) auto

lemma strip_prefix_append [simp]: "strip_prefix p (p @ r) = Some r"
  by simp

lemma strip_suffix_Some [simp, str_iff]: "strip_suffix p s = Some r \<longleftrightarrow> s = r @ p"
  by (auto simp: strip_suffix_def) (metis rev_append rev_rev_ident)

lemma strip_suffix_append [simp]: "strip_suffix p (r @ p) = Some r"
  by simp

lemma starts_with_iff [simp, str_iff]: "starts_with s p \<longleftrightarrow> prefix p s"
  by (cases "strip_prefix p s") (auto simp: starts_with_def prefix_def dest: sym)

lemma find_sub_Some:
  "find_sub p s = Some i \<Longrightarrow> i + length p \<le> length s \<and> take (length p) (drop i s) = p"
proof (induction s arbitrary: i)
  case Nil
  then show ?case by (auto split: if_splits)
next
  case (Cons x s)
  show ?case
  proof (cases "prefix p (x # s)")
    case True
    with Cons.prems show ?thesis
      using prefix_length_le[OF True] by (auto simp: prefix_def)
  next
    case False
    with Cons.prems obtain j where "find_sub p s = Some j" and "i = Suc j"
      by auto
    with Cons.IH show ?thesis by auto
  qed
qed

lemma find_sub_None: "find_sub p s = None \<longleftrightarrow> \<not> sublist p s"
proof (induction s)
  case (Cons x s)
  then show ?case by (auto simp: sublist_Cons_right)
qed auto

lemma contains_sub_iff [simp, str_iff]: "contains_sub s p \<longleftrightarrow> sublist p s"
  using find_sub_None[of p s] by (auto simp: contains_sub_def)

lemma split_once_Some:
  "split_once c s = Some (a, b) \<longleftrightarrow> s = a @ c # b \<and> c \<notin> set a"
proof (induction s arbitrary: a b)
  case (Cons x s)
  then show ?case by (cases a) auto
qed simp

lemma split_once_None [simp]: "split_once c s = None \<longleftrightarrow> c \<notin> set s"
  by (induction s) auto

lemma split_on_nonempty [simp]: "split_on c s \<noteq> []"
  by (induction s) (auto split: list.splits)

lemma join_with_Cons: "ls \<noteq> [] \<Longrightarrow> join_with sep (l # ls) = l @ sep @ join_with sep ls"
  by (cases ls) auto

lemma join_with_Cons_hd: "join_with sep ((x # l) # ls) = x # join_with sep (l # ls)"
  by (cases ls) auto

lemma join_split_on [simp]: "join_with [c] (split_on c s) = s"
proof (induction s)
  case (Cons x s)
  then show ?case
    by (cases "split_on c s") (auto simp: join_with_Cons join_with_Cons_hd)
qed simp

lemma split_on_no_sep: "l \<in> set (split_on c s) \<Longrightarrow> c \<notin> set l"
proof (induction s arbitrary: l)
  case (Cons x s)
  then show ?case by (cases "split_on c s") (auto split: if_splits)
qed simp

lemma concat_split_inclusive [simp]: "concat (split_inclusive c s) = s"
proof (induction s)
  case (Cons x s)
  then show ?case by (cases "split_inclusive c s") auto
qed simp

lemma split_inclusive_nonempty: "[] \<notin> set (split_inclusive c s)"
  by (induction s) (auto split: list.splits)

lemma split_inclusive_Nil [simp]: "split_inclusive c s = [] \<longleftrightarrow> s = []"
  by (cases s) (auto split: list.splits)

lemma split_inclusive_line:
  "c \<notin> set l \<Longrightarrow> split_inclusive c (l @ c # s) = (l @ [c]) # split_inclusive c s"
  by (induction l) auto

lemma split_inclusive_last:
  "c \<notin> set l \<Longrightarrow> l \<noteq> [] \<Longrightarrow> split_inclusive c l = [l]"
proof (induction l)
  case (Cons x l)
  then show ?case by (cases "l = []") auto
qed simp

section \<open>UTF-8\<close>

text \<open>
  A byte \<open>10xxxxxx\<close> continues a scalar. The boundary functions are those of
  \<^verbatim>\<open>str::is_char_boundary\<close>, \<^verbatim>\<open>floor_char_boundary\<close> and \<^verbatim>\<open>ceil_char_boundary\<close>.
\<close>

definition is_cont :: "char \<Rightarrow> bool" where
  "is_cont c = (digit7 c \<and> \<not> digit6 c)"

definition is_char_boundary :: "string \<Rightarrow> nat \<Rightarrow> bool" where
  "is_char_boundary s i =
     (i = 0 \<or> i = length s \<or> (i < length s \<and> \<not> is_cont (s ! i)))"

fun floor_from :: "string \<Rightarrow> nat \<Rightarrow> nat" where
  "floor_from s 0 = 0"
| "floor_from s (Suc i) = (if is_cont (s ! Suc i) then floor_from s i else Suc i)"

definition floor_char_boundary :: "string \<Rightarrow> nat \<Rightarrow> nat" where
  "floor_char_boundary s i = (if length s \<le> i then length s else floor_from s i)"

definition ceil_char_boundary :: "string \<Rightarrow> nat \<Rightarrow> nat" where
  "ceil_char_boundary s i =
     (if length s \<le> i then length s else i + length (takeWhile is_cont (drop i s)))"

lemma dropWhile_shorter [termination_simp]:
  "length (dropWhile P xs) < Suc (length xs)"
  by (simp add: less_Suc_eq_le length_dropWhile_le)

fun utf8_chars :: "string \<Rightarrow> string list" where
  "utf8_chars [] = []"
| "utf8_chars (c # s) = (c # takeWhile is_cont s) # utf8_chars (dropWhile is_cont s)"

definition byte_in :: "nat \<Rightarrow> nat \<Rightarrow> char \<Rightarrow> bool" where
  "byte_in lo hi c = (lo \<le> of_char c \<and> of_char c \<le> hi)"

text \<open>The well-formedness table that \<^verbatim>\<open>String::from_utf8\<close> checks.\<close>

fun utf8_valid :: "string \<Rightarrow> bool" where
  "utf8_valid [] = True"
| "utf8_valid (a # s) =
     (if byte_in 0 127 a then utf8_valid s
      else case s of
        [] \<Rightarrow> False
      | b # s \<Rightarrow>
        if byte_in 194 223 a then is_cont b \<and> utf8_valid s
        else case s of
          [] \<Rightarrow> False
        | c # s \<Rightarrow>
          if byte_in 224 224 a then byte_in 160 191 b \<and> is_cont c \<and> utf8_valid s
          else if byte_in 225 236 a \<or> byte_in 238 239 a
            then is_cont b \<and> is_cont c \<and> utf8_valid s
          else if byte_in 237 237 a
            then byte_in 128 159 b \<and> is_cont c \<and> utf8_valid s
          else case s of
            [] \<Rightarrow> False
          | d # s \<Rightarrow>
            if byte_in 240 240 a
              then byte_in 144 191 b \<and> is_cont c \<and> is_cont d \<and> utf8_valid s
            else if byte_in 241 243 a
              then is_cont b \<and> is_cont c \<and> is_cont d \<and> utf8_valid s
            else if byte_in 244 244 a
              then byte_in 128 143 b \<and> is_cont c \<and> is_cont d \<and> utf8_valid s
            else False)"

text \<open>The scalars with the Unicode property \<open>White_Space\<close>, as their UTF-8 bytes.\<close>

definition white_space :: "string \<Rightarrow> bool" where
  "white_space ch =
     (case map of_char ch :: nat list of
        [a] \<Rightarrow> 9 \<le> a \<and> a \<le> 13 \<or> a = 32
      | [a, b] \<Rightarrow> a = 194 \<and> (b = 133 \<or> b = 160)
      | [a, b, c] \<Rightarrow>
          a = 225 \<and> b = 154 \<and> c = 128
          \<or> a = 226 \<and> b = 128 \<and> (128 \<le> c \<and> c \<le> 138 \<or> c = 168 \<or> c = 169 \<or> c = 175)
          \<or> a = 226 \<and> b = 129 \<and> c = 159
          \<or> a = 227 \<and> b = 128 \<and> c = 128
      | _ \<Rightarrow> False)"

definition trim_str :: "string \<Rightarrow> string" where
  "trim_str s =
     concat (rev (dropWhile white_space (rev (dropWhile white_space (utf8_chars s)))))"

lemma concat_utf8_chars [simp]: "concat (utf8_chars s) = s"
  by (induction s rule: utf8_chars.induct) auto

lemma utf8_chars_nonempty: "[] \<notin> set (utf8_chars s)"
  by (induction s rule: utf8_chars.induct) auto

lemma floor_from_le: "floor_from s i \<le> i"
  by (induction i) auto

lemma floor_from_boundary: "i < length s \<Longrightarrow> is_char_boundary s (floor_from s i)"
  by (induction i) (auto simp: is_char_boundary_def)

lemma floor_from_greatest:
  "i < length s \<Longrightarrow> is_char_boundary s j \<Longrightarrow> j \<le> i \<Longrightarrow> j \<le> floor_from s i"
proof (induction i)
  case (Suc i)
  then show ?case by (cases "j = Suc i") (auto simp: is_char_boundary_def)
qed simp

lemma floor_char_boundary_le: "floor_char_boundary s i \<le> i"
  by (auto simp: floor_char_boundary_def floor_from_le)

lemma floor_char_boundary_le_length: "floor_char_boundary s i \<le> length s"
  using floor_from_le[of s i] by (auto simp: floor_char_boundary_def)

lemma floor_char_boundary_boundary [simp]: "is_char_boundary s (floor_char_boundary s i)"
  by (auto simp: floor_char_boundary_def floor_from_boundary is_char_boundary_def[of s "length s"])

lemma is_char_boundary_le: "is_char_boundary s j \<Longrightarrow> j \<le> length s"
  by (auto simp: is_char_boundary_def)

lemma floor_char_boundary_greatest:
  "is_char_boundary s j \<Longrightarrow> j \<le> i \<Longrightarrow> j \<le> floor_char_boundary s i"
  using floor_from_greatest[of i s j] is_char_boundary_le[of s j]
  by (auto simp: floor_char_boundary_def)

lemma ceil_char_boundary_ge: "i \<le> length s \<Longrightarrow> i \<le> ceil_char_boundary s i"
  by (auto simp: ceil_char_boundary_def)

lemma ceil_char_boundary_le_length: "ceil_char_boundary s i \<le> length s"
  using length_takeWhile_le[of is_cont "drop i s"] by (auto simp: ceil_char_boundary_def)

lemma ceil_char_boundary_boundary [simp]: "is_char_boundary s (ceil_char_boundary s i)"
proof (cases "length s \<le> i")
  case False
  let ?k = "length (takeWhile is_cont (drop i s))"
  show ?thesis
  proof (cases "?k < length (drop i s)")
    case True
    then have "\<not> is_cont (drop i s ! ?k)" by (rule nth_length_takeWhile)
    with False True show ?thesis by (auto simp: ceil_char_boundary_def is_char_boundary_def)
  next
    case F: False
    with length_takeWhile_le[of is_cont "drop i s"] have "?k = length s - i" by simp
    with False show ?thesis by (simp add: ceil_char_boundary_def is_char_boundary_def)
  qed
qed (simp add: ceil_char_boundary_def is_char_boundary_def)

section \<open>Decimal and hexadecimal numerals\<close>

definition is_digit :: "char \<Rightarrow> bool" where
  "is_digit c = byte_in 48 57 c"

definition digit_val :: "char \<Rightarrow> nat" where
  "digit_val c = of_char c - 48"

definition dec_val :: "string \<Rightarrow> nat" where
  "dec_val s = foldl (\<lambda>n c. 10 * n + digit_val c) 0 s"

definition digit_char :: "nat \<Rightarrow> char" where
  "digit_char n = char_of (48 + n)"

fun show_nat :: "nat \<Rightarrow> string" where
  "show_nat n =
     (if n < 10 then [digit_char n] else show_nat (n div 10) @ [digit_char (n mod 10)])"

declare show_nat.simps [simp del]

definition pad_left :: "nat \<Rightarrow> string \<Rightarrow> string" where
  "pad_left k s = replicate (k - length s) CHR ''0'' @ s"

text \<open>\<^verbatim>\<open>str::parse\<close> of an unsigned integer below \<open>bound\<close>: an optional \<open>+\<close>, then digits.\<close>

definition parse_uint :: "nat \<Rightarrow> string \<Rightarrow> nat option" where
  "parse_uint bound s =
     (let t = (case s of [] \<Rightarrow> [] | c # r \<Rightarrow> if c = CHR ''+'' then r else s)
      in if t \<noteq> [] \<and> list_all is_digit t \<and> dec_val t < bound then Some (dec_val t) else None)"

lemma dec_val_simps [simp]:
  "dec_val [] = 0" "dec_val (s @ [c]) = 10 * dec_val s + digit_val c"
  by (simp_all add: dec_val_def)

lemma dec_val_zeros [simp]: "dec_val (replicate k CHR ''0'' @ s) = dec_val s"
  by (induction k) (auto simp: dec_val_def digit_val_def)

lemma of_char_digit_char [simp]: "n < 10 \<Longrightarrow> (of_char (digit_char n) :: nat) = 48 + n"
  by (simp add: digit_char_def)

lemma digit_char_digit [simp]: "n < 10 \<Longrightarrow> is_digit (digit_char n)"
  by (simp add: is_digit_def byte_in_def)

lemma digit_val_digit_char [simp]: "n < 10 \<Longrightarrow> digit_val (digit_char n) = n"
  by (simp add: digit_val_def)

lemma dec_val_show_nat [simp]: "dec_val (show_nat n) = n"
proof (induction n rule: show_nat.induct)
  case (1 n)
  then show ?case
    by (cases "n < 10") (simp_all add: show_nat.simps[of n] dec_val_def[of "[_]"])
qed

lemma show_nat_digits [simp]: "list_all is_digit (show_nat n)"
  by (induction n rule: show_nat.induct) (subst show_nat.simps, simp)

lemma show_nat_nonempty [simp]: "show_nat n \<noteq> []"
  by (subst show_nat.simps) simp

lemma length_show_nat_le: "n < 10 ^ Suc k \<Longrightarrow> length (show_nat n) \<le> Suc k"
proof (induction k arbitrary: n)
  case 0
  then show ?case by (simp add: show_nat.simps)
next
  case (Suc k)
  then have "n div 10 < 10 ^ Suc k" by (simp add: less_mult_imp_div_less mult.commute)
  with Suc.IH have "length (show_nat (n div 10)) \<le> Suc k" by blast
  then show ?case by (subst show_nat.simps) simp
qed

lemma dec_val_pad_left [simp]: "dec_val (pad_left k s) = dec_val s"
  by (simp add: pad_left_def)

lemma length_pad_left [simp]: "length (pad_left k s) = max k (length s)"
  by (simp add: pad_left_def)

lemma pad_left_digits [simp]: "list_all is_digit s \<Longrightarrow> list_all is_digit (pad_left k s)"
  by (auto simp: pad_left_def is_digit_def byte_in_def list_all_iff)

lemma parse_show_nat: "n < bound \<Longrightarrow> parse_uint bound (show_nat n) = Some n"
proof -
  assume "n < bound"
  moreover have "\<not> is_digit CHR ''+''" by (simp add: is_digit_def byte_in_def)
  ultimately show ?thesis
    using show_nat_digits[of n] show_nat_nonempty[of n] dec_val_show_nat[of n]
    by (cases "show_nat n") (auto simp: parse_uint_def Let_def)
qed

section \<open>Invariants of step relations\<close>

text \<open>
  The contract between a component with a step relation and the safety properties stated
  over its reachable states.
\<close>

locale invariant_system =
  fixes init :: "'s \<Rightarrow> bool"
    and step :: "'s \<Rightarrow> 's \<Rightarrow> bool"
    and inv :: "'s \<Rightarrow> bool"
  assumes init_inv: "init s \<Longrightarrow> inv s"
    and step_inv: "inv s \<Longrightarrow> step s t \<Longrightarrow> inv t"
begin

lemma inv_closed: "step\<^sup>*\<^sup>* s t \<Longrightarrow> inv s \<Longrightarrow> inv t"
  by (induction rule: rtranclp_induct) (blast intro: step_inv)+

lemma reachable_inv: "init s \<Longrightarrow> step\<^sup>*\<^sup>* s t \<Longrightarrow> inv t"
  by (blast intro: inv_closed init_inv)

end

end
