(* ===== verification/Ids.thy ===== *)
theory Ids
  imports Prelude "HOL-Library.Word"
begin

text \<open>
  \<^verbatim>\<open>src/ids.rs\<close>: the identifiers of Sessions and of loaded Session instances, 16 random bytes
  that are not all zero, rendered as a prefix and 32 lower-case hexadecimal digits. The
  two parsers and printers meet the interface \<open>canonical_codec\<close>: a text is accepted exactly
  when it is the rendering of a valid value, so equal texts and equal identifiers coincide.
\<close>

unbundle bit_operations_syntax

type_synonym u8 = "8 word"

section \<open>The code\<close>

datatype session_id_error =
  InvalidPrefix | InvalidLength | InvalidHex | ZeroPayload | EntropyUnavailable

definition SESSION_ID_PREFIX :: string where
  "SESSION_ID_PREFIX = ''ses_''"

definition LOAD_ID_PREFIX :: string where
  "LOAD_ID_PREFIX = ''load_''"

definition byte_of :: "char \<Rightarrow> u8" where
  "byte_of c = of_nat (of_char c)"

definition decode_lower_hex :: "char \<Rightarrow> u8 option" where
  "decode_lower_hex v =
     (if byte_in 48 57 v then Some (byte_of v - 48)
      else if byte_in 97 102 v then Some (byte_of v - 97 + 10)
      else None)"

text \<open>The loop over the two-byte chunks of the payload; an odd last byte is not visited.\<close>

fun decode_chunks :: "string \<Rightarrow> session_id_error + u8 list" where
  "decode_chunks (high # low # rest) =
     res_bind (ok_or (decode_lower_hex high) InvalidHex) (\<lambda>h.
     res_bind (ok_or (decode_lower_hex low) InvalidHex) (\<lambda>l.
     res_bind (decode_chunks rest) (\<lambda>bytes.
       Inr ((push_bit 4 h OR l) # bytes))))"
| "decode_chunks _ = Inr []"

definition session_id_from_str :: "string \<Rightarrow> session_id_error + u8 list" where
  "session_id_from_str value =
     res_bind (ok_or (strip_prefix SESSION_ID_PREFIX value) InvalidPrefix) (\<lambda>payload.
       if length payload \<noteq> 32 then Inl InvalidLength
       else res_bind (decode_chunks payload) (\<lambda>bytes.
         if list_all (\<lambda>byte. byte = 0) bytes then Inl ZeroPayload else Inr bytes))"

definition load_id_from_str :: "string \<Rightarrow> session_id_error + u8 list" where
  "load_id_from_str value =
     res_bind (ok_or (strip_prefix LOAD_ID_PREFIX value) InvalidPrefix) (\<lambda>payload.
       if length payload \<noteq> 32 then Inl InvalidLength
       else res_bind (decode_chunks payload) (\<lambda>bytes.
         if list_all (\<lambda>byte. byte = 0) bytes then Inl ZeroPayload else Inr bytes))"

definition hex_char :: "nat \<Rightarrow> char" where
  "hex_char n = (if n < 10 then char_of (48 + n) else char_of (87 + n))"

text \<open>The format \<^verbatim>\<open>{byte:02x}\<close>.\<close>

definition hex_byte :: "u8 \<Rightarrow> string" where
  "hex_byte b = [hex_char (unat b div 16), hex_char (unat b mod 16)]"

definition encode_session_id :: "u8 list \<Rightarrow> string" where
  "encode_session_id bytes = SESSION_ID_PREFIX @ concat (map hex_byte bytes)"

definition encode_load_id :: "u8 list \<Rightarrow> string" where
  "encode_load_id bytes = LOAD_ID_PREFIX @ concat (map hex_byte bytes)"

text \<open>
  \<^verbatim>\<open>SessionId::new\<close> and \<^verbatim>\<open>LoadId::new\<close> draw from the entropy source until a payload is not
  zero. \<open>fill i\<close> is the result of the \<open>i\<close>-th call of \<^verbatim>\<open>getrandom::fill\<close>; a source that returns
  zero for ever keeps the loop running, which is the value \<^term>\<open>None\<close>.
\<close>

partial_function (option) new_id ::
  "(nat \<Rightarrow> u8 list option) \<Rightarrow> nat \<Rightarrow> (session_id_error + u8 list) option" where
  "new_id fill i =
     (case fill i of
        None \<Rightarrow> Some (Inl EntropyUnavailable)
      | Some bytes \<Rightarrow>
          if list_ex (\<lambda>byte. byte \<noteq> 0) bytes then Some (Inr bytes) else new_id fill (Suc i))"

section \<open>The interface of a canonical codec\<close>

locale canonical_codec =
  fixes enc :: "'a \<Rightarrow> string"
    and dec :: "string \<Rightarrow> 'e + 'a"
    and valid :: "'a \<Rightarrow> bool"
  assumes dec_enc: "valid x \<Longrightarrow> dec (enc x) = Inr x"
    and dec_sound: "dec s = Inr x \<Longrightarrow> valid x \<and> s = enc x"
begin

lemma dec_iff: "dec s = Inr x \<longleftrightarrow> valid x \<and> s = enc x"
  using dec_enc dec_sound by blast

lemma enc_inj: "valid x \<Longrightarrow> valid y \<Longrightarrow> enc x = enc y \<longleftrightarrow> x = y"
  by (metis dec_enc sum.inject(2))

lemma dec_unique: "dec s = Inr x \<Longrightarrow> dec t = Inr x \<Longrightarrow> s = t"
  by (metis dec_sound)

end

section \<open>Hexadecimal digits and bytes\<close>

lemma hex_char_decode: "n < 16 \<Longrightarrow> decode_lower_hex (hex_char n) = Some (of_nat n)"
  by (auto simp: hex_char_def decode_lower_hex_def byte_in_def byte_of_def)

lemma decode_hex_char:
  assumes "decode_lower_hex c = Some v"
  shows "unat v < 16 \<and> c = hex_char (unat v)"
proof -
  define n where "n = (of_char c :: nat)"
  have c: "c = char_of n" by (simp add: n_def)
  from assms consider "48 \<le> n" "n \<le> 57" "v = of_nat n - 48" | "97 \<le> n" "n \<le> 102" "v = of_nat n - 97 + 10"
    by (auto simp: decode_lower_hex_def byte_in_def byte_of_def n_def split: if_splits)
  then obtain m where "m < 16" and "v = of_nat m" and "c = hex_char m"
  proof cases
    case 1
    show ?thesis
      by (rule that[of "n - 48"]) (use 1 in \<open>auto simp: c hex_char_def of_nat_diff\<close>)
  next
    case 2
    show ?thesis
      by (rule that[of "n - 87"]) (use 2 in \<open>auto simp: c hex_char_def of_nat_diff\<close>)
  qed
  then show ?thesis by (simp add: unat_of_nat)
qed

lemma join_nibbles:
  assumes "h < 16" and "l < 16"
  shows "push_bit 4 (of_nat h :: u8) OR of_nat l = of_nat (16 * h + l)"
proof -
  have "\<not> bit l n" if "4 \<le> n" for n
  proof -
    have "l < 2 ^ n" using assms(2) power_increasing[OF that, of "2::nat"] by simp
    then show ?thesis by (simp add: bit_iff_odd)
  qed
  then have "push_bit 4 (of_nat h :: u8) AND of_nat l = 0"
    by (intro bit_eqI) (auto simp: bit_simps)
  then have "push_bit 4 (of_nat h :: u8) OR of_nat l = push_bit 4 (of_nat h) + of_nat l"
    by (simp add: disjunctive_add_eq_or)
  then show ?thesis by (simp add: push_bit_eq_mult)
qed

lemma hex_byte_decode:
  "res_bind (ok_or (decode_lower_hex (hex_char (unat (b :: u8) div 16))) InvalidHex) (\<lambda>h.
   res_bind (ok_or (decode_lower_hex (hex_char (unat b mod 16))) InvalidHex) (\<lambda>l.
     f (push_bit 4 h OR l))) = f b"
proof -
  have "unat b < 256" using unsigned_less[of b, where ?'a = nat] by simp
  then have "unat b div 16 < 16" and "unat b mod 16 < 16" by auto
  then show ?thesis by (simp add: hex_char_decode join_nibbles del: of_nat_add of_nat_mult)
qed

lemma decode_chunks_encode [simp]: "decode_chunks (concat (map hex_byte bs)) = Inr bs"
proof (induction bs)
  case (Cons b bs)
  then show ?case
    by (simp add: hex_byte_def hex_byte_decode[where f = "\<lambda>x. Inr (x # bs)"])
qed simp

lemma decode_chunks_sound:
  "decode_chunks s = Inr bs \<Longrightarrow> even (length s) \<Longrightarrow> s = concat (map hex_byte bs)"
proof (induction s arbitrary: bs rule: decode_chunks.induct)
  case (1 c d s)
  from "1.prems"(1) obtain h l bs' where h: "decode_lower_hex c = Some h"
    and l: "decode_lower_hex d = Some l" and bs': "decode_chunks s = Inr bs'"
    and bs: "bs = (push_bit 4 h OR l) # bs'"
    by auto
  have s: "s = concat (map hex_byte bs')"
    using "1.IH"[OF _ _ bs'] h l "1.prems"(2) by simp
  note hx = decode_hex_char[OF h] decode_hex_char[OF l]
  have "push_bit 4 h OR l = of_nat (16 * unat h + unat l)"
    using join_nibbles[of "unat h" "unat l"] hx by simp
  moreover have "16 * unat h + unat l < 256" using hx by linarith
  ultimately have "unat (push_bit 4 h OR l) = 16 * unat h + unat l"
    by (simp add: unat_of_nat del: of_nat_add of_nat_mult)
  with hx s bs show ?case by (simp add: hex_byte_def[of "push_bit 4 h OR l"])
qed auto

lemma length_hex_bytes [simp]: "length (concat (map hex_byte bs)) = 2 * length bs"
  by (induction bs) (auto simp: hex_byte_def)

section \<open>Session and load identifiers\<close>

definition valid_id :: "u8 list \<Rightarrow> bool" where
  "valid_id bytes = (length bytes = 16 \<and> list_ex (\<lambda>byte. byte \<noteq> 0) bytes)"

lemma not_all_zero: "\<not> list_all (\<lambda>byte. byte = 0) bytes \<longleftrightarrow> list_ex (\<lambda>byte. byte \<noteq> 0) bytes"
  by (auto simp: list_all_iff list_ex_iff)

interpretation ses: canonical_codec encode_session_id session_id_from_str valid_id
proof (unfold_locales, goal_cases)
  case (1 bytes)
  then show ?case
    by (auto simp: encode_session_id_def session_id_from_str_def valid_id_def not_all_zero[symmetric])
next
  case (2 s bytes)
  then show ?case
    by (auto simp: encode_session_id_def session_id_from_str_def valid_id_def not_all_zero[symmetric]
        dest!: decode_chunks_sound split: if_splits)
qed

interpretation load: canonical_codec encode_load_id load_id_from_str valid_id
proof (unfold_locales, goal_cases)
  case (1 bytes)
  then show ?case
    by (auto simp: encode_load_id_def load_id_from_str_def valid_id_def not_all_zero[symmetric])
next
  case (2 s bytes)
  then show ?case
    by (auto simp: encode_load_id_def load_id_from_str_def valid_id_def not_all_zero[symmetric]
        dest!: decode_chunks_sound split: if_splits)
qed

text \<open>C27: A text parses as a Session (load) identifier exactly when it is the canonical rendering
  of 16 bytes that are not all zero: parsing inverts printing and no other text is accepted.
  No text is an identifier of both kinds.\<close>

theorem id_parse_canonical:
  "(session_id_from_str s = Inr bytes \<longleftrightarrow> valid_id bytes \<and> s = encode_session_id bytes)
   \<and> (load_id_from_str s = Inr bytes \<longleftrightarrow> valid_id bytes \<and> s = encode_load_id bytes)
   \<and> (session_id_from_str s = Inl InvalidPrefix \<or> load_id_from_str s = Inl InvalidPrefix)"
proof (intro conjI)
  show "session_id_from_str s = Inr bytes \<longleftrightarrow> valid_id bytes \<and> s = encode_session_id bytes"
    by (rule ses.dec_iff)
  show "load_id_from_str s = Inr bytes \<longleftrightarrow> valid_id bytes \<and> s = encode_load_id bytes"
    by (rule load.dec_iff)
  have "strip_prefix ''ses_'' s = None \<or> strip_prefix ''load_'' s = None"
    by (cases s) auto
  then show "session_id_from_str s = Inl InvalidPrefix \<or> load_id_from_str s = Inl InvalidPrefix"
    by (auto simp: session_id_from_str_def load_id_from_str_def SESSION_ID_PREFIX_def LOAD_ID_PREFIX_def)
qed

text \<open>Drawing a new identifier returns as soon as the entropy source fails or yields a payload
  that is not zero: with the first such call at index \<open>k\<close>, the result is the error or exactly
  that payload, and a returned identifier is never all zero.\<close>

theorem new_id_returns:
  assumes "\<forall>i<k. \<exists>bytes. fill i = Some bytes \<and> list_all (\<lambda>byte. byte = 0) bytes"
    and "\<forall>bytes. fill k = Some bytes \<longrightarrow> list_ex (\<lambda>byte. byte \<noteq> 0) bytes"
  shows "new_id fill 0 =
    Some (case fill k of None \<Rightarrow> Inl EntropyUnavailable | Some bytes \<Rightarrow> Inr bytes)"
proof -
  have "new_id fill (k - d) = new_id fill k" if "d \<le> k" for d
    using that
  proof (induction d)
    case (Suc d)
    then have "k - Suc d < k" and step: "Suc (k - Suc d) = k - d" by auto
    with assms(1) obtain bytes where "fill (k - Suc d) = Some bytes"
      and "list_all (\<lambda>byte. byte = 0) bytes" by blast
    then have "new_id fill (k - Suc d) = new_id fill (Suc (k - Suc d))"
      by (subst new_id.simps) (simp add: not_all_zero[symmetric])
    with Suc step show ?case by simp
  qed simp
  from this[of k] have "new_id fill 0 = new_id fill k" by simp
  also have "\<dots> = Some (case fill k of None \<Rightarrow> Inl EntropyUnavailable | Some bytes \<Rightarrow> Inr bytes)"
    using assms(2) by (subst new_id.simps) (auto split: option.splits)
  finally show ?thesis .
qed

theorem new_id_returns_witness:
  "new_id (\<lambda>i. if i = 0 then Some [0, 0] else Some [0, 7]) 0 = Some (Inr [0, 7])"
  using new_id_returns[of 1 "\<lambda>i. if i = 0 then Some [0, 0] else Some [0, 7]"] by simp

end
