(* ===== verification/Store_Time.thy ===== *)
theory Store_Time
  imports Prelude
begin

text \<open>
  \<^verbatim>\<open>src/store/time.rs\<close>: RFC 3339 timestamps. \<open>civil_from_days\<close> is proved against the Gregorian
  calendar itself: day 0 is 1970-01-01 and one more day is the next date. The formatter is
  proved to print only timestamps that the validator accepts.
\<close>

section \<open>The code\<close>

definition MAX_TIMESTAMP_BYTES :: nat where
  "MAX_TIMESTAMP_BYTES = 64"

definition byte_at :: "string \<Rightarrow> nat \<Rightarrow> char option" where
  "byte_at bytes i = (if i < length bytes then Some (bytes ! i) else None)"

definition digits_in :: "string \<Rightarrow> nat \<Rightarrow> nat \<Rightarrow> bool" where
  "digits_in bytes lo hi =
     (lo \<le> hi \<and> hi \<le> length bytes \<and> list_all is_digit (take (hi - lo) (drop lo bytes)))"

definition number_in :: "string \<Rightarrow> nat \<Rightarrow> nat \<Rightarrow> nat option" where
  "number_in bytes lo hi = parse_uint (2 ^ 32) (take (hi - lo) (drop lo bytes))"

definition days_in_month :: "nat \<Rightarrow> nat \<Rightarrow> nat" where
  "days_in_month year month =
     (if month \<in> {1, 3, 5, 7, 8, 10, 12} then 31
      else if month \<in> {4, 6, 9, 11} then 30
      else if month = 2 \<and> (year mod 400 = 0 \<or> (year mod 4 = 0 \<and> year mod 100 \<noteq> 0)) then 29
      else if month = 2 then 28
      else 0)"

definition valid_fields :: "nat \<Rightarrow> nat \<Rightarrow> nat \<Rightarrow> nat \<Rightarrow> nat \<Rightarrow> nat \<Rightarrow> bool" where
  "valid_fields year month day hour minute second =
     (\<not> (year = 0 \<or> \<not> (1 \<le> month \<and> month \<le> 12) \<or> day = 0 \<or> days_in_month year month < day
         \<or> 23 < hour \<or> 59 < minute \<or> 60 < second))"

text \<open>The part after the seconds: an optional fraction, then \<open>Z\<close> or a numeric offset.\<close>

definition valid_offset :: "string \<Rightarrow> nat \<Rightarrow> bool" where
  "valid_offset bytes index =
     (if byte_at bytes index = Some CHR ''Z'' then index + 1 = length bytes
      else if byte_at bytes index = Some CHR ''+'' \<or> byte_at bytes index = Some CHR ''-'' then
        let index = index + 1 in
        if index + 5 \<noteq> length bytes \<or> byte_at bytes (index + 2) \<noteq> Some CHR '':''
           \<or> \<not> digits_in bytes index (index + 2) \<or> \<not> digits_in bytes (index + 3) (index + 5)
        then False
        else
          let offset_hour = (case number_in bytes index (index + 2) of None \<Rightarrow> 24 | Some n \<Rightarrow> n);
              offset_minute = (case number_in bytes (index + 3) (index + 5) of None \<Rightarrow> 60 | Some n \<Rightarrow> n)
          in offset_hour \<le> 23 \<and> offset_minute \<le> 59
      else False)"

definition valid_tail :: "string \<Rightarrow> bool" where
  "valid_tail bytes =
     (if byte_at bytes 19 = Some CHR ''.'' then
        let index = 20 + length (takeWhile is_digit (drop 20 bytes))
        in if index = 20 then False else valid_offset bytes index
      else valid_offset bytes 19)"

definition valid_timestamp :: "string \<Rightarrow> bool" where
  "valid_timestamp bytes =
     (if MAX_TIMESTAMP_BYTES < length bytes \<or> length bytes < 20 then False
      else if byte_at bytes 4 \<noteq> Some CHR ''-'' \<or> byte_at bytes 7 \<noteq> Some CHR ''-''
        \<or> byte_at bytes 10 \<noteq> Some CHR ''T'' \<or> byte_at bytes 13 \<noteq> Some CHR '':''
        \<or> byte_at bytes 16 \<noteq> Some CHR '':'' then False
      else if \<not> digits_in bytes 0 4 \<or> \<not> digits_in bytes 5 7 \<or> \<not> digits_in bytes 8 10
        \<or> \<not> digits_in bytes 11 13 \<or> \<not> digits_in bytes 14 16 \<or> \<not> digits_in bytes 17 19 then False
      else case (number_in bytes 0 4, number_in bytes 5 7, number_in bytes 8 10,
                 number_in bytes 11 13, number_in bytes 14 16, number_in bytes 17 19) of
        (Some year, Some month, Some day, Some hour, Some minute, Some second) \<Rightarrow>
          if \<not> valid_fields year month day hour minute second then False else valid_tail bytes
      | _ \<Rightarrow> False)"

definition civil_from_days :: "int \<Rightarrow> int \<times> nat \<times> nat" where
  "civil_from_days days =
     (let z = days + 719468;
          era = z div 146097;
          day_of_era = z mod 146097;
          year_of_era =
            (day_of_era - day_of_era div 1460 + day_of_era div 36524 - day_of_era div 146096) div 365;
          year = year_of_era + era * 400;
          day_of_year = day_of_era - (365 * year_of_era + year_of_era div 4 - year_of_era div 100);
          month_prime = (5 * day_of_year + 2) div 153;
          day = day_of_year - (153 * month_prime + 2) div 5 + 1;
          month = (if month_prime < 10 then month_prime + 3 else month_prime - 9);
          year = (if month \<le> 2 then year + 1 else year)
      in (year, nat month, nat day))"

definition dec_pad :: "nat \<Rightarrow> nat \<Rightarrow> string" where
  "dec_pad k n = pad_left k (show_nat n)"

text \<open>The seconds are non-negative, so \<^verbatim>\<open>div_euclid\<close> and \<^verbatim>\<open>/\<close> are \<^term>\<open>(div)\<close>, and the year is
  non-negative, so the format prints its digits only.\<close>

definition format_rfc3339_millis :: "nat \<Rightarrow> nat \<Rightarrow> string" where
  "format_rfc3339_millis total_seconds millis =
     (let secs = (if total_seconds < 2 ^ 63 then total_seconds else 0);
          days = secs div 86400;
          seconds_of_day = secs mod 86400;
          (year, month, day) = civil_from_days (int days);
          hour = seconds_of_day div 3600;
          minute = (seconds_of_day mod 3600) div 60;
          second = seconds_of_day mod 60
      in dec_pad 4 (nat year) @ ''-'' @ dec_pad 2 month @ ''-'' @ dec_pad 2 day @ ''T''
         @ dec_pad 2 hour @ '':'' @ dec_pad 2 minute @ '':'' @ dec_pad 2 second
         @ ''.'' @ dec_pad 3 millis @ ''Z'')"

section \<open>The year of the era\<close>

definition yoe :: "int \<Rightarrow> int" where
  "yoe doe = (doe - doe div 1460 + doe div 36524 - doe div 146096) div 365"

definition year_start :: "int \<Rightarrow> int" where
  "year_start y = 365 * y + y div 4 - y div 100"

lemma div_between: "b * q \<le> n \<Longrightarrow> n < b * q + b \<Longrightarrow> n div b = (q :: int)"
  using int_div_pos_eq[of n b q "n - b * q"] by simp

lemma yoe_decomposed:
  fixes q s u v :: int
  assumes "0 \<le> q" "q \<le> 3" "0 \<le> s" "s \<le> 24" "0 \<le> u" "u \<le> 3" "0 \<le> v"
    and "v \<le> 364 \<or> (v = 365 \<and> u = 3 \<and> s \<le> 23)"
  shows "yoe (36524 * q + 1461 * s + 365 * u + v) = 100 * q + 4 * s + u"
proof -
  let ?d = "36524 * q + 1461 * s + 365 * u + v"
  let ?e = "?d div 1460 - (25 * q + s)"
  have small: "1461 * s + 365 * u + v < 36524" using assms by linarith
  have b: "?d div 36524 = q" using small assms by (simp add: int_div_pos_eq)
  have c: "?d div 146096 = 0" using small assms by (intro div_pos_pos_trivial) linarith+
  have "?e = (24 * q + s + 365 * u + v) div 1460"
  proof -
    have "?d = (24 * q + s + 365 * u + v) + 1460 * (25 * q + s)" by simp
    then show ?thesis by simp
  qed
  then have e: "0 \<le> v - ?e \<and> v - ?e < 365"
  proof (cases "24 * q + s + 365 * u + v < 1460")
    case True
    then have "(24 * q + s + 365 * u + v) div 1460 = 0" using assms by (intro div_pos_pos_trivial) linarith+
    with True assms \<open>?e = _\<close> show ?thesis by linarith
  next
    case False
    then have "(24 * q + s + 365 * u + v) div 1460 = 1" using assms by (intro div_between) auto
    with False assms \<open>?e = _\<close> show ?thesis by linarith
  qed
  have "?d - ?d div 1460 + ?d div 36524 - ?d div 146096 = 365 * (100 * q + 4 * s + u) + (v - ?e)"
    unfolding b c by simp
  then show ?thesis unfolding yoe_def using e by (simp add: int_div_pos_eq)
qed

lemma yoe_bounds:
  assumes "0 \<le> doe" and "doe < 146097"
  shows "0 \<le> yoe doe \<and> yoe doe \<le> 399 \<and> year_start (yoe doe) \<le> doe
    \<and> (doe < year_start (yoe doe + 1) \<or> yoe doe = 399)"
proof (cases "doe = 146096")
  case True
  then show ?thesis by (simp add: yoe_def year_start_def)
next
  case False
  define q r where "q = doe div 36524" and "r = doe mod 36524"
  define s t where "s = r div 1461" and "t = r mod 1461"
  define u where "u = min (t div 365) 3"
  define v where "v = t - 365 * u"
  have q: "0 \<le> q" "q \<le> 3" and r: "0 \<le> r" "r < 36524"
    using assms False by (auto simp: q_def r_def)
  have s: "0 \<le> s" "s \<le> 24" and t: "0 \<le> t" "t < 1461" using r by (auto simp: s_def t_def)
  have r_eq: "r = 1461 * s + t" by (simp add: s_def t_def)
  have u: "0 \<le> u" "u \<le> 3" using t by (auto simp: u_def)
  have v: "0 \<le> v" and v': "u < 3 \<Longrightarrow> v < 365" and v'': "v \<le> 365" and v3: "v = 365 \<Longrightarrow> u = 3 \<and> t = 1460"
    using t by (auto simp: v_def u_def min_def split: if_splits)
  have lim: "v \<le> 364 \<or> (v = 365 \<and> u = 3 \<and> s \<le> 23)"
    using v' v'' v3 r r_eq s by (cases "v = 365") auto
  have doe: "doe = 36524 * q + 1461 * s + 365 * u + v"
    using r_eq div_mult_mod_eq[of doe 36524] by (simp add: v_def q_def r_def)
  have y: "yoe doe = 100 * q + 4 * s + u"
    unfolding doe using yoe_decomposed q s u v lim by blast
  have st: "year_start (yoe doe) = 36524 * q + 1461 * s + 365 * u"
  proof -
    have "(100 * q + 4 * s + u) div 4 = 25 * q + s" using u by (intro div_between) auto
    moreover have "(100 * q + 4 * s + u) div 100 = q" using s u by (intro div_between) auto
    ultimately show ?thesis unfolding y year_start_def by simp
  qed
  have "doe < year_start (yoe doe + 1)"
  proof (cases "u = 3")
    case False
    with u have "(100 * q + 4 * s + u + 1) div 4 = 25 * q + s" by (simp add: int_div_pos_eq)
    moreover have "(100 * q + 4 * s + u + 1) div 100 = q" using s u False by (simp add: int_div_pos_eq)
    ultimately show ?thesis using doe v' u False unfolding y year_start_def by simp
  next
    case True
    have "(100 * q + 4 * s + u + 1) div 4 = 25 * q + s + 1" using True by (simp add: int_div_pos_eq)
    moreover have "(100 * q + 4 * s + u + 1) div 100 = (if s = 24 then q + 1 else q)"
      using s True by (auto simp: int_div_pos_eq)
    ultimately show ?thesis using doe lim True unfolding y year_start_def by (cases "s = 24") auto
  qed
  with st doe v y q s u show ?thesis by simp
qed

lemma year_start_step: "year_start y + 365 \<le> year_start (y + 1)"
proof (cases "100 dvd (y + 1)")
  case True
  then obtain k where k: "y + 1 = 100 * k" by blast
  have "y div 100 = k - 1" using k by (intro div_between) auto
  moreover have "(y + 1) div 100 = k" using k by (intro div_between) auto
  moreover have "(y + 1) div 4 = 25 * k" using k by (intro div_between) auto
  moreover have "y div 4 = 25 * k - 1" using k by (intro div_between) auto
  ultimately show ?thesis unfolding year_start_def by simp
next
  case False
  then have "y mod 100 \<noteq> 99" by presburger
  moreover have "y = 100 * (y div 100) + y mod 100" "0 \<le> y mod 100" "y mod 100 < 100" by auto
  ultimately have "(y + 1) div 100 = y div 100" by (intro div_between) linarith+
  moreover have "y div 4 \<le> (y + 1) div 4" by (intro zdiv_mono1) auto
  ultimately show ?thesis unfolding year_start_def by simp
qed

lemma year_start_mono: "y < y' \<Longrightarrow> year_start (y + 1) \<le> year_start y'"
proof (induction "nat (y' - y - 1)" arbitrary: y')
  case 0
  then have "y' = y + 1" by simp
  then show ?case by simp
next
  case (Suc n)
  then have "n = nat (y' - 1 - y - 1)" and "y < y' - 1" by auto
  with Suc.hyps(1)[of "y' - 1"] have "year_start (y + 1) \<le> year_start (y' - 1)" by blast
  with year_start_step[of "y' - 1"] show ?case by simp
qed

lemma yoe_unique:
  assumes "0 \<le> doe" "doe < 146097" "0 \<le> y" "y \<le> 399" "year_start y \<le> doe"
    and "doe < year_start (y + 1) \<or> y = 399"
  shows "yoe doe = y"
proof -
  note b = yoe_bounds[OF assms(1,2)]
  have "\<not> yoe doe < y" using b assms year_start_mono[of "yoe doe" y] by auto
  moreover have "\<not> y < yoe doe" using b assms year_start_mono[of y "yoe doe"] by auto
  ultimately show ?thesis by simp
qed

section \<open>The month of the year\<close>

definition month_of :: "int \<Rightarrow> int" where
  "month_of doy = (let mp = (5 * doy + 2) div 153 in if mp < 10 then mp + 3 else mp - 9)"

definition day_of :: "int \<Rightarrow> int" where
  "day_of doy = doy - (153 * ((5 * doy + 2) div 153) + 2) div 5 + 1"

definition month_len :: "int \<Rightarrow> int" where
  "month_len m = (if m \<in> {1, 3, 5, 7, 8, 10, 12} then 31 else if m \<in> {4, 6, 9, 11} then 30 else 29)"

definition month_row :: "int \<Rightarrow> bool" where
  "month_row doy =
     (let m = month_of doy; d = day_of doy in
      1 \<le> m \<and> m \<le> 12 \<and> 1 \<le> d \<and> d \<le> month_len m \<and> (m \<le> 2 \<longleftrightarrow> 306 \<le> doy)
      \<and> (m = 2 \<and> d = 29 \<longleftrightarrow> doy = 365) \<and> (m = 2 \<and> d = 28 \<longleftrightarrow> doy = 364)
      \<and> (doy < 365 \<longrightarrow>
          (if d < month_len m then month_of (doy + 1) = m \<and> day_of (doy + 1) = d + 1
           else month_of (doy + 1) = (if m = 12 then 1 else m + 1) \<and> day_of (doy + 1) = 1)))"

lemmas month_row_iff = month_row_def [unfolded Let_def]
lemmas month_of_iff = month_of_def [unfolded Let_def]

text \<open>A block of days \<open>lo..hi\<close> is one month: month \<open>m\<close> of the year that starts in March.\<close>

lemma month_block:
  assumes "153 * m \<le> 5 * lo + 2" and "5 * hi + 2 < 153 * m + 153" and "lo \<le> x" and "x \<le> hi"
    and "(153 * m + 2) div 5 = lo"
  shows "month_of x = (if m < 10 then m + 3 else m - 9)" and "day_of x = x + 1 - lo"
proof -
  have "(5 * x + 2) div 153 = m" using assms(1-4) by (intro div_between) auto
  with assms(5) show "month_of x = (if m < 10 then m + 3 else m - 9)" and "day_of x = x + 1 - lo"
    by (simp_all add: month_of_iff day_of_def)
qed

lemma month_row_block:
  assumes b: "153 * m \<le> 5 * lo + 2" "5 * hi + 2 < 153 * m + 153" "(153 * m + 2) div 5 = lo"
    and x: "lo \<le> doy" "doy \<le> hi"
    and next_block: "hi < 365 \<Longrightarrow> 153 * (m + 1) \<le> 5 * (hi + 1) + 2 \<and> (153 * (m + 1) + 2) div 5 = hi + 1"
    and len: "month_len (if m < 10 then m + 3 else m - 9) = hi - lo + 1"
    and m: "0 \<le> m" "m \<le> 11" "m = 11 \<longleftrightarrow> lo = 337" "m = 11 \<and> hi = 365 \<or> m < 11 \<and> hi \<le> 336"
      "10 \<le> m \<longleftrightarrow> 306 \<le> lo" "10 \<le> m \<or> hi < 306"
  shows "month_row doy"
proof -
  let ?M = "if m < 10 then m + 3 else m - 9"
  have here: "month_of doy = ?M" "day_of doy = doy + 1 - lo"
    using month_block[OF b(1,2) x b(3)] by auto
  have "month_of (doy + 1) = ?M \<and> day_of (doy + 1) = doy + 2 - lo" if "doy < hi"
    using month_block[OF b(1,2) _ _ b(3), of "doy + 1"] that x by auto
  moreover have "month_of (hi + 1) = (if m + 1 < 10 then m + 4 else m - 8) \<and> day_of (hi + 1) = 1"
    if "hi < 365"
    using month_block[of "m + 1" "hi + 1" "hi + 1" "hi + 1"] next_block[OF that] b(2) by auto
  ultimately show ?thesis
    using here x len m unfolding month_row_iff by (cases "doy = hi") (auto split: if_splits)
qed

lemma month_row_all:
  assumes "0 \<le> doy" and "doy < 366"
  shows "month_row doy"
proof -
  from assms consider "0 \<le> doy" "doy \<le> 30"
    | "31 \<le> doy" "doy \<le> 60"
    | "61 \<le> doy" "doy \<le> 91"
    | "92 \<le> doy" "doy \<le> 121"
    | "122 \<le> doy" "doy \<le> 152"
    | "153 \<le> doy" "doy \<le> 183"
    | "184 \<le> doy" "doy \<le> 213"
    | "214 \<le> doy" "doy \<le> 244"
    | "245 \<le> doy" "doy \<le> 274"
    | "275 \<le> doy" "doy \<le> 305"
    | "306 \<le> doy" "doy \<le> 336"
    | "337 \<le> doy" "doy \<le> 365"
    by atomize_elim presburger
  then show ?thesis
  proof cases
    case 1
    then show ?thesis by (intro month_row_block[of 0 0 30])
        (simp_all add: month_len_def)
  next
    case 2
    then show ?thesis by (intro month_row_block[of 1 31 60])
        (simp_all add: month_len_def)
  next
    case 3
    then show ?thesis by (intro month_row_block[of 2 61 91])
        (simp_all add: month_len_def)
  next
    case 4
    then show ?thesis by (intro month_row_block[of 3 92 121])
        (simp_all add: month_len_def)
  next
    case 5
    then show ?thesis by (intro month_row_block[of 4 122 152])
        (simp_all add: month_len_def)
  next
    case 6
    then show ?thesis by (intro month_row_block[of 5 153 183])
        (simp_all add: month_len_def)
  next
    case 7
    then show ?thesis by (intro month_row_block[of 6 184 213])
        (simp_all add: month_len_def)
  next
    case 8
    then show ?thesis by (intro month_row_block[of 7 214 244])
        (simp_all add: month_len_def)
  next
    case 9
    then show ?thesis by (intro month_row_block[of 8 245 274])
        (simp_all add: month_len_def)
  next
    case 10
    then show ?thesis by (intro month_row_block[of 9 275 305])
        (simp_all add: month_len_def)
  next
    case 11
    then show ?thesis by (intro month_row_block[of 10 306 336])
        (simp_all add: month_len_def)
  next
    case 12
    then show ?thesis by (intro month_row_block[of 11 337 365])
        (simp_all add: month_len_def)
  qed
qed

section \<open>Stepping through the calendar\<close>

definition march_len :: "int \<Rightarrow> int" where
  "march_len y = (if (y + 1) mod 4 = 0 \<and> ((y + 1) mod 100 \<noteq> 0 \<or> y = 399) then 366 else 365)"

lemma div_succ: "0 < b \<Longrightarrow> (y + 1) div b = y div b + (if (y + 1) mod b = 0 then 1 else (0 :: int))"
proof -
  assume "0 < b"
  have y: "y + 1 = b * ((y + 1) div b) + (y + 1) mod b" by simp
  have r: "0 \<le> (y + 1) mod b" "(y + 1) mod b < b" using \<open>0 < b\<close> by simp_all
  show ?thesis
  proof (cases "(y + 1) mod b = 0")
    case True
    define k where "k = (y + 1) div b"
    have "y + 1 = b * k" using y True by (simp add: k_def)
    then have "y div b = k - 1"
      using \<open>0 < b\<close> by (intro div_between) (simp_all add: right_diff_distrib)
    with True k_def show ?thesis by simp
  next
    case False
    have "y div b = (y + 1) div b" using y r False by (intro div_between) linarith+
    with False show ?thesis by simp
  qed
qed

lemma year_end:
  assumes "0 \<le> y" and "y \<le> 399"
  shows "year_start (y + 1) + (if y = 399 then 1 else 0) = year_start y + march_len y"
proof -
  define e f :: int where "e = (if (y + 1) mod 4 = 0 then 1 else 0)"
    and "f = (if (y + 1) mod 100 = 0 then 1 else 0)"
  have "(4 :: int) dvd 100" by simp
  then have "(y + 1) mod 100 = 0 \<Longrightarrow> (y + 1) mod 4 = 0"
    unfolding mod_eq_0_iff_dvd by (rule dvd_trans)
  moreover have "y = 399 \<Longrightarrow> e = 1 \<and> f = 1" by (simp add: e_def f_def)
  ultimately have "march_len y = 365 + e - f + (if y = 399 then 1 else 0)"
    by (cases "(y + 1) mod 100 = 0"; cases "(y + 1) mod 4 = 0"; cases "y = 399")
      (simp_all add: march_len_def e_def f_def)
  moreover have "year_start (y + 1) = year_start y + 365 + e - f"
    unfolding year_start_def div_succ[of 4 y, simplified] div_succ[of 100 y, simplified] e_def f_def
    by (simp only: ring_distribs mult_1_right)
  ultimately show ?thesis by linarith
qed

lemma yoe_range:
  assumes "0 \<le> doe" and "doe < 146097"
  shows "0 \<le> yoe doe" and "yoe doe \<le> 399" and "year_start (yoe doe) \<le> doe"
    and "doe < year_start (yoe doe) + march_len (yoe doe)"
proof -
  note b = yoe_bounds[OF assms]
  show "0 \<le> yoe doe" "yoe doe \<le> 399" "year_start (yoe doe) \<le> doe" using b by auto
  have "year_start 400 = 146097 - 1" by (simp add: year_start_def)
  with b year_end[of "yoe doe"] assms(2) show "doe < year_start (yoe doe) + march_len (yoe doe)"
    by (cases "yoe doe = 399") auto
qed

lemma march_len_values: "march_len y = 365 \<or> march_len y = 366"
  by (simp add: march_len_def)

lemma yoe_step:
  assumes "0 \<le> doe" and "doe + 1 < 146097"
  shows "doe + 1 < year_start (yoe doe) + march_len (yoe doe) \<Longrightarrow> yoe (doe + 1) = yoe doe"
    and "doe + 1 = year_start (yoe doe) + march_len (yoe doe) \<Longrightarrow>
      yoe (doe + 1) = yoe doe + 1 \<and> doe + 1 = year_start (yoe doe + 1)"
proof -
  note r = yoe_range[of doe] year_end[of "yoe doe"]
  show "yoe (doe + 1) = yoe doe" if "doe + 1 < year_start (yoe doe) + march_len (yoe doe)"
    using r that assms by (intro yoe_unique) (auto split: if_splits)
  assume last: "doe + 1 = year_start (yoe doe) + march_len (yoe doe)"
  have "yoe doe \<noteq> 399"
  proof
    assume "yoe doe = 399"
    with last assms(2) show False by (simp add: year_start_def march_len_def)
  qed
  with last r assms have at: "doe + 1 = year_start (yoe doe + 1)" and "yoe doe + 1 \<le> 399" by auto
  moreover have "doe + 1 < year_start (yoe doe + 1 + 1)"
    using year_start_step[of "yoe doe + 1"] at by simp
  ultimately have "yoe (doe + 1) = yoe doe + 1"
    using r assms by (intro yoe_unique) auto
  with at show "yoe (doe + 1) = yoe doe + 1 \<and> doe + 1 = year_start (yoe doe + 1)" by simp
qed

lemma leap_february:
  assumes "0 \<le> y" and "y \<le> 399" and "0 \<le> era"
  shows "days_in_month (nat (y + era * 400 + 1)) 2 = (if march_len y = 366 then 29 else 28)"
proof -
  let ?n = "y + era * 400 + 1"
  have "0 \<le> ?n" using assms by simp
  then have m: "nat ?n mod k = 0 \<longleftrightarrow> ?n mod int k = 0" for k
    by (metis int_nat_eq of_nat_eq_0_iff zmod_int)
  have "?n mod 4 = (y + 1) mod 4" using mod_mult_self2[of "y + 1" 4 "100 * era"] by (simp add: algebra_simps)
  moreover have "?n mod 100 = (y + 1) mod 100"
    using mod_mult_self2[of "y + 1" 100 "4 * era"] by (simp add: algebra_simps)
  moreover have "?n mod 400 = (y + 1) mod 400"
    using mod_mult_self2[of "y + 1" 400 era] by (simp add: algebra_simps)
  moreover have "(y + 1) mod 400 = 0 \<longleftrightarrow> y = 399"
    using assms by (cases "y = 399") (simp_all add: mod_pos_pos_trivial del: mod_eq_0_iff_dvd)
  ultimately have f: "nat ?n mod 4 = 0 \<longleftrightarrow> (y + 1) mod 4 = 0"
      "nat ?n mod 100 = 0 \<longleftrightarrow> (y + 1) mod 100 = 0" "nat ?n mod 400 = 0 \<longleftrightarrow> y = 399"
    using m[of 4] m[of 100] m[of 400] by (simp_all only: of_nat_numeral)
  show ?thesis
    unfolding days_in_month_def march_len_def f
    by (cases "y = 399"; cases "(y + 1) mod 4 = 0"; cases "(y + 1) mod 100 = 0") simp_all
qed

definition next_date :: "int \<times> nat \<times> nat \<Rightarrow> int \<times> nat \<times> nat" where
  "next_date date =
     (case date of (y, m, d) \<Rightarrow>
        if d < days_in_month (nat y) m then (y, m, d + 1)
        else if m < 12 then (y, m + 1, 1)
        else (y + 1, 1, 1))"

definition date_at :: "int \<Rightarrow> int \<Rightarrow> int \<Rightarrow> int \<times> nat \<times> nat" where
  "date_at era y doy =
     (if month_of doy \<le> 2 then y + era * 400 + 1 else y + era * 400,
      nat (month_of doy), nat (day_of doy))"

lemma civil_date_at:
  "civil_from_days days =
     (let doe = (days + 719468) mod 146097
      in date_at ((days + 719468) div 146097) (yoe doe) (doe - year_start (yoe doe)))"
  by (simp only: civil_from_days_def date_at_def yoe_def year_start_def month_of_def day_of_def Let_def)

lemma days_in_month_len:
  assumes "1 \<le> m" and "m \<le> 12" and "m \<noteq> 2"
  shows "int (days_in_month y (nat m)) = month_len m"
proof -
  have "m \<in> set [1..12]" using assms by simp
  then have "m \<in> set [1, 2, 3, 4, 5, 6, 7, 8, 9, 10, 11, 12]" by (simp add: upto_rec1 del: set_upto)
  with assms(3) show ?thesis by (auto simp: days_in_month_def month_len_def)
qed

lemma next_date_february:
  assumes "0 \<le> y" "y \<le> 399" "0 \<le> era" "0 \<le> doy" "doy < march_len y" and feb: "month_of doy = 2"
  shows "next_date (date_at era y doy) =
    (if doy + 1 < march_len y then date_at era y (doy + 1) else (y + era * 400 + 1, 3, 1))"
proof -
  define d where "d = day_of doy"
  define n where "n = y + era * 400 + 1"
  have "doy < 366" using assms march_len_values[of y] by auto
  with assms have "month_row doy" by (intro month_row_all)
  with feb have d: "1 \<le> d" "d \<le> 29" "d = 29 \<longleftrightarrow> doy = 365" "d = 28 \<longleftrightarrow> doy = 364"
    and nx: "doy < 365 \<Longrightarrow> d < 29 \<Longrightarrow> month_of (doy + 1) = 2 \<and> day_of (doy + 1) = d + 1"
    by (auto simp: month_row_iff month_len_def d_def)
  have date: "date_at era y doy = (n, 2, nat d)" by (simp add: date_at_def feb d_def n_def)
  have days: "days_in_month (nat n) 2 = (if march_len y = 366 then 29 else 28)"
    unfolding n_def using leap_february assms by blast
  have step: "date_at era y (doy + 1) = (n, 2, nat d + 1)" if "doy < 365" "d < 29"
    using nx[OF that] d by (simp add: date_at_def n_def nat_add_distrib)
  consider (early) "doy < 364" | (d28) "doy = 364" | (d29) "doy = 365"
    using \<open>doy < 366\<close> by linarith
  then show ?thesis
  proof cases
    case early
    with d have "d < 28" by auto
    then have "nat d < days_in_month (nat n) 2" using days d by (auto simp: nat_less_iff)
    moreover have "doy + 1 < march_len y" using early march_len_values[of y] by auto
    ultimately show ?thesis using step early \<open>d < 28\<close> by (simp add: date next_date_def)
  next
    case d28
    with d have "d = 28" by simp
    then show ?thesis
      unfolding date using step d28 days march_len_values[of y] by (auto simp: next_date_def n_def)
  next
    case d29
    with d have "d = 29" by simp
    moreover have "march_len y = 366" using assms(5) d29 march_len_values[of y] by auto
    ultimately show ?thesis unfolding date using d29 days by (simp add: next_date_def n_def)
  qed
qed

lemma next_date_other:
  assumes "0 \<le> doy" "doy < march_len y" and "month_of doy \<noteq> 2"
  shows "next_date (date_at era y doy) = date_at era y (doy + 1) \<and> doy + 1 < march_len y"
proof -
  define m d where "m = month_of doy" and "d = day_of doy"
  have "doy < 366" using assms march_len_values[of y] by auto
  with assms have row: "month_row doy" by (intro month_row_all)
  then have b: "1 \<le> m" "m \<le> 12" "1 \<le> d" "d \<le> month_len m"
    by (auto simp: month_row_iff m_def d_def)
  have "doy \<noteq> 364" "doy \<noteq> 365" using row assms(3) by (auto simp: month_row_iff)
  then have early: "doy < 364" using \<open>doy < 366\<close> by linarith
  have len: "int (days_in_month (nat z) (nat m)) = month_len m" for z
    using b assms(3) by (intro days_in_month_len) (auto simp: m_def)
  have lt: "nat d < days_in_month (nat z) (nat m) \<longleftrightarrow> d < month_len m" for z
    using b len[of z] by linarith
  have "(if d < month_len m then month_of (doy + 1) = m \<and> day_of (doy + 1) = d + 1
     else month_of (doy + 1) = (if m = 12 then 1 else m + 1) \<and> day_of (doy + 1) = 1)"
    using row early by (simp add: month_row_iff m_def d_def)
  moreover have "m \<le> 2 \<longleftrightarrow> 306 \<le> doy" and "month_of (doy + 1) \<le> 2 \<longleftrightarrow> 306 \<le> doy + 1"
    using row month_row_all[of "doy + 1"] assms(1) early by (auto simp: month_row_iff m_def)
  ultimately have "next_date (date_at era y doy) = date_at era y (doy + 1)"
    using b assms(3)
    by (auto simp: next_date_def date_at_def lt nat_add_distrib nat_less_iff
        simp flip: m_def d_def split: if_splits)
  then show ?thesis using early march_len_values[of y] by auto
qed

lemma next_date_at:
  assumes "0 \<le> y" "y \<le> 399" "0 \<le> era" "0 \<le> doy" "doy < march_len y"
  shows "next_date (date_at era y doy) =
    (if doy + 1 < march_len y then date_at era y (doy + 1) else (y + era * 400 + 1, 3, 1))"
  using assms next_date_february next_date_other[of doy y era] by (cases "month_of doy = 2") auto

lemma date_at_march_1 [simp]: "date_at era y 0 = (y + era * 400, 3, 1)"
  by (simp add: date_at_def month_of_iff day_of_def)

lemma era_step:
  fixes z :: int
  shows "(z + 1) mod 146097 = (if z mod 146097 = 146096 then 0 else z mod 146097 + 1)"
    and "(z + 1) div 146097 = (if z mod 146097 = 146096 then z div 146097 + 1 else z div 146097)"
proof -
  define k d where "k = z div 146097" and "d = z mod 146097"
  have z: "z = 146097 * k + d" and d: "0 \<le> d" "d < 146097" by (simp_all add: k_def d_def)
  have "(z + 1) div 146097 = (if d = 146096 then k + 1 else k)"
    using z d by (cases "d = 146096") (simp_all add: int_div_pos_eq)
  moreover have "(z + 1) mod 146097 = z + 1 - 146097 * ((z + 1) div 146097)"
    by (simp add: minus_mult_div_eq_mod)
  ultimately show "(z + 1) mod 146097 = (if z mod 146097 = 146096 then 0 else z mod 146097 + 1)"
    and "(z + 1) div 146097 = (if z mod 146097 = 146096 then z div 146097 + 1 else z div 146097)"
    unfolding k_def[symmetric] d_def[symmetric] using z by simp_all
qed

text \<open>C29: \<^verbatim>\<open>civil_from_days\<close> is the Gregorian calendar: day 0 is 1970-01-01, and every following
  day is the next date by the month lengths the validator uses, leap years included.\<close>

theorem civil_from_days_calendar:
  assumes "0 \<le> days"
  shows "civil_from_days 0 = (1970, 1, 1)
    \<and> civil_from_days (days + 1) = next_date (civil_from_days days)"
proof
  show "civil_from_days 0 = (1970, 1, 1)" by code_simp
  define z where "z = days + 719468"
  define era doe where "era = z div 146097" and "doe = z mod 146097"
  define y where "y = yoe doe"
  have doe: "0 \<le> doe" "doe < 146097" and era: "0 \<le> era"
    using assms by (auto simp: doe_def era_def z_def)
  note r = yoe_range[OF doe, folded y_def]
  have now: "civil_from_days days = date_at era y (doe - year_start y)"
    by (simp only: civil_date_at Let_def era_def doe_def z_def y_def)
  have next_day: "civil_from_days (days + 1) =
      date_at ((z + 1) div 146097) (yoe ((z + 1) mod 146097))
        ((z + 1) mod 146097 - year_start (yoe ((z + 1) mod 146097)))"
    by (simp only: civil_date_at Let_def z_def ac_simps)
  have nd: "next_date (date_at era y (doe - year_start y)) =
    (if doe + 1 < year_start y + march_len y then date_at era y (doe + 1 - year_start y)
     else (y + era * 400 + 1, 3, 1))"
    using next_date_at[of y era "doe - year_start y"] r era by (simp add: algebra_simps)
  show "civil_from_days (days + 1) = next_date (civil_from_days days)"
  proof (cases "doe = 146096")
    case True
    then have "yoe doe = 399" and "yoe 0 = 0" by (simp_all add: yoe_def)
    then show ?thesis
      unfolding now nd next_day using True
      by (simp add: era_step flip: doe_def era_def add: y_def year_start_def march_len_def)
  next
    case False
    then have lim: "doe + 1 < 146097" using doe by simp
    have st: "(z + 1) mod 146097 = doe + 1" "(z + 1) div 146097 = era"
      using False by (simp_all add: era_step flip: doe_def era_def)
    show ?thesis
    proof (cases "doe + 1 < year_start y + march_len y")
      case True
      then have "yoe (doe + 1) = y" using yoe_step(1)[OF doe(1) lim] by (simp add: y_def)
      with True show ?thesis unfolding now nd next_day st by simp
    next
      case last: False
      with r(4) have "doe + 1 = year_start y + march_len y" by linarith
      then have "yoe (doe + 1) = y + 1 \<and> doe + 1 = year_start (y + 1)"
        using yoe_step(2)[OF doe(1) lim] by (simp only: y_def)
      then have "yoe (doe + 1) = y + 1" and "doe + 1 - year_start (y + 1) = 0" by linarith+
      with last show ?thesis unfolding now nd next_day st by simp
    qed
  qed
qed

theorem civil_from_days_calendar_witness:
  "civil_from_days 19782 = (2024, 2, 29) \<and> civil_from_days (19782 + 1) = (2024, 3, 1)"
proof -
  have "civil_from_days 19782 = (2024, 2, 29)" by code_simp
  moreover have "next_date (2024, 2, 29) = (2024, 3, 1)" by (simp add: next_date_def days_in_month_def)
  ultimately show ?thesis using civil_from_days_calendar[of 19782] by simp
qed

section \<open>Formatted timestamps\<close>

lemma dec_pad_digits [simp]: "list_all is_digit (dec_pad k n)"
  by (simp add: dec_pad_def)

lemma length_dec_pad: "0 < k \<Longrightarrow> n < 10 ^ k \<Longrightarrow> length (dec_pad k n) = k"
  using length_show_nat_le[of n "k - 1"] by (cases k) (auto simp: dec_pad_def max_def)

lemma parse_digits:
  assumes "list_all is_digit s" and "s \<noteq> []" and "dec_val s < bound"
  shows "parse_uint bound s = Some (dec_val s)"
proof -
  have "\<not> is_digit CHR ''+''" by (simp add: is_digit_def byte_in_def)
  with assms show ?thesis by (cases s) (auto simp: parse_uint_def Let_def)
qed

lemma parse_dec_pad: "0 < k \<Longrightarrow> n < bound \<Longrightarrow> parse_uint bound (dec_pad k n) = Some n"
  using parse_digits[of "dec_pad k n" bound] dec_pad_digits[of k n]
  by (auto simp: dec_pad_def simp flip: length_greater_0_conv)

lemma split_field:
  assumes "s = p @ f @ r" and "length p = lo" and "length f = hi - lo" and "lo \<le> hi"
  shows "take (hi - lo) (drop lo s) = f" and "hi \<le> length s"
  using assms by auto

lemma field_digits:
  assumes "s = p @ dec_pad k n @ r" and "length p = lo" and "hi = lo + k" and "0 < k" and "n < 10 ^ k"
    and "n < 2 ^ 32"
  shows "digits_in s lo hi" and "number_in s lo hi = Some n"
  using assms split_field[of s p "dec_pad k n" r lo hi]
  by (auto simp: digits_in_def number_in_def length_dec_pad parse_dec_pad)

lemma byte_at_append: "length p = i \<Longrightarrow> byte_at (p @ c # r) i = Some c"
  by (auto simp: byte_at_def)

lemma civil_from_days_range:
  assumes "0 \<le> days" and "days < 2932897"
  obtains y m d where "civil_from_days days = (y, m, d)" and "0 < y" and "y \<le> 9999"
    and "1 \<le> m" and "m \<le> 12" and "1 \<le> d" and "d \<le> days_in_month (nat y) m"
proof -
  define z where "z = days + 719468"
  define era doe where "era = z div 146097" and "doe = z mod 146097"
  define yr where "yr = yoe doe"
  define doy where "doy = doe - year_start yr"
  have doe: "0 \<le> doe" "doe < 146097" by (simp_all add: doe_def)
  note r = yoe_range[OF doe, folded yr_def]
  have z: "z = 146097 * era + doe" by (simp add: era_def doe_def)
  have "719468 \<le> z" "z < 3652365" using assms by (simp_all add: z_def)
  then have era: "4 \<le> era" "era \<le> 24" and cap: "era = 24 \<Longrightarrow> doe < 146037"
    using z doe by linarith+
  have doy: "0 \<le> doy" "doy < 366" using r march_len_values[of yr] by (auto simp: doy_def)
  have row: "month_row doy" using doy by (rule month_row_all)
  let ?m = "month_of doy" and ?d = "day_of doy"
  define y where "y = (if ?m \<le> 2 then yr + era * 400 + 1 else yr + era * 400)"
  have c: "civil_from_days days = (y, nat ?m, nat ?d)"
    by (simp only: civil_date_at Let_def date_at_def y_def doy_def yr_def era_def doe_def z_def)
  have "y \<le> 9999"
  proof (cases "era = 24 \<and> yr = 399")
    case True
    with cap have "doy < 306" by (simp add: doy_def year_start_def)
    with row True show ?thesis by (simp add: month_row_iff y_def)
  next
    case False
    with era r have "yr + era * 400 + 1 \<le> 9999" by (cases "era = 24") auto
    then show ?thesis by (simp add: y_def)
  qed
  moreover have "nat ?d \<le> days_in_month (nat y) (nat ?m)"
  proof (cases "?m = 2")
    case True
    then have "days_in_month (nat y) (nat ?m) = (if march_len yr = 366 then 29 else 28)"
      using leap_february r era by (simp add: y_def)
    with True row r march_len_values[of yr] show ?thesis
      by (auto simp: month_row_iff month_len_def doy_def)
  next
    case False
    with row have "int (days_in_month (nat y) (nat ?m)) = month_len ?m"
      by (intro days_in_month_len) (auto simp: month_row_iff)
    with row show ?thesis by (auto simp: month_row_iff)
  qed
  moreover have "0 < y" using era r by (simp add: y_def)
  moreover have "1 \<le> ?m" "?m \<le> 12" "1 \<le> ?d" using row by (simp_all add: month_row_iff)
  ultimately show ?thesis using c by (intro that[of y "nat ?m" "nat ?d"]) auto
qed

lemma layout_valid:
  assumes s: "s = dec_pad 4 y @ ''-'' @ dec_pad 2 m @ ''-'' @ dec_pad 2 d @ ''T''
         @ dec_pad 2 h @ '':'' @ dec_pad 2 mi @ '':'' @ dec_pad 2 se @ ''.'' @ dec_pad 3 ms @ ''Z''"
    and b: "y \<le> 9999" "m \<le> 99" "d \<le> 99" "h \<le> 99" "mi \<le> 99" "se \<le> 99" "ms \<le> 999"
    and ok: "valid_fields y m d h mi se"
  shows "valid_timestamp s \<and> length s = 24"
proof -
  define A B C D E F M where "A = dec_pad 4 y" and "B = dec_pad 2 m" and "C = dec_pad 2 d"
    and "D = dec_pad 2 h" and "E = dec_pad 2 mi" and "F = dec_pad 2 se" and "M = dec_pad 3 ms"
  note fields = A_def B_def C_def D_def E_def F_def M_def
  have len: "length A = 4" "length B = 2" "length C = 2" "length D = 2" "length E = 2" "length F = 2"
      "length M = 3"
    using b by (simp_all add: fields length_dec_pad)
  have s': "s = A @ ''-'' @ B @ ''-'' @ C @ ''T'' @ D @ '':'' @ E @ '':'' @ F @ ''.'' @ M @ ''Z''"
    using s by (simp add: fields)
  have tail: "drop 20 s = M @ ''Z''" using len by (simp add: s')
  have M: "list_all is_digit M" "\<not> is_digit CHR ''Z''" by (simp_all add: fields is_digit_def byte_in_def)
  have run: "takeWhile is_digit (drop 20 s) = M"
    unfolding tail using M by (simp add: takeWhile_append list_all_iff)
  have at: "byte_at s 4 = Some CHR ''-''" "byte_at s 7 = Some CHR ''-''" "byte_at s 10 = Some CHR ''T''"
      "byte_at s 13 = Some CHR '':''" "byte_at s 16 = Some CHR '':''" "byte_at s 19 = Some CHR ''.''"
      "byte_at s 23 = Some CHR ''Z''" "length s = 24"
    using len by (simp_all add: s' byte_at_def nth_append)
  have "digits_in s 0 4 \<and> number_in s 0 4 = Some y"
    using field_digits[of s "[]" 4 y _ 0 4] s b by auto
  moreover have "digits_in s 5 7 \<and> number_in s 5 7 = Some m"
    using field_digits[of s "A @ ''-''" 2 m _ 5 7] s' b len by (auto simp: B_def)
  moreover have "digits_in s 8 10 \<and> number_in s 8 10 = Some d"
    using field_digits[of s "A @ ''-'' @ B @ ''-''" 2 d _ 8 10] s' b len by (auto simp: C_def)
  moreover have "digits_in s 11 13 \<and> number_in s 11 13 = Some h"
    using field_digits[of s "A @ ''-'' @ B @ ''-'' @ C @ ''T''" 2 h _ 11 13] s' b len by (auto simp: D_def)
  moreover have "digits_in s 14 16 \<and> number_in s 14 16 = Some mi"
    using field_digits[of s "A @ ''-'' @ B @ ''-'' @ C @ ''T'' @ D @ '':''" 2 mi _ 14 16] s' b len
    by (auto simp: E_def)
  moreover have "digits_in s 17 19 \<and> number_in s 17 19 = Some se"
    using field_digits[of s "A @ ''-'' @ B @ ''-'' @ C @ ''T'' @ D @ '':'' @ E @ '':''" 2 se _ 17 19] s' b len
    by (auto simp: F_def)
  moreover have "valid_tail s"
    using at len by (simp add: valid_tail_def run Let_def valid_offset_def)
  ultimately show ?thesis
    using at ok by (simp add: valid_timestamp_def MAX_TIMESTAMP_BYTES_def)
qed

text \<open>Every timestamp the store writes is one it accepts back: for any time before the year
  10000 the formatted text is a valid RFC 3339 timestamp of exactly 24 bytes.\<close>

theorem formatted_timestamp_valid:
  assumes "total_seconds < 253402300800" and "millis < 1000"
  shows "valid_timestamp (format_rfc3339_millis total_seconds millis)
    \<and> length (format_rfc3339_millis total_seconds millis) = 24"
proof -
  define t where "t = total_seconds mod 86400"
  have "total_seconds div 86400 < 2932897" using assms(1) by (simp add: less_mult_imp_div_less)
  then obtain y m d where c: "civil_from_days (int (total_seconds div 86400)) = (y, m, d)"
    and y: "0 < y" "y \<le> 9999" and m: "1 \<le> m" "m \<le> 12" and d: "1 \<le> d" "d \<le> days_in_month (nat y) m"
    using civil_from_days_range[of "int (total_seconds div 86400)"] by auto
  have t: "t div 3600 \<le> 23" by (simp add: t_def less_mult_imp_div_less flip: less_Suc_eq_le)
  have "days_in_month (nat y) m \<le> 31" by (simp add: days_in_month_def)
  with d have d': "d \<le> 99" by simp
  have ok: "valid_fields (nat y) m d (t div 3600) ((t mod 3600) div 60) (t mod 60)"
  proof -
    have "(t mod 3600) div 60 < 60" by (simp add: less_mult_imp_div_less)
    moreover have "t mod 60 < 60" by simp
    ultimately show ?thesis using y m d t by (simp add: valid_fields_def)
  qed
  have "total_seconds < 2 ^ 63" using assms(1) by simp
  then have "format_rfc3339_millis total_seconds millis =
      dec_pad 4 (nat y) @ ''-'' @ dec_pad 2 m @ ''-'' @ dec_pad 2 d @ ''T'' @ dec_pad 2 (t div 3600)
      @ '':'' @ dec_pad 2 ((t mod 3600) div 60) @ '':'' @ dec_pad 2 (t mod 60)
      @ ''.'' @ dec_pad 3 millis @ ''Z''"
    by (simp add: format_rfc3339_millis_def Let_def c t_def)
  then show ?thesis
    by (rule layout_valid) (use y m d' assms(2) ok in \<open>auto simp: valid_fields_def\<close>)
qed

theorem formatted_timestamp_valid_witness:
  "format_rfc3339_millis 45296 7 = ''1970-01-01T12:34:56.007Z''
   \<and> valid_timestamp ''1970-01-01T12:34:56.007Z''"
proof -
  have "civil_from_days 0 = (1970, 1, 1)" by code_simp
  then have "format_rfc3339_millis 45296 7 = ''1970-01-01T12:34:56.007Z''"
    by (simp add: format_rfc3339_millis_def Let_def dec_pad_def pad_left_def show_nat.simps
        digit_char_def char_of_def) (simp add: numeral_2_eq_2 bit_0)
  with formatted_timestamp_valid[of 45296 7] show ?thesis by simp
qed

end
