(* ===== verification/Results.thy ===== *)
theory Results
  imports Prelude "HOL-Library.AList" "HOL-Library.Multiset"
begin

text \<open>
  The completion catalog of \<^verbatim>\<open>src/sessions/results.rs\<close>: per loaded Session a bounded window
  of completion entries, and the retained result sources whose memory is charged against a
  budget per load and a budget for the whole process.

  The map from loads to results is an association list. The two counters a
  \<^verbatim>\<open>SourceCharge\<close> shares through \<^verbatim>\<open>Arc\<close> with its load are a cell of an explicit store, because a
  charge may outlive the load it was taken for: \<open>lr_cell\<close> and \<open>sc_cell\<close> are the address of that
  cell. Panics (\<^verbatim>\<open>expect\<close>, \<^verbatim>\<open>unwrap\<close>) are the value \<^const>\<open>None\<close>. The size of the struct
  \<^verbatim>\<open>Retained\<close>, which the compiler chooses, and the payload of a source are parameters.

  \<open>cstep\<close> is the step relation of the catalog: one critical section of the code per step, and
  the end of a charge's life whenever the catalog no longer refers to it. The invariant
  \<open>catalog_ok\<close> holds in every reachable state.
\<close>

type_synonym LoopId = string
type_synonym LoadId = string

section \<open>Data\<close>

record ResultLimits =
  entries_per_load :: nat
  max_entries :: nat
  max_metadata_bytes :: nat
  source_bytes_per_load :: nat
  sources_per_load :: nat
  all_source_bytes :: nat
  max_sources :: nat

definition default_limits :: ResultLimits where
  "default_limits =
     \<lparr>entries_per_load = 256, max_entries = 4096, max_metadata_bytes = 8 * 1024 * 1024,
      source_bytes_per_load = 64 * 1024 * 1024, sources_per_load = 32,
      all_source_bytes = 256 * 1024 * 1024, max_sources = 128\<rparr>"

datatype CompletionKind = Reported | InternalError

datatype CompletionOutcome = CompletedOutcome | CancelledOutcome | FailedOutcome | UnknownOutcome

datatype ResultAvailability = Live | Stored | Unavailable

datatype UnavailableReason = Expired | TooLarge | ResourceLimit | InternalReason | NotRetained

datatype TurnPersistence = Persisted | NotPersisted

record CompletionEntry =
  seq :: nat
  ce_loop_id :: LoopId
  ce_input_id :: "string option"
  completion_kind :: CompletionKind
  outcome_kind :: "CompletionOutcome option"
  ce_persistence :: "TurnPersistence option"
  persistence_uncertain :: bool
  availability :: ResultAvailability
  unavailable_reason :: "UnavailableReason option"
  after_saved_loop_id :: "LoopId option"

record SourceCharge =
  sc_bytes :: nat
  sc_cell :: nat

record 'p ResultSource =
  payload :: 'p
  charge :: SourceCharge

record 'p Retained =
  entry :: CompletionEntry
  source :: "'p ResultSource option"
  ret_order :: nat
  ret_metadata :: nat

record 'p LoadResults =
  through :: nat
  lr_entries :: "'p Retained list"
  lr_cell :: nat

record 'p Catalog =
  loads :: "(LoadId \<times> 'p LoadResults) list"
  order :: nat
  cat_metadata :: nat
  cat_entries :: nat
  source_bytes :: nat
  source_count :: nat
  cells :: "nat \<Rightarrow> nat \<times> nat"
  next_cell :: nat

record CompletionWindow =
  through_seq :: nat
  retained_from_seq :: nat
  win_entries :: "CompletionEntry list"
  truncated :: bool

definition new_catalog :: "'p Catalog" where
  "new_catalog =
     \<lparr>loads = [], order = 0, cat_metadata = 0, cat_entries = 0, source_bytes = 0,
      source_count = 0, cells = (\<lambda>_. (0, 0)), next_cell = 0\<rparr>"

section \<open>Operations\<close>

definition register :: "LoadId \<Rightarrow> 'p Catalog \<Rightarrow> 'p Catalog" where
  "register ld st = st\<lparr>
     loads := AList.update ld \<lparr>through = 0, lr_entries = [], lr_cell = next_cell st\<rparr> (loads st),
     next_cell := Suc (next_cell st)\<rparr>"

definition entry_sources :: "'p Retained list \<Rightarrow> 'p ResultSource list" where
  "entry_sources es = List.map_filter source es"

definition remove_load :: "LoadId \<Rightarrow> 'p Catalog \<Rightarrow> 'p Catalog \<times> 'p ResultSource list" where
  "remove_load ld st =
     (case map_of (loads st) ld of
        None \<Rightarrow> (st, [])
      | Some results \<Rightarrow>
          (st\<lparr>loads := AList.delete ld (loads st),
              cat_entries := cat_entries st - length (lr_entries results),
              cat_metadata := cat_metadata st - sum_list (map ret_metadata (lr_entries results))\<rparr>,
           entry_sources (lr_entries results)))"

definition charge_add :: "SourceCharge \<Rightarrow> 'p Catalog \<Rightarrow> 'p Catalog" where
  "charge_add c st = st\<lparr>
     source_bytes := source_bytes st + sc_bytes c,
     source_count := source_count st + 1,
     cells := (cells st)(sc_cell c :=
       (fst (cells st (sc_cell c)) + sc_bytes c, snd (cells st (sc_cell c)) + 1))\<rparr>"

definition charge_drop :: "SourceCharge \<Rightarrow> 'p Catalog \<Rightarrow> 'p Catalog" where
  "charge_drop c st = st\<lparr>
     source_bytes := source_bytes st - sc_bytes c,
     source_count := source_count st - 1,
     cells := (cells st)(sc_cell c :=
       (fst (cells st (sc_cell c)) - sc_bytes c, snd (cells st (sc_cell c)) - 1))\<rparr>"

definition saturating_add :: "nat \<Rightarrow> nat \<Rightarrow> nat" where
  "saturating_add a b = min (a + b) (u64_bound - 1)"

fun min_by_order :: "('k \<times> nat) list \<Rightarrow> ('k \<times> nat) option" where
  "min_by_order [] = None"
| "min_by_order (x # xs) =
     (case min_by_order xs of
        None \<Rightarrow> Some x
      | Some y \<Rightarrow> if snd x \<le> snd y then Some x else Some y)"

definition source_orders :: "'p LoadResults \<Rightarrow> nat list" where
  "source_orders results = map ret_order (filter (\<lambda>e. source e \<noteq> None) (lr_entries results))"

definition local_full :: "ResultLimits \<Rightarrow> 'p LoadResults \<Rightarrow> nat \<Rightarrow> 'p Catalog \<Rightarrow> bool" where
  "local_full lim results bytes st =
     (sources_per_load lim \<le> snd (cells st (lr_cell results))
      \<or> source_bytes_per_load lim < saturating_add (fst (cells st (lr_cell results))) bytes)"

definition global_full :: "ResultLimits \<Rightarrow> nat \<Rightarrow> 'p Catalog \<Rightarrow> bool" where
  "global_full lim bytes st =
     (max_sources lim \<le> source_count st
      \<or> all_source_bytes lim < saturating_add (source_bytes st) bytes)"

definition expire :: "'p Retained \<Rightarrow> 'p Retained" where
  "expire e = e\<lparr>source := None,
     entry := (entry e)\<lparr>availability := Unavailable, unavailable_reason := Some Expired\<rparr>\<rparr>"

fun expire_first :: "nat \<Rightarrow> 'p Retained list \<Rightarrow> ('p Retained list \<times> 'p ResultSource) option" where
  "expire_first old [] = None"
| "expire_first old (e # es) =
     (if ret_order e = old
      then map_option (\<lambda>s. (expire e # es, s)) (source e)
      else map_option (\<lambda>(es', s). (e # es', s)) (expire_first old es))"

definition set_entries :: "LoadId \<Rightarrow> 'p LoadResults \<Rightarrow> 'p Retained list \<Rightarrow> 'p Catalog \<Rightarrow> 'p Catalog" where
  "set_entries ld results es st =
     st\<lparr>loads := AList.update ld (results\<lparr>lr_entries := es\<rparr>) (loads st)\<rparr>"

text \<open>One round of the loop of \<^verbatim>\<open>reserve\<close>, the part of it under the state lock.\<close>

datatype 'p round =
    Granted SourceCharge "'p Catalog"
  | Refused UnavailableReason "'p Catalog"
  | Evicted LoadId "'p ResultSource" "'p Catalog"

definition reserve_round :: "ResultLimits \<Rightarrow> LoadId \<Rightarrow> nat \<Rightarrow> 'p Catalog \<Rightarrow> 'p round option" where
  "reserve_round lim ld bytes st =
     (case map_of (loads st) ld of
        None \<Rightarrow> None
      | Some results \<Rightarrow>
          let lf = local_full lim results bytes st in
          if \<not> lf \<and> \<not> global_full lim bytes st
          then let c = \<lparr>sc_bytes = bytes, sc_cell = lr_cell results\<rparr>
               in Some (Granted c (charge_add c st))
          else
            (case min_by_order
                    (filter (\<lambda>(key, _). \<not> lf \<or> key = ld)
                      (concat (map (\<lambda>(key, r). map (Pair key) (source_orders r)) (loads st)))) of
               None \<Rightarrow> Some (Refused ResourceLimit st)
             | Some (key, oldest) \<Rightarrow>
                 (case map_of (loads st) key of
                    None \<Rightarrow> None
                  | Some victim \<Rightarrow>
                      (case expire_first oldest (lr_entries victim) of
                         None \<Rightarrow> None
                       | Some (es, removed) \<Rightarrow>
                           Some (Evicted key removed (set_entries key victim es st))))))"

definition sources_left :: "'p Catalog \<Rightarrow> nat" where
  "sources_left st = sum_list (map (\<lambda>(_, r). length (source_orders r)) (loads st))"

lemma map_of_sum_list_update:
  fixes f :: "'v \<Rightarrow> 'm::comm_monoid_add"
  assumes "map_of xs k = Some v"
  shows "sum_list (map (\<lambda>(_, r). f r) (AList.update k w xs)) + f v
         = sum_list (map (\<lambda>(_, r). f r) xs) + f w"
  using assms by (induction xs) (auto simp: ac_simps split: if_splits)

lemma expire_first_Some:
  assumes "expire_first old es = Some (es', s)"
  obtains xs e ys where "es = xs @ e # ys" and "es' = xs @ expire e # ys"
    and "source e = Some s" and "ret_order e = old"
  using assms
proof (induction es arbitrary: es' thesis)
  case (Cons e es)
  show ?case
  proof (cases "ret_order e = old")
    case True
    with Cons.prems show ?thesis by (auto intro: Cons.prems(1)[of "[]" e es])
  next
    case False
    with Cons.prems(2) obtain es'' where "expire_first old es = Some (es'', s)" and "es' = e # es''"
      by auto
    with Cons.IH[of es''] Cons.prems(1) show ?thesis by (metis append_Cons)
  qed
qed simp

lemma source_expire [simp]: "source (expire e) = None"
  by (simp add: expire_def)

lemma reserve_round_Evicted:
  assumes "reserve_round lim ld bytes st = Some (Evicted key removed st')"
  obtains victim xs e ys where "map_of (loads st) key = Some victim"
    and "lr_entries victim = xs @ e # ys" and "source e = Some removed"
    and "st' = set_entries key victim (xs @ expire e # ys) st"
proof -
  obtain victim es oldest where "map_of (loads st) key = Some victim"
    and "expire_first oldest (lr_entries victim) = Some (es, removed)"
    and "st' = set_entries key victim es st"
    using assms by (auto simp: reserve_round_def Let_def split: option.splits if_splits)
  with that show thesis by (metis expire_first_Some)
qed

lemma sources_left_decreases:
  assumes "reserve_round lim ld bytes st = Some (Evicted key removed st')"
  shows "sources_left st' < sources_left st"
proof -
  from assms obtain victim xs e ys where v: "map_of (loads st) key = Some victim"
    and es: "lr_entries victim = xs @ e # ys" "source e = Some removed"
    and st': "st' = set_entries key victim (xs @ expire e # ys) st"
    by (rule reserve_round_Evicted)
  from map_of_sum_list_update[OF v, of "\<lambda>r. length (source_orders r)"
      "victim\<lparr>lr_entries := xs @ expire e # ys\<rparr>"] es
  show ?thesis
    by (simp add: sources_left_def st' set_entries_def source_orders_def)
qed

text \<open>
  The whole of \<^verbatim>\<open>reserve\<close> when no other task runs between its rounds; \<open>held\<close> says of a source
  whether a reader still refers to it, in which case dropping it here frees nothing. The
  loads marked changed are collected.
\<close>

function reserve_loop ::
  "ResultLimits \<Rightarrow> LoadId \<Rightarrow> nat \<Rightarrow> ('p ResultSource \<Rightarrow> bool) \<Rightarrow> LoadId list \<Rightarrow> 'p Catalog
   \<Rightarrow> ((UnavailableReason + SourceCharge) \<times> 'p Catalog \<times> LoadId list) option" where
  "reserve_loop lim ld bytes held marks st =
     (case reserve_round lim ld bytes st of
        None \<Rightarrow> None
      | Some (Granted c st') \<Rightarrow> Some (Inr c, st', marks)
      | Some (Refused r st') \<Rightarrow> Some (Inl r, st', marks)
      | Some (Evicted key removed st') \<Rightarrow>
          reserve_loop lim ld bytes held (marks @ [key])
            (if held removed then st' else charge_drop (charge removed) st'))"
  by pat_completeness auto
termination
  by (relation "measure (\<lambda>(_, _, _, _, _, st). sources_left st)")
    (auto dest!: sources_left_decreases simp: charge_drop_def sources_left_def)

definition reserve ::
  "ResultLimits \<Rightarrow> LoadId \<Rightarrow> nat \<Rightarrow> ('p ResultSource \<Rightarrow> bool) \<Rightarrow> 'p Catalog
   \<Rightarrow> ((UnavailableReason + SourceCharge) \<times> 'p Catalog \<times> LoadId list) option" where
  "reserve lim ld bytes held st =
     (if source_bytes_per_load lim < bytes then Some (Inl TooLarge, st, [])
      else reserve_loop lim ld bytes held [] st)"

definition finish_reservation ::
  "nat \<Rightarrow> SourceCharge \<Rightarrow> 'p Catalog \<Rightarrow> (UnavailableReason + SourceCharge) \<times> 'p Catalog" where
  "finish_reservation bytes c st =
     (if sc_bytes c < bytes then (Inl TooLarge, charge_drop c st)
      else
        let excess = sc_bytes c - bytes in
        (Inr (c\<lparr>sc_bytes := bytes\<rparr>),
         st\<lparr>source_bytes := source_bytes st - excess,
            cells := (cells st)(sc_cell c :=
              (fst (cells st (sc_cell c)) - excess, snd (cells st (sc_cell c))))\<rparr>))"

definition total_entries :: "'p Catalog \<Rightarrow> nat" where
  "total_entries st = sum_list (map (\<lambda>(_, r). length (lr_entries r)) (loads st))"

definition front_orders :: "'p Catalog \<Rightarrow> (LoadId \<times> nat) list" where
  "front_orders st =
     List.map_filter
       (\<lambda>(key, r). case lr_entries r of [] \<Rightarrow> None | e # _ \<Rightarrow> Some (key, ret_order e)) (loads st)"

definition within_limits :: "ResultLimits \<Rightarrow> 'p LoadResults \<Rightarrow> 'p Catalog \<Rightarrow> bool" where
  "within_limits lim results st =
     (length (lr_entries results) \<le> entries_per_load lim
      \<and> cat_entries st \<le> max_entries lim \<and> cat_metadata st \<le> max_metadata_bytes lim)"

definition evict_candidate :: "ResultLimits \<Rightarrow> LoadId \<Rightarrow> 'p LoadResults \<Rightarrow> 'p Catalog \<Rightarrow> LoadId option" where
  "evict_candidate lim ld results st =
     (if entries_per_load lim < length (lr_entries results) then Some ld
      else map_option fst (min_by_order (front_orders st)))"

definition pop_entry :: "LoadId \<Rightarrow> 'p Catalog \<Rightarrow> ('p Retained \<times> 'p Catalog) option" where
  "pop_entry key st =
     (case map_of (loads st) key of
        None \<Rightarrow> None
      | Some results \<Rightarrow>
          (case lr_entries results of
             [] \<Rightarrow> None
           | oldest # rest \<Rightarrow>
               Some (oldest,
                 (set_entries key results rest st)\<lparr>
                    cat_entries := cat_entries st - 1,
                    cat_metadata := cat_metadata st - ret_metadata oldest\<rparr>)))"

lemma total_entries_pop:
  "pop_entry key st = Some (e, st') \<Longrightarrow> total_entries st = Suc (total_entries st')"
proof -
  assume "pop_entry key st = Some (e, st')"
  then obtain results rest where v: "map_of (loads st) key = Some results"
    and es: "lr_entries results = e # rest"
    and st': "loads st' = AList.update key (results\<lparr>lr_entries := rest\<rparr>) (loads st)"
    by (auto simp: pop_entry_def set_entries_def split: option.splits list.splits)
  from map_of_sum_list_update[OF v, of "\<lambda>r. length (lr_entries r)" "results\<lparr>lr_entries := rest\<rparr>"] es
  show ?thesis by (simp add: total_entries_def st')
qed

text \<open>The eviction loop of \<^verbatim>\<open>insert\<close>; \<open>affected\<close> are the loads whose snapshot has changed.\<close>

function evict_loop ::
  "ResultLimits \<Rightarrow> LoadId \<Rightarrow> 'p ResultSource list \<Rightarrow> LoadId set \<Rightarrow> 'p Catalog
   \<Rightarrow> ('p Catalog \<times> 'p ResultSource list \<times> LoadId set) option" where
  "evict_loop lim ld released affected st =
     (case map_of (loads st) ld of
        None \<Rightarrow> None
      | Some results \<Rightarrow>
          if within_limits lim results st then Some (st, released, affected)
          else
            (case evict_candidate lim ld results st of
               None \<Rightarrow> None
             | Some key \<Rightarrow>
                 (case pop_entry key st of
                    None \<Rightarrow> None
                  | Some (oldest, st') \<Rightarrow>
                      evict_loop lim ld
                        (case source oldest of None \<Rightarrow> released | Some s \<Rightarrow> released @ [s])
                        (insert key affected) st')))"
  by pat_completeness auto
termination
  by (relation "measure (\<lambda>(_, _, _, _, st). total_entries st)") (auto dest!: total_entries_pop)

definition push_entry ::
  "nat \<Rightarrow> LoadId \<Rightarrow> CompletionEntry \<Rightarrow> 'p ResultSource option \<Rightarrow> 'p Catalog \<Rightarrow> 'p Catalog option" where
  "push_entry retained_size ld e src st =
     (case checked_add (order st) 1 of
        None \<Rightarrow> None
      | Some ord \<Rightarrow>
          (case map_of (loads st) ld of
             None \<Rightarrow> None
           | Some results \<Rightarrow>
               (case checked_add (through results) 1 of
                  None \<Rightarrow> None
                | Some thr \<Rightarrow>
                    let meta = 4 * retained_size
                          + (case ce_input_id e of None \<Rightarrow> 0 | Some i \<Rightarrow> length i);
                        new = \<lparr>entry = e\<lparr>seq := thr\<rparr>, source = src, ret_order = ord,
                               ret_metadata = meta\<rparr>
                    in Some (st\<lparr>
                         order := ord,
                         loads := AList.update ld
                           (results\<lparr>through := thr, lr_entries := lr_entries results @ [new]\<rparr>)
                           (loads st),
                         cat_entries := cat_entries st + 1,
                         cat_metadata := cat_metadata st + meta\<rparr>))))"

definition insert_completion ::
  "ResultLimits \<Rightarrow> nat \<Rightarrow> LoadId \<Rightarrow> CompletionEntry \<Rightarrow> 'p ResultSource option \<Rightarrow> 'p Catalog
   \<Rightarrow> ('p Catalog \<times> 'p ResultSource list \<times> LoadId set) option" where
  "insert_completion lim retained_size ld e src st =
     (case push_entry retained_size ld e src st of
        None \<Rightarrow> None
      | Some st' \<Rightarrow> evict_loop lim ld [] {ld} st')"

definition window :: "LoadId \<Rightarrow> 'p Catalog \<Rightarrow> CompletionWindow option" where
  "window ld st =
     (case map_of (loads st) ld of
        None \<Rightarrow> Some \<lparr>through_seq = 0, retained_from_seq = 1, win_entries = [], truncated = False\<rparr>
      | Some results \<Rightarrow>
          (case (case lr_entries results of
                   [] \<Rightarrow> checked_add (through results) 1
                 | e # _ \<Rightarrow> Some (seq (entry e))) of
             None \<Rightarrow> None
           | Some from \<Rightarrow>
               Some \<lparr>through_seq = through results, retained_from_seq = from,
                     win_entries = map entry (lr_entries results), truncated = 1 < from\<rparr>))"

definition lookup ::
  "LoadId \<Rightarrow> LoopId \<Rightarrow> 'p Catalog \<Rightarrow> (CompletionEntry \<times> 'p ResultSource option) option" where
  "lookup ld lp st =
     (case map_of (loads st) ld of
        None \<Rightarrow> None
      | Some results \<Rightarrow>
          map_option (\<lambda>e. (entry e, source e))
            (List.find (\<lambda>e. ce_loop_id (entry e) = lp) (lr_entries results)))"

declare reserve_loop.simps [simp del] evict_loop.simps [simp del]

section \<open>Steps\<close>

text \<open>
  The charges alive are those a worker holds between \<^verbatim>\<open>reserve\<close> and \<^verbatim>\<open>insert\<close>, those of the
  sources in the catalog, and those of sources only readers still refer to. A step may end
  the life of any charge the catalog does not refer to.
\<close>

definition load_sum :: "('p LoadResults \<Rightarrow> 'm::comm_monoid_add) \<Rightarrow> 'p Catalog \<Rightarrow> 'm" where
  "load_sum f st = sum_list (map (\<lambda>(_, r). f r) (loads st))"

definition load_charges :: "'p LoadResults \<Rightarrow> SourceCharge multiset" where
  "load_charges r = mset (map charge (entry_sources (lr_entries r)))"

definition catalog_charges :: "'p Catalog \<Rightarrow> SourceCharge multiset" where
  "catalog_charges st = load_sum load_charges st"

type_synonym 'p catalog_state = "'p Catalog \<times> SourceCharge multiset"

definition source_free :: "'p ResultSource option \<Rightarrow> 'p catalog_state \<Rightarrow> bool" where
  "source_free src s =
     (case src of None \<Rightarrow> True | Some x \<Rightarrow> charge x \<in># snd s - catalog_charges (fst s))"

inductive cstep :: "ResultLimits \<Rightarrow> nat \<Rightarrow> 'p catalog_state \<Rightarrow> 'p catalog_state \<Rightarrow> bool"
  for lim :: ResultLimits and retained_size :: nat where
  c_register:
    "map_of (loads st) ld = None \<Longrightarrow> cstep lim retained_size (st, A) (register ld st, A)"
| c_remove:
    "remove_load ld st = (st', released) \<Longrightarrow> cstep lim retained_size (st, A) (st', A)"
| c_grant:
    "bytes \<le> source_bytes_per_load lim \<Longrightarrow>
     reserve_round lim ld bytes st = Some (Granted c st') \<Longrightarrow>
     cstep lim retained_size (st, A) (st', add_mset c A)"
| c_evict:
    "reserve_round lim ld bytes st = Some (Evicted key removed st') \<Longrightarrow>
     cstep lim retained_size (st, A) (st', A)"
| c_finish:
    "c \<in># A - catalog_charges st \<Longrightarrow>
     finish_reservation bytes c st = (Inr c', st') \<Longrightarrow>
     cstep lim retained_size (st, A) (st', add_mset c' (A - {#c#}))"
| c_insert:
    "source_free src (st, A) \<Longrightarrow> availability e = Live \<longleftrightarrow> src \<noteq> None \<Longrightarrow>
     insert_completion lim retained_size ld e src st = Some (st', released, affected) \<Longrightarrow>
     cstep lim retained_size (st, A) (st', A)"
| c_free:
    "c \<in># A - catalog_charges st \<Longrightarrow>
     cstep lim retained_size (st, A) (charge_drop c st, A - {#c#})"

inductive_cases cstepE: "cstep lim n (st, A) (st', A')"

section \<open>The invariant\<close>

definition cell_bytes :: "nat \<Rightarrow> SourceCharge multiset \<Rightarrow> nat" where
  "cell_bytes k A = (\<Sum>c\<in>#filter_mset (\<lambda>c. sc_cell c = k) A. sc_bytes c)"

definition cell_count :: "nat \<Rightarrow> SourceCharge multiset \<Rightarrow> nat" where
  "cell_count k A = size (filter_mset (\<lambda>c. sc_cell c = k) A)"

definition counters_ok :: "'p catalog_state \<Rightarrow> bool" where
  "counters_ok s =
     (source_bytes (fst s) = (\<Sum>c\<in>#snd s. sc_bytes c) \<and> source_count (fst s) = size (snd s)
      \<and> (\<forall>k. cells (fst s) k = (cell_bytes k (snd s), cell_count k (snd s)))
      \<and> catalog_charges (fst s) \<subseteq># snd s)"

definition budget_ok :: "ResultLimits \<Rightarrow> 'p catalog_state \<Rightarrow> bool" where
  "budget_ok lim s =
     (source_bytes (fst s) \<le> all_source_bytes lim \<and> source_count (fst s) \<le> max_sources lim
      \<and> (\<forall>k. fst (cells (fst s) k) \<le> source_bytes_per_load lim
             \<and> snd (cells (fst s) k) \<le> sources_per_load lim))"

definition seqs_ok :: "'p LoadResults \<Rightarrow> bool" where
  "seqs_ok r =
     (length (lr_entries r) \<le> through r
      \<and> map (\<lambda>e. seq (entry e)) (lr_entries r)
        = [Suc (through r) - length (lr_entries r)..<Suc (through r)])"

definition load_ok :: "nat \<Rightarrow> 'p LoadResults \<Rightarrow> bool" where
  "load_ok ord r =
     (seqs_ok r \<and> sorted (map ret_order (lr_entries r)) \<and> distinct (map ret_order (lr_entries r))
      \<and> (\<forall>e\<in>set (lr_entries r).
            ret_order e \<le> ord \<and> (availability (entry e) = Live \<longleftrightarrow> source e \<noteq> None)))"

definition entries_ok :: "'p Catalog \<Rightarrow> bool" where
  "entries_ok st =
     (distinct (map fst (loads st))
      \<and> cat_entries st = total_entries st
      \<and> cat_metadata st = load_sum (\<lambda>r. sum_list (map ret_metadata (lr_entries r))) st)"

definition loads_ok :: "'p Catalog \<Rightarrow> bool" where
  "loads_ok st = (\<forall>ld r. map_of (loads st) ld = Some r \<longrightarrow> load_ok (order st) r)"

definition window_ok :: "ResultLimits \<Rightarrow> 'p Catalog \<Rightarrow> bool" where
  "window_ok lim st =
     (cat_entries st \<le> max_entries lim \<and> cat_metadata st \<le> max_metadata_bytes lim
      \<and> (\<forall>ld r. map_of (loads st) ld = Some r \<longrightarrow> length (lr_entries r) \<le> entries_per_load lim))"

definition catalog_ok :: "ResultLimits \<Rightarrow> 'p catalog_state \<Rightarrow> bool" where
  "catalog_ok lim s =
     (counters_ok s \<and> budget_ok lim s \<and> entries_ok (fst s) \<and> loads_ok (fst s)
      \<and> window_ok lim (fst s))"

definition catalog_init :: "'p catalog_state \<Rightarrow> bool" where
  "catalog_init s = (s = (new_catalog, {#}))"

definition limits_ok :: "ResultLimits \<Rightarrow> bool" where
  "limits_ok lim = (source_bytes_per_load lim < u64_bound - 1 \<and> all_source_bytes lim < u64_bound - 1)"

section \<open>Preservation\<close>

subsection \<open>Sums over the loads\<close>

lemma load_sum_update:
  assumes "map_of (loads st) k = Some v" and "loads st' = AList.update k w (loads st)"
  shows "load_sum f st' + f v = load_sum f st + f w"
  using map_of_sum_list_update[OF assms(1)] assms(2) by (simp add: load_sum_def)

lemma load_sum_fresh:
  assumes "map_of (loads st) k = None" and "loads st' = AList.update k w (loads st)"
  shows "load_sum f st' = load_sum f st + f w"
proof -
  have "map_of xs k = None \<Longrightarrow>
        sum_list (map (\<lambda>(_, r). f r) (AList.update k w xs)) = sum_list (map (\<lambda>(_, r). f r) xs) + f w" for xs
    by (induction xs) (auto simp: ac_simps split: if_splits)
  with assms show ?thesis by (simp add: load_sum_def)
qed

lemma load_sum_delete:
  assumes "map_of (loads st) k = Some v" and "distinct (map fst (loads st))"
    and "loads st' = AList.delete k (loads st)"
  shows "load_sum f st' + f v = load_sum f st"
proof -
  have "map_of xs k = Some v \<Longrightarrow> distinct (map fst xs) \<Longrightarrow>
        sum_list (map (\<lambda>(_, r). f r) (AList.delete k xs)) + f v = sum_list (map (\<lambda>(_, r). f r) xs)" for xs
  proof (induction xs)
    case (Cons x xs)
    obtain k' v' where x: "x = (k', v')" by (cases x)
    show ?case
    proof (cases "k' = k")
      case True
      with Cons.prems x have "AList.delete k xs = xs"
        by (auto intro!: AList.delete_id)
      with Cons.prems x True show ?thesis by (simp add: AList.delete_eq ac_simps)
    next
      case False
      with Cons x show ?thesis by (simp add: add.assoc)
    qed
  qed simp
  with assms show ?thesis by (simp add: load_sum_def)
qed

lemma load_sum_cong: "loads st' = loads st \<Longrightarrow> load_sum f st' = load_sum f st"
  by (simp add: load_sum_def)

lemma total_entries_load_sum: "total_entries st = load_sum (\<lambda>r. length (lr_entries r)) st"
  by (simp add: total_entries_def load_sum_def)

lemma entry_sources_simps [simp]:
  "entry_sources [] = []"
  "entry_sources (e # es) = (case source e of None \<Rightarrow> [] | Some s \<Rightarrow> [s]) @ entry_sources es"
  "entry_sources (xs @ ys) = entry_sources xs @ entry_sources ys"
  by (auto simp: entry_sources_def List.map_filter_def split: option.splits)

subsection \<open>Counters\<close>

lemma cell_simps [simp]:
  "cell_bytes k {#} = 0" "cell_count k {#} = 0"
  "cell_bytes k (add_mset c A) = (if sc_cell c = k then sc_bytes c else 0) + cell_bytes k A"
  "cell_count k (add_mset c A) = (if sc_cell c = k then 1 else 0) + cell_count k A"
  by (auto simp: cell_bytes_def cell_count_def)

lemma counters_charge_add:
  "counters_ok (st, A) \<Longrightarrow> counters_ok (charge_add c st, add_mset c A)"
  by (auto simp: counters_ok_def charge_add_def catalog_charges_def load_sum_def
      intro: subset_mset.order_trans)

lemma free_charge_split:
  assumes "c \<in># A - C"
  obtains B where "A = add_mset c B" and "C \<subseteq># A \<longrightarrow> C \<subseteq># B"
proof
  from assms have "c \<in># A" by (rule in_diffD)
  then show "A = add_mset c (A - {#c#})" by simp
  show "C \<subseteq># A \<longrightarrow> C \<subseteq># A - {#c#}"
  proof
    assume "C \<subseteq># A"
    then obtain D where "A = C + D" by (auto simp: mset_subset_eq_exists_conv)
    with assms have "c \<in># D" by simp
    with \<open>A = C + D\<close> show "C \<subseteq># A - {#c#}"
      by (metis diff_union_single_conv mset_subset_eq_add_left)
  qed
qed

lemma counters_charge_drop:
  assumes "counters_ok (st, A)" and "c \<in># A - catalog_charges st"
  shows "counters_ok (charge_drop c st, A - {#c#})"
proof -
  from assms(2) obtain B where "A = add_mset c B" "catalog_charges st \<subseteq># A \<longrightarrow> catalog_charges st \<subseteq># B"
    by (rule free_charge_split)
  with assms(1) show ?thesis
    by (auto simp: counters_ok_def charge_drop_def catalog_charges_def load_sum_def)
qed

lemma counters_finish:
  assumes "counters_ok (st, A)" and "c \<in># A - catalog_charges st"
    and "finish_reservation bytes c st = (Inr c', st')"
  shows "counters_ok (st', add_mset c' (A - {#c#}))"
proof -
  from assms(2) obtain B where "A = add_mset c B" "catalog_charges st \<subseteq># A \<longrightarrow> catalog_charges st \<subseteq># B"
    by (rule free_charge_split)
  with assms(1,3) show ?thesis
    by (auto simp: counters_ok_def finish_reservation_def catalog_charges_def load_sum_def Let_def
        split: if_splits intro: subset_mset.order_trans)
qed

lemma counters_transfer:
  assumes "counters_ok (st, A)" and "catalog_charges st' \<subseteq># A"
    and "source_bytes st' = source_bytes st" "source_count st' = source_count st" "cells st' = cells st"
  shows "counters_ok (st', A)"
  using assms by (simp add: counters_ok_def)

subsection \<open>Entries\<close>

definition log_ok :: "'p Catalog \<Rightarrow> bool" where
  "log_ok st = (entries_ok st \<and> loads_ok st)"

lemma load_ok_mono: "load_ok m r \<Longrightarrow> m \<le> n \<Longrightarrow> load_ok n r"
  by (auto simp: load_ok_def)

lemma loads_ok_update:
  assumes "loads_ok st" and "loads st' = AList.update k w (loads st)"
    and "order st \<le> order st'" and "load_ok (order st') w"
  shows "loads_ok st'"
  using assms by (auto simp: loads_ok_def AList.update_conv' intro: load_ok_mono)

lemma load_ok_tail:
  assumes "load_ok ord r" and "lr_entries r = e # es"
  shows "load_ok ord (r\<lparr>lr_entries := es\<rparr>)"
proof -
  from assms have len: "length es < through r"
    and seqs: "seq (entry e) # map (\<lambda>e. seq (entry e)) es = [Suc (through r) - Suc (length es)..<Suc (through r)]"
    by (auto simp: load_ok_def seqs_ok_def)
  from len have "[Suc (through r) - Suc (length es)..<Suc (through r)]
      = (through r - length es) # [Suc (through r) - length es..<Suc (through r)]"
    by (subst upt_rec) (simp add: Suc_diff_le del: upt_Suc)
  with seqs len assms show ?thesis
    by (auto simp: load_ok_def seqs_ok_def)
qed

lemma pop_entryE:
  assumes "pop_entry key st = Some (e, st')"
  obtains results rest where "map_of (loads st) key = Some results"
    and "lr_entries results = e # rest"
    and "loads st' = AList.update key (results\<lparr>lr_entries := rest\<rparr>) (loads st)"
    and "cat_entries st' = cat_entries st - 1" and "cat_metadata st' = cat_metadata st - ret_metadata e"
    and "order st' = order st" and "source_bytes st' = source_bytes st"
    and "source_count st' = source_count st" and "cells st' = cells st"
  using assms by (auto simp: pop_entry_def set_entries_def split: option.splits list.splits)

lemma pop_entry_log_ok:
  assumes "pop_entry key st = Some (e, st')" and "log_ok st"
  shows "log_ok st'"
proof -
  from assms(1) obtain results rest where v: "map_of (loads st) key = Some results"
    and es: "lr_entries results = e # rest"
    and l: "loads st' = AList.update key (results\<lparr>lr_entries := rest\<rparr>) (loads st)"
    and c: "cat_entries st' = cat_entries st - 1" "cat_metadata st' = cat_metadata st - ret_metadata e"
    and o: "order st' = order st"
    by (rule pop_entryE)
  from assms(2) v have "load_ok (order st) results" by (auto simp: log_ok_def loads_ok_def)
  then have "load_ok (order st') (results\<lparr>lr_entries := rest\<rparr>)"
    using es o by (simp add: load_ok_tail)
  with assms(2) l o have "loads_ok st'" by (auto simp: log_ok_def intro: loads_ok_update)
  moreover have "entries_ok st'"
    using assms(2) es c l load_sum_update[OF v l, of "\<lambda>r. length (lr_entries r)"]
      load_sum_update[OF v l, of "\<lambda>r. sum_list (map ret_metadata (lr_entries r))"]
    by (simp add: log_ok_def entries_ok_def total_entries_load_sum AList.distinct_update) linarith
  ultimately show ?thesis by (simp add: log_ok_def)
qed

lemma pop_entry_charges:
  assumes "pop_entry key st = Some (e, st')"
  shows "catalog_charges st' \<subseteq># catalog_charges st"
proof -
  from assms obtain results rest where v: "map_of (loads st) key = Some results"
    and es: "lr_entries results = e # rest"
    and l: "loads st' = AList.update key (results\<lparr>lr_entries := rest\<rparr>) (loads st)"
    by (rule pop_entryE)
  have "load_charges (results\<lparr>lr_entries := rest\<rparr>) \<subseteq># load_charges results"
    using es by (auto simp: load_charges_def split: option.splits)
  with load_sum_update[OF v l, of load_charges] show ?thesis
    unfolding catalog_charges_def
    by (metis (no_types, lifting) subset_mset.add_le_cancel_left subset_mset.add_le_cancel_right
        subset_mset.add_left_mono)
qed

definition shorter :: "'p Catalog \<Rightarrow> 'p Catalog \<Rightarrow> bool" where
  "shorter st' st =
     (\<forall>k r'. map_of (loads st') k = Some r' \<longrightarrow>
        (\<exists>r. map_of (loads st) k = Some r \<and> length (lr_entries r') \<le> length (lr_entries r)))"

lemma shorter_trans: "shorter a b \<Longrightarrow> shorter b c \<Longrightarrow> shorter a c"
  unfolding shorter_def by (meson order_trans)

lemma pop_entry_shorter: "pop_entry key st = Some (e, st') \<Longrightarrow> shorter st' st"
  by (erule pop_entryE) (auto simp: shorter_def AList.update_conv')

lemma min_by_order_in: "min_by_order xs = Some x \<Longrightarrow> x \<in> set xs"
  by (induction xs) (auto split: option.splits if_splits)

lemma min_by_order_None [simp]: "min_by_order xs = None \<longleftrightarrow> xs = []"
  by (cases xs) (auto split: option.splits if_splits)

lemma min_by_order_least: "min_by_order xs = Some x \<Longrightarrow> y \<in> set xs \<Longrightarrow> snd x \<le> snd y"
  by (induction xs arbitrary: x) (force split: option.splits if_splits)+

subsection \<open>Eviction and insertion\<close>

lemma log_ok_load: "log_ok st \<Longrightarrow> map_of (loads st) ld = Some r \<Longrightarrow> load_ok (order st) r"
  by (auto simp: log_ok_def loads_ok_def)

lemma front_orders_iff:
  "(k, n) \<in> set (front_orders st) \<longleftrightarrow> (\<exists>r e es. (k, r) \<in> set (loads st) \<and> lr_entries r = e # es \<and> ret_order e = n)"
  by (force simp: front_orders_def List.map_filter_def split: list.splits)

lemma load_sum_eq_0: "(\<And>k r. (k, r) \<in> set (loads st) \<Longrightarrow> f r = (0::nat)) \<Longrightarrow> load_sum f st = 0"
  by (auto simp: load_sum_def)

lemma front_orders_nonempty:
  assumes "log_ok st" and "0 < cat_entries st \<or> 0 < cat_metadata st"
  shows "front_orders st \<noteq> []"
proof
  assume "front_orders st = []"
  then have "lr_entries r = []" if "(k, r) \<in> set (loads st)" for k r
    using that front_orders_iff[of k _ st] by (cases "lr_entries r") auto
  then have "load_sum (\<lambda>r. length (lr_entries r)) st = 0"
    and "load_sum (\<lambda>r. sum_list (map ret_metadata (lr_entries r))) st = 0"
    by (auto intro!: load_sum_eq_0)
  with assms show False by (auto simp: log_ok_def entries_ok_def total_entries_load_sum)
qed

lemma evict_candidate_pops:
  assumes "log_ok st" and "map_of (loads st) ld = Some results" and "\<not> within_limits lim results st"
  obtains key e st' where "evict_candidate lim ld results st = Some key"
    and "pop_entry key st = Some (e, st')"
proof (cases "entries_per_load lim < length (lr_entries results)")
  case True
  with assms(2) that show thesis
    by (cases "lr_entries results") (auto simp: evict_candidate_def pop_entry_def)
next
  case False
  with assms have "front_orders st \<noteq> []"
    by (intro front_orders_nonempty) (auto simp: within_limits_def)
  then obtain k n where m: "min_by_order (front_orders st) = Some (k, n)"
    by (metis min_by_order_None not_None_eq surj_pair)
  with min_by_order_in obtain r e es where "(k, r) \<in> set (loads st)" "lr_entries r = e # es"
    by (force simp: front_orders_iff)
  moreover from this have "map_of (loads st) k = Some r"
    using assms(1) by (simp add: log_ok_def entries_ok_def map_of_is_SomeI)
  ultimately show thesis
    using False m that by (auto simp: evict_candidate_def pop_entry_def)
qed

lemma pop_entry_registered:
  "pop_entry key st = Some (e, st') \<Longrightarrow> map_of (loads st') ld = None \<longleftrightarrow> map_of (loads st) ld = None"
  by (erule pop_entryE) (auto simp: AList.update_conv')

lemma evict_loop_correct:
  assumes "log_ok st" and "map_of (loads st) ld \<noteq> None"
  shows "\<exists>st' rel aff results. evict_loop lim ld released affected st = Some (st', rel, aff)
    \<and> log_ok st' \<and> map_of (loads st') ld = Some results \<and> within_limits lim results st'
    \<and> shorter st' st \<and> catalog_charges st' \<subseteq># catalog_charges st
    \<and> source_bytes st' = source_bytes st \<and> source_count st' = source_count st \<and> cells st' = cells st
    \<and> order st' = order st"
  using assms
proof (induction lim ld released affected st rule: evict_loop.induct)
  case (1 lim ld released affected st)
  then obtain results where r: "map_of (loads st) ld = Some results" by auto
  show ?case
  proof (cases "within_limits lim results st")
    case True
    with 1 r show ?thesis by (subst evict_loop.simps) (auto simp: shorter_def)
  next
    case False
    from evict_candidate_pops[OF "1.prems"(1) r False] obtain key e st1
      where c: "evict_candidate lim ld results st = Some key" and p: "pop_entry key st = Some (e, st1)" .
    have "log_ok st1" and "map_of (loads st1) ld \<noteq> None"
      using pop_entry_log_ok[OF p] pop_entry_registered[OF p] "1.prems" by auto
    from "1.IH"[OF r False c p refl this] pop_entry_shorter[OF p] pop_entry_charges[OF p]
    show ?thesis
      using r False c p
      by (subst evict_loop.simps)
        (auto elim!: pop_entryE intro: shorter_trans subset_mset.order_trans)
  qed
qed

lemma push_entryE:
  assumes "push_entry n ld e src st = Some st'"
  obtains results new where "map_of (loads st) ld = Some results"
    and "new = \<lparr>entry = e\<lparr>seq := Suc (through results)\<rparr>, source = src, ret_order = Suc (order st),
               ret_metadata = 4 * n + (case ce_input_id e of None \<Rightarrow> 0 | Some i \<Rightarrow> length i)\<rparr>"
    and "loads st' = AList.update ld
           (results\<lparr>through := Suc (through results), lr_entries := lr_entries results @ [new]\<rparr>) (loads st)"
    and "order st' = Suc (order st)" and "cat_entries st' = Suc (cat_entries st)"
    and "cat_metadata st' = cat_metadata st + ret_metadata new"
    and "source_bytes st' = source_bytes st" and "source_count st' = source_count st"
    and "cells st' = cells st"
  using assms by (auto simp: push_entry_def Let_def split: option.splits)

lemma load_ok_snoc:
  assumes "load_ok ord r" and "ret_order new = Suc ord" and "seq (entry new) = Suc (through r)"
    and "availability (entry new) = Live \<longleftrightarrow> source new \<noteq> None"
  shows "load_ok (Suc ord) (r\<lparr>through := Suc (through r), lr_entries := lr_entries r @ [new]\<rparr>)"
proof -
  from assms(1) have "length (lr_entries r) \<le> through r" by (simp add: load_ok_def seqs_ok_def)
  moreover have "\<forall>e\<in>set (lr_entries r). ret_order e \<noteq> Suc ord"
    using assms(1) by (force simp: load_ok_def)
  ultimately show ?thesis
    using assms by (auto simp: load_ok_def seqs_ok_def sorted_append Suc_diff_le)
qed

lemma push_entry_log_ok:
  assumes "push_entry n ld e src st = Some st'" and "log_ok st"
    and live: "availability e = Live \<longleftrightarrow> src \<noteq> None"
  shows "log_ok st'"
  using assms(1)
proof (rule push_entryE)
  fix results new
  assume v: "map_of (loads st) ld = Some results"
    and new: "new = \<lparr>entry = e\<lparr>seq := Suc (through results)\<rparr>, source = src, ret_order = Suc (order st),
               ret_metadata = 4 * n + (case ce_input_id e of None \<Rightarrow> 0 | Some i \<Rightarrow> length i)\<rparr>"
    and l: "loads st' = AList.update ld
           (results\<lparr>through := Suc (through results), lr_entries := lr_entries results @ [new]\<rparr>) (loads st)"
    and c: "order st' = Suc (order st)" "cat_entries st' = Suc (cat_entries st)"
      "cat_metadata st' = cat_metadata st + ret_metadata new"
  from log_ok_load[OF assms(2) v]
  have "load_ok (order st') (results\<lparr>through := Suc (through results), lr_entries := lr_entries results @ [new]\<rparr>)"
    unfolding c(1) by (rule load_ok_snoc) (simp_all add: new live)
  with assms(2) l c have "loads_ok st'" by (auto simp: log_ok_def intro: loads_ok_update)
  moreover have "entries_ok st'"
    using assms(2) c l load_sum_update[OF v l, of "\<lambda>r. length (lr_entries r)"]
      load_sum_update[OF v l, of "\<lambda>r. sum_list (map ret_metadata (lr_entries r))"]
    by (simp add: log_ok_def entries_ok_def total_entries_load_sum AList.distinct_update)
  ultimately show ?thesis by (simp add: log_ok_def)
qed

lemma push_entry_charges:
  assumes "push_entry n ld e src st = Some st'"
  shows "catalog_charges st' = catalog_charges st + mset (map charge (case src of None \<Rightarrow> [] | Some s \<Rightarrow> [s]))"
  using assms
proof (rule push_entryE)
  fix results new
  assume v: "map_of (loads st) ld = Some results"
    and new: "new = \<lparr>entry = e\<lparr>seq := Suc (through results)\<rparr>, source = src, ret_order = Suc (order st),
               ret_metadata = 4 * n + (case ce_input_id e of None \<Rightarrow> 0 | Some i \<Rightarrow> length i)\<rparr>"
    and l: "loads st' = AList.update ld
           (results\<lparr>through := Suc (through results), lr_entries := lr_entries results @ [new]\<rparr>) (loads st)"
  from load_sum_update[OF v l, of load_charges] show ?thesis
    by (auto simp: catalog_charges_def load_charges_def new split: option.splits)
qed

lemma push_entry_lengths:
  assumes "push_entry n ld e src st = Some st'" and "map_of (loads st') k = Some r'" and "k \<noteq> ld"
  shows "map_of (loads st) k = Some r'"
  using assms by (auto elim!: push_entryE simp: AList.update_conv')

lemma catalog_parts:
  "catalog_ok lim (st, A) \<longleftrightarrow> counters_ok (st, A) \<and> budget_ok lim (st, A) \<and> log_ok st \<and> window_ok lim st"
  by (auto simp: catalog_ok_def log_ok_def)

lemma budget_transfer:
  "budget_ok lim (st, A) \<Longrightarrow> source_bytes st' = source_bytes st \<Longrightarrow> source_count st' = source_count st
   \<Longrightarrow> cells st' = cells st \<Longrightarrow> budget_ok lim (st', A')"
  by (simp add: budget_ok_def)

lemma free_source_subset:
  assumes "C \<subseteq># A" and "c \<in># A - C"
  shows "add_mset c C \<subseteq># A"
proof -
  from assms(1) obtain D where "A = C + D" by (auto simp: mset_subset_eq_exists_conv)
  with assms(2) obtain D' where "D = add_mset c D'" by (auto dest: multi_member_split)
  with \<open>A = C + D\<close> show ?thesis by simp
qed

lemma insert_completion_ok:
  assumes ok: "catalog_ok lim (st, A)" and src: "source_free src (st, A)"
    and live: "availability e = Live \<longleftrightarrow> src \<noteq> None"
    and ins: "insert_completion lim n ld e src st = Some (st', released, affected)"
  shows "catalog_ok lim (st', A)"
proof -
  from ins obtain st1 where p: "push_entry n ld e src st = Some st1"
    and ev: "evict_loop lim ld [] {ld} st1 = Some (st', released, affected)"
    by (auto simp: insert_completion_def split: option.splits)
  from ok have "log_ok st" by (simp add: catalog_parts)
  from push_entry_log_ok[OF p this live] have log1: "log_ok st1" .
  have "map_of (loads st1) ld \<noteq> None" using p by (auto elim!: push_entryE simp: AList.update_conv')
  from evict_loop_correct[OF log1 this, of lim "[]" "{ld}"] ev obtain results
    where log': "log_ok st'" and r: "map_of (loads st') ld = Some results" and w: "within_limits lim results st'"
      and sh: "shorter st' st1" and ch: "catalog_charges st' \<subseteq># catalog_charges st1"
      and same: "source_bytes st' = source_bytes st1" "source_count st' = source_count st1" "cells st' = cells st1"
    by auto
  have same1: "source_bytes st1 = source_bytes st" "source_count st1 = source_count st" "cells st1 = cells st"
    using p by (auto elim: push_entryE)
  have "catalog_charges st1 \<subseteq># A"
    using ok src push_entry_charges[OF p]
    by (auto simp: catalog_parts counters_ok_def source_free_def free_source_subset split: option.splits)
  with ch have "catalog_charges st' \<subseteq># A" by (rule subset_mset.order_trans)
  with ok same same1 have "counters_ok (st', A)"
    using counters_transfer[of st A st'] by (simp add: catalog_parts)
  moreover have "budget_ok lim (st', A)"
    using ok same same1 budget_transfer[of lim st A st' A] by (simp add: catalog_parts)
  moreover have "length (lr_entries r') \<le> entries_per_load lim" if k: "map_of (loads st') k = Some r'" for k r'
  proof (cases "k = ld")
    case True
    with k r w show ?thesis by (simp add: within_limits_def)
  next
    case False
    from sh k obtain r1 where "map_of (loads st1) k = Some r1" "length (lr_entries r') \<le> length (lr_entries r1)"
      by (auto simp: shorter_def)
    with push_entry_lengths[OF p _ False] ok show ?thesis
      by (force simp: catalog_parts window_ok_def)
  qed
  with w have "window_ok lim st'" by (auto simp: window_ok_def within_limits_def)
  ultimately show ?thesis using log' by (simp add: catalog_parts)
qed

subsection \<open>The other operations\<close>

lemma register_ok:
  assumes "catalog_ok lim (st, A)" and "map_of (loads st) ld = None"
  shows "catalog_ok lim (register ld st, A)"
proof -
  let ?st = "register ld st"
  have l: "loads ?st = AList.update ld \<lparr>through = 0, lr_entries = [], lr_cell = next_cell st\<rparr> (loads st)"
    by (simp add: register_def)
  note sums = load_sum_fresh[OF assms(2) l]
  have "load_ok (order ?st) \<lparr>through = 0, lr_entries = [], lr_cell = next_cell st\<rparr>"
    by (simp add: load_ok_def seqs_ok_def)
  with assms l have "loads_ok ?st"
    by (auto simp: catalog_parts log_ok_def register_def intro: loads_ok_update)
  moreover have "entries_ok ?st"
    using assms(1) sums[of "\<lambda>r. length (lr_entries r)"]
      sums[of "\<lambda>r. sum_list (map ret_metadata (lr_entries r))"] l
    by (simp add: catalog_parts log_ok_def entries_ok_def total_entries_load_sum AList.distinct_update)
      (simp add: register_def)
  moreover have "window_ok lim ?st"
    using assms(1) by (auto simp: catalog_parts window_ok_def register_def AList.update_conv')
  moreover have "counters_ok (?st, A)"
    using assms(1) sums[of load_charges]
    by (simp add: catalog_parts counters_ok_def catalog_charges_def load_charges_def)
      (simp add: register_def)
  ultimately show ?thesis
    using assms(1) by (simp add: catalog_parts log_ok_def budget_ok_def) (simp add: register_def)
qed

lemma remove_load_ok:
  assumes ok: "catalog_ok lim (st, A)" and rem: "remove_load ld st = (st', released)"
  shows "catalog_ok lim (st', A)"
proof (cases "map_of (loads st) ld")
  case None
  with rem ok show ?thesis by (simp add: remove_load_def)
next
  case (Some results)
  with rem have l: "loads st' = AList.delete ld (loads st)"
    and same: "order st' = order st" "source_bytes st' = source_bytes st" "source_count st' = source_count st"
      "cells st' = cells st"
    and c: "cat_entries st' = cat_entries st - length (lr_entries results)"
      "cat_metadata st' = cat_metadata st - sum_list (map ret_metadata (lr_entries results))"
    by (auto simp: remove_load_def)
  from ok have d: "distinct (map fst (loads st))" by (simp add: catalog_parts log_ok_def entries_ok_def)
  note sums = load_sum_delete[OF Some d l]
  have "log_ok st'"
    using ok same c l sums[of "\<lambda>r. length (lr_entries r)"]
      sums[of "\<lambda>r. sum_list (map ret_metadata (lr_entries r))"]
    by (auto simp: catalog_parts log_ok_def entries_ok_def loads_ok_def total_entries_load_sum
        AList.distinct_delete AList.delete_conv' split: if_splits)
  moreover have "window_ok lim st'"
    using ok c l by (auto simp: catalog_parts window_ok_def AList.delete_conv' split: if_splits)
  moreover have "catalog_charges st' \<subseteq># A"
    using ok sums[of load_charges] unfolding catalog_charges_def catalog_parts counters_ok_def
    by (metis fst_conv snd_conv mset_subset_eq_add_left subset_mset.order_trans)
  ultimately show ?thesis
    using ok same counters_transfer[of st A st'] budget_transfer[of lim st A st' A]
    by (simp add: catalog_parts)
qed

lemma log_ok_counters:
  "loads st' = loads st \<Longrightarrow> order st' = order st \<Longrightarrow> cat_entries st' = cat_entries st
   \<Longrightarrow> cat_metadata st' = cat_metadata st \<Longrightarrow> log_ok st' = log_ok st \<and> window_ok lim st' = window_ok lim st"
  by (simp add: log_ok_def window_ok_def entries_ok_def loads_ok_def total_entries_def load_sum_def)

lemma grant_ok:
  assumes "limits_ok lim" and ok: "catalog_ok lim (st, A)"
    and g: "reserve_round lim ld bytes st = Some (Granted c st')"
  shows "catalog_ok lim (st', add_mset c A)"
proof -
  from g obtain results where c: "c = \<lparr>sc_bytes = bytes, sc_cell = lr_cell results\<rparr>"
    and st': "st' = charge_add c st" and free: "\<not> local_full lim results bytes st" "\<not> global_full lim bytes st"
    by (auto simp: reserve_round_def Let_def split: option.splits if_splits)
  from free assms(1) ok have "budget_ok lim (st', add_mset c A)"
    by (auto simp: catalog_parts budget_ok_def st' c charge_add_def local_full_def global_full_def
        saturating_add_def limits_ok_def split: if_splits)
  moreover have "counters_ok (st', add_mset c A)"
    using ok unfolding st' by (intro counters_charge_add) (simp add: catalog_parts)
  moreover have "log_ok st' \<and> window_ok lim st'"
    using ok log_ok_counters[of st' st lim] by (simp add: catalog_parts st' charge_add_def)
  ultimately show ?thesis by (simp add: catalog_parts)
qed

lemma drop_ok:
  assumes ok: "catalog_ok lim (st, A)" and "c \<in># A - catalog_charges st"
  shows "catalog_ok lim (charge_drop c st, A - {#c#})"
proof -
  have "budget_ok lim (charge_drop c st, A - {#c#})"
    using ok by (auto simp: catalog_parts budget_ok_def charge_drop_def intro: diff_le_self le_trans)
  with ok counters_charge_drop[OF _ assms(2)] log_ok_counters[of "charge_drop c st" st lim]
  show ?thesis by (simp add: catalog_parts charge_drop_def)
qed

lemma finish_ok:
  assumes ok: "catalog_ok lim (st, A)" and "c \<in># A - catalog_charges st"
    and f: "finish_reservation bytes c st = (Inr c', st')"
  shows "catalog_ok lim (st', add_mset c' (A - {#c#}))"
proof -
  from f have le: "fst (cells st' k) \<le> fst (cells st k)" "snd (cells st' k) = snd (cells st k)"
    "source_bytes st' \<le> source_bytes st" "source_count st' = source_count st" for k
    by (auto simp: finish_reservation_def Let_def split: if_splits)
  then have "budget_ok lim (st', add_mset c' (A - {#c#}))"
    using ok by (auto simp: catalog_parts budget_ok_def intro: le_trans[OF le(1)] le_trans[OF le(3)])
  with ok counters_finish[OF _ assms(2) f] log_ok_counters[of st' st lim] f
  show ?thesis by (auto simp: catalog_parts finish_reservation_def Let_def split: if_splits)
qed

lemma load_ok_expire:
  assumes "load_ok ord r" and "lr_entries r = xs @ e # ys"
  shows "load_ok ord (r\<lparr>lr_entries := xs @ expire e # ys\<rparr>)"
  using assms by (auto simp: load_ok_def seqs_ok_def expire_def)

lemma evicted_ok:
  assumes ok: "catalog_ok lim (st, A)"
    and ev: "reserve_round lim ld bytes st = Some (Evicted key removed st')"
  shows "catalog_ok lim (st', A)"
proof -
  from ev obtain victim xs e ys where v: "map_of (loads st) key = Some victim"
    and es: "lr_entries victim = xs @ e # ys" and src: "source e = Some removed"
    and st': "st' = set_entries key victim (xs @ expire e # ys) st"
    by (rule reserve_round_Evicted)
  let ?w = "victim\<lparr>lr_entries := xs @ expire e # ys\<rparr>"
  have l: "loads st' = AList.update key ?w (loads st)" by (simp add: st' set_entries_def)
  note sums = load_sum_update[OF v l]
  have "load_ok (order st) ?w"
    using ok v es by (intro load_ok_expire) (auto simp: catalog_parts log_ok_def loads_ok_def)
  with ok l have "loads_ok st'"
    by (auto simp: catalog_parts log_ok_def st' set_entries_def intro: loads_ok_update)
  moreover have "entries_ok st'"
    using ok l es sums[of "\<lambda>r. length (lr_entries r)"]
      sums[of "\<lambda>r. sum_list (map ret_metadata (lr_entries r))"]
    by (simp add: catalog_parts log_ok_def entries_ok_def total_entries_load_sum AList.distinct_update
        expire_def) (simp add: st' set_entries_def)
  moreover have "length (lr_entries victim) \<le> entries_per_load lim"
    using ok v by (auto simp: catalog_parts window_ok_def)
  then have "window_ok lim st'"
    using ok es by (auto simp: catalog_parts window_ok_def st' set_entries_def AList.update_conv')
  moreover have "catalog_charges st = add_mset (charge removed) (catalog_charges st')"
    using sums[of load_charges] es src by (simp add: catalog_charges_def load_charges_def)
  then have "catalog_charges st' \<subseteq># A"
    using ok by (simp add: catalog_parts counters_ok_def) (meson mset_subset_eq_insertD subset_mset.less_imp_le)
  ultimately show ?thesis
    using ok counters_transfer[of st A st'] budget_transfer[of lim st A st' A]
    by (simp add: catalog_parts log_ok_def st' set_entries_def)
qed

lemma cstep_ok:
  assumes "limits_ok lim" and "catalog_ok lim s" and "cstep lim n s t"
  shows "catalog_ok lim t"
  using assms(3,1,2)
  by (cases rule: cstep.cases)
    (blast intro: register_ok remove_load_ok grant_ok evicted_ok finish_ok insert_completion_ok drop_ok)+

lemma catalog_init_ok: "catalog_init s \<Longrightarrow> catalog_ok lim s"
  by (auto simp: catalog_init_def catalog_parts counters_ok_def budget_ok_def log_ok_def entries_ok_def
      loads_ok_def window_ok_def new_catalog_def catalog_charges_def load_sum_def total_entries_def)

lemma default_limits_ok: "limits_ok default_limits"
  by (simp add: limits_ok_def default_limits_def u64_bound_def)

interpretation catalog: invariant_system catalog_init "cstep default_limits n" "catalog_ok default_limits"
  for n
  by unfold_locales (auto intro: catalog_init_ok cstep_ok[OF default_limits_ok])

section \<open>Properties\<close>

lemma expire_first_present:
  "distinct (map ret_order es) \<Longrightarrow> e \<in> set es \<Longrightarrow> source e \<noteq> None \<Longrightarrow> expire_first (ret_order e) es \<noteq> None"
  by (induction es) (auto simp: image_iff)

lemma reserve_round_returns:
  assumes ok: "catalog_ok lim (st, A)" and "map_of (loads st) ld = Some results"
  shows "\<exists>r. reserve_round lim ld bytes st = Some r"
proof -
  let ?c = "filter (\<lambda>(key, _). \<not> local_full lim results bytes st \<or> key = ld)
              (concat (map (\<lambda>(key, r). map (Pair key) (source_orders r)) (loads st)))"
  have "\<exists>victim x. map_of (loads st) key = Some victim \<and> expire_first n (lr_entries victim) = Some x"
    if m: "min_by_order ?c = Some (key, n)" for key n
  proof -
    from min_by_order_in[OF m] obtain r e where kr: "(key, r) \<in> set (loads st)"
      and e: "e \<in> set (lr_entries r)" "source e \<noteq> None" "n = ret_order e"
      by (auto simp: source_orders_def)
    from kr ok have "map_of (loads st) key = Some r" and "load_ok (order st) r"
      by (auto simp: catalog_parts log_ok_def entries_ok_def loads_ok_def)
    with e expire_first_present[of "lr_entries r" e] show ?thesis by (auto simp: load_ok_def)
  qed
  with assms(2) show ?thesis
    by (fastforce simp: reserve_round_def Let_def split: option.splits)
qed

lemma evicted_charge_free:
  assumes ok: "catalog_ok lim (st, A)"
    and ev: "reserve_round lim ld bytes st = Some (Evicted key removed st')"
  shows "charge removed \<in># A - catalog_charges st'"
proof -
  from ev obtain victim xs e ys where v: "map_of (loads st) key = Some victim"
    and es: "lr_entries victim = xs @ e # ys" and src: "source e = Some removed"
    and st': "st' = set_entries key victim (xs @ expire e # ys) st"
    by (rule reserve_round_Evicted)
  have "loads st' = AList.update key (victim\<lparr>lr_entries := xs @ expire e # ys\<rparr>) (loads st)"
    by (simp add: st' set_entries_def)
  from load_sum_update[OF v this, of load_charges]
  have "catalog_charges st = add_mset (charge removed) (catalog_charges st')"
    using es src by (simp add: catalog_charges_def load_charges_def)
  moreover from ok have "catalog_charges st \<subseteq># A" by (simp add: catalog_parts counters_ok_def)
  ultimately show ?thesis by (auto simp: mset_subset_eq_exists_conv)
qed

lemma reserve_round_Granted:
  assumes "map_of (loads st) ld = Some results"
    and "reserve_round lim ld bytes st = Some (Granted c st')"
  shows "c = \<lparr>sc_bytes = bytes, sc_cell = lr_cell results\<rparr>"
  using assms by (auto simp: reserve_round_def Let_def split: option.splits if_splits)

lemma reserve_round_Refused:
  assumes ld: "map_of (loads st) ld = Some results"
    and ref: "reserve_round lim ld bytes st = Some (Refused r st')"
  shows "r = ResourceLimit \<and> st' = st \<and> source_orders results = []"
proof -
  let ?all = "concat (map (\<lambda>(key, r). map (Pair key) (source_orders r)) (loads st))"
  let ?P = "\<lambda>(key, _ :: nat). \<not> local_full lim results bytes st \<or> key = ld"
  have "r = ResourceLimit \<and> st' = st \<and> min_by_order (filter ?P ?all) = None"
    using ref ld unfolding reserve_round_def Let_def
    by (cases "min_by_order (filter ?P ?all)") (auto split: option.splits if_splits)
  moreover from this have "source_orders results = []"
  proof -
    have "(ld, n) \<in> set (filter ?P ?all)" if "n \<in> set (source_orders results)" for n
      using that map_of_SomeD[OF ld] by force
    with calculation show ?thesis by (cases "source_orders results") auto
  qed
  ultimately show ?thesis by blast
qed

lemma reserve_round_keeps_load:
  assumes "map_of (loads st) ld = Some results"
    and "reserve_round lim ld bytes st = Some (Evicted key s st')"
  obtains results' where "map_of (loads st') ld = Some results'" and "lr_cell results' = lr_cell results"
proof -
  from assms(2) obtain victim xs e ys where "map_of (loads st) key = Some victim"
    and "st' = set_entries key victim (xs @ expire e # ys) st"
    by (rule reserve_round_Evicted)
  with assms(1) that show thesis
    by (cases "ld = key") (auto simp: set_entries_def AList.update_conv')
qed

definition reserve_spec ::
  "LoadId \<Rightarrow> nat \<Rightarrow> 'p LoadResults \<Rightarrow> (UnavailableReason + SourceCharge) \<Rightarrow> 'p Catalog \<Rightarrow> bool" where
  "reserve_spec ld bytes results r st' =
     (case r of
        Inr c \<Rightarrow> c = \<lparr>sc_bytes = bytes, sc_cell = lr_cell results\<rparr>
      | Inl e \<Rightarrow> e = ResourceLimit
          \<and> (case map_of (loads st') ld of None \<Rightarrow> False | Some r' \<Rightarrow> source_orders r' = []))"

lemma charge_drop_loads [simp]: "loads (charge_drop c st) = loads st"
  by (simp add: charge_drop_def)

lemma reserve_loop_correct:
  assumes "limits_ok lim" and "catalog_ok lim (st, A)" and "map_of (loads st) ld = Some results"
  shows "\<exists>r st' marks' A'. reserve_loop lim ld bytes held marks st = Some (r, st', marks')
    \<and> catalog_ok lim (st', A') \<and> reserve_spec ld bytes results r st'"
  using assms
proof (induction lim ld bytes held marks st arbitrary: A results rule: reserve_loop.induct)
  case (1 lim ld bytes held marks st)
  from reserve_round_returns[OF "1.prems"(2,3)] obtain rd
    where rd: "reserve_round lim ld bytes st = Some rd" ..
  show ?case
  proof (cases rd)
    case (Granted c st')
    with 1 rd grant_ok[of lim st A ld bytes c st'] reserve_round_Granted[of st ld results lim bytes c st']
    show ?thesis by (subst reserve_loop.simps) (auto simp: reserve_spec_def)
  next
    case (Refused e st')
    with 1 rd reserve_round_Refused[of st ld results lim bytes e st']
    show ?thesis by (subst reserve_loop.simps) (auto simp: reserve_spec_def)
  next
    case (Evicted key removed st')
    let ?st = "if held removed then st' else charge_drop (charge removed) st'"
    note ev = rd[unfolded Evicted]
    from evicted_ok[OF "1.prems"(2) ev]
      drop_ok[OF evicted_ok[OF "1.prems"(2) ev] evicted_charge_free[OF "1.prems"(2) ev]]
    obtain A1 where "catalog_ok lim (?st, A1)" by (cases "held removed") auto
    moreover from "1.prems"(3) ev obtain results'
      where "map_of (loads st') ld = Some results'" and cell: "lr_cell results' = lr_cell results"
      by (rule reserve_round_keeps_load)
    then have "map_of (loads ?st) ld = Some results'" by simp
    ultimately have "\<exists>r st' marks' A'. reserve_loop lim ld bytes held (marks @ [key]) ?st = Some (r, st', marks')
        \<and> catalog_ok lim (st', A') \<and> reserve_spec ld bytes results' r st'"
      using "1.IH"[OF ev refl] "1.prems"(1) by blast
    moreover have "reserve_spec ld bytes results' = reserve_spec ld bytes results"
      by (simp add: reserve_spec_def fun_eq_iff cell split: sum.splits)
    moreover have "reserve_loop lim ld bytes held marks st = reserve_loop lim ld bytes held (marks @ [key]) ?st"
      by (subst reserve_loop.simps) (simp add: ev)
    ultimately show ?thesis by (simp only:)
  qed
qed

text \<open>C3: In every state the catalog can reach, the counters of retained result sources are
  exactly the sizes of the charges alive, within the budget of the process (256 MiB, 128
  sources) and of each load (64 MiB, 32 sources); every source in the catalog is charged; and
  the counters of completion entries are exact and within their limits.\<close>

theorem catalog_within_budget:
  assumes "(cstep default_limits n)\<^sup>*\<^sup>* (new_catalog, {#}) (st, A)"
  shows "source_bytes st = (\<Sum>c\<in>#A. sc_bytes c) \<and> source_count st = size A
    \<and> source_bytes st \<le> 268435456 \<and> source_count st \<le> 128
    \<and> (\<forall>k. cells st k = (cell_bytes k A, cell_count k A)
           \<and> cell_bytes k A \<le> 67108864 \<and> cell_count k A \<le> 32)
    \<and> catalog_charges st \<subseteq># A
    \<and> cat_entries st = total_entries st \<and> total_entries st \<le> 4096
    \<and> cat_metadata st \<le> 8388608"
proof -
  have "catalog_ok default_limits (st, A)"
    by (rule catalog.reachable_inv[OF _ assms]) (simp add: catalog_init_def)
  then show ?thesis
    by (auto simp: catalog_parts counters_ok_def budget_ok_def log_ok_def entries_ok_def window_ok_def
        default_limits_def)
qed

lemma register_grant_reach:
  "(cstep default_limits n)\<^sup>*\<^sup>* (new_catalog, {#})
     (charge_add \<lparr>sc_bytes = 10, sc_cell = 0\<rparr> (register ''a'' (new_catalog :: unit Catalog)),
      {#\<lparr>sc_bytes = 10, sc_cell = 0\<rparr>#})"
proof -
  have "cstep default_limits n (new_catalog, {#}) (register ''a'' (new_catalog :: unit Catalog), {#})"
    by (rule c_register) (simp add: new_catalog_def)
  moreover have "cstep default_limits n (register ''a'' new_catalog, {#})
     (charge_add \<lparr>sc_bytes = 10, sc_cell = 0\<rparr> (register ''a'' (new_catalog :: unit Catalog)),
      {#\<lparr>sc_bytes = 10, sc_cell = 0\<rparr>#})"
    by (rule c_grant[where ld = "''a''" and bytes = 10])
      (simp_all add: default_limits_def new_catalog_def register_def reserve_round_def Let_def
        local_full_def global_full_def saturating_add_def u64_bound_def)
  ultimately show ?thesis by (meson converse_rtranclp_into_rtranclp rtranclp.rtrancl_refl)
qed

theorem catalog_within_budget_witness:
  "source_bytes (charge_add \<lparr>sc_bytes = 10, sc_cell = 0\<rparr> (register ''a'' (new_catalog :: unit Catalog))) = 10"
  using catalog_within_budget[OF register_grant_reach] by simp

text \<open>C35: In every state the catalog can reach, reserving memory for the result of a loaded
  Session ends without a panic: with \<^verbatim>\<open>TooLarge\<close> exactly when the request alone exceeds the
  load's budget, else with a charge of the requested size on that load's counters or, when no
  retained source of the load is left to expire, with \<^verbatim>\<open>ResourceLimit\<close>.\<close>

theorem reserve_returns:
  assumes "(cstep default_limits n)\<^sup>*\<^sup>* (new_catalog, {#}) (st, A)"
    and "map_of (loads st) ld = Some results"
  shows "\<exists>r st' marks. reserve default_limits ld bytes held st = Some (r, st', marks)
    \<and> (r = Inl TooLarge \<longleftrightarrow> 67108864 < bytes)
    \<and> (bytes \<le> 67108864 \<longrightarrow> reserve_spec ld bytes results r st')"
proof (cases "67108864 < bytes")
  case True
  then show ?thesis by (simp add: reserve_def default_limits_def)
next
  case False
  have "catalog_ok default_limits (st, A)"
    by (rule catalog.reachable_inv[OF _ assms(1)]) (simp add: catalog_init_def)
  from reserve_loop_correct[OF default_limits_ok this assms(2), of bytes held "[]"] False
  show ?thesis
    by (fastforce simp: reserve_def default_limits_def reserve_spec_def split: sum.splits)
qed

lemma reserve_small:
  "(map_of (loads (charge_add \<lparr>sc_bytes = 10, sc_cell = 0\<rparr> (register ''a'' (new_catalog :: unit Catalog)))) ''a'')
   = Some \<lparr>through = 0, lr_entries = [], lr_cell = 0\<rparr>"
  by (simp add: charge_add_def register_def new_catalog_def)

theorem reserve_returns_witness:
  "\<exists>c st' marks. reserve default_limits ''a'' 20 (\<lambda>_. False)
     (charge_add \<lparr>sc_bytes = 10, sc_cell = 0\<rparr> (register ''a'' (new_catalog :: unit Catalog)))
     = Some (c, st', marks) \<and> c \<noteq> Inl TooLarge"
  using reserve_returns[OF register_grant_reach reserve_small, of 20 "\<lambda>_. False"] by simp blast

text \<open>C34: In every state the catalog can reach, the completion window of a Session is gapless:
  its entries carry exactly the sequence numbers from the first retained one through the last
  completion, at most 256 of them, and it is reported truncated exactly when earlier
  completions are no longer in it.\<close>

theorem window_gapless:
  assumes "(cstep default_limits n)\<^sup>*\<^sup>* (new_catalog, {#}) (st, A)"
    and "window ld st = Some w"
  shows "map seq (win_entries w) = [retained_from_seq w..<Suc (through_seq w)]
    \<and> length (win_entries w) \<le> 256
    \<and> (truncated w \<longleftrightarrow> length (win_entries w) < through_seq w)"
proof (cases "map_of (loads st) ld")
  case None
  with assms(2) show ?thesis by (auto simp: window_def)
next
  case (Some r)
  have ok: "catalog_ok default_limits (st, A)"
    by (rule catalog.reachable_inv[OF _ assms(1)]) (simp add: catalog_init_def)
  from ok Some have len: "length (lr_entries r) \<le> 256"
    by (auto simp: catalog_parts window_ok_def default_limits_def)
  from ok Some have "load_ok (order st) r" by (auto simp: catalog_parts intro: log_ok_load)
  then have seqs: "map (\<lambda>e. seq (entry e)) (lr_entries r) = [Suc (through r) - length (lr_entries r)..<Suc (through r)]"
    and le: "length (lr_entries r) \<le> through r"
    by (auto simp: load_ok_def seqs_ok_def)
  have "retained_from_seq w = Suc (through r) - length (lr_entries r)"
  proof (cases "lr_entries r")
    case Nil
    with assms(2) Some show ?thesis by (auto simp: window_def split: option.splits)
  next
    case (Cons e es)
    with seqs have "seq (entry e) = hd [Suc (through r) - length (lr_entries r)..<Suc (through r)]"
      by (metis list.sel(1) list.simps(9))
    with Cons assms(2) Some show ?thesis by (auto simp: window_def hd_upt simp del: upt_Suc)
  qed
  moreover have "through_seq w = through r" "win_entries w = map entry (lr_entries r)"
    "truncated w = (1 < retained_from_seq w)"
    using assms(2) Some by (auto simp: window_def split: option.splits)
  ultimately show ?thesis
    using seqs len le by (auto simp: comp_def simp del: upt_Suc)
qed

theorem window_gapless_witness:
  "\<not> truncated (the (window ''a''
     (charge_add \<lparr>sc_bytes = 10, sc_cell = 0\<rparr> (register ''a'' (new_catalog :: unit Catalog)))))"
  using window_gapless[OF register_grant_reach, of "''a''"
      "\<lparr>through_seq = 0, retained_from_seq = 1, win_entries = [], truncated = False\<rparr>"]
  by (simp add: window_def charge_add_def register_def new_catalog_def checked_add_def u64_bound_def)

subsection \<open>The newest completion stays\<close>

definition newest :: "LoadId \<Rightarrow> 'p Retained \<Rightarrow> 'p Catalog \<Rightarrow> bool" where
  "newest ld new st =
     ((\<exists>r es. map_of (loads st) ld = Some r \<and> lr_entries r = es @ [new])
      \<and> (\<forall>k r e. map_of (loads st) k = Some r \<longrightarrow> e \<in> set (lr_entries r) \<longrightarrow> k \<noteq> ld \<longrightarrow>
            ret_order e < ret_order new))"

lemma load_sum_single:
  assumes "distinct (map fst (loads st))" and "map_of (loads st) ld = Some r"
    and "\<And>k r'. map_of (loads st) k = Some r' \<Longrightarrow> k \<noteq> ld \<Longrightarrow> f r' = (0::nat)"
  shows "load_sum f st = f r"
proof -
  let ?st = "st\<lparr>loads := AList.delete ld (loads st)\<rparr>"
  have "load_sum f ?st = 0"
  proof (rule load_sum_eq_0)
    fix k r' assume "(k, r') \<in> set (loads ?st)"
    then have "(k, r') \<in> set (loads st)" "k \<noteq> ld" by (auto simp: AList.delete_eq)
    with assms show "f r' = 0" by (metis map_of_is_SomeI)
  qed
  moreover have "load_sum f ?st + f r = load_sum f st"
    by (rule load_sum_delete[OF assms(2,1)]) simp
  ultimately show ?thesis by simp
qed

lemma pop_keeps_newest:
  assumes log: "log_ok st" and new: "newest ld new st" and r: "map_of (loads st) ld = Some results"
    and over: "\<not> within_limits lim results st" and c: "evict_candidate lim ld results st = Some key"
    and p: "pop_entry key st = Some (e, st')"
    and lim: "0 < entries_per_load lim" "0 < max_entries lim" "ret_metadata new \<le> max_metadata_bytes lim"
  shows "newest ld new st'"
proof -
  from new r obtain es where es: "lr_entries results = es @ [new]" by (auto simp: newest_def)
  have "es \<noteq> []" if "key = ld"
  proof
    assume "es = []"
    with es lim have nf: "\<not> entries_per_load lim < length (lr_entries results)" by simp
    with c that obtain n where m: "min_by_order (front_orders st) = Some (ld, n)"
      by (auto simp: evict_candidate_def)
    from min_by_order_in[OF m] obtain r' f fs
      where r': "(ld, r') \<in> set (loads st)" "lr_entries r' = f # fs" "ret_order f = n"
      by (auto simp: front_orders_iff)
    moreover from r'(1) log have "map_of (loads st) ld = Some r'"
      by (simp add: log_ok_def entries_ok_def map_of_is_SomeI)
    ultimately have n: "n = ret_order new" using r es \<open>es = []\<close> by simp
    have none: "lr_entries r' = []" if k: "map_of (loads st) k = Some r'" "k \<noteq> ld" for k r'
    proof (cases "lr_entries r'")
      case (Cons f fs)
      with k new have "ret_order f < ret_order new" by (auto simp: newest_def)
      moreover from Cons k have "(k, ret_order f) \<in> set (front_orders st)"
        by (auto simp: front_orders_iff dest: map_of_SomeD)
      with min_by_order_least[OF m] n have "ret_order new \<le> ret_order f" by force
      ultimately show ?thesis by simp
    qed simp
    from log have d: "distinct (map fst (loads st))" by (simp add: log_ok_def entries_ok_def)
    have "total_entries st = 1"
      using load_sum_single[OF d r, of "\<lambda>r. length (lr_entries r)"] none es \<open>es = []\<close>
      by (simp add: total_entries_load_sum)
    moreover have "load_sum (\<lambda>r. sum_list (map ret_metadata (lr_entries r))) st = ret_metadata new"
      using load_sum_single[OF d r, of "\<lambda>r. sum_list (map ret_metadata (lr_entries r))"] none es \<open>es = []\<close>
      by simp
    ultimately have "within_limits lim results st"
      using log lim nf by (auto simp: within_limits_def log_ok_def entries_ok_def)
    with over show False by blast
  qed
  then show ?thesis
    using p new r es
    by (cases es) (auto elim!: pop_entryE simp: newest_def AList.update_conv' split: if_splits)
qed

lemma evict_loop_newest:
  assumes "log_ok st" and "newest ld new st" and "evict_loop lim ld released affected st = Some (st', rel, aff)"
    and "0 < entries_per_load lim" "0 < max_entries lim" "ret_metadata new \<le> max_metadata_bytes lim"
  shows "newest ld new st'"
  using assms
proof (induction lim ld released affected st rule: evict_loop.induct)
  case (1 lim ld released affected st)
  then obtain results where r: "map_of (loads st) ld = Some results" by (auto simp: newest_def)
  show ?case
  proof (cases "within_limits lim results st")
    case True
    with 1 r show ?thesis by (simp add: evict_loop.simps[of lim ld released affected st])
  next
    case False
    from evict_candidate_pops[OF "1.prems"(1) r False] obtain key e st1
      where c: "evict_candidate lim ld results st = Some key" and p: "pop_entry key st = Some (e, st1)" .
    have "evict_loop lim ld (case source e of None \<Rightarrow> released | Some s \<Rightarrow> released @ [s])
        (insert key affected) st1 = Some (st', rel, aff)"
      using "1.prems"(3) r False c p by (simp add: evict_loop.simps[of lim ld released affected st])
    with "1.IH"[OF r False c p refl pop_entry_log_ok[OF p "1.prems"(1)]
        pop_keeps_newest[OF "1.prems"(1,2) r False c p "1.prems"(4-6)]] "1.prems"(4-6)
    show ?thesis by blast
  qed
qed

lemma push_entry_newest:
  assumes "push_entry n ld e src st = Some st'" and "log_ok st" and "map_of (loads st) ld = Some results"
  shows "newest ld \<lparr>entry = e\<lparr>seq := Suc (through results)\<rparr>, source = src, ret_order = Suc (order st),
               ret_metadata = 4 * n + (case ce_input_id e of None \<Rightarrow> 0 | Some i \<Rightarrow> length i)\<rparr> st'"
  using assms(1)
proof (rule push_entryE)
  fix results' new
  assume "map_of (loads st) ld = Some results'"
    and "new = \<lparr>entry = e\<lparr>seq := Suc (through results')\<rparr>, source = src, ret_order = Suc (order st),
               ret_metadata = 4 * n + (case ce_input_id e of None \<Rightarrow> 0 | Some i \<Rightarrow> length i)\<rparr>"
    and "loads st' = AList.update ld
           (results'\<lparr>through := Suc (through results'), lr_entries := lr_entries results' @ [new]\<rparr>) (loads st)"
  moreover have "ret_order x \<le> order st" if "map_of (loads st) k = Some r" "x \<in> set (lr_entries r)" for k r x
    using log_ok_load[OF assms(2) that(1)] that(2) by (auto simp: load_ok_def)
  ultimately show ?thesis
    using assms(3) by (auto simp: newest_def AList.update_conv' less_Suc_eq_le)
qed

text \<open>In every state the catalog can reach, recording a completion of a loaded Session ends
  without a panic (short of \<open>2\<^sup>6\<^sup>4\<close> completions), keeps every limit, and the new completion is
  the last entry of the Session's window with the next sequence number: eviction never removes
  the entry just recorded.\<close>

theorem insert_keeps_newest:
  assumes "(cstep default_limits n)\<^sup>*\<^sup>* (new_catalog, {#}) (st, A)"
    and "map_of (loads st) ld = Some results"
    and "source_free src (st, A)" and "availability e = Live \<longleftrightarrow> src \<noteq> None"
    and "order st + 1 < u64_bound" and "through results + 1 < u64_bound"
    and "4 * n + (case ce_input_id e of None \<Rightarrow> 0 | Some i \<Rightarrow> length i) \<le> 8388608"
  shows "\<exists>st' released affected results'.
    insert_completion default_limits n ld e src st = Some (st', released, affected)
    \<and> catalog_ok default_limits (st', A)
    \<and> map_of (loads st') ld = Some results'
    \<and> lr_entries results' \<noteq> [] \<and> entry (last (lr_entries results')) = e\<lparr>seq := Suc (through results)\<rparr>
    \<and> source (last (lr_entries results')) = src"
proof -
  have ok: "catalog_ok default_limits (st, A)"
    by (rule catalog.reachable_inv[OF _ assms(1)]) (simp add: catalog_init_def)
  then have log: "log_ok st" by (simp add: catalog_parts)
  from assms(2,5,6) obtain st1 where p: "push_entry n ld e src st = Some st1"
    by (simp add: push_entry_def Let_def checked_add_def)
  have log1: "log_ok st1" by (rule push_entry_log_ok[OF p log assms(4)])
  have "map_of (loads st1) ld \<noteq> None" using p by (auto elim!: push_entryE simp: AList.update_conv')
  from evict_loop_correct[OF log1 this] obtain st' rel aff
    where ev: "evict_loop default_limits ld [] {ld} st1 = Some (st', rel, aff)" by metis
  then have ins: "insert_completion default_limits n ld e src st = Some (st', rel, aff)"
    using p by (simp add: insert_completion_def)
  from evict_loop_newest[OF log1 push_entry_newest[OF p log assms(2)] ev] assms(7)
  have "newest ld \<lparr>entry = e\<lparr>seq := Suc (through results)\<rparr>, source = src, ret_order = Suc (order st),
               ret_metadata = 4 * n + (case ce_input_id e of None \<Rightarrow> 0 | Some i \<Rightarrow> length i)\<rparr> st'"
    by (simp add: default_limits_def)
  with ins insert_completion_ok[OF ok assms(3,4) ins] show ?thesis
    by (auto simp: newest_def)
qed

definition sample_entry :: CompletionEntry where
  "sample_entry =
     \<lparr>seq = 0, ce_loop_id = ''l'', ce_input_id = None, completion_kind = Reported,
      outcome_kind = Some CompletedOutcome, ce_persistence = Some Persisted,
      persistence_uncertain = False, availability = Stored, unavailable_reason = None,
      after_saved_loop_id = None\<rparr>"

theorem insert_keeps_newest_witness:
  "\<exists>st' released affected results'.
     insert_completion default_limits 200 ''a'' sample_entry None
       (charge_add \<lparr>sc_bytes = 10, sc_cell = 0\<rparr> (register ''a'' (new_catalog :: unit Catalog)))
       = Some (st', released, affected)
     \<and> map_of (loads st') ''a'' = Some results'
     \<and> entry (last (lr_entries results')) = sample_entry\<lparr>seq := 1\<rparr>"
  using insert_keeps_newest[OF register_grant_reach[of 200] reserve_small, of None sample_entry]
  by (simp add: source_free_def sample_entry_def charge_add_def register_def new_catalog_def u64_bound_def) blast

end
