(* ===== verification/Input_Queue.thy ===== *)
theory Input_Queue
  imports Results
begin

text \<open>
  The input queue of a Session: \<^verbatim>\<open>src/sessions/inputs.rs\<close>, the parts of
  \<^verbatim>\<open>src/sessions/active_loop.rs\<close> that start, finish and follow up a turn, and the request
  boundary of \<^verbatim>\<open>src/sessions/boundary.rs\<close>.

  A Session is a record of the state under its two locks (\<^verbatim>\<open>SessionInner\<close>, \<^verbatim>\<open>QueueState\<close>) and of
  the completion catalog it shares. Everything the Runtime crate decides is a parameter: which
  texts are valid user inputs (\<open>user_text\<close>), the outcome of building a configuration and of
  starting a loop. An operation returns its result together with the Session it leaves, on its
  error branches too.

  \<open>qstep\<close> interleaves the critical sections of all tasks: requests of the client, claims in
  flight, the worker of the running turn, takes by current and stale loops, and arbitrary
  changes of the guarded flags by the rest of the program.
\<close>

section \<open>Data\<close>

datatype InputMode = Steer | FollowUp

datatype AgentError =
    InvalidInput | SessionBlocked | SessionBusy | InputQueueFull | InputNotQueued
  | InternalFailure | InvalidSessionSettings | RuntimeStart | TurnNotFound

datatype SessionBlockReason = BlockedInternal | BlockedPersistence

record Entry =
  entry_id :: string
  entry_mode :: InputMode
  entry_input :: string
  entry_accepted_at :: "string option"

record QueueItem =
  item_id :: string
  item_mode :: InputMode
  item_text :: string
  item_accepted_at :: "string option"

record Queue =
  view_items :: "QueueItem list"
  view_paused :: bool

record DeliveredInput =
  del_id :: string
  del_text :: string
  del_accepted_at :: "string option"
  del_request_index :: nat

record QueueState =
  items :: "Entry list"
  starting :: "Entry option"
  paused :: bool
  running :: bool
  binding :: "nat option"
  generation :: nat
  next_id :: nat

record TurnRef =
  turn_session :: string
  turn_loop :: LoopId

datatype LoopOutcomeView =
  OutcomeCompleted | OutcomeCancelled string | OutcomeFailed string | OutcomeUnknown

record TurnResult =
  res_turn :: TurnRef
  res_outcome :: LoopOutcomeView
  res_persistence :: TurnPersistence

datatype TurnCompletion = Finished TurnResult | FinishedInternal

record ActiveLoop =
  act_turn :: TurnRef
  act_input :: QueueItem
  act_completion :: "TurnCompletion option"
  act_generation :: nat

record SessionInner =
  blocked :: "SessionBlockReason option"
  closing :: bool
  pending_compaction :: bool
  compaction :: "bool option"
  active :: "ActiveLoop option"
  finished :: "(TurnRef \<times> TurnCompletion option) list"
  last_saved :: "LoopId option"
  max_user_input_bytes :: nat

record 'p Session =
  inner :: SessionInner
  queue :: QueueState
  results :: "'p Catalog"
  sess_id :: string
  sess_load :: LoadId
  dirty :: bool

type_synonym claim = "Entry \<times> nat"

definition MAX_QUEUED_INPUTS :: nat where
  "MAX_QUEUED_INPUTS = 32"

definition FINISHED_TURNS_KEPT :: nat where
  "FINISHED_TURNS_KEPT = 4"

definition new_queue :: QueueState where
  "new_queue = \<lparr>items = [], starting = None, paused = False, running = False, binding = None,
                generation = 0, next_id = 0\<rparr>"

section \<open>The queue\<close>

abbreviation is_steer :: "Entry \<Rightarrow> bool" where
  "is_steer e \<equiv> entry_mode e = Steer"

definition entry_item :: "Entry \<Rightarrow> QueueItem" where
  "entry_item e = \<lparr>item_id = entry_id e, item_mode = entry_mode e, item_text = entry_input e,
                   item_accepted_at = entry_accepted_at e\<rparr>"

definition entry_delivered :: "nat \<Rightarrow> Entry \<Rightarrow> DeliveredInput" where
  "entry_delivered i e = \<lparr>del_id = entry_id e, del_text = entry_input e,
                          del_accepted_at = entry_accepted_at e, del_request_index = i\<rparr>"

fun position :: "('a \<Rightarrow> bool) \<Rightarrow> 'a list \<Rightarrow> nat option" where
  "position P [] = None"
| "position P (x # xs) = (if P x then Some 0 else map_option Suc (position P xs))"

definition head :: "QueueState \<Rightarrow> nat option" where
  "head q = (case position is_steer (items q) of
               Some i \<Rightarrow> Some i
             | None \<Rightarrow> if items q \<noteq> [] then Some 0 else None)"

definition view :: "QueueState \<Rightarrow> Queue" where
  "view q = \<lparr>view_items = map entry_item
               (filter is_steer (items q) @ filter (\<lambda>e. entry_mode e = FollowUp) (items q)),
             view_paused = paused q\<rparr>"

definition remove_at :: "nat \<Rightarrow> 'a list \<Rightarrow> 'a list" where
  "remove_at i xs = take i xs @ drop (Suc i) xs"

definition insert_at :: "nat \<Rightarrow> 'a \<Rightarrow> 'a list \<Rightarrow> 'a list" where
  "insert_at i x xs = take i xs @ x # drop i xs"

definition start_head :: "QueueState \<Rightarrow> (AgentError + claim option) \<times> QueueState" where
  "start_head q =
     (case head q of
        None \<Rightarrow> (Inr None, q)
      | Some h \<Rightarrow>
          (case checked_add (generation q) 1 of
             None \<Rightarrow> (Inl InternalFailure, q)
           | Some g \<Rightarrow>
               let e = items q ! h in
               (Inr (Some (e, g)),
                q\<lparr>items := remove_at h (items q), running := True, generation := g,
                  binding := Some g, starting := Some e\<rparr>)))"

definition restore :: "Entry \<Rightarrow> QueueState \<Rightarrow> QueueState" where
  "restore e q =
     (let at = (case entry_mode e of
                  Steer \<Rightarrow> 0
                | FollowUp \<Rightarrow> (case position (\<lambda>c. entry_mode c = FollowUp) (items q) of
                                 Some i \<Rightarrow> i | None \<Rightarrow> length (items q)))
      in q\<lparr>items := insert_at at e (items q)\<rparr>)"

definition end_period :: "QueueState \<Rightarrow> QueueState" where
  "end_period q = q\<lparr>running := False, binding := None, starting := None\<rparr>"

definition take_steers :: "QueueState \<Rightarrow> Entry list \<times> QueueState" where
  "take_steers q =
     (let (steers, rest) = partition is_steer (items q) in (steers, q\<lparr>items := rest\<rparr>))"

section \<open>Session operations\<close>

definition mark_dirty :: "'p Session \<Rightarrow> 'p Session" where
  "mark_dirty s = s\<lparr>dirty := True\<rparr>"

definition can_start :: "SessionInner \<Rightarrow> bool" where
  "can_start i =
     (blocked i = None \<and> \<not> closing i \<and> \<not> pending_compaction i
      \<and> (case compaction i of None \<Rightarrow> True | Some is_completed \<Rightarrow> is_completed))"

definition claim_start :: "SessionInner \<Rightarrow> QueueState \<Rightarrow> (AgentError + claim option) \<times> QueueState" where
  "claim_start i q =
     (if running q \<or> paused q \<or> \<not> can_start i then (Inr None, q) else start_head q)"

definition hex_char :: "nat \<Rightarrow> char" where
  "hex_char d = (if d < 10 then digit_char d else char_of (87 + d))"

fun show_hex :: "nat \<Rightarrow> string" where
  "show_hex n = (if n < 16 then [hex_char n] else show_hex (n div 16) @ [hex_char (n mod 16)])"

declare show_hex.simps [simp del]

definition input_id :: "nat \<Rightarrow> string" where
  "input_id n = ''inp_'' @ pad_left 32 (show_hex n)"

record PendingPush =
  push_id :: string
  push_accepted_at :: "string option"
  push_claim :: "claim option"

definition accept_input ::
  "(string \<Rightarrow> string option) \<Rightarrow> string option \<Rightarrow> InputMode \<Rightarrow> string \<Rightarrow> 'p Session
   \<Rightarrow> (AgentError + PendingPush) \<times> 'p Session" where
  "accept_input user_text accepted_at mode txt s =
     (case user_text txt of
        None \<Rightarrow> (Inl InvalidInput, s)
      | Some input \<Rightarrow>
          if max_user_input_bytes (inner s) < length input then (Inl InvalidInput, s)
          else if blocked (inner s) \<noteq> None then (Inl SessionBlocked, s)
          else if closing (inner s) then (Inl SessionBusy, s)
          else if MAX_QUEUED_INPUTS \<le> length (items (queue s)) then (Inl InputQueueFull, s)
          else if \<not> running (queue s) \<and> can_start (inner s) \<and> generation (queue s) = u64_bound - 1
            then (Inl InternalFailure, s)
          else
            (case checked_add (next_id (queue s)) 1 of
               None \<Rightarrow> (Inl InternalFailure, s)
             | Some n \<Rightarrow>
                 let e = \<lparr>entry_id = input_id n, entry_mode = mode, entry_input = input,
                          entry_accepted_at = accepted_at\<rparr>;
                     q = (queue s)\<lparr>next_id := n, items := items (queue s) @ [e], paused := False\<rparr>
                 in (case claim_start (inner s) q of
                       (Inl err, q') \<Rightarrow> (Inl err, s\<lparr>queue := q'\<rparr>)
                     | (Inr c, q') \<Rightarrow>
                         (Inr \<lparr>push_id = input_id n, push_accepted_at = accepted_at, push_claim = c\<rparr>,
                          mark_dirty (s\<lparr>queue := q'\<rparr>)))))"

definition remove_input :: "string \<Rightarrow> 'p Session \<Rightarrow> (AgentError + string) \<times> 'p Session" where
  "remove_input i s =
     (case position (\<lambda>e. entry_id e = i) (items (queue s)) of
        None \<Rightarrow> (Inl InputNotQueued, s)
      | Some at \<Rightarrow>
          let e = items (queue s) ! at;
              rest = remove_at at (items (queue s))
          in (Inr (entry_input e),
              mark_dirty (s\<lparr>queue := (queue s)\<lparr>items := rest, paused := paused (queue s) \<and> rest \<noteq> []\<rparr>\<rparr>)))"

definition recall_inputs :: "'p Session \<Rightarrow> string list \<times> 'p Session" where
  "recall_inputs s =
     (map item_text (view_items (view (queue s))),
      mark_dirty (s\<lparr>queue := (queue s)\<lparr>items := [], paused := False\<rparr>\<rparr>))"

definition accept_resume :: "'p Session \<Rightarrow> (AgentError + claim option) \<times> 'p Session" where
  "accept_resume s =
     (if blocked (inner s) \<noteq> None then (Inl SessionBlocked, s)
      else if \<not> running (queue s) \<and> items (queue s) \<noteq> [] \<and> can_start (inner s)
              \<and> generation (queue s) = u64_bound - 1
        then (Inl InternalFailure, s)
      else
        let was_paused = paused (queue s) in
        (case claim_start (inner s) ((queue s)\<lparr>paused := False\<rparr>) of
           (Inl err, q') \<Rightarrow> (Inl err, s\<lparr>queue := q'\<rparr>)
         | (Inr c, q') \<Rightarrow>
             (Inr c, (if was_paused \<or> c \<noteq> None then mark_dirty else id) (s\<lparr>queue := q'\<rparr>))))"

definition abandon_claim :: "Entry \<Rightarrow> bool \<Rightarrow> 'p Session \<Rightarrow> 'p Session" where
  "abandon_claim e pause s =
     (let q = end_period (restore e (queue s))
      in mark_dirty (s\<lparr>queue := q\<lparr>paused := paused q \<or> pause\<rparr>\<rparr>))"

definition validate_install_state :: "SessionInner \<Rightarrow> TurnRef option \<Rightarrow> AgentError + unit" where
  "validate_install_state i successor_of =
     (if blocked i \<noteq> None then Inl SessionBlocked
      else
        let active_matches = (case (active i, successor_of) of
               (None, None) \<Rightarrow> True
             | (Some a, Some turn) \<Rightarrow> act_turn a = turn
             | _ \<Rightarrow> False)
        in if closing i \<or> \<not> active_matches \<or> pending_compaction i
              \<or> (case compaction i of None \<Rightarrow> False | Some is_completed \<Rightarrow> \<not> is_completed)
           then Inl SessionBusy else Inr ())"

text \<open>\<open>started\<close> is what the Runtime answers to \<^verbatim>\<open>AgentLoop::start\<close> and \<^verbatim>\<open>take_events\<close>.\<close>

definition install_loop ::
  "(AgentError + LoopId) \<Rightarrow> Entry \<Rightarrow> nat \<Rightarrow> TurnRef option \<Rightarrow> 'p Session
   \<Rightarrow> (AgentError + TurnRef) \<times> 'p Session" where
  "install_loop started e gen successor s =
     (case validate_install_state (inner s) successor of
        Inl err \<Rightarrow> (Inl err, s)
      | Inr _ \<Rightarrow>
          (case started of
             Inl err \<Rightarrow> (Inl err, s)
           | Inr lp \<Rightarrow>
               let turn = \<lparr>turn_session = sess_id s, turn_loop = lp\<rparr>;
                   fin = (case active (inner s) of
                            None \<Rightarrow> finished (inner s)
                          | Some previous \<Rightarrow>
                              let f = finished (inner s) @ [(act_turn previous, act_completion previous)]
                              in if FINISHED_TURNS_KEPT < length f then tl f else f)
               in (Inr turn,
                   mark_dirty (s\<lparr>
                     queue := (queue s)\<lparr>starting := None\<rparr>,
                     inner := (inner s)\<lparr>
                       active := Some \<lparr>act_turn = turn, act_input = entry_item e,
                                       act_completion = None, act_generation = gen\<rparr>,
                       finished := fin\<rparr>\<rparr>))))"

record InputStartError =
  err_input_id :: string
  err_kind :: string

definition start_error_kind :: "AgentError \<Rightarrow> string" where
  "start_error_kind err =
     (case err of
        SessionBusy \<Rightarrow> ''session_busy''
      | SessionBlocked \<Rightarrow> ''session_blocked''
      | InvalidSessionSettings \<Rightarrow> ''invalid_session_settings''
      | _ \<Rightarrow> ''runtime_start_failed'')"

text \<open>
  The claimed start without interleaving: \<open>cleanup\<close> and \<open>config\<close> are the outcomes of
  \<^verbatim>\<open>cleanup_finished\<close> and \<^verbatim>\<open>execution_config\<close>.
\<close>

definition start_claim ::
  "(AgentError + unit) \<Rightarrow> (AgentError + unit) \<Rightarrow> (AgentError + LoopId) \<Rightarrow> claim \<Rightarrow> 'p Session
   \<Rightarrow> InputStartError option \<times> 'p Session" where
  "start_claim cleanup config started c s =
     (let (r, s') = (case res_bind cleanup (\<lambda>_. config) of
                       Inl err \<Rightarrow> (Inl err, s)
                     | Inr _ \<Rightarrow> install_loop started (fst c) (snd c) None s)
      in case r of
           Inr _ \<Rightarrow> (None, s')
         | Inl err \<Rightarrow>
             (Some \<lparr>err_input_id = entry_id (fst c), err_kind = start_error_kind err\<rparr>,
              abandon_claim (fst c) (err \<noteq> SessionBusy) s'))"

definition claim_after_compaction :: "'p Session \<Rightarrow> claim option \<times> 'p Session" where
  "claim_after_compaction s =
     (case claim_start (inner s) (queue s) of
        (Inr (Some c), q) \<Rightarrow> (Some c, mark_dirty (s\<lparr>queue := q\<rparr>))
      | (Inr None, q) \<Rightarrow> (None, s\<lparr>queue := q\<rparr>)
      | (Inl _, q) \<Rightarrow> (None, mark_dirty (s\<lparr>queue := q\<lparr>paused := True\<rparr>\<rparr>)))"

definition start_after_compaction ::
  "(AgentError + unit) \<Rightarrow> (AgentError + LoopId) \<Rightarrow> 'p Session \<Rightarrow> 'p Session" where
  "start_after_compaction config started s =
     (case claim_after_compaction s of
        (None, s') \<Rightarrow> s'
      | (Some c, s') \<Rightarrow>
          (case config of
             Inl _ \<Rightarrow> abandon_claim (fst c) True s'
           | Inr _ \<Rightarrow>
               (case install_loop started (fst c) (snd c) None s' of
                  (Inr _, s'') \<Rightarrow> s''
                | (Inl _, s'') \<Rightarrow> abandon_claim (fst c) True s'')))"

definition completion_outcome :: "LoopOutcomeView \<Rightarrow> CompletionOutcome" where
  "completion_outcome v =
     (case v of
        OutcomeCompleted \<Rightarrow> CompletedOutcome
      | OutcomeCancelled _ \<Rightarrow> CancelledOutcome
      | OutcomeFailed _ \<Rightarrow> FailedOutcome
      | OutcomeUnknown \<Rightarrow> UnknownOutcome)"

definition eligible :: "TurnResult \<Rightarrow> bool" where
  "eligible r = (res_persistence r = Persisted \<and> res_outcome r = OutcomeCompleted)"

definition completed_queue :: "bool \<Rightarrow> bool \<Rightarrow> QueueState \<Rightarrow> QueueState" where
  "completed_queue ok continue q =
     (if continue then q
      else end_period (q\<lparr>paused := paused q \<or> (\<not> ok \<and> items q \<noteq> [])\<rparr>))"

definition publish :: "TurnRef \<Rightarrow> TurnCompletion \<Rightarrow> SessionInner \<Rightarrow> SessionInner" where
  "publish turn c i =
     i\<lparr>active := map_option (\<lambda>a. if act_turn a = turn then a\<lparr>act_completion := Some c\<rparr> else a) (active i)\<rparr>"

definition reported_entry ::
  "SessionInner \<Rightarrow> TurnResult \<Rightarrow> bool \<Rightarrow> UnavailableReason option \<Rightarrow> bool \<Rightarrow> CompletionEntry" where
  "reported_entry i result has_source unavailable uncertain =
     \<lparr>seq = 0, ce_loop_id = turn_loop (res_turn result),
      ce_input_id = map_option (\<lambda>a. item_id (act_input a)) (active i),
      completion_kind = Reported, outcome_kind = Some (completion_outcome (res_outcome result)),
      ce_persistence = Some (res_persistence result), persistence_uncertain = uncertain,
      availability =
        (if res_persistence result = Persisted then Stored
         else if has_source then Live else Unavailable),
      unavailable_reason = unavailable, after_saved_loop_id = last_saved i\<rparr>"

text \<open>The result is \<^const>\<open>None\<close> when the catalog panics.\<close>

definition complete_turn ::
  "nat \<Rightarrow> TurnResult \<Rightarrow> 'p ResultSource option \<Rightarrow> UnavailableReason option \<Rightarrow> bool \<Rightarrow> 'p Session
   \<Rightarrow> (bool \<times> 'p ResultSource list \<times> 'p Session) option" where
  "complete_turn retained_size result src unavailable uncertain s =
     (let ok = eligible result;
          continue = ok \<and> \<not> closing (inner s) \<and> head (queue s) \<noteq> None;
          q = completed_queue ok continue (queue s);
          e = reported_entry (inner s) result (src \<noteq> None) unavailable uncertain
      in case insert_completion default_limits retained_size (sess_load s) e src (results s) of
           None \<Rightarrow> None
         | Some (cat, released, _) \<Rightarrow>
             let i = (if res_persistence result = Persisted
                      then (inner s)\<lparr>last_saved := Some (turn_loop (res_turn result))\<rparr> else inner s)
             in Some (continue, released,
                  mark_dirty (s\<lparr>queue := q, results := cat,
                    inner := publish (res_turn result) (Finished result) i\<rparr>)))"

definition publish_internal ::
  "nat \<Rightarrow> TurnRef \<Rightarrow> 'p Session \<Rightarrow> ('p ResultSource list \<times> 'p Session) option" where
  "publish_internal retained_size turn s =
     (let e = \<lparr>seq = 0, ce_loop_id = turn_loop turn,
               ce_input_id = (case active (inner s) of
                  None \<Rightarrow> None
                | Some a \<Rightarrow> if act_turn a = turn then Some (item_id (act_input a)) else None),
               completion_kind = InternalError, outcome_kind = None, ce_persistence = None,
               persistence_uncertain = False, availability = Unavailable,
               unavailable_reason = Some InternalReason,
               after_saved_loop_id = last_saved (inner s)\<rparr>;
          q = end_period ((queue s)\<lparr>paused := paused (queue s) \<or> items (queue s) \<noteq> []\<rparr>)
      in case insert_completion default_limits retained_size (sess_load s) e None (results s) of
           None \<Rightarrow> None
         | Some (cat, released, _) \<Rightarrow>
             Some (released,
               mark_dirty (s\<lparr>queue := q, results := cat,
                 inner := publish turn FinishedInternal ((inner s)\<lparr>blocked := Some BlockedInternal\<rparr>)\<rparr>)))"

definition successor_claim :: "'p Session \<Rightarrow> claim option \<times> 'p Session" where
  "successor_claim s =
     (let (h, q) =
        (if closing (inner s)
         then (None, (queue s)\<lparr>paused := paused (queue s) \<or> items (queue s) \<noteq> []\<rparr>)
         else (case start_head (queue s) of
                 (Inr h, q) \<Rightarrow> (h, q)
               | (Inl _, q) \<Rightarrow> (None, q\<lparr>paused := True\<rparr>)))
      in case h of
           None \<Rightarrow> (None, mark_dirty (s\<lparr>queue := end_period q\<rparr>))
         | Some c \<Rightarrow> (Some c, mark_dirty (s\<lparr>queue := q\<rparr>)))"

definition start_successor ::
  "(AgentError + unit) \<Rightarrow> (AgentError + LoopId) \<Rightarrow> TurnRef \<Rightarrow> 'p Session
   \<Rightarrow> TurnRef option \<times> 'p Session" where
  "start_successor config started turn s =
     (case successor_claim s of
        (None, s') \<Rightarrow> (None, s')
      | (Some c, s') \<Rightarrow>
          (case config of
             Inl _ \<Rightarrow> (None, abandon_claim (fst c) True s')
           | Inr _ \<Rightarrow>
               (case install_loop started (fst c) (snd c) (Some turn) s' of
                  (Inr next, s'') \<Rightarrow> (Some next, s'')
                | (Inl _, s'') \<Rightarrow> (None, abandon_claim (fst c) True s''))))"

definition begin_close :: "'p Session \<Rightarrow> (AgentError + unit) \<times> 'p Session" where
  "begin_close s =
     (if items (queue s) \<noteq> [] \<or> starting (queue s) \<noteq> None then (Inl SessionBusy, s)
      else (Inr (), mark_dirty (s\<lparr>inner := (inner s)\<lparr>closing := True\<rparr>\<rparr>)))"

definition completion_receiver :: "SessionInner \<Rightarrow> TurnRef \<Rightarrow> TurnCompletion option option" where
  "completion_receiver i turn =
     (case active i of
        Some a \<Rightarrow> if act_turn a = turn then Some (act_completion a)
                   else map_option snd (List.find (\<lambda>f. fst f = turn) (finished i))
      | None \<Rightarrow> map_option snd (List.find (\<lambda>f. fst f = turn) (finished i)))"

definition is_turn_pending :: "SessionInner \<Rightarrow> TurnRef \<Rightarrow> bool" where
  "is_turn_pending i turn =
     (case active i of None \<Rightarrow> False | Some a \<Rightarrow> act_turn a = turn \<and> act_completion a = None)"

definition completed_turn :: "SessionInner \<Rightarrow> TurnRef \<Rightarrow> TurnResult option" where
  "completed_turn i turn =
     (case completion_receiver i turn of
        Some (Some (Finished r)) \<Rightarrow> Some r
      | _ \<Rightarrow> None)"

section \<open>Request boundary and delivery\<close>

record BoundaryState =
  b_generation :: "nat option"
  b_next :: nat

definition new_boundary :: BoundaryState where
  "new_boundary = \<lparr>b_generation = None, b_next = 0\<rparr>"

definition boundary_install :: "nat \<Rightarrow> BoundaryState \<Rightarrow> BoundaryState" where
  "boundary_install g b = b\<lparr>b_generation := Some g, b_next := 0\<rparr>"

definition boundary_observed :: "nat \<Rightarrow> nat \<Rightarrow> BoundaryState \<Rightarrow> BoundaryState" where
  "boundary_observed g i b = (if b_generation b \<noteq> Some g then b else b\<lparr>b_next := i\<rparr>)"

definition boundary_issued :: "nat \<Rightarrow> nat \<Rightarrow> BoundaryState \<Rightarrow> BoundaryState option" where
  "boundary_issued g i b =
     (if b_generation b = Some g
      then if i + 1 < 4294967296 then Some (b\<lparr>b_next := i + 1\<rparr>) else None
      else Some b)"

definition boundary_take :: "nat \<Rightarrow> BoundaryState \<Rightarrow> nat option" where
  "boundary_take g b = (if b_generation b = Some g then Some (b_next b) else None)"

record Delivery =
  del_turn :: "TurnRef option"
  early :: "DeliveredInput list"

type_synonym delivered_event = "TurnRef \<times> DeliveredInput list"

definition inputs_bind :: "TurnRef \<Rightarrow> Delivery \<Rightarrow> delivered_event list \<times> Delivery" where
  "inputs_bind turn d =
     (if early d \<noteq> [] then ([(turn, early d)], \<lparr>del_turn = Some turn, early = []\<rparr>)
      else ([], d\<lparr>del_turn := Some turn\<rparr>))"

definition inputs_take ::
  "nat \<Rightarrow> BoundaryState \<Rightarrow> Delivery \<Rightarrow> 'p Session
   \<Rightarrow> (string list \<times> delivered_event list \<times> Delivery \<times> 'p Session) option" where
  "inputs_take g b d s =
     (if binding (queue s) \<noteq> Some g then Some ([], [], d, s)
      else
        let (taken, q) = take_steers (queue s) in
        if taken = [] then Some ([], [], d, s\<lparr>queue := q\<rparr>)
        else
          (case boundary_take g b of
             None \<Rightarrow> None
           | Some i \<Rightarrow>
               let ds = map (entry_delivered i) taken;
                   (events, d') = (case del_turn d of
                      Some turn \<Rightarrow> ([(turn, ds)], d)
                    | None \<Rightarrow> ([], d\<lparr>early := early d @ ds\<rparr>))
               in Some (map entry_input taken, events, d', mark_dirty (s\<lparr>queue := q\<rparr>))))"

section \<open>Run order\<close>

text \<open>
  The abstract queue is the list of inputs in the order they run: steers before follow-ups,
  each kind in acceptance order.
\<close>

definition run_order :: "Entry list \<Rightarrow> Entry list" where
  "run_order es = filter is_steer es @ filter (\<lambda>e. \<not> is_steer e) es"

lemma not_steer_iff [simp]: "m \<noteq> Steer \<longleftrightarrow> m = FollowUp" "m \<noteq> FollowUp \<longleftrightarrow> m = Steer"
  by (cases m; simp)+

lemma view_items_run_order: "view_items (view q) = map entry_item (run_order (items q))"
  by (simp add: view_def run_order_def)

lemma position_Some:
  "position P xs = Some i \<longleftrightarrow> i < length xs \<and> P (xs ! i) \<and> (\<forall>x\<in>set (take i xs). \<not> P x)"
proof (induction xs arbitrary: i)
  case (Cons x xs)
  then show ?case by (cases i) auto
qed simp

lemma position_None [simp]: "position P xs = None \<longleftrightarrow> (\<forall>x\<in>set xs. \<not> P x)"
  by (induction xs) auto

lemma position_SomeE:
  assumes "position P xs = Some i"
  obtains pre x post where "xs = pre @ x # post" and "length pre = i" and "P x" and "\<forall>y\<in>set pre. \<not> P y"
  using assms that[of "take i xs" "xs ! i" "drop (Suc i) xs"]
  by (auto simp: position_Some id_take_nth_drop[symmetric])

lemma split_at_simps [simp]:
  "remove_at (length pre) (pre @ x # post) = pre @ post"
  "insert_at (length pre) x (pre @ post) = pre @ x # post"
  by (simp_all add: remove_at_def insert_at_def)

lemma subseq_remove_at: "subseq (remove_at i xs) xs"
proof (induction xs arbitrary: i)
  case (Cons x xs)
  then show ?case by (cases i) (auto simp: remove_at_def)
qed (simp add: remove_at_def)

lemma head_SomeE:
  assumes "head q = Some h"
  obtains pre e post where "items q = pre @ e # post" and "length pre = h"
    and "\<forall>x\<in>set pre. entry_mode x \<noteq> entry_mode e" and "is_steer e \<or> (\<forall>x\<in>set (items q). \<not> is_steer x)"
proof (cases "position is_steer (items q)")
  case None
  with assms obtain e post where "items q = e # post" "h = 0"
    by (cases "items q") (auto simp: head_def split: if_splits)
  moreover from None have "\<forall>x\<in>set (items q). \<not> is_steer x" by (simp only: position_None)
  ultimately show thesis using that[of "[]" e post] by simp
next
  case (Some i)
  with assms have "h = i" by (simp add: head_def)
  from Some obtain pre e post where "items q = pre @ e # post" "length pre = i" "is_steer e" "\<forall>y\<in>set pre. \<not> is_steer y"
    by (rule position_SomeE)
  with \<open>h = i\<close> that[of pre e post] show thesis by auto
qed

lemma head_None [simp]: "head q = None \<longleftrightarrow> items q = []"
  by (auto simp: head_def split: option.splits)

lemma start_head_SomeE:
  assumes "start_head q = (Inr (Some (e, g)), q')"
  obtains pre post where "items q = pre @ e # post"
    and "q' = q\<lparr>items := pre @ post, running := True, generation := g, binding := Some g, starting := Some e\<rparr>"
    and "g = Suc (generation q)" and "g < u64_bound"
    and "\<forall>x\<in>set pre. entry_mode x \<noteq> entry_mode e" and "is_steer e \<or> (\<forall>x\<in>set (items q). \<not> is_steer x)"
proof -
  from assms obtain h where h: "head q = Some h" by (auto simp: start_head_def split: option.splits)
  then obtain pre x post where "items q = pre @ x # post" "length pre = h"
    "\<forall>y\<in>set pre. entry_mode y \<noteq> entry_mode x" "is_steer x \<or> (\<forall>y\<in>set (items q). \<not> is_steer y)"
    by (rule head_SomeE)
  note x = this
  from x(1,2) have nth: "items q ! h = x" "remove_at h (items q) = pre @ post"
    by (auto simp: nth_append)
  from assms h nth have "e = x" "g = Suc (generation q)" "g < u64_bound"
    "q' = q\<lparr>items := pre @ post, running := True, generation := g, binding := Some g, starting := Some e\<rparr>"
    by (auto simp: start_head_def Let_def split: option.splits)
  with x show thesis by (intro that) simp_all
qed

lemma start_head_other:
  "start_head q = (Inr None, q') \<longleftrightarrow> items q = [] \<and> q' = q"
  "start_head q = (Inl err, q') \<longleftrightarrow> items q \<noteq> [] \<and> u64_bound \<le> Suc (generation q) \<and> err = InternalFailure \<and> q' = q"
  by (cases "head q"; auto simp: start_head_def Let_def split: option.splits simp del: head_None
      simp: head_None[symmetric])+

lemma restore_items:
  obtains pre post where "items q = pre @ post" and "restore e q = q\<lparr>items := pre @ e # post\<rparr>"
    and "\<forall>x\<in>set pre. entry_mode x \<noteq> entry_mode e"
proof (cases "entry_mode e")
  case Steer
  with that[of "[]" "items q"] show thesis by (simp add: restore_def insert_at_def)
next
  case FollowUp
  show thesis
  proof (cases "position (\<lambda>c. entry_mode c = FollowUp) (items q)")
    case None
    with FollowUp that[of "items q" "[]"] show thesis by (simp add: restore_def insert_at_def)
  next
    case (Some i)
    then obtain pre x post where "items q = pre @ x # post" "length pre = i"
      "\<forall>y\<in>set pre. entry_mode y \<noteq> FollowUp"
      by (rule position_SomeE)
    with FollowUp Some that[of pre "x # post"] show thesis
      by (auto simp: restore_def Let_def insert_at_def)
  qed
qed

lemma filter_mode_insert:
  "\<forall>x\<in>set pre. entry_mode x \<noteq> entry_mode e \<Longrightarrow>
   filter (\<lambda>x. entry_mode x = m) (pre @ e # post) = filter (\<lambda>x. entry_mode x = m) (e # pre @ post)"
  by (auto simp: filter_empty_conv)

lemma run_order_mode:
  "run_order es = filter (\<lambda>x. entry_mode x = Steer) es @ filter (\<lambda>x. entry_mode x = FollowUp) es"
  by (simp add: run_order_def)

lemma run_order_insert:
  "\<forall>x\<in>set pre. entry_mode x \<noteq> entry_mode e \<Longrightarrow> run_order (pre @ e # post) = run_order (e # pre @ post)"
  using filter_mode_insert[of pre e Steer post] filter_mode_insert[of pre e FollowUp post]
  unfolding run_order_mode by simp

section \<open>Steps\<close>

text \<open>
  Besides the Session, the state has the claims in flight (a claimed entry that has not yet
  been installed or given back), the worker of the running turn, and three histories that the
  properties speak about: the inputs accepted, handed to a loop, and returned to the client.
\<close>

datatype worker = Turning nat | Tail nat

fun worker_gen :: "worker \<Rightarrow> nat" where
  "worker_gen (Turning g) = g"
| "worker_gen (Tail g) = g"

record 'p QSys =
  sess :: "'p Session"
  claims :: "claim list"
  workers :: "worker list"
  accepted :: "Entry list"
  handed :: "Entry list"
  returned :: "Entry list"

fun option_list :: "'a option \<Rightarrow> 'a list" where
  "option_list None = []"
| "option_list (Some x) = [x]"

abbreviation squeue :: "'p QSys \<Rightarrow> QueueState" where
  "squeue y \<equiv> queue (sess y)"

inductive qstep :: "(string \<Rightarrow> string option) \<Rightarrow> 'p QSys \<Rightarrow> 'p QSys \<Rightarrow> bool"
  for user_text :: "string \<Rightarrow> string option" where
  q_accept:
    "accept_input user_text now mode txt (sess y) = (Inr p, s') \<Longrightarrow> user_text txt = Some inp \<Longrightarrow>
     qstep user_text y (y\<lparr>sess := s', claims := claims y @ option_list (push_claim p),
       accepted := accepted y @ [\<lparr>entry_id = push_id p, entry_mode = mode, entry_input = inp,
                                  entry_accepted_at = now\<rparr>]\<rparr>)"
| q_accept_error:
    "accept_input user_text now mode txt (sess y) = (Inl err, s') \<Longrightarrow> qstep user_text y (y\<lparr>sess := s'\<rparr>)"
| q_remove:
    "remove_input i (sess y) = (Inr txt, s') \<Longrightarrow>
     position (\<lambda>e. entry_id e = i) (items (squeue y)) = Some at \<Longrightarrow>
     qstep user_text y (y\<lparr>sess := s', returned := returned y @ [items (squeue y) ! at]\<rparr>)"
| q_recall:
    "recall_inputs (sess y) = (texts, s') \<Longrightarrow>
     qstep user_text y (y\<lparr>sess := s', returned := returned y @ items (squeue y)\<rparr>)"
| q_resume:
    "accept_resume (sess y) = (Inr c, s') \<Longrightarrow>
     qstep user_text y (y\<lparr>sess := s', claims := claims y @ option_list c\<rparr>)"
| q_resume_error:
    "accept_resume (sess y) = (Inl err, s') \<Longrightarrow> qstep user_text y (y\<lparr>sess := s'\<rparr>)"
| q_compacted:
    "claim_after_compaction (sess y) = (c, s') \<Longrightarrow>
     qstep user_text y (y\<lparr>sess := s', claims := claims y @ option_list c\<rparr>)"
| q_install:
    "(e, g) \<in> set (claims y) \<Longrightarrow> install_loop started e g successor (sess y) = (Inr turn, s') \<Longrightarrow>
     qstep user_text y (y\<lparr>sess := s', claims := remove1 (e, g) (claims y),
       workers := workers y @ [Turning g], handed := handed y @ [e]\<rparr>)"
| q_abandon:
    "(e, g) \<in> set (claims y) \<Longrightarrow>
     qstep user_text y (y\<lparr>sess := abandon_claim e pause (sess y), claims := remove1 (e, g) (claims y)\<rparr>)"
| q_complete:
    "Turning g \<in> set (workers y) \<Longrightarrow>
     complete_turn n result src unavailable uncertain (sess y) = Some (continue, released, s') \<Longrightarrow>
     qstep user_text y (y\<lparr>sess := s',
       workers := remove1 (Turning g) (workers y) @ (if continue then [Tail g] else [])\<rparr>)"
| q_internal:
    "Turning g \<in> set (workers y) \<Longrightarrow> publish_internal n turn (sess y) = Some (released, s') \<Longrightarrow>
     qstep user_text y (y\<lparr>sess := s', workers := remove1 (Turning g) (workers y)\<rparr>)"
| q_successor:
    "Tail g \<in> set (workers y) \<Longrightarrow> successor_claim (sess y) = (c, s') \<Longrightarrow>
     qstep user_text y (y\<lparr>sess := s', workers := remove1 (Tail g) (workers y),
       claims := claims y @ option_list c\<rparr>)"
| q_take:
    "g \<notin> snd ` set (claims y) \<Longrightarrow> inputs_take g b d (sess y) = Some (texts, events, d', s') \<Longrightarrow>
     qstep user_text y (y\<lparr>sess := s', handed := handed y @
       (if binding (squeue y) = Some g then filter is_steer (items (squeue y)) else [])\<rparr>)"
| q_other:
    "qstep user_text y (y\<lparr>sess := (sess y)\<lparr>inner := i, results := cat, dirty := b\<rparr>\<rparr>)"

definition qinit :: "'p QSys \<Rightarrow> bool" where
  "qinit y = (squeue y = new_queue \<and> claims y = [] \<and> workers y = []
     \<and> accepted y = [] \<and> handed y = [] \<and> returned y = [])"

section \<open>Invariant\<close>

definition period_ok :: "'p QSys \<Rightarrow> bool" where
  "period_ok y =
     (length (claims y) + length (workers y) = (if running (squeue y) then 1 else 0)
      \<and> binding (squeue y) = (if running (squeue y) then Some (generation (squeue y)) else None)
      \<and> starting (squeue y) = map_option fst (if claims y = [] then None else Some (hd (claims y)))
      \<and> (\<forall>c\<in>set (claims y). snd c = generation (squeue y))
      \<and> (\<forall>w\<in>set (workers y). worker_gen w = generation (squeue y)))"

definition size_ok :: "'p QSys \<Rightarrow> bool" where
  "size_ok y =
     (length (items (squeue y)) + length (claims y) \<le> MAX_QUEUED_INPUTS + 1
      \<and> generation (squeue y) < u64_bound \<and> next_id (squeue y) < u64_bound)"

abbreviation pending :: "'p QSys \<Rightarrow> Entry list" where
  "pending y \<equiv> map fst (claims y) @ items (squeue y)"

definition ids_ok :: "'p QSys \<Rightarrow> bool" where
  "ids_ok y = (map entry_id (accepted y) = map input_id [1..<Suc (next_id (squeue y))])"

definition conserved :: "'p QSys \<Rightarrow> bool" where
  "conserved y = (mset (accepted y) = mset (pending y) + mset (handed y) + mset (returned y))"

definition fifo :: "'p QSys \<Rightarrow> bool" where
  "fifo y = (\<forall>m. subseq (filter (\<lambda>e. entry_mode e = m) (handed y @ pending y))
                         (filter (\<lambda>e. entry_mode e = m) (accepted y)))"

definition queue_ok :: "'p QSys \<Rightarrow> bool" where
  "queue_ok y = (period_ok y \<and> size_ok y \<and> ids_ok y \<and> conserved y \<and> fifo y)"

lemmas queue_ok_defs =
  queue_ok_def period_ok_def size_ok_def ids_ok_def conserved_def fifo_def

lemma queue_ok_cong:
  assumes "items (squeue y') = items (squeue y)" "starting (squeue y') = starting (squeue y)"
    "running (squeue y') = running (squeue y)" "binding (squeue y') = binding (squeue y)"
    "generation (squeue y') = generation (squeue y)" "next_id (squeue y') = next_id (squeue y)"
    "claims y' = claims y" "workers y' = workers y" "accepted y' = accepted y"
    "handed y' = handed y" "returned y' = returned y"
  shows "queue_ok y' = queue_ok y"
  by (simp add: queue_ok_defs assms)

lemma fifo_transfer:
  assumes "\<And>m. filter (\<lambda>e. entry_mode e = m) (handed y' @ pending y')
                = filter (\<lambda>e. entry_mode e = m) (handed y @ pending y)"
    and "accepted y' = accepted y" and "fifo y"
  shows "fifo y'"
  using assms(3) by (simp only: fifo_def assms(1,2) simp_thms)

lemma start_head_ok:
  assumes ok: "queue_ok y" and free: "claims y = []" and st: "start_head (squeue y) = (Inr (Some (e, g)), q')"
    and y': "squeue y' = q'" "claims y' = [(e, g)]" "workers y' = []" "accepted y' = accepted y"
      "handed y' = handed y" "returned y' = returned y"
  shows "queue_ok y'"
  using st
proof (rule start_head_SomeE)
  fix pre post
  assume it: "items (squeue y) = pre @ e # post"
    and q': "q' = (squeue y)\<lparr>items := pre @ post, running := True, generation := g,
              binding := Some g, starting := Some e\<rparr>"
    and g: "g = Suc (generation (squeue y))" "g < u64_bound"
    and pre: "\<forall>x\<in>set pre. entry_mode x \<noteq> entry_mode e"
  from ok have len: "length (items (squeue y)) \<le> MAX_QUEUED_INPUTS + 1" by (simp add: queue_ok_defs)
  have p: "pending y = pre @ e # post" "pending y' = e # pre @ post"
    using free it y' q' by simp_all
  have "filter (\<lambda>x. entry_mode x = m) (handed y' @ pending y')
      = filter (\<lambda>x. entry_mode x = m) (handed y @ pending y)" for m
    unfolding p y'(5) filter_append[of _ "handed y"] filter_mode_insert[OF pre] ..
  with ok have "fifo y'" by (intro fifo_transfer[of y' y]) (simp_all add: queue_ok_def y'(4))
  then show ?thesis
    using ok free it y' q' g len by (simp add: queue_ok_defs)
qed

lemma claim_start_ok:
  assumes ok: "queue_ok y" and c: "claim_start i (squeue y) = (Inr c, q')"
    and y': "squeue y' = q'" "claims y' = claims y @ option_list c" "workers y' = workers y"
      "accepted y' = accepted y" "handed y' = handed y" "returned y' = returned y"
  shows "queue_ok y'"
proof (cases c)
  case None
  with c have "q' = squeue y"
    by (auto simp: claim_start_def start_head_other split: if_splits)
  with ok y' None show ?thesis by (simp add: queue_ok_cong[of y' y])
next
  case (Some cl)
  obtain e g where "cl = (e, g)" by (cases cl)
  with Some c have st: "start_head (squeue y) = (Inr (Some (e, g)), q')" and "\<not> running (squeue y)"
    by (auto simp: claim_start_def split: if_splits)
  with ok have "claims y = []" "workers y = []" by (simp_all add: queue_ok_defs)
  with start_head_ok[OF ok _ st] y' Some \<open>cl = (e, g)\<close> show ?thesis by simp
qed

lemma claim_start_error: "claim_start i q = (Inl err, q') \<Longrightarrow> q' = q \<and> u64_bound \<le> Suc (generation q) \<and> items q \<noteq> [] \<and> can_start i \<and> \<not> running q \<and> \<not> paused q"
  by (auto simp: claim_start_def start_head_other split: if_splits)

lemma end_period_ok:
  assumes ok: "queue_ok y" and "workers y = [w]"
    and y': "items (squeue y') = items (squeue y)" "starting (squeue y') = None" "running (squeue y') = False"
      "binding (squeue y') = None" "generation (squeue y') = generation (squeue y)"
      "next_id (squeue y') = next_id (squeue y)" "claims y' = claims y" "workers y' = []"
      "accepted y' = accepted y" "handed y' = handed y" "returned y' = returned y"
  shows "queue_ok y'"
  using assms by (simp add: queue_ok_defs split: if_splits)

lemma single_worker:
  assumes "queue_ok y" and "w \<in> set (workers y)"
  shows "workers y = [w] \<and> claims y = [] \<and> running (squeue y)"
  using assms by (cases "workers y") (auto simp: queue_ok_defs split: if_splits)

lemma single_claim:
  assumes "queue_ok y" and "c \<in> set (claims y)"
  shows "claims y = [c] \<and> workers y = [] \<and> running (squeue y) \<and> snd c = generation (squeue y)"
  using assms by (cases "claims y") (auto simp: queue_ok_defs split: if_splits)

lemma subseq_pending:
  assumes "subseq its' its" and "subseq (filter P (h @ cs @ its)) zs"
  shows "subseq (filter P (h @ cs @ its')) zs"
proof -
  have "subseq (filter P its') (filter P its)" using assms(1) by (rule subseq_filter)
  then have "subseq (filter P (h @ cs @ its')) (filter P (h @ cs @ its))"
    by (simp add: list_emb_append_mono)
  with assms(2) show ?thesis by (rule subseq_order.trans[rotated])
qed

lemma accepted_ok:
  assumes ok: "queue_ok y" and room: "length (items (squeue y)) < MAX_QUEUED_INPUTS"
    and n: "Suc (next_id (squeue y)) < u64_bound" and e: "entry_id e = input_id (Suc (next_id (squeue y)))"
    and y': "squeue y' = (squeue y)\<lparr>next_id := Suc (next_id (squeue y)), items := items (squeue y) @ [e], paused := b\<rparr>"
      "claims y' = claims y" "workers y' = workers y" "accepted y' = accepted y @ [e]"
      "handed y' = handed y" "returned y' = returned y"
  shows "queue_ok y'"
proof -
  have "fifo y'"
    unfolding fifo_def
  proof
    fix m
    from ok have "subseq (filter (\<lambda>e. entry_mode e = m) (handed y @ pending y)) (filter (\<lambda>e. entry_mode e = m) (accepted y))"
      by (simp add: queue_ok_defs)
    then have "subseq (filter (\<lambda>e. entry_mode e = m) (handed y @ pending y) @ filter (\<lambda>e. entry_mode e = m) [e])
        (filter (\<lambda>e. entry_mode e = m) (accepted y) @ filter (\<lambda>e. entry_mode e = m) [e])"
      by (intro list_emb_append_mono) auto
    then show "subseq (filter (\<lambda>e. entry_mode e = m) (handed y' @ pending y')) (filter (\<lambda>e. entry_mode e = m) (accepted y'))"
      by (simp add: y' split: if_splits)
  qed
  moreover have "length (claims y) \<le> 1" using ok by (auto simp: queue_ok_defs split: if_splits)
  ultimately show ?thesis
    using ok room n e y' by (simp add: queue_ok_defs)
qed

lemma accept_input_ok:
  assumes ok: "queue_ok y" and a: "accept_input user_text now mode txt (sess y) = (Inr p, s')"
    and "user_text txt = Some inp"
  shows "queue_ok (y\<lparr>sess := s', claims := claims y @ option_list (push_claim p),
       accepted := accepted y @ [\<lparr>entry_id = push_id p, entry_mode = mode, entry_input = inp,
                                  entry_accepted_at = now\<rparr>]\<rparr>)"
proof -
  let ?n = "Suc (next_id (squeue y))"
  let ?e = "\<lparr>entry_id = input_id ?n, entry_mode = mode, entry_input = inp, entry_accepted_at = now\<rparr>"
  let ?q = "(squeue y)\<lparr>next_id := ?n, items := items (squeue y) @ [?e], paused := False\<rparr>"
  let ?y = "y\<lparr>sess := (sess y)\<lparr>queue := ?q\<rparr>, accepted := accepted y @ [?e]\<rparr>"
  from a assms(3) have g: "length (items (squeue y)) < MAX_QUEUED_INPUTS" "?n < u64_bound"
    by (auto simp: accept_input_def Let_def split: if_splits option.splits prod.splits sum.splits)
  with a assms(3) obtain q' c where c: "claim_start (inner (sess y)) ?q = (Inr c, q')"
    and p: "p = \<lparr>push_id = input_id ?n, push_accepted_at = now, push_claim = c\<rparr>"
    and s': "s' = mark_dirty ((sess y)\<lparr>queue := q'\<rparr>)"
    by (auto simp: accept_input_def Let_def checked_add_def split: if_splits prod.splits sum.splits)
  have "queue_ok ?y" by (rule accepted_ok[OF ok g, of ?e]) simp_all
  then show ?thesis
    by (rule claim_start_ok[where i = "inner (sess y)" and c = c and q' = q'])
      (simp_all add: p s' c mark_dirty_def)
qed

lemma accept_input_error:
  assumes gen: "generation (queue s) < u64_bound"
    and a: "accept_input user_text now mode txt s = (Inl err, s')"
  shows "s' = s"
proof (rule ccontr)
  assume "s' \<noteq> s"
  with a obtain inp n q' where
      c: "claim_start (inner s) ((queue s)\<lparr>next_id := n, items := items (queue s) @
            [\<lparr>entry_id = input_id n, entry_mode = mode, entry_input = inp, entry_accepted_at = now\<rparr>],
            paused := False\<rparr>) = (Inl err, q')"
    and g: "\<not> (\<not> running (queue s) \<and> can_start (inner s) \<and> generation (queue s) = u64_bound - 1)"
    by (auto simp: accept_input_def Let_def split: if_splits option.splits prod.splits sum.splits)
  from claim_start_error[OF c] g gen show False by auto
qed

lemma accept_resume_error:
  assumes gen: "generation (queue s) < u64_bound" and a: "accept_resume s = (Inl err, s')"
  shows "s' = s"
proof (rule ccontr)
  assume "s' \<noteq> s"
  with a obtain q' where c: "claim_start (inner s) ((queue s)\<lparr>paused := False\<rparr>) = (Inl err, q')"
    and g: "\<not> (\<not> running (queue s) \<and> items (queue s) \<noteq> [] \<and> can_start (inner s)
              \<and> generation (queue s) = u64_bound - 1)"
    by (auto simp: accept_resume_def Let_def split: if_splits prod.splits sum.splits)
  from claim_start_error[OF c] g gen show False by auto
qed

lemma accept_resume_ok:
  assumes ok: "queue_ok y" and a: "accept_resume (sess y) = (Inr c, s')"
  shows "queue_ok (y\<lparr>sess := s', claims := claims y @ option_list c\<rparr>)"
proof -
  let ?y = "y\<lparr>sess := (sess y)\<lparr>queue := (squeue y)\<lparr>paused := False\<rparr>\<rparr>\<rparr>"
  have y: "queue_ok ?y" using ok queue_ok_cong[of ?y y] by simp
  from a obtain q' where c: "claim_start (inner (sess y)) (squeue ?y) = (Inr c, q')" "queue s' = q'"
    by (auto simp: accept_resume_def Let_def mark_dirty_def split: if_splits prod.splits sum.splits)
  show ?thesis by (rule claim_start_ok[OF y c(1)]) (simp_all add: c(2))
qed

lemma claim_after_compaction_ok:
  assumes ok: "queue_ok y" and a: "claim_after_compaction (sess y) = (c, s')"
  shows "queue_ok (y\<lparr>sess := s', claims := claims y @ option_list c\<rparr>)"
proof (cases "claim_start (inner (sess y)) (squeue y)")
  case (Pair r q')
  show ?thesis
  proof (cases r)
    case (Inl err)
    with Pair have "q' = squeue y" using claim_start_error by metis
    with Inl Pair a have "c = None" "queue s' = (squeue y)\<lparr>paused := True\<rparr>"
      by (auto simp: claim_after_compaction_def mark_dirty_def)
    with ok queue_ok_cong[of "y\<lparr>sess := s', claims := claims y @ option_list c\<rparr>" y]
    show ?thesis by simp
  next
    case (Inr c')
    have "c' = c \<and> queue s' = q'"
      using a[unfolded claim_after_compaction_def Pair Inr] by (cases c') (auto simp: mark_dirty_def)
    with Pair Inr have "claim_start (inner (sess y)) (squeue y) = (Inr c, queue s')" by simp
    then show ?thesis by (rule claim_start_ok[OF ok]) simp_all
  qed
qed

lemma dropped_ok:
  assumes ok: "queue_ok y" and sub: "subseq its (items (squeue y))"
    and ms: "mset (items (squeue y)) = mset its + mset gone"
    and y': "squeue y' = (squeue y)\<lparr>items := its, paused := b\<rparr>" "claims y' = claims y"
      "workers y' = workers y" "accepted y' = accepted y" "handed y' = handed y"
      "returned y' = returned y @ gone"
  shows "queue_ok y'"
proof -
  from ok have "fifo y'"
    by (auto simp: queue_ok_def fifo_def y' simp del: filter_append intro: subseq_pending[OF sub])
  moreover have "length its \<le> length (items (squeue y))"
    using sub by (rule list_emb_length)
  ultimately show ?thesis using ok ms y' by (simp add: queue_ok_defs)
qed

lemma remove_input_ok:
  assumes ok: "queue_ok y" and r: "remove_input i (sess y) = (Inr txt, s')"
    and at: "position (\<lambda>e. entry_id e = i) (items (squeue y)) = Some at"
  shows "queue_ok (y\<lparr>sess := s', returned := returned y @ [items (squeue y) ! at]\<rparr>)"
proof -
  from at obtain pre e post where it: "items (squeue y) = pre @ e # post" "length pre = at"
    by (rule position_SomeE)
  then have "remove_at at (items (squeue y)) = pre @ post" "items (squeue y) ! at = e"
    by (auto simp: nth_append)
  with r at have "queue s' = (squeue y)\<lparr>items := pre @ post, paused := paused (squeue y) \<and> pre @ post \<noteq> []\<rparr>"
    by (auto simp: remove_input_def Let_def mark_dirty_def)
  moreover have "subseq (pre @ post) (items (squeue y))"
    using subseq_remove_at[of at "items (squeue y)"] it by auto
  ultimately show ?thesis using \<open>items (squeue y) ! at = e\<close> it
    by (intro dropped_ok[OF ok, where its = "pre @ post" and gone = "[e]"]) auto
qed

lemma recall_ok:
  assumes ok: "queue_ok y" and r: "recall_inputs (sess y) = (texts, s')"
  shows "queue_ok (y\<lparr>sess := s', returned := returned y @ items (squeue y)\<rparr>)"
  using r by (intro dropped_ok[OF ok, where its = "[]" and gone = "items (squeue y)"])
    (auto simp: recall_inputs_def mark_dirty_def)

lemma install_ok:
  assumes ok: "queue_ok y" and c: "(e, g) \<in> set (claims y)"
    and r: "install_loop started e g successor (sess y) = (Inr turn, s')"
  shows "queue_ok (y\<lparr>sess := s', claims := remove1 (e, g) (claims y),
       workers := workers y @ [Turning g], handed := handed y @ [e]\<rparr>)"
proof -
  from r have q: "queue s' = (squeue y)\<lparr>starting := None\<rparr>"
    by (auto simp: install_loop_def Let_def mark_dirty_def split: sum.splits)
  from single_claim[OF ok c] have "claims y = [(e, g)]" "workers y = []" "running (squeue y)" "g = generation (squeue y)"
    by auto
  with ok q show ?thesis by (simp add: queue_ok_defs)
qed

lemma restored_ok:
  assumes ok: "queue_ok y" and c: "claims y = [(e, g)]"
    and y': "squeue y' = (end_period (restore e (squeue y)))\<lparr>paused := b\<rparr>" "claims y' = []" "workers y' = []"
      "accepted y' = accepted y" "handed y' = handed y" "returned y' = returned y"
  shows "queue_ok y'"
proof (rule restore_items[of "squeue y" e])
  fix pre post
  assume it: "items (squeue y) = pre @ post" and q: "restore e (squeue y) = (squeue y)\<lparr>items := pre @ e # post\<rparr>"
    and pre: "\<forall>x\<in>set pre. entry_mode x \<noteq> entry_mode e"
  have q': "squeue y' = (squeue y)\<lparr>items := pre @ e # post, running := False, binding := None,
        starting := None, paused := b\<rparr>"
    using y'(1) by (simp add: q end_period_def)
  have p: "pending y = e # pre @ post" "pending y' = pre @ e # post"
    using c it y'(2) q' by simp_all
  have "filter (\<lambda>x. entry_mode x = m) (handed y' @ pending y')
      = filter (\<lambda>x. entry_mode x = m) (handed y @ pending y)" for m
    unfolding p y'(5) filter_append[of _ "handed y"] filter_mode_insert[OF pre] ..
  with ok have "fifo y'" by (intro fifo_transfer[of y' y]) (simp_all add: queue_ok_def y'(4))
  then show ?thesis
    using ok c it y'(2-) q' by (simp add: queue_ok_defs)
qed

lemma abandon_ok:
  assumes ok: "queue_ok y" and c: "(e, g) \<in> set (claims y)"
  shows "queue_ok (y\<lparr>sess := abandon_claim e pause (sess y), claims := remove1 (e, g) (claims y)\<rparr>)"
proof -
  from single_claim[OF ok c] have "claims y = [(e, g)]" "workers y = []" by auto
  then show ?thesis
    by (intro restored_ok[OF ok, of e g])
      (simp_all add: abandon_claim_def Let_def mark_dirty_def)
qed

lemma complete_turn_queue:
  "complete_turn n result src unavailable uncertain s = Some (continue, released, s') \<Longrightarrow>
   continue = (eligible result \<and> \<not> closing (inner s) \<and> items (queue s) \<noteq> [])
   \<and> queue s' = completed_queue (eligible result) continue (queue s)"
  by (auto simp: complete_turn_def Let_def mark_dirty_def split: option.splits)

lemma complete_turn_ok:
  assumes ok: "queue_ok y" and w: "Turning g \<in> set (workers y)"
    and r: "complete_turn n result src unavailable uncertain (sess y) = Some (continue, released, s')"
  shows "queue_ok (y\<lparr>sess := s',
       workers := remove1 (Turning g) (workers y) @ (if continue then [Tail g] else [])\<rparr>)"
proof -
  from single_worker[OF ok w] have w1: "workers y = [Turning g]" by blast
  from complete_turn_queue[OF r] have q: "queue s' = completed_queue (eligible result) continue (squeue y)" by blast
  show ?thesis
  proof (cases continue)
    case True
    with q have "queue s' = squeue y" by (simp add: completed_queue_def)
    with ok w1 True show ?thesis by (simp add: queue_ok_defs)
  next
    case False
    with q w1 show ?thesis
      by (intro end_period_ok[OF ok w1]) (simp_all add: completed_queue_def end_period_def)
  qed
qed

lemma publish_internal_ok:
  assumes ok: "queue_ok y" and w: "Turning g \<in> set (workers y)"
    and r: "publish_internal n turn (sess y) = Some (released, s')"
  shows "queue_ok (y\<lparr>sess := s', workers := remove1 (Turning g) (workers y)\<rparr>)"
proof -
  from single_worker[OF ok w] have w1: "workers y = [Turning g]" by blast
  from r have "queue s' = end_period ((squeue y)\<lparr>paused := paused (squeue y) \<or> items (squeue y) \<noteq> []\<rparr>)"
    by (auto simp: publish_internal_def Let_def mark_dirty_def split: option.splits)
  with w1 show ?thesis by (intro end_period_ok[OF ok w1]) (simp_all add: end_period_def)
qed

lemma successor_ok:
  assumes ok: "queue_ok y" and w: "Tail g \<in> set (workers y)" and r: "successor_claim (sess y) = (c, s')"
  shows "queue_ok (y\<lparr>sess := s', workers := remove1 (Tail g) (workers y), claims := claims y @ option_list c\<rparr>)"
proof (cases c)
  case None
  from single_worker[OF ok w] have w1: "workers y = [Tail g]" by blast
  have "\<exists>b. queue s' = end_period ((squeue y)\<lparr>paused := b\<rparr>)"
  proof (cases "closing (inner (sess y))")
    case True
    with r show ?thesis by (auto simp: successor_claim_def mark_dirty_def)
  next
    case F: False
    show ?thesis
    proof (cases "start_head (squeue y)")
      case (Pair res q')
      show ?thesis
      proof (cases res)
        case (Inl err)
        with Pair have "q' = squeue y" by (simp add: start_head_other)
        with Inl Pair F r show ?thesis by (auto simp: successor_claim_def mark_dirty_def)
      next
        case (Inr h)
        with Pair F r None have "h = None" by (auto simp: successor_claim_def split: option.splits)
        with Inr Pair have "q' = squeue y" by (simp add: start_head_other)
        with Inr Pair F r None \<open>h = None\<close> show ?thesis
          by (auto simp: successor_claim_def mark_dirty_def end_period_def
              intro!: exI[of _ "paused (squeue y)"])
      qed
    qed
  qed
  with w1 None show ?thesis
    by (intro end_period_ok[OF ok w1]) (auto simp: end_period_def)
next
  case (Some cl)
  obtain e g' where cl: "cl = (e, g')" by (cases cl)
  from single_worker[OF ok w] have "workers y = [Tail g]" "claims y = []" by auto
  moreover from r Some cl have st: "start_head (squeue y) = (Inr (Some (e, g')), queue s')"
    by (auto simp: successor_claim_def mark_dirty_def split: if_splits prod.splits sum.splits option.splits)
  ultimately show ?thesis
    by (intro start_head_ok[OF ok _ st]) (simp_all add: Some cl)
qed

lemma inputs_take_queue:
  assumes "inputs_take g b d s = Some (texts, events, d', s')"
  shows "queue s' = (if binding (queue s) = Some g
      then (queue s)\<lparr>items := filter (\<lambda>e. \<not> is_steer e) (items (queue s))\<rparr> else queue s)
    \<and> texts = (if binding (queue s) = Some g then map entry_input (filter is_steer (items (queue s))) else [])"
  using assms
  by (auto simp: inputs_take_def take_steers_def Let_def partition_filter_conv mark_dirty_def comp_def
      split: if_splits option.splits prod.splits)

lemma taken_ok:
  assumes ok: "queue_ok y" and cl: "claims y = []"
    and y': "squeue y' = (squeue y)\<lparr>items := filter (\<lambda>e. \<not> is_steer e) (items (squeue y))\<rparr>"
      "claims y' = []" "workers y' = workers y" "accepted y' = accepted y"
      "handed y' = handed y @ filter is_steer (items (squeue y))" "returned y' = returned y"
  shows "queue_ok y'"
proof -
  have "filter (\<lambda>x. entry_mode x = m) (handed y' @ pending y')
      = filter (\<lambda>x. entry_mode x = m) (handed y @ pending y)" for m
    by (cases m) (simp_all add: y' cl conj_commute cong: conj_cong)
  with ok have "fifo y'" by (intro fifo_transfer[of y' y]) (simp_all add: queue_ok_def y'(4))
  moreover have "mset (items (squeue y)) = mset (filter is_steer (items (squeue y))) +
      mset (filter (\<lambda>e. \<not> is_steer e) (items (squeue y)))"
    by (simp only: mset_filter multiset_partition[symmetric])
  moreover have "length (filter (\<lambda>e. \<not> is_steer e) (items (squeue y))) \<le> MAX_QUEUED_INPUTS + 1"
    using ok cl by (intro le_trans[OF length_filter_le]) (simp add: queue_ok_defs)
  ultimately show ?thesis
    using ok cl y' by (simp add: queue_ok_defs)
qed

lemma take_ok:
  assumes ok: "queue_ok y" and g: "g \<notin> snd ` set (claims y)"
    and t: "inputs_take g b d (sess y) = Some (texts, events, d', s')"
  shows "queue_ok (y\<lparr>sess := s', handed := handed y @
       (if binding (squeue y) = Some g then filter is_steer (items (squeue y)) else [])\<rparr>)"
proof (cases "binding (squeue y) = Some g")
  case True
  with ok have "g = generation (squeue y)" by (simp add: queue_ok_defs split: if_splits)
  with ok g have cl: "claims y = []" by (cases "claims y") (auto simp: queue_ok_defs)
  from True inputs_take_queue[OF t] have "queue s' = (squeue y)\<lparr>items := filter (\<lambda>e. \<not> is_steer e) (items (squeue y))\<rparr>"
    by (simp only: if_True simp_thms)
  with True cl show ?thesis by (intro taken_ok[OF ok cl]) simp_all
next
  case False
  with inputs_take_queue[OF t] have "queue s' = squeue y" by (simp only: if_False simp_thms)
  with False ok queue_ok_cong[of "y\<lparr>sess := s', handed := handed y\<rparr>" y] show ?thesis by simp
qed

lemma unchanged_ok: "queue_ok y \<Longrightarrow> queue s' = squeue y \<Longrightarrow> queue_ok (y\<lparr>sess := s'\<rparr>)"
  using queue_ok_cong[of "y\<lparr>sess := s'\<rparr>" y] by simp

lemma qstep_ok:
  assumes "queue_ok y" and "qstep user_text y z"
  shows "queue_ok z"
  using assms(2)
proof cases
  case (q_accept_error now mode tx err s')
  with accept_input_error[OF _ q_accept_error(2)] assms(1) show ?thesis
    by (simp add: queue_ok_defs)
next
  case (q_resume_error err s')
  with accept_resume_error[OF _ q_resume_error(2)] assms(1) show ?thesis
    by (simp add: queue_ok_defs)
next
  case (q_other i cat b)
  with assms(1) unchanged_ok show ?thesis by fastforce
qed (insert assms(1), blast intro: accept_input_ok remove_input_ok recall_ok accept_resume_ok
      claim_after_compaction_ok install_ok abandon_ok complete_turn_ok publish_internal_ok
      successor_ok take_ok)+

lemma qinit_ok: "qinit y \<Longrightarrow> queue_ok y"
  by (simp add: qinit_def queue_ok_defs new_queue_def MAX_QUEUED_INPUTS_def u64_bound_def)

interpretation queue_sys: invariant_system qinit "qstep user_text" queue_ok
  for user_text
  by unfold_locales (auto intro: qinit_ok qstep_ok)

section \<open>Identifiers\<close>

definition hex_digit :: "char \<Rightarrow> nat" where
  "hex_digit c = (if is_digit c then of_char c - 48 else of_char c - 87)"

definition hex_num :: "string \<Rightarrow> nat" where
  "hex_num s = foldl (\<lambda>n c. 16 * n + hex_digit c) 0 s"

lemma hex_digit_char [simp]: "d < 16 \<Longrightarrow> hex_digit (hex_char d) = d"
  by (auto simp: hex_digit_def hex_char_def is_digit_def byte_in_def)

lemma hex_num_snoc [simp]: "hex_num (s @ [c]) = 16 * hex_num s + hex_digit c"
  by (simp add: hex_num_def)

lemma hex_num_show [simp]: "hex_num (show_hex n) = n"
proof (induction n rule: show_hex.induct)
  case (1 n)
  then show ?case
    by (cases "n < 16") (simp_all add: show_hex.simps[of n] hex_num_def[of "[_]"])
qed

lemma hex_num_zeros: "hex_num (replicate k CHR ''0'' @ s) = hex_num s"
proof -
  have "hex_digit CHR ''0'' = 0" by (simp add: hex_digit_def is_digit_def byte_in_def)
  then show ?thesis by (induction k) (auto simp: hex_num_def)
qed

lemma input_id_inj: "input_id m = input_id n \<longleftrightarrow> m = n"
proof
  assume "input_id m = input_id n"
  then have "hex_num (pad_left 32 (show_hex m)) = hex_num (pad_left 32 (show_hex n))"
    by (simp add: input_id_def)
  then show "m = n" by (simp add: pad_left_def hex_num_zeros)
qed simp

section \<open>The run queue as an interface\<close>

text \<open>
  What a client of the queue may rely on: \<open>pop\<close> yields the inputs in run order, \<open>push\<close> puts an
  input behind those of its kind, \<open>unpop\<close> in front of those of its kind.
\<close>

fun drain :: "('q \<Rightarrow> ('e \<times> 'q) option) \<Rightarrow> nat \<Rightarrow> 'q \<Rightarrow> 'e list" where
  "drain pop 0 q = []"
| "drain pop (Suc n) q = (case pop q of None \<Rightarrow> [] | Some (e, q') \<Rightarrow> e # drain pop n q')"

locale run_queue =
  fixes order :: "'q \<Rightarrow> 'e list"
    and urgent :: "'e \<Rightarrow> bool"
    and pop :: "'q \<Rightarrow> ('e \<times> 'q) option"
    and push :: "'e \<Rightarrow> 'q \<Rightarrow> 'q"
    and unpop :: "'e \<Rightarrow> 'q \<Rightarrow> 'q"
  assumes order_kinds: "order q = filter urgent (order q) @ filter (\<lambda>e. \<not> urgent e) (order q)"
    and pop_None: "pop q = None \<longleftrightarrow> order q = []"
    and pop_Some: "pop q = Some (e, q') \<Longrightarrow> order q = e # order q'"
    and push_order: "order (push e q) = filter urgent (order q @ [e]) @ filter (\<lambda>e. \<not> urgent e) (order q @ [e])"
    and unpop_order: "order (unpop e q) = filter urgent (e # order q) @ filter (\<lambda>e. \<not> urgent e) (e # order q)"
begin

lemma drain_order: "length (order q) \<le> n \<Longrightarrow> drain pop n q = order q"
proof (induction n arbitrary: q)
  case (Suc n)
  show ?case
  proof (cases "pop q")
    case None
    with pop_None[of q] show ?thesis by simp
  next
    case (Some x)
    obtain e q' where x: "x = (e, q')" by (cases x)
    with Some pop_Some have "order q = e # order q'" by blast
    with Suc Some x show ?thesis by simp
  qed
qed simp

lemma pop_unpop: "pop q = Some (e, q') \<Longrightarrow> order (unpop e q') = order q"
  using pop_Some[of q e q'] unpop_order[of e q'] order_kinds[of q] by simp

lemma unpop_urgent_first: "urgent e \<Longrightarrow> \<exists>q'. pop (unpop e q) = Some (e, q')"
  using pop_None[of "unpop e q"] pop_Some[of "unpop e q"] unpop_order[of e q]
  by (cases "pop (unpop e q)") auto

lemma push_keeps_prefix:
  "\<not> urgent e \<Longrightarrow> order (push e q) = order q @ [e]"
  using push_order[of e q] order_kinds[of q] by simp

end

definition queue_of :: "Entry list \<Rightarrow> QueueState" where
  "queue_of es = new_queue\<lparr>items := es\<rparr>"

definition pop_items :: "Entry list \<Rightarrow> (Entry \<times> Entry list) option" where
  "pop_items es = (case start_head (queue_of es) of
                     (Inr (Some (e, _)), q) \<Rightarrow> Some (e, items q)
                   | _ \<Rightarrow> None)"

definition unpop_items :: "Entry \<Rightarrow> Entry list \<Rightarrow> Entry list" where
  "unpop_items e es = items (restore e (queue_of es))"

lemma run_order_Cons_insert:
  assumes "\<forall>x\<in>set pre. entry_mode x \<noteq> entry_mode e" and "is_steer e \<or> (\<forall>x\<in>set (pre @ e # post). \<not> is_steer x)"
  shows "run_order (pre @ e # post) = e # run_order (pre @ post)"
  using assms by (auto simp: run_order_insert run_order_def filter_empty_conv)

lemma start_head_run_order:
  assumes "start_head q = (Inr (Some (e, g)), q')"
  shows "run_order (items q) = e # run_order (items q')"
  using assms by (rule start_head_SomeE) (simp add: run_order_Cons_insert)

lemma restore_run_order: "run_order (items (restore e q)) = run_order (e # items q)"
  by (rule restore_items[of q e]) (simp add: run_order_insert)

lemma run_order_filter:
  "filter is_steer (run_order es) = filter is_steer es"
  "filter (\<lambda>e. \<not> is_steer e) (run_order es) = filter (\<lambda>e. \<not> is_steer e) es"
  by (simp_all add: run_order_def cong: conj_cong)

lemma run_order_Nil [simp]: "run_order es = [] \<longleftrightarrow> es = []"
proof
  assume "run_order es = []"
  then show "es = []" by (cases es) (auto simp: run_order_def split: if_splits)
qed (simp add: run_order_def)

interpretation runq: run_queue run_order is_steer pop_items "\<lambda>e es. es @ [e]" unpop_items
proof
  fix es es' and e :: Entry
  show "run_order es = filter is_steer (run_order es) @ filter (\<lambda>e. \<not> is_steer e) (run_order es)"
    by (simp only: run_order_filter) (simp only: run_order_def)
  show "pop_items es = None \<longleftrightarrow> run_order es = []"
  proof (cases "start_head (queue_of es)")
    case (Pair r q)
    then show ?thesis
      by (cases r) (auto simp: pop_items_def start_head_other queue_of_def new_queue_def u64_bound_def
          elim: start_head_SomeE split: option.splits)
  qed
  show "pop_items es = Some (e, es') \<Longrightarrow> run_order es = e # run_order es'"
    using start_head_run_order[of "queue_of es" e]
    by (auto simp: pop_items_def queue_of_def split: prod.splits sum.splits option.splits)
  show "run_order (es @ [e]) = filter is_steer (run_order es @ [e]) @ filter (\<lambda>e. \<not> is_steer e) (run_order es @ [e])"
    by (simp only: filter_append run_order_filter) (simp only: run_order_def filter_append)
  show "run_order (unpop_items e es) = filter is_steer (e # run_order es) @ filter (\<lambda>e. \<not> is_steer e) (e # run_order es)"
    using run_order_filter[of es]
    by (simp add: unpop_items_def restore_run_order queue_of_def) (simp add: run_order_def)
qed

section \<open>Properties\<close>

text \<open>C1: Whatever the client, the workers and the rest of the program do, in any order: every
  accepted input is in exactly one place (queued or claimed, handed to a loop, or returned to
  the client), no two have the same identifier, and the inputs of one mode reach the loops in
  the order they were accepted.\<close>

theorem inputs_exactly_once_in_order:
  assumes "qinit y\<^sub>0" and "(qstep user_text)\<^sup>*\<^sup>* y\<^sub>0 y"
  shows "mset (accepted y) = mset (map fst (claims y)) + mset (items (squeue y)) + mset (handed y)
           + mset (returned y)
    \<and> distinct (map entry_id (accepted y))
    \<and> (\<forall>m. subseq (filter (\<lambda>e. entry_mode e = m) (handed y @ map fst (claims y) @ items (squeue y)))
             (filter (\<lambda>e. entry_mode e = m) (accepted y)))"
proof -
  from assms have ok: "queue_ok y" by (rule queue_sys.reachable_inv)
  have "inj_on input_id A" for A by (auto simp: inj_on_def input_id_inj)
  then have "distinct (map input_id [1..<Suc n])" for n by (simp only: distinct_map distinct_upt simp_thms)
  with ok have "distinct (map entry_id (accepted y))"
    unfolding queue_ok_def ids_ok_def by (simp only:)
  moreover have "fifo y" and "conserved y" using ok by (simp_all add: queue_ok_def)
  ultimately show ?thesis
    unfolding fifo_def conserved_def by (simp only: mset_append simp_thms)
qed

text \<open>A Session with an empty queue, and its first steps, for the witnesses.\<close>

definition idle_inner :: SessionInner where
  "idle_inner = \<lparr>blocked = None, closing = False, pending_compaction = False, compaction = None,
                 active = None, finished = [], last_saved = None, max_user_input_bytes = 100\<rparr>"

definition idle_session :: "unit Session" where
  "idle_session = \<lparr>inner = idle_inner, queue = new_queue, results = new_catalog, sess_id = ''s'',
                   sess_load = ''l'', dirty = False\<rparr>"

definition idle_sys :: "unit QSys" where
  "idle_sys = \<lparr>sess = idle_session, claims = [], workers = [], accepted = [], handed = [], returned = []\<rparr>"

lemma idle_sys_init [simp]: "qinit idle_sys"
  by (simp add: qinit_def idle_sys_def idle_session_def)

definition first_entry :: Entry where
  "first_entry = \<lparr>entry_id = input_id 1, entry_mode = Steer, entry_input = ''hi'', entry_accepted_at = None\<rparr>"

lemma can_start_idle [simp]: "can_start idle_inner" "blocked idle_inner = None" "\<not> closing idle_inner"
    "max_user_input_bytes idle_inner = 100"
  by (simp_all add: can_start_def idle_inner_def)

definition claimed_queue :: QueueState where
  "claimed_queue = \<lparr>items = [], starting = Some first_entry, paused = False, running = True,
                    binding = Some 1, generation = 1, next_id = 1\<rparr>"

definition claimed_sys :: "unit QSys" where
  "claimed_sys = idle_sys\<lparr>sess := idle_session\<lparr>queue := claimed_queue, dirty := True\<rparr>,
                          claims := [(first_entry, 1)], accepted := [first_entry]\<rparr>"

lemma step_claimed: "qstep Some idle_sys claimed_sys"
proof -
  have "start_head (new_queue\<lparr>items := [first_entry], next_id := 1\<rparr>)
      = (Inr (Some (first_entry, 1)), claimed_queue)"
    by (simp add: start_head_def head_def new_queue_def first_entry_def claimed_queue_def Let_def
        remove_at_def checked_add_def u64_bound_def)
  then have "accept_input Some None Steer ''hi'' idle_session
      = (Inr \<lparr>push_id = input_id 1, push_accepted_at = None, push_claim = Some (first_entry, 1)\<rparr>,
         idle_session\<lparr>queue := claimed_queue, dirty := True\<rparr>)"
    by (simp add: accept_input_def idle_session_def new_queue_def MAX_QUEUED_INPUTS_def u64_bound_def
        checked_add_def Let_def claim_start_def mark_dirty_def first_entry_def)
  then have "accept_input Some None Steer ''hi'' (sess idle_sys)
      = (Inr \<lparr>push_id = input_id 1, push_accepted_at = None, push_claim = Some (first_entry, 1)\<rparr>,
         idle_session\<lparr>queue := claimed_queue, dirty := True\<rparr>)"
    by (simp add: idle_sys_def)
  from q_accept[of Some None Steer "''hi''" idle_sys, OF this refl] show ?thesis
    by (simp add: claimed_sys_def first_entry_def idle_sys_def)
qed

lemma step_installed:
  "\<exists>s'. qstep Some claimed_sys (claimed_sys\<lparr>sess := s', claims := [], workers := [Turning 1],
          handed := [first_entry]\<rparr>)"
proof -
  have "\<exists>turn s'. install_loop (Inr ''loop'') first_entry 1 None (sess claimed_sys) = (Inr turn, s')"
    by (simp add: install_loop_def validate_install_state_def claimed_sys_def idle_session_def idle_inner_def
        Let_def)
  then obtain turn s' where "install_loop (Inr ''loop'') first_entry 1 None (sess claimed_sys) = (Inr turn, s')"
    by blast
  from q_install[OF _ this, where user_text = Some] show ?thesis
    by (auto simp: claimed_sys_def idle_sys_def)
qed

lemma reach_installed:
  obtains y where "(qstep Some)\<^sup>*\<^sup>* idle_sys y" and "handed y = [first_entry]" and "workers y = [Turning 1]"
    and "claims y = []"
proof -
  from step_installed obtain s' where "qstep Some claimed_sys (claimed_sys\<lparr>sess := s', claims := [],
      workers := [Turning 1], handed := [first_entry]\<rparr>)" (is "qstep Some _ ?y") ..
  with step_claimed have "(qstep Some)\<^sup>*\<^sup>* idle_sys ?y" by (meson converse_rtranclp_into_rtranclp r_into_rtranclp)
  then show thesis by (rule that) simp_all
qed

theorem inputs_exactly_once_in_order_witness:
  "\<exists>y. (qstep Some)\<^sup>*\<^sup>* idle_sys y \<and> first_entry \<in># mset (accepted y)"
proof (rule reach_installed)
  fix y assume y: "(qstep Some)\<^sup>*\<^sup>* idle_sys y" "handed y = [first_entry]"
  with inputs_exactly_once_in_order[OF idle_sys_init y(1)] show ?thesis
    by (intro exI[of _ y]) (simp del: set_mset_mset)
qed

text \<open>C7: In every reachable state at most one busy period exists: the queue is marked running
  exactly when one claim is in flight or one worker owns a turn, never both; the loop that may
  take inputs is the one of that claim or worker; the entry shown as starting is the claimed
  one; and at most 33 inputs are queued or claimed.\<close>

theorem one_busy_period:
  assumes "qinit y\<^sub>0" and "(qstep user_text)\<^sup>*\<^sup>* y\<^sub>0 y"
  shows "length (claims y) + length (workers y) = (if running (squeue y) then 1 else 0)
    \<and> (\<forall>g. binding (squeue y) = Some g \<longleftrightarrow> g \<in> set (map snd (claims y) @ map worker_gen (workers y)))
    \<and> (\<forall>e. starting (squeue y) = Some e \<longleftrightarrow> e \<in> set (map fst (claims y)))
    \<and> length (items (squeue y)) + length (claims y) \<le> 33"
proof -
  from assms have ok: "queue_ok y" by (rule queue_sys.reachable_inv)
  then have len: "length (claims y) + length (workers y) = (if running (squeue y) then 1 else 0)"
    by (simp add: queue_ok_defs)
  then consider "claims y = []" "workers y = []" | c where "claims y = [c]" "workers y = []"
    | w where "claims y = []" "workers y = [w]"
    by (cases "claims y"; cases "workers y") (auto split: if_splits)
  then show ?thesis
    using ok len by cases (auto simp: queue_ok_defs MAX_QUEUED_INPUTS_def split: if_splits)
qed

theorem one_busy_period_witness:
  "\<exists>y. (qstep Some)\<^sup>*\<^sup>* idle_sys y \<and> running (squeue y) \<and> binding (squeue y) = Some 1"
proof (rule reach_installed)
  fix y assume y: "(qstep Some)\<^sup>*\<^sup>* idle_sys y" "workers y = [Turning 1]"
  with one_busy_period[OF idle_sys_init y(1)] show ?thesis
    by (intro exI[of _ y]) (simp split: if_splits)
qed

text \<open>C8: The queue refines the list its view shows: starting turns one after another takes the
  shown inputs from the front; a start takes exactly the first shown input under a fresh loop
  generation; giving a claim back at once restores the view and ends the busy period, and a
  steer given back after any number of pushes is the next to run.\<close>

theorem queue_refines_view:
  "drain pop_items (length es) es = run_order es
   \<and> (start_head q = (Inr (Some (e, g)), q') \<longrightarrow>
        view_items (view q) = entry_item e # view_items (view q') \<and> g = generation q + 1
        \<and> view_items (view (end_period (restore e q'))) = view_items (view q)
        \<and> \<not> running (end_period (restore e q')))
   \<and> (is_steer e \<longrightarrow> hd (view_items (view (restore e r))) = entry_item e)"
proof (intro conjI impI)
  have "length (run_order es) = length es"
    using sum_length_filter_compl[of is_steer es] by (simp add: run_order_def)
  then show "drain pop_items (length es) es = run_order es" by (simp add: runq.drain_order)
next
  assume st: "start_head q = (Inr (Some (e, g)), q')"
  show "view_items (view q) = entry_item e # view_items (view q')"
    using start_head_run_order[OF st] by (simp add: view_items_run_order)
  from st show "g = generation q + 1" by (rule start_head_SomeE) simp
  have "run_order (e # items q') = run_order (items q)"
    using st by (rule start_head_SomeE) (simp add: run_order_insert)
  then show "view_items (view (end_period (restore e q'))) = view_items (view q)"
    using restore_run_order[of e q'] by (simp add: view_items_run_order end_period_def)
  show "\<not> running (end_period (restore e q'))" by (simp add: end_period_def)
next
  assume "is_steer e"
  then show "hd (view_items (view (restore e r))) = entry_item e"
    by (simp add: view_items_run_order restore_run_order) (simp add: run_order_def)
qed

theorem queue_refines_view_witness:
  "view_items (view (new_queue\<lparr>items := [first_entry]\<rparr>)) = [entry_item first_entry]
   \<and> hd (view_items (view (restore first_entry new_queue))) = entry_item first_entry"
  using queue_refines_view[of "[first_entry]" "new_queue\<lparr>items := [first_entry]\<rparr>" first_entry 1
      "claimed_queue\<lparr>next_id := 0\<rparr>" new_queue]
  by (simp add: start_head_def head_def new_queue_def first_entry_def claimed_queue_def Let_def
        remove_at_def checked_add_def u64_bound_def view_def)

text \<open>Accepting an input answers with the first failing check in the code's order and then
  leaves the Session as it was; otherwise the input is the last of its kind in the queue, the
  queue is no longer paused, and a turn start is claimed exactly when the Session was idle and
  may start.\<close>

theorem accept_input_result:
  assumes gen: "generation (queue s) < u64_bound" and "next_id (queue s) + 1 < u64_bound"
    and a: "accept_input user_text now mode txt s = (r, s')"
  shows "(case r of
      Inl err \<Rightarrow> s' = s \<and> err =
        (if user_text txt = None \<or> max_user_input_bytes (inner s) < length (the (user_text txt)) then InvalidInput
         else if blocked (inner s) \<noteq> None then SessionBlocked
         else if closing (inner s) then SessionBusy
         else if 32 \<le> length (items (queue s)) then InputQueueFull
         else InternalFailure)
    | Inr p \<Rightarrow> \<exists>e. entry_id e = push_id p \<and> entry_mode e = mode \<and> user_text txt = Some (entry_input e)
        \<and> length (items (queue s)) < 32 \<and> \<not> paused (queue s') \<and> inner s' = inner s
        \<and> (push_claim p \<noteq> None \<longleftrightarrow> \<not> running (queue s) \<and> can_start (inner s))
        \<and> run_order (map fst (option_list (push_claim p)) @ items (queue s')) = run_order (items (queue s) @ [e]))"
proof (cases r)
  case (Inl err)
  with a accept_input_error[OF gen, of user_text now mode "txt"] have "s' = s" by blast
  with a Inl assms(2) gen show ?thesis
    by (auto simp: accept_input_def Let_def checked_add_def claim_start_def start_head_other
        MAX_QUEUED_INPUTS_def split: if_splits option.splits prod.splits sum.splits)
next
  case (Inr p)
  let ?n = "Suc (next_id (queue s))"
  from a Inr obtain inp where inp: "user_text txt = Some inp"
    and guard: "length (items (queue s)) < 32"
      "\<not> (\<not> running (queue s) \<and> can_start (inner s) \<and> generation (queue s) = u64_bound - 1)"
    by (auto simp: accept_input_def MAX_QUEUED_INPUTS_def split: if_splits option.splits)
  let ?e = "\<lparr>entry_id = input_id ?n, entry_mode = mode, entry_input = inp, entry_accepted_at = now\<rparr>"
  let ?q = "(queue s)\<lparr>next_id := ?n, items := items (queue s) @ [?e], paused := False\<rparr>"
  from a Inr inp obtain c q' where c: "claim_start (inner s) ?q = (Inr c, q')"
    and p: "push_id p = input_id ?n" "push_claim p = c" and s': "queue s' = q'" "inner s' = inner s"
    by (auto simp: accept_input_def Let_def checked_add_def mark_dirty_def
        split: if_splits prod.splits sum.splits)
  have "(c \<noteq> None \<longleftrightarrow> \<not> running (queue s) \<and> can_start (inner s)) \<and> \<not> paused q'
      \<and> run_order (map fst (option_list c) @ items q') = run_order (items ?q)"
  proof (cases c)
    case None
    with c show ?thesis by (auto simp: claim_start_def start_head_other split: if_splits)
  next
    case (Some cl)
    obtain e g where cl: "cl = (e, g)" by (cases cl)
    with Some c have st: "start_head ?q = (Inr (Some (e, g)), q')" and "\<not> running (queue s)" "can_start (inner s)"
      by (auto simp: claim_start_def split: if_splits)
    moreover from st have "\<not> paused q'" by (rule start_head_SomeE) simp
    moreover from st have "run_order (e # items q') = run_order (items ?q)"
      by (rule start_head_SomeE) (simp add: run_order_insert)
    ultimately show ?thesis using Some cl by simp
  qed
  with Inr inp guard p s' show ?thesis by (auto intro!: exI[of _ ?e])
qed

theorem accept_input_result_witness:
  "fst (accept_input Some None FollowUp ''hi'' (idle_session\<lparr>inner := idle_inner\<lparr>closing := True\<rparr>\<rparr>))
     = Inl SessionBusy"
  using accept_input_result[of "idle_session\<lparr>inner := idle_inner\<lparr>closing := True\<rparr>\<rparr>" Some None FollowUp "''hi''"
      "Inl SessionBusy" "idle_session\<lparr>inner := idle_inner\<lparr>closing := True\<rparr>\<rparr>"]
  by (simp add: accept_input_def idle_session_def new_queue_def u64_bound_def)

text \<open>A finished turn is followed by the first shown input exactly when its report was
  persisted, its outcome is completed, the Session is not closing and inputs wait. Otherwise
  the busy period ends with the inputs kept, and the queue is paused if the turn did not end
  well and inputs wait. The successor runs the first shown input under the next loop
  generation while waiters can still read the result of the turn before it.\<close>

theorem turn_end_starts_successor:
  assumes t: "complete_turn n result src unavailable uncertain s = Some (continue, released, s')"
  shows "(continue \<longleftrightarrow> res_persistence result = Persisted \<and> res_outcome result = OutcomeCompleted
            \<and> \<not> closing (inner s) \<and> items (queue s) \<noteq> [])
    \<and> (\<not> continue \<longrightarrow> \<not> running (queue s') \<and> binding (queue s') = None \<and> items (queue s') = items (queue s)
          \<and> paused (queue s') = (paused (queue s) \<or> \<not> eligible result \<and> items (queue s) \<noteq> []))
    \<and> (continue \<and> generation (queue s) + 1 < u64_bound \<and> can_start (inner s)
          \<and> active (inner s) = Some a \<and> act_turn a = res_turn result
          \<and> res_turn result \<notin> fst ` set (finished (inner s)) \<and> lp \<noteq> turn_loop (res_turn result) \<longrightarrow>
        (\<exists>next s'' a'. start_successor (Inr ()) (Inr lp) (res_turn result) s' = (Some next, s'')
          \<and> active (inner s'') = Some a' \<and> act_turn a' = next
          \<and> view_items (view (queue s)) = act_input a' # view_items (view (queue s''))
          \<and> act_generation a' = generation (queue s) + 1
          \<and> completed_turn (inner s'') (res_turn result) = Some result))"
proof (intro conjI impI)
  note q = complete_turn_queue[OF t]
  from q show "continue \<longleftrightarrow> res_persistence result = Persisted \<and> res_outcome result = OutcomeCompleted
            \<and> \<not> closing (inner s) \<and> items (queue s) \<noteq> []"
    by (auto simp: eligible_def)
  {
    assume "\<not> continue"
    with q have "queue s' = end_period ((queue s)\<lparr>paused := paused (queue s) \<or> (\<not> eligible result \<and> items (queue s) \<noteq> [])\<rparr>)"
      by (simp add: completed_queue_def)
    then show "\<not> running (queue s')" "binding (queue s') = None" "items (queue s') = items (queue s)"
      "paused (queue s') = (paused (queue s) \<or> \<not> eligible result \<and> items (queue s) \<noteq> [])"
      by (simp_all add: end_period_def)
  }
  assume asm: "continue \<and> generation (queue s) + 1 < u64_bound \<and> can_start (inner s)
          \<and> active (inner s) = Some a \<and> act_turn a = res_turn result
          \<and> res_turn result \<notin> fst ` set (finished (inner s)) \<and> lp \<noteq> turn_loop (res_turn result)"
  with q have qs: "queue s' = queue s" and ne: "items (queue s) \<noteq> []" and el: "eligible result"
    and cl: "\<not> closing (inner s)" by (simp_all add: completed_queue_def)
  from t asm el have i: "blocked (inner s') = None" "closing (inner s') = closing (inner s)"
      "pending_compaction (inner s') = pending_compaction (inner s)" "compaction (inner s') = compaction (inner s)"
      "finished (inner s') = finished (inner s)" "active (inner s') = Some (a\<lparr>act_completion := Some (Finished result)\<rparr>)"
    by (auto simp: complete_turn_def Let_def mark_dirty_def publish_def can_start_def eligible_def split: option.splits)
  obtain r q' where st: "start_head (queue s) = (r, q')" by (cases "start_head (queue s)")
  with ne asm obtain e g where r: "r = Inr (Some (e, g))"
    by (cases r; cases "projr r") (auto simp: start_head_other)
  have g: "g = generation (queue s) + 1" using st[unfolded r] by (rule start_head_SomeE) simp
  have sc: "successor_claim s' = (Some (e, g), mark_dirty (s'\<lparr>queue := q'\<rparr>))"
    using st r qs i cl by (simp add: successor_claim_def)
  have v: "validate_install_state (inner s') (Some (res_turn result)) = Inr ()"
    using i asm by (auto simp: validate_install_state_def can_start_def split: option.splits)
  have f: "List.find (\<lambda>f. fst f = res_turn result) (xs @ [(res_turn result, c)]) = Some (res_turn result, c)"
    if "res_turn result \<notin> fst ` set xs" for xs c
    using that by (induction xs) auto
  obtain x xs where fin: "finished (inner s) = [] \<or> finished (inner s) = x # xs" by (cases "finished (inner s)") auto
  let ?next = "\<lparr>turn_session = sess_id s', turn_loop = lp\<rparr>"
  have "?next \<noteq> res_turn result" using asm by (metis TurnRef.select_convs(2))
  then show "\<exists>next s'' a'. start_successor (Inr ()) (Inr lp) (res_turn result) s' = (Some next, s'')
          \<and> active (inner s'') = Some a' \<and> act_turn a' = next
          \<and> view_items (view (queue s)) = act_input a' # view_items (view (queue s''))
          \<and> act_generation a' = generation (queue s) + 1
          \<and> completed_turn (inner s'') (res_turn result) = Some result"
    using start_head_run_order[OF st[unfolded r]] asm g fin f[of "[]"] f[of "x # xs"] f[of xs]
    by (auto simp: start_successor_def sc install_loop_def mark_dirty_def v Let_def i view_items_run_order
        completed_turn_def completion_receiver_def FINISHED_TURNS_KEPT_def)
qed

definition failed_result :: TurnResult where
  "failed_result = \<lparr>res_turn = \<lparr>turn_session = ''s'', turn_loop = ''x''\<rparr>,
                    res_outcome = OutcomeFailed ''model'', res_persistence = Persisted\<rparr>"

definition waiting_session :: "unit Session" where
  "waiting_session = idle_session\<lparr>results := register ''l'' new_catalog,
     queue := claimed_queue\<lparr>items := [first_entry], starting := None\<rparr>\<rparr>"

lemma waiting_completes:
  "\<exists>continue released s'. complete_turn 100 failed_result None None False waiting_session
     = Some (continue, released, s')"
  by (simp add: complete_turn_def waiting_session_def idle_session_def Let_def insert_completion_def
      push_entry_def register_def new_catalog_def checked_add_def u64_bound_def evict_loop.simps
      within_limits_def default_limits_def reported_entry_def idle_inner_def)

theorem turn_end_starts_successor_witness:
  "\<exists>released s'. complete_turn 100 failed_result None None False waiting_session = Some (False, released, s')
     \<and> paused (queue s') \<and> items (queue s') = [first_entry]"
proof -
  from waiting_completes obtain continue released s' where
    t: "complete_turn 100 failed_result None None False waiting_session = Some (continue, released, s')"
    by blast
  from turn_end_starts_successor[OF t] t show ?thesis
    by (auto simp: failed_result_def waiting_session_def eligible_def)
qed

text \<open>In every reachable state a loop of an earlier generation, or of a busy period that has
  ended, takes nothing and changes nothing; the loop of the running turn takes exactly the
  steers, in the order they were accepted, and leaves the follow-ups queued.\<close>

theorem stale_loops_take_nothing:
  assumes "qinit y\<^sub>0" and "(qstep user_text)\<^sup>*\<^sup>* y\<^sub>0 y"
    and t: "inputs_take g b d (sess y) = Some (texts, events, d', s')"
  shows "(g \<notin> set (map snd (claims y) @ map worker_gen (workers y)) \<longrightarrow>
           texts = [] \<and> events = [] \<and> d' = d \<and> s' = sess y)
    \<and> (\<forall>w\<in>set (workers y). worker_gen w = g \<longrightarrow>
           texts = map entry_input (filter is_steer (items (squeue y)))
           \<and> items (queue s') = filter (\<lambda>e. entry_mode e = FollowUp) (items (squeue y)))"
proof -
  from assms(1,2) have ok: "queue_ok y" by (rule queue_sys.reachable_inv)
  have b: "binding (squeue y) = Some g \<longleftrightarrow> g \<in> set (map snd (claims y) @ map worker_gen (workers y))"
  proof -
    from ok consider "claims y = []" "workers y = []" | c where "claims y = [c]" "workers y = []"
      | w where "claims y = []" "workers y = [w]"
      by (cases "claims y"; cases "workers y") (auto simp: queue_ok_defs split: if_splits)
    then show ?thesis using ok by cases (auto simp: queue_ok_defs split: if_splits)
  qed
  then show ?thesis
    using t inputs_take_queue[OF t] by (auto simp: inputs_take_def)
qed

theorem stale_loops_take_nothing_witness:
  "\<exists>y. (qstep Some)\<^sup>*\<^sup>* idle_sys y \<and> claims y = [] \<and> handed y = [first_entry]
     \<and> inputs_take 0 new_boundary \<lparr>del_turn = None, early = []\<rparr> (sess y)
       = Some ([], [], \<lparr>del_turn = None, early = []\<rparr>, sess y)"
proof (rule reach_installed)
  fix y assume y: "(qstep Some)\<^sup>*\<^sup>* idle_sys y" "handed y = [first_entry]" "workers y = [Turning 1]" "claims y = []"
  have "boundary_take 0 new_boundary = None" by (simp add: boundary_take_def new_boundary_def)
  moreover from queue_sys.reachable_inv[OF idle_sys_init y(1)] y have "binding (squeue y) \<noteq> Some 0"
    by (auto simp: queue_ok_defs)
  ultimately obtain texts events d' s' where
    t: "inputs_take 0 new_boundary \<lparr>del_turn = None, early = []\<rparr> (sess y) = Some (texts, events, d', s')"
    by (simp add: inputs_take_def)
  from stale_loops_take_nothing[OF idle_sys_init y(1) t] y t show ?thesis
    by (intro exI[of _ y]) simp
qed

subsection \<open>The queue limit and claims given back\<close>

definition full_state :: "nat \<Rightarrow> unit QSys \<Rightarrow> bool" where
  "full_state k y =
     ((qstep Some)\<^sup>*\<^sup>* idle_sys y \<and> claims y = [(first_entry, 1)] \<and> inner (sess y) = idle_inner
      \<and> running (squeue y) \<and> length (items (squeue y)) = k \<and> next_id (squeue y) = Suc k)"

lemma full_state_0: "full_state 0 claimed_sys"
  using step_claimed by (auto simp: full_state_def claimed_sys_def claimed_queue_def idle_session_def)

lemma full_state_Suc:
  assumes "full_state k y" and "k < 32"
  shows "\<exists>y'. full_state (Suc k) y'"
proof -
  let ?e = "\<lparr>entry_id = input_id (Suc (Suc k)), entry_mode = FollowUp, entry_input = ''x'', entry_accepted_at = None\<rparr>"
  let ?s = "mark_dirty ((sess y)\<lparr>queue := (squeue y)\<lparr>next_id := Suc (Suc k), items := items (squeue y) @ [?e],
      paused := False\<rparr>\<rparr>)"
  have "accept_input Some None FollowUp ''x'' (sess y)
      = (Inr \<lparr>push_id = input_id (Suc (Suc k)), push_accepted_at = None, push_claim = None\<rparr>, ?s)"
    using assms by (simp add: accept_input_def full_state_def MAX_QUEUED_INPUTS_def checked_add_def
        u64_bound_def Let_def claim_start_def)
  from q_accept[of Some None FollowUp "''x''" y, OF this refl]
  have "qstep Some y (y\<lparr>sess := ?s, accepted := accepted y @ [?e]\<rparr>)" by simp
  with assms have "(qstep Some)\<^sup>*\<^sup>* idle_sys (y\<lparr>sess := ?s, accepted := accepted y @ [?e]\<rparr>)"
    by (auto simp: full_state_def intro: rtranclp.rtrancl_into_rtrancl)
  with assms show ?thesis
    by (intro exI[of _ "y\<lparr>sess := ?s, accepted := accepted y @ [?e]\<rparr>"])
      (simp add: full_state_def mark_dirty_def)
qed

lemma full_state_reach: "k \<le> 32 \<Longrightarrow> \<exists>y. full_state k y"
  by (induction k) (auto intro: full_state_0 dest: full_state_Suc)

text \<open>C33: The limit of 32 queued inputs is a limit on acceptance only. There is a reachable state with one input
  claimed for a start and 32 others queued, in which a further input is refused as the queue is full; giving the
  claim back is a step of the Session, and puts its input back among the queued ones, of which there are 33.\<close>

theorem queue_holds_33_after_abandon:
  "\<exists>y e g. (qstep Some)\<^sup>*\<^sup>* idle_sys y \<and> claims y = [(e, g)] \<and> length (items (squeue y)) = 32
     \<and> accept_input Some None FollowUp ''x'' (sess y) = (Inl InputQueueFull, sess y)
     \<and> (let y' = y\<lparr>sess := abandon_claim e False (sess y), claims := []\<rparr>
        in qstep Some y y' \<and> mset (items (squeue y')) = add_mset e (mset (items (squeue y)))
           \<and> length (items (squeue y')) = 33)"
proof -
  from full_state_reach[of 32] obtain y where y: "full_state 32 y" by auto
  let ?y = "y\<lparr>sess := abandon_claim first_entry False (sess y), claims := []\<rparr>"
  have c: "claims y = [(first_entry, 1)]" "length (items (squeue y)) = 32" "(qstep Some)\<^sup>*\<^sup>* idle_sys y"
    using y by (simp_all add: full_state_def)
  have step: "qstep Some y ?y" using q_abandon[of first_entry 1 y Some False] c(1) by simp
  have m: "mset (items (squeue ?y)) = add_mset first_entry (mset (items (squeue y)))"
    by (rule restore_items[of "squeue y" first_entry])
      (simp add: abandon_claim_def Let_def end_period_def mark_dirty_def)
  have full: "accept_input Some None FollowUp ''x'' (sess y) = (Inl InputQueueFull, sess y)"
    using y by (simp add: accept_input_def full_state_def MAX_QUEUED_INPUTS_def)
  have "length (items (squeue ?y)) = 33" using arg_cong[OF m, of size] c(2) by simp
  then show ?thesis using c step m full by (intro exI[of _ y] exI[of _ first_entry] exI[of _ 1]) (simp add: Let_def)
qed

subsection \<open>The request boundary\<close>

datatype boundary_event = Observed nat nat | Issued nat nat

fun boundary_run :: "boundary_event list \<Rightarrow> BoundaryState \<Rightarrow> BoundaryState option" where
  "boundary_run [] b = Some b"
| "boundary_run (Observed g i # es) b = boundary_run es (boundary_observed g i b)"
| "boundary_run (Issued g i # es) b =
     (case boundary_issued g i b of None \<Rightarrow> None | Some b' \<Rightarrow> boundary_run es b')"

fun joined_index :: "nat \<Rightarrow> nat \<Rightarrow> boundary_event list \<Rightarrow> nat" where
  "joined_index g i [] = i"
| "joined_index g i (Observed h j # es) = joined_index g (if h = g then j else i) es"
| "joined_index g i (Issued h j # es) = joined_index g (if h = g then Suc j else i) es"

lemma boundary_run_index:
  "boundary_run es b = Some b' \<Longrightarrow> b_generation b = Some g \<Longrightarrow>
   b_generation b' = Some g \<and> b_next b' = joined_index g (b_next b) es"
proof (induction es b rule: boundary_run.induct)
  case (3 h i es b)
  then show ?case by (auto simp: boundary_issued_def split: option.splits if_splits)
qed (auto simp: boundary_observed_def)

text \<open>A delivered input carries the index of the request preparation it joins: the last one
  the loop observed, or the one after the last issued request, starting from 0; events of
  other generations have no influence, and a take under another generation is refused.\<close>

theorem delivered_request_index:
  assumes "boundary_run es (boundary_install g b) = Some b'"
  shows "boundary_take g b' = Some (joined_index g 0 es) \<and> (h \<noteq> g \<longrightarrow> boundary_take h b' = None)"
  using boundary_run_index[OF assms, of g] by (simp add: boundary_install_def boundary_take_def)

theorem delivered_request_index_witness:
  "boundary_take 7 (the (boundary_run [Observed 7 0, Issued 7 0, Observed 6 9] (boundary_install 7 new_boundary)))
     = Some 1"
  using delivered_request_index[of "[Observed 7 0, Issued 7 0, Observed 6 9]" 7 new_boundary]
  by (simp add: boundary_install_def boundary_issued_def boundary_observed_def)

end
