(* ===== verification/Patch_Apply.thy ===== *)
theory Patch_Apply
  imports Prelude
begin

text \<open>
  Applying resolved hunks to a file: \<^verbatim>\<open>src/tools/apply_patch/apply.rs\<close>. A source is split into
  lines that remember their line ending; hunks say which lines they replace; a builder appends
  the result line by line under the size limit. The abstract meaning of a patch is \<open>patched\<close>,
  a splice of the line list.
\<close>

datatype ToolError = InvalidInvocation | Failed | Internal

datatype LineEnding = EndNone | EndLf | EndCrlf

record SourceLine =
  sl_text :: string
  sl_ending :: LineEnding

datatype PatchLineKind = Context | Remove | Add

record PatchContent =
  pc_kind :: PatchLineKind
  pc_text :: string
  old_no_newline :: bool
  new_no_newline :: bool
  context_new_ending :: "LineEnding option"

record HunkRange =
  hr_index :: nat
  hr_count :: nat
  hr_end :: nat

record ResolvedHunk =
  rh_old :: HunkRange
  rh_new :: HunkRange
  rh_contents :: "PatchContent list"

record ResultBuilder =
  rb_value :: string
  rb_line_count :: nat
  rb_no_newline :: bool

definition MAX_PATCH_BYTES :: nat where
  "MAX_PATCH_BYTES = 524288"

fun ending_str :: "LineEnding \<Rightarrow> string" where
  "ending_str EndNone = []"
| "ending_str EndLf = [LF]"
| "ending_str EndCrlf = [CR, LF]"

definition new_builder :: ResultBuilder where
  "new_builder = \<lparr>rb_value = [], rb_line_count = 0, rb_no_newline = False\<rparr>"

definition add :: "nat \<Rightarrow> nat \<Rightarrow> ToolError + nat" where
  "add l r = ok_or (checked_add l r) InvalidInvocation"

definition sub :: "nat \<Rightarrow> nat \<Rightarrow> ToolError + nat" where
  "sub l r = ok_or (checked_sub l r) InvalidInvocation"

fun delta :: "PatchLineKind \<Rightarrow> nat \<times> nat" where
  "delta Context = (1, 1)"
| "delta Remove = (1, 0)"
| "delta Add = (0, 1)"

definition append_line :: "string \<Rightarrow> LineEnding \<Rightarrow> ResultBuilder \<Rightarrow> ToolError + ResultBuilder" where
  "append_line t ending b =
     (if rb_no_newline b then Inl Failed
      else
        res_bind (ok_or (checked_add (length t) (length (ending_str ending))) InvalidInvocation) (\<lambda>added.
        res_bind (ok_or (checked_add (length (rb_value b)) added) InvalidInvocation) (\<lambda>result_len.
        if MAX_PATCH_BYTES < result_len then Inl InvalidInvocation
        else
          res_bind (add (rb_line_count b) 1) (\<lambda>n.
          Inr \<lparr>rb_value = rb_value b @ t @ ending_str ending, rb_line_count = n,
               rb_no_newline = (ending = EndNone)\<rparr>))))"

text \<open>The byte loop of \<^verbatim>\<open>split_source_lines\<close>; \<open>cur\<close> is the line read so far.\<close>

fun split_lines_from :: "string \<Rightarrow> string \<Rightarrow> SourceLine list" where
  "split_lines_from cur [] =
     (if cur \<noteq> [] then [\<lparr>sl_text = cur, sl_ending = EndNone\<rparr>] else [])"
| "split_lines_from cur (c # s) =
     (if c \<noteq> LF then split_lines_from (cur @ [c]) s
      else if cur \<noteq> [] \<and> last cur = CR
        then \<lparr>sl_text = butlast cur, sl_ending = EndCrlf\<rparr> # split_lines_from [] s
      else \<lparr>sl_text = cur, sl_ending = EndLf\<rparr> # split_lines_from [] s)"

definition split_source_lines :: "string \<Rightarrow> SourceLine list" where
  "split_source_lines s = split_lines_from [] s"

fun count_endings :: "SourceLine list \<Rightarrow> nat \<Rightarrow> nat \<Rightarrow> LineEnding option \<Rightarrow> nat \<times> nat \<times> LineEnding option" where
  "count_endings [] lf crlf first = (lf, crlf, first)"
| "count_endings (l # ls) lf crlf first =
     (case sl_ending l of
        EndLf \<Rightarrow> count_endings ls (min (lf + 1) (u64_bound - 1)) crlf
                   (case first of None \<Rightarrow> Some EndLf | Some e \<Rightarrow> Some e)
      | EndCrlf \<Rightarrow> count_endings ls lf (min (crlf + 1) (u64_bound - 1))
                   (case first of None \<Rightarrow> Some EndCrlf | Some e \<Rightarrow> Some e)
      | EndNone \<Rightarrow> count_endings ls lf crlf first)"

definition preferred_line_ending :: "SourceLine list \<Rightarrow> LineEnding" where
  "preferred_line_ending ls =
     (case count_endings ls 0 0 None of
        (lf, crlf, first) \<Rightarrow>
          if lf < crlf then EndCrlf else if crlf < lf then EndLf
          else (case first of None \<Rightarrow> EndLf | Some e \<Rightarrow> e))"

definition get :: "'a list \<Rightarrow> nat \<Rightarrow> 'a option" where
  "get xs i = (if i < length xs then Some (xs ! i) else None)"

type_synonym apply_state = "nat \<times> ResultBuilder"

definition append_source_line :: "SourceLine list \<Rightarrow> apply_state \<Rightarrow> ToolError + apply_state" where
  "append_source_line src = (\<lambda>(cursor, b).
     res_bind (ok_or (get src cursor) Failed) (\<lambda>l.
     res_bind (append_line (sl_text l) (sl_ending l) b) (\<lambda>b'.
     res_bind (ok_or (checked_add cursor 1) Internal) (\<lambda>cursor'. Inr (cursor', b')))))"

definition matching_source_line :: "PatchContent \<Rightarrow> SourceLine list \<Rightarrow> nat \<Rightarrow> ToolError + SourceLine" where
  "matching_source_line c src cursor =
     res_bind (ok_or (get src cursor) Failed) (\<lambda>l.
       if sl_text l \<noteq> pc_text c \<or> (sl_ending l = EndNone) \<noteq> old_no_newline c then Inl Failed else Inr l)"

definition apply_patch_content ::
  "LineEnding \<Rightarrow> SourceLine list \<Rightarrow> PatchContent \<Rightarrow> apply_state \<Rightarrow> ToolError + apply_state" where
  "apply_patch_content preferred src c = (\<lambda>(cursor, b).
     case pc_kind c of
       Context \<Rightarrow>
         res_bind (matching_source_line c src cursor) (\<lambda>l.
         res_bind (append_line (sl_text l)
           (case context_new_ending c of None \<Rightarrow> sl_ending l | Some e \<Rightarrow> e) b) (\<lambda>b'.
         res_bind (ok_or (checked_add cursor 1) Internal) (\<lambda>cursor'. Inr (cursor', b'))))
     | Remove \<Rightarrow>
         res_bind (matching_source_line c src cursor) (\<lambda>_.
         res_bind (ok_or (checked_add cursor 1) Internal) (\<lambda>cursor'. Inr (cursor', b)))
     | Add \<Rightarrow>
         res_bind (append_line (pc_text c) (if new_no_newline c then EndNone else preferred) b)
           (\<lambda>b'. Inr (cursor, b')))"

text \<open>The two copying loops: \<open>n\<close> is the number of lines left to copy.\<close>

fun copy_lines :: "SourceLine list \<Rightarrow> nat \<Rightarrow> apply_state \<Rightarrow> ToolError + apply_state" where
  "copy_lines src 0 st = Inr st"
| "copy_lines src (Suc n) st = res_bind (append_source_line src st) (copy_lines src n)"

fun apply_contents ::
  "LineEnding \<Rightarrow> SourceLine list \<Rightarrow> PatchContent list \<Rightarrow> apply_state \<Rightarrow> ToolError + apply_state" where
  "apply_contents preferred src [] st = Inr st"
| "apply_contents preferred src (c # cs) st =
     res_bind (apply_patch_content preferred src c st) (apply_contents preferred src cs)"

fun apply_hunks ::
  "LineEnding \<Rightarrow> SourceLine list \<Rightarrow> ResolvedHunk list \<Rightarrow> nat \<Rightarrow> nat \<Rightarrow> apply_state
   \<Rightarrow> ToolError + apply_state" where
  "apply_hunks preferred src [] prev_old prev_new st = Inr st"
| "apply_hunks preferred src (h # hs) prev_old prev_new st =
     (if hr_index (rh_old h) < prev_old \<or> hr_index (rh_new h) < prev_new then Inl InvalidInvocation
      else
        res_bind (copy_lines src (hr_index (rh_old h) - fst st) st) (\<lambda>st1.
        if fst st1 \<noteq> hr_index (rh_old h) \<or> rb_line_count (snd st1) \<noteq> hr_index (rh_new h) then Inl Failed
        else
          res_bind (apply_contents preferred src (rh_contents h) st1) (\<lambda>st2.
          if fst st2 \<noteq> hr_end (rh_old h) \<or> rb_line_count (snd st2) \<noteq> hr_end (rh_new h) then Inl Failed
          else apply_hunks preferred src hs (hr_end (rh_old h)) (hr_end (rh_new h)) st2)))"

definition apply_resolved_hunks :: "SourceLine list \<Rightarrow> ResolvedHunk list \<Rightarrow> ToolError + string" where
  "apply_resolved_hunks src hunks =
     res_bind (apply_hunks (preferred_line_ending src) src hunks 0 0 (0, new_builder)) (\<lambda>st.
     res_bind (copy_lines src (length src - fst st) st) (\<lambda>st'.
     if fst st' \<noteq> length src then Inl Internal else Inr (rb_value (snd st'))))"

section \<open>Lines\<close>

definition line_bytes :: "SourceLine \<Rightarrow> string" where
  "line_bytes l = sl_text l @ ending_str (sl_ending l)"

definition render :: "SourceLine list \<Rightarrow> string" where
  "render ls = concat (map line_bytes ls)"

text \<open>A line list is canonical when it is the only one with its rendering.\<close>

fun canonical :: "SourceLine list \<Rightarrow> bool" where
  "canonical [] = True"
| "canonical (l # ls) =
     (LF \<notin> set (sl_text l)
      \<and> (case sl_ending l of
           EndNone \<Rightarrow> sl_text l \<noteq> [] \<and> ls = []
         | EndLf \<Rightarrow> \<not> (sl_text l \<noteq> [] \<and> last (sl_text l) = CR)
         | EndCrlf \<Rightarrow> True)
      \<and> canonical ls)"

lemma render_simps [simp]:
  "render [] = []" "render (l # ls) = line_bytes l @ render ls" "render (ls @ ms) = render ls @ render ms"
  by (simp_all add: render_def)

lemma render_split_from: "render (split_lines_from cur s) = cur @ s"
proof (induction cur s rule: split_lines_from.induct)
  case (2 cur c s)
  then show ?case
    by (auto simp: line_bytes_def) (metis append_butlast_last_id append_assoc append_Cons append_Nil)
qed (simp add: line_bytes_def)

lemma canonical_split_from: "LF \<notin> set cur \<Longrightarrow> canonical (split_lines_from cur s)"
proof (induction cur s rule: split_lines_from.induct)
  case (2 cur c s)
  then show ?case by (auto dest: in_set_butlastD)
qed simp

lemma split_from_line:
  "LF \<notin> set t \<Longrightarrow> split_lines_from cur (t @ s) = split_lines_from (cur @ t) s"
  by (induction t arbitrary: cur) auto

lemma split_render: "canonical ls \<Longrightarrow> split_lines_from [] (render ls) = ls"
proof (induction ls)
  case (Cons l ls)
  then have "split_lines_from [] (line_bytes l @ render ls)
      = split_lines_from (sl_text l) (ending_str (sl_ending l) @ render ls)"
    by (simp add: line_bytes_def split_from_line)
  with Cons show ?case by (cases "sl_ending l") (auto simp: butlast_append)
qed simp

section \<open>What a patch means\<close>

text \<open>
  \<open>old_matches\<close> says that the replaced lines are exactly the context and removed lines of the
  hunk, \<open>new_side\<close> are the lines put in their place.
\<close>

fun old_matches :: "SourceLine list \<Rightarrow> PatchContent list \<Rightarrow> bool" where
  "old_matches ls [] = (ls = [])"
| "old_matches ls (c # cs) =
     (case pc_kind c of
        Add \<Rightarrow> old_matches ls cs
      | _ \<Rightarrow> (case ls of
                [] \<Rightarrow> False
              | l # ls' \<Rightarrow> sl_text l = pc_text c \<and> (sl_ending l = EndNone) = old_no_newline c
                            \<and> old_matches ls' cs))"

fun new_side :: "LineEnding \<Rightarrow> SourceLine list \<Rightarrow> PatchContent list \<Rightarrow> SourceLine list" where
  "new_side preferred ls [] = []"
| "new_side preferred ls (c # cs) =
     (case pc_kind c of
        Context \<Rightarrow>
          \<lparr>sl_text = sl_text (hd ls),
           sl_ending = (case context_new_ending c of None \<Rightarrow> sl_ending (hd ls) | Some e \<Rightarrow> e)\<rparr>
          # new_side preferred (tl ls) cs
      | Remove \<Rightarrow> new_side preferred (tl ls) cs
      | Add \<Rightarrow> \<lparr>sl_text = pc_text c, sl_ending = (if new_no_newline c then EndNone else preferred)\<rparr>
               # new_side preferred ls cs)"

fun patched :: "LineEnding \<Rightarrow> SourceLine list \<Rightarrow> nat \<Rightarrow> ResolvedHunk list \<Rightarrow> SourceLine list" where
  "patched preferred src cur [] = drop cur src"
| "patched preferred src cur (h # hs) =
     take (hr_index (rh_old h) - cur) (drop cur src)
     @ new_side preferred (drop (hr_index (rh_old h)) src) (rh_contents h)
     @ patched preferred src (hr_end (rh_old h)) hs"

fun hunks_match :: "SourceLine list \<Rightarrow> nat \<Rightarrow> ResolvedHunk list \<Rightarrow> bool" where
  "hunks_match src cur [] = (cur \<le> length src)"
| "hunks_match src cur (h # hs) =
     (let i = hr_index (rh_old h); j = hr_end (rh_old h) in
      cur \<le> i \<and> i \<le> j \<and> old_matches (take (j - i) (drop i src)) (rh_contents h)
      \<and> hunks_match src j hs)"

definition only_last_open :: "SourceLine list \<Rightarrow> bool" where
  "only_last_open ls = (\<forall>l\<in>set (butlast ls). sl_ending l \<noteq> EndNone)"

definition builds :: "ResultBuilder \<Rightarrow> SourceLine list \<Rightarrow> bool" where
  "builds b out =
     (rb_value b = render out \<and> rb_line_count b = length out
      \<and> rb_no_newline b = (out \<noteq> [] \<and> sl_ending (last out) = EndNone)
      \<and> only_last_open out \<and> length (render out) \<le> MAX_PATCH_BYTES)"

lemma line_eta [simp]: "\<lparr>sl_text = sl_text l, sl_ending = sl_ending l\<rparr> = l"
  by (cases l) simp

lemma append_line_builds:
  assumes "append_line t e b = Inr b'" and "builds b out"
  shows "builds b' (out @ [\<lparr>sl_text = t, sl_ending = e\<rparr>])"
proof -
  from assms have opn: "out = [] \<or> sl_ending (last out) \<noteq> EndNone" and "only_last_open out"
    by (auto simp: append_line_def builds_def split: if_splits)
  then have "\<forall>l\<in>set out. sl_ending l \<noteq> EndNone"
    by (cases out rule: rev_cases) (auto simp: only_last_open_def)
  with assms show ?thesis
    by (auto simp: append_line_def builds_def only_last_open_def add_def line_bytes_def split: if_splits)
qed

lemma get_Some [simp]: "get xs i = Some x \<longleftrightarrow> i < length xs \<and> x = xs ! i"
  by (auto simp: get_def)

lemma copy_lines_builds:
  assumes "copy_lines src n (cur, b) = Inr (cur', b')" and "builds b out"
  shows "cur' = cur + n \<and> (n = 0 \<or> cur + n \<le> length src) \<and> builds b' (out @ take n (drop cur src))"
  using assms
proof (induction n arbitrary: cur b out)
  case (Suc n)
  then obtain b1 where "cur < length src" and a: "append_line (sl_text (src ! cur)) (sl_ending (src ! cur)) b = Inr b1"
    and rest: "copy_lines src n (Suc cur, b1) = Inr (cur', b')"
    by (auto simp: append_source_line_def)
  from append_line_builds[OF a Suc.prems(2)] have "builds b1 (out @ [src ! cur])" by simp
  from Suc.IH[OF rest this] \<open>cur < length src\<close> show ?case
    by (auto simp: Cons_nth_drop_Suc[symmetric])
qed simp

lemma matching_source_line_Inr [simp]:
  "matching_source_line c src cur = Inr l \<longleftrightarrow> cur < length src \<and> l = src ! cur \<and> sl_text l = pc_text c
     \<and> (sl_ending l = EndNone) = old_no_newline c"
  by (auto simp: matching_source_line_def res_bind_eq_Inr)

lemma apply_contents_builds:
  assumes "apply_contents p src cs (cur, b) = Inr (cur', b')" and "builds b out" and "cur \<le> length src"
  shows "cur \<le> cur' \<and> cur' \<le> length src \<and> old_matches (take (cur' - cur) (drop cur src)) cs
    \<and> builds b' (out @ new_side p (drop cur src) cs)"
  using assms
proof (induction cs arbitrary: cur b out)
  case (Cons c cs)
  show ?case
  proof (cases "pc_kind c")
    case Context
    let ?e = "case context_new_ending c of None \<Rightarrow> sl_ending (src ! cur) | Some e \<Rightarrow> e"
    from Cons.prems(1) Context obtain b1 where l: "cur < length src" "sl_text (src ! cur) = pc_text c"
        "(sl_ending (src ! cur) = EndNone) = old_no_newline c"
      and a: "append_line (sl_text (src ! cur)) ?e b = Inr b1"
      and rest: "apply_contents p src cs (Suc cur, b1) = Inr (cur', b')"
      by (auto simp: apply_patch_content_def)
    from Cons.IH[OF rest append_line_builds[OF a Cons.prems(2)]] l Context show ?thesis
      by (auto simp: Cons_nth_drop_Suc[symmetric] take_Cons' split: option.splits)
  next
    case Remove
    with Cons.prems(1) have l: "cur < length src" "sl_text (src ! cur) = pc_text c"
        "(sl_ending (src ! cur) = EndNone) = old_no_newline c"
      and rest: "apply_contents p src cs (Suc cur, b) = Inr (cur', b')"
      by (auto simp: apply_patch_content_def)
    from Cons.IH[OF rest Cons.prems(2)] l Remove show ?thesis
      by (auto simp: Cons_nth_drop_Suc[symmetric] take_Cons' drop_Suc tl_drop)
  next
    case Add
    with Cons.prems(1) obtain b1 where
        a: "append_line (pc_text c) (if new_no_newline c then EndNone else p) b = Inr b1"
      and rest: "apply_contents p src cs (cur, b1) = Inr (cur', b')"
      by (auto simp: apply_patch_content_def)
    from Cons.IH[OF rest append_line_builds[OF a Cons.prems(2)] Cons.prems(3)] Add show ?thesis by simp
  qed
qed simp

lemma apply_hunks_builds:
  assumes "apply_hunks p src hs prev_old prev_new (cur, b) = Inr (cur', b')" and "builds b out"
    and "cur \<le> length src" and "prev_old = cur"
  shows "cur' \<le> length src \<and> hunks_match src cur hs
    \<and> (\<exists>mid. builds b' (out @ mid) \<and> patched p src cur hs = mid @ drop cur' src)"
  using assms
proof (induction hs arbitrary: cur b out prev_old prev_new)
  case (Cons h hs)
  let ?i = "hr_index (rh_old h)"
  from Cons.prems(1) obtain b1 b2 where i: "cur \<le> ?i"
    and c: "copy_lines src (?i - cur) (cur, b) = Inr (?i, b1)"
    and a: "apply_contents p src (rh_contents h) (?i, b1) = Inr (hr_end (rh_old h), b2)"
    and r: "apply_hunks p src hs (hr_end (rh_old h)) (hr_end (rh_new h)) (hr_end (rh_old h), b2) = Inr (cur', b')"
    using Cons.prems(4) by (auto split: if_splits)
  from copy_lines_builds[OF c Cons.prems(2)] Cons.prems(3)
  have b1: "builds b1 (out @ take (?i - cur) (drop cur src))" and le: "?i \<le> length src" by auto
  note ac = apply_contents_builds[OF a b1 le]
  then have b2: "builds b2 ((out @ take (?i - cur) (drop cur src)) @ new_side p (drop ?i src) (rh_contents h))"
    and le2: "hr_end (rh_old h) \<le> length src" by auto
  from Cons.IH[OF r b2 le2 refl] ac i show ?case by (auto simp: Let_def)
qed auto

lemma apply_resolved_hunks_splice:
  assumes "apply_resolved_hunks (split_source_lines source) hunks = Inr v"
  shows "(let src = split_source_lines source; out = patched (preferred_line_ending src) src 0 hunks in
     hunks_match src 0 hunks \<and> v = render out \<and> only_last_open out \<and> length v \<le> 524288)"
proof -
  let ?src = "split_source_lines source" and ?p = "preferred_line_ending (split_source_lines source)"
  from assms obtain cur b b2 where a: "apply_hunks ?p ?src hunks 0 0 (0, new_builder) = Inr (cur, b)"
    and c: "copy_lines ?src (length ?src - cur) (cur, b) = Inr (length ?src, b2)" and v: "v = rb_value b2"
    by (auto simp: apply_resolved_hunks_def split: if_splits)
  have "builds new_builder []" by (simp add: builds_def new_builder_def only_last_open_def)
  from apply_hunks_builds[OF a this] obtain mid where le: "cur \<le> length ?src" and m: "hunks_match ?src 0 hunks"
    and b: "builds b mid" and p: "patched ?p ?src 0 hunks = mid @ drop cur ?src" by auto
  from copy_lines_builds[OF c b] le have "builds b2 (patched ?p ?src 0 hunks)" by (simp add: p)
  with m v show ?thesis by (simp add: Let_def builds_def MAX_PATCH_BYTES_def)
qed

text \<open>When a patch applies, the result is the source with exactly the hunks' lines replaced:
  every hunk's context and removed lines are the lines it replaces, hunks replace disjoint
  ranges from front to back, all other lines are copied with their line endings, only the last
  line may lack a newline, and the result is at most 512 KiB.\<close>

theorem apply_is_splice:
  assumes "apply_resolved_hunks (split_source_lines source) hunks = Inr v"
  shows "(let src = split_source_lines source; out = patched (preferred_line_ending src) src 0 hunks in
     hunks_match src 0 hunks \<and> v = render out \<and> only_last_open out \<and> length v \<le> 524288)"
  by (rule apply_resolved_hunks_splice[OF assms])

definition sample_hunk :: ResolvedHunk where
  "sample_hunk =
     \<lparr>rh_old = \<lparr>hr_index = 1, hr_count = 1, hr_end = 2\<rparr>, rh_new = \<lparr>hr_index = 1, hr_count = 1, hr_end = 2\<rparr>,
      rh_contents =
        [\<lparr>pc_kind = Remove, pc_text = ''b'', old_no_newline = False, new_no_newline = False,
          context_new_ending = None\<rparr>,
         \<lparr>pc_kind = Add, pc_text = ''x'', old_no_newline = False, new_no_newline = False,
          context_new_ending = None\<rparr>]\<rparr>"

lemma sample_applies:
  "apply_resolved_hunks (split_source_lines (''a'' @ [LF] @ ''b'' @ [LF] @ ''c'')) [sample_hunk]
   = Inr (''a'' @ [LF] @ ''x'' @ [LF] @ ''c'')"
  by (simp add: split_source_lines_def sample_hunk_def apply_resolved_hunks_def preferred_line_ending_def
      append_source_line_def append_line_def apply_patch_content_def matching_source_line_def get_def
      new_builder_def add_def checked_add_def u64_bound_def MAX_PATCH_BYTES_def)

theorem apply_is_splice_witness:
  "hunks_match (split_source_lines (''a'' @ [LF] @ ''b'' @ [LF] @ ''c'')) 0 [sample_hunk]"
  using apply_is_splice[OF sample_applies] unfolding Let_def by blast

text \<open>Splitting a file into lines loses nothing: rendering the lines gives the file back byte
  for byte, whatever mixture of LF, CRLF and lone CR it has, and the lines are canonical (no LF
  inside a line, a CR before LF belongs to the ending, only a non-empty last line may lack an
  ending); a canonical line list is recovered from its rendering.\<close>

theorem split_source_lines_roundtrip:
  "render (split_source_lines source) = source \<and> canonical (split_source_lines source)
   \<and> (canonical ls \<longrightarrow> split_source_lines (render ls) = ls)"
  by (simp add: split_source_lines_def render_split_from canonical_split_from split_render)

theorem split_source_lines_roundtrip_witness:
  "split_source_lines (render [\<lparr>sl_text = ''a'', sl_ending = EndCrlf\<rparr>, \<lparr>sl_text = ''b'', sl_ending = EndNone\<rparr>])
   = [\<lparr>sl_text = ''a'', sl_ending = EndCrlf\<rparr>, \<lparr>sl_text = ''b'', sl_ending = EndNone\<rparr>]"
  using split_source_lines_roundtrip[of "[]" "[\<lparr>sl_text = ''a'', sl_ending = EndCrlf\<rparr>, \<lparr>sl_text = ''b'', sl_ending = EndNone\<rparr>]"]
  by simp

end
