(* ===== verification/Patch_Unified.thy ===== *)
theory Patch_Unified
  imports Patch_Apply
begin

text \<open>
  The unified-diff parser: \<^verbatim>\<open>src/tools/apply_patch/unified.rs\<close>. The peekable line iterator
  \<^verbatim>\<open>PatchLines\<close> is the list of the lines not yet consumed; a parsing function returns what it
  has read together with the remaining lines.
\<close>

definition NO_NEWLINE_AT_END :: string where
  "NO_NEWLINE_AT_END = CHR 0x5C # '' No newline at end of file''"

definition strip_transport_ending :: "string \<Rightarrow> string" where
  "strip_transport_ending l =
     (case strip_suffix [LF] l of
        None \<Rightarrow> l
      | Some l' \<Rightarrow> (case strip_suffix [CR] l' of None \<Rightarrow> l' | Some l'' \<Rightarrow> l''))"

definition patch_lines :: "string \<Rightarrow> string list" where
  "patch_lines patch = split_inclusive LF patch"

definition next_line :: "string list \<Rightarrow> ToolError + (string \<times> string list)" where
  "next_line ls = (case ls of [] \<Rightarrow> Inl InvalidInvocation | l # ls' \<Rightarrow> Inr (l, ls'))"

definition finish_lines :: "string list \<Rightarrow> ToolError + unit" where
  "finish_lines ls =
     (if list_all (\<lambda>l. strip_transport_ending l = []) ls then Inr () else Inl InvalidInvocation)"

definition make_hunk_range :: "nat \<Rightarrow> nat \<Rightarrow> ToolError + HunkRange" where
  "make_hunk_range index cnt =
     res_bind (add index cnt) (\<lambda>e. Inr \<lparr>hr_index = index, hr_count = cnt, hr_end = e\<rparr>)"

definition content :: "PatchLineKind \<Rightarrow> string \<Rightarrow> PatchContent" where
  "content k t = \<lparr>pc_kind = k, pc_text = t, old_no_newline = False, new_no_newline = False,
                  context_new_ending = None\<rparr>"

definition parse_patch_content :: "string \<Rightarrow> ToolError + PatchContent" where
  "parse_patch_content l =
     (case l of
        [] \<Rightarrow> Inr (content Context [])
      | c # t \<Rightarrow>
          if c = CHR '' '' then Inr (content Context t)
          else if c = CHR ''-'' then Inr (content Remove t)
          else if c = CHR ''+'' then Inr (content Add t)
          else Inl InvalidInvocation)"

definition mark_no_newline :: "PatchContent \<Rightarrow> ToolError + PatchContent" where
  "mark_no_newline c =
     (if old_no_newline c \<or> new_no_newline c then Inl InvalidInvocation
      else Inr (case pc_kind c of
                  Context \<Rightarrow> c\<lparr>old_no_newline := True, new_no_newline := True\<rparr>
                | Remove \<Rightarrow> c\<lparr>old_no_newline := True\<rparr>
                | Add \<Rightarrow> c\<lparr>new_no_newline := True\<rparr>))"

definition at_no_newline :: "string list \<Rightarrow> bool" where
  "at_no_newline ls =
     (case ls of [] \<Rightarrow> False | l # _ \<Rightarrow> strip_transport_ending l = NO_NEWLINE_AT_END)"

definition consume_no_newline :: "string list \<Rightarrow> PatchContent \<Rightarrow> ToolError + (PatchContent \<times> string list)" where
  "consume_no_newline ls c =
     (if at_no_newline ls
      then res_bind (mark_no_newline c) (\<lambda>c'.
             if at_no_newline (tl ls) then Inl InvalidInvocation else Inr (c', tl ls))
      else Inr (c, ls))"

lemma consume_no_newline_length:
  "consume_no_newline ls c = Inr (c', ls') \<Longrightarrow> length ls' \<le> length ls"
  by (auto simp: consume_no_newline_def split: if_splits)

function parse_hunk_contents ::
  "nat \<Rightarrow> nat \<Rightarrow> nat \<Rightarrow> nat \<Rightarrow> PatchContent list \<Rightarrow> string list
   \<Rightarrow> ToolError + (PatchContent list \<times> string list)" where
  "parse_hunk_contents expected_old expected_new old_count new_count acc ls =
     (if old_count < expected_old \<or> new_count < expected_new
      then
        res_bind (next_line ls) (\<lambda>(raw, ls1).
          let line = strip_transport_ending raw in
          if line = NO_NEWLINE_AT_END then Inl InvalidInvocation
          else
            res_bind (parse_patch_content line) (\<lambda>c.
            res_bind (add old_count (fst (delta (pc_kind c)))) (\<lambda>old'.
            res_bind (add new_count (snd (delta (pc_kind c)))) (\<lambda>new'.
            if expected_old < old' \<or> expected_new < new' then Inl InvalidInvocation
            else
              res_bind (consume_no_newline ls1 c) (\<lambda>(c', ls2).
              parse_hunk_contents expected_old expected_new old' new' (acc @ [c']) ls2)))))
      else if acc = [] then Inl InvalidInvocation
      else Inr (acc, ls))"
  by pat_completeness auto
termination
  by (relation "measure (\<lambda>(_, _, _, _, _, ls). length ls)")
    (auto simp: next_line_def split: list.splits dest!: consume_no_newline_length)

declare parse_hunk_contents.simps [simp del]

definition is_decimal :: "string \<Rightarrow> bool" where
  "is_decimal v = (v \<noteq> [] \<and> list_all is_digit v)"

definition parse_hunk_range :: "string \<Rightarrow> char \<Rightarrow> ToolError + HunkRange" where
  "parse_hunk_range rng p =
     res_bind (ok_or (strip_prefix [p] rng) InvalidInvocation) (\<lambda>r.
       let (start, cnt) = (case split_once CHR '','' r of None \<Rightarrow> (r, ''1'') | Some sc \<Rightarrow> sc) in
       if \<not> is_decimal start \<or> \<not> is_decimal cnt then Inl InvalidInvocation
       else
         res_bind (ok_or (parse_uint u64_bound start) InvalidInvocation) (\<lambda>s.
         res_bind (ok_or (parse_uint u64_bound cnt) InvalidInvocation) (\<lambda>c.
         if s = 0 \<and> c \<noteq> 0 then Inl InvalidInvocation
         else
           res_bind (if c = 0 then Inr s else sub s 1) (\<lambda>index.
           res_bind (add index c) (\<lambda>e.
           res_bind (add s c) (\<lambda>_.
           Inr \<lparr>hr_index = index, hr_count = c, hr_end = e\<rparr>))))))"

definition parse_hunk_header :: "string \<Rightarrow> ToolError + (HunkRange \<times> HunkRange)" where
  "parse_hunk_header header =
     res_bind (ok_or (strip_prefix ''@@ '' header) InvalidInvocation) (\<lambda>h.
     res_bind (ok_or (find_sub '' @@'' h) InvalidInvocation) (\<lambda>closing.
       let ranges = take closing h; suff = drop (closing + 3) h in
       if CHR 0x00 \<in> set suff \<or> (suff \<noteq> [] \<and> \<not> starts_with suff '' '') then Inl InvalidInvocation
       else
         res_bind (ok_or (split_once CHR '' '' ranges) InvalidInvocation) (\<lambda>(old, new).
         if CHR '' '' \<in> set old \<or> CHR '' '' \<in> set new then Inl InvalidInvocation
         else
           res_bind (parse_hunk_range old CHR ''-'') (\<lambda>o'.
           res_bind (parse_hunk_range new CHR ''+'') (\<lambda>n'. Inr (o', n'))))))"

section \<open>Header paths\<close>

definition is_octal :: "char \<Rightarrow> bool" where
  "is_octal c = byte_in 48 55 c"

text \<open>Up to three octal digits: the value read and the bytes left.\<close>

fun octal_run :: "nat \<Rightarrow> nat \<Rightarrow> string \<Rightarrow> nat \<times> string" where
  "octal_run 0 v s = (v, s)"
| "octal_run (Suc n) v [] = (v, [])"
| "octal_run (Suc n) v (c # s) =
     (if is_octal c then octal_run n (v * 8 + (of_char c - 48)) s else (v, c # s))"

definition simple_escape :: "char \<Rightarrow> char option" where
  "simple_escape c =
     (if c = CHR 0x5C \<or> c = CHR 0x22 then Some c
      else if c = CHR ''a'' then Some CHR 0x07
      else if c = CHR ''b'' then Some CHR 0x08
      else if c = CHR ''t'' then Some CHR 0x09
      else if c = CHR ''n'' then Some LF
      else if c = CHR ''v'' then Some CHR 0x0B
      else if c = CHR ''f'' then Some CHR 0x0C
      else if c = CHR ''r'' then Some CR
      else None)"

lemma octal_run_length: "octal_run n v s = (w, s') \<Longrightarrow> length s' \<le> length s"
  by (induction n v s rule: octal_run.induct) (auto split: if_splits)

text \<open>The loop of \<^verbatim>\<open>decode_quoted_path\<close> after the opening quote: the decoded bytes and what
  follows the closing quote.\<close>

function decode_quoted :: "string \<Rightarrow> string \<Rightarrow> ToolError + (string \<times> string)" where
  "decode_quoted decoded [] = Inl InvalidInvocation"
| "decode_quoted decoded (c # s) =
     (if c = CHR 0x22 then Inr (decoded, s)
      else if c = CHR 0x5C then
        (case s of
           [] \<Rightarrow> Inl InvalidInvocation
         | e # s' \<Rightarrow>
             (case simple_escape e of
                Some x \<Rightarrow> decode_quoted (decoded @ [x]) s'
              | None \<Rightarrow>
                  if is_octal e
                  then (case octal_run 3 0 s of
                          (v, s'') \<Rightarrow> if v < 256 then decode_quoted (decoded @ [char_of v]) s''
                                      else Inl InvalidInvocation)
                  else Inl InvalidInvocation))
      else decode_quoted (decoded @ [c]) s)"
  by pat_completeness auto
termination
  by (relation "measure (\<lambda>(_, s). length s)") (auto dest!: octal_run_length[OF sym])

declare decode_quoted.simps [simp del]

definition decode_quoted_path :: "string \<Rightarrow> ToolError + string" where
  "decode_quoted_path value =
     res_bind (decode_quoted [] (tl value)) (\<lambda>(path, rest).
       if rest \<noteq> [] \<and> hd rest \<noteq> CHR 0x09 then Inl InvalidInvocation
       else if \<not> utf8_valid path then Inl InvalidInvocation
       else if CHR 0x00 \<in> set path then Inl InvalidInvocation
       else Inr path)"

definition parse_header_path :: "string \<Rightarrow> string \<Rightarrow> ToolError + string" where
  "parse_header_path line pfx =
     res_bind (ok_or (strip_prefix pfx (strip_transport_ending line)) InvalidInvocation) (\<lambda>value.
     res_bind (if starts_with value [CHR 0x22] then decode_quoted_path value
               else Inr (case split_once CHR 0x09 value of None \<Rightarrow> value | Some (p, _) \<Rightarrow> p)) (\<lambda>path.
     if path = [] \<or> CHR 0x00 \<in> set path then Inl InvalidInvocation else Inr path))"

text \<open>\<^verbatim>\<open>Path::components\<close> on Unix yields a parent component for each \<open>..\<close> between slashes and a
  root component for a leading slash, which is also what makes a path absolute.\<close>

definition validate_header_path :: "string \<Rightarrow> string \<Rightarrow> string \<Rightarrow> ToolError + unit" where
  "validate_header_path header tool_path pfx =
     (let candidate = (if header = tool_path then header
                       else case strip_prefix pfx header of None \<Rightarrow> header | Some r \<Rightarrow> r)
      in if candidate \<noteq> tool_path \<or> candidate = [] \<or> CHR 0x00 \<in> set candidate
            \<or> starts_with candidate ''/''
            \<or> ''..'' \<in> set (split_on CHR ''/'' candidate)
         then Inl InvalidInvocation else Inr ())"

section \<open>The patch\<close>

lemma parse_hunk_contents_length:
  "parse_hunk_contents eo en oc nc acc ls = Inr (cs, ls') \<Longrightarrow> length ls' \<le> length ls"
proof (induction eo en oc nc acc ls rule: parse_hunk_contents.induct)
  case (1 eo en oc nc acc ls)
  show ?case
  proof (cases "oc < eo \<or> nc < en")
    case True
    with "1.prems" obtain raw ls1 c old' new' c' ls2
      where n: "next_line ls = Inr (raw, ls1)" and line: "strip_transport_ending raw \<noteq> NO_NEWLINE_AT_END"
        and c: "parse_patch_content (strip_transport_ending raw) = Inr c"
        and a: "add oc (fst (delta (pc_kind c))) = Inr old'" "add nc (snd (delta (pc_kind c))) = Inr new'"
        and le: "\<not> (eo < old' \<or> en < new')" and k: "consume_no_newline ls1 c = Inr (c', ls2)"
        and r: "parse_hunk_contents eo en old' new' (acc @ [c']) ls2 = Inr (cs, ls')"
      by (auto simp: parse_hunk_contents.simps[of eo en oc nc acc ls] Let_def split: if_splits)
    from "1.IH"[OF True n refl refl line c a le k refl r] consume_no_newline_length[OF k] n show ?thesis
      by (auto simp: next_line_def split: list.splits)
  next
    case False
    with "1.prems" show ?thesis
      by (auto simp: parse_hunk_contents.simps[of eo en oc nc acc ls] split: if_splits)
  qed
qed

function unified_loop ::
  "nat \<Rightarrow> nat \<Rightarrow> ResolvedHunk list \<Rightarrow> string \<Rightarrow> string list \<Rightarrow> ToolError + ResolvedHunk list" where
  "unified_loop prev_old prev_new resolved next_hunk ls =
     res_bind (parse_hunk_header (strip_transport_ending next_hunk)) (\<lambda>(old, new).
       if hr_index old < prev_old \<or> hr_index new < prev_new then Inl InvalidInvocation
       else
         res_bind (parse_hunk_contents (hr_count old) (hr_count new) 0 0 [] ls) (\<lambda>(cs, ls1).
           let resolved' = resolved @ [\<lparr>rh_old = old, rh_new = new, rh_contents = cs\<rparr>] in
           (case ls1 of
              [] \<Rightarrow> Inr resolved'
            | line # ls2 \<Rightarrow>
                if starts_with (strip_transport_ending line) ''@@ ''
                then unified_loop (hr_end old) (hr_end new) resolved' line ls2
                else if strip_transport_ending line = []
                then res_bind (finish_lines ls2) (\<lambda>_. Inr resolved')
                else Inl InvalidInvocation)))"
  by pat_completeness auto
termination
  by (relation "measure (\<lambda>(_, _, _, _, ls). length ls)") (auto dest!: parse_hunk_contents_length)

declare unified_loop.simps [simp del]

definition skip_git_lines :: "string \<Rightarrow> string list \<Rightarrow> ToolError + (string \<times> string list)" where
  "skip_git_lines first ls =
     (if starts_with first ''diff --git '' \<or> starts_with first ''index ''
      then
        res_bind (if starts_with first ''diff --git '' then next_line ls else Inr (first, ls)) (\<lambda>(f1, ls1).
        res_bind (if starts_with f1 ''index '' then next_line ls1 else Inr (f1, ls1)) (\<lambda>(f2, ls2).
        if \<not> starts_with f2 ''--- '' then Inl InvalidInvocation else Inr (f2, ls2)))
      else Inr (first, ls))"

definition parse_unified_patch :: "string \<Rightarrow> string \<Rightarrow> ToolError + ResolvedHunk list" where
  "parse_unified_patch path patch =
     res_bind (next_line (patch_lines patch)) (\<lambda>(f0, ls0).
     res_bind (skip_git_lines f0 ls0) (\<lambda>(first, ls).
     res_bind
       (if starts_with (strip_transport_ending first) ''--- ''
        then
          res_bind (parse_header_path first ''--- '') (\<lambda>original.
          res_bind (next_line ls) (\<lambda>(second, ls1).
          res_bind (parse_header_path second ''+++ '') (\<lambda>modified.
          res_bind (validate_header_path original path ''a/'') (\<lambda>_.
          res_bind (validate_header_path modified path ''b/'') (\<lambda>_.
          next_line ls1)))))
        else Inr (first, ls)) (\<lambda>(next_hunk, ls2).
     unified_loop 0 0 [] next_hunk ls2)))"

section \<open>Well-formed hunks\<close>

definition old_count :: "PatchContent list \<Rightarrow> nat" where
  "old_count cs = sum_list (map (\<lambda>c. fst (delta (pc_kind c))) cs)"

definition new_count :: "PatchContent list \<Rightarrow> nat" where
  "new_count cs = sum_list (map (\<lambda>c. snd (delta (pc_kind c))) cs)"

definition range_ok :: "HunkRange \<Rightarrow> nat \<Rightarrow> bool" where
  "range_ok r n = (hr_count r = n \<and> hr_end r = hr_index r + n \<and> hr_end r < u64_bound)"

definition hunk_ok :: "ResolvedHunk \<Rightarrow> bool" where
  "hunk_ok h =
     (rh_contents h \<noteq> [] \<and> range_ok (rh_old h) (old_count (rh_contents h))
      \<and> range_ok (rh_new h) (new_count (rh_contents h)))"

fun ordered_hunks :: "nat \<Rightarrow> nat \<Rightarrow> ResolvedHunk list \<Rightarrow> bool" where
  "ordered_hunks prev_old prev_new [] = True"
| "ordered_hunks prev_old prev_new (h # hs) =
     (prev_old \<le> hr_index (rh_old h) \<and> prev_new \<le> hr_index (rh_new h)
      \<and> ordered_hunks (hr_end (rh_old h)) (hr_end (rh_new h)) hs)"

lemma count_simps [simp]:
  "old_count [] = 0" "new_count [] = 0"
  "old_count (cs @ [c]) = old_count cs + fst (delta (pc_kind c))"
  "new_count (cs @ [c]) = new_count cs + snd (delta (pc_kind c))"
  "old_count (c # cs) = fst (delta (pc_kind c)) + old_count cs"
  "new_count (c # cs) = snd (delta (pc_kind c)) + new_count cs"
  by (simp_all add: old_count_def new_count_def)

lemma mark_no_newline_kind: "mark_no_newline c = Inr c' \<Longrightarrow> pc_kind c' = pc_kind c \<and> pc_text c' = pc_text c"
  by (auto simp: mark_no_newline_def split: if_splits PatchLineKind.splits)

lemma consume_no_newline_kind:
  "consume_no_newline ls c = Inr (c', ls') \<Longrightarrow> pc_kind c' = pc_kind c \<and> pc_text c' = pc_text c"
  by (auto simp: consume_no_newline_def split: if_splits dest: mark_no_newline_kind)

lemma add_Inr [simp]: "add a b = Inr c \<longleftrightarrow> c = a + b \<and> a + b < u64_bound"
  by (auto simp: add_def)

lemma add_if [simp]: "a + b < u64_bound \<Longrightarrow> add a b = Inr (a + b)"
  by simp

lemma sub_if [simp]: "b \<le> a \<Longrightarrow> sub a b = Inr (a - b)"
  by (simp add: sub_def checked_sub_def)

lemma sub_Inr [simp]: "sub a b = Inr c \<longleftrightarrow> b \<le> a \<and> c = a - b"
  by (auto simp: sub_def)

lemma parse_hunk_contents_counts:
  "parse_hunk_contents eo en (old_count acc) (new_count acc) acc ls = Inr (cs, ls') \<Longrightarrow>
   old_count acc \<le> eo \<Longrightarrow> new_count acc \<le> en \<Longrightarrow> cs \<noteq> [] \<and> old_count cs = eo \<and> new_count cs = en"
proof (induction eo en "old_count acc" "new_count acc" acc ls rule: parse_hunk_contents.induct)
  case (1 eo en acc ls)
  show ?case
  proof (cases "old_count acc < eo \<or> new_count acc < en")
    case True
    with "1.prems" obtain raw ls1 c old' new' c' ls2
      where n: "next_line ls = Inr (raw, ls1)" and line: "strip_transport_ending raw \<noteq> NO_NEWLINE_AT_END"
        and c: "parse_patch_content (strip_transport_ending raw) = Inr c"
        and a: "add (old_count acc) (fst (delta (pc_kind c))) = Inr old'"
          "add (new_count acc) (snd (delta (pc_kind c))) = Inr new'"
        and le: "\<not> (eo < old' \<or> en < new')" and k: "consume_no_newline ls1 c = Inr (c', ls2)"
        and r: "parse_hunk_contents eo en old' new' (acc @ [c']) ls2 = Inr (cs, ls')"
      by (auto simp: parse_hunk_contents.simps[of eo en "old_count acc" "new_count acc" acc ls] Let_def
          split: if_splits)
    have o: "old' = old_count (acc @ [c'])" and w: "new' = new_count (acc @ [c'])"
      using a consume_no_newline_kind[OF k] by simp_all
    from "1.hyps"[OF True n refl refl line c a(1)[unfolded o] a(2)[unfolded w] le[unfolded o w] k refl
        r[unfolded o w]] le[unfolded o w] show ?thesis
      by linarith
  next
    case False
    with "1.prems" show ?thesis
      by (auto simp: parse_hunk_contents.simps[of eo en "old_count acc" "new_count acc" acc ls] split: if_splits)
  qed
qed

lemma parse_hunk_range_ok: "parse_hunk_range t c = Inr r \<Longrightarrow> range_ok r (hr_count r)"
  by (auto simp: parse_hunk_range_def range_ok_def Let_def split: if_splits prod.splits)

lemma parse_hunk_header_ok:
  assumes "parse_hunk_header t = Inr (old, new)"
  shows "range_ok old (hr_count old) \<and> range_ok new (hr_count new)"
proof -
  from assms obtain a b where "parse_hunk_range a CHR ''-'' = Inr old" "parse_hunk_range b CHR ''+'' = Inr new"
    by (auto simp: parse_hunk_header_def Let_def split: if_splits prod.splits)
  then show ?thesis using parse_hunk_range_ok by blast
qed

lemma unified_loop_ok:
  assumes "unified_loop po pn acc h ls = Inr hunks"
  shows "\<exists>hs. hunks = acc @ hs \<and> hs \<noteq> [] \<and> list_all hunk_ok hs \<and> ordered_hunks po pn hs"
  using assms
proof (induction po pn acc h ls rule: unified_loop.induct)
  case (1 po pn acc h ls)
  from "1.prems" obtain old new cs ls1 where
      hd: "parse_hunk_header (strip_transport_ending h) = Inr (old, new)"
    and ord: "\<not> (hr_index old < po \<or> hr_index new < pn)"
    and c: "parse_hunk_contents (hr_count old) (hr_count new) 0 0 [] ls = Inr (cs, ls1)"
    and r: "(case ls1 of
              [] \<Rightarrow> Inr (acc @ [\<lparr>rh_old = old, rh_new = new, rh_contents = cs\<rparr>])
            | line # ls2 \<Rightarrow>
                if starts_with (strip_transport_ending line) ''@@ ''
                then unified_loop (hr_end old) (hr_end new)
                       (acc @ [\<lparr>rh_old = old, rh_new = new, rh_contents = cs\<rparr>]) line ls2
                else if strip_transport_ending line = []
                then res_bind (finish_lines ls2) (\<lambda>_. Inr (acc @ [\<lparr>rh_old = old, rh_new = new, rh_contents = cs\<rparr>]))
                else Inl InvalidInvocation) = Inr hunks"
    by (auto simp: unified_loop.simps[of po pn acc h ls] Let_def split: if_splits)
  let ?h = "\<lparr>rh_old = old, rh_new = new, rh_contents = cs\<rparr>"
  from parse_hunk_contents_counts[of _ _ "[]"] c parse_hunk_header_ok[OF hd] have ok: "hunk_ok ?h"
    by (auto simp: hunk_ok_def)
  show ?case
  proof (cases "hunks = acc @ [?h]")
    case True
    with ok ord show ?thesis by auto
  next
    case False
    with r obtain line ls2 where l: "ls1 = line # ls2" "starts_with (strip_transport_ending line) ''@@ ''"
      and u: "unified_loop (hr_end old) (hr_end new) (acc @ [?h]) line ls2 = Inr hunks"
      by (auto split: list.splits if_splits)
    from "1.IH"[OF hd refl ord c refl refl l u] obtain hs
      where "hunks = (acc @ [?h]) @ hs" "list_all hunk_ok hs" "ordered_hunks (hr_end old) (hr_end new) hs"
      by blast
    with ok ord show ?thesis by auto
  qed
qed

lemma parse_unified_patch_ok:
  assumes "parse_unified_patch path patch = Inr hunks"
  shows "hunks \<noteq> [] \<and> list_all hunk_ok hunks \<and> ordered_hunks 0 0 hunks"
proof -
  from assms obtain h ls where "unified_loop 0 0 [] h ls = Inr hunks"
    by (auto simp: parse_unified_patch_def split: prod.splits)
  then show ?thesis using unified_loop_ok by fastforce
qed

section \<open>Printing and reading back\<close>

text \<open>A unified diff of the hunks, with the counts always written.\<close>

definition show_range :: "char \<Rightarrow> HunkRange \<Rightarrow> string" where
  "show_range c r =
     c # show_nat (if hr_count r = 0 then hr_index r else hr_index r + 1) @ '','' @ show_nat (hr_count r)"

definition show_header :: "ResolvedHunk \<Rightarrow> string" where
  "show_header h =
     ''@@ '' @ show_range CHR ''-'' (rh_old h) @ '' '' @ show_range CHR ''+'' (rh_new h) @ '' @@''"

fun kind_char :: "PatchLineKind \<Rightarrow> char" where
  "kind_char Context = CHR '' ''"
| "kind_char Remove = CHR ''-''"
| "kind_char Add = CHR ''+''"

definition content_lines :: "PatchContent \<Rightarrow> string list" where
  "content_lines c =
     (kind_char (pc_kind c) # pc_text c)
     # (if old_no_newline c \<or> new_no_newline c then [NO_NEWLINE_AT_END] else [])"

definition hunk_lines :: "ResolvedHunk \<Rightarrow> string list" where
  "hunk_lines h = show_header h # concat (map content_lines (rh_contents h))"

definition print_hunks :: "ResolvedHunk list \<Rightarrow> string" where
  "print_hunks hs = concat (map (\<lambda>l. l @ [LF]) (concat (map hunk_lines hs)))"

text \<open>What a unified diff can express: whole lines, and the no-newline marker as the format
  has it.\<close>

definition plain_text :: "string \<Rightarrow> bool" where
  "plain_text t = (LF \<notin> set t \<and> (t = [] \<or> last t \<noteq> CR))"

definition plain_content :: "PatchContent \<Rightarrow> bool" where
  "plain_content c =
     (plain_text (pc_text c) \<and> context_new_ending c = None
      \<and> (case pc_kind c of
           Context \<Rightarrow> old_no_newline c = new_no_newline c
         | Remove \<Rightarrow> \<not> new_no_newline c
         | Add \<Rightarrow> \<not> old_no_newline c))"

definition plain_hunk :: "ResolvedHunk \<Rightarrow> bool" where
  "plain_hunk h = (hunk_ok h \<and> list_all plain_content (rh_contents h)
     \<and> hr_end (rh_old h) + 1 < u64_bound \<and> hr_end (rh_new h) + 1 < u64_bound)"

abbreviation (input) nl :: "string \<Rightarrow> string" where
  "nl l \<equiv> l @ [LF]"

lemma strip_nl: "l = [] \<or> last l \<noteq> CR \<Longrightarrow> strip_transport_ending (l @ [LF]) = l"
  by (cases l rule: rev_cases) (auto simp: strip_transport_ending_def split: option.splits)

lemma split_inclusive_lines:
  "\<forall>l\<in>set ls. c \<notin> set l \<Longrightarrow> split_inclusive c (concat (map (\<lambda>l. l @ [c]) ls)) = map (\<lambda>l. l @ [c]) ls"
  by (induction ls) (auto simp: split_inclusive_line)

lemma find_sub_skip:
  "c \<notin> set a \<Longrightarrow> find_sub (c # q) (a @ s) = map_option (\<lambda>i. i + length a) (find_sub (c # q) s)"
proof (induction a)
  case (Cons x a)
  then have "\<not> prefix (c # q) (x # a @ s)" by auto
  with Cons show ?case by (auto simp: option.map_comp comp_def)
qed (simp add: option.map_ident)

lemma digits_no_char: "list_all is_digit s \<Longrightarrow> \<not> is_digit c \<Longrightarrow> c \<notin> set s"
  by (auto simp: list_all_iff)

lemma not_digits [simp]:
  "\<not> is_digit CHR '' ''" "\<not> is_digit CHR '',''" "\<not> is_digit LF" "\<not> is_digit CR" "\<not> is_digit CHR ''@''"
  by (simp_all add: is_digit_def byte_in_def)

lemma show_range_chars:
  assumes "\<not> is_digit x" "x \<noteq> c" "x \<noteq> CHR '',''"
  shows "x \<notin> set (show_range c r)"
  using assms digits_no_char[OF show_nat_digits assms(1)] by (auto simp: show_range_def)

lemma range_eta: "range_ok r n \<Longrightarrow> \<lparr>hr_index = hr_index r, hr_count = n, hr_end = hr_index r + n\<rparr> = r"
  by (cases r) (simp add: range_ok_def)

lemma parse_show_range:
  assumes ok: "range_ok r (hr_count r)" and bound: "hr_end r + 1 < u64_bound"
  shows "parse_hunk_range (show_range c r) c = Inr r"
proof -
  define s where "s = (if hr_count r = 0 then hr_index r else hr_index r + 1)"
  define t where "t = show_nat s @ '','' @ show_nat (hr_count r)"
  have "show_range c r = [c] @ t" by (simp add: show_range_def s_def t_def)
  then have p: "strip_prefix [c] (show_range c r) = Some t" by simp
  have sp: "split_once CHR '','' t = Some (show_nat s, show_nat (hr_count r))"
    using digits_no_char[OF show_nat_digits, of "CHR '',''" s] by (simp add: t_def split_once_Some)
  have d: "is_decimal (show_nat s)" "is_decimal (show_nat (hr_count r))" by (simp_all add: is_decimal_def)
  have b: "s < u64_bound" "hr_count r < u64_bound" "s + hr_count r < u64_bound" "hr_index r + hr_count r < u64_bound"
    using ok bound by (auto simp: range_ok_def s_def)
  have i: "(if hr_count r = 0 then Inr s else sub s 1) = Inr (hr_index r)"
    by (auto simp: s_def sub_def checked_sub_def)
  have "add (hr_index r) (hr_count r) = Inr (hr_index r + hr_count r)" "add s (hr_count r) = Inr (s + hr_count r)"
    using b by auto
  with p sp d i parse_show_nat[OF b(1)] parse_show_nat[OF b(2)] range_eta[OF ok] show ?thesis
    unfolding parse_hunk_range_def by (auto simp: s_def split: if_splits)
qed

lemma show_header_no: "LF \<notin> set (show_header h)"
  using show_range_chars[of LF "CHR ''-''"] show_range_chars[of LF "CHR ''+''"] by (auto simp: show_header_def)

lemma last_show_header [simp]: "last (show_header h) = CHR ''@''" "show_header h \<noteq> []"
  by (simp_all add: show_header_def)

lemma parse_show_header:
  assumes "hunk_ok h" and "hr_end (rh_old h) + 1 < u64_bound" and "hr_end (rh_new h) + 1 < u64_bound"
  shows "parse_hunk_header (show_header h) = Inr (rh_old h, rh_new h)"
proof -
  let ?o = "show_range CHR ''-'' (rh_old h)" and ?n = "show_range CHR ''+'' (rh_new h)"
  have o: "CHR '' '' \<notin> set ?o" and n: "CHR '' '' \<notin> set ?n" by (rule show_range_chars; simp)+
  have n1: "\<not> prefix ''@@'' (?n @ '' @@'')" by (simp add: show_range_def)
  have "find_sub '' @@'' (?o @ '' '' @ ?n @ '' @@'')
      = map_option (\<lambda>i. i + length ?o) (find_sub '' @@'' ('' '' @ ?n @ '' @@''))"
    using find_sub_skip[OF o, of "''@@''" "'' '' @ ?n @ '' @@''"] by simp
  also have "find_sub '' @@'' ('' '' @ ?n @ '' @@'') = map_option Suc (find_sub '' @@'' (?n @ '' @@''))"
    using n1 by simp
  also have "find_sub '' @@'' (?n @ '' @@'') = Some (length ?n)"
    using find_sub_skip[OF n, of "''@@''" "'' @@''"] by simp
  finally have f: "find_sub '' @@'' (?o @ '' '' @ ?n @ '' @@'') = Some (length (?o @ '' '' @ ?n))" by simp
  have "split_once CHR '' '' (?o @ '' '' @ ?n) = Some (?o, ?n)"
    using o by (simp add: split_once_Some)
  moreover have "take (length (?o @ '' '' @ ?n)) (?o @ '' '' @ ?n @ '' @@'') = ?o @ '' '' @ ?n"
    "drop (length (?o @ '' '' @ ?n) + 3) (?o @ '' '' @ ?n @ '' @@'') = []" by simp_all
  moreover have "strip_prefix ''@@ '' (show_header h) = Some (?o @ '' '' @ ?n @ '' @@'')"
    by (simp add: show_header_def)
  moreover have "parse_hunk_range ?o CHR ''-'' = Inr (rh_old h)" "parse_hunk_range ?n CHR ''+'' = Inr (rh_new h)"
    using assms by (auto simp: hunk_ok_def range_ok_def intro!: parse_show_range)
  ultimately show ?thesis
    using f o n unfolding parse_hunk_header_def by (simp only: ok_or_simps res_bind_Inr Let_def) simp
qed

lemma plain_line:
  assumes "plain_content c"
  shows "strip_transport_ending (kind_char (pc_kind c) # pc_text c @ [LF]) = kind_char (pc_kind c) # pc_text c"
  using strip_nl[of "kind_char (pc_kind c) # pc_text c"] assms
  by (cases "pc_kind c") (auto simp: plain_content_def plain_text_def)

lemma parse_content_line [simp]: "parse_patch_content (kind_char k # t) = Inr (content k t)"
  by (cases k) (simp_all add: parse_patch_content_def)

lemma strip_marker [simp]: "strip_transport_ending (nl NO_NEWLINE_AT_END) = NO_NEWLINE_AT_END"
  by (rule strip_nl) (simp add: NO_NEWLINE_AT_END_def)

lemma kind_char_not_marker [simp]: "kind_char k # t \<noteq> NO_NEWLINE_AT_END" "NO_NEWLINE_AT_END \<noteq> kind_char k # t"
  by (cases k; simp add: NO_NEWLINE_AT_END_def)+

lemma at_marker_contents:
  assumes "list_all plain_content cs" and "\<not> at_no_newline rest"
  shows "\<not> at_no_newline (map nl (concat (map content_lines cs)) @ rest)"
  using assms by (cases cs) (auto simp: content_lines_def at_no_newline_def plain_line)

lemma consume_flags:
  assumes c: "plain_content c" and rest: "\<not> at_no_newline rest"
  shows "consume_no_newline (map nl (tl (content_lines c)) @ rest) (content (pc_kind c) (pc_text c)) = Inr (c, rest)"
proof (cases "old_no_newline c \<or> new_no_newline c")
  case True
  with c have "mark_no_newline (content (pc_kind c) (pc_text c)) = Inr c"
    by (cases c) (auto simp: mark_no_newline_def plain_content_def content_def split: PatchLineKind.splits)
  with True rest show ?thesis
    by (simp add: content_lines_def consume_no_newline_def at_no_newline_def)
next
  case False
  with c have "content (pc_kind c) (pc_text c) = c"
    by (cases c) (simp add: content_def plain_content_def)
  with False rest show ?thesis by (simp add: content_lines_def consume_no_newline_def)
qed

lemma delta_pos: "0 < fst (delta k) \<or> 0 < snd (delta k)"
  by (cases k) simp_all

lemma parse_printed_contents:
  assumes "list_all plain_content cs" and "\<not> at_no_newline rest" and "acc @ cs \<noteq> []"
    and "eo = old_count acc + old_count cs" and "en = new_count acc + new_count cs"
    and "eo < u64_bound" and "en < u64_bound"
  shows "parse_hunk_contents eo en (old_count acc) (new_count acc) acc
           (map nl (concat (map content_lines cs)) @ rest) = Inr (acc @ cs, rest)"
  using assms
proof (induction cs arbitrary: acc)
  case Nil
  then show ?case by (simp add: parse_hunk_contents.simps)
next
  case (Cons c cs)
  let ?ls = "map nl (concat (map content_lines cs)) @ rest"
  from Cons.prems have c: "plain_content c" and lt: "old_count acc < eo \<or> new_count acc < en"
    using delta_pos[of "pc_kind c"] by auto
  have cl: "consume_no_newline (map nl (tl (content_lines c)) @ ?ls) (content (pc_kind c) (pc_text c)) = Inr (c, ?ls)"
    using Cons.prems(1,2) by (intro consume_flags at_marker_contents) auto
  have ih: "parse_hunk_contents eo en (old_count (acc @ [c])) (new_count (acc @ [c])) (acc @ [c]) ?ls
      = Inr ((acc @ [c]) @ cs, rest)"
    using Cons.prems by (intro Cons.IH) (simp_all del: append_assoc)
  have lines: "map nl (concat (map content_lines (c # cs))) @ rest
      = nl (kind_char (pc_kind c) # pc_text c) # map nl (tl (content_lines c)) @ ?ls"
    by (simp add: content_lines_def)
  have kind: "pc_kind (content (pc_kind c) (pc_text c)) = pc_kind c" by (simp add: content_def)
  have "old_count acc + fst (delta (pc_kind c)) \<le> eo" "new_count acc + snd (delta (pc_kind c)) \<le> en"
    using Cons.prems by simp_all
  with lt ih cl Cons.prems(6,7) show ?case
    unfolding lines by (subst parse_hunk_contents.simps) (simp add: next_line_def plain_line[OF c] kind Let_def)
qed

lemma content_lines_no_LF: "plain_content c \<Longrightarrow> l \<in> set (content_lines c) \<Longrightarrow> LF \<notin> set l"
  by (cases "pc_kind c")
    (auto simp: content_lines_def plain_content_def plain_text_def NO_NEWLINE_AT_END_def split: if_splits)

lemma hunk_lines_no_LF:
  "plain_hunk h \<Longrightarrow> l \<in> set (hunk_lines h) \<Longrightarrow> LF \<notin> set l"
  by (auto simp: hunk_lines_def plain_hunk_def list_all_iff show_header_no dest: content_lines_no_LF)

lemma strip_header [simp]: "strip_transport_ending (nl (show_header h)) = show_header h"
  by (rule strip_nl) simp

lemma header_starts: "prefix ''@@ '' (show_header h)"
  by (simp add: show_header_def)

lemma hunk_eta [simp]: "\<lparr>rh_old = rh_old h, rh_new = rh_new h, rh_contents = rh_contents h\<rparr> = h"
  by (cases h) simp

lemma parse_printed_hunks:
  assumes "list_all plain_hunk (h # hs)" and "ordered_hunks po pn (h # hs)"
  shows "unified_loop po pn acc (nl (show_header h))
           (map nl (concat (map content_lines (rh_contents h))) @ map nl (concat (map hunk_lines hs)))
         = Inr (acc @ h # hs)"
  using assms
proof (induction hs arbitrary: h po pn acc)
  case Nil
  then have h: "hunk_ok h" "list_all plain_content (rh_contents h)" by (auto simp: plain_hunk_def)
  have p: "parse_hunk_contents (hr_count (rh_old h)) (hr_count (rh_new h)) 0 0 []
      (map nl (concat (map content_lines (rh_contents h))) @ []) = Inr (rh_contents h, [])"
    using parse_printed_contents[of "rh_contents h" "[]" "[]"] h
    by (auto simp: hunk_ok_def range_ok_def at_no_newline_def)
  from Nil h p show ?case
    by (subst unified_loop.simps) (simp add: plain_hunk_def parse_show_header Let_def)
next
  case (Cons k hs)
  then have h: "hunk_ok h" "list_all plain_content (rh_contents h)" by (auto simp: plain_hunk_def)
  let ?rest = "map nl (concat (map hunk_lines (k # hs)))"
  have "\<not> at_no_newline ?rest"
    by (simp add: hunk_lines_def at_no_newline_def) (simp add: show_header_def NO_NEWLINE_AT_END_def)
  then have p: "parse_hunk_contents (hr_count (rh_old h)) (hr_count (rh_new h)) 0 0 []
      (map nl (concat (map content_lines (rh_contents h))) @ ?rest) = Inr (rh_contents h, ?rest)"
    using parse_printed_contents[of "rh_contents h" ?rest "[]"] h
    by (auto simp: hunk_ok_def range_ok_def)
  have r: "?rest = nl (show_header k) # (map nl (concat (map content_lines (rh_contents k))) @ map nl (concat (map hunk_lines hs)))"
    by (simp add: hunk_lines_def)
  have "unified_loop (hr_end (rh_old h)) (hr_end (rh_new h)) (acc @ [h]) (nl (show_header k))
      (map nl (concat (map content_lines (rh_contents k))) @ map nl (concat (map hunk_lines hs)))
      = Inr ((acc @ [h]) @ k # hs)"
    using Cons.prems by (intro Cons.IH) auto
  then show ?case
    using Cons.prems h p r
    by (subst unified_loop.simps) (simp add: plain_hunk_def parse_show_header Let_def header_starts)
qed

text \<open>C26: Every list of hunks that a unified diff can express is read back from its printed form:
  printing ordered, well-formed hunks as a unified diff and parsing the text gives exactly
  those hunks, whatever file path the patch is for.\<close>

theorem unified_patch_roundtrip:
  assumes "hunks \<noteq> []" and "list_all plain_hunk hunks" and "ordered_hunks 0 0 hunks"
  shows "parse_unified_patch path (print_hunks hunks) = Inr hunks"
proof -
  from assms obtain h hs where hunks: "hunks = h # hs" by (cases hunks) auto
  have "\<forall>l\<in>set (concat (map hunk_lines hunks)). LF \<notin> set l"
    using assms(2) by (auto simp: list_all_iff dest: hunk_lines_no_LF)
  then have "patch_lines (print_hunks hunks) = map nl (concat (map hunk_lines hunks))"
    unfolding patch_lines_def print_hunks_def by (rule split_inclusive_lines)
  then have "patch_lines (print_hunks hunks) = nl (show_header h) #
      (map nl (concat (map content_lines (rh_contents h))) @ map nl (concat (map hunk_lines hs)))"
    by (simp add: hunks hunk_lines_def)
  moreover have "\<not> prefix ''diff --git '' (nl (show_header h))" "\<not> prefix ''index '' (nl (show_header h))"
    "\<not> prefix ''--- '' (show_header h)"
    by (simp_all add: show_header_def)
  ultimately show ?thesis
    using parse_printed_hunks[of h hs 0 0 "[]"] assms
    by (simp add: parse_unified_patch_def next_line_def skip_git_lines_def hunks)
qed

theorem unified_patch_roundtrip_witness:
  "parse_unified_patch ''f.txt'' (print_hunks [sample_hunk]) = Inr [sample_hunk]"
  by (rule unified_patch_roundtrip)
    (simp_all add: sample_hunk_def plain_hunk_def hunk_ok_def range_ok_def plain_content_def plain_text_def
      u64_bound_def)

section \<open>Quoted paths\<close>

text \<open>How Git quotes a path: backslash and quote escaped, control and non-ASCII bytes as three
  octal digits.\<close>

definition octal_char :: "nat \<Rightarrow> char" where
  "octal_char d = char_of (48 + d)"

definition quote_byte :: "char \<Rightarrow> string" where
  "quote_byte c =
     (let v = (of_char c :: nat) in
      if c = CHR 0x5C \<or> c = CHR 0x22 then [CHR 0x5C, c]
      else if v < 32 \<or> 127 \<le> v
      then [CHR 0x5C, octal_char (v div 64), octal_char (v div 8 mod 8), octal_char (v mod 8)]
      else [c])"

definition quote_path :: "string \<Rightarrow> string" where
  "quote_path t = CHR 0x22 # concat (map quote_byte t) @ [CHR 0x22]"

lemma of_octal_char [simp]: "d < 8 \<Longrightarrow> (of_char (octal_char d) :: nat) = 48 + d"
  by (simp add: octal_char_def)

lemma octal_char_octal: "d < 8 \<Longrightarrow> is_octal (octal_char d)"
  by (simp add: is_octal_def byte_in_def)

lemma octal_char_not_escape: "d < 8 \<Longrightarrow> simple_escape (octal_char d) = None"
proof -
  assume "d < 8"
  then have "octal_char d \<noteq> c" if "(of_char c :: nat) < 48 \<or> 56 \<le> (of_char c :: nat)" for c
    using that of_octal_char[of d] by auto
  then show ?thesis by (simp add: simple_escape_def)
qed

lemma octal_digits: "v div 64 * 64 + v div 8 mod 8 * 8 + v mod 8 = (v :: nat)"
proof -
  have "v div 64 = v div 8 div 8" by (simp add: div_mult2_eq[symmetric])
  then show ?thesis using div_mult_mod_eq[of v 8] div_mult_mod_eq[of "v div 8" 8] by linarith
qed

lemma octal_run_digits:
  assumes "v < 256"
  shows "octal_run 3 0 (octal_char (v div 64) # octal_char (v div 8 mod 8) # octal_char (v mod 8) # s) = (v, s)"
proof -
  have d: "v div 64 < 8" "v div 8 mod 8 < 8" "v mod 8 < 8" using assms by auto
  show ?thesis
    using octal_digits[of v] assms d
    by (simp add: numeral_3_eq_3 octal_char_octal algebra_simps)
qed

lemma decode_quote_byte:
  "decode_quoted acc (quote_byte c @ s) = decode_quoted (acc @ [c]) s"
proof -
  have v: "(of_char c :: nat) < 256" by simp
  have "(of_char c :: nat) div 64 < 8" by (rule less_mult_imp_div_less) (rule less_trans[OF v], simp)
  then show ?thesis
    using octal_run_digits[OF v, of s] octal_char_octal octal_char_not_escape v
    by (auto simp: quote_byte_def Let_def decode_quoted.simps simple_escape_def[of c])
qed

lemma decode_quote_bytes:
  "decode_quoted acc (concat (map quote_byte t) @ CHR 0x22 # rest) = Inr (acc @ t, rest)"
  by (induction t arbitrary: acc) (simp_all add: decode_quote_byte decode_quoted.simps)

text \<open>A quoted path is decoded to the path Git quoted: every UTF-8 path without a NUL byte is
  read back from its quoted form, with whatever follows a tab ignored; and whatever is decoded
  is valid UTF-8 without NUL.\<close>

theorem quoted_path_roundtrip:
  "(utf8_valid t \<and> CHR 0x00 \<notin> set t \<longrightarrow>
      decode_quoted_path (quote_path t) = Inr t
      \<and> decode_quoted_path (quote_path t @ CHR 0x09 # time) = Inr t)
   \<and> (decode_quoted_path v = Inr p \<longrightarrow> utf8_valid p \<and> CHR 0x00 \<notin> set p)"
  using decode_quote_bytes[of "[]" t "[]"] decode_quote_bytes[of "[]" t "CHR 0x09 # time"]
  by (auto simp: decode_quoted_path_def quote_path_def split: if_splits)

theorem quoted_path_roundtrip_witness:
  "decode_quoted_path (quote_path ''a b'') = Inr ''a b''"
  using quoted_path_roundtrip[of "''a b''"] by (simp add: byte_in_def)

end
