(* ===== verification/Patch_Codex.thy ===== *)
theory Patch_Codex
  imports Patch_Unified
begin

text \<open>
  Codex patch envelopes: \<^verbatim>\<open>src/tools/apply_patch/codex.rs\<close>, and the entry point
  \<^verbatim>\<open>apply_single_file_patch\<close> that chooses between the two formats. A hunk without line numbers is
  located in the source by its context, with the failure-table search of Knuth, Morris and
  Pratt and a budget of line visits. The inner loop that follows the table is a partial
  function, so \<^const>\<open>None\<close> is the value of a search that does not end; it is proved that every
  search ends and finds what the naive search finds.
\<close>

datatype CodexLocator = RangeLocator HunkRange HunkRange | AnchorLocator "string option"

record CodexHunk =
  ch_locator :: CodexLocator
  ch_contents :: "PatchContent list"
  ch_end_of_file :: bool

definition CODEX_BEGIN_PATCH :: string where "CODEX_BEGIN_PATCH = ''*** Begin Patch''"
definition CODEX_END_PATCH :: string where "CODEX_END_PATCH = ''*** End Patch''"
definition CODEX_UPDATE_FILE :: string where "CODEX_UPDATE_FILE = ''*** Update File: ''"
definition CODEX_END_OF_FILE :: string where "CODEX_END_OF_FILE = ''*** End of File''"

definition MAX_CODEX_MATCH_VISITS :: nat where
  "MAX_CODEX_MATCH_VISITS = 4194304"

section \<open>Parsing\<close>

definition parse_codex_locator :: "string \<Rightarrow> ToolError + CodexLocator" where
  "parse_codex_locator line =
     res_bind (ok_or (strip_prefix ''@@'' line) InvalidInvocation) (\<lambda>rest.
       let header = trim_str rest in
       if header = [] then Inr (AnchorLocator None)
       else if starts_with header ''-''
         then res_bind (parse_hunk_header line) (\<lambda>(old, new). Inr (RangeLocator old new))
       else if CHR 0x00 \<in> set header then Inl InvalidInvocation
       else Inr (AnchorLocator (Some header)))"

text \<open>The inner loop: the contents of one hunk, and whether it ended with the end-of-file mark.\<close>

function codex_contents ::
  "PatchContent list \<Rightarrow> string list \<Rightarrow> ToolError + (PatchContent list \<times> bool \<times> string list)" where
  "codex_contents acc ls =
     res_bind (next_line ls) (\<lambda>(raw, ls1).
       let line = strip_transport_ending raw in
       if line = CODEX_END_PATCH \<or> starts_with line ''@@'' then Inr (acc, False, ls)
       else if line = CODEX_END_OF_FILE then Inr (acc, True, ls1)
       else if starts_with line ''***'' \<or> line = NO_NEWLINE_AT_END then Inl InvalidInvocation
       else
         res_bind (parse_patch_content line) (\<lambda>c.
         res_bind (consume_no_newline ls1 c) (\<lambda>(c', ls2).
         codex_contents (acc @ [c']) ls2)))"
  by pat_completeness auto
termination
  by (relation "measure (\<lambda>(_, ls). length ls)")
    (auto simp: next_line_def split: list.splits dest!: consume_no_newline_length)

declare codex_contents.simps [simp del]

lemma codex_contents_length:
  "codex_contents acc ls = Inr (cs, eof, ls') \<Longrightarrow> length ls' \<le> length ls"
proof (induction acc ls rule: codex_contents.induct)
  case (1 acc ls)
  from "1.prems" obtain raw ls1 where n: "next_line ls = Inr (raw, ls1)"
    by (auto simp: codex_contents.simps[of acc ls])
  then have len: "length ls = Suc (length ls1)" by (auto simp: next_line_def split: list.splits)
  let ?l = "strip_transport_ending raw"
  show ?case
  proof (cases "?l = CODEX_END_PATCH \<or> starts_with ?l ''@@'' \<or> ?l = CODEX_END_OF_FILE
      \<or> starts_with ?l ''***'' \<or> ?l = NO_NEWLINE_AT_END")
    case True
    with "1.prems" n len show ?thesis by (auto simp: codex_contents.simps[of acc ls] Let_def split: if_splits)
  next
    case False
    with "1.prems" n obtain c c' ls2 where c: "parse_patch_content ?l = Inr c"
      and k: "consume_no_newline ls1 c = Inr (c', ls2)" and r: "codex_contents (acc @ [c']) ls2 = Inr (cs, eof, ls')"
      by (auto simp: codex_contents.simps[of acc ls] Let_def split: if_splits)
    from "1.IH"[OF n refl refl _ _ _ c k refl r] False consume_no_newline_length[OF k] len show ?thesis
      by simp
  qed
qed

function codex_hunks :: "CodexHunk list \<Rightarrow> string list \<Rightarrow> ToolError + CodexHunk list" where
  "codex_hunks hunks ls =
     res_bind (next_line ls) (\<lambda>(raw, ls1).
       let line = strip_transport_ending raw in
       if line = CODEX_END_PATCH
       then if hunks = [] \<or> ch_contents (last hunks) = [] then Inl InvalidInvocation
            else res_bind (finish_lines ls1) (\<lambda>_. Inr hunks)
       else if \<not> starts_with line ''@@'' then Inl InvalidInvocation
       else
         res_bind (parse_codex_locator line) (\<lambda>locator.
         res_bind (codex_contents [] ls1) (\<lambda>(cs, eof, ls2).
         if cs = [] \<and> (eof \<or> \<not> (case locator of AnchorLocator (Some _) \<Rightarrow> True | _ \<Rightarrow> False))
         then Inl InvalidInvocation
         else codex_hunks (hunks @ [\<lparr>ch_locator = locator, ch_contents = cs, ch_end_of_file = eof\<rparr>]) ls2)))"
  by pat_completeness auto
termination
  by (relation "measure (\<lambda>(_, ls). length ls)")
    (auto simp: next_line_def split: list.splits dest!: codex_contents_length)

declare codex_hunks.simps [simp del]

definition parse_codex_patch :: "string \<Rightarrow> string \<Rightarrow> ToolError + CodexHunk list" where
  "parse_codex_patch path patch =
     res_bind (next_line (patch_lines patch)) (\<lambda>(begin_line, ls0).
       if strip_transport_ending begin_line \<noteq> CODEX_BEGIN_PATCH then Inl InvalidInvocation
       else
         res_bind (next_line ls0) (\<lambda>(update, ls1).
         res_bind (ok_or (strip_prefix CODEX_UPDATE_FILE (strip_transport_ending update)) InvalidInvocation)
           (\<lambda>header_path.
         res_bind (validate_header_path header_path path '''') (\<lambda>_.
         codex_hunks [] ls1))))"

section \<open>Searching\<close>

definition count_visit :: "nat \<Rightarrow> ToolError + nat" where
  "count_visit visits =
     res_bind (ok_or (checked_add visits 1) Internal) (\<lambda>v.
       if MAX_CODEX_MATCH_VISITS < v then Inl InvalidInvocation else Inr v)"

fun anchor_scan ::
  "string \<Rightarrow> (nat \<times> SourceLine) list \<Rightarrow> nat option \<Rightarrow> nat \<Rightarrow> ToolError + (nat option \<times> nat)" where
  "anchor_scan anchor [] found visits = Inr (found, visits)"
| "anchor_scan anchor ((i, l) # ls) found visits =
     res_bind (count_visit visits) (\<lambda>v.
       if contains_sub (sl_text l) anchor
       then if found \<noteq> None then Inl InvalidInvocation else anchor_scan anchor ls (Some i) v
       else anchor_scan anchor ls found v)"

definition find_unique_codex_anchor ::
  "SourceLine list \<Rightarrow> nat \<Rightarrow> string \<Rightarrow> nat \<Rightarrow> ToolError + (nat option \<times> nat)" where
  "find_unique_codex_anchor src start anchor visits =
     anchor_scan anchor (drop start (enumerate 0 src)) None visits"

type_synonym line_index = "string \<rightharpoonup> nat list"

definition index_line :: "line_index \<Rightarrow> nat \<times> SourceLine \<Rightarrow> line_index" where
  "index_line m = (\<lambda>(i, l). m(sl_text l \<mapsto> (case m (sl_text l) of None \<Rightarrow> [] | Some v \<Rightarrow> v) @ [i]))"

definition codex_source_index :: "SourceLine list \<Rightarrow> line_index" where
  "codex_source_index src = foldl index_line Map.empty (enumerate 0 src)"

text \<open>\<^verbatim>\<open>binary_search(&k).unwrap_or_else(|i| i)\<close> on a list without duplicates.\<close>

definition search_or_insert :: "nat list \<Rightarrow> nat \<Rightarrow> nat" where
  "search_or_insert xs k = length (takeWhile (\<lambda>x. x < k) xs)"

partial_function (option) kmp_fallback :: "'a list \<Rightarrow> nat list \<Rightarrow> 'a \<Rightarrow> nat \<Rightarrow> nat option" where
  "kmp_fallback p pi c m =
     (if 0 < m \<and> p ! m \<noteq> c then kmp_fallback p pi c (pi ! (m - 1)) else Some m)"

declare kmp_fallback.simps [code]

fun prefix_loop :: "'a list \<Rightarrow> nat list \<Rightarrow> nat \<Rightarrow> nat list \<Rightarrow> nat list option" where
  "prefix_loop p [] m pi = Some pi"
| "prefix_loop p (i # is) m pi =
     (case kmp_fallback p pi (p ! i) m of
        None \<Rightarrow> None
      | Some m1 \<Rightarrow>
          let m2 = (if p ! m1 = p ! i then m1 + 1 else m1)
          in prefix_loop p is m2 (pi[i := m2]))"

definition codex_pattern_prefix :: "'a list \<Rightarrow> nat list option" where
  "codex_pattern_prefix p = prefix_loop p [1..<length p] 0 (replicate (length p) 0)"

fun codex_contents_match_at :: "PatchContent list \<Rightarrow> SourceLine list \<Rightarrow> nat \<Rightarrow> bool" where
  "codex_contents_match_at [] src start = True"
| "codex_contents_match_at (c # cs) src start =
     (case get src start of
        None \<Rightarrow> False
      | Some l \<Rightarrow>
          if sl_text l \<noteq> pc_text c \<or> (old_no_newline c \<and> sl_ending l \<noteq> EndNone) then False
          else codex_contents_match_at cs src (start + 1))"

definition ends_open :: "SourceLine list \<Rightarrow> nat option \<Rightarrow> nat \<Rightarrow> bool" where
  "ends_open src no_newline_offset candidate =
     (case no_newline_offset of
        None \<Rightarrow> True
      | Some off \<Rightarrow> (case get src (candidate + off) of None \<Rightarrow> False | Some l \<Rightarrow> sl_ending l = EndNone))"

fun kmp_scan ::
  "string list \<Rightarrow> nat list \<Rightarrow> (nat \<Rightarrow> bool) \<Rightarrow> (nat \<times> string) list \<Rightarrow> nat \<Rightarrow> nat option \<Rightarrow> nat
   \<Rightarrow> (ToolError + (nat option \<times> nat)) option" where
  "kmp_scan p pi accept [] matched found visits = Some (Inr (found, visits))"
| "kmp_scan p pi accept ((i, t) # ls) matched found visits =
     (case count_visit visits of
        Inl e \<Rightarrow> Some (Inl e)
      | Inr v \<Rightarrow>
          (case kmp_fallback p pi t matched of
             None \<Rightarrow> None
           | Some m1 \<Rightarrow>
               let m2 = (if p ! m1 = t then m1 + 1 else m1) in
               if m2 = length p
               then
                 let candidate = i + 1 - length p in
                 if accept candidate
                 then if found \<noteq> None then Some (Inl InvalidInvocation)
                      else kmp_scan p pi accept ls (pi ! (m2 - 1)) (Some candidate) v
                 else kmp_scan p pi accept ls (pi ! (m2 - 1)) found v
               else kmp_scan p pi accept ls m2 found v))"

fun no_newline_offsets :: "nat \<Rightarrow> PatchContent list \<Rightarrow> nat option \<Rightarrow> ToolError + nat option" where
  "no_newline_offsets i [] found = Inr found"
| "no_newline_offsets i (c # cs) found =
     (if old_no_newline c
      then if found \<noteq> None then Inl InvalidInvocation else no_newline_offsets (i + 1) cs (Some i)
      else no_newline_offsets (i + 1) cs found)"

definition find_unique_codex_match ::
  "PatchContent list \<Rightarrow> SourceLine list \<Rightarrow> line_index \<Rightarrow> nat \<Rightarrow> nat
   \<Rightarrow> (ToolError + (nat option \<times> nat)) option" where
  "find_unique_codex_match pattern src index start visits =
     (if pattern = [] then Some (Inr (None, visits))
      else
        case no_newline_offsets 0 pattern None of
          Inl e \<Rightarrow> Some (Inl e)
        | Inr off \<Rightarrow>
            let positions = (case index (pc_text (hd pattern)) of None \<Rightarrow> [] | Some v \<Rightarrow> v);
                candidates = drop (search_or_insert positions start) positions
            in case candidates of
                 [] \<Rightarrow> Some (Inr (None, visits))
               | [c] \<Rightarrow>
                   (case count_visit visits of
                      Inl e \<Rightarrow> Some (Inl e)
                    | Inr v \<Rightarrow>
                        Some (Inr (if codex_contents_match_at pattern src c then Some c else None, v)))
               | _ \<Rightarrow>
                   (case codex_pattern_prefix (map pc_text pattern) of
                      None \<Rightarrow> None
                    | Some pi \<Rightarrow>
                        kmp_scan (map pc_text pattern) pi (ends_open src off)
                          (drop start (enumerate 0 (map sl_text src))) 0 None visits))"

section \<open>Resolving hunks\<close>

definition codex_content_counts :: "PatchContent list \<Rightarrow> ToolError + (nat \<times> nat)" where
  "codex_content_counts cs =
     foldl (\<lambda>r c. res_bind r (\<lambda>(old, new).
              res_bind (add old (fst (delta (pc_kind c)))) (\<lambda>old'.
              res_bind (add new (snd (delta (pc_kind c)))) (\<lambda>new'. Inr (old', new')))))
       (Inr (0, 0)) cs"

definition anchor_line ::
  "SourceLine list \<Rightarrow> nat \<Rightarrow> string \<Rightarrow> nat \<Rightarrow> ToolError + (nat \<times> nat)" where
  "anchor_line src start anchor visits =
     res_bind (find_unique_codex_anchor src start anchor visits) (\<lambda>(found, v).
     res_bind (ok_or found Failed) (\<lambda>i. Inr (i, v)))"

definition locate_codex_hunk ::
  "CodexLocator \<Rightarrow> PatchContent list \<Rightarrow> nat \<times> nat \<Rightarrow> bool \<Rightarrow> SourceLine list \<Rightarrow> line_index \<Rightarrow> nat \<Rightarrow> nat
   \<Rightarrow> (ToolError + (nat \<times> nat)) option" where
  "locate_codex_hunk locator old_contents counts end_of_file src index search_start visits =
     (case locator of
        RangeLocator old new \<Rightarrow> Some (
          if hr_count old \<noteq> fst counts \<or> hr_count new \<noteq> snd counts then Inl InvalidInvocation
          else
            res_bind (add (hr_index old) (hr_count old)) (\<lambda>e.
            if length src < e \<or> (end_of_file \<and> e \<noteq> length src) then Inl Failed
            else if \<not> codex_contents_match_at old_contents src (hr_index old) then Inl Failed
            else Inr (hr_index old, visits)))
      | AnchorLocator anchor \<Rightarrow>
          if end_of_file
          then Some (
            res_bind (ok_or (checked_sub (length src) (fst counts)) Failed) (\<lambda>start.
            if \<not> codex_contents_match_at old_contents src start then Inl Failed
            else Inr (start, visits)))
          else if fst counts = 0
          then Some (
            res_bind (ok_or anchor Failed) (\<lambda>a.
            res_bind (anchor_line src search_start a visits) (\<lambda>(i, v).
            res_bind (ok_or (checked_add i 1) InvalidInvocation) (\<lambda>i'. Inr (i', v)))))
          else
            run_bind (Some (case anchor of
                              None \<Rightarrow> Inr (search_start, visits)
                            | Some a \<Rightarrow> anchor_line src search_start a visits)) (\<lambda>(match_start, v).
            run_bind (find_unique_codex_match old_contents src index match_start v) (\<lambda>(found, v').
            Some (res_bind (ok_or found Failed) (\<lambda>start. Inr (start, v'))))))"

definition needs_ending :: "PatchContent \<Rightarrow> PatchContent list \<Rightarrow> bool" where
  "needs_ending c later =
     (pc_kind c = Context \<and> \<not> new_no_newline c \<and> list_ex (\<lambda>d. pc_kind d \<noteq> Remove) later)"

fun mark_codex_source_endings ::
  "LineEnding \<Rightarrow> PatchContent list \<Rightarrow> SourceLine list \<Rightarrow> ToolError + PatchContent list" where
  "mark_codex_source_endings preferred [] ls = Inr []"
| "mark_codex_source_endings preferred (c # cs) ls =
     (if pc_kind c = Add
      then res_bind (mark_codex_source_endings preferred cs ls) (\<lambda>cs'. Inr (c # cs'))
      else
        (case ls of
           [] \<Rightarrow> Inl Failed
         | l # ls' \<Rightarrow>
             res_bind (mark_codex_source_endings preferred cs ls') (\<lambda>cs'.
               Inr ((if sl_ending l = EndNone
                     then if needs_ending c cs
                          then c\<lparr>old_no_newline := True, context_new_ending := Some preferred\<rparr>
                          else c\<lparr>old_no_newline := True\<rparr>
                     else c) # cs'))))"

fun mark_last_kept :: "PatchContent list \<Rightarrow> PatchContent list" where
  "mark_last_kept [] = []"
| "mark_last_kept (c # cs) =
     (if list_ex (\<lambda>d. pc_kind d \<noteq> Remove) cs then c # mark_last_kept cs
      else if pc_kind c \<noteq> Remove then c\<lparr>new_no_newline := True\<rparr> # cs
      else c # cs)"

definition mark_codex_result_no_newline :: "PatchContent list \<Rightarrow> nat \<Rightarrow> PatchContent list" where
  "mark_codex_result_no_newline cs new_cnt = (if new_cnt = 0 then cs else mark_last_kept cs)"

record resolve_state =
  rs_resolved :: "ResolvedHunk list"
  rs_source_cursor :: nat
  rs_output_cursor :: nat
  rs_previous_start :: "nat option"
  rs_visits :: nat

definition codex_start ::
  "CodexHunk \<Rightarrow> nat \<times> nat \<Rightarrow> SourceLine list \<Rightarrow> line_index \<Rightarrow> resolve_state
   \<Rightarrow> (ToolError + (nat \<times> nat)) option" where
  "codex_start h counts src index st =
     (if ch_contents h = []
      then Some (case ch_locator h of
                   AnchorLocator (Some a) \<Rightarrow> anchor_line src (rs_source_cursor st) a (rs_visits st)
                 | _ \<Rightarrow> Inl InvalidInvocation)
      else locate_codex_hunk (ch_locator h) (filter (\<lambda>c. pc_kind c \<noteq> Add) (ch_contents h)) counts
             (ch_end_of_file h) src index (rs_source_cursor st) (rs_visits st))"

definition range_agrees :: "CodexLocator \<Rightarrow> nat \<Rightarrow> resolve_state \<Rightarrow> ToolError + unit" where
  "range_agrees locator start st =
     (case locator of
        RangeLocator _ new \<Rightarrow>
          res_bind (sub start (rs_source_cursor st)) (\<lambda>skipped.
          res_bind (add (rs_output_cursor st) skipped) (\<lambda>expected_new.
          if hr_index new \<noteq> expected_new then Inl InvalidInvocation else Inr ()))
      | _ \<Rightarrow> Inr ())"

definition place_hunk ::
  "bool \<Rightarrow> CodexHunk \<Rightarrow> nat \<times> nat \<Rightarrow> nat \<Rightarrow> nat \<Rightarrow> LineEnding \<Rightarrow> SourceLine list \<Rightarrow> resolve_state
   \<Rightarrow> ToolError + resolve_state" where
  "place_hunk is_last h counts start visits preferred src st =
     (if start < rs_source_cursor st \<or> (ch_contents h \<noteq> [] \<and> rs_previous_start st = Some start)
      then Inl InvalidInvocation
      else
        res_bind (range_agrees (ch_locator h) start st) (\<lambda>_.
        res_bind (sub start (rs_source_cursor st)) (\<lambda>skipped.
        res_bind (add (rs_output_cursor st) skipped) (\<lambda>out.
        if ch_contents h = []
        then Inr (st\<lparr>rs_source_cursor := start, rs_output_cursor := out, rs_visits := visits\<rparr>)
        else
          res_bind (add start (fst counts)) (\<lambda>old_end.
          res_bind (mark_codex_source_endings preferred (ch_contents h) (drop start src)) (\<lambda>cs.
          let cs' = (if is_last \<and> src \<noteq> [] \<and> sl_ending (last src) = EndNone \<and> old_end = length src
                     then mark_codex_result_no_newline cs (snd counts) else cs) in
          res_bind (make_hunk_range start (fst counts)) (\<lambda>old.
          res_bind (make_hunk_range out (snd counts)) (\<lambda>new.
          res_bind (add out (snd counts)) (\<lambda>out'.
          Inr \<lparr>rs_resolved = rs_resolved st @ [\<lparr>rh_old = old, rh_new = new, rh_contents = cs'\<rparr>],
               rs_source_cursor = old_end, rs_output_cursor = out', rs_previous_start = Some start,
               rs_visits = visits\<rparr>)))))))))"

fun resolve_hunks ::
  "LineEnding \<Rightarrow> SourceLine list \<Rightarrow> line_index \<Rightarrow> CodexHunk list \<Rightarrow> resolve_state
   \<Rightarrow> (ToolError + resolve_state) option" where
  "resolve_hunks preferred src index [] st = Some (Inr st)"
| "resolve_hunks preferred src index (h # hs) st =
     (if ch_end_of_file h \<and> hs \<noteq> [] then Some (Inl InvalidInvocation)
      else
        run_bind (Some (codex_content_counts (ch_contents h))) (\<lambda>counts.
        run_bind (codex_start h counts src index st) (\<lambda>(start, v).
        run_bind (Some (place_hunk (hs = []) h counts start v preferred src st)) (\<lambda>st'.
        resolve_hunks preferred src index hs st'))))"

definition parse_and_resolve_codex_patch ::
  "string \<Rightarrow> string \<Rightarrow> SourceLine list \<Rightarrow> (ToolError + ResolvedHunk list) option" where
  "parse_and_resolve_codex_patch path patch src =
     run_bind (Some (parse_codex_patch path patch)) (\<lambda>hunks.
     run_bind (resolve_hunks (preferred_line_ending src) src (codex_source_index src) hunks
       \<lparr>rs_resolved = [], rs_source_cursor = 0, rs_output_cursor = 0, rs_previous_start = None,
        rs_visits = 0\<rparr>) (\<lambda>st.
     Some (Inr (rs_resolved st))))"

definition apply_single_file_patch :: "string \<Rightarrow> string \<Rightarrow> string \<Rightarrow> (ToolError + string) option" where
  "apply_single_file_patch path source patch =
     run_bind (Some (next_line (patch_lines patch))) (\<lambda>(first, _).
       let src = split_source_lines source in
       run_bind (if strip_transport_ending first = CODEX_BEGIN_PATCH
                 then parse_and_resolve_codex_patch path patch src
                 else Some (parse_unified_patch path patch)) (\<lambda>hunks.
       Some (apply_resolved_hunks src hunks)))"

section \<open>The failure-table search\<close>

text \<open>
  \<open>border p k xs\<close>: the first \<open>k\<close> elements of the pattern end the text read so far. The table
  entry at \<open>i\<close> is the longest proper border of the first \<open>i + 1\<close> elements of the pattern.
\<close>

definition border :: "'a list \<Rightarrow> nat \<Rightarrow> 'a list \<Rightarrow> bool" where
  "border p k xs = suffix (take k p) xs"

definition entry_ok :: "'a list \<Rightarrow> nat list \<Rightarrow> nat \<Rightarrow> bool" where
  "entry_ok p pi i =
     (pi ! i \<le> i \<and> border p (pi ! i) (take (Suc i) p)
      \<and> (\<forall>k\<le>i. border p k (take (Suc i) p) \<longrightarrow> k \<le> pi ! i))"

lemma border_0 [simp]: "border p 0 xs"
  by (simp add: border_def)

lemma border_Nil: "border p k [] \<longleftrightarrow> k = 0 \<or> p = []"
  by (auto simp: border_def)

lemma border_snoc:
  "k < length p \<Longrightarrow> border p (Suc k) (xs @ [c]) \<longleftrightarrow> border p k xs \<and> p ! k = c"
  by (auto simp: border_def take_Suc_conv_app_nth)

lemma border_trans:
  assumes "border p m xs" and "k \<le> m" and "m \<le> length p"
  shows "border p k xs \<longleftrightarrow> border p k (take m p)"
proof
  assume "border p k xs"
  with assms show "border p k (take m p)"
    unfolding border_def by (auto intro: suffix_length_suffix)
next
  assume "border p k (take m p)"
  with assms(1) show "border p k xs" unfolding border_def by (rule suffix_order.trans[rotated])
qed

lemma kmp_fallback_correct:
  assumes "border p m xs" and "m < length p" and "\<forall>i<m. entry_ok p pi i"
  shows "\<exists>r. kmp_fallback p pi c m = Some r \<and> r \<le> m \<and> border p r xs \<and> (r = 0 \<or> p ! r = c)
    \<and> (\<forall>k\<le>m. border p k xs \<and> p ! k = c \<longrightarrow> k \<le> r)"
  using assms
proof (induction m rule: less_induct)
  case (less m)
  show ?case
  proof (cases "0 < m \<and> p ! m \<noteq> c")
    case False
    with less.prems show ?thesis by (subst kmp_fallback.simps) auto
  next
    case True
    let ?m = "pi ! (m - 1)"
    from less.prems(3) True have e: "entry_ok p pi (m - 1)" by simp
    with True have lt: "?m < m" and b: "border p ?m (take m p)"
      and mx: "\<And>k. k < m \<Longrightarrow> border p k (take m p) \<Longrightarrow> k \<le> ?m"
      by (auto simp: entry_ok_def)
    have bx: "border p ?m xs" using border_trans[OF less.prems(1), of ?m] lt b less.prems(2) by simp
    have mx': "k \<le> ?m" if "border p k xs" "p ! k = c" "k \<le> m" for k
    proof -
      from that True have "k < m" by (cases "k = m") auto
      with that(1) border_trans[OF less.prems(1), of k] less.prems(2) mx show ?thesis by simp
    qed
    from less.IH[OF lt bx] lt less.prems obtain r where r: "kmp_fallback p pi c ?m = Some r" "r \<le> ?m"
      "border p r xs" "r = 0 \<or> p ! r = c" "\<forall>k\<le>?m. border p k xs \<and> p ! k = c \<longrightarrow> k \<le> r"
      by auto
    have "kmp_fallback p pi c m = kmp_fallback p pi c ?m" using True by (subst kmp_fallback.simps) simp
    with r lt mx' show ?thesis by (intro exI[of _ r]) auto
  qed
qed

text \<open>One step of the search, for the table and for the text alike: \<open>m\<close> is the longest border
  among the candidates below \<open>b\<close>.\<close>

lemma kmp_step:
  assumes m: "border p m xs" "m < length p" "\<forall>i<m. entry_ok p pi i"
    and best: "\<forall>k<b. border p k xs \<longrightarrow> k \<le> m" and b: "b \<le> length p"
  shows "\<exists>r. kmp_fallback p pi c m = Some r \<and> r \<le> m
    \<and> (let m' = (if p ! r = c then r + 1 else r) in
         m' \<le> Suc m \<and> border p m' (xs @ [c]) \<and> (\<forall>k\<le>b. border p k (xs @ [c]) \<longrightarrow> k \<le> m'))"
proof -
  from kmp_fallback_correct[OF m, of c] obtain r where r: "kmp_fallback p pi c m = Some r" "r \<le> m"
    "border p r xs" "r = 0 \<or> p ! r = c" "\<forall>k\<le>m. border p k xs \<and> p ! k = c \<longrightarrow> k \<le> r" by blast
  let ?m' = "if p ! r = c then r + 1 else r"
  have "border p ?m' (xs @ [c])" using r m(2) by (auto simp: border_snoc)
  moreover have "k \<le> ?m'" if k: "k \<le> b" "border p k (xs @ [c])" for k
  proof (cases k)
    case (Suc j)
    with k b have "border p j xs" "p ! j = c" "j < b" by (auto simp: border_snoc Suc_le_eq)
    with best r have "j \<le> r" by auto
    with Suc r \<open>p ! j = c\<close> show ?thesis by (cases "r = j") auto
  qed simp
  ultimately show ?thesis using r by (auto simp: Let_def)
qed

lemma entry_ok_update: "j < i \<Longrightarrow> entry_ok p (pi[i := v]) j = entry_ok p pi j"
  by (simp add: entry_ok_def)

lemma prefix_loop_correct:
  assumes "is = [i..<length p]" and "0 < i" "i \<le> length p" and "length pi = length p"
    and "\<forall>j<i. entry_ok p pi j" and "border p m (take i p)" "m < i"
    and "\<forall>k<i. border p k (take i p) \<longrightarrow> k \<le> m"
  shows "\<exists>pi'. prefix_loop p is m pi = Some pi' \<and> length pi' = length p \<and> (\<forall>j<length p. entry_ok p pi' j)"
  using assms
proof (induction p "is" m pi arbitrary: i rule: prefix_loop.induct)
  case (1 p m pi)
  then have "i = length p" by (metis le_neq_implies_less upt_conv_Nil upt_rec list.distinct(1))
  with 1 show ?case by simp
next
  case (2 p i0 "is" m pi)
  from "2.prems"(1) have lt: "i < length p" by (cases "i < length p") auto
  then have "[i..<length p] = i # [Suc i..<length p]" by (rule upt_conv_Cons)
  with "2.prems"(1) have i0: "i0 = i" and is': "is = [Suc i..<length p]" by auto
  from "2.prems" lt have "\<forall>j<m. entry_ok p pi j" "m < length p" by auto
  from kmp_step[OF "2.prems"(6) this(2,1) "2.prems"(8), of "p ! i"] lt obtain r
    where r: "kmp_fallback p pi (p ! i) m = Some r" "r \<le> m"
      and m': "border p (if p ! r = p ! i then r + 1 else r) (take i p @ [p ! i])"
        "\<forall>k\<le>i. border p k (take i p @ [p ! i]) \<longrightarrow> k \<le> (if p ! r = p ! i then r + 1 else r)"
    by (auto simp: Let_def)
  define m2 where "m2 = (if p ! r = p ! i then r + 1 else r)"
  have t: "take (Suc i) p = take i p @ [p ! i]" using lt by (rule take_Suc_conv_app_nth)
  have m2: "border p m2 (take (Suc i) p)" "\<forall>k\<le>i. border p k (take (Suc i) p) \<longrightarrow> k \<le> m2" "m2 \<le> i"
    using m' r(2) "2.prems"(7) by (auto simp: m2_def t)
  have "entry_ok p (pi[i := m2]) i" using m2 lt "2.prems"(4) by (simp add: entry_ok_def)
  moreover have "entry_ok p (pi[i := m2]) j" if "j < i" for j
    using that "2.prems"(5) by (simp add: entry_ok_update)
  ultimately have e: "\<forall>j<Suc i. entry_ok p (pi[i := m2]) j" by (auto simp: less_Suc_eq)
  have k: "kmp_fallback p pi (p ! i0) m = Some r" and d: "m2 = (if p ! r = p ! i0 then r + 1 else r)"
    using r(1) by (simp_all add: m2_def i0)
  have "\<exists>pi'. prefix_loop p is m2 (pi[i0 := m2]) = Some pi' \<and> length pi' = length p
      \<and> (\<forall>j<length p. entry_ok p pi' j)"
    using "2.IH"[OF k d is'] lt e m2 "2.prems"(4) by (simp add: i0 less_Suc_eq_le)
  with k d show ?case by (simp add: Let_def)
qed

lemma codex_pattern_prefix_correct:
  assumes "p \<noteq> []"
  shows "\<exists>pi. codex_pattern_prefix p = Some pi \<and> length pi = length p \<and> (\<forall>j<length p. entry_ok p pi j)"
proof -
  have "entry_ok p (replicate (length p) 0) 0"
    using assms by (simp add: entry_ok_def)
  then show ?thesis
    unfolding codex_pattern_prefix_def
    using prefix_loop_correct[of "[1..<length p]" 1 p "replicate (length p) 0" 0] assms
    by (simp add: Suc_le_eq)
qed

definition occurs :: "'a list \<Rightarrow> 'a list \<Rightarrow> nat \<Rightarrow> bool" where
  "occurs p t i = (take (length p) (drop i t) = p)"

lemma suffix_occurs:
  assumes "length p \<le> n" and "n \<le> length t"
  shows "suffix p (take n t) \<longleftrightarrow> occurs p t (n - length p)"
proof -
  have "take n t = take (n - length p) t @ take (length p) (drop (n - length p) t)"
    using assms by (metis le_add_diff_inverse2 take_add)
  moreover have "length (take (length p) (drop (n - length p) t)) = length p" using assms by simp
  ultimately show ?thesis
    unfolding occurs_def suffix_def by (metis append_eq_append_conv)
qed

fun unique_of :: "nat list \<Rightarrow> nat option" where
  "unique_of [] = None"
| "unique_of (x # _) = Some x"

lemma count_visit_cases:
  "count_visit v = (if v + 1 \<le> MAX_CODEX_MATCH_VISITS then Inr (v + 1)
     else if v + 1 < u64_bound then Inl InvalidInvocation else Inl Internal)"
  by (auto simp: count_visit_def checked_add_def MAX_CODEX_MATCH_VISITS_def u64_bound_def)

definition found_upto :: "'a list \<Rightarrow> 'a list \<Rightarrow> (nat \<Rightarrow> bool) \<Rightarrow> nat \<Rightarrow> nat \<Rightarrow> nat list" where
  "found_upto p t accept start n =
     filter (\<lambda>i. occurs p t (i - start) \<and> accept i) [start..<start + (Suc n - length p)]"

lemma found_upto_Suc:
  assumes "p \<noteq> []"
  shows "found_upto p t accept start (Suc n) = found_upto p t accept start n @
    (if length p \<le> Suc n \<and> occurs p t (Suc n - length p) \<and> accept (start + (Suc n - length p))
     then [start + (Suc n - length p)] else [])"
  using assms by (cases "length p \<le> Suc n") (auto simp: found_upto_def Suc_diff_le)

lemma found_upto_mono:
  assumes "n \<le> n'"
  obtains ys where "found_upto p t accept start n' = found_upto p t accept start n @ ys"
proof -
  from assms obtain d where d: "start + (Suc n' - length p) = start + (Suc n - length p) + d"
    by (metis Suc_le_mono add.assoc diff_le_mono le_Suc_ex)
  have "[start..<start + (Suc n' - length p)]
      = [start..<start + (Suc n - length p)] @ [start + (Suc n - length p)..<start + (Suc n - length p) + d]"
    unfolding d by (rule upt_add_eq_append) simp
  then show thesis by (intro that) (simp only: found_upto_def filter_append)
qed

definition longest :: "'a list \<Rightarrow> 'a list \<Rightarrow> nat \<Rightarrow> bool" where
  "longest p xs m = (m < length p \<and> border p m xs \<and> (\<forall>k<length p. border p k xs \<longrightarrow> k \<le> m))"

text \<open>The matched length after one more element, and whether the whole pattern ends here.\<close>

lemma kmp_advance:
  assumes pi: "\<forall>j<length p. entry_ok p pi j" and m: "longest p xs m"
  shows "\<exists>r. kmp_fallback p pi c m = Some r
    \<and> (let m' = (if p ! r = c then r + 1 else r) in
         (m' = length p \<longleftrightarrow> suffix p (xs @ [c]))
         \<and> longest p (xs @ [c]) (if m' = length p then pi ! (m' - 1) else m'))"
proof -
  from m have "border p m xs" "m < length p" "\<forall>i<m. entry_ok p pi i" "\<forall>k<length p. border p k xs \<longrightarrow> k \<le> m"
    using pi by (auto simp: longest_def)
  from kmp_step[OF this order_refl, of c] obtain r where r: "kmp_fallback p pi c m = Some r"
    and m': "border p (if p ! r = c then r + 1 else r) (xs @ [c])"
      "\<forall>k\<le>length p. border p k (xs @ [c]) \<longrightarrow> k \<le> (if p ! r = c then r + 1 else r)" "r \<le> m"
    by (auto simp: Let_def)
  define n where "n = (if p ! r = c then r + 1 else r)"
  have n: "border p n (xs @ [c])" "\<forall>k\<le>length p. border p k (xs @ [c]) \<longrightarrow> k \<le> n" "n \<le> length p"
    using m' \<open>m < length p\<close> by (auto simp: n_def)
  have full: "n = length p \<longleftrightarrow> suffix p (xs @ [c])"
  proof
    assume "n = length p"
    with n(1) show "suffix p (xs @ [c])" by (simp add: border_def)
  next
    assume "suffix p (xs @ [c])"
    then have "border p (length p) (xs @ [c])" by (simp add: border_def)
    with n show "n = length p" by auto
  qed
  moreover have "longest p (xs @ [c]) (if n = length p then pi ! (n - 1) else n)"
  proof (cases "n = length p")
    case False
    with n show ?thesis by (auto simp: longest_def)
  next
    case True
    with \<open>m < length p\<close> pi have "entry_ok p pi (length p - 1)" by auto
    with \<open>m < length p\<close> have e: "pi ! (length p - 1) < length p" "border p (pi ! (length p - 1)) p"
      "\<And>k. k < length p \<Longrightarrow> border p k p \<Longrightarrow> k \<le> pi ! (length p - 1)"
      by (auto simp: entry_ok_def)
    have "border p (length p) (xs @ [c])" using True n(1) by simp
    note bt = border_trans[OF this]
    from e bt True show ?thesis by (auto simp: longest_def)
  qed
  ultimately show ?thesis using r by (auto simp: n_def Let_def)
qed

definition scan_ok :: "nat list \<Rightarrow> nat \<Rightarrow> ToolError + (nat option \<times> nat) \<Rightarrow> bool" where
  "scan_ok ms budget res =
     ((\<forall>found v. res = Inr (found, v) \<longrightarrow> length ms \<le> 1 \<and> found = unique_of ms \<and> v \<le> budget)
      \<and> (budget \<le> MAX_CODEX_MATCH_VISITS \<and> length ms \<le> 1 \<longrightarrow> (\<exists>x. res = Inr x)))"

lemma kmp_scan_correct:
  assumes pi: "\<forall>j<length p. entry_ok p pi j" and p: "p \<noteq> []"
    and "ls = drop n (enumerate start t)" and "n \<le> length t"
    and "longest p (take n t) m"
    and "found = unique_of (found_upto p t accept start n)" and "length (found_upto p t accept start n) \<le> 1"
  shows "\<exists>res. kmp_scan p pi accept ls m found visits = Some res
    \<and> scan_ok (found_upto p t accept start (length t)) (visits + (length t - n)) res"
  using assms(3-7)
proof (induction ls arbitrary: n m found visits)
  case Nil
  then have "n = length t" by simp
  with Nil show ?case by (simp add: scan_ok_def)
next
  case (Cons x ls)
  then have n: "n < length t" by (metis drop_all length_enumerate linorder_not_le list.distinct(1))
  then have "drop n (enumerate start t) = (start + n, t ! n) # drop (Suc n) (enumerate start t)"
    by (metis Cons_nth_drop_Suc length_enumerate nth_enumerate_eq)
  with Cons.prems(1) have x: "x = (start + n, t ! n)" and ls: "ls = drop (Suc n) (enumerate start t)" by auto
  let ?M = "found_upto p t accept start (length t)" and ?L = "found_upto p t accept start n"
    and ?L' = "found_upto p t accept start (Suc n)"
  have tn: "take n t @ [t ! n] = take (Suc n) t" using n by (simp add: take_Suc_conv_app_nth)
  from kmp_advance[OF pi Cons.prems(3), of "t ! n"] obtain r where
      r: "kmp_fallback p pi (t ! n) m = Some r"
    and full: "(if p ! r = t ! n then r + 1 else r) = length p \<longleftrightarrow> suffix p (take (Suc n) t)"
    and lg: "longest p (take (Suc n) t) (if (if p ! r = t ! n then r + 1 else r) = length p
        then pi ! ((if p ! r = t ! n then r + 1 else r) - 1) else (if p ! r = t ! n then r + 1 else r))"
    by (auto simp: Let_def tn)
  define m2 where "m2 = (if p ! r = t ! n then r + 1 else r)"
  have full: "m2 = length p \<longleftrightarrow> length p \<le> Suc n \<and> occurs p t (Suc n - length p)"
  proof (cases "length p \<le> Suc n")
    case True
    with full n show ?thesis by (simp add: m2_def suffix_occurs)
  next
    case False
    then have "\<not> suffix p (take (Suc n) t)" by (auto dest: suffix_length_le)
    with full False show ?thesis by (simp add: m2_def)
  qed
  note L' = found_upto_Suc[OF p, of t accept start n]
  obtain ys where ys: "?M = ?L' @ ys" using found_upto_mono[of "Suc n" "length t"] n by (metis Suc_leI)
  show ?case
  proof (cases "visits + 1 \<le> MAX_CODEX_MATCH_VISITS")
    case False
    then have "\<exists>e. count_visit visits = Inl e" by (auto simp: count_visit_cases)
    then obtain e where "kmp_scan p pi accept (x # ls) m found visits = Some (Inl e)" by (auto simp: x)
    with False n show ?thesis by (auto simp: scan_ok_def)
  next
    case True
    then have v: "count_visit visits = Inr (visits + 1)" by (simp add: count_visit_cases)
    have budget: "visits + 1 + (length t - Suc n) = visits + (length t - n)" using n by simp
    show ?thesis
    proof (cases "length p \<le> Suc n \<and> occurs p t (Suc n - length p) \<and> accept (start + (Suc n - length p))")
      case hit: True
      then have cand: "start + n + 1 - length p = start + (Suc n - length p)" and full': "m2 = length p"
        using full by auto
      from hit have "Suc (start + n) - length p = start + (Suc n - length p)" by arith
      with hit have acc: "accept (Suc (start + n) - length p)" by (simp only:)
      show ?thesis
      proof (cases "found = None")
        case None: True
        with Cons.prems(4) have L: "?L = []" by (cases ?L) auto
        from Cons.IH[OF ls, of "pi ! (m2 - 1)" "Some (start + (Suc n - length p))" "visits + 1"] n lg L L' hit full' budget
        obtain res where "kmp_scan p pi accept ls (pi ! (m2 - 1)) (Some (start + (Suc n - length p))) (visits + 1) = Some res"
          "scan_ok ?M (visits + (length t - n)) res"
          by (auto simp: m2_def)
        then show ?thesis using r v acc full' None cand by (simp add: x m2_def[symmetric] Let_def)
      next
        case Some: False
        with Cons.prems(4) have "length ?L \<ge> 1" by (cases ?L) auto
        with L' hit ys acc have "2 \<le> length ?M" by simp
        moreover have "kmp_scan p pi accept (x # ls) m found visits = Some (Inl InvalidInvocation)"
          using r v acc full' Some by (simp add: x m2_def[symmetric] Let_def)
        ultimately show ?thesis by (auto simp: scan_ok_def)
      qed
    next
      case miss: False
      then have L: "?L' = ?L" using L' by simp
      let ?m3 = "if m2 = length p then pi ! (m2 - 1) else m2"
      have "longest p (take (Suc n) t) ?m3" using lg unfolding m2_def .
      from Cons.IH[OF ls _ this, of found "visits + 1"] n L Cons.prems(4,5) budget
      obtain res where k: "kmp_scan p pi accept ls ?m3 found (visits + 1) = Some res"
        "scan_ok ?M (visits + (length t - n)) res"
        by (auto simp del: One_nat_def)
      have "\<not> accept (start + n + 1 - length p)" if "m2 = length p"
        using miss full that by auto
      with k r v show ?thesis by (auto simp: x m2_def[symmetric] Let_def)
    qed
  qed
qed

section \<open>The search finds the unique naive match\<close>

lemma enumerate_snoc: "enumerate n (xs @ [x]) = enumerate n xs @ [(n + length xs, x)]"
  by (simp add: enumerate_append_eq)

lemma drop_enumerate: "drop k (enumerate 0 xs) = enumerate k (drop k xs)"
  by (rule nth_equalityI) (auto simp: nth_enumerate_eq)

definition text_positions :: "string \<Rightarrow> SourceLine list \<Rightarrow> nat list" where
  "text_positions x src = filter (\<lambda>i. sl_text (src ! i) = x) [0..<length src]"

lemma text_positions_snoc:
  "text_positions x (src @ [l]) = text_positions x src @ (if sl_text l = x then [length src] else [])"
  by (auto simp: text_positions_def nth_append intro!: filter_cong)

lemma codex_source_index_eq:
  "codex_source_index src x = (if text_positions x src = [] then None else Some (text_positions x src))"
proof (induction src rule: rev_induct)
  case Nil
  then show ?case by (simp add: codex_source_index_def text_positions_def)
next
  case (snoc l src)
  then show ?case
    by (auto simp: codex_source_index_def enumerate_snoc text_positions_snoc index_line_def)
qed

lemma search_or_insert_drop:
  assumes "sorted xs"
  shows "drop (search_or_insert xs k) xs = filter (\<lambda>x. k \<le> x) xs"
proof -
  have "drop (search_or_insert xs k) xs = dropWhile (\<lambda>x. x < k) xs"
    by (simp add: search_or_insert_def dropWhile_eq_drop)
  also have "\<dots> = filter (\<lambda>x. k \<le> x) xs" using assms
  proof (induction xs)
    case (Cons x xs)
    have "filter (\<lambda>y. k \<le> y) xs = xs" if "k \<le> x" using Cons.prems that by (intro filter_True) auto
    with Cons show ?case by auto
  qed simp
  finally show ?thesis .
qed

lemma candidates_eq:
  "drop (search_or_insert (text_positions x src) start) (text_positions x src)
   = filter (\<lambda>i. sl_text (src ! i) = x) [start..<length src]"
proof -
  have "sorted (text_positions x src)" by (simp add: text_positions_def sorted_filter[where f = "\<lambda>x. x", simplified])
  then have "drop (search_or_insert (text_positions x src) start) (text_positions x src)
    = filter (\<lambda>i. sl_text (src ! i) = x) (filter (\<lambda>i. start \<le> i) [0..<length src])"
    by (simp add: search_or_insert_drop text_positions_def conj_commute)
  also have "filter (\<lambda>i. start \<le> i) [0..<length src] = [start..<length src]"
    by (induction src rule: rev_induct) auto
  finally show ?thesis .
qed

lemma match_at_iff:
  "codex_contents_match_at pattern src i \<longleftrightarrow>
     pattern = [] \<or> (i + length pattern \<le> length src
      \<and> (\<forall>j<length pattern. sl_text (src ! (i + j)) = pc_text (pattern ! j)
           \<and> (old_no_newline (pattern ! j) \<longrightarrow> sl_ending (src ! (i + j)) = EndNone)))"
proof (induction pattern arbitrary: i)
  case (Cons c cs)
  show ?case
    unfolding codex_contents_match_at.simps Cons.IH
    by (auto simp: get_def All_less_Suc2 split: if_splits)
qed simp

lemma occurs_iff:
  assumes "p \<noteq> []"
  shows "occurs p t i \<longleftrightarrow> i + length p \<le> length t \<and> (\<forall>j<length p. t ! (i + j) = p ! j)"
proof -
  have "occurs p t i \<longleftrightarrow> length (take (length p) (drop i t)) = length p
      \<and> (\<forall>j<length p. take (length p) (drop i t) ! j = p ! j)"
    unfolding occurs_def list_eq_iff_nth_eq[of _ p] by auto
  also have "length (take (length p) (drop i t)) = length p \<longleftrightarrow> i + length p \<le> length t"
    using assms by (cases p) auto
  finally show ?thesis by auto
qed

lemma no_newline_offsets_ok:
  "length (filter old_no_newline cs) + (if found = None then 0 else 1) \<le> 1 \<Longrightarrow>
   \<exists>off. no_newline_offsets i cs found = Inr off \<and>
     (\<forall>k. off = Some k \<longleftrightarrow> found = Some k \<or> (i \<le> k \<and> k < i + length cs \<and> old_no_newline (cs ! (k - i))))"
proof (induction i cs found rule: no_newline_offsets.induct)
  case (2 i c cs found)
  show ?case
  proof (cases "old_no_newline c")
    case True
    with "2.prems" have "found = None" "filter old_no_newline cs = []" by (auto split: if_splits)
    moreover from this have "\<not> old_no_newline (cs ! j)" if "j < length cs" for j
      using that by (auto simp: filter_empty_conv)
    ultimately show ?thesis using True "2.IH"(1) by (auto simp: nth_Cons' diff_Suc split: nat.splits)
  next
    case False
    with "2.prems" "2.IH"(2) obtain off where "no_newline_offsets (i + 1) cs found = Inr off"
      "\<forall>k. off = Some k \<longleftrightarrow> found = Some k \<or> (i + 1 \<le> k \<and> k < i + 1 + length cs \<and> old_no_newline (cs ! (k - (i + 1))))"
      by auto
    with False show ?thesis by (auto simp: nth_Cons' Suc_le_eq diff_Suc split: nat.splits)
  qed
qed auto

lemma match_at_occurs:
  assumes p: "pattern \<noteq> []"
    and off: "\<forall>k. off = Some k \<longleftrightarrow> k < length pattern \<and> old_no_newline (pattern ! k)"
  shows "codex_contents_match_at pattern src i \<longleftrightarrow>
    occurs (map pc_text pattern) (map sl_text src) i \<and> ends_open src off i"
proof -
  have oc: "occurs (map pc_text pattern) (map sl_text src) i \<longleftrightarrow> i + length pattern \<le> length src
      \<and> (\<forall>j<length pattern. sl_text (src ! (i + j)) = pc_text (pattern ! j))"
    using p by (simp add: occurs_iff) (use add_less_cancel_left le_trans less_le_trans nth_map in fastforce)
  have "ends_open src off i \<longleftrightarrow> (\<forall>j<length pattern. old_no_newline (pattern ! j) \<longrightarrow> sl_ending (src ! (i + j)) = EndNone)"
    if "i + length pattern \<le> length src"
  proof (cases off)
    case None
    with off show ?thesis by (auto simp: ends_open_def)
  next
    case (Some k)
    have k: "k < length pattern \<and> old_no_newline (pattern ! k)" using off Some by blast
    have j: "j = k" if "j < length pattern" "old_no_newline (pattern ! j)" for j
      using off[rule_format, of j] that Some by simp
    from k that have "get src (i + k) = Some (src ! (i + k))" by (auto simp: get_def)
    with Some have "ends_open src off i \<longleftrightarrow> sl_ending (src ! (i + k)) = EndNone" by (simp add: ends_open_def get_def)
    with k j show ?thesis by blast
  qed
  with oc show ?thesis using p by (simp only: match_at_iff) blast
qed

lemma found_upto_matches:
  assumes p: "pattern \<noteq> []"
    and off: "\<forall>k. off = Some k \<longleftrightarrow> k < length pattern \<and> old_no_newline (pattern ! k)"
  shows "found_upto (map pc_text pattern) (drop start (map sl_text src)) (ends_open src off) start
      (length (drop start (map sl_text src)))
    = filter (codex_contents_match_at pattern src) [start..<length src]"
proof -
  let ?e = "start + (Suc (length src - start) - length pattern)"
  have occ: "occurs (map pc_text pattern) (drop start (map sl_text src)) (i - start)
      \<longleftrightarrow> occurs (map pc_text pattern) (map sl_text src) i" if "start \<le> i" for i
    using that by (simp add: occurs_def)
  have le: "?e \<le> length src \<or> ?e \<le> start" using p by (cases pattern) auto
  have "filter (codex_contents_match_at pattern src) [start..<?e]
      = filter (codex_contents_match_at pattern src) [start..<length src]"
  proof (cases "?e \<le> length src")
    case True
    then have "[start..<length src] = [start..<?e] @ [?e..<length src]"
      using upt_add_eq_append[of start ?e "length src - ?e"] by simp
    moreover have "filter (codex_contents_match_at pattern src) [?e..<length src] = []"
      using p by (auto simp: filter_empty_conv match_at_iff)
    ultimately show ?thesis by simp
  next
    case False
    with le have "?e \<le> start" "length src < ?e" by auto
    then show ?thesis by simp
  qed
  moreover have "found_upto (map pc_text pattern) (drop start (map sl_text src)) (ends_open src off) start
      (length (drop start (map sl_text src))) = filter (codex_contents_match_at pattern src) [start..<?e]"
    unfolding found_upto_def by (auto simp: occ match_at_occurs[OF p off] intro!: filter_cong)
  ultimately show ?thesis by simp
qed

lemma longest_start: "p \<noteq> [] \<Longrightarrow> longest p [] 0"
  by (auto simp: longest_def border_Nil)

lemma kmp_branch:
  assumes p: "pattern \<noteq> []"
    and off: "\<forall>k. off = Some k \<longleftrightarrow> k < length pattern \<and> old_no_newline (pattern ! k)"
  shows "\<exists>pi res. codex_pattern_prefix (map pc_text pattern) = Some pi
    \<and> kmp_scan (map pc_text pattern) pi (ends_open src off) (drop start (enumerate 0 (map sl_text src))) 0 None visits
      = Some res
    \<and> scan_ok (filter (codex_contents_match_at pattern src) [start..<length src]) (visits + (length src - start)) res"
proof -
  let ?p = "map pc_text pattern" and ?t = "drop start (map sl_text src)"
  from codex_pattern_prefix_correct[of ?p] p obtain pi where pi: "codex_pattern_prefix ?p = Some pi"
    "\<forall>j<length ?p. entry_ok ?p pi j" by auto
  have "found_upto ?p ?t (ends_open src off) start 0 = []"
    using p by (cases pattern) (auto simp: found_upto_def occurs_def)
  then have "\<exists>res. kmp_scan ?p pi (ends_open src off) (enumerate start ?t) 0 None visits = Some res
    \<and> scan_ok (found_upto ?p ?t (ends_open src off) start (length ?t)) (visits + (length ?t - 0)) res"
    using p pi(2) longest_start[of ?p] by (intro kmp_scan_correct[where n = 0]) auto
  with pi(1) show ?thesis
    unfolding found_upto_matches[OF p off] drop_enumerate by auto
qed

lemma find_unique_codex_match_correct:
  assumes p: "pattern \<noteq> []" and one: "length (filter old_no_newline pattern) \<le> 1"
  shows "\<exists>res. find_unique_codex_match pattern src (codex_source_index src) start visits = Some res
    \<and> scan_ok (filter (codex_contents_match_at pattern src) [start..<length src])
        (visits + (length src - start)) res"
proof -
  let ?M = "filter (codex_contents_match_at pattern src) [start..<length src]"
  let ?C = "filter (\<lambda>i. sl_text (src ! i) = pc_text (hd pattern)) [start..<length src]"
  from no_newline_offsets_ok[of pattern None 0] one obtain off where
    off: "no_newline_offsets 0 pattern None = Inr off"
    "\<forall>k. off = Some k \<longleftrightarrow> k < length pattern \<and> old_no_newline (pattern ! k)" by auto
  have "sl_text (src ! i) = pc_text (hd pattern)" if "codex_contents_match_at pattern src i" for i
    using that p by (cases pattern) (auto simp: get_def split: if_splits)
  then have M: "?M = filter (codex_contents_match_at pattern src) ?C" by (auto intro!: filter_cong)
  have C: "drop (search_or_insert (case codex_source_index src (pc_text (hd pattern)) of None \<Rightarrow> [] | Some v \<Rightarrow> v) start)
      (case codex_source_index src (pc_text (hd pattern)) of None \<Rightarrow> [] | Some v \<Rightarrow> v) = ?C"
    using candidates_eq[of "pc_text (hd pattern)" src start] by (auto simp: codex_source_index_eq)
  note eq = find_unique_codex_match_def[of pattern src "codex_source_index src" start visits, unfolded Let_def C]
  consider "?C = []" | c where "?C = [c]" | c d cs where "?C = c # d # cs"
    by (cases ?C rule: remdups_adj.cases)
  then show ?thesis
  proof cases
    case 1
    with M p off eq show ?thesis by (auto simp: scan_ok_def)
  next
    case 2
    then have "c \<in> set ?C" by (simp only: set_simps insertI1)
    then have b: "visits + 1 \<le> visits + (length src - start)" by auto
    have M: "?M = (if codex_contents_match_at pattern src c then [c] else [])"
      unfolding M 2 by simp
    from eq p off(1) 2 have "find_unique_codex_match pattern src (codex_source_index src) start visits =
      Some (case count_visit visits of Inl e \<Rightarrow> Inl e
            | Inr v \<Rightarrow> Inr (if codex_contents_match_at pattern src c then Some c else None, v))"
      by (simp split: sum.splits)
    with b show ?thesis unfolding M by (auto simp: scan_ok_def count_visit_cases)
  next
    case 3
    from kmp_branch[OF p off(2), of src start visits] 3 p off eq show ?thesis by auto
  qed
qed

text \<open>C6: The context search of a Codex hunk always ends, and it agrees with the naive search that
  tries every line: when it succeeds there is at most one place at or after \<open>start\<close> where the
  hunk's old lines match, and that place is the answer; it fails only when there are two or more
  matches or the budget of line visits is used up. A success never overspends the budget by more
  than the lines it may read.\<close>

theorem codex_match_is_naive_search:
  assumes "pattern \<noteq> []" and "length (filter old_no_newline pattern) \<le> 1"
  shows "\<exists>res. find_unique_codex_match pattern src (codex_source_index src) start visits = Some res
    \<and> scan_ok (filter (codex_contents_match_at pattern src) [start..<length src])
        (visits + (length src - start)) res"
  by (rule find_unique_codex_match_correct[OF assms])

abbreviation ctx_line :: "string \<Rightarrow> PatchContent" where
  "ctx_line s \<equiv> content Context s"

theorem codex_match_is_naive_search_witness:
  "\<exists>res. find_unique_codex_match [ctx_line ''a'', ctx_line ''b'']
      (split_source_lines (''a'' @ [LF] @ ''a'' @ [LF] @ ''b'' @ [LF]))
      (codex_source_index (split_source_lines (''a'' @ [LF] @ ''a'' @ [LF] @ ''b'' @ [LF]))) 0 0 = Some res
    \<and> scan_ok [1] 3 res"
  using codex_match_is_naive_search[of "[ctx_line ''a'', ctx_line ''b'']"
      "split_source_lines (''a'' @ [LF] @ ''a'' @ [LF] @ ''b'' @ [LF])" 0 0]
  by (simp add: content_def split_source_lines_def get_def upt_conv_Cons eval_nat_numeral)

section \<open>Resolved hunks fit the source\<close>

lemma no_newline_offsets_count:
  "no_newline_offsets i cs found = Inr off \<Longrightarrow>
   length (filter old_no_newline cs) + (if found = None then 0 else 1) \<le> 1"
  by (induction i cs found rule: no_newline_offsets.induct) (auto split: if_splits)

lemma find_unique_codex_match_sound:
  assumes "find_unique_codex_match pattern src (codex_source_index src) start v = Some (Inr (Some c, v'))"
  shows "codex_contents_match_at pattern src c \<and> start \<le> c \<and> c + length pattern \<le> length src"
proof -
  from assms have p: "pattern \<noteq> []" by (auto simp: find_unique_codex_match_def)
  with assms have "length (filter old_no_newline pattern) \<le> 1"
    using no_newline_offsets_count[of 0 pattern None]
    by (auto simp: find_unique_codex_match_def split: sum.splits)
  from find_unique_codex_match_correct[OF p this, of src start v] assms
  have "unique_of (filter (codex_contents_match_at pattern src) [start..<length src]) = Some c"
    by (auto simp: scan_ok_def)
  then have "c \<in> set (filter (codex_contents_match_at pattern src) [start..<length src])"
    by (cases "filter (codex_contents_match_at pattern src) [start..<length src]") (simp, metis list.set_intros(1) option.inject unique_of.simps(2))
  with p show ?thesis by (auto simp: match_at_iff)
qed

lemma find_unique_codex_match_total:
  "\<exists>res. find_unique_codex_match pattern src (codex_source_index src) start v = Some res"
proof (cases "pattern = [] \<or> 1 < length (filter old_no_newline pattern)")
  case True
  then show ?thesis
    using no_newline_offsets_count[of 0 pattern None]
    by (cases "no_newline_offsets 0 pattern None") (auto simp: find_unique_codex_match_def)
next
  case False
  with find_unique_codex_match_correct[of pattern src start v] show ?thesis by (auto simp: not_less)
qed

lemma codex_start_total: "\<exists>r. codex_start h counts src (codex_source_index src) st = Some r"
  unfolding codex_start_def locate_codex_hunk_def
  by (auto split: CodexLocator.splits sum.splits option.splits intro!: run_bind_total find_unique_codex_match_total)

lemma resolve_hunks_total: "\<exists>r. resolve_hunks preferred src (codex_source_index src) hs st = Some r"
proof (induction hs arbitrary: st)
  case (Cons h hs)
  show ?case
    by (auto simp del: run_bind_Some intro!: run_bind_total codex_start_total Cons.IH)
qed simp

text \<open>C30: Applying a patch always ends: whatever the path, the file and the patch text, the tool
  returns a patched file or an error (the only loop without an obvious measure is the walk down
  the failure table, and the table's entries strictly decrease).\<close>

theorem apply_single_file_patch_ends:
  "\<exists>r. apply_single_file_patch path source patch = Some r"
  unfolding apply_single_file_patch_def parse_and_resolve_codex_patch_def
  by (auto simp del: run_bind_Some simp: Let_def intro!: run_bind_total resolve_hunks_total)

lemma codex_content_counts_Inr:
  "codex_content_counts cs = Inr (m, n) \<Longrightarrow> m = old_count cs \<and> n = new_count cs"
proof (induction cs arbitrary: m n rule: rev_induct)
  case (snoc c cs)
  then show ?case by (auto simp: codex_content_counts_def)
qed (simp add: codex_content_counts_def)

lemma old_count_filter: "old_count cs = length (filter (\<lambda>c. pc_kind c \<noteq> Add) cs)"
proof (induction cs)
  case (Cons c cs)
  then show ?case by (cases "pc_kind c") auto
qed simp

lemma match_at_bound:
  "codex_contents_match_at p src i \<Longrightarrow> i \<le> length src \<Longrightarrow> i + length p \<le> length src"
  by (cases "p = []") (auto simp: match_at_iff)

lemma anchor_scan_sound:
  "anchor_scan a ls found v = Inr (r, v') \<Longrightarrow> r = found \<or> (\<exists>i l. r = Some i \<and> (i, l) \<in> set ls)"
  by (induction a ls found v rule: anchor_scan.induct) (auto split: if_splits, blast+)

lemma anchor_line_bound:
  assumes "anchor_line src start a v = Inr (i, v')"
  shows "i < length src"
proof -
  from assms obtain f where "anchor_scan a (drop start (enumerate 0 src)) None v = Inr (Some i, f)"
    by (auto simp: anchor_line_def find_unique_codex_anchor_def)
  from anchor_scan_sound[OF this] show ?thesis by (auto simp: drop_enumerate in_set_enumerate_eq)
qed

lemma locate_codex_hunk_sound:
  assumes "locate_codex_hunk loc p counts eof src (codex_source_index src) cur v = Some (Inr (start, v'))"
    and "fst counts = length p"
  shows "codex_contents_match_at p src start \<and> start + length p \<le> length src"
proof (cases loc)
  case (RangeLocator old new)
  with assms show ?thesis by (auto simp: locate_codex_hunk_def split: if_splits)
next
  case (AnchorLocator anchor)
  consider (eof) "eof" | (ins) "\<not> eof" "fst counts = 0" | (search) "\<not> eof" "fst counts \<noteq> 0" by blast
  then show ?thesis
  proof cases
    case eof
    with assms AnchorLocator show ?thesis
      by (auto simp: locate_codex_hunk_def checked_sub_def split: if_splits)
  next
    case ins
    with assms AnchorLocator obtain a w i where "anchor_line src cur a v = Inr (i, w)" "start = i + 1"
      by (auto simp: locate_codex_hunk_def checked_add_def split: if_splits)
    with anchor_line_bound[of src cur a v i w] ins assms(2) show ?thesis by simp
  next
    case search
    with assms AnchorLocator obtain ms w where
      "find_unique_codex_match p src (codex_source_index src) ms w = Some (Inr (Some start, v'))"
      by (auto simp: locate_codex_hunk_def run_bind_eq_Inr split: sum.splits)
    from find_unique_codex_match_sound[OF this] show ?thesis by simp
  qed
qed

lemma mark_codex_source_endings_old:
  assumes "mark_codex_source_endings pref cs (drop i src) = Inr cs'"
    and "codex_contents_match_at (filter (\<lambda>c. pc_kind c \<noteq> Add) cs) src i"
  shows "old_matches (take (old_count cs) (drop i src)) cs' \<and> map pc_kind cs' = map pc_kind cs"
  using assms
proof (induction cs arbitrary: i cs')
  case (Cons c cs)
  show ?case
  proof (cases "pc_kind c = Add")
    case True
    with Cons show ?thesis by auto
  next
    case False
    with Cons.prems(2) have l: "i < length src" "sl_text (src ! i) = pc_text c"
        "old_no_newline c \<Longrightarrow> sl_ending (src ! i) = EndNone"
      and m: "codex_contents_match_at (filter (\<lambda>c. pc_kind c \<noteq> Add) cs) src (i + 1)"
      by (auto simp: get_def split: if_splits)
    from l(1) have d: "drop i src = src ! i # drop (i + 1) src" by (simp add: Cons_nth_drop_Suc)
    from False Cons.prems(1) d obtain cs2 where
        r: "mark_codex_source_endings pref cs (drop (i + 1) src) = Inr cs2"
      and cs': "\<exists>c'. cs' = c' # cs2 \<and> pc_kind c' = pc_kind c \<and> pc_text c' = pc_text c
        \<and> old_no_newline c' = (old_no_newline c \<or> sl_ending (src ! i) = EndNone)"
      by (auto split: if_splits)
    from Cons.IH[OF r m] cs' l False d show ?thesis
      by (cases "pc_kind c") auto
  qed
qed auto

lemma old_matches_mark [simp]:
  "old_matches ls (mark_last_kept cs) = old_matches ls cs" "map pc_kind (mark_last_kept cs) = map pc_kind cs"
  by (induction cs arbitrary: ls) (auto split: PatchLineKind.splits list.splits)

lemma count_kinds:
  "map pc_kind cs = map pc_kind ds \<Longrightarrow> old_count cs = old_count ds \<and> new_count cs = new_count ds"
  by (induction cs ds rule: list_induct2') auto

lemma hunks_match_mono: "hunks_match src c hs \<Longrightarrow> c' \<le> c \<Longrightarrow> hunks_match src c' hs"
  by (cases hs) (auto simp: Let_def)

lemma ordered_hunks_mono: "ordered_hunks a b hs \<Longrightarrow> a' \<le> a \<Longrightarrow> b' \<le> b \<Longrightarrow> ordered_hunks a' b' hs"
  by (cases hs) auto

text \<open>One hunk placed: the cursors move forward, and the new hunk covers exactly the step.\<close>

definition placed :: "SourceLine list \<Rightarrow> resolve_state \<Rightarrow> resolve_state \<Rightarrow> ResolvedHunk \<Rightarrow> bool" where
  "placed src st st' r =
     (hunk_ok r \<and> rs_source_cursor st \<le> hr_index (rh_old r) \<and> rs_output_cursor st \<le> hr_index (rh_new r)
      \<and> hr_end (rh_old r) = rs_source_cursor st' \<and> hr_end (rh_new r) = rs_output_cursor st'
      \<and> old_matches (take (hr_end (rh_old r) - hr_index (rh_old r)) (drop (hr_index (rh_old r)) src)) (rh_contents r))"

lemma make_hunk_range_Inr:
  "make_hunk_range i n = Inr r \<Longrightarrow> range_ok r n \<and> hr_index r = i \<and> hr_end r = i + n"
  by (auto simp: make_hunk_range_def range_ok_def)

lemma guard_Inr: "(if b then Inl e else r) = Inr y \<longleftrightarrow> \<not> b \<and> r = Inr y"
  by simp

lemma place_hunk_placed:
  assumes p: "place_hunk is_last h counts start v pref src st = Inr st'"
    and c: "counts = (old_count (ch_contents h), new_count (ch_contents h))" and ne: "ch_contents h \<noteq> []"
    and m: "codex_contents_match_at (filter (\<lambda>c. pc_kind c \<noteq> Add) (ch_contents h)) src start"
    and b: "start + old_count (ch_contents h) \<le> length src"
  shows "\<exists>r. rs_resolved st' = rs_resolved st @ [r] \<and> placed src st st' r \<and> rs_source_cursor st' \<le> length src"
proof -
  let ?oc = "old_count (ch_contents h)" and ?nc = "new_count (ch_contents h)"
  let ?cs' = "\<lambda>cs. if is_last \<and> src \<noteq> [] \<and> sl_ending (last src) = EndNone \<and> start + ?oc = length src
    then mark_codex_result_no_newline cs ?nc else cs"
  from p c ne obtain cs old new out where
      le: "rs_source_cursor st \<le> start" "rs_output_cursor st \<le> out"
    and mk: "mark_codex_source_endings pref (ch_contents h) (drop start src) = Inr cs"
    and old: "make_hunk_range start ?oc = Inr old" and new: "make_hunk_range out ?nc = Inr new"
    and st': "st' = \<lparr>rs_resolved = rs_resolved st @ [\<lparr>rh_old = old, rh_new = new, rh_contents = ?cs' cs\<rparr>],
        rs_source_cursor = start + ?oc, rs_output_cursor = out + ?nc, rs_previous_start = Some start, rs_visits = v\<rparr>"
    by (auto simp: place_hunk_def Let_def guard_Inr simp del: if_split)
  define cs' where "cs' = ?cs' cs"
  then have cs': "cs' = cs \<or> cs' = mark_codex_result_no_newline cs ?nc" by simp
  note st' = st'[folded cs'_def]
  from mark_codex_source_endings_old[OF mk m] cs'
  have om: "old_matches (take ?oc (drop start src)) cs'" and "map pc_kind cs' = map pc_kind (ch_contents h)"
    by (auto simp: mark_codex_result_no_newline_def)
  from count_kinds[OF this(2)] this(2) ne make_hunk_range_Inr[OF old] make_hunk_range_Inr[OF new] om le st' b
  show ?thesis by (auto simp: placed_def hunk_ok_def)
qed

lemma place_anchor_only:
  assumes "place_hunk is_last h counts start v pref src st = Inr st'" and "ch_contents h = []"
  shows "rs_resolved st' = rs_resolved st \<and> rs_source_cursor st' = start \<and> rs_source_cursor st \<le> start
    \<and> rs_output_cursor st \<le> rs_output_cursor st'"
  using assms by (auto simp: place_hunk_def split: if_splits)

lemma codex_start_sound:
  assumes "codex_start h (old_count (ch_contents h), n) src (codex_source_index src) st = Some (Inr (start, v))"
  shows "start + old_count (ch_contents h) \<le> length src
    \<and> codex_contents_match_at (filter (\<lambda>c. pc_kind c \<noteq> Add) (ch_contents h)) src start"
proof (cases "ch_contents h = []")
  case True
  with assms obtain a where "anchor_line src (rs_source_cursor st) a (rs_visits st) = Inr (start, v)"
    by (auto simp: codex_start_def split: CodexLocator.splits option.splits)
  with True anchor_line_bound[OF this] show ?thesis by simp
next
  case False
  with assms locate_codex_hunk_sound[of "ch_locator h" "filter (\<lambda>c. pc_kind c \<noteq> Add) (ch_contents h)"]
  show ?thesis by (auto simp: codex_start_def old_count_filter)
qed

lemma resolve_hunks_sound:
  assumes "resolve_hunks pref src (codex_source_index src) hs st = Some (Inr st')"
    and "rs_source_cursor st \<le> length src"
  shows "\<exists>rs. rs_resolved st' = rs_resolved st @ rs \<and> list_all hunk_ok rs
    \<and> ordered_hunks (rs_source_cursor st) (rs_output_cursor st) rs \<and> hunks_match src (rs_source_cursor st) rs
    \<and> (hs \<noteq> [] \<longrightarrow> ch_contents (last hs) \<noteq> [] \<longrightarrow> rs \<noteq> [])"
  using assms
proof (induction hs arbitrary: st)
  case (Cons h hs)
  from Cons.prems(1) obtain m n start v st1 where
      c: "codex_content_counts (ch_contents h) = Inr (m, n)"
    and s: "codex_start h (m, n) src (codex_source_index src) st = Some (Inr (start, v))"
    and p: "place_hunk (hs = []) h (m, n) start v pref src st = Inr st1"
    and r: "resolve_hunks pref src (codex_source_index src) hs st1 = Some (Inr st')"
    by (auto simp: run_bind_eq_Inr simp del: run_bind_Some split: if_splits)
  from codex_content_counts_Inr[OF c] have mn: "m = old_count (ch_contents h)" "n = new_count (ch_contents h)" by auto
  from codex_start_sound s mn have b: "start + old_count (ch_contents h) \<le> length src"
    and ma: "codex_contents_match_at (filter (\<lambda>c. pc_kind c \<noteq> Add) (ch_contents h)) src start" by auto
  show ?case
  proof (cases "ch_contents h = []")
    case True
    from place_anchor_only[OF p True] b have st1: "rs_resolved st1 = rs_resolved st" "rs_source_cursor st1 \<le> length src"
      "rs_source_cursor st \<le> rs_source_cursor st1" "rs_output_cursor st \<le> rs_output_cursor st1" by auto
    from Cons.IH[OF r st1(2)] st1 True show ?thesis
      by (auto dest: hunks_match_mono ordered_hunks_mono)
  next
    case False
    from place_hunk_placed[OF p _ False ma b] mn obtain x where
      x: "rs_resolved st1 = rs_resolved st @ [x]" "placed src st st1 x" "rs_source_cursor st1 \<le> length src" by auto
    then have "hr_index (rh_old x) \<le> hr_end (rh_old x)" by (auto simp: placed_def hunk_ok_def range_ok_def)
    with Cons.IH[OF r x(3)] x show ?thesis by (auto simp: placed_def Let_def)
  qed
qed simp

lemma codex_hunks_nonempty:
  "codex_hunks acc ls = Inr hs \<Longrightarrow> hs \<noteq> [] \<and> ch_contents (last hs) \<noteq> []"
proof (induction acc ls rule: codex_hunks.induct)
  case (1 acc ls)
  from "1.prems" obtain raw ls1 where n: "next_line ls = Inr (raw, ls1)"
    by (auto simp: codex_hunks.simps[of acc ls])
  show ?case
  proof (cases "strip_transport_ending raw = CODEX_END_PATCH")
    case True
    with "1.prems" n show ?thesis by (auto simp: codex_hunks.simps[of acc ls] split: if_splits)
  next
    case False
    with "1.prems" n obtain loc cs eof ls2 where
        l: "parse_codex_locator (strip_transport_ending raw) = Inr loc" "codex_contents [] ls1 = Inr (cs, eof, ls2)"
      and g: "starts_with (strip_transport_ending raw) ''@@''"
        "\<not> (cs = [] \<and> (eof \<or> \<not> (case loc of AnchorLocator (Some _) \<Rightarrow> True | _ \<Rightarrow> False)))"
      and r: "codex_hunks (acc @ [\<lparr>ch_locator = loc, ch_contents = cs, ch_end_of_file = eof\<rparr>]) ls2 = Inr hs"
      by (auto simp: codex_hunks.simps[of acc ls] Let_def split: if_splits)
    from "1.IH"[OF n refl refl False _ l refl refl g(2) r] g(1) show ?thesis by simp
  qed
qed

lemma codex_hunks_fit_source:
  assumes "parse_and_resolve_codex_patch path patch src = Some (Inr hunks)"
  shows "hunks \<noteq> [] \<and> list_all hunk_ok hunks \<and> ordered_hunks 0 0 hunks \<and> hunks_match src 0 hunks"
proof -
  let ?st = "\<lparr>rs_resolved = [], rs_source_cursor = 0, rs_output_cursor = 0, rs_previous_start = None, rs_visits = 0\<rparr>"
  from assms obtain hs st where h: "parse_codex_patch path patch = Inr hs"
    and r: "resolve_hunks (preferred_line_ending src) src (codex_source_index src) hs ?st = Some (Inr st)"
    and st: "hunks = rs_resolved st"
    by (auto simp: parse_and_resolve_codex_patch_def run_bind_eq_Inr split: sum.splits)
  from h obtain ls where "codex_hunks [] ls = Inr hs" by (auto simp: parse_codex_patch_def split: if_splits)
  from codex_hunks_nonempty[OF this] resolve_hunks_sound[OF r] st show ?thesis by auto
qed

section \<open>The lines of the patch\<close>

text \<open>
  A reading of the patch that does not parse hunks: the lines that are neither hunk headers nor marks, each with its
  kind and text. The body of a patch runs from its first hunk header to its end.
\<close>

definition written :: "PatchContent list \<Rightarrow> (PatchLineKind \<times> string) list" where
  "written cs = map (\<lambda>c. (pc_kind c, pc_text c)) cs"

definition body_line :: "string \<Rightarrow> (PatchLineKind \<times> string) option" where
  "body_line l =
     (if starts_with l ''@@'' \<or> starts_with l ''***'' \<or> l = NO_NEWLINE_AT_END then None
      else case l of
        [] \<Rightarrow> Some (Context, [])
      | k # t \<Rightarrow> if k = CHR '' '' then Some (Context, t) else if k = CHR ''-'' then Some (Remove, t)
                else if k = CHR ''+'' then Some (Add, t) else None)"

definition body :: "string list \<Rightarrow> (PatchLineKind \<times> string) list" where
  "body ls = List.map_filter body_line ls"

definition is_patch_body :: "string \<Rightarrow> (PatchLineKind \<times> string) list \<Rightarrow> bool" where
  "is_patch_body patch ws \<longleftrightarrow>
     (\<exists>header mid rest. map strip_transport_ending (patch_lines patch) = header @ mid @ rest
        \<and> list_all (\<lambda>l. \<not> starts_with l ''@@'') header \<and> mid \<noteq> [] \<and> starts_with (hd mid) ''@@'' \<and> ws = body mid
        \<and> (list_all (\<lambda>l. l = []) rest \<or> (\<exists>blank. rest = CODEX_END_PATCH # blank \<and> list_all (\<lambda>l. l = []) blank)))"

lemma written_simps [simp]:
  "written [] = []" "written (c # cs) = (pc_kind c, pc_text c) # written cs" "written (cs @ ds) = written cs @ written ds"
  by (simp_all add: written_def)

lemma body_simps [simp]:
  "body [] = []" "body (l # ls) = (case body_line l of None \<Rightarrow> body ls | Some w \<Rightarrow> w # body ls)"
  "body (ls @ ls') = body ls @ body ls'"
  by (auto simp: body_def List.map_filter_def split: option.splits)

lemma body_line_mark [simp]:
  "starts_with l ''@@'' \<Longrightarrow> body_line l = None" "starts_with l ''***'' \<Longrightarrow> body_line l = None"
  "body_line NO_NEWLINE_AT_END = None" "body_line CODEX_END_OF_FILE = None"
  by (simp_all add: body_line_def CODEX_END_OF_FILE_def)

lemma body_line_content:
  assumes "parse_patch_content l = Inr c" "l \<noteq> NO_NEWLINE_AT_END"
  shows "body_line l = Some (pc_kind c, pc_text c)"
  using assms by (cases l) (auto simp: parse_patch_content_def body_line_def content_def split: if_splits)

lemma next_line_Inr [simp]: "next_line ls = Inr (l, ls') \<longleftrightarrow> ls = l # ls'"
  by (cases ls) (auto simp: next_line_def)

lemma consume_no_newline_body:
  assumes "consume_no_newline ls c = Inr (c', ls')"
  obtains m where "map strip_transport_ending ls = m @ map strip_transport_ending ls'" "body m = []"
    "pc_kind c' = pc_kind c" "pc_text c' = pc_text c"
proof (cases "at_no_newline ls")
  case True
  then obtain l where l: "ls = l # ls'" "strip_transport_ending l = NO_NEWLINE_AT_END"
    using assms by (cases ls) (auto simp: consume_no_newline_def at_no_newline_def split: if_splits)
  then show thesis using that[of "[strip_transport_ending l]"] consume_no_newline_kind[OF assms] by simp
next
  case False
  then show thesis using that[of "[]"] assms by (simp add: consume_no_newline_def)
qed

lemma parse_hunk_contents_body:
  "parse_hunk_contents eo en oc nc acc ls = Inr (cs, ls') \<Longrightarrow>
     \<exists>m. map strip_transport_ending ls = m @ map strip_transport_ending ls' \<and> written cs = written acc @ body m"
proof (induction eo en oc nc acc ls rule: parse_hunk_contents.induct)
  case (1 eo en oc nc acc ls)
  show ?case
  proof (cases "oc < eo \<or> nc < en")
    case True
    with "1.prems" obtain raw ls1 c old' new' c' ls2
      where n: "next_line ls = Inr (raw, ls1)" and line: "strip_transport_ending raw \<noteq> NO_NEWLINE_AT_END"
        and c: "parse_patch_content (strip_transport_ending raw) = Inr c"
        and a: "add oc (fst (delta (pc_kind c))) = Inr old'" "add nc (snd (delta (pc_kind c))) = Inr new'"
        and le: "\<not> (eo < old' \<or> en < new')" and k: "consume_no_newline ls1 c = Inr (c', ls2)"
        and r: "parse_hunk_contents eo en old' new' (acc @ [c']) ls2 = Inr (cs, ls')"
      by (auto simp: parse_hunk_contents.simps[of eo en oc nc acc ls] Let_def simp del: next_line_Inr split: if_splits)
    from "1.IH"[OF True n refl refl line c a le k refl r] obtain m where
      m: "map strip_transport_ending ls2 = m @ map strip_transport_ending ls'" "written cs = written (acc @ [c']) @ body m"
      by blast
    from k obtain m1 where "map strip_transport_ending ls1 = m1 @ map strip_transport_ending ls2" "body m1 = []"
      "pc_kind c' = pc_kind c" "pc_text c' = pc_text c" by (rule consume_no_newline_body)
    then show ?thesis
      using m n body_line_content[OF c line] by (intro exI[of _ "strip_transport_ending raw # m1 @ m"]) simp
  next
    case False
    with "1.prems" show ?thesis
      by (auto simp: parse_hunk_contents.simps[of eo en oc nc acc ls] split: if_splits intro: exI[of _ "[]"])
  qed
qed

lemma parse_hunk_header_at: "parse_hunk_header l = Inr v \<Longrightarrow> starts_with l ''@@''"
  by (auto simp: parse_hunk_header_def Let_def prefix_def split: if_splits)

lemma unified_loop_body:
  assumes "unified_loop po pn acc h ls = Inr hunks"
  shows "\<exists>hs m rest. hunks = acc @ hs \<and> strip_transport_ending h # map strip_transport_ending ls = m @ rest
    \<and> m \<noteq> [] \<and> hd m = strip_transport_ending h \<and> starts_with (strip_transport_ending h) ''@@''
    \<and> concat (map (\<lambda>h. written (rh_contents h)) hs) = body m \<and> list_all (\<lambda>l. l = []) rest"
  using assms
proof (induction po pn acc h ls rule: unified_loop.induct)
  case (1 po pn acc h ls)
  from "1.prems" obtain old new cs ls1 where
      hd: "parse_hunk_header (strip_transport_ending h) = Inr (old, new)"
    and ord: "\<not> (hr_index old < po \<or> hr_index new < pn)"
    and c: "parse_hunk_contents (hr_count old) (hr_count new) 0 0 [] ls = Inr (cs, ls1)"
    and r: "(case ls1 of
              [] \<Rightarrow> Inr (acc @ [\<lparr>rh_old = old, rh_new = new, rh_contents = cs\<rparr>])
            | line # ls2 \<Rightarrow>
                if starts_with (strip_transport_ending line) ''@@ ''
                then unified_loop (hr_end old) (hr_end new)
                       (acc @ [\<lparr>rh_old = old, rh_new = new, rh_contents = cs\<rparr>]) line ls2
                else if strip_transport_ending line = []
                then res_bind (finish_lines ls2) (\<lambda>_. Inr (acc @ [\<lparr>rh_old = old, rh_new = new, rh_contents = cs\<rparr>]))
                else Inl InvalidInvocation) = Inr hunks"
    by (auto simp: unified_loop.simps[of po pn acc h ls] Let_def split: if_splits)
  let ?h = "\<lparr>rh_old = old, rh_new = new, rh_contents = cs\<rparr>"
  note at = parse_hunk_header_at[OF hd]
  from parse_hunk_contents_body[OF c] obtain m where
    m: "map strip_transport_ending ls = m @ map strip_transport_ending ls1" "written cs = body m" by auto
  show ?case
  proof (cases "\<exists>line ls2. ls1 = line # ls2 \<and> starts_with (strip_transport_ending line) ''@@ ''")
    case True
    then obtain line ls2 where l: "ls1 = line # ls2" "starts_with (strip_transport_ending line) ''@@ ''" by blast
    with r have u: "unified_loop (hr_end old) (hr_end new) (acc @ [?h]) line ls2 = Inr hunks" by simp
    from "1.IH"[OF hd refl ord c refl refl l u] obtain hs m2 rest where
      i: "hunks = (acc @ [?h]) @ hs" "strip_transport_ending line # map strip_transport_ending ls2 = m2 @ rest"
        "concat (map (\<lambda>h. written (rh_contents h)) hs) = body m2" "list_all (\<lambda>l. l = []) rest" by blast
    show ?thesis
      by (rule exI[of _ "?h # hs"], rule exI[of _ "strip_transport_ending h # m @ m2"], rule exI[of _ rest])
        (use i m at l(1) in simp)
  next
    case False
    with r have e: "hunks = acc @ [?h]" "list_all (\<lambda>l. strip_transport_ending l = []) ls1"
      by (auto simp: finish_lines_def split: list.splits if_splits)
    show ?thesis
      by (rule exI[of _ "[?h]"], rule exI[of _ "strip_transport_ending h # m"],
          rule exI[of _ "map strip_transport_ending ls1"]) (use e m at in \<open>auto simp: list_all_iff\<close>)
  qed
qed

lemma codex_contents_body:
  "codex_contents acc ls = Inr (cs, eof, ls') \<Longrightarrow>
     \<exists>m. map strip_transport_ending ls = m @ map strip_transport_ending ls' \<and> written cs = written acc @ body m"
proof (induction acc ls rule: codex_contents.induct)
  case (1 acc ls)
  from "1.prems" obtain raw ls1 where n: "next_line ls = Inr (raw, ls1)"
    by (auto simp: codex_contents.simps[of acc ls] simp del: next_line_Inr)
  let ?l = "strip_transport_ending raw"
  show ?case
  proof (cases "?l = CODEX_END_PATCH \<or> starts_with ?l ''@@'' \<or> ?l = CODEX_END_OF_FILE
      \<or> starts_with ?l ''***'' \<or> ?l = NO_NEWLINE_AT_END")
    case True
    with "1.prems" n consider "cs = acc" "ls' = ls" | "cs = acc" "ls' = ls1" "?l = CODEX_END_OF_FILE"
      by (auto simp: codex_contents.simps[of acc ls] Let_def simp del: next_line_Inr split: if_splits)
    then show ?thesis
    proof cases
      case 1 then show ?thesis by (intro exI[of _ "[]"]) simp
    next
      case 2 then show ?thesis using n by (intro exI[of _ "[?l]"]) simp
    qed
  next
    case False
    with "1.prems" n obtain c c' ls2 where c: "parse_patch_content ?l = Inr c"
      and k: "consume_no_newline ls1 c = Inr (c', ls2)" and r: "codex_contents (acc @ [c']) ls2 = Inr (cs, eof, ls')"
      by (auto simp: codex_contents.simps[of acc ls] Let_def simp del: next_line_Inr split: if_splits)
    from "1.IH"[OF n refl refl _ _ _ c k refl r] False obtain m where
      m: "map strip_transport_ending ls2 = m @ map strip_transport_ending ls'" "written cs = written (acc @ [c']) @ body m"
      by auto
    from k obtain m1 where "map strip_transport_ending ls1 = m1 @ map strip_transport_ending ls2" "body m1 = []"
      "pc_kind c' = pc_kind c" "pc_text c' = pc_text c" by (rule consume_no_newline_body)
    then show ?thesis
      using m n body_line_content[OF c] False by (intro exI[of _ "?l # m1 @ m"]) simp
  qed
qed

lemma codex_hunks_body:
  "codex_hunks acc ls = Inr hs \<Longrightarrow>
     \<exists>hs' m blank. hs = acc @ hs' \<and> map strip_transport_ending ls = m @ CODEX_END_PATCH # blank
       \<and> list_all (\<lambda>l. l = []) blank \<and> concat (map (\<lambda>h. written (ch_contents h)) hs') = body m
       \<and> (m \<noteq> [] \<longrightarrow> starts_with (hd m) ''@@'')"
proof (induction acc ls rule: codex_hunks.induct)
  case (1 acc ls)
  from "1.prems" obtain raw ls1 where n: "next_line ls = Inr (raw, ls1)"
    by (auto simp: codex_hunks.simps[of acc ls] simp del: next_line_Inr)
  let ?l = "strip_transport_ending raw"
  show ?case
  proof (cases "?l = CODEX_END_PATCH")
    case True
    with "1.prems" n have e: "hs = acc" "list_all (\<lambda>l. strip_transport_ending l = []) ls1"
      by (auto simp: codex_hunks.simps[of acc ls] finish_lines_def Let_def simp del: next_line_Inr split: if_splits)
    show ?thesis
      by (rule exI[of _ "[]"], rule exI[of _ "[]"], rule exI[of _ "map strip_transport_ending ls1"])
        (use e n True in \<open>auto simp: list_all_iff\<close>)
  next
    case False
    with "1.prems" n obtain loc cs eof ls2 where at: "starts_with ?l ''@@''" and lo: "parse_codex_locator ?l = Inr loc"
      and c: "codex_contents [] ls1 = Inr (cs, eof, ls2)"
      and g: "\<not> (cs = [] \<and> (eof \<or> \<not> (case loc of AnchorLocator (Some _) \<Rightarrow> True | _ \<Rightarrow> False)))"
      and r: "codex_hunks (acc @ [\<lparr>ch_locator = loc, ch_contents = cs, ch_end_of_file = eof\<rparr>]) ls2 = Inr hs"
      by (auto simp: codex_hunks.simps[of acc ls] Let_def simp del: next_line_Inr split: if_splits)
    from codex_contents_body[OF c] obtain m where
      m: "map strip_transport_ending ls1 = m @ map strip_transport_ending ls2" "written cs = body m" by auto
    let ?h = "\<lparr>ch_locator = loc, ch_contents = cs, ch_end_of_file = eof\<rparr>"
    have "\<exists>hs' m2 blank. hs = (acc @ [?h]) @ hs' \<and> map strip_transport_ending ls2 = m2 @ CODEX_END_PATCH # blank
       \<and> list_all (\<lambda>l. l = []) blank \<and> concat (map (\<lambda>h. written (ch_contents h)) hs') = body m2
       \<and> (m2 \<noteq> [] \<longrightarrow> starts_with (hd m2) ''@@'')"
      using "1.IH"[OF n refl refl False _ lo c refl refl g r] at by simp
    then obtain hs' m2 blank where i: "hs = (acc @ [?h]) @ hs'"
      "map strip_transport_ending ls2 = m2 @ CODEX_END_PATCH # blank" "list_all (\<lambda>l. l = []) blank"
      "concat (map (\<lambda>h. written (ch_contents h)) hs') = body m2" by blast
    show ?thesis
      by (rule exI[of _ "?h # hs'"], rule exI[of _ "?l # m @ m2"], rule exI[of _ blank]) (use i m n at in simp)
  qed
qed

lemma mark_endings_written:
  "mark_codex_source_endings pref cs ls = Inr cs' \<Longrightarrow> written cs' = written cs"
  by (induction pref cs ls arbitrary: cs' rule: mark_codex_source_endings.induct)
    (auto simp: res_bind_eq_Inr split: if_splits list.splits)

lemma mark_last_kept_written [simp]: "written (mark_last_kept cs) = written cs"
  by (induction cs rule: mark_last_kept.induct) auto

lemma place_hunk_written:
  assumes "place_hunk is_last h counts start v pref src st = Inr st'"
  shows "concat (map (\<lambda>h. written (rh_contents h)) (rs_resolved st')) =
    concat (map (\<lambda>h. written (rh_contents h)) (rs_resolved st)) @ written (ch_contents h)"
  using assms mark_endings_written[of pref "ch_contents h" "drop start src"]
  by (auto simp: place_hunk_def Let_def mark_codex_result_no_newline_def split: if_splits)

lemma resolve_hunks_written:
  "resolve_hunks pref src index hs st = Some (Inr st') \<Longrightarrow>
     concat (map (\<lambda>h. written (rh_contents h)) (rs_resolved st')) =
     concat (map (\<lambda>h. written (rh_contents h)) (rs_resolved st)) @ concat (map (\<lambda>h. written (ch_contents h)) hs)"
proof (induction hs arbitrary: st)
  case (Cons h hs)
  from Cons.prems obtain counts start v st1 where
      p: "place_hunk (hs = []) h counts start v pref src st = Inr st1"
    and r: "resolve_hunks pref src index hs st1 = Some (Inr st')"
    by (auto simp: run_bind_eq_Inr simp del: run_bind_Some split: if_splits)
  show ?case using Cons.IH[OF r] place_hunk_written[OF p] by simp
qed simp

lemma strip_transport_prefix: "prefix (strip_transport_ending l) l"
  by (auto simp: strip_transport_ending_def split: option.splits)

lemma not_at_prefix: "starts_with l p \<Longrightarrow> p \<noteq> [] \<Longrightarrow> hd p \<noteq> CHR ''@'' \<Longrightarrow> \<not> starts_with (strip_transport_ending l) ''@@''"
  using strip_transport_prefix[of l] by (cases p) (auto simp: prefix_def)

lemma skip_git_lines_header:
  assumes "skip_git_lines f0 ls0 = Inr (first, ls)"
  obtains git where "f0 # ls0 = git @ first # ls" "list_all (\<lambda>l. \<not> starts_with (strip_transport_ending l) ''@@'') git"
proof -
  have d: "starts_with l ''diff --git '' \<or> starts_with l ''index '' \<Longrightarrow> \<not> starts_with (strip_transport_ending l) ''@@''" for l
    using not_at_prefix[of l "''diff --git ''"] not_at_prefix[of l "''index ''"] by auto
  from assms consider "f0 # ls0 = [] @ first # ls" | "f0 # ls0 = [f0] @ first # ls" "starts_with f0 ''diff --git '' \<or> starts_with f0 ''index ''"
    | f1 where "f0 # ls0 = [f0, f1] @ first # ls" "starts_with f0 ''diff --git ''" "starts_with f1 ''index ''"
    by (auto simp: skip_git_lines_def split: if_splits)
  then show thesis
    by cases (use that[of "[]"] that[of "[f0]"] d in \<open>auto simp: list_all_iff intro: that[of "[f0, _]"]\<close>)
qed

lemma not_at_stripped: "starts_with (strip_transport_ending l) p \<Longrightarrow> p \<noteq> [] \<Longrightarrow> hd p \<noteq> CHR ''@'' \<Longrightarrow>
    \<not> starts_with (strip_transport_ending l) ''@@''"
  by (cases p) (auto simp: prefix_def)

definition sample_patch :: string where
  "sample_patch = ''*** Begin Patch'' @ [LF] @ ''*** Update File: f'' @ [LF] @ ''@@'' @ [LF] @ ''-b'' @ [LF]
     @ ''+x'' @ [LF] @ ''*** End Patch'' @ [LF]"

definition sample_source :: string where
  "sample_source = ''a'' @ [LF] @ ''b'' @ [LF] @ ''c''"

lemma sample_patch_lines:
  "patch_lines sample_patch =
     [''*** Begin Patch'' @ [LF], ''*** Update File: f'' @ [LF], ''@@'' @ [LF], ''-b'' @ [LF], ''+x'' @ [LF],
      ''*** End Patch'' @ [LF]]"
  by (simp add: patch_lines_def sample_patch_def)

lemma sample_patch_parses:
  "parse_codex_patch ''f'' sample_patch =
     Inr [\<lparr>ch_locator = AnchorLocator None, ch_contents = [content Remove ''b'', content Add ''x''],
           ch_end_of_file = False\<rparr>]"
  by (simp add: parse_codex_patch_def sample_patch_lines codex_hunks.simps codex_contents.simps next_line_def
      strip_transport_ending_def Let_def strip_suffix_def CODEX_BEGIN_PATCH_def CODEX_END_PATCH_def
      CODEX_UPDATE_FILE_def CODEX_END_OF_FILE_def NO_NEWLINE_AT_END_def consume_no_newline_def at_no_newline_def
      parse_patch_content_def content_def parse_codex_locator_def validate_header_path_def finish_lines_def trim_str_def)

lemma sample_patch_resolves:
  "parse_and_resolve_codex_patch ''f'' sample_patch (split_source_lines sample_source) = Some (Inr [sample_hunk])"
  by (simp add: parse_and_resolve_codex_patch_def sample_patch_parses sample_source_def split_source_lines_def
      preferred_line_ending_def codex_content_counts_def codex_start_def locate_codex_hunk_def content_def
      find_unique_codex_match_def codex_source_index_def index_line_def search_or_insert_def count_visit_cases
      MAX_CODEX_MATCH_VISITS_def get_def place_hunk_def range_agrees_def make_hunk_range_def sample_hunk_def
      u64_bound_def Let_def)

lemma sample_patch_applies:
  "apply_single_file_patch ''f'' sample_source sample_patch = Some (Inr (''a'' @ [LF] @ ''x'' @ [LF] @ ''c''))"
  using sample_applies
  by (simp add: apply_single_file_patch_def sample_patch_lines sample_patch_resolves next_line_def
      strip_transport_ending_def strip_suffix_def CODEX_BEGIN_PATCH_def Let_def) (simp add: sample_source_def)

text \<open>C25: What a Codex patch resolves to always fits the file it was resolved against: there is at
  least one hunk, every hunk's ranges have the lengths of its contents and stay below the 64-bit
  limit, hunks advance through both files, and the old lines of every hunk are the source lines it
  points at, with the no-newline marks of the source.\<close>

theorem codex_resolution_fits:
  assumes "parse_and_resolve_codex_patch path patch src = Some (Inr hunks)"
  shows "hunks \<noteq> [] \<and> list_all hunk_ok hunks \<and> ordered_hunks 0 0 hunks \<and> hunks_match src 0 hunks"
  by (rule codex_hunks_fit_source[OF assms])

theorem codex_resolution_fits_witness:
  "hunk_ok sample_hunk \<and> hunks_match (split_source_lines sample_source) 0 [sample_hunk]"
  using codex_resolution_fits[OF sample_patch_resolves] by simp

lemma codex_patch_body:
  assumes "parse_and_resolve_codex_patch path patch src = Some (Inr hunks)"
  shows "is_patch_body patch (concat (map (\<lambda>h. written (rh_contents h)) hunks))"
proof -
  from assms obtain hs st where h: "parse_codex_patch path patch = Inr hs" and st: "hunks = rs_resolved st"
    and r: "resolve_hunks (preferred_line_ending src) src (codex_source_index src) hs
      \<lparr>rs_resolved = [], rs_source_cursor = 0, rs_output_cursor = 0, rs_previous_start = None, rs_visits = 0\<rparr> = Some (Inr st)"
    by (auto simp: parse_and_resolve_codex_patch_def run_bind_eq_Inr split: sum.splits)
  from h obtain b u ls where l: "patch_lines patch = b # u # ls" "strip_transport_ending b = CODEX_BEGIN_PATCH"
      "starts_with (strip_transport_ending u) CODEX_UPDATE_FILE" and c: "codex_hunks [] ls = Inr hs"
    by (auto simp: parse_codex_patch_def prefix_def split: if_splits)
  from codex_hunks_body[OF c] obtain m blank where m: "map strip_transport_ending ls = m @ CODEX_END_PATCH # blank"
    "list_all (\<lambda>l. l = []) blank" "concat (map (\<lambda>h. written (ch_contents h)) hs) = body m"
    "m \<noteq> [] \<longrightarrow> starts_with (hd m) ''@@''" by auto
  have "m \<noteq> []"
    using codex_hunks_nonempty[OF c] m(3) by (cases hs rule: rev_cases) (auto simp: written_def)
  moreover have "concat (map (\<lambda>h. written (rh_contents h)) hunks) = body m"
    using resolve_hunks_written[OF r] m(3) st by simp
  moreover have "\<not> starts_with (strip_transport_ending u) ''@@''"
    using not_at_stripped[OF l(3)] by (simp add: CODEX_UPDATE_FILE_def)
  ultimately show ?thesis
    unfolding is_patch_body_def l(1) using l(2) m
    by (intro exI[of _ "[strip_transport_ending b, strip_transport_ending u]"] exI[of _ m]
        exI[of _ "CODEX_END_PATCH # blank"]) (simp add: CODEX_BEGIN_PATCH_def)
qed

lemma unified_patch_body:
  assumes "parse_unified_patch path patch = Inr hunks"
  shows "is_patch_body patch (concat (map (\<lambda>h. written (rh_contents h)) hunks))"
proof -
  from assms obtain f0 ls0 first ls next_hunk ls2 where l: "patch_lines patch = f0 # ls0"
      and g: "skip_git_lines f0 ls0 = Inr (first, ls)"
      and n: "if starts_with (strip_transport_ending first) ''--- ''
        then \<exists>second. ls = second # next_hunk # ls2 \<and> starts_with (strip_transport_ending second) ''+++ ''
        else next_hunk = first \<and> ls2 = ls"
      and u: "unified_loop 0 0 [] next_hunk ls2 = Inr hunks"
    by (auto simp: parse_unified_patch_def parse_header_path_def prefix_def split: if_splits)
  from g obtain git where g': "f0 # ls0 = git @ first # ls"
      "list_all (\<lambda>l. \<not> starts_with (strip_transport_ending l) ''@@'') git"
    by (rule skip_git_lines_header)
  from n obtain hdr where h: "first # ls = hdr @ next_hunk # ls2"
      "list_all (\<lambda>l. \<not> starts_with (strip_transport_ending l) ''@@'') hdr"
  proof (cases "starts_with (strip_transport_ending first) ''--- ''")
    case True
    with n obtain second where "ls = second # next_hunk # ls2" "starts_with (strip_transport_ending second) ''+++ ''" by auto
    then show thesis using that[of "[first, second]"] True not_at_stripped[of first "''--- ''"]
        not_at_stripped[of second "''+++ ''"] by simp
  qed (use that[of "[]"] n in simp)
  from unified_loop_body[OF u] obtain m rest where m: "strip_transport_ending next_hunk # map strip_transport_ending ls2 = m @ rest"
    "m \<noteq> []" "starts_with (hd m) ''@@''" "concat (map (\<lambda>h. written (rh_contents h)) hunks) = body m"
    "list_all (\<lambda>l. l = []) rest" by auto
  have "map strip_transport_ending (patch_lines patch) = map strip_transport_ending (git @ hdr) @ m @ rest"
    unfolding l g'(1) h(1) using m(1) by simp
  then show ?thesis
    unfolding is_patch_body_def using g'(2) h(2) m
    by (intro exI[of _ "map strip_transport_ending (git @ hdr)"] exI[of _ m] exI[of _ rest])
      (auto simp: list_all_iff)
qed

text \<open>C2: End to end, for both patch formats: when the tool returns a patched file, the patch was read as hunks, by the
  Codex reader when its first line opens an envelope and as a unified diff otherwise. The context, removed and added
  lines of these hunks are exactly the content lines of the patch text, from its first hunk header to its end, in
  order. The hunks are ordered and well-formed, their old lines are the file's own lines at the place they were
  resolved to, and the result is the file with exactly those lines replaced, at most 512 KiB long.\<close>

theorem patched_file_is_splice:
  assumes "apply_single_file_patch path source patch = Some (Inr v)"
  shows "\<exists>hunks. (if strip_transport_ending (hd (patch_lines patch)) = CODEX_BEGIN_PATCH
      then parse_and_resolve_codex_patch path patch (split_source_lines source) = Some (Inr hunks)
      else parse_unified_patch path patch = Inr hunks)
    \<and> is_patch_body patch (concat (map (\<lambda>h. written (rh_contents h)) hunks))
    \<and> hunks \<noteq> [] \<and> list_all hunk_ok hunks \<and> ordered_hunks 0 0 hunks
    \<and> hunks_match (split_source_lines source) 0 hunks
    \<and> v = render (patched (preferred_line_ending (split_source_lines source)) (split_source_lines source) 0 hunks)
    \<and> length v \<le> 524288"
proof -
  let ?src = "split_source_lines source"
  from assms obtain first ls where l: "patch_lines patch = first # ls"
    by (cases "patch_lines patch") (auto simp: apply_single_file_patch_def next_line_def)
  from assms obtain hunks where h: "if strip_transport_ending first = CODEX_BEGIN_PATCH
      then parse_and_resolve_codex_patch path patch ?src = Some (Inr hunks) else parse_unified_patch path patch = Inr hunks"
    and a: "apply_resolved_hunks ?src hunks = Inr v"
    by (cases "strip_transport_ending first = CODEX_BEGIN_PATCH")
      (auto simp: apply_single_file_patch_def l next_line_def run_bind_eq_Inr Let_def split: sum.splits)
  from h have "hunks \<noteq> [] \<and> list_all hunk_ok hunks \<and> ordered_hunks 0 0 hunks
      \<and> is_patch_body patch (concat (map (\<lambda>h. written (rh_contents h)) hunks))"
    using codex_hunks_fit_source parse_unified_patch_ok codex_patch_body unified_patch_body
    by (metis (no_types, lifting))
  with apply_resolved_hunks_splice[OF a] h l show ?thesis by (intro exI[of _ hunks]) (auto simp: Let_def)
qed

theorem patched_file_is_splice_witness:
  "\<exists>hunks. parse_and_resolve_codex_patch ''f'' sample_patch (split_source_lines sample_source) = Some (Inr hunks)
    \<and> is_patch_body sample_patch (concat (map (\<lambda>h. written (rh_contents h)) hunks))
    \<and> hunks \<noteq> [] \<and> hunks_match (split_source_lines sample_source) 0 hunks
    \<and> ''a'' @ [LF] @ ''x'' @ [LF] @ ''c''
      = render (patched (preferred_line_ending (split_source_lines sample_source)) (split_source_lines sample_source) 0 hunks)"
proof -
  have "strip_transport_ending (hd (patch_lines sample_patch)) = CODEX_BEGIN_PATCH"
    by (simp add: sample_patch_lines strip_transport_ending_def strip_suffix_def CODEX_BEGIN_PATCH_def)
  then show ?thesis using patched_file_is_splice[OF sample_patch_applies] by auto
qed

end
