(* ===== verification/Sse.thy ===== *)
theory Sse
  imports Prelude
begin

text \<open>
  The server-sent-events parser of the OpenAI adapter: \<^verbatim>\<open>SseParser\<close> of
  \<^verbatim>\<open>src/models/openai/sse.rs\<close>. The network delivers the stream in arbitrary chunks, and the
  adapter pops finished frames between chunks. The reference below reads the stream as a whole:
  lines, blank-line separated blocks, one frame per block with data. It is proved that every
  interleaving of chunks and pops delivers exactly the reference frames, and that the memory
  limits hold. A refused byte is an error of the whole chunk, after which the adapter still takes
  the frames that were finished before it; so every operation returns the parser on both branches.
\<close>

section \<open>The parser\<close>

definition MAX_SSE_LINE_BYTES :: nat where "MAX_SSE_LINE_BYTES = 1048576"
definition MAX_SSE_FRAME_BYTES :: nat where "MAX_SSE_FRAME_BYTES = 1048576"
definition MAX_QUEUED_SSE_FRAMES :: nat where "MAX_QUEUED_SSE_FRAMES = 4096"

record SseParser =
  sse_line :: string
  frame_data :: string
  frame_has_data :: bool
  pending_cr :: bool
  frames :: "string list"
  queued_frame_bytes :: nat

definition sse_default :: SseParser where
  "sse_default = \<lparr>sse_line = [], frame_data = [], frame_has_data = False, pending_cr = False,
     frames = [], queued_frame_bytes = 0\<rparr>"

definition strip_last_lf :: "string \<Rightarrow> string" where
  "strip_last_lf d = (if d \<noteq> [] \<and> last d = LF then butlast d else d)"

definition data_field :: "string \<Rightarrow> string option" where
  "data_field line =
     (case strip_prefix ''data:'' line of
        None \<Rightarrow> None
      | Some data \<Rightarrow> Some (case strip_prefix '' '' data of None \<Rightarrow> data | Some d \<Rightarrow> d))"

text \<open>The outcome of an operation is whether it succeeded, with the parser it leaves on both branches.\<close>

definition sse_then :: "bool \<times> SseParser \<Rightarrow> (SseParser \<Rightarrow> bool \<times> SseParser) \<Rightarrow> bool \<times> SseParser" where
  "sse_then r f = (if fst r then f (snd r) else r)"

definition end_line :: "SseParser \<Rightarrow> bool \<times> SseParser" where
  "end_line p0 =
     (let line = sse_line p0; p = p0\<lparr>sse_line := []\<rparr> in
      if line = [] then
        if frame_has_data p then
          let p = p\<lparr>frame_data := strip_last_lf (frame_data p)\<rparr>;
              queued = queued_frame_bytes p + length (frame_data p) in
          if MAX_SSE_FRAME_BYTES < queued \<or> MAX_QUEUED_SSE_FRAMES \<le> length (frames p) then (False, p)
          else (True, p\<lparr>queued_frame_bytes := queued, frames := frames p @ [frame_data p], frame_data := [],
                         frame_has_data := False\<rparr>)
        else (True, p\<lparr>frame_data := [], frame_has_data := False\<rparr>)
      else if hd line = CHR '':'' then (True, p)
      else
        case data_field line of
          None \<Rightarrow> (True, p)
        | Some data \<Rightarrow>
            if MAX_SSE_FRAME_BYTES < length (frame_data p) + length data + 1 then (False, p)
            else (True, p\<lparr>frame_data := frame_data p @ data @ [LF], frame_has_data := True\<rparr>))"

fun feed :: "SseParser \<Rightarrow> string \<Rightarrow> bool \<times> SseParser" where
  "feed p [] = (True, p)"
| "feed p (b # bs) =
     (let was_cr = pending_cr p; p1 = p\<lparr>pending_cr := False\<rparr> in
      if was_cr \<and> b = LF then feed p1 bs
      else if b = CR then sse_then (end_line (p1\<lparr>pending_cr := True\<rparr>)) (\<lambda>p2. feed p2 bs)
      else if b = LF then sse_then (end_line p1) (\<lambda>p2. feed p2 bs)
      else if MAX_SSE_LINE_BYTES \<le> length (sse_line p1) then (False, p1)
      else feed (p1\<lparr>sse_line := sse_line p1 @ [b]\<rparr>) bs)"

lemma sse_then_simps [simp]: "sse_then (True, p) f = f p" "sse_then (False, p) f = (False, p)"
  by (simp_all add: sse_then_def)

lemma sse_then_True: "sse_then r f = (True, q) \<longleftrightarrow> (\<exists>p. r = (True, p) \<and> f p = (True, q))"
  by (cases r) (auto simp: sse_then_def)

lemma sse_then_cong [fundef_cong]:
  "r = r' \<Longrightarrow> (\<And>p. r' = (True, p) \<Longrightarrow> f p = f' p) \<Longrightarrow> sse_then r f = sse_then r' f'"
  by (cases r') (auto simp: sse_then_def)

text \<open>\<open>None\<close> stands for the panic of an unsigned subtraction that underflows.\<close>

definition pop_frame :: "SseParser \<Rightarrow> (string option \<times> SseParser) option" where
  "pop_frame p =
     (case frames p of
        [] \<Rightarrow> Some (None, p)
      | f # fs \<Rightarrow>
          if queued_frame_bytes p < length f then None
          else Some (Some f, p\<lparr>frames := fs, queued_frame_bytes := queued_frame_bytes p - length f\<rparr>))"

section \<open>The reference\<close>

text \<open>Lines end with CRLF, CR or LF; the second component is the line that has not ended.\<close>

fun lines_from :: "string \<Rightarrow> string \<Rightarrow> string list \<times> string" where
  "lines_from cur [] = ([], cur)"
| "lines_from cur [b] = (if b = CR \<or> b = LF then ([cur], []) else ([], cur @ [b]))"
| "lines_from cur (b # c # bs) =
     (if b = CR \<and> c = LF then (case lines_from [] bs of (ls, t) \<Rightarrow> (cur # ls, t))
      else if b = CR \<or> b = LF then (case lines_from [] (c # bs) of (ls, t) \<Rightarrow> (cur # ls, t))
      else lines_from (cur @ [b]) (c # bs))"

text \<open>The blocks that a blank line has closed, and the block that is still open.\<close>

fun blocks_from :: "string list \<Rightarrow> string list \<Rightarrow> string list list \<times> string list" where
  "blocks_from blk [] = ([], blk)"
| "blocks_from blk (l # ls) =
     (if l = [] then (case blocks_from [] ls of (bs, t) \<Rightarrow> (blk # bs, t)) else blocks_from (blk @ [l]) ls)"

definition block_data :: "string list \<Rightarrow> string list" where
  "block_data blk = List.map_filter data_field blk"

definition block_frames :: "string list list \<Rightarrow> string list" where
  "block_frames bs = map (\<lambda>b. join_with [LF] (block_data b)) (filter (\<lambda>b. block_data b \<noteq> []) bs)"

definition stream_frames :: "string \<Rightarrow> string list" where
  "stream_frames s = block_frames (fst (blocks_from [] (fst (lines_from [] s))))"

section \<open>Reading byte by byte\<close>

lemma lines_from_snoc:
  "lines_from cur (s @ [b]) =
     (case lines_from cur s of
        (ls, t) \<Rightarrow>
          if b = LF \<and> s \<noteq> [] \<and> last s = CR then (ls, t)
          else if b = CR \<or> b = LF then (ls @ [t], [])
          else (ls, t @ [b]))"
proof (induction cur s rule: lines_from.induct)
  case (3 cur b c bs)
  then show ?case
    by (cases bs rule: rev_cases) (auto split: prod.splits)
qed auto

lemma lines_from_after_cr: "s \<noteq> [] \<Longrightarrow> last s = CR \<Longrightarrow> snd (lines_from cur s) = []"
  by (cases s rule: rev_cases) (auto simp: lines_from_snoc split: prod.splits)

lemma blocks_from_snoc:
  "blocks_from blk (ls @ [l]) =
     (case blocks_from blk ls of (bs, t) \<Rightarrow> if l = [] then (bs @ [t], []) else (bs, t @ [l]))"
  by (induction blk ls rule: blocks_from.induct) (auto split: prod.splits)

lemma block_data_simps [simp]:
  "block_data [] = []"
  "block_data (blk @ [l]) = block_data blk @ (case data_field l of None \<Rightarrow> [] | Some d \<Rightarrow> [d])"
  by (auto simp: block_data_def List.map_filter_def split: option.splits)

lemma block_frames_snoc [simp]:
  "block_frames (bs @ [b]) = block_frames bs @ (if block_data b = [] then [] else [join_with [LF] (block_data b)])"
  by (simp add: block_frames_def)

definition data_bytes :: "string list \<Rightarrow> string" where
  "data_bytes ds = concat (map (\<lambda>d. d @ [LF]) ds)"

lemma strip_data_bytes: "ds \<noteq> [] \<Longrightarrow> strip_last_lf (data_bytes ds) = join_with [LF] ds"
proof (induction ds)
  case (Cons d ds)
  show ?case
  proof (cases "ds = []")
    case True
    then show ?thesis by (simp add: data_bytes_def strip_last_lf_def)
  next
    case False
    then have "data_bytes ds \<noteq> []" "last (data_bytes ds) = LF"
      by (cases ds rule: rev_cases; simp add: data_bytes_def)+
    with Cons.IH[OF False] False show ?thesis
      by (auto simp: strip_last_lf_def join_with_Cons data_bytes_def butlast_append)
  qed
qed simp

lemma data_field_length: "data_field l = Some d \<Longrightarrow> length d + 5 \<le> length l"
  by (auto simp: data_field_def split: option.splits)

lemma data_field_colon: "l \<noteq> [] \<Longrightarrow> hd l = CHR '':'' \<Longrightarrow> data_field l = None"
  by (cases l) (auto simp: data_field_def)

text \<open>
  The state of the parser after the stream \<open>s\<close>, of which the frames \<open>popped\<close> have been taken.
\<close>

definition reads :: "SseParser \<Rightarrow> string \<Rightarrow> string list \<Rightarrow> bool" where
  "reads p s popped =
     (case lines_from [] s of
        (ls, t) \<Rightarrow>
          (case blocks_from [] ls of
             (bs, blk) \<Rightarrow>
               sse_line p = t \<and> pending_cr p = (s \<noteq> [] \<and> last s = CR)
               \<and> frame_data p = data_bytes (block_data blk) \<and> frame_has_data p = (block_data blk \<noteq> [])
               \<and> popped @ frames p = block_frames bs
               \<and> queued_frame_bytes p = sum_list (map length (frames p))))"

definition sse_limits_ok :: "SseParser \<Rightarrow> bool" where
  "sse_limits_ok p =
     (length (sse_line p) \<le> MAX_SSE_LINE_BYTES \<and> length (frame_data p) \<le> MAX_SSE_FRAME_BYTES
      \<and> queued_frame_bytes p \<le> MAX_SSE_FRAME_BYTES \<and> length (frames p) \<le> MAX_QUEUED_SSE_FRAMES)"

text \<open>Bytes held by the parser; no operation but a pop lets go of more than it reads.\<close>

definition held :: "SseParser \<Rightarrow> nat" where
  "held p = length (sse_line p) + length (frame_data p) + queued_frame_bytes p"

lemma reads_default: "reads sse_default [] [] \<and> sse_limits_ok sse_default"
  by (simp add: reads_def sse_limits_ok_def sse_default_def data_bytes_def block_frames_def)

lemma end_line_reads:
  assumes e: "end_line p = (True, p')" and r: "lines_from [] s = (ls, t)" "blocks_from [] ls = (bs, blk)"
    and p: "sse_line p = t" "frame_data p = data_bytes (block_data blk)" "frame_has_data p = (block_data blk \<noteq> [])"
      "popped @ frames p = block_frames bs" "queued_frame_bytes p = sum_list (map length (frames p))"
  shows "case blocks_from [] (ls @ [t]) of (bs', blk') \<Rightarrow> sse_line p' = [] \<and> pending_cr p' = pending_cr p
    \<and> frame_data p' = data_bytes (block_data blk') \<and> frame_has_data p' = (block_data blk' \<noteq> [])
    \<and> popped @ frames p' = block_frames bs' \<and> queued_frame_bytes p' = sum_list (map length (frames p'))"
proof (cases "t = []")
  case True
  with e p r show ?thesis
    by (auto simp: end_line_def Let_def blocks_from_snoc data_bytes_def[of "[]"] strip_data_bytes split: if_splits)
next
  case False
  show ?thesis
  proof (cases "data_field t")
    case None
    with e p r False show ?thesis by (auto simp: end_line_def Let_def blocks_from_snoc split: if_splits)
  next
    case (Some d)
    with False have "hd t \<noteq> CHR '':''" using data_field_colon by fastforce
    with e p r False Some show ?thesis
      by (auto simp: end_line_def Let_def blocks_from_snoc data_bytes_def split: if_splits)
  qed
qed

text \<open>Feeding is a loop over bytes, so that chunks may be joined or cut anywhere.\<close>

lemma feed_append: "feed p (xs @ ys) = sse_then (feed p xs) (\<lambda>q. feed q ys)"
proof (induction p xs rule: feed.induct)
  case (2 p b bs)
  then show ?case by (auto simp: Let_def sse_then_def)
qed simp

lemma feed_ConsE:
  assumes "feed p (b # bs) = (True, r)"
  obtains q where "feed p [b] = (True, q)" and "feed q bs = (True, r)"
  using assms feed_append[of p "[b]" bs, symmetric] by (auto simp del: feed.simps simp: sse_then_True)

lemma feed_one:
  assumes "feed p [b] = (True, q)"
  obtains (crlf) "pending_cr p" "b = LF" "q = p\<lparr>pending_cr := False\<rparr>"
    | (eol) "\<not> (pending_cr p \<and> b = LF)" "b = CR \<or> b = LF" "end_line (p\<lparr>pending_cr := (b = CR)\<rparr>) = (True, q)"
    | (byte) "b \<noteq> CR" "b \<noteq> LF" "length (sse_line p) < MAX_SSE_LINE_BYTES"
        "q = p\<lparr>pending_cr := False, sse_line := sse_line p @ [b]\<rparr>"
  using assms by (auto simp: Let_def sse_then_True split: if_splits)

lemma feed_one_reads:
  assumes "feed p [b] = (True, q)" and "reads p s popped"
  shows "reads q (s @ [b]) popped"
proof -
  obtain ls t where l: "lines_from [] s = (ls, t)" by force
  obtain bs' blk where k: "blocks_from [] ls = (bs', blk)" by force
  note R = assms(2)[unfolded reads_def l k prod.case]
  from assms(1) show ?thesis
  proof (cases rule: feed_one)
    case eol
    then show ?thesis
      using end_line_reads[OF eol(3) l k, of popped] R l
      by (auto simp: reads_def lines_from_snoc split: prod.splits)
  qed (use R l k in \<open>auto simp: reads_def lines_from_snoc\<close>)
qed

lemma feed_reads: "feed p bs = (True, q) \<Longrightarrow> reads p s popped \<Longrightarrow> reads q (s @ bs) popped"
proof (induction bs arbitrary: p s)
  case (Cons b bs)
  from Cons.prems(1) obtain p1 where "feed p [b] = (True, p1)" "feed p1 bs = (True, q)" by (rule feed_ConsE)
  with Cons.IH[of p1 "s @ [b]"] feed_one_reads[of p b p1] Cons.prems(2) show ?case by simp
qed simp

lemma pop_frame_reads:
  assumes "reads p s popped"
  shows "\<exists>r p'. pop_frame p = Some (r, p') \<and> reads p' s (popped @ (case r of None \<Rightarrow> [] | Some f \<Rightarrow> [f]))"
  using assms by (cases "frames p") (auto simp: pop_frame_def reads_def split: prod.splits)

lemma pending_limits [simp]: "sse_limits_ok (p\<lparr>pending_cr := x\<rparr>) = sse_limits_ok p"
  by (simp add: sse_limits_ok_def)

lemma end_line_limits:
  "end_line p = (True, p') \<Longrightarrow> sse_limits_ok p \<Longrightarrow> sse_limits_ok p'"
  by (auto simp: end_line_def Let_def sse_limits_ok_def strip_last_lf_def split: if_splits option.splits)

lemma feed_limits: "feed p bs = (True, q) \<Longrightarrow> sse_limits_ok p \<Longrightarrow> sse_limits_ok q"
proof (induction bs arbitrary: p)
  case (Cons b bs)
  from Cons.prems(1) obtain p1 where p1: "feed p [b] = (True, p1)" "feed p1 bs = (True, q)" by (rule feed_ConsE)
  from p1(1) Cons.prems(2) have "sse_limits_ok p1"
    by (cases rule: feed_one) (auto dest: end_line_limits, simp add: sse_limits_ok_def)
  with Cons.IH[OF p1(2)] show ?case by simp
qed simp

lemma pop_limits: "pop_frame p = Some (r, q) \<Longrightarrow> sse_limits_ok p \<Longrightarrow> sse_limits_ok q"
  by (auto simp: pop_frame_def sse_limits_ok_def split: list.splits if_splits)

lemma reads_frames: "reads p s popped \<Longrightarrow> popped @ frames p = stream_frames s"
  by (auto simp: reads_def stream_frames_def split: prod.splits)

section \<open>Success\<close>

lemma end_line_held: "end_line p = (True, q) \<Longrightarrow> held q \<le> held p"
  by (auto simp: end_line_def held_def Let_def strip_last_lf_def split: if_splits option.splits
      dest!: data_field_length)

lemma end_line_fails:
  assumes "end_line p = (False, q)" and "held p \<le> MAX_SSE_FRAME_BYTES"
  shows "sse_line p = [] \<and> frame_has_data p \<and> MAX_QUEUED_SSE_FRAMES \<le> length (frames p)"
  using assms
  by (auto simp: end_line_def held_def Let_def strip_last_lf_def split: if_splits option.splits
      dest!: data_field_length)

lemma feed_one_held: "feed p [b] = (True, q) \<Longrightarrow> held q \<le> held p + 1"
  by (erule feed_one) (auto simp: held_def dest!: end_line_held)

lemma stream_frames_snoc: "\<exists>fs. stream_frames (s @ [b]) = stream_frames s @ fs"
  by (auto simp: stream_frames_def lines_from_snoc blocks_from_snoc split: prod.splits)

lemma stream_frames_mono: "length (stream_frames s) \<le> length (stream_frames (s @ t))"
proof (induction t rule: rev_induct)
  case (snoc b t)
  with stream_frames_snoc[of "s @ t" b] show ?case by auto
qed simp

lemma feed_one_succeeds:
  assumes r: "reads p s popped" and h: "held p < MAX_SSE_FRAME_BYTES"
    and n: "length (stream_frames (s @ [b])) \<le> MAX_QUEUED_SSE_FRAMES"
  shows "\<exists>q. feed p [b] = (True, q)"
proof (rule ccontr)
  assume "\<nexists>q. feed p [b] = (True, q)"
  then obtain q where f: "feed p [b] = (False, q)" by (cases "feed p [b]") auto
  obtain ls t bs blk where l: "lines_from [] s = (ls, t)" and k: "blocks_from [] ls = (bs, blk)" by (metis surj_pair)
  from f h have e: "end_line (p\<lparr>pending_cr := (b = CR)\<rparr>) = (False, q)" and b: "b = CR \<or> b = LF" "\<not> (pending_cr p \<and> b = LF)"
    by (auto simp: Let_def held_def MAX_SSE_LINE_BYTES_def MAX_SSE_FRAME_BYTES_def sse_then_def split: if_splits)
  have "sse_line p = [] \<and> frame_has_data p \<and> MAX_QUEUED_SSE_FRAMES \<le> length (frames p)"
    using end_line_fails[OF e] h by (simp add: held_def)
  moreover from this r l k b have "stream_frames (s @ [b]) = (popped @ frames p) @ [join_with [LF] (block_data blk)]"
    by (auto simp: reads_def stream_frames_def lines_from_snoc blocks_from_snoc)
  ultimately show False using n by simp
qed

lemma feed_succeeds:
  assumes "reads p s popped" and "held p + length bs \<le> MAX_SSE_FRAME_BYTES"
    and "length (stream_frames (s @ bs)) \<le> MAX_QUEUED_SSE_FRAMES"
  shows "\<exists>q. feed p bs = (True, q) \<and> held q \<le> held p + length bs"
  using assms
proof (induction bs arbitrary: p s)
  case (Cons b bs)
  have "length (stream_frames (s @ [b])) \<le> MAX_QUEUED_SSE_FRAMES"
    using stream_frames_mono[of "s @ [b]" bs] Cons.prems(3) by simp
  with feed_one_succeeds[OF Cons.prems(1)] Cons.prems(2) obtain p1 where p1: "feed p [b] = (True, p1)" by auto
  from Cons.IH[OF feed_one_reads[OF p1 Cons.prems(1)]] feed_one_held[OF p1] Cons.prems(2,3)
  obtain q where "feed p1 bs = (True, q)" "held q \<le> held p1 + length bs" by auto
  with feed_one_held[OF p1] p1 feed_append[of p "[b]" bs] show ?case by (auto simp del: feed.simps)
qed simp

section \<open>After an error\<close>

text \<open>
  A refused byte leaves the finished frames as they were before it, so that they can still be taken.
\<close>

definition delivers :: "SseParser \<Rightarrow> string \<Rightarrow> string list \<Rightarrow> bool" where
  "delivers p s popped \<longleftrightarrow> popped @ frames p = stream_frames s
     \<and> queued_frame_bytes p = sum_list (map length (frames p)) \<and> sse_limits_ok p"

lemma reads_delivers:
  assumes "reads p s popped" "sse_limits_ok p"
  shows "delivers p s popped"
proof -
  have "queued_frame_bytes p = sum_list (map length (frames p))"
    using assms(1) by (simp add: reads_def split: prod.splits)
  then show ?thesis unfolding delivers_def using reads_frames[OF assms(1)] assms(2) by blast
qed

lemma end_line_refuses:
  "end_line p = (False, q) \<Longrightarrow> sse_limits_ok p \<Longrightarrow>
     frames q = frames p \<and> queued_frame_bytes q = queued_frame_bytes p \<and> sse_limits_ok q"
  by (auto simp: end_line_def Let_def sse_limits_ok_def strip_last_lf_def split: if_splits option.splits)

lemma feed_one_refuses:
  assumes "feed p [b] = (False, q)" "sse_limits_ok p"
  shows "frames q = frames p \<and> queued_frame_bytes q = queued_frame_bytes p \<and> sse_limits_ok q"
  using assms(1) end_line_refuses[of "p\<lparr>pending_cr := True\<rparr>" q] end_line_refuses[of "p\<lparr>pending_cr := False\<rparr>" q] assms(2)
  by (auto simp: Let_def sse_then_def split: if_splits)

lemma feed_refuses:
  assumes "feed p bs = (False, q)" "reads p s popped" "sse_limits_ok p"
  shows "\<exists>k pk. k < length bs \<and> feed p (take k bs) = (True, pk) \<and> \<not> fst (feed p (take (Suc k) bs))
    \<and> delivers q (s @ take k bs) popped"
  using assms
proof (induction bs arbitrary: p s)
  case (Cons b bs)
  have step: "feed p (b # xs) = sse_then (feed p [b]) (\<lambda>q. feed q xs)" for xs
    using feed_append[of p "[b]" xs] by (simp del: feed.simps)
  obtain ok p1 where p1: "feed p [b] = (ok, p1)" by (cases "feed p [b]")
  show ?case
  proof (cases ok)
    case True
    then have p1': "feed p [b] = (True, p1)" using p1 by simp
    note r = feed_one_reads[OF p1' Cons.prems(2)]
    note l = feed_limits[OF p1' Cons.prems(3)]
    have "feed p1 bs = (False, q)" using Cons.prems(1) p1 True step[of bs] by simp
    from Cons.IH[OF this r l] obtain k pk where "k < length bs" "feed p1 (take k bs) = (True, pk)"
      "\<not> fst (feed p1 (take (Suc k) bs))" "delivers q ((s @ [b]) @ take k bs) popped" by blast
    then show ?thesis
      using p1' step[of "take k bs"] step[of "take (Suc k) bs"]
      by (intro exI[of _ "Suc k"] exI[of _ pk]) (simp del: feed.simps)
  next
    case False
    then have p1': "feed p [b] = (False, p1)" using p1 by simp
    then have "q = p1" using Cons.prems(1) step[of bs] by simp
    then show ?thesis
      using p1' feed_one_refuses[OF p1' Cons.prems(3)] reads_delivers[OF Cons.prems(2,3)]
      by (intro exI[of _ 0] exI[of _ p]) (simp add: delivers_def del: feed.simps(2))
  qed
qed simp

lemma pop_frame_delivers:
  assumes "delivers p s popped"
  shows "\<exists>r p'. pop_frame p = Some (r, p') \<and> delivers p' s (popped @ (case r of None \<Rightarrow> [] | Some f \<Rightarrow> [f]))"
  using assms by (cases "frames p") (auto simp: pop_frame_def delivers_def sse_limits_ok_def)

section \<open>Interleavings\<close>

text \<open>
  Chunks and pops in any order, as the adapter of \<^verbatim>\<open>models/openai/stream.rs\<close> performs them: after a refused
  chunk it still takes the finished frames, and reads no further chunk.
\<close>

datatype sse_op = Chunk string | Pop

type_synonym sse_run = "bool \<times> SseParser \<times> string list"

fun run_op :: "sse_op \<Rightarrow> sse_run \<Rightarrow> sse_run option" where
  "run_op (Chunk c) (failed, p, popped) =
     (if failed then Some (True, p, popped) else case feed p c of (ok, q) \<Rightarrow> Some (\<not> ok, q, popped))"
| "run_op Pop (failed, p, popped) =
     (case pop_frame p of
        None \<Rightarrow> None
      | Some (r, q) \<Rightarrow> Some (failed, q, popped @ (case r of None \<Rightarrow> [] | Some f \<Rightarrow> [f])))"

fun run_ops :: "sse_op list \<Rightarrow> sse_run \<Rightarrow> sse_run option" where
  "run_ops [] st = Some st"
| "run_ops (a # ops) st = (case run_op a st of None \<Rightarrow> None | Some st' \<Rightarrow> run_ops ops st')"

fun op_bytes :: "sse_op \<Rightarrow> string" where
  "op_bytes (Chunk s) = s"
| "op_bytes Pop = []"

abbreviation sse_start :: sse_run where
  "sse_start \<equiv> (False, sse_default, [])"

lemma run_ops_snoc: "run_ops (ops @ [a]) st = (case run_ops ops st of None \<Rightarrow> None | Some st' \<Rightarrow> run_op a st')"
  by (induction ops arbitrary: st) (auto split: option.splits)

text \<open>The bytes read before the byte that was refused.\<close>

definition refused_at :: "sse_op list \<Rightarrow> string \<Rightarrow> bool" where
  "refused_at ops s \<longleftrightarrow> (\<exists>before c after k p1 popped1 pk. ops = before @ Chunk c # after
     \<and> run_ops before sse_start = Some (False, p1, popped1) \<and> k < length c \<and> feed p1 (take k c) = (True, pk)
     \<and> \<not> fst (feed p1 (take (Suc k) c)) \<and> s = concat (map op_bytes before) @ take k c)"

lemma refused_at_snoc: "refused_at ops s \<Longrightarrow> refused_at (ops @ [a]) s"
  unfolding refused_at_def by (metis append.assoc append_Cons)

lemma run_ops_state:
  "\<exists>failed q popped. run_ops ops sse_start = Some (failed, q, popped) \<and>
     (if failed then \<exists>s. refused_at ops s \<and> delivers q s popped
      else reads q (concat (map op_bytes ops)) popped \<and> sse_limits_ok q)"
proof (induction ops rule: rev_induct)
  case Nil
  show ?case using reads_default by (intro exI[of _ False] exI[of _ sse_default] exI[of _ "[]"]) simp
next
  case (snoc a ops)
  then obtain failed p popped where p: "run_ops ops sse_start = Some (failed, p, popped)"
    and inv: "if failed then \<exists>s. refused_at ops s \<and> delivers p s popped
      else reads p (concat (map op_bytes ops)) popped \<and> sse_limits_ok p" by blast
  show ?case
  proof (cases a)
    case Pop
    from inv obtain s where "delivers p s popped" "failed \<Longrightarrow> refused_at ops s"
      using reads_delivers by (cases failed) auto
    from pop_frame_delivers[OF this(1)] this(2) obtain r p' where
      d: "pop_frame p = Some (r, p')" "delivers p' s (popped @ (case r of None \<Rightarrow> [] | Some f \<Rightarrow> [f]))"
        "failed \<Longrightarrow> refused_at ops s" by blast
    have "\<not> failed \<Longrightarrow> reads p' (concat (map op_bytes ops)) (popped @ (case r of None \<Rightarrow> [] | Some f \<Rightarrow> [f])) \<and> sse_limits_ok p'"
      using inv pop_frame_reads d(1) pop_limits[OF d(1)] by fastforce
    then show ?thesis using p d Pop refused_at_snoc by (cases failed) (auto simp: run_ops_snoc)
  next
    case (Chunk c)
    show ?thesis
    proof (cases failed)
      case True
      then show ?thesis using p inv Chunk refused_at_snoc by (auto simp: run_ops_snoc)
    next
      case False
      obtain ok q where f: "feed p c = (ok, q)" by (cases "feed p c")
      show ?thesis
      proof (cases ok)
        case True
        with f inv False have "reads q (concat (map op_bytes ops) @ c) popped" "sse_limits_ok q"
          using feed_reads[of p c q] feed_limits[of p c q] by auto
        then show ?thesis
          using p False Chunk f True by (intro exI[of _ False] exI[of _ q] exI[of _ popped]) (simp add: run_ops_snoc)
      next
        case refused: False
        from inv False have r: "reads p (concat (map op_bytes ops)) popped" "sse_limits_ok p" by simp_all
        from f refused have "feed p c = (False, q)" by simp
        from feed_refuses[OF this r] obtain k pk where
          k: "k < length c" "feed p (take k c) = (True, pk)" "\<not> fst (feed p (take (Suc k) c))"
            "delivers q (concat (map op_bytes ops) @ take k c) popped" by blast
        have "refused_at (ops @ [a]) (concat (map op_bytes ops) @ take k c)"
          unfolding refused_at_def Chunk
          by (rule exI[of _ ops], rule exI[of _ c], rule exI[of _ "[]"], rule exI[of _ k], rule exI[of _ p],
              rule exI[of _ popped], rule exI[of _ pk]) (use p False k in simp)
        then have "\<exists>s. refused_at (ops @ [a]) s \<and> delivers q s popped" using k(4) by blast
        moreover have "run_ops (ops @ [a]) sse_start = Some (True, q, popped)"
          using p False refused Chunk f by (simp add: run_ops_snoc)
        ultimately show ?thesis by (intro exI[of _ True] exI[of _ q] exI[of _ popped]) simp
      qed
    qed
  qed
qed

lemma run_ops_accepts:
  assumes "length (concat (map op_bytes ops)) \<le> MAX_SSE_FRAME_BYTES"
    and "length (stream_frames (concat (map op_bytes ops))) \<le> MAX_QUEUED_SSE_FRAMES"
  shows "\<exists>q popped. run_ops ops sse_start = Some (False, q, popped) \<and> reads q (concat (map op_bytes ops)) popped
    \<and> held q \<le> length (concat (map op_bytes ops))"
  using assms
proof (induction ops rule: rev_induct)
  case Nil
  show ?case using reads_default by (simp add: held_def sse_default_def)
next
  case (snoc a ops)
  have "length (stream_frames (concat (map op_bytes ops))) \<le> MAX_QUEUED_SSE_FRAMES"
    using stream_frames_mono[of "concat (map op_bytes ops)" "op_bytes a"] snoc.prems(2) by simp
  with snoc obtain p popped where p: "run_ops ops sse_start = Some (False, p, popped)"
    "reads p (concat (map op_bytes ops)) popped" "held p \<le> length (concat (map op_bytes ops))" by auto
  show ?case
  proof (cases a)
    case Pop
    from pop_frame_reads[OF p(2)] obtain r q where q: "pop_frame p = Some (r, q)"
      "reads q (concat (map op_bytes ops)) (popped @ (case r of None \<Rightarrow> [] | Some f \<Rightarrow> [f]))" by auto
    then have "held q \<le> held p" by (auto simp: pop_frame_def held_def split: list.splits if_splits)
    then show ?thesis using p q Pop by (auto simp: run_ops_snoc)
  next
    case (Chunk c)
    from feed_succeeds[OF p(2), of c] p(3) snoc.prems Chunk obtain q where
      q: "feed p c = (True, q)" "held q \<le> held p + length c" by auto
    then show ?thesis using p Chunk feed_reads[OF q(1) p(2)] by (auto simp: run_ops_snoc)
  qed
qed

text \<open>C4: However the network cuts the stream into chunks and whenever the adapter takes frames, also after a chunk
  was refused, the parser does not panic, and the line buffer, the open frame and the queue stay within their
  limits. As long as no chunk is refused, the frames taken and queued are exactly the frames of the whole stream (one
  per blank-line terminated block with data lines, their values joined by LF, for LF, CR and CRLF line ends). When a
  chunk is refused, they are exactly the frames of the stream up to the first byte the parser refuses. A stream of at
  most 1 MiB with at most 4096 frames is never refused.\<close>

theorem sse_frames_any_chunking:
  "\<exists>failed q popped. run_ops ops sse_start = Some (failed, q, popped) \<and> sse_limits_ok q
     \<and> (if failed then \<exists>s. refused_at ops s \<and> popped @ frames q = stream_frames s
        else popped @ frames q = stream_frames (concat (map op_bytes ops)))
     \<and> (length (concat (map op_bytes ops)) \<le> 1048576 \<and>
        length (stream_frames (concat (map op_bytes ops))) \<le> 4096 \<longrightarrow> \<not> failed)"
proof -
  from run_ops_state[of ops] obtain failed q popped where r: "run_ops ops sse_start = Some (failed, q, popped)"
    and i: "if failed then \<exists>s. refused_at ops s \<and> delivers q s popped
      else reads q (concat (map op_bytes ops)) popped \<and> sse_limits_ok q" by blast
  have "length (concat (map op_bytes ops)) \<le> 1048576 \<and> length (stream_frames (concat (map op_bytes ops))) \<le> 4096 \<longrightarrow> \<not> failed"
    using run_ops_accepts[of ops] r by (auto simp: MAX_SSE_FRAME_BYTES_def MAX_QUEUED_SSE_FRAMES_def)
  then show ?thesis using r i reads_frames by (cases failed) (auto simp: delivers_def)
qed

theorem sse_frames_any_chunking_witness:
  "\<exists>q popped. run_ops [Chunk (''data: a'' @ [CR]), Pop, Chunk ([LF] @ ''data:b'' @ [CR, LF, CR]), Pop] sse_start
     = Some (False, q, popped) \<and> popped @ frames q = [''a'' @ [LF] @ ''b'']"
proof -
  let ?ops = "[Chunk (''data: a'' @ [CR]), Pop, Chunk ([LF] @ ''data:b'' @ [CR, LF, CR]), Pop]"
  have f: "stream_frames (concat (map op_bytes ?ops)) = [''a'' @ [LF] @ ''b'']"
    by (simp add: stream_frames_def block_frames_def block_data_def List.map_filter_def data_field_def)
  have n: "length (concat (map op_bytes ?ops)) \<le> 1048576" "length (stream_frames (concat (map op_bytes ?ops))) \<le> 4096"
    unfolding f by simp_all
  obtain failed q popped where r: "run_ops ?ops sse_start = Some (failed, q, popped)"
    "if failed then \<exists>s. refused_at ?ops s \<and> popped @ frames q = stream_frames s
     else popped @ frames q = stream_frames (concat (map op_bytes ?ops))" "\<not> failed"
    using sse_frames_any_chunking[of ?ops] n by blast
  then show ?thesis using f by (intro exI[of _ q] exI[of _ popped]) simp
qed

end
