(* ===== verification/Preview_Parser.thy ===== *)
theory Preview_Parser
  imports Prelude "HOL-Library.Word"
begin

unbundle bit_operations_syntax

text \<open>
  The streaming recognizer behind live tool-argument previews:
  \<^verbatim>\<open>src/presentation/preview/parser.rs\<close>. The recognizer walks over Unicode scalars, so text is a
  list of scalar values (\<^typ>\<open>nat\<close>) here and \<open>str_len\<close> is its length in UTF-8 bytes. The stack keeps
  its top first. A captured string carries the capacity of its buffer, which is what the memory
  limits charge; the allocator behind \<^verbatim>\<open>try_reserve_exact\<close> is the parameter \<open>reserve\<close>, given the
  capacity, the length and the requested extra bytes, and \<open>allocator_ok\<close> states its documented
  contract. Functions that contain an \<^verbatim>\<open>unwrap\<close>, an unsigned subtraction or a debug assertion
  return \<^const>\<open>None\<close> where those panic.
\<close>

type_synonym scalar = nat

section \<open>Scalars\<close>

abbreviation (input) ascii :: "char \<Rightarrow> scalar" where
  "ascii c \<equiv> of_char c"

definition utf8_len :: "scalar \<Rightarrow> nat" where
  "utf8_len c = (if c < 0x80 then 1 else if c < 0x800 then 2 else if c < 0x10000 then 3 else 4)"

definition str_len :: "scalar list \<Rightarrow> nat" where
  "str_len s = sum_list (map utf8_len s)"

definition from_u32 :: "nat \<Rightarrow> scalar option" where
  "from_u32 n = (if n < 0xD800 \<or> (0xDFFF < n \<and> n < 0x110000) then Some n else None)"

definition is_control :: "scalar \<Rightarrow> bool" where
  "is_control c = (c < 0x20 \<or> (0x7F \<le> c \<and> c < 0xA0))"

definition is_ascii_digit :: "scalar \<Rightarrow> bool" where
  "is_ascii_digit c = (ascii (CHR ''0'') \<le> c \<and> c \<le> ascii (CHR ''9''))"

definition is_digit19 :: "scalar \<Rightarrow> bool" where
  "is_digit19 c = (ascii (CHR ''1'') \<le> c \<and> c \<le> ascii (CHR ''9''))"

definition to_digit16 :: "scalar \<Rightarrow> nat option" where
  "to_digit16 c =
     (if is_ascii_digit c then Some (c - ascii (CHR ''0''))
      else if ascii (CHR ''a'') \<le> c \<and> c \<le> ascii (CHR ''f'') then Some (c - ascii (CHR ''a'') + 10)
      else if ascii (CHR ''A'') \<le> c \<and> c \<le> ascii (CHR ''F'') then Some (c - ascii (CHR ''A'') + 10)
      else None)"

definition hex_digit :: "nat \<Rightarrow> scalar" where
  "hex_digit n = (if n < 10 then ascii (CHR ''0'') + n else ascii (CHR ''a'') + (n - 10))"

text \<open>\<^verbatim>\<open>char::escape_default\<close> of a control character; all of them are below \<open>0xA0\<close>.\<close>

definition escape_control :: "scalar \<Rightarrow> scalar list" where
  "escape_control c =
     (if c = 9 then [0x5C, ascii (CHR ''t'')]
      else if c = 13 then [0x5C, ascii (CHR ''r'')]
      else if c = 10 then [0x5C, ascii (CHR ''n'')]
      else [0x5C, ascii (CHR ''u''), ascii (CHR ''{'')] @ (if c < 16 then [] else [hex_digit (c div 16)]) @ [hex_digit (c mod 16)]
             @ [ascii (CHR ''}'')])"

definition json_space :: "scalar \<Rightarrow> bool" where
  "json_space c = (c = 32 \<or> c = 9 \<or> c = 13 \<or> c = 10)"

section \<open>State\<close>

datatype Field = FIgnore | FPath | FContent | FOffset | FLimit

fun field_bit :: "Field \<Rightarrow> 8 word" where
  "field_bit FIgnore = 0"
| "field_bit FPath = 1"
| "field_bit FContent = 2"
| "field_bit FOffset = 4"
| "field_bit FLimit = 8"

datatype ObjectState = KeyOrEnd | Key | Colon | OValue | OCommaOrEnd
datatype ArrayState = ValueOrEnd | AValue | ACommaOrEnd
datatype Frame = FrObject ObjectState | FrArray ArrayState
datatype Capture = CKey | CIgnore | CField Field

datatype Escape =
    EscNone
  | Slash
  | Unicode nat nat
  | LowSlash nat
  | LowU nat
  | LowUnicode nat nat nat

text \<open>
  A 16-bit \<^verbatim>\<open>(value << 4) | digit\<close>: the shifted value has zero low bits and the digit is below 16.
\<close>

definition shift_digit :: "nat \<Rightarrow> nat \<Rightarrow> nat" where
  "shift_digit v d = (v * 16) mod 65536 + d"

definition unicode_end :: "nat option \<Rightarrow> nat \<Rightarrow> (Escape \<times> scalar option) option" where
  "unicode_end high v =
     (case high of
        Some h \<Rightarrow>
          if 0xDC00 \<le> v \<and> v \<le> 0xDFFF
          then map_option (\<lambda>c. (EscNone, Some c)) (from_u32 (0x10000 + (h - 0xD800) * 1024 + v - 0xDC00))
          else None
      | None \<Rightarrow>
          if 0xDC00 \<le> v \<and> v \<le> 0xDFFF then None
          else if 0xD800 \<le> v \<and> v \<le> 0xDBFF then Some (LowSlash v, None)
          else map_option (\<lambda>c. (EscNone, Some c)) (from_u32 v))"

definition unicode_digit :: "nat option \<Rightarrow> nat \<Rightarrow> nat \<Rightarrow> scalar \<Rightarrow> (Escape \<times> scalar option) option" where
  "unicode_digit high digits v ch =
     (case to_digit16 ch of
        None \<Rightarrow> None
      | Some d \<Rightarrow>
          let v' = shift_digit v d in
          if digits < 3
          then Some (case high of Some h \<Rightarrow> LowUnicode h (digits + 1) v' | None \<Rightarrow> Unicode (digits + 1) v', None)
          else unicode_end high v')"

fun decode :: "Escape \<Rightarrow> scalar \<Rightarrow> (Escape \<times> scalar option) option" where
  "decode EscNone ch =
     (if ch = ascii (CHR 0x5C) then Some (Slash, None)
      else if ch < 0x20 then None
      else Some (EscNone, Some ch))"
| "decode Slash ch =
     (if ch = ascii (CHR ''u'') then Some (Unicode 0 0, None)
      else if ch = ascii (CHR 0x22) \<or> ch = ascii (CHR 0x5C) \<or> ch = ascii (CHR ''/'') then Some (EscNone, Some ch)
      else if ch = ascii (CHR ''b'') then Some (EscNone, Some 8)
      else if ch = ascii (CHR ''f'') then Some (EscNone, Some 12)
      else if ch = ascii (CHR ''n'') then Some (EscNone, Some 10)
      else if ch = ascii (CHR ''r'') then Some (EscNone, Some 13)
      else if ch = ascii (CHR ''t'') then Some (EscNone, Some 9)
      else None)"
| "decode (LowSlash h) ch = (if ch = ascii (CHR 0x5C) then Some (LowU h, None) else None)"
| "decode (LowU h) ch = (if ch = ascii (CHR ''u'') then Some (LowUnicode h 0 0, None) else None)"
| "decode (Unicode n v) ch = unicode_digit None n v ch"
| "decode (LowUnicode h n v) ch = unicode_digit (Some h) n v ch"

datatype NumberState = Minus | Zero | Integer | Dot | Fraction | Exp | ExpSign | ExpDigits

definition number_complete :: "NumberState \<Rightarrow> bool" where
  "number_complete s = (s \<in> {Zero, Integer, Fraction, ExpDigits})"

definition number_next :: "NumberState \<Rightarrow> scalar \<Rightarrow> NumberState option" where
  "number_next s ch =
     (if s = Minus \<and> ch = ascii (CHR ''0'') then Some Zero
      else if s = Minus \<and> is_digit19 ch then Some Integer
      else if s = Integer \<and> is_ascii_digit ch then Some Integer
      else if s \<in> {Zero, Integer} \<and> ch = ascii (CHR ''.'') then Some Dot
      else if s \<in> {Zero, Integer, Fraction} \<and> (ch = ascii (CHR ''e'') \<or> ch = ascii (CHR ''E'')) then Some Exp
      else if s \<in> {Dot, Fraction} \<and> is_ascii_digit ch then Some Fraction
      else if s = Exp \<and> (ch = ascii (CHR ''+'') \<or> ch = ascii (CHR ''-'')) then Some ExpSign
      else if s \<in> {Exp, ExpSign, ExpDigits} \<and> is_ascii_digit ch then Some ExpDigits
      else None)"

datatype Token =
    StringToken Capture Escape
  | NumberToken NumberState Field "scalar list"
  | LiteralToken string nat

text \<open>An owned \<^verbatim>\<open>String\<close>: its text and the capacity of its buffer.\<close>

record buffer =
  buf_text :: "scalar list"
  buf_cap :: nat

record PreviewParser =
  pp_write :: bool
  pp_read :: bool
  pp_started :: bool
  pp_done :: bool
  pp_stack :: "Frame list"
  pp_token :: "Token option"
  pp_key :: "scalar list"
  pp_key_overflow :: bool
  pp_field :: Field
  pp_seen :: "8 word"
  pp_path :: "buffer option"
  pp_content :: "buffer option"
  pp_offset :: "nat option"
  pp_limit :: "nat option"
  pp_retained :: nat
  pp_path_cut :: bool
  pp_body_cut :: bool
  pp_invalid :: bool
  pp_changes :: nat

definition new_parser :: "string \<Rightarrow> PreviewParser" where
  "new_parser name =
     \<lparr>pp_write = (name = ''write''), pp_read = (name = ''read''), pp_started = False, pp_done = False,
      pp_stack = [], pp_token = None, pp_key = [], pp_key_overflow = False, pp_field = FIgnore, pp_seen = 0,
      pp_path = None, pp_content = None, pp_offset = None, pp_limit = None, pp_retained = 0, pp_path_cut = False,
      pp_body_cut = False, pp_invalid = False, pp_changes = 0\<rparr>"

definition parser_complete :: "PreviewParser \<Rightarrow> bool" where
  "parser_complete p = (pp_done p \<and> \<not> pp_invalid p)"

definition parser_truncated :: "PreviewParser \<Rightarrow> bool" where
  "parser_truncated p = (pp_path_cut p \<or> pp_body_cut p)"

section \<open>Operations\<close>

definition MAX_CALL_BYTES :: nat where "MAX_CALL_BYTES = 131072"
definition MAX_STREAM_BYTES :: nat where "MAX_STREAM_BYTES = 524288"
definition MAX_DEPTH :: nat where "MAX_DEPTH = 64"
definition MAX_DETAIL_BYTES :: nat where "MAX_DETAIL_BYTES = 512"

text \<open>The recognizer and the byte count of the whole stream, which all its calls share.\<close>

type_synonym pstate = "PreviewParser \<times> nat"

text \<open>Capacity, length and extra bytes in; success and the new capacity out.\<close>

type_synonym allocator = "nat \<Rightarrow> nat \<Rightarrow> nat \<Rightarrow> bool \<times> nat"

definition parser_fail :: "pstate \<Rightarrow> pstate" where
  "parser_fail = (\<lambda>(p, bytes).
     if pp_invalid p then (p, bytes)
     else (p\<lparr>pp_invalid := True, pp_changes := pp_changes p + 1, pp_retained := 0, pp_path := None,
              pp_content := None, pp_offset := None, pp_limit := None, pp_token := None, pp_key := [],
              pp_stack := []\<rparr>,
           bytes - pp_retained p))"

definition field_buffer :: "bool \<Rightarrow> PreviewParser \<Rightarrow> buffer option" where
  "field_buffer body p = (if body then pp_content p else pp_path p)"

definition set_buffer :: "bool \<Rightarrow> buffer \<Rightarrow> PreviewParser \<Rightarrow> PreviewParser" where
  "set_buffer body b p = (if body then p\<lparr>pp_content := Some b\<rparr> else p\<lparr>pp_path := Some b\<rparr>)"

definition capacity_limit :: "bool \<Rightarrow> nat \<Rightarrow> nat \<Rightarrow> nat" where
  "capacity_limit body other_call other_stream =
     min (min (if body then MAX_CALL_BYTES else MAX_DETAIL_BYTES) (MAX_CALL_BYTES - other_call))
       (MAX_STREAM_BYTES - other_stream)"

definition append_display ::
  "allocator \<Rightarrow> bool \<Rightarrow> scalar list \<Rightarrow> pstate \<Rightarrow> (bool \<times> pstate) option" where
  "append_display reserve body v = (\<lambda>(p, bytes).
     case field_buffer body p of
       None \<Rightarrow> None
     | Some t \<Rightarrow>
         let prev = buf_cap t; len = str_len (buf_text t); needed = len + str_len v in
         if pp_retained p < prev \<or> bytes < prev then None
         else
           let other_call = pp_retained p - prev; other_stream = bytes - prev;
               lim = capacity_limit body other_call other_stream;
               pushed = (\<lambda>cap. \<lparr>buf_text = buf_text t @ v, buf_cap = cap\<rparr>)
           in
           if lim < needed then Some (False, p, bytes)
           else if prev < needed then
             let requested = min (max (max (min (prev * 2) (u64_bound - 1)) 8) needed) lim in
             (case reserve prev len (requested - len) of
                (reserved, actual) \<Rightarrow>
                  if lim < actual
                  then Some (False, (set_buffer body \<lparr>buf_text = [], buf_cap = 0\<rparr> p)\<lparr>pp_retained := other_call\<rparr>,
                         other_stream)
                  else if \<not> reserved
                  then Some (False, (set_buffer body (t\<lparr>buf_cap := actual\<rparr>) p)\<lparr>pp_retained := other_call + actual\<rparr>,
                         other_stream + actual)
                  else if actual < needed then None
                  else Some (True, (set_buffer body (pushed actual) p)\<lparr>pp_retained := other_call + actual\<rparr>,
                         other_stream + actual))
           else Some (True, set_buffer body (pushed prev) p, bytes))"

text \<open>What is kept of one decoded character.\<close>

definition display_char :: "bool \<Rightarrow> scalar \<Rightarrow> scalar list" where
  "display_char body ch =
     (if \<not> body \<and> (ch = 13 \<or> ch = 10 \<or> ch = 9) then [32]
      else if is_control ch \<and> \<not> (body \<and> (ch = 10 \<or> ch = 9)) then escape_control ch
      else [ch])"

definition mark_cut :: "bool \<Rightarrow> PreviewParser \<Rightarrow> PreviewParser" where
  "mark_cut body p = (if body then p\<lparr>pp_body_cut := True\<rparr> else p\<lparr>pp_path_cut := True\<rparr>)"

definition capture_field :: "allocator \<Rightarrow> bool \<Rightarrow> scalar \<Rightarrow> pstate \<Rightarrow> pstate option" where
  "capture_field reserve body ch st =
     (if (if body then pp_body_cut (fst st) else pp_path_cut (fst st)) then Some st
      else
        case append_display reserve body (display_char body ch) st of
          None \<Rightarrow> None
        | Some (ok, p, bytes) \<Rightarrow>
            let p1 = (if ok then p else mark_cut body p)
            in Some (p1\<lparr>pp_changes := pp_changes p1 + 1\<rparr>, bytes))"

fun capture :: "allocator \<Rightarrow> Capture \<Rightarrow> scalar \<Rightarrow> pstate \<Rightarrow> pstate option" where
  "capture reserve CKey ch (p, bytes) =
     Some (if str_len (pp_key p) + utf8_len ch \<le> 32 \<and> \<not> pp_key_overflow p
           then p\<lparr>pp_key := pp_key p @ [ch]\<rparr> else p\<lparr>pp_key_overflow := True\<rparr>, bytes)"
| "capture reserve (CField FPath) ch st = capture_field reserve False ch st"
| "capture reserve (CField FContent) ch st = capture_field reserve True ch st"
| "capture reserve c ch st = Some st"

definition key_field :: "PreviewParser \<Rightarrow> Field" where
  "key_field p =
     (if pp_key_overflow p then FIgnore
      else if pp_key p = map ascii ''path'' \<or> pp_key p = map ascii ''file_path'' then FPath
      else if pp_key p = map ascii ''content'' \<and> pp_write p then FContent
      else if pp_key p = map ascii ''offset'' \<and> pp_read p then FOffset
      else if pp_key p = map ascii ''limit'' \<and> pp_read p then FLimit
      else FIgnore)"

definition set_top :: "Frame \<Rightarrow> PreviewParser \<Rightarrow> PreviewParser" where
  "set_top f p = p\<lparr>pp_stack := f # tl (pp_stack p)\<rparr>"

definition finish_key :: "pstate \<Rightarrow> pstate option" where
  "finish_key = (\<lambda>(p, bytes).
     let f = key_field p; p1 = p\<lparr>pp_field := f\<rparr> in
     if pp_seen p1 AND field_bit f \<noteq> 0 then Some (parser_fail (p1, bytes))
     else if pp_stack p1 = [] then None
     else Some (set_top (FrObject Colon) (p1\<lparr>pp_seen := pp_seen p1 OR field_bit f, pp_key := []\<rparr>), bytes))"

text \<open>
  \<^verbatim>\<open>str::parse::<u64>\<close>; the collected text starts with a digit or a minus sign, so that the
  optional plus sign of the library cannot occur.
\<close>

definition parse_u64 :: "scalar list \<Rightarrow> nat option" where
  "parse_u64 ds =
     (let v = foldl (\<lambda>a d. a * 10 + (d - ascii (CHR ''0''))) 0 ds in
      if ds \<noteq> [] \<and> list_all is_ascii_digit ds \<and> v < u64_bound then Some v else None)"

definition finish_number :: "Field \<Rightarrow> scalar list \<Rightarrow> pstate \<Rightarrow> pstate" where
  "finish_number f digits st =
     (if f = FIgnore then st
      else
        case parse_u64 digits of
          Some v \<Rightarrow>
            if 0 < v
            then (let p = fst st; p1 = (if f = FOffset then p\<lparr>pp_offset := Some v\<rparr> else p\<lparr>pp_limit := Some v\<rparr>)
                  in (p1\<lparr>pp_changes := pp_changes p1 + 1\<rparr>, snd st))
            else parser_fail st
        | None \<Rightarrow> parser_fail st)"

text \<open>The first component is \<open>False\<close> only for the unconsumed delimiter that ends a number.\<close>

fun token_char :: "allocator \<Rightarrow> Token \<Rightarrow> scalar \<Rightarrow> pstate \<Rightarrow> (bool \<times> pstate) option" where
  "token_char reserve (StringToken cap esc) ch (p, bytes) =
     (if esc = EscNone \<and> ch = ascii (CHR 0x22)
      then if cap = CKey then map_option (Pair True) (finish_key (p, bytes))
           else Some (True,
             if pp_stack p \<noteq> [] \<and> hd (pp_stack p) \<in> {FrObject KeyOrEnd, FrObject Key}
             then set_top (FrObject Colon) p else p, bytes)
      else
        case decode esc ch of
          None \<Rightarrow> Some (True, parser_fail (p, bytes))
        | Some (next, decoded) \<Rightarrow>
            (case (case decoded of None \<Rightarrow> Some (p, bytes) | Some c \<Rightarrow> capture reserve cap c (p, bytes)) of
               None \<Rightarrow> None
             | Some (p1, bytes1) \<Rightarrow> Some (True, p1\<lparr>pp_token := Some (StringToken cap next)\<rparr>, bytes1)))"
| "token_char reserve (LiteralToken expected index) ch (p, bytes) =
     Some (True,
       if \<not> (index < length expected \<and> ascii (expected ! index) = ch) then parser_fail (p, bytes)
       else if index + 1 < length expected
       then (p\<lparr>pp_token := Some (LiteralToken expected (index + 1))\<rparr>, bytes)
       else (p, bytes))"
| "token_char reserve (NumberToken state f digits) ch (p, bytes) =
     (case number_next state ch of
        Some next \<Rightarrow>
          if f \<noteq> FIgnore \<and> 20 \<le> str_len digits then Some (True, parser_fail (p, bytes))
          else Some (True, p\<lparr>pp_token := Some (NumberToken next f (if f \<noteq> FIgnore then digits @ [ch] else digits))\<rparr>, bytes)
      | None \<Rightarrow>
          if number_complete state \<and>
             (json_space ch \<or> ch = ascii (CHR '','') \<or> ch = ascii (CHR '']'') \<or> ch = ascii (CHR ''}''))
          then Some (False, finish_number f digits (p, bytes))
          else Some (True, parser_fail (p, bytes)))"

definition close :: "PreviewParser \<Rightarrow> PreviewParser" where
  "close p = (let p1 = p\<lparr>pp_stack := tl (pp_stack p)\<rparr> in
     if pp_stack p1 = [] then p1\<lparr>pp_done := True\<rparr> else p1)"

definition value_field :: "PreviewParser \<Rightarrow> Field" where
  "value_field p = (if length (pp_stack p) = 1 then pp_field p else FIgnore)"

definition field_refuses :: "Field \<Rightarrow> scalar \<Rightarrow> bool" where
  "field_refuses f ch =
     ((f \<in> {FPath, FContent} \<and> ch \<noteq> ascii (CHR 0x22))
      \<or> (f \<in> {FOffset, FLimit} \<and> \<not> is_ascii_digit ch \<and> ch \<noteq> ascii (CHR ''-'')))"

definition after_value :: "Frame \<Rightarrow> Frame" where
  "after_value f = (case f of FrObject _ \<Rightarrow> FrObject OCommaOrEnd | FrArray _ \<Rightarrow> FrArray ACommaOrEnd)"

definition begin_string :: "allocator \<Rightarrow> Field \<Rightarrow> pstate \<Rightarrow> pstate option" where
  "begin_string reserve f = (\<lambda>(p, bytes).
     map_option (\<lambda>(p1, bytes1). (p1\<lparr>pp_token := Some (StringToken (CField f) EscNone)\<rparr>, bytes1))
       (if f = FPath
        then Some ((if pp_path p = None then p\<lparr>pp_path := Some \<lparr>buf_text = [], buf_cap = 0\<rparr>\<rparr> else p)
                     \<lparr>pp_changes := pp_changes p + 1\<rparr>, bytes)
        else if f = FContent
        then
          (case (if pp_path p = None
                 then
                   (case append_display reserve False (replicate (min 32 (MAX_STREAM_BYTES - bytes)) 32)
                           (p\<lparr>pp_path := Some \<lparr>buf_text = [], buf_cap = 0\<rparr>\<rparr>, bytes) of
                      None \<Rightarrow> None
                    | Some (_, p1, bytes1) \<Rightarrow>
                        (case pp_path p1 of
                           None \<Rightarrow> None
                         | Some b \<Rightarrow> Some (p1\<lparr>pp_path := Some (b\<lparr>buf_text := []\<rparr>)\<rparr>, bytes1)))
                 else Some (p, bytes)) of
             None \<Rightarrow> None
           | Some (p2, bytes2) \<Rightarrow>
               Some (p2\<lparr>pp_content := Some \<lparr>buf_text = [], buf_cap = 0\<rparr>, pp_changes := pp_changes p2 + 1\<rparr>, bytes2))
        else Some (p, bytes)))"

definition begin_value :: "allocator \<Rightarrow> Field \<Rightarrow> scalar \<Rightarrow> pstate \<Rightarrow> pstate option" where
  "begin_value reserve f ch st =
     (if ch = ascii (CHR ''{'') \<or> ch = ascii (CHR ''['')
      then if MAX_DEPTH \<le> length (pp_stack (fst st)) then Some (parser_fail st)
           else Some ((fst st)\<lparr>pp_stack :=
               (if ch = ascii (CHR ''{'') then FrObject KeyOrEnd else FrArray ValueOrEnd) # pp_stack (fst st)\<rparr>, snd st)
      else if ch = ascii (CHR 0x22) then begin_string reserve f st
      else if ch = ascii (CHR ''-'') \<or> is_ascii_digit ch
      then Some ((fst st)\<lparr>pp_token := Some (NumberToken
               (if ch = ascii (CHR ''-'') then Minus else if ch = ascii (CHR ''0'') then Zero else Integer)
               f (if f = FIgnore then [] else [ch]))\<rparr>, snd st)
      else if ch = ascii (CHR ''t'') then Some ((fst st)\<lparr>pp_token := Some (LiteralToken ''true'' 1)\<rparr>, snd st)
      else if ch = ascii (CHR ''f'') then Some ((fst st)\<lparr>pp_token := Some (LiteralToken ''false'' 1)\<rparr>, snd st)
      else if ch = ascii (CHR ''n'') then Some ((fst st)\<lparr>pp_token := Some (LiteralToken ''null'' 1)\<rparr>, snd st)
      else Some (parser_fail st))"

definition structural_value :: "allocator \<Rightarrow> scalar \<Rightarrow> pstate \<Rightarrow> pstate option" where
  "structural_value reserve ch = (\<lambda>(p, bytes).
     let f = value_field p in
     if field_refuses f ch then Some (parser_fail (p, bytes))
     else begin_value reserve f ch (set_top (after_value (hd (pp_stack p))) p, bytes))"

definition structural_key :: "Frame \<Rightarrow> scalar \<Rightarrow> pstate \<Rightarrow> pstate" where
  "structural_key fr ch = (\<lambda>(p, bytes).
     if ch = ascii (CHR ''}'') \<and> fr = FrObject KeyOrEnd then (close p, bytes)
     else if ch = ascii (CHR 0x22)
     then (p\<lparr>pp_key := [], pp_key_overflow := False,
              pp_token := Some (StringToken (if length (pp_stack p) = 1 then CKey else CIgnore) EscNone)\<rparr>, bytes)
     else parser_fail (p, bytes))"

definition structural :: "allocator \<Rightarrow> scalar \<Rightarrow> pstate \<Rightarrow> pstate option" where
  "structural reserve ch = (\<lambda>(p, bytes).
     if json_space ch then Some (p, bytes)
     else if \<not> pp_started p
     then (let p1 = p\<lparr>pp_started := True\<rparr> in
           Some (if ch \<noteq> ascii (CHR ''{'') then parser_fail (p1, bytes)
                 else (p1\<lparr>pp_stack := FrObject KeyOrEnd # pp_stack p1\<rparr>, bytes)))
     else if pp_done p then Some (parser_fail (p, bytes))
     else
       case pp_stack p of
         [] \<Rightarrow> Some (parser_fail (p, bytes))
       | fr # _ \<Rightarrow>
           (case fr of
              FrObject KeyOrEnd \<Rightarrow> Some (structural_key fr ch (p, bytes))
            | FrObject Key \<Rightarrow> Some (structural_key fr ch (p, bytes))
            | FrObject Colon \<Rightarrow>
                Some (if ch = ascii (CHR '':'') then (set_top (FrObject OValue) p, bytes) else parser_fail (p, bytes))
            | FrObject OCommaOrEnd \<Rightarrow>
                Some (if ch = ascii (CHR '','') then (set_top (FrObject Key) p, bytes)
                      else if ch = ascii (CHR ''}'') then (close p, bytes)
                      else parser_fail (p, bytes))
            | FrArray ACommaOrEnd \<Rightarrow>
                Some (if ch = ascii (CHR '','') then (set_top (FrArray AValue) p, bytes)
                      else if ch = ascii (CHR '']'') then (close p, bytes)
                      else parser_fail (p, bytes))
            | FrArray ValueOrEnd \<Rightarrow>
                if ch = ascii (CHR '']'') then Some (close p, bytes) else structural_value reserve ch (p, bytes)
            | FrArray AValue \<Rightarrow> structural_value reserve ch (p, bytes)
            | FrObject OValue \<Rightarrow> structural_value reserve ch (p, bytes)))"

text \<open>The body of the loop, run while the recognizer is valid.\<close>

definition feed_char :: "allocator \<Rightarrow> scalar \<Rightarrow> pstate \<Rightarrow> pstate option" where
  "feed_char reserve ch = (\<lambda>(p, bytes).
     case pp_token p of
       None \<Rightarrow> structural reserve ch (p, bytes)
     | Some t \<Rightarrow>
         (case token_char reserve t ch (p\<lparr>pp_token := None\<rparr>, bytes) of
            None \<Rightarrow> None
          | Some (consumed, p1, bytes1) \<Rightarrow>
              if consumed \<or> pp_invalid p1 then Some (p1, bytes1) else structural reserve ch (p1, bytes1)))"

fun preview_feed :: "allocator \<Rightarrow> scalar list \<Rightarrow> pstate \<Rightarrow> pstate option" where
  "preview_feed reserve [] st = Some st"
| "preview_feed reserve (ch # chs) st =
     (if pp_invalid (fst st) then Some st
      else case feed_char reserve ch st of None \<Rightarrow> None | Some st' \<Rightarrow> preview_feed reserve chs st')"

section \<open>Memory\<close>

text \<open>
  \<^verbatim>\<open>String::try_reserve_exact\<close>: after success there is room for the extra bytes, after failure the
  buffer is as it was. The allocator may hand out more than requested.
\<close>

definition allocator_ok :: "allocator \<Rightarrow> bool" where
  "allocator_ok reserve =
     (\<forall>cap len extra. case reserve cap len extra of
        (ok, cap') \<Rightarrow> if ok then len + extra \<le> cap' else cap' = cap)"

definition cap_of :: "buffer option \<Rightarrow> nat" where
  "cap_of b = (case b of None \<Rightarrow> 0 | Some t \<Rightarrow> buf_cap t)"

definition buf_fits :: "buffer option \<Rightarrow> bool" where
  "buf_fits b = (case b of None \<Rightarrow> True | Some t \<Rightarrow> str_len (buf_text t) \<le> buf_cap t)"

lemma cap_of_simps [simp]: "cap_of None = 0" "cap_of (Some t) = buf_cap t"
  by (simp_all add: cap_of_def)

lemma buf_fits_simps [simp]: "buf_fits None" "buf_fits (Some t) = (str_len (buf_text t) \<le> buf_cap t)"
  by (simp_all add: buf_fits_def)

lemma str_len_simps [simp]:
  "str_len [] = 0" "str_len (c # s) = utf8_len c + str_len s" "str_len (s @ t) = str_len s + str_len t"
  by (simp_all add: str_len_def)

text \<open>\<open>oth\<close> are the bytes that the other calls of the stream hold.\<close>

definition mem_ok :: "nat \<Rightarrow> pstate \<Rightarrow> bool" where
  "mem_ok oth = (\<lambda>(p, bytes).
     bytes = oth + pp_retained p \<and> bytes \<le> MAX_STREAM_BYTES
     \<and> pp_retained p = cap_of (pp_path p) + cap_of (pp_content p) \<and> pp_retained p \<le> MAX_CALL_BYTES
     \<and> cap_of (pp_path p) \<le> MAX_DETAIL_BYTES \<and> buf_fits (pp_path p) \<and> buf_fits (pp_content p))"

definition same_control :: "PreviewParser \<Rightarrow> PreviewParser \<Rightarrow> bool" where
  "same_control p q =
     (q = p\<lparr>pp_path := pp_path q, pp_content := pp_content q, pp_retained := pp_retained q\<rparr>
      \<and> (pp_path q = None) = (pp_path p = None) \<and> (pp_content q = None) = (pp_content p = None))"

lemma same_control_fields:
  assumes "same_control p q"
  shows "pp_stack q = pp_stack p" "pp_token q = pp_token p" "pp_key q = pp_key p" "pp_field q = pp_field p"
    "pp_seen q = pp_seen p" "pp_invalid q = pp_invalid p" "(pp_path q = None) = (pp_path p = None)"
    "(pp_content q = None) = (pp_content p = None)" "pp_done q = pp_done p" "pp_started q = pp_started p"
proof -
  from assms have q: "q = p\<lparr>pp_path := pp_path q, pp_content := pp_content q, pp_retained := pp_retained q\<rparr>"
    and n: "(pp_path q = None) = (pp_path p = None)" "(pp_content q = None) = (pp_content p = None)"
    unfolding same_control_def by blast+
  show "pp_stack q = pp_stack p" "pp_token q = pp_token p" "pp_key q = pp_key p" "pp_field q = pp_field p"
    "pp_seen q = pp_seen p" "pp_invalid q = pp_invalid p" "pp_done q = pp_done p" "pp_started q = pp_started p"
    by (subst q, simp)+
  show "(pp_path q = None) = (pp_path p = None)" "(pp_content q = None) = (pp_content p = None)" by (fact n)+
qed

lemma same_control_refl [simp]: "same_control p p"
  by (simp add: same_control_def)

lemma set_buffer_ok:
  assumes m: "mem_ok oth (p, bytes)" and t: "field_buffer body p = Some t"
    and b: "str_len (buf_text b) \<le> buf_cap b"
      "pp_retained p - buf_cap t + buf_cap b \<le> MAX_CALL_BYTES"
      "bytes - buf_cap t + buf_cap b \<le> MAX_STREAM_BYTES" "\<not> body \<longrightarrow> buf_cap b \<le> MAX_DETAIL_BYTES"
  shows "mem_ok oth ((set_buffer body b p)\<lparr>pp_retained := pp_retained p - buf_cap t + buf_cap b\<rparr>,
      bytes - buf_cap t + buf_cap b)
    \<and> same_control p ((set_buffer body b p)\<lparr>pp_retained := pp_retained p - buf_cap t + buf_cap b\<rparr>)"
  using assms by (cases body) (auto simp: mem_ok_def field_buffer_def set_buffer_def same_control_def)

lemma append_display_ok:
  assumes a: "allocator_ok reserve" and m: "mem_ok oth (p, bytes)" and f: "field_buffer body p \<noteq> None"
  shows "\<exists>ok q bytes'. append_display reserve body v (p, bytes) = Some (ok, q, bytes')
    \<and> mem_ok oth (q, bytes') \<and> same_control p q"
proof -
  from f obtain t where t: "field_buffer body p = Some t" by auto
  define len where "len = str_len (buf_text t)"
  define needed where "needed = len + str_len v"
  define lim where "lim = capacity_limit body (pp_retained p - buf_cap t) (bytes - buf_cap t)"
  define req where "req = min (max (max (min (buf_cap t * 2) (u64_bound - 1)) 8) needed) lim"
  define extra where "extra = req - len"
  obtain ok cap where r: "reserve (buf_cap t) len extra = (ok, cap)" by force
  with a have c: "if ok then len + extra \<le> cap else cap = buf_cap t"
    unfolding allocator_ok_def by (metis (mono_tags, lifting) case_prod_conv)
  from m t have g: "buf_cap t \<le> pp_retained p" "buf_cap t \<le> bytes" "len \<le> buf_cap t"
    by (auto simp: mem_ok_def field_buffer_def len_def split: if_splits)
  have eq: "append_display reserve body v (p, bytes) =
    (if lim < needed then Some (False, p, bytes)
     else if needed \<le> buf_cap t
     then Some (True, set_buffer body \<lparr>buf_text = buf_text t @ v, buf_cap = buf_cap t\<rparr> p, bytes)
     else if lim < cap
     then Some (False, (set_buffer body \<lparr>buf_text = [], buf_cap = 0\<rparr> p)\<lparr>pp_retained := pp_retained p - buf_cap t\<rparr>,
            bytes - buf_cap t)
     else if \<not> ok
     then Some (False, (set_buffer body (t\<lparr>buf_cap := cap\<rparr>) p)\<lparr>pp_retained := pp_retained p - buf_cap t + cap\<rparr>,
            bytes - buf_cap t + cap)
     else if cap < needed then None
     else Some (True, (set_buffer body \<lparr>buf_text = buf_text t @ v, buf_cap = cap\<rparr> p)
              \<lparr>pp_retained := pp_retained p - buf_cap t + cap\<rparr>, bytes - buf_cap t + cap))"
    using g r by (simp add: append_display_def t Let_def len_def needed_def lim_def extra_def req_def)
  have lim: "pp_retained p - buf_cap t + x \<le> MAX_CALL_BYTES \<and> bytes - buf_cap t + x \<le> MAX_STREAM_BYTES
      \<and> (\<not> body \<longrightarrow> x \<le> MAX_DETAIL_BYTES)" if "x \<le> lim" for x
    using that m g by (auto simp: lim_def capacity_limit_def mem_ok_def)
  have old: "pp_retained p - buf_cap t + buf_cap t = pp_retained p" "bytes - buf_cap t + buf_cap t = bytes" using g by auto
  have p_eta: "(set_buffer body b p)\<lparr>pp_retained := pp_retained p\<rparr> = set_buffer body b p" for b
    by (simp add: set_buffer_def)
  note set = set_buffer_ok[OF m t]
  consider "lim < needed" | "needed \<le> lim" "needed \<le> buf_cap t" | "needed \<le> lim" "buf_cap t < needed" "lim < cap"
    | "needed \<le> lim" "buf_cap t < needed" "cap \<le> lim" "\<not> ok"
    | "needed \<le> lim" "buf_cap t < needed" "cap \<le> lim" "ok" by linarith
  then show ?thesis
  proof cases
    case 1
    with m show ?thesis by (auto simp: eq)
  next
    case 2
    have b: "\<not> body \<longrightarrow> buf_cap t \<le> MAX_DETAIL_BYTES" "bytes \<le> MAX_STREAM_BYTES" "pp_retained p \<le> MAX_CALL_BYTES"
      using m t by (auto simp: mem_ok_def field_buffer_def)
    with 2 set[of "\<lparr>buf_text = buf_text t @ v, buf_cap = buf_cap t\<rparr>"] show ?thesis
      by (auto simp: eq old p_eta needed_def len_def)
  next
    case 3
    with set[of "\<lparr>buf_text = [], buf_cap = 0\<rparr>"] lim[of 0] show ?thesis by (auto simp: eq)
  next
    case 4
    with c set[of "t\<lparr>buf_cap := cap\<rparr>"] lim[of cap] g show ?thesis by (auto simp: eq len_def)
  next
    case 5
    have "needed \<le> req" using 5 by (simp add: req_def le_max_iff_disj)
    moreover from 5 c have "len + extra \<le> cap" by simp
    ultimately have "needed \<le> cap" unfolding extra_def by arith
    with 5 set[of "\<lparr>buf_text = buf_text t @ v, buf_cap = cap\<rparr>"] lim[of cap] show ?thesis
      by (auto simp: eq needed_def len_def)
  qed
qed

section \<open>No panic, and bounded memory\<close>

fun escape_ok :: "Escape \<Rightarrow> bool" where
  "escape_ok (LowSlash h) = (0xD800 \<le> h \<and> h \<le> 0xDBFF)"
| "escape_ok (LowU h) = (0xD800 \<le> h \<and> h \<le> 0xDBFF)"
| "escape_ok (LowUnicode h _ _) = (0xD800 \<le> h \<and> h \<le> 0xDBFF)"
| "escape_ok _ = True"

fun token_ok :: "PreviewParser \<Rightarrow> Token \<Rightarrow> bool" where
  "token_ok p (StringToken cap esc) =
     (escape_ok esc \<and> pp_stack p \<noteq> []
      \<and> (cap = CField FPath \<longrightarrow> pp_path p \<noteq> None) \<and> (cap = CField FContent \<longrightarrow> pp_content p \<noteq> None)
      \<and> (cap \<noteq> CKey \<longrightarrow> length (pp_stack p) = 1 \<longrightarrow> hd (pp_stack p) \<notin> {FrObject KeyOrEnd, FrObject Key}))"
| "token_ok p (NumberToken s f digits) = (f \<noteq> FIgnore \<longrightarrow> length digits \<le> 20)"
| "token_ok p (LiteralToken expected i) = True"

fun is_object :: "Frame \<Rightarrow> bool" where
  "is_object (FrObject _) = True"
| "is_object (FrArray _) = False"

definition value_seen :: "Frame \<Rightarrow> bool" where
  "value_seen f = (f = FrObject OCommaOrEnd \<or> f = FrArray ACommaOrEnd)"

text \<open>
  The shape of a recognizer state; the last clauses say that a second content string, which
  would drop a charged buffer, cannot begin.
\<close>

definition shape_ok :: "PreviewParser \<Rightarrow> bool" where
  "shape_ok p =
     (length (pp_stack p) \<le> MAX_DEPTH \<and> str_len (pp_key p) \<le> 32
      \<and> (\<forall>t. pp_token p = Some t \<longrightarrow> token_ok p t)
      \<and> (pp_seen p AND 2 = 0 \<longrightarrow> pp_content p = None)
      \<and> (pp_stack p \<noteq> [] \<longrightarrow> is_object (last (pp_stack p))) \<and> list_all value_seen (tl (pp_stack p))
      \<and> (\<not> pp_started p \<longrightarrow> pp_stack p = [])
      \<and> (pp_field p = FContent \<and> pp_stack p \<in> {[FrObject Colon], [FrObject OValue]} \<longrightarrow>
           pp_content p = None \<and> pp_seen p AND 2 \<noteq> 0))"

definition parser_ok :: "nat \<Rightarrow> pstate \<Rightarrow> bool" where
  "parser_ok oth st = (mem_ok oth st \<and> shape_ok (fst st))"

lemma new_parser_ok: "oth \<le> MAX_STREAM_BYTES \<Longrightarrow> parser_ok oth (new_parser name, oth)"
  by (simp add: parser_ok_def mem_ok_def shape_ok_def new_parser_def)

lemma parser_fail_mem: "mem_ok oth st \<Longrightarrow> mem_ok oth (parser_fail st)"
  by (cases st) (auto simp: mem_ok_def parser_fail_def)

lemma parser_fail_ok: "mem_ok oth st \<Longrightarrow> \<not> pp_invalid (fst st) \<Longrightarrow> parser_ok oth (parser_fail st)"
  by (cases st) (auto simp: parser_ok_def parser_fail_mem, auto simp: shape_ok_def parser_fail_def)

lemma same_control_shape:
  assumes "same_control p q" and "shape_ok p"
  shows "shape_ok q"
proof -
  note f = same_control_fields[OF assms(1)]
  have "token_ok q t = token_ok p t" for t by (cases t) (simp_all add: f)
  with assms(2) f show ?thesis by (simp add: shape_ok_def)
qed

lemma parser_okI: "mem_ok oth (p, bytes) \<Longrightarrow> shape_ok p \<Longrightarrow> parser_ok oth (p, bytes)"
  by (simp add: parser_ok_def)

lemma capture_field_ok:
  assumes a: "allocator_ok reserve" and m: "mem_ok oth (p, bytes)" and f: "field_buffer body p \<noteq> None"
  shows "\<exists>q bytes'. capture_field reserve body ch (p, bytes) = Some (q, bytes') \<and> mem_ok oth (q, bytes')
    \<and> (shape_ok p \<longrightarrow> shape_ok q) \<and> (pp_path q = None) = (pp_path p = None)
    \<and> (pp_content q = None) = (pp_content p = None) \<and> pp_stack q = pp_stack p \<and> pp_token q = pp_token p
    \<and> pp_invalid q = pp_invalid p"
proof -
  from append_display_ok[OF a m f, of "display_char body ch"] obtain ok q bytes' where
    q: "append_display reserve body (display_char body ch) (p, bytes) = Some (ok, q, bytes')"
    "mem_ok oth (q, bytes')" "same_control p q" by blast
  let ?q = "if ok then q else mark_cut body q"
  have "mem_ok oth (?q\<lparr>pp_changes := pp_changes ?q + 1\<rparr>, bytes')"
    using q(2) by (auto simp: mem_ok_def mark_cut_def)
  moreover have "token_ok (?q\<lparr>pp_changes := pp_changes ?q + 1\<rparr>) t = token_ok q t" for t
    by (cases t) (auto simp: mark_cut_def)
  then have "shape_ok (?q\<lparr>pp_changes := pp_changes ?q + 1\<rparr>)" if "shape_ok p"
    using same_control_shape[OF q(3) that] by (simp add: shape_ok_def mark_cut_def)
  ultimately show ?thesis
    using q(1) same_control_fields[OF q(3)] m
    by (auto simp: capture_field_def Let_def mark_cut_def)
qed

lemma decode_escape_ok: "decode e ch = Some (e', d) \<Longrightarrow> escape_ok e \<Longrightarrow> escape_ok e'"
  by (induction e ch rule: decode.induct)
    (auto simp: unicode_digit_def unicode_end_def Let_def split: if_splits option.splits)

lemma capture_ok:
  assumes a: "allocator_ok reserve" and m: "mem_ok oth (p, bytes)" and s: "shape_ok p"
    and t: "token_ok p (StringToken cap esc)"
  shows "\<exists>q bytes'. capture reserve cap ch (p, bytes) = Some (q, bytes') \<and> mem_ok oth (q, bytes') \<and> shape_ok q
    \<and> (pp_path q = None) = (pp_path p = None) \<and> (pp_content q = None) = (pp_content p = None)
    \<and> pp_stack q = pp_stack p \<and> pp_invalid q = pp_invalid p"
proof -
  consider "cap = CKey" | "cap = CField FPath" | "cap = CField FContent"
    | "cap \<noteq> CKey" "cap \<noteq> CField FPath" "cap \<noteq> CField FContent" by blast
  then show ?thesis
  proof cases
    case 1
    have "token_ok (p\<lparr>pp_key := k\<rparr>) t = token_ok p t" "token_ok (p\<lparr>pp_key_overflow := x\<rparr>) t = token_ok p t" for t k x
      by (cases t; simp)+
    with 1 m s show ?thesis by (auto simp: mem_ok_def shape_ok_def)
  next
    case 2
    with t capture_field_ok[OF a m, of False ch] s show ?thesis by (auto simp: field_buffer_def)
  next
    case 3
    with t capture_field_ok[OF a m, of True ch] s show ?thesis by (auto simp: field_buffer_def)
  next
    case 4
    then have "capture reserve cap ch (p, bytes) = Some (p, bytes)"
      by (cases "(reserve, cap, ch, (p, bytes))" rule: capture.cases) auto
    with m s show ?thesis by auto
  qed
qed

lemma seen_or: "(s OR b) AND (2 :: 8 word) = 0 \<longleftrightarrow> s AND 2 = 0 \<and> b AND 2 = 0"
  by (simp add: bit.conj_disj_distrib2 or_eq_0_iff)

lemma field_bit_content: "field_bit f AND 2 = 0 \<longleftrightarrow> f \<noteq> FContent"
  by (cases f) simp_all

lemma finish_key_ok:
  assumes m: "mem_ok oth (p, bytes)" and s: "shape_ok p" and k: "pp_stack p \<noteq> []" "\<not> pp_invalid p" "pp_token p = None"
    and o: "length (pp_stack p) = 1 \<longrightarrow> is_object (hd (pp_stack p))"
  shows "\<exists>st. finish_key (p, bytes) = Some st \<and> parser_ok oth st"
proof (cases "pp_seen p AND field_bit (key_field p) = 0")
  case True
  with assms show ?thesis
    by (cases "pp_stack p"; cases "key_field p")
      (auto simp: finish_key_def Let_def parser_ok_def mem_ok_def shape_ok_def set_top_def seen_or field_bit_content)
next
  case False
  with m k show ?thesis
    by (auto simp: finish_key_def Let_def mem_ok_def intro!: parser_fail_ok)
qed

lemma shape_token:
  "shape_ok (p\<lparr>pp_token := t\<rparr>) \<longleftrightarrow> shape_ok (p\<lparr>pp_token := None\<rparr>) \<and> (\<forall>x. t = Some x \<longrightarrow> token_ok p x)"
proof -
  have "token_ok (p\<lparr>pp_token := t\<rparr>) x = token_ok p x" for t x by (cases x) simp_all
  then show ?thesis by (auto simp: shape_ok_def)
qed

lemma mem_token [simp]: "mem_ok oth (p\<lparr>pp_token := t\<rparr>, bytes) = mem_ok oth (p, bytes)"
  by (simp add: mem_ok_def)

lemma token_None [simp]: "pp_token p = None \<Longrightarrow> p\<lparr>pp_token := None\<rparr> = p"
  by (cases p) simp

lemma finish_number_ok:
  assumes m: "mem_ok oth (p, bytes)" and s: "shape_ok p" and n: "\<not> pp_invalid p" "pp_token p = None"
  shows "parser_ok oth (finish_number f ds (p, bytes)) \<and> pp_token (fst (finish_number f ds (p, bytes))) = None"
proof -
  have tk: "pp_token (fst (parser_fail (p, bytes))) = None" using n by (simp add: parser_fail_def)
  consider "f = FIgnore" | v where "f \<noteq> FIgnore" "parse_u64 ds = Some v" "0 < v"
    | "f \<noteq> FIgnore" "\<forall>v. parse_u64 ds = Some v \<longrightarrow> v = 0" by blast
  then show ?thesis
  proof cases
    case 1
    with m s n show ?thesis by (simp add: finish_number_def parser_ok_def)
  next
    case 2
    let ?p = "if f = FOffset then p\<lparr>pp_offset := Some v\<rparr> else p\<lparr>pp_limit := Some v\<rparr>"
    have "shape_ok (?p\<lparr>pp_changes := pp_changes ?p + 1\<rparr>)" using s n(2) by (simp add: shape_ok_def)
    moreover have "mem_ok oth (?p\<lparr>pp_changes := pp_changes ?p + 1\<rparr>, bytes)" using m by (simp add: mem_ok_def)
    ultimately show ?thesis using 2 n(2) by (simp add: finish_number_def Let_def parser_ok_def)
  next
    case 3
    then have "finish_number f ds (p, bytes) = parser_fail (p, bytes)"
      by (cases "parse_u64 ds") (simp_all add: finish_number_def)
    with parser_fail_ok[OF m] tk n show ?thesis by simp
  qed
qed

lemma str_len_length: "length s \<le> str_len s"
  by (induction s) (auto simp: utf8_len_def)

lemma shape_set_top:
  assumes s: "shape_ok p" and t: "pp_token p = None" and k: "pp_stack p = g # rest" and o: "is_object f = is_object g"
    and c: "rest = [] \<Longrightarrow> f = FrObject Colon \<or> f = FrObject OValue \<Longrightarrow> pp_field p = FContent \<Longrightarrow>
        pp_content p = None \<and> pp_seen p AND 2 \<noteq> 0"
  shows "shape_ok (set_top f p)"
proof -
  have st: "pp_stack (set_top f p) = f # rest" by (simp add: set_top_def k)
  have eqs: "pp_token (set_top f p) = None" "pp_key (set_top f p) = pp_key p" "pp_seen (set_top f p) = pp_seen p"
    "pp_field (set_top f p) = pp_field p" "pp_content (set_top f p) = pp_content p"
    "pp_started (set_top f p) = pp_started p"
    by (simp_all add: set_top_def t)
  have "is_object (last (f # rest))" using s o k by (auto simp: shape_ok_def split: if_splits)
  moreover have "length (f # rest) \<le> MAX_DEPTH" "str_len (pp_key p) \<le> 32" "pp_seen p AND 2 = 0 \<longrightarrow> pp_content p = None"
    "list_all value_seen rest" "pp_started p"
    using s k by (simp_all add: shape_ok_def)
  ultimately show ?thesis
    using c unfolding shape_ok_def st eqs by (simp; blast)
qed

lemma token_char_ok:
  assumes a: "allocator_ok reserve" and m: "mem_ok oth (p, bytes)" and s: "shape_ok p" and t: "token_ok p t"
    and n: "\<not> pp_invalid p" "pp_token p = None"
  shows "\<exists>c st. token_char reserve t ch (p, bytes) = Some (c, st) \<and> parser_ok oth st
    \<and> (c \<or> pp_token (fst st) = None)"
proof (cases t)
  case (StringToken cap esc)
  show ?thesis
  proof (cases "esc = EscNone \<and> ch = ascii (CHR 0x22)")
    case True
    show ?thesis
    proof (cases "cap = CKey")
      case key: True
      have "length (pp_stack p) = 1 \<longrightarrow> is_object (hd (pp_stack p))"
        using s by (cases "pp_stack p") (auto simp: shape_ok_def)
      with finish_key_ok[OF m s _ n] t key True StringToken show ?thesis by auto
    next
      case False
      have "shape_ok (set_top (FrObject Colon) p)" if "hd (pp_stack p) \<in> {FrObject KeyOrEnd, FrObject Key}" "pp_stack p \<noteq> []"
      proof -
        from that obtain g rest where k: "pp_stack p = g # rest" "is_object g" by (cases "pp_stack p") auto
        from t False that StringToken k have "rest \<noteq> []" by auto
        with shape_set_top[OF s n(2) k(1)] k(2) show ?thesis by simp
      qed
      moreover have "mem_ok oth (set_top (FrObject Colon) p, bytes)" using m by (simp add: mem_ok_def set_top_def)
      ultimately show ?thesis using True False StringToken m s by (auto simp: parser_ok_def)
    qed
  next
    case False
    show ?thesis
    proof (cases "decode esc ch")
      case None
      have "parser_ok oth (parser_fail (p, bytes))" using n by (intro parser_fail_ok[OF m]) simp
      moreover have "token_char reserve t ch (p, bytes) = Some (True, parser_fail (p, bytes))"
        unfolding StringToken token_char.simps None if_not_P[OF False] by simp
      ultimately show ?thesis by blast
    next
      case (Some r)
      obtain nx dec where r: "r = (nx, dec)" by force
      obtain q bytes' where q: "(case dec of None \<Rightarrow> Some (p, bytes) | Some c \<Rightarrow> capture reserve cap c (p, bytes)) = Some (q, bytes')"
        "mem_ok oth (q, bytes')" "shape_ok q" "(pp_path q = None) = (pp_path p = None)"
        "(pp_content q = None) = (pp_content p = None)" "pp_stack q = pp_stack p"
      proof (cases dec)
        case None
        with m s that show ?thesis by simp
      next
        case (Some c)
        from capture_ok[OF a m s t[unfolded StringToken], of c] obtain q bytes' where
          "capture reserve cap c (p, bytes) = Some (q, bytes')" "mem_ok oth (q, bytes')" "shape_ok q"
          "(pp_path q = None) = (pp_path p = None)" "(pp_content q = None) = (pp_content p = None)"
          "pp_stack q = pp_stack p" by (elim exE conjE)
        with Some show ?thesis by (intro that[of q bytes']) simp_all
      qed
      have "escape_ok nx" using decode_escape_ok Some r t StringToken by auto
      with t q StringToken have tk: "token_ok q (StringToken cap nx)" by simp
      have "shape_ok (q\<lparr>pp_token := None\<rparr>)" using q(3) by (simp add: shape_ok_def)
      with tk have "shape_ok (q\<lparr>pp_token := Some (StringToken cap nx)\<rparr>)" by (subst shape_token) simp
      then show ?thesis using False StringToken Some r q(1,2) by (auto simp: parser_ok_def)
    qed
  qed
next
  case (NumberToken st f ds)
  have tk: "shape_ok (p\<lparr>pp_token := Some (NumberToken nx f ds')\<rparr>)" if "f = FIgnore \<or> length ds' \<le> 20" for nx ds'
    using s n(2) that by (subst shape_token) auto
  have len: "length ds < 20" if "str_len ds < 20" using that str_len_length[of ds] by simp
  note fn = finish_number_ok[OF m s n, of f ds] and fl = parser_fail_ok[OF m]
  show ?thesis
  proof (cases "number_next st ch")
    case None
    with NumberToken fn fl n show ?thesis by (auto simp: prod_eq_iff)
  next
    case (Some nx)
    let ?ds = "if f \<noteq> FIgnore then ds @ [ch] else ds"
    show ?thesis
    proof (cases "f \<noteq> FIgnore \<and> 20 \<le> str_len ds")
      case True
      with Some NumberToken fl n show ?thesis by auto
    next
      case False
      then have "f = FIgnore \<or> length ?ds \<le> 20" using len by auto
      from tk[OF this, of nx] m have "parser_ok oth (p\<lparr>pp_token := Some (NumberToken nx f ?ds)\<rparr>, bytes)"
        by (simp add: parser_ok_def)
      with Some False NumberToken show ?thesis by auto
    qed
  qed
next
  case (LiteralToken ex i)
  have "shape_ok (p\<lparr>pp_token := Some (LiteralToken ex (i + 1))\<rparr>)"
    using s n(2) by (subst shape_token) simp
  with m s have "parser_ok oth (p\<lparr>pp_token := Some (LiteralToken ex (i + 1))\<rparr>, bytes)" "parser_ok oth (p, bytes)"
    by (simp_all add: parser_ok_def)
  with LiteralToken parser_fail_ok[OF m] n show ?thesis by (auto simp: Suc_eq_plus1 simp del: One_nat_def)
qed

lemma begin_string_ok:
  assumes a: "allocator_ok reserve" and m: "mem_ok oth (p, bytes)" and s: "shape_ok p" and t: "pp_token p = None"
    and k: "pp_stack p = g # rest" "rest = [] \<longrightarrow> g = FrObject OCommaOrEnd" "g \<notin> {FrObject KeyOrEnd, FrObject Key}"
    and c: "f = FContent \<longrightarrow> pp_content p = None \<and> pp_seen p AND 2 \<noteq> 0"
  shows "\<exists>st. begin_string reserve f (p, bytes) = Some st \<and> parser_ok oth st"
proof -
  let ?e = "\<lparr>buf_text = [], buf_cap = 0\<rparr>"
  have tok: "parser_ok oth (q\<lparr>pp_token := Some (StringToken (CField f) EscNone)\<rparr>, b)"
    if "mem_ok oth (q, b)" "shape_ok (q\<lparr>pp_token := None\<rparr>)" "pp_stack q = pp_stack p"
      "f = FPath \<longrightarrow> pp_path q \<noteq> None" "f = FContent \<longrightarrow> pp_content q \<noteq> None" for q b
  proof -
    have "token_ok q (StringToken (CField f) EscNone)" using that k by simp
    with that(2) have "shape_ok (q\<lparr>pp_token := Some (StringToken (CField f) EscNone)\<rparr>)" by (subst shape_token) simp
    with that(1) show ?thesis by (simp add: parser_ok_def)
  qed
  consider "f \<noteq> FPath" "f \<noteq> FContent" | "f = FPath" | "f = FContent" by blast
  then show ?thesis
  proof cases
    case 1
    with tok[OF m] s t show ?thesis by (simp add: begin_string_def)
  next
    case 2
    let ?q = "(if pp_path p = None then p\<lparr>pp_path := Some ?e\<rparr> else p)\<lparr>pp_changes := pp_changes p + 1\<rparr>"
    have "mem_ok oth (?q, bytes)" using m by (simp add: mem_ok_def)
    moreover have "shape_ok (?q\<lparr>pp_token := None\<rparr>)" using s t by (simp add: shape_ok_def)
    ultimately have "parser_ok oth (?q\<lparr>pp_token := Some (StringToken (CField f) EscNone)\<rparr>, bytes)"
      using 2 by (intro tok) simp_all
    with 2 show ?thesis by (simp add: begin_string_def)
  next
    case 3
    obtain q b where q: "(if pp_path p = None
         then (case append_display reserve False (replicate (min 32 (MAX_STREAM_BYTES - bytes)) 32) (p\<lparr>pp_path := Some ?e\<rparr>, bytes) of
                 None \<Rightarrow> None
               | Some (_, p1, bytes1) \<Rightarrow>
                   (case pp_path p1 of
                      None \<Rightarrow> None
                    | Some b \<Rightarrow> Some (p1\<lparr>pp_path := Some (b\<lparr>buf_text := []\<rparr>)\<rparr>, bytes1)))
         else Some (p, bytes)) = Some (q, b)"
      "mem_ok oth (q, b)" "shape_ok q" "pp_content q = None" "pp_stack q = pp_stack p" "pp_seen q = pp_seen p"
      "pp_token q = None"
    proof (cases "pp_path p = None")
      case False
      with m s t c 3 that show ?thesis by simp
    next
      case True
      let ?p = "p\<lparr>pp_path := Some ?e\<rparr>"
      have m': "mem_ok oth (?p, bytes)" using m True by (simp add: mem_ok_def)
      have s': "shape_ok ?p" using s t by (simp add: shape_ok_def)
      from append_display_ok[OF a m', of False "replicate (min 32 (MAX_STREAM_BYTES - bytes)) 32"]
      obtain ok q b where q: "append_display reserve False (replicate (min 32 (MAX_STREAM_BYTES - bytes)) 32) (?p, bytes) = Some (ok, q, b)"
        "mem_ok oth (q, b)" "same_control ?p q" by (auto simp: field_buffer_def)
      note f = same_control_fields[OF q(3)]
      from f(7) obtain pb where pb: "pp_path q = Some pb" by auto
      let ?q = "q\<lparr>pp_path := Some (pb\<lparr>buf_text := []\<rparr>)\<rparr>"
      have "mem_ok oth (?q, b)" using q(2) pb by (simp add: mem_ok_def)
      moreover have "shape_ok ?q" using same_control_shape[OF q(3) s'] f t by (simp add: shape_ok_def)
      ultimately show ?thesis using True q(1) pb f c 3 t by (intro that[of ?q b]) simp_all
    qed
    let ?q = "q\<lparr>pp_content := Some ?e, pp_changes := pp_changes q + 1\<rparr>"
    have "mem_ok oth (?q, b)" using q(2,4) by (simp add: mem_ok_def)
    moreover have "shape_ok (?q\<lparr>pp_token := None\<rparr>)" using q(3-7) c 3 k by (auto simp: shape_ok_def)
    ultimately have "parser_ok oth (?q\<lparr>pp_token := Some (StringToken (CField f) EscNone)\<rparr>, b)"
      using 3 q(5) by (intro tok) simp_all
    with 3 q(1) show ?thesis by (simp add: begin_string_def)
  qed
qed

definition survives :: "nat \<Rightarrow> pstate option \<Rightarrow> bool" where
  "survives oth r = (case r of None \<Rightarrow> False | Some st \<Rightarrow> parser_ok oth st)"

lemma survives_simps [simp]: "\<not> survives oth None" "survives oth (Some st) = parser_ok oth st"
  by (simp_all add: survives_def)

lemma survives_iff: "survives oth r \<longleftrightarrow> (\<exists>st. r = Some st \<and> parser_ok oth st)"
  by (cases r) simp_all

lemma begin_value_ok:
  assumes a: "allocator_ok reserve" and m: "mem_ok oth (p, bytes)" and s: "shape_ok p"
    and t: "pp_token p = None" "\<not> pp_invalid p"
    and k: "pp_stack p = g # rest" "value_seen g"
    and c: "f = FContent \<longrightarrow> pp_content p = None \<and> pp_seen p AND 2 \<noteq> 0"
  shows "survives oth (begin_value reserve f ch (p, bytes))"
proof -
  have fl: "parser_ok oth (parser_fail (p, bytes))" using t by (intro parser_fail_ok[OF m]) simp
  have push: "parser_ok oth (p\<lparr>pp_stack := fr # pp_stack p\<rparr>, bytes)" if "length (pp_stack p) < MAX_DEPTH" for fr
    using m s t k that by (simp add: parser_ok_def mem_ok_def shape_ok_def)
  have tok: "parser_ok oth (p\<lparr>pp_token := Some x\<rparr>, bytes)" if "token_ok p x" for x
  proof -
    have "shape_ok (p\<lparr>pp_token := Some x\<rparr>)" using s t that by (subst shape_token) simp
    with m show ?thesis by (simp add: parser_ok_def)
  qed
  have str: "survives oth (begin_string reserve f (p, bytes))"
    unfolding survives_iff using k s by (intro begin_string_ok[OF a m s t(1) k(1) _ _ c]) (auto simp: value_seen_def shape_ok_def)
  show ?thesis
    unfolding begin_value_def fst_conv snd_conv
    using fl push str by (simp add: tok)
qed

lemma structural_value_ok:
  assumes a: "allocator_ok reserve" and m: "mem_ok oth (p, bytes)" and s: "shape_ok p"
    and t: "pp_token p = None" "\<not> pp_invalid p"
    and k: "pp_stack p = fr # rest" "fr \<in> {FrObject OValue, FrArray ValueOrEnd, FrArray AValue}"
  shows "survives oth (structural_value reserve ch (p, bytes))"
proof (cases "field_refuses (value_field p) ch")
  case True
  have "parser_ok oth (parser_fail (p, bytes))" using t by (intro parser_fail_ok[OF m]) simp
  with True show ?thesis by (simp add: structural_value_def Let_def)
next
  case False
  let ?p = "set_top (after_value fr) p"
  have o: "rest = [] \<longrightarrow> is_object fr" using s k by (auto simp: shape_ok_def)
  have "shape_ok ?p" using k by (intro shape_set_top[OF s t(1) k(1)]) (auto simp: after_value_def)
  moreover have "mem_ok oth (?p, bytes)" "pp_token ?p = None" "\<not> pp_invalid ?p" "pp_stack ?p = after_value fr # rest"
    using m t k by (simp_all add: mem_ok_def set_top_def)
  moreover have "value_seen (after_value fr)" by (cases fr) (simp_all add: after_value_def value_seen_def)
  moreover have "value_field p = FContent \<longrightarrow> pp_content ?p = None \<and> pp_seen ?p AND 2 \<noteq> 0"
    using s k o by (auto simp: value_field_def shape_ok_def set_top_def split: if_splits)
  ultimately have "survives oth (begin_value reserve (value_field p) ch (?p, bytes))"
    by (intro begin_value_ok[OF a])
  with False k show ?thesis by (simp add: structural_value_def Let_def)
qed

lemma close_ok:
  assumes "mem_ok oth (p, bytes)" and "shape_ok p" and "pp_token p = None" and "pp_stack p = fr # rest"
  shows "parser_ok oth (close p, bytes)"
  using assms by (cases rest) (auto simp: parser_ok_def mem_ok_def shape_ok_def close_def Let_def value_seen_def)

lemma structural_key_ok:
  assumes m: "mem_ok oth (p, bytes)" and s: "shape_ok p" and t: "pp_token p = None" "\<not> pp_invalid p"
    and k: "pp_stack p = fr # rest" "fr = FrObject KeyOrEnd \<or> fr = FrObject Key"
  shows "parser_ok oth (structural_key fr ch (p, bytes))"
proof -
  have fl: "parser_ok oth (parser_fail (p, bytes))" using t by (intro parser_fail_ok[OF m]) simp
  let ?tk = "StringToken (if length (pp_stack p) = 1 then CKey else CIgnore) EscNone"
  have "mem_ok oth (p\<lparr>pp_key := [], pp_key_overflow := False, pp_token := Some ?tk\<rparr>, bytes)"
    using m by (simp add: mem_ok_def)
  moreover have "shape_ok (p\<lparr>pp_key := [], pp_key_overflow := False, pp_token := Some ?tk\<rparr>)"
    using s t k by (auto simp: shape_ok_def)
  ultimately show ?thesis
    using fl close_ok[OF m s t(1) k(1)] by (simp add: structural_key_def parser_ok_def)
qed

lemma structural_ok:
  assumes a: "allocator_ok reserve" and m: "mem_ok oth (p, bytes)" and s: "shape_ok p"
    and t: "pp_token p = None" "\<not> pp_invalid p"
  shows "survives oth (structural reserve ch (p, bytes))"
proof -
  have fl: "parser_ok oth (parser_fail (p, bytes))" using t by (intro parser_fail_ok[OF m]) simp
  have ok: "parser_ok oth (p, bytes)" using m s by (simp add: parser_ok_def)
  show ?thesis
  proof (cases "json_space ch \<or> \<not> pp_started p \<or> pp_done p \<or> pp_stack p = []")
    case True
    have "parser_ok oth (parser_fail (p\<lparr>pp_started := True\<rparr>, bytes))"
      using m t by (intro parser_fail_ok) (simp_all add: mem_ok_def)
    moreover have "parser_ok oth (p\<lparr>pp_started := True, pp_stack := FrObject KeyOrEnd # pp_stack p\<rparr>, bytes)"
      if "\<not> pp_started p"
      using m s t that by (simp add: parser_ok_def mem_ok_def shape_ok_def MAX_DEPTH_def)
    ultimately show ?thesis using True fl ok by (auto simp: structural_def Let_def)
  next
    case False
    then obtain fr rest where k: "pp_stack p = fr # rest" by (cases "pp_stack p") auto
    have top: "parser_ok oth (set_top f p, bytes)"
      if "is_object f = is_object fr" "f = FrObject Colon \<or> f = FrObject OValue \<Longrightarrow> fr = FrObject Colon" for f
    proof -
      have "shape_ok (set_top f p)"
        using that s k by (intro shape_set_top[OF s t(1) k]) (auto simp: shape_ok_def)
      moreover have "mem_ok oth (set_top f p, bytes)" using m by (simp add: mem_ok_def set_top_def)
      ultimately show ?thesis by (simp add: parser_ok_def)
    qed
    have tops: "fr = FrObject Colon \<Longrightarrow> parser_ok oth (set_top (FrObject OValue) p, bytes)"
      "fr = FrObject OCommaOrEnd \<Longrightarrow> parser_ok oth (set_top (FrObject Key) p, bytes)"
      "fr = FrArray ACommaOrEnd \<Longrightarrow> parser_ok oth (set_top (FrArray AValue) p, bytes)"
      by (auto intro: top)
    note cl = close_ok[OF m s t(1) k] and key = structural_key_ok[OF m s t k] and val = structural_value_ok[OF a m s t k]
    have eq: "structural reserve ch (p, bytes) = (case fr of
              FrObject KeyOrEnd \<Rightarrow> Some (structural_key fr ch (p, bytes))
            | FrObject Key \<Rightarrow> Some (structural_key fr ch (p, bytes))
            | FrObject Colon \<Rightarrow>
                Some (if ch = ascii (CHR '':'') then (set_top (FrObject OValue) p, bytes) else parser_fail (p, bytes))
            | FrObject OCommaOrEnd \<Rightarrow>
                Some (if ch = ascii (CHR '','') then (set_top (FrObject Key) p, bytes)
                      else if ch = ascii (CHR ''}'') then (close p, bytes)
                      else parser_fail (p, bytes))
            | FrArray ACommaOrEnd \<Rightarrow>
                Some (if ch = ascii (CHR '','') then (set_top (FrArray AValue) p, bytes)
                      else if ch = ascii (CHR '']'') then (close p, bytes)
                      else parser_fail (p, bytes))
            | FrArray ValueOrEnd \<Rightarrow>
                if ch = ascii (CHR '']'') then Some (close p, bytes) else structural_value reserve ch (p, bytes)
            | FrArray AValue \<Rightarrow> structural_value reserve ch (p, bytes)
            | FrObject OValue \<Rightarrow> structural_value reserve ch (p, bytes))"
      using False k by (simp add: structural_def)
    show ?thesis
    proof (cases fr)
      case (FrObject ob)
      with eq fl cl key val tops show ?thesis by (cases ob) simp_all
    next
      case (FrArray ar)
      with eq fl cl key val tops show ?thesis by (cases ar) simp_all
    qed
  qed
qed

lemma feed_char_ok:
  assumes a: "allocator_ok reserve" and ok: "parser_ok oth (p, bytes)" and n: "\<not> pp_invalid p"
  shows "survives oth (feed_char reserve ch (p, bytes))"
proof (cases "pp_token p")
  case None
  with structural_ok[OF a, of oth p bytes ch] ok n show ?thesis by (simp add: feed_char_def parser_ok_def)
next
  case (Some t)
  let ?p = "p\<lparr>pp_token := None\<rparr>"
  from ok have "shape_ok (p\<lparr>pp_token := pp_token p\<rparr>)" by (simp add: parser_ok_def)
  then have s: "shape_ok ?p" and "token_ok p t" unfolding shape_token[where t = "pp_token p"] using Some by auto
  moreover have "token_ok ?p t = token_ok p t" by (cases t) simp_all
  moreover have m: "mem_ok oth (?p, bytes)" using ok by (simp add: parser_ok_def)
  ultimately obtain c q b where q: "token_char reserve t ch (?p, bytes) = Some (c, q, b)" "parser_ok oth (q, b)"
    "c \<or> pp_token q = None"
    using token_char_ok[OF a m s, of t ch] n by auto
  with structural_ok[OF a, of oth q b ch] show ?thesis
    using Some by (auto simp: feed_char_def parser_ok_def)
qed

lemma preview_feed_ok:
  assumes "allocator_ok reserve"
  shows "parser_ok oth st \<Longrightarrow> survives oth (preview_feed reserve chs st)"
proof (induction chs arbitrary: st)
  case (Cons ch chs)
  show ?case
  proof (cases "pp_invalid (fst st)")
    case False
    with feed_char_ok[OF assms, of oth "fst st" "snd st" ch] Cons.prems
    have "survives oth (feed_char reserve ch st)" by simp
    then obtain st' where "feed_char reserve ch st = Some st'" "parser_ok oth st'" by (auto simp: survives_iff)
    with Cons.IH[of st'] False show ?thesis by simp
  qed (simp add: Cons.prems)
qed simp

lemma preview_feed_append:
  "preview_feed reserve (xs @ ys) st =
     (case preview_feed reserve xs st of None \<Rightarrow> None | Some st' \<Rightarrow> preview_feed reserve ys st')"
proof (induction xs arbitrary: st)
  case (Cons x xs)
  show ?case
  proof (cases "pp_invalid (fst st)")
    case True
    then show ?thesis by (cases ys) simp_all
  next
    case False
    with Cons.IH show ?thesis by (simp split: option.splits)
  qed
qed simp

text \<open>The deltas of one call, in order.\<close>

fun feed_all :: "allocator \<Rightarrow> scalar list list \<Rightarrow> pstate \<Rightarrow> pstate option" where
  "feed_all reserve [] st = Some st"
| "feed_all reserve (d # ds) st =
     (case preview_feed reserve d st of None \<Rightarrow> None | Some st' \<Rightarrow> feed_all reserve ds st')"

lemma feed_all_concat: "feed_all reserve ds st = preview_feed reserve (concat ds) st"
  by (induction ds arbitrary: st) (simp_all add: preview_feed_append split: option.splits)

lemma allocator_exact_ok: "allocator_ok (\<lambda>cap len extra. (True, len + extra))"
  by (simp add: allocator_ok_def)

text \<open>C5: The argument preview never panics and never exceeds its memory: whatever text a model
  streams, in whatever deltas, and whatever the allocator grants, the recognizer runs to the end
  of every delta; the bytes charged to the call are exactly the capacities of its two buffers, at
  most 128 KiB with at most 512 for the path, the stream's total stays within 512 KiB, the stored
  texts fit their buffers, nesting is at most 64 deep and a key at most 32 bytes. The result does
  not depend on where the deltas are cut.\<close>

theorem preview_bounded_and_panic_free:
  assumes "allocator_ok reserve" and "oth \<le> 524288"
  shows "\<exists>p bytes. feed_all reserve deltas (new_parser name, oth) = Some (p, bytes)
    \<and> preview_feed reserve (concat deltas) (new_parser name, oth) = Some (p, bytes)
    \<and> bytes = oth + pp_retained p \<and> bytes \<le> 524288
    \<and> pp_retained p = cap_of (pp_path p) + cap_of (pp_content p) \<and> pp_retained p \<le> 131072
    \<and> cap_of (pp_path p) \<le> 512 \<and> buf_fits (pp_path p) \<and> buf_fits (pp_content p)
    \<and> length (pp_stack p) \<le> 64 \<and> str_len (pp_key p) \<le> 32"
proof -
  from assms(2) have "parser_ok oth (new_parser name, oth)" by (simp add: new_parser_ok MAX_STREAM_BYTES_def)
  from preview_feed_ok[OF assms(1) this, of "concat deltas"] obtain p bytes where
    "preview_feed reserve (concat deltas) (new_parser name, oth) = Some (p, bytes)" "parser_ok oth (p, bytes)"
    by (auto simp: survives_iff)
  then show ?thesis
    by (auto simp: feed_all_concat parser_ok_def mem_ok_def shape_ok_def MAX_STREAM_BYTES_def MAX_CALL_BYTES_def
        MAX_DETAIL_BYTES_def MAX_DEPTH_def)
qed

theorem preview_bounded_and_panic_free_witness:
  "\<exists>p bytes. feed_all (\<lambda>cap len extra. (True, len + extra)) [map of_char ''{'', map of_char ''}''] (new_parser ''write'', 7)
     = Some (p, bytes) \<and> bytes = 7 + pp_retained p \<and> bytes \<le> 524288"
  using preview_bounded_and_panic_free[OF allocator_exact_ok, of 7 "[map of_char ''{'', map of_char ''}'']" "''write''"]
  by auto

end
