(* ===== verification/Preview_Observer.thy ===== *)
theory Preview_Observer
  imports Preview_Parser
begin

text \<open>
  The observer of a model stream that turns argument deltas into preview events:
  \<^verbatim>\<open>PreviewObserver\<close> of \<^verbatim>\<open>src/presentation/preview.rs\<close>. Events are appended to \<open>sent\<close> in the order
  the code sends them; a full channel only drops an event and does not change the state. A
  snapshot carries the recognizer it displays (the display itself is a function of it), and
  \<open>None\<close> for the empty display. Time is in nanoseconds and the update interval, a floating-point
  computation, is the parameter \<open>interval\<close>. A panic in an update discards the preview.
\<close>

section \<open>State\<close>

definition MAX_CALLS :: nat where "MAX_CALLS = 16"

datatype ToolArgumentsPreviewState = Generating | Generated | Discarded

record PreviewCall =
  pc_id :: string
  pc_name :: string
  pc_parser :: PreviewParser
  pc_ended :: bool
  pc_revision :: nat
  pc_emitted_change :: nat
  pc_first_path_sent :: bool

record preview_event =
  pe_id :: string
  pe_name :: string
  pe_attempt :: nat
  pe_revision :: nat
  pe_state :: ToolArgumentsPreviewState
  pe_partial :: bool
  pe_display :: "PreviewParser option"

record PreviewObserver =
  po_attempt :: "nat option"
  po_calls :: "PreviewCall list"
  po_retained :: nat
  po_last_update :: "nat option"
  po_saw_finish :: bool
  po_normal_eof :: bool
  po_discarded :: bool
  sent :: "preview_event list"

datatype ModelEvent =
    ToolCallStart string string
  | ToolCallArgumentsDelta string "scalar list"
  | ToolCallEnd string
  | Finish
  | OtherEvent

definition new_observer :: "nat option \<Rightarrow> PreviewObserver" where
  "new_observer attempt =
     \<lparr>po_attempt = attempt, po_calls = [], po_retained = 0, po_last_update = None, po_saw_finish = False,
      po_normal_eof = False, po_discarded = False, sent = []\<rparr>"

section \<open>Operations\<close>

text \<open>An update returns \<^const>\<open>None\<close> where the code panics.\<close>

definition emit_event :: "ToolArgumentsPreviewState \<Rightarrow> nat \<Rightarrow> PreviewCall \<Rightarrow> preview_event" where
  "emit_event state attempt c =
     \<lparr>pe_id = pc_id c, pe_name = pc_name c, pe_attempt = attempt, pe_revision = pc_revision c, pe_state = state,
      pe_partial = (state = Discarded \<or> pp_invalid (pc_parser c) \<or> parser_truncated (pc_parser c)
        \<or> (pc_ended c \<and> \<not> parser_complete (pc_parser c))),
      pe_display = (if state = Discarded then None else Some (pc_parser c))\<rparr>"

definition emit :: "nat \<Rightarrow> ToolArgumentsPreviewState \<Rightarrow> nat \<Rightarrow> PreviewObserver \<Rightarrow> PreviewObserver option" where
  "emit index state now ob =
     (if length (po_calls ob) \<le> index then None
      else
        let c = po_calls ob ! index;
            c1 = c\<lparr>pc_revision := pc_revision c + 1, pc_emitted_change := pp_changes (pc_parser c)\<rparr>;
            attempt = (case po_attempt ob of None \<Rightarrow> 0 | Some a \<Rightarrow> a)
        in Some (ob\<lparr>po_calls := (po_calls ob)[index := c1], sent := sent ob @ [emit_event state attempt c1],
                    po_last_update := Some now\<rparr>))"

fun emit_each :: "nat list \<Rightarrow> ToolArgumentsPreviewState \<Rightarrow> nat \<Rightarrow> PreviewObserver \<Rightarrow> PreviewObserver option" where
  "emit_each [] state now ob = Some ob"
| "emit_each (i # is) state now ob =
     (case emit i state now ob of None \<Rightarrow> None | Some ob1 \<Rightarrow> emit_each is state now ob1)"

definition discard :: "nat \<Rightarrow> PreviewObserver \<Rightarrow> PreviewObserver option" where
  "discard now ob =
     (if po_discarded ob then Some ob
      else emit_each [0..<length (po_calls ob)] Discarded now (ob\<lparr>po_discarded := True\<rparr>))"

fun call_index :: "string \<Rightarrow> PreviewCall list \<Rightarrow> nat option" where
  "call_index i [] = None"
| "call_index i (c # cs) = (if pc_id c = i then Some 0 else map_option Suc (call_index i cs))"

definition observe_start :: "string \<Rightarrow> string \<Rightarrow> nat \<Rightarrow> PreviewObserver \<Rightarrow> PreviewObserver option" where
  "observe_start cid name now ob =
     (if list_ex (\<lambda>c. pc_id c = cid) (po_calls ob) then discard now ob
      else if name \<notin> {''read'', ''write'', ''edit''} \<or> MAX_CALLS \<le> length (po_calls ob) then Some ob
      else
        let c = \<lparr>pc_id = cid, pc_name = name, pc_parser = new_parser name, pc_ended = False, pc_revision = 0,
                 pc_emitted_change = 0, pc_first_path_sent = False\<rparr>;
            ob1 = ob\<lparr>po_calls := po_calls ob @ [c]\<rparr>
        in emit (length (po_calls ob1) - 1) Generating now ob1)"

definition path_known :: "PreviewParser \<Rightarrow> bool" where
  "path_known p = (case pp_path p of None \<Rightarrow> False | Some b \<Rightarrow> buf_text b \<noteq> [])"

definition observe_delta ::
  "allocator \<Rightarrow> (PreviewParser \<Rightarrow> nat) \<Rightarrow> string \<Rightarrow> scalar list \<Rightarrow> nat \<Rightarrow> PreviewObserver \<Rightarrow> PreviewObserver option" where
  "observe_delta reserve interval cid delta now ob =
     (case call_index cid (po_calls ob) of
        None \<Rightarrow> Some ob
      | Some index \<Rightarrow>
          let c = po_calls ob ! index in
          if pc_ended c then discard now ob
          else
            (case preview_feed reserve delta (pc_parser c, po_retained ob) of
               None \<Rightarrow> None
             | Some (p, bytes) \<Rightarrow>
                 let c1 = c\<lparr>pc_parser := p\<rparr>;
                     first_path = (\<not> pc_first_path_sent c1 \<and> path_known p);
                     due = (case po_last_update ob of None \<Rightarrow> True | Some before \<Rightarrow> interval p \<le> now - before);
                     c2 = c1\<lparr>pc_first_path_sent := pc_first_path_sent c1 \<or> first_path\<rparr>;
                     ob1 = ob\<lparr>po_calls := (po_calls ob)[index := c1], po_retained := bytes\<rparr>;
                     ob2 = ob\<lparr>po_calls := (po_calls ob)[index := c2], po_retained := bytes\<rparr>
                 in if first_path \<or> (due \<and> pp_changes p \<noteq> pc_emitted_change c1)
                    then emit index Generating now ob2 else Some ob1))"

definition observe_end :: "string \<Rightarrow> nat \<Rightarrow> PreviewObserver \<Rightarrow> PreviewObserver option" where
  "observe_end cid now ob =
     (case call_index cid (po_calls ob) of
        None \<Rightarrow> Some ob
      | Some index \<Rightarrow>
          let c = po_calls ob ! index in
          if pc_ended c then discard now ob
          else emit index Generated now (ob\<lparr>po_calls := (po_calls ob)[index := c\<lparr>pc_ended := True\<rparr>]\<rparr>))"

text \<open>An item is an event or, as \<^const>\<open>None\<close>, a model error.\<close>

definition observe ::
  "allocator \<Rightarrow> (PreviewParser \<Rightarrow> nat) \<Rightarrow> ModelEvent option \<Rightarrow> nat \<Rightarrow> PreviewObserver \<Rightarrow> PreviewObserver option" where
  "observe reserve interval item now ob =
     (if po_attempt ob = None \<or> po_discarded ob then Some ob
      else if po_saw_finish ob \<or> item = None then discard now ob
      else
        case item of
          Some (ToolCallStart cid name) \<Rightarrow> observe_start cid name now ob
        | Some (ToolCallArgumentsDelta cid delta) \<Rightarrow> observe_delta reserve interval cid delta now ob
        | Some (ToolCallEnd cid) \<Rightarrow> observe_end cid now ob
        | Some Finish \<Rightarrow> Some (ob\<lparr>po_saw_finish := True\<rparr>)
        | _ \<Rightarrow> Some ob)"

definition observer_eof :: "nat \<Rightarrow> PreviewObserver \<Rightarrow> PreviewObserver option" where
  "observer_eof now ob =
     (if po_normal_eof ob then Some ob
      else if po_saw_finish ob \<and> \<not> po_discarded ob then Some (ob\<lparr>po_normal_eof := True\<rparr>)
      else discard now ob)"

text \<open>The state of a panicked update is dropped with the calls it may have changed.\<close>

definition protect :: "(PreviewObserver \<Rightarrow> PreviewObserver option) \<Rightarrow> PreviewObserver \<Rightarrow> PreviewObserver" where
  "protect update ob =
     (if po_discarded ob then ob
      else case update ob of
             Some ob1 \<Rightarrow> ob1
           | None \<Rightarrow> ob\<lparr>po_discarded := True, po_calls := [], po_retained := 0\<rparr>)"

definition observer_drop :: "nat \<Rightarrow> PreviewObserver \<Rightarrow> PreviewObserver" where
  "observer_drop now ob = (if po_normal_eof ob then ob else protect (discard now) ob)"

section \<open>Recognizers that share a byte count\<close>

text \<open>
  What the observer relies on: feeding one recognizer keeps its own accounting, leaves the bytes of
  the others alone, and a recognizer's accounting does not depend on how the others' bytes are
  split.
\<close>

locale metered_feed =
  fixes feed :: "'r \<Rightarrow> 'd \<Rightarrow> 'p \<times> nat \<Rightarrow> ('p \<times> nat) option"
    and sound :: "'r \<Rightarrow> bool"
    and ok :: "nat \<Rightarrow> 'p \<times> nat \<Rightarrow> bool"
    and held :: "'p \<Rightarrow> nat"
    and total :: nat
  assumes feed_ok: "sound r \<Longrightarrow> ok oth (p, b) \<Longrightarrow> \<exists>q b'. feed r d (p, b) = Some (q, b') \<and> ok oth (q, b')"
    and ok_total: "ok oth (p, b) \<Longrightarrow> b = oth + held p \<and> b \<le> total"
    and ok_shift: "ok oth (p, b) \<Longrightarrow> oth' + held p \<le> total \<Longrightarrow> ok oth' (p, oth' + held p)"
begin

definition shared :: "'p list \<Rightarrow> nat \<Rightarrow> bool" where
  "shared ps b = (b = sum_list (map held ps) \<and> b \<le> total \<and> (\<forall>p\<in>set ps. ok (b - held p) (p, b)))"

lemma held_le: "p \<in> set ps \<Longrightarrow> held p \<le> sum_list (map held ps)"
  by (simp add: member_le_sum_list)

lemma shared_move:
  assumes "shared ps b" and "p \<in> set ps" and "b' \<le> total" and "held p \<le> b'"
  shows "ok (b' - held p) (p, b')"
proof -
  from assms have "ok (b - held p) (p, b)" by (auto simp: shared_def)
  from ok_shift[OF this, of "b' - held p"] assms(3,4) show ?thesis by simp
qed

lemma shared_feed:
  assumes "sound r" and sh: "shared ps b" and i: "i < length ps"
  shows "\<exists>q b'. feed r d (ps ! i, b) = Some (q, b') \<and> shared (ps[i := q]) b'"
proof -
  from sh i have "ok (b - held (ps ! i)) (ps ! i, b)" by (auto simp: shared_def)
  from feed_ok[OF assms(1) this] obtain q b' where q: "feed r d (ps ! i, b) = Some (q, b')"
    "ok (b - held (ps ! i)) (q, b')" by blast
  from ok_total[OF q(2)] have b': "b' = b - held (ps ! i) + held q" "b' \<le> total" by auto
  have le: "held (ps ! i) \<le> sum_list (map held ps)" using i by (intro held_le) simp
  have b: "b = sum_list (map held ps)" using sh by (simp add: shared_def)
  have sum: "b' = sum_list (map held (ps[i := q]))"
    using i b' b le by (simp add: map_update sum_list_update)
  have "ok (b' - held p) (p, b')" if "p \<in> set (ps[i := q])" for p
  proof -
    from that held_le[OF that] sum have hp: "held p \<le> b'" by simp
    from that set_update_subset_insert[of ps i q] consider "p = q" | "p \<in> set ps" by blast
    then show ?thesis
    proof cases
      case 1
      with q(2) b' show ?thesis by simp
    next
      case 2
      then show ?thesis by (rule shared_move[OF sh _ b'(2) hp])
    qed
  qed
  with sum b'(2) q(1) show ?thesis by (auto simp: shared_def)
qed

lemma shared_new:
  assumes "shared ps b" and "held p = 0" and "ok b (p, b)"
  shows "shared (ps @ [p]) b"
  using assms by (auto simp: shared_def)

end

lemma parser_ok_shift:
  "parser_ok oth (p, b) \<Longrightarrow> oth' + pp_retained p \<le> MAX_STREAM_BYTES \<Longrightarrow> parser_ok oth' (p, oth' + pp_retained p)"
  by (auto simp: parser_ok_def mem_ok_def)

interpretation preview: metered_feed preview_feed allocator_ok parser_ok pp_retained MAX_STREAM_BYTES
proof (unfold_locales, goal_cases)
  case (1 r oth p b d)
  from preview_feed_ok[OF this, of d] show ?case by (auto simp: survives_iff)
next
  case (2 oth p b)
  then show ?case by (simp add: parser_ok_def mem_ok_def)
next
  case (3 oth p b oth')
  then show ?case by (rule parser_ok_shift)
qed

section \<open>Histories\<close>

datatype observer_step = Item "ModelEvent option" nat | Eof nat | Dropped nat

fun observer_run :: "allocator \<Rightarrow> (PreviewParser \<Rightarrow> nat) \<Rightarrow> observer_step list \<Rightarrow> PreviewObserver \<Rightarrow> PreviewObserver" where
  "observer_run reserve interval [] ob = ob"
| "observer_run reserve interval (Item item now # steps) ob =
     observer_run reserve interval steps (protect (observe reserve interval item now) ob)"
| "observer_run reserve interval (Eof now # steps) ob =
     observer_run reserve interval steps (protect (observer_eof now) ob)"
| "observer_run reserve interval (Dropped now # steps) ob =
     observer_run reserve interval steps (observer_drop now ob)"

section \<open>What is sent for a call\<close>

definition events_of :: "string \<Rightarrow> preview_event list \<Rightarrow> preview_event list" where
  "events_of i es = filter (\<lambda>e. pe_id e = i) es"

text \<open>
  A call is announced and updated by Generating snapshots, then at most one Generated, then
  Discarded exactly when the preview is discarded; its revisions count from 1.
\<close>

definition call_log :: "bool \<Rightarrow> PreviewCall \<Rightarrow> preview_event list \<Rightarrow> bool" where
  "call_log gone c es =
     (\<exists>n\<ge>1. map pe_state es = replicate n Generating @ (if pc_ended c then [Generated] else [])
         @ (if gone then [Discarded] else [])
       \<and> map pe_revision es = [1..<Suc (length es)] \<and> pc_revision c = length es)"

definition obs_ok :: "PreviewObserver \<Rightarrow> bool" where
  "obs_ok ob =
     (distinct (map pc_id (po_calls ob)) \<and> length (po_calls ob) \<le> MAX_CALLS
      \<and> preview.shared (map pc_parser (po_calls ob)) (po_retained ob)
      \<and> (\<forall>e\<in>set (sent ob). pe_id e \<in> pc_id ` set (po_calls ob))
      \<and> (\<forall>c\<in>set (po_calls ob). call_log (po_discarded ob) c (events_of (pc_id c) (sent ob)))
      \<and> (po_normal_eof ob \<longrightarrow> po_saw_finish ob))"

lemma obs_ok_new: "obs_ok (new_observer attempt)"
  by (simp add: obs_ok_def new_observer_def preview.shared_def)

abbreviation bump :: "PreviewCall \<Rightarrow> PreviewCall" where
  "bump c \<equiv> c\<lparr>pc_revision := pc_revision c + 1, pc_emitted_change := pp_changes (pc_parser c)\<rparr>"

definition attempt_of :: "PreviewObserver \<Rightarrow> nat" where
  "attempt_of ob = (case po_attempt ob of None \<Rightarrow> 0 | Some a \<Rightarrow> a)"

lemma emit_eq:
  "index < length (po_calls ob) \<Longrightarrow> emit index state now ob =
     Some (ob\<lparr>po_calls := (po_calls ob)[index := bump (po_calls ob ! index)],
             sent := sent ob @ [emit_event state (attempt_of ob) (bump (po_calls ob ! index))],
             po_last_update := Some now\<rparr>)"
  by (simp add: emit_def Let_def attempt_of_def)

lemma emit_event_fields [simp]:
  "pe_id (emit_event s a c) = pc_id c" "pe_state (emit_event s a c) = s" "pe_revision (emit_event s a c) = pc_revision c"
  by (simp_all add: emit_event_def)

lemma emit_each_eq:
  "\<exists>upd. emit_each [k..<length (po_calls ob)] state now ob =
     Some (ob\<lparr>po_calls := take k (po_calls ob) @ map bump (drop k (po_calls ob)),
             sent := sent ob @ map (\<lambda>c. emit_event state (attempt_of ob) (bump c)) (drop k (po_calls ob)),
             po_last_update := upd\<rparr>)"
proof (induction "length (po_calls ob) - k" arbitrary: k ob)
  case 0
  then show ?case by (auto intro!: exI[of _ "po_last_update ob"])
next
  case (Suc n)
  then have k: "k < length (po_calls ob)" by simp
  let ?ob = "ob\<lparr>po_calls := (po_calls ob)[k := bump (po_calls ob ! k)],
    sent := sent ob @ [emit_event state (attempt_of ob) (bump (po_calls ob ! k))], po_last_update := Some now\<rparr>"
  have "n = length (po_calls ?ob) - Suc k" using Suc.hyps(2) by simp
  from Suc.hyps(1)[OF this] obtain upd where
    "emit_each [Suc k..<length (po_calls ?ob)] state now ?ob =
     Some (?ob\<lparr>po_calls := take (Suc k) (po_calls ?ob) @ map bump (drop (Suc k) (po_calls ?ob)),
       sent := sent ?ob @ map (\<lambda>c. emit_event state (attempt_of ?ob) (bump c)) (drop (Suc k) (po_calls ?ob)),
       po_last_update := upd\<rparr>)" by blast
  moreover have "attempt_of ?ob = attempt_of ob" by (simp add: attempt_of_def)
  ultimately show ?case
    using k by (auto simp: upt_conv_Cons emit_eq take_Suc_conv_app_nth Cons_nth_drop_Suc[symmetric] nth_list_update
        intro!: exI[of _ upd])
qed

lemma events_of_append [simp]: "events_of i (es @ fs) = events_of i es @ events_of i fs"
  by (simp add: events_of_def)

lemma map_id_update: "i < length cs \<Longrightarrow> f c' = f (cs ! i) \<Longrightarrow> map f (cs[i := c']) = map f cs"
  by (simp add: map_update list_update_same_conv)

lemma obs_update:
  assumes ok: "obs_ok ob" and i: "i < length (po_calls ob)" and cid: "pc_id c' = pc_id (po_calls ob ! i)"
    and sh: "preview.shared (map pc_parser ((po_calls ob)[i := c'])) b'"
    and log: "call_log (po_discarded ob) c' (events_of (pc_id c') (sent ob @ evs))"
    and evs: "\<forall>e\<in>set evs. pe_id e = pc_id c'"
  shows "obs_ok (ob\<lparr>po_retained := b', po_calls := (po_calls ob)[i := c'], sent := sent ob @ evs, po_last_update := u\<rparr>)"
proof -
  let ?cs = "po_calls ob" and ?cs' = "(po_calls ob)[i := c']"
  have ids: "map pc_id ?cs' = map pc_id ?cs" using map_id_update[of i ?cs pc_id c'] i cid by simp
  then have img: "pc_id ` set ?cs' = pc_id ` set ?cs" by (metis list.set_map)
  have d: "distinct (map pc_id ?cs)" using ok by (simp add: obs_ok_def)
  have mem: "pc_id c' \<in> pc_id ` set ?cs" using i cid by simp
  have "call_log (po_discarded ob) c (events_of (pc_id c) (sent ob @ evs))" if "c \<in> set ?cs'" for c
  proof -
    from that obtain j where j: "j < length ?cs" "c = ?cs' ! j" by (auto simp: in_set_conv_nth)
    show ?thesis
    proof (cases "j = i")
      case True
      with j i log show ?thesis by simp
    next
      case False
      then have c: "c = ?cs ! j" using j by simp
      have "pc_id c \<noteq> pc_id c'"
        using d j i False c cid by (metis distinct_conv_nth length_map nth_map)
      then have "events_of (pc_id c) evs = []" using evs by (auto simp: events_of_def filter_empty_conv)
      with ok c j show ?thesis by (simp add: obs_ok_def)
    qed
  qed
  with ok ids img mem sh evs d show ?thesis by (auto simp: obs_ok_def)
qed

lemma call_log_cong:
  "call_log g c es \<Longrightarrow> pc_ended c' = pc_ended c \<Longrightarrow> pc_revision c' = pc_revision c \<Longrightarrow> call_log g c' es"
  by (simp add: call_log_def)

lemma call_log_generating:
  assumes "call_log False c es" and "\<not> pc_ended c" and "pc_ended c' = pc_ended c" "pc_revision c' = pc_revision c"
  shows "call_log False (bump c') (es @ [emit_event Generating a (bump c')])"
proof -
  from assms obtain n where "n \<ge> 1" "map pe_state es = replicate n Generating" "map pe_revision es = [1..<Suc (length es)]"
    "pc_revision c = length es" by (auto simp: call_log_def)
  with assms show ?thesis
    by (auto simp: call_log_def replicate_append_same intro!: exI[of _ "Suc n"])
qed

lemma call_log_generated:
  assumes "call_log False c es" and "\<not> pc_ended c" and "pc_ended c'" "pc_revision c' = pc_revision c"
  shows "call_log False (bump c') (es @ [emit_event Generated a (bump c')])"
  using assms by (auto simp: call_log_def)

lemma call_log_discarded:
  assumes "call_log False c es"
  shows "call_log True (bump c) (es @ [emit_event Discarded a (bump c)])"
  using assms by (auto simp: call_log_def)

lemma distinct_events:
  assumes "distinct (map pc_id cs)" and "c \<in> set cs"
  shows "events_of (pc_id c) (map (\<lambda>c. emit_event s a (bump c)) cs) = [emit_event s a (bump c)]"
  using assms
proof (induction cs)
  case (Cons x cs)
  show ?case
  proof (cases "c = x")
    case True
    with Cons.prems(1) have "\<forall>y\<in>set cs. pc_id y \<noteq> pc_id c" by (auto simp: image_iff)
    then have "events_of (pc_id c) (map (\<lambda>c. emit_event s a (bump c)) cs) = []"
      by (auto simp: events_of_def filter_empty_conv)
    with True show ?thesis by (simp add: events_of_def)
  next
    case False
    with Cons show ?thesis by (auto simp: events_of_def)
  qed
qed simp

lemma discard_ok:
  assumes "obs_ok ob"
  shows "\<exists>ob'. discard now ob = Some ob' \<and> obs_ok ob' \<and> po_discarded ob' \<and> po_normal_eof ob' = po_normal_eof ob"
proof (cases "po_discarded ob")
  case True
  with assms show ?thesis by (simp add: discard_def)
next
  case False
  let ?ob = "ob\<lparr>po_discarded := True\<rparr>"
  from emit_each_eq[of 0 ?ob Discarded now] obtain upd where
    e: "discard now ob = Some (?ob\<lparr>po_calls := map bump (po_calls ob),
      sent := sent ob @ map (\<lambda>c. emit_event Discarded (attempt_of ob) (bump c)) (po_calls ob), po_last_update := upd\<rparr>)"
    using False by (auto simp: discard_def attempt_of_def)
  have "call_log True (bump c) (events_of (pc_id c)
      (sent ob @ map (\<lambda>c. emit_event Discarded (attempt_of ob) (bump c)) (po_calls ob)))" if "c \<in> set (po_calls ob)" for c
    using call_log_discarded[of c _ "attempt_of ob"] distinct_events[of "po_calls ob" c Discarded "attempt_of ob"] assms that False
    by (auto simp: obs_ok_def)
  with assms False e show ?thesis
    by (auto simp: obs_ok_def comp_def image_image)
qed

lemma call_index_Some:
  "call_index i cs = Some k \<Longrightarrow> k < length cs \<and> pc_id (cs ! k) = i"
  by (induction cs arbitrary: k) (auto split: if_splits)

lemma observe_start_ok:
  assumes ok: "obs_ok ob" and n: "\<not> po_discarded ob"
  shows "\<exists>ob'. observe_start cid name now ob = Some ob' \<and> obs_ok ob'"
proof (cases "list_ex (\<lambda>c. pc_id c = cid) (po_calls ob) \<or> name \<notin> {''read'', ''write'', ''edit''} \<or> MAX_CALLS \<le> length (po_calls ob)")
  case True
  with discard_ok[OF ok, of now] ok show ?thesis by (auto simp: observe_start_def)
next
  case False
  let ?c = "\<lparr>pc_id = cid, pc_name = name, pc_parser = new_parser name, pc_ended = False, pc_revision = 0,
    pc_emitted_change = 0, pc_first_path_sent = False\<rparr>"
  let ?e = "emit_event Generating (attempt_of ob) (bump ?c)"
  let ?ob = "ob\<lparr>po_calls := po_calls ob @ [bump ?c], sent := sent ob @ [?e], po_last_update := Some now\<rparr>"
  have a: "attempt_of (ob\<lparr>po_calls := x\<rparr>) = attempt_of ob" for x by (simp add: attempt_of_def)
  have eq: "observe_start cid name now ob = Some ?ob"
    using False by (simp add: observe_start_def emit_eq a)
  have fresh: "cid \<notin> pc_id ` set (po_calls ob)" using False by (auto simp: list_ex_iff)
  then have none: "events_of cid (sent ob) = []" using ok by (auto simp: obs_ok_def events_of_def filter_empty_conv)
  have "pp_retained (new_parser name) = 0" by (simp add: new_parser_def)
  moreover have "parser_ok (po_retained ob) (new_parser name, po_retained ob)"
    using ok by (intro new_parser_ok) (simp add: obs_ok_def preview.shared_def)
  ultimately have "preview.shared (map pc_parser (po_calls ob) @ [new_parser name]) (po_retained ob)"
    using ok by (intro preview.shared_new) (simp_all add: obs_ok_def)
  moreover have "call_log False (bump ?c) [?e]"
    by (auto simp: call_log_def intro!: exI[of _ "1 :: nat"])
  moreover have "call_log False c (events_of (pc_id c) (sent ob @ [?e]))" if "c \<in> set (po_calls ob)" for c
    using ok n that fresh by (auto simp: obs_ok_def events_of_def)
  ultimately have "obs_ok ?ob"
    using ok n False fresh none by (auto simp: obs_ok_def events_of_def)
  with eq show ?thesis by blast
qed

lemma observe_delta_ok:
  assumes a: "allocator_ok reserve" and ok: "obs_ok ob" and n: "\<not> po_discarded ob"
  shows "\<exists>ob'. observe_delta reserve interval cid delta now ob = Some ob' \<and> obs_ok ob'"
proof (cases "call_index cid (po_calls ob)")
  case None
  with ok show ?thesis by (simp add: observe_delta_def)
next
  case (Some i)
  let ?c = "po_calls ob ! i"
  from call_index_Some[OF Some] have i: "i < length (po_calls ob)" by simp
  show ?thesis
  proof (cases "pc_ended ?c")
    case True
    with Some discard_ok[OF ok, of now] show ?thesis by (auto simp: observe_delta_def Let_def)
  next
    case False
    from ok have "preview.shared (map pc_parser (po_calls ob)) (po_retained ob)" by (simp add: obs_ok_def)
    from preview.shared_feed[OF a this, of i delta] i obtain p b where
      f: "preview_feed reserve delta (pc_parser ?c, po_retained ob) = Some (p, b)"
      and sh: "preview.shared ((map pc_parser (po_calls ob))[i := p]) b" by auto
    have log: "call_log False ?c (events_of (pc_id ?c) (sent ob))" using ok i n by (simp add: obs_ok_def)
    let ?c1 = "?c\<lparr>pc_parser := p\<rparr>"
    have swap: "ob\<lparr>po_calls := x, po_retained := b\<rparr> = ob\<lparr>po_retained := b, po_calls := x\<rparr>" for x
      by (cases ob) simp
    have quiet: "obs_ok (ob\<lparr>po_calls := (po_calls ob)[i := ?c1], po_retained := b\<rparr>)"
      unfolding swap using obs_update[OF ok i, of ?c1 b "[]" "po_last_update ob"] sh log n call_log_cong[OF log, of ?c1]
      by (simp add: map_update events_of_def)
    have loud: "obs_ok (ob\<lparr>po_retained := b, po_calls := (po_calls ob)[i := bump (?c\<lparr>pc_parser := p, pc_first_path_sent := x\<rparr>)],
        sent := sent ob @ [emit_event Generating (attempt_of ob) (bump (?c\<lparr>pc_parser := p, pc_first_path_sent := x\<rparr>))],
        po_last_update := Some now\<rparr>)" for x
      using call_log_generating[OF log False, of "?c\<lparr>pc_parser := p, pc_first_path_sent := x\<rparr>" "attempt_of ob"] n sh
      by (intro obs_update[OF ok i]) (simp_all add: map_update events_of_def)
    show ?thesis
      using Some False f quiet loud i
      by (auto simp: observe_delta_def Let_def emit_eq attempt_of_def)
  qed
qed

lemma observe_end_ok:
  assumes ok: "obs_ok ob" and n: "\<not> po_discarded ob"
  shows "\<exists>ob'. observe_end cid now ob = Some ob' \<and> obs_ok ob'"
proof (cases "call_index cid (po_calls ob)")
  case None
  with ok show ?thesis by (simp add: observe_end_def)
next
  case (Some i)
  let ?c = "po_calls ob ! i" and ?c1 = "(po_calls ob ! i)\<lparr>pc_ended := True\<rparr>"
  from call_index_Some[OF Some] have i: "i < length (po_calls ob)" by simp
  show ?thesis
  proof (cases "pc_ended ?c")
    case True
    with Some discard_ok[OF ok, of now] show ?thesis by (auto simp: observe_end_def Let_def)
  next
    case False
    have log: "call_log False ?c (events_of (pc_id ?c) (sent ob))" using ok i n by (simp add: obs_ok_def)
    have sh: "preview.shared (map pc_parser ((po_calls ob)[i := bump ?c1])) (po_retained ob)"
      using ok i map_id_update[of i "po_calls ob" pc_parser "bump ?c1"] by (simp add: obs_ok_def)
    have "obs_ok (ob\<lparr>po_retained := po_retained ob, po_calls := (po_calls ob)[i := bump ?c1],
        sent := sent ob @ [emit_event Generated (attempt_of ob) (bump ?c1)], po_last_update := Some now\<rparr>)"
      using call_log_generated[OF log False, of ?c1 "attempt_of ob"] n
      by (intro obs_update[OF ok i _ sh]) (simp_all add: events_of_def)
    then show ?thesis using Some False i by (auto simp: observe_end_def Let_def emit_eq attempt_of_def)
  qed
qed

lemma observe_ok:
  assumes "allocator_ok reserve" and ok: "obs_ok ob"
  shows "\<exists>ob'. observe reserve interval item now ob = Some ob' \<and> obs_ok ob'"
proof (cases "po_attempt ob = None \<or> po_discarded ob \<or> po_saw_finish ob \<or> item = None")
  case True
  with discard_ok[OF ok, of now] ok show ?thesis by (auto simp: observe_def)
next
  case False
  then obtain ev where ev: "item = Some ev" and n: "\<not> po_discarded ob" by auto
  have "obs_ok (ob\<lparr>po_saw_finish := True\<rparr>)" using ok by (simp add: obs_ok_def)
  with False ev ok observe_start_ok[OF ok n] observe_delta_ok[OF assms(1) ok n] observe_end_ok[OF ok n] show ?thesis
    by (cases ev) (simp_all add: observe_def)
qed

lemma observer_eof_ok:
  assumes "obs_ok ob"
  shows "\<exists>ob'. observer_eof now ob = Some ob' \<and> obs_ok ob'"
proof -
  have "obs_ok (ob\<lparr>po_normal_eof := True\<rparr>)" if "po_saw_finish ob" using assms that by (simp add: obs_ok_def)
  with assms discard_ok[OF assms, of now] show ?thesis by (auto simp: observer_eof_def)
qed

lemma protect_ok: "obs_ok ob \<Longrightarrow> \<exists>ob'. update ob = Some ob' \<and> obs_ok ob' \<Longrightarrow> obs_ok (protect update ob)"
  by (auto simp: protect_def)

lemma observer_drop_ok:
  assumes "obs_ok ob"
  shows "obs_ok (observer_drop now ob) \<and> (po_normal_eof (observer_drop now ob) \<or> po_discarded (observer_drop now ob))"
  using discard_ok[OF assms, of now] assms by (auto simp: observer_drop_def protect_def)

lemma observer_run_ok:
  "allocator_ok reserve \<Longrightarrow> obs_ok ob \<Longrightarrow> obs_ok (observer_run reserve interval steps ob)"
  by (induction reserve interval steps ob rule: observer_run.induct)
    (simp_all add: protect_ok observe_ok observer_eof_ok observer_drop_ok)

lemma observer_run_append:
  "observer_run reserve interval (xs @ ys) ob = observer_run reserve interval ys (observer_run reserve interval xs ob)"
  by (induction reserve interval xs ob rule: observer_run.induct) simp_all

text \<open>C13: Under every sequence of model items, ends of the stream and drops, an observer tracks at
  most 16 calls with distinct identifiers and holds exactly the bytes of their recognizers, at most
  512 KiB; every event sent belongs to a tracked call, and the events of each call are one or more
  Generating snapshots, then at most one Generated (exactly when the call has ended), then one
  Discarded exactly when the preview was discarded, with revisions 1, 2, 3 and so on.\<close>

theorem preview_event_discipline:
  assumes "allocator_ok reserve" and "ob = observer_run reserve interval steps (new_observer attempt)"
  shows "length (po_calls ob) \<le> 16 \<and> distinct (map pc_id (po_calls ob))
    \<and> po_retained ob = (\<Sum>c\<leftarrow>po_calls ob. pp_retained (pc_parser c)) \<and> po_retained ob \<le> 524288
    \<and> (\<forall>e\<in>set (sent ob). pe_id e \<in> pc_id ` set (po_calls ob))
    \<and> (\<forall>c\<in>set (po_calls ob). \<exists>n\<ge>1.
          map pe_state (filter (\<lambda>e. pe_id e = pc_id c) (sent ob))
            = replicate n Generating @ (if pc_ended c then [Generated] else []) @ (if po_discarded ob then [Discarded] else [])
          \<and> map pe_revision (filter (\<lambda>e. pe_id e = pc_id c) (sent ob))
            = [1..<Suc (length (filter (\<lambda>e. pe_id e = pc_id c) (sent ob)))])"
proof -
  have ok: "obs_ok ob" using assms observer_run_ok obs_ok_new by simp
  then have "po_retained ob = (\<Sum>c\<leftarrow>po_calls ob. pp_retained (pc_parser c)) \<and> po_retained ob \<le> 524288"
    by (simp add: obs_ok_def preview.shared_def comp_def) (simp add: MAX_STREAM_BYTES_def)
  moreover have "\<exists>n\<ge>1. map pe_state (filter (\<lambda>e. pe_id e = pc_id c) (sent ob))
        = replicate n Generating @ (if pc_ended c then [Generated] else []) @ (if po_discarded ob then [Discarded] else [])
      \<and> map pe_revision (filter (\<lambda>e. pe_id e = pc_id c) (sent ob))
        = [1..<Suc (length (filter (\<lambda>e. pe_id e = pc_id c) (sent ob)))]" if "c \<in> set (po_calls ob)" for c
    using ok that unfolding obs_ok_def call_log_def events_of_def by blast
  ultimately show ?thesis using ok unfolding obs_ok_def MAX_CALLS_def by blast
qed

theorem preview_event_discipline_witness:
  "po_retained (observer_run (\<lambda>cap len extra. (True, len + extra)) (\<lambda>_. 0)
     [Item (Some (ToolCallStart ''a'' ''write'')) 1, Dropped 2] (new_observer (Some 1))) \<le> 524288"
  using preview_event_discipline[OF allocator_exact_ok refl] by blast

text \<open>C36: No preview is left dangling: once the observer is dropped, either the stream ended normally
  after its Finish event, or the last event of every call it announced is its only Discarded.\<close>

theorem dropped_previews_are_closed:
  assumes "allocator_ok reserve"
    and "ob = observer_run reserve interval (steps @ [Dropped now]) (new_observer attempt)"
  shows "(po_normal_eof ob \<and> po_saw_finish ob)
    \<or> (\<forall>c\<in>set (po_calls ob). let states = map pe_state (filter (\<lambda>e. pe_id e = pc_id c) (sent ob)) in
          last states = Discarded \<and> Discarded \<notin> set (butlast states))"
proof -
  let ?before = "observer_run reserve interval steps (new_observer attempt)"
  have b: "obs_ok ?before" by (rule observer_run_ok[OF assms(1) obs_ok_new])
  have ob: "ob = observer_drop now ?before" by (simp add: assms(2) observer_run_append)
  with observer_drop_ok[OF b, of now] have "obs_ok ob" "po_normal_eof ob \<or> po_discarded ob" by auto
  then show ?thesis
    by (auto simp: obs_ok_def call_log_def events_of_def Let_def butlast_append)
qed

theorem dropped_previews_are_closed_witness:
  "\<exists>ob. ob = observer_run (\<lambda>cap len extra. (True, len + extra)) (\<lambda>_. 0)
      ([Item (Some (ToolCallStart ''a'' ''write'')) 1] @ [Dropped 2]) (new_observer (Some 1))
    \<and> ((po_normal_eof ob \<and> po_saw_finish ob)
       \<or> (\<forall>c\<in>set (po_calls ob). last (map pe_state (filter (\<lambda>e. pe_id e = pc_id c) (sent ob))) = Discarded))"
  using dropped_previews_are_closed[OF allocator_exact_ok refl] unfolding Let_def by blast

end
