(* ===== verification/Text_Budget.thy ===== *)
theory Text_Budget
  imports Prelude
begin

text \<open>
  Byte-bounded text: \<^verbatim>\<open>src/text.rs\<close> (the longest prefix within a byte limit) and
  \<^verbatim>\<open>src/budget.rs\<close> (the query deadline, the encoded size of JSON results and the longest
  prefix of a text that fits a JSON string). Both cuts meet the interface \<open>byte_cut\<close>:
  they return the longest prefix of whole scalars whose cost is within the budget, and
  everything a caller relies on (a fitting text is returned unchanged, cutting twice cuts
  once, a larger budget keeps more) is proved once from that interface.
\<close>

section \<open>The code\<close>

datatype query_error = QueryLimit | InvalidArguments

definition truncate :: "string \<Rightarrow> nat \<Rightarrow> string \<times> bool" where
  "truncate text max_bytes =
     (let end_at = floor_char_boundary text max_bytes
      in (take end_at text, end_at < length text))"

text \<open>The clock and the cancellation token are inputs of the check.\<close>

definition check_budget :: "bool \<Rightarrow> nat \<Rightarrow> nat \<Rightarrow> query_error + unit" where
  "check_budget cancelled now deadline =
     (if cancelled \<or> deadline \<le> now then Inl QueryLimit else Inr ())"

text \<open>\<open>json_len\<close> stands for the length of serde's JSON encoding of a value.\<close>

definition encoded_result :: "('a \<Rightarrow> nat) \<Rightarrow> 'a \<Rightarrow> nat \<Rightarrow> query_error + 'a" where
  "encoded_result json_len result max_bytes =
     (if max_bytes < json_len result then Inl InvalidArguments else Inr result)"

definition escaped_char_len :: "string \<Rightarrow> nat" where
  "escaped_char_len ch =
     (case ch of
        [c] \<Rightarrow>
          if of_char c \<in> {34, 92, 8, 9, 10, 12, 13 :: nat} then 2
          else if of_char c < (32 :: nat) then 6
          else length ch
      | _ \<Rightarrow> length ch)"

definition json_escaped_len :: "string \<Rightarrow> nat" where
  "json_escaped_len text = sum_list (map escaped_char_len (utf8_chars text))"

fun json_prefix_end :: "nat \<Rightarrow> nat \<Rightarrow> nat \<Rightarrow> string list \<Rightarrow> nat" where
  "json_prefix_end remaining end_at index [] = end_at"
| "json_prefix_end remaining end_at index (ch # chs) =
     (let cost = escaped_char_len ch
      in if remaining < cost then end_at
         else json_prefix_end (remaining - cost) (index + length ch) (index + length ch) chs)"

definition json_string_prefix :: "string \<Rightarrow> nat \<Rightarrow> string" where
  "json_string_prefix text max_encoded_bytes =
     take (json_prefix_end (max_encoded_bytes - 2) 0 0 (utf8_chars text)) text"

section \<open>The interface of a cut\<close>

definition whole_prefix :: "string \<Rightarrow> string \<Rightarrow> bool" where
  "whole_prefix s p = (prefix p s \<and> is_char_boundary s (length p))"

locale byte_cut =
  fixes cut :: "string \<Rightarrow> nat \<Rightarrow> string"
    and cost :: "string \<Rightarrow> nat"
  assumes cut_whole: "whole_prefix s (cut s n)"
    and cut_cost: "cost (cut s n) \<le> n"
    and cut_greatest: "whole_prefix s p \<Longrightarrow> cost p \<le> n \<Longrightarrow> prefix p (cut s n)"
begin

lemma cut_prefix: "prefix (cut s n) s"
  using cut_whole[of s n] by (simp add: whole_prefix_def)

lemma cut_all: "cost s \<le> n \<Longrightarrow> cut s n = s"
proof -
  assume "cost s \<le> n"
  moreover have "whole_prefix s s" by (simp add: whole_prefix_def is_char_boundary_def)
  ultimately have "prefix s (cut s n)" by (rule cut_greatest[rotated])
  then show ?thesis using cut_prefix prefix_order.antisym by blast
qed

lemma cut_all_iff: "cut s n = s \<longleftrightarrow> cost s \<le> n"
  using cut_all cut_cost[of s n] by auto

lemma cut_idem: "cut (cut s n) n = cut s n"
  by (simp add: cut_all cut_cost)

lemma cut_mono: "m \<le> n \<Longrightarrow> prefix (cut s m) (cut s n)"
proof -
  assume "m \<le> n"
  with cut_cost[of s m] have "cost (cut s m) \<le> n" by (rule le_trans)
  with cut_whole show ?thesis by (rule cut_greatest)
qed

end

section \<open>Cutting by bytes\<close>

lemma whole_prefix_take: "is_char_boundary s i \<Longrightarrow> whole_prefix s (take i s)"
  by (simp add: whole_prefix_def take_is_prefix is_char_boundary_le min_absorb2)

lemma length_truncate [simp]: "length (fst (truncate s n)) = floor_char_boundary s n"
  using floor_char_boundary_le_length[of s n] by (simp add: truncate_def Let_def)

lemma whole_prefix_truncate:
  assumes "whole_prefix s p" and "length p \<le> n"
  shows "prefix p (fst (truncate s n))"
proof -
  have "length p \<le> floor_char_boundary s n"
    using assms by (simp add: whole_prefix_def floor_char_boundary_greatest)
  moreover have "p = take (length p) s"
    using assms(1) by (auto simp: whole_prefix_def prefix_def)
  ultimately show ?thesis
    by (metis fst_conv min.absorb1 take_is_prefix take_take truncate_def Let_def)
qed

interpretation bytes: byte_cut "\<lambda>s n. fst (truncate s n)" length
proof (unfold_locales, goal_cases)
  case (1 s n)
  show ?case by (simp add: truncate_def Let_def whole_prefix_take)
next
  case (2 s n)
  show ?case by (simp add: floor_char_boundary_le)
next
  case (3 s p n)
  then show ?case by (rule whole_prefix_truncate)
qed

section \<open>Cutting by encoded JSON bytes\<close>

lemma escaped_char_len_bounds:
  "length ch \<le> escaped_char_len ch \<and> (ch \<noteq> [] \<longrightarrow> 0 < escaped_char_len ch)"
  by (auto simp: escaped_char_len_def split: list.splits)

lemma hd_concat_utf8:
  "concat (take j (utf8_chars (dropWhile is_cont s))) = []
   \<or> \<not> is_cont (hd (concat (take j (utf8_chars (dropWhile is_cont s)))))"
proof (cases "dropWhile is_cont s")
  case (Cons a t)
  with hd_dropWhile[of is_cont s] have "\<not> is_cont a" by simp
  with Cons show ?thesis by (cases j) auto
qed (simp only: utf8_chars.simps take_Nil concat.simps simp_thms)

lemma cont_run_append:
  assumes "t = [] \<or> \<not> is_cont (hd t)"
  shows "takeWhile is_cont (takeWhile is_cont s @ t) = takeWhile is_cont s"
    and "dropWhile is_cont (takeWhile is_cont s @ t) = t"
  using assms by (induction s) (cases t; auto)+

lemma utf8_chars_take [simp]:
  "utf8_chars (concat (take k (utf8_chars s))) = take k (utf8_chars s)"
proof (induction s arbitrary: k rule: utf8_chars.induct)
  case (2 c s)
  then show ?case
    by (cases k) (auto simp: cont_run_append[OF hd_concat_utf8])
qed simp

text \<open>The scalar boundaries are exactly the ends of the first \<open>k\<close> scalars.\<close>

lemma boundary_shift:
  assumes "is_char_boundary (c # s) i" and "i \<noteq> 0"
  obtains i' where "i = Suc (length (takeWhile is_cont s)) + i'"
    and "is_char_boundary (dropWhile is_cont s) i'"
proof -
  let ?w = "takeWhile is_cont s" and ?d = "dropWhile is_cont s"
  have split: "c # s = (c # ?w) @ ?d" by simp
  have "Suc (length ?w) \<le> i"
  proof (rule ccontr)
    assume neg: "\<not> Suc (length ?w) \<le> i"
    with assms(2) have "(c # s) ! i = ?w ! (i - 1)" and "i - 1 < length ?w"
      by (auto simp: nth_Cons' takeWhile_nth)
    then have "is_cont ((c # s) ! i)" using set_takeWhileD nth_mem by metis
    moreover have "i < length (c # s)"
      using neg length_takeWhile_le[of is_cont s] by simp
    ultimately show False using assms by (simp add: is_char_boundary_def)
  qed
  then obtain i' where i': "i = Suc (length ?w) + i'" using le_Suc_ex by blast
  have "length (c # s) = Suc (length ?w) + length ?d"
    by (metis length_Cons length_append split append_Cons add_Suc)
  moreover have "i' < length ?d \<Longrightarrow> (c # s) ! i = ?d ! i'"
    by (subst split) (simp add: nth_append i' del: takeWhile_dropWhile_id)
  ultimately have "is_char_boundary ?d i'"
    using assms i' by (auto simp: is_char_boundary_def)
  with i' show ?thesis by (rule that)
qed

lemma boundary_chars: "is_char_boundary s i \<Longrightarrow> \<exists>k. take i s = concat (take k (utf8_chars s))"
proof (induction s arbitrary: i rule: utf8_chars.induct)
  case (2 c s)
  show ?case
  proof (cases "i = 0")
    case False
    then obtain i' where i': "i = Suc (length (takeWhile is_cont s)) + i'"
      and "is_char_boundary (dropWhile is_cont s) i'"
      using "2.prems" boundary_shift by blast
    with "2.IH" obtain k
      where k: "take i' (dropWhile is_cont s) = concat (take k (utf8_chars (dropWhile is_cont s)))"
      by blast
    have "take i (c # s) = c # takeWhile is_cont s @ take i' (dropWhile is_cont s)"
      by (metis i' add_Suc append_Cons take_Suc_Cons takeWhile_dropWhile_id append_take_drop_id
          append_eq_conv_conj take_add)
    with k have "take i (c # s) = concat (take (Suc k) (utf8_chars (c # s)))" by simp
    then show ?thesis by blast
  qed (auto intro: exI[of _ 0])
qed simp

lemma boundary_append:
  assumes "is_char_boundary d n" and "d = [] \<or> \<not> is_cont (hd d)"
  shows "is_char_boundary (c # w @ d) (Suc (length w + n))"
  using assms by (cases d) (auto simp: is_char_boundary_def nth_append nth_Cons')

lemma chars_boundary: "is_char_boundary s (length (concat (take k (utf8_chars s))))"
proof (induction s arbitrary: k rule: utf8_chars.induct)
  case (2 c s)
  show ?case
  proof (cases k)
    case (Suc j)
    have "dropWhile is_cont s = [] \<or> \<not> is_cont (hd (dropWhile is_cont s))"
      using hd_dropWhile[of is_cont s] by blast
    from boundary_append[OF "2.IH" this, of c "takeWhile is_cont s" j] Suc
    show ?thesis by simp
  qed (simp add: is_char_boundary_def)
qed (simp add: is_char_boundary_def)

text \<open>How many scalars the loop of \<open>json_string_prefix\<close> keeps.\<close>

fun scalars_fit :: "nat \<Rightarrow> string list \<Rightarrow> nat" where
  "scalars_fit r [] = 0"
| "scalars_fit r (ch # chs) =
     (if r < escaped_char_len ch then 0 else Suc (scalars_fit (r - escaped_char_len ch) chs))"

lemma json_prefix_end_fit:
  "json_prefix_end r e e chs = e + length (concat (take (scalars_fit r chs) chs))"
  by (induction chs arbitrary: r e) (auto simp: Let_def)

lemma scalars_fit_cost:
  "sum_list (map escaped_char_len (take (scalars_fit r chs) chs)) \<le> r"
proof (induction chs arbitrary: r)
  case (Cons ch chs)
  show ?case using Cons[of "r - escaped_char_len ch"] by auto
qed simp

lemma scalars_fit_greatest:
  "sum_list (map escaped_char_len (take k chs)) \<le> r \<Longrightarrow> k \<le> length chs \<Longrightarrow> k \<le> scalars_fit r chs"
proof (induction chs arbitrary: r k)
  case (Cons ch chs)
  then show ?case by (cases k) auto
qed simp

lemma json_string_prefix_chars:
  "json_string_prefix s (n + 2) = concat (take (scalars_fit n (utf8_chars s)) (utf8_chars s))"
proof -
  let ?k = "scalars_fit n (utf8_chars s)"
  have "s = concat (take ?k (utf8_chars s)) @ concat (drop ?k (utf8_chars s))"
    by (metis append_take_drop_id concat_append concat_utf8_chars)
  then show ?thesis
    unfolding json_string_prefix_def
    by (subst json_prefix_end_fit) (metis add_0 add_diff_cancel_right' append_eq_conv_conj)
qed

lemma json_escaped_len_chars:
  "json_escaped_len (concat (take k (utf8_chars s))) = sum_list (map escaped_char_len (take k (utf8_chars s)))"
  by (simp add: json_escaped_len_def)

lemma whole_prefix_chars:
  assumes "whole_prefix s p"
  obtains k where "k \<le> length (utf8_chars s)" and "p = concat (take k (utf8_chars s))"
proof -
  from assms have "p = take (length p) s" and "is_char_boundary s (length p)"
    by (auto simp: whole_prefix_def prefix_def)
  then obtain k where "p = concat (take k (utf8_chars s))"
    using boundary_chars by metis
  then have "p = concat (take (min k (length (utf8_chars s))) (utf8_chars s))"
    by (simp add: min_def)
  then show ?thesis by (rule that[rotated]) simp
qed

lemma prefix_concat_take: "j \<le> k \<Longrightarrow> prefix (concat (take j xs)) (concat (take k xs))"
  by (metis append_eq_append_conv2 append_take_drop_id concat_append min.absorb1 prefixI take_take)

interpretation json: byte_cut "\<lambda>s n. json_string_prefix s (n + 2)" json_escaped_len
proof (unfold_locales, goal_cases)
  case (1 s n)
  show ?case
    unfolding json_string_prefix_chars whole_prefix_def
    by (metis chars_boundary concat_append append_take_drop_id concat_utf8_chars prefixI)
next
  case (2 s n)
  show ?case by (simp only: json_string_prefix_chars json_escaped_len_chars scalars_fit_cost)
next
  case (3 s p n)
  then obtain k where "k \<le> length (utf8_chars s)" and p: "p = concat (take k (utf8_chars s))"
    using whole_prefix_chars by blast
  with 3 have "k \<le> scalars_fit n (utf8_chars s)"
    by (simp add: scalars_fit_greatest json_escaped_len_chars)
  then show ?case by (simp only: p json_string_prefix_chars prefix_concat_take)
qed

section \<open>Properties\<close>

text \<open>\<^verbatim>\<open>text::truncate\<close> returns a prefix of whole scalars of at most \<open>max_bytes\<close> bytes, the
  longest one there is, and reports a cut exactly when the text was longer than the limit.\<close>

theorem truncate_longest_prefix:
  "(let (cut, was_cut) = truncate s max_bytes in
      whole_prefix s cut \<and> length cut \<le> max_bytes
      \<and> (\<forall>p. whole_prefix s p \<and> length p \<le> max_bytes \<longrightarrow> prefix p cut)
      \<and> (was_cut \<longleftrightarrow> max_bytes < length s))"
proof -
  have "snd (truncate s max_bytes) \<longleftrightarrow> max_bytes < length s"
    using floor_char_boundary_le[of s max_bytes]
    by (auto simp: truncate_def Let_def) (auto simp: floor_char_boundary_def split: if_splits)
  then show ?thesis
    using bytes.cut_whole[of s max_bytes] bytes.cut_cost[of s max_bytes]
      bytes.cut_greatest[of s _ max_bytes]
    by (auto split: prod.splits simp: Let_def simp del: length_truncate)
qed

text \<open>The theorem above at a text whose third byte is inside a two-byte scalar: the
  scalar is dropped whole.\<close>

theorem truncate_longest_prefix_witness:
  "truncate [CHR ''a'', CHR ''b'', CHR 0xC3, CHR 0xA9] 3 = (''ab'', True)
   \<and> prefix ''a'' (fst (truncate [CHR ''a'', CHR ''b'', CHR 0xC3, CHR 0xA9] 3))"
proof -
  let ?t = "[CHR ''a'', CHR ''b'', CHR 0xC3, CHR 0xA9]"
  have "truncate ?t 3 = (''ab'', True)" by code_simp
  moreover have "whole_prefix ?t ''a''"
    by (simp add: whole_prefix_def is_char_boundary_def is_cont_def)
  ultimately show ?thesis using truncate_longest_prefix[of ?t 3] by simp
qed

text \<open>C28: \<^verbatim>\<open>budget::json_string_prefix\<close> returns the longest prefix of whole scalars whose JSON
  encoding, the two quotes included, fits the budget: it fits, every other such prefix is
  shorter, and a text that fits is returned unchanged.\<close>

theorem json_string_prefix_longest:
  assumes "2 \<le> max_encoded_bytes"
  shows "whole_prefix s (json_string_prefix s max_encoded_bytes)
    \<and> json_escaped_len (json_string_prefix s max_encoded_bytes) + 2 \<le> max_encoded_bytes
    \<and> (\<forall>p. whole_prefix s p \<and> json_escaped_len p + 2 \<le> max_encoded_bytes
         \<longrightarrow> prefix p (json_string_prefix s max_encoded_bytes))
    \<and> (json_string_prefix s max_encoded_bytes = s
         \<longleftrightarrow> json_escaped_len s + 2 \<le> max_encoded_bytes)"
proof -
  obtain n where n: "max_encoded_bytes = n + 2"
    using assms by (metis le_add_diff_inverse2)
  show ?thesis
    using json.cut_whole[of s n] json.cut_cost[of s n] json.cut_greatest[of s _ n]
      json.cut_all_iff[of s n]
    by (simp add: n)
qed

theorem json_string_prefix_longest_witness:
  "json_string_prefix [CHR ''a'', CHR 0x0A, CHR ''b''] 5 = [CHR ''a'', CHR 0x0A]
   \<and> json_escaped_len (json_string_prefix [CHR ''a'', CHR 0x0A, CHR ''b''] 5) + 2 \<le> 5"
proof -
  have "json_string_prefix [CHR ''a'', CHR 0x0A, CHR ''b''] 5 = [CHR ''a'', CHR 0x0A]"
    by code_simp
  with json_string_prefix_longest[of 5 "[CHR ''a'', CHR 0x0A, CHR ''b'']"] show ?thesis by simp
qed

end
