(* ===== verification/Display.thy ===== *)
theory Display
  imports Text_Budget
begin

text \<open>
  The tool cards of the terminal interface: \<^verbatim>\<open>src/presentation/display.rs\<close>, the one formatter for
  live events and history. Of a tool's JSON arguments the code asks for string and unsigned
  members only, so the arguments are a map to \<open>json_value\<close>; the home directory and the line diff of
  the \<^verbatim>\<open>similar\<close> crate are parameters. It is proved that what a card shows is one line without
  control characters and within its limits, that the body is the sanitized text cut at its limit,
  and that the count-only cards used for listings count exactly what the full cards show.
\<close>

section \<open>Text\<close>

definition MAX_DETAIL :: nat where "MAX_DETAIL = 512"
definition MAX_EXPANDED_INPUT_BYTES :: nat where "MAX_EXPANDED_INPUT_BYTES = 524288"
definition MAX_RESULT_DISPLAY_BYTES :: nat where "MAX_RESULT_DISPLAY_BYTES = 524288"

definition count_lf :: "string \<Rightarrow> nat" where
  "count_lf s = length (filter (\<lambda>c. c = LF) s)"

definition count_lines :: "string \<Rightarrow> nat" where
  "count_lines s = (if s = [] then 0 else count_lf s + 1)"

text \<open>A scalar is the list of its bytes; the control characters are U+0000-1F and U+007F-9F.\<close>

definition is_control_char :: "string \<Rightarrow> bool" where
  "is_control_char ch =
     (case map of_char ch :: nat list of
        [a] \<Rightarrow> a < 32 \<or> a = 127
      | [a, b] \<Rightarrow> a = 194 \<and> 128 \<le> b \<and> b < 160
      | _ \<Rightarrow> False)"

definition hex_lower :: "nat \<Rightarrow> char" where
  "hex_lower n = (if n < 10 then char_of (48 + n) else char_of (87 + n))"

text \<open>\<^verbatim>\<open>char::escape_default\<close> of a control character, whose code is that of its last byte.\<close>

definition escape_default :: "string \<Rightarrow> string" where
  "escape_default ch =
     (let n = (of_char (last ch) :: nat) in
      if ch = [CHR 0x09] then [CHR 0x5C, CHR ''t'']
      else if ch = [CR] then [CHR 0x5C, CHR ''r'']
      else if ch = [LF] then [CHR 0x5C, CHR ''n'']
      else [CHR 0x5C, CHR ''u'', CHR ''{''] @ (if n < 16 then [] else [hex_lower (n div 16)]) @ [hex_lower (n mod 16)]
             @ [CHR ''}''])"

definition sanitize_char :: "bool \<Rightarrow> string \<Rightarrow> string" where
  "sanitize_char multiline ch =
     (if multiline \<and> (ch = [LF] \<or> ch = [CHR 0x09]) then ch
      else if \<not> multiline \<and> (ch = [CR] \<or> ch = [LF] \<or> ch = [CHR 0x09]) then '' ''
      else if is_control_char ch then escape_default ch
      else ch)"

definition sanitize_display_text :: "string \<Rightarrow> bool \<Rightarrow> string" where
  "sanitize_display_text s multiline = concat (map (sanitize_char multiline) (utf8_chars s))"

definition sanitize_multiline :: "string \<Rightarrow> string" where
  "sanitize_multiline s = sanitize_display_text s True"

definition single_line :: "string \<Rightarrow> nat \<Rightarrow> string \<times> bool" where
  "single_line s max_bytes = Text_Budget.truncate (sanitize_display_text s False) max_bytes"

section \<open>Bodies\<close>

record DisplayBody =
  db_text :: "string option"
  db_bytes :: nat
  db_lines :: nat
  db_limit :: nat
  db_truncated :: bool

definition new_body :: "nat \<Rightarrow> bool \<Rightarrow> DisplayBody" where
  "new_body lim retain =
     \<lparr>db_text = (if retain then Some [] else None), db_bytes = 0, db_lines = 0, db_limit = lim, db_truncated = False\<rparr>"

definition body_push :: "string \<Rightarrow> DisplayBody \<Rightarrow> DisplayBody" where
  "body_push v b =
     (if db_truncated b then b
      else
        case Text_Budget.truncate v (db_limit b - db_bytes b) of
          (pre, was_cut) \<Rightarrow>
            b\<lparr>db_lines := db_lines b + count_lf pre + (if db_bytes b = 0 \<and> pre \<noteq> [] then 1 else 0),
              db_bytes := db_bytes b + length pre,
              db_text := map_option (\<lambda>t. t @ pre) (db_text b),
              db_truncated := was_cut\<rparr>)"

fun push_chars :: "string \<Rightarrow> DisplayBody \<Rightarrow> DisplayBody" where
  "push_chars [] b = b"
| "push_chars (c # cs) b = push_chars cs (body_push [c] b)"

fun sanitized_loop :: "string list \<Rightarrow> DisplayBody \<Rightarrow> DisplayBody" where
  "sanitized_loop [] b = b"
| "sanitized_loop (ch # chs) b =
     (if db_truncated b then b
      else if is_control_char ch \<and> \<not> (ch = [LF] \<or> ch = [CHR 0x09])
      then sanitized_loop chs (push_chars (escape_default ch) b)
      else sanitized_loop chs (body_push ch b))"

definition body_sanitized :: "string \<Rightarrow> DisplayBody \<Rightarrow> DisplayBody" where
  "body_sanitized v b = sanitized_loop (utf8_chars v) b"

definition from_text :: "string \<Rightarrow> nat \<Rightarrow> bool \<Rightarrow> DisplayBody" where
  "from_text v lim retain = body_sanitized v (new_body lim retain)"

datatype ChangeTag = Equal | Delete | Insert

type_synonym line_diff = "string \<Rightarrow> string \<Rightarrow> (ChangeTag \<times> string) list"

definition trim_end_lf :: "string \<Rightarrow> string" where
  "trim_end_lf s = rev (dropWhile (\<lambda>c. c = LF) (rev s))"

definition body_row :: "string \<Rightarrow> string \<Rightarrow> DisplayBody \<Rightarrow> DisplayBody" where
  "body_row pre v b = body_push [LF] (body_sanitized (trim_end_lf v) (body_push pre b))"

fun body_rows :: "(string \<times> string) list \<Rightarrow> DisplayBody \<Rightarrow> DisplayBody" where
  "body_rows [] b = b"
| "body_rows ((pre, v) # rows) b =
     (let b1 = body_row pre v b in if db_truncated b1 then b1 else body_rows rows b1)"

fun tag_prefix :: "ChangeTag \<Rightarrow> string" where
  "tag_prefix Equal = '' ''"
| "tag_prefix Delete = ''-''"
| "tag_prefix Insert = ''+''"

definition edit_rows :: "line_diff \<Rightarrow> string \<Rightarrow> string \<Rightarrow> (string \<times> string) list" where
  "edit_rows diff old new =
     (if 65536 < length old + length new \<or> 2000 < count_lines old + count_lines new
      then map (\<lambda>l. (''-'', l)) (split_inclusive LF old) @ map (\<lambda>l. (''+'', l)) (split_inclusive LF new)
      else map (\<lambda>(tag, v). (tag_prefix tag, v)) (diff old new))"

definition edit_display_body :: "line_diff \<Rightarrow> string \<Rightarrow> string \<Rightarrow> bool \<Rightarrow> DisplayBody" where
  "edit_display_body diff old0 new0 retain =
     (case (Text_Budget.truncate old0 MAX_EXPANDED_INPUT_BYTES, Text_Budget.truncate new0 MAX_EXPANDED_INPUT_BYTES) of
        ((old, old_cut), (new, new_cut)) \<Rightarrow>
          let b = body_rows (edit_rows diff old new)
                    (body_push (''--- before'' @ [LF] @ ''+++ after'' @ [LF] @ ''@@'' @ [LF])
                       (new_body MAX_EXPANDED_INPUT_BYTES retain))
          in b\<lparr>db_truncated := db_truncated b \<or> old_cut \<or> new_cut\<rparr>)"

section \<open>Cards\<close>

datatype json_value = JString string | JUnsigned nat | JOther

type_synonym tool_args = "string \<rightharpoonup> json_value"

definition as_str :: "json_value option \<Rightarrow> string option" where
  "as_str v = (case v of Some (JString s) \<Rightarrow> Some s | _ \<Rightarrow> None)"

definition as_u64 :: "json_value option \<Rightarrow> nat option" where
  "as_u64 v = (case v of Some (JUnsigned n) \<Rightarrow> Some n | _ \<Rightarrow> None)"

record ToolDisplay =
  td_detail :: string
  expanded_input :: "string option"
  input_line_count :: "nat option"
  hidden_line_count :: "nat option"
  td_truncated :: bool
  body_truncated :: bool

definition home_match :: "string \<Rightarrow> string \<Rightarrow> bool" where
  "home_match home path =
     (if home = [] then False
      else if home = ''/'' then starts_with path ''/''
      else path = home \<or> (case strip_prefix home path of None \<Rightarrow> False | Some suf \<Rightarrow> starts_with suf ''/''))"

definition path_arg :: "tool_args \<Rightarrow> string \<Rightarrow> string option" where
  "path_arg args home =
     map_option (\<lambda>path.
       if home_match home path
       then if home = ''/'' then if path = ''/'' then ''~'' else ''~'' @ path
            else ''~'' @ (case strip_prefix home path of None \<Rightarrow> path | Some suf \<Rightarrow> suf)
       else path)
     (as_str (case args ''path'' of Some v \<Rightarrow> Some v | None \<Rightarrow> args ''file_path''))"

definition format_read_range :: "nat option \<Rightarrow> nat option \<Rightarrow> string" where
  "format_read_range offset_value limit_value =
     (if offset_value = None \<and> limit_value = None then []
      else
        let off = (case offset_value of None \<Rightarrow> 1 | Some n \<Rightarrow> n) in
        case limit_value of
          Some lim \<Rightarrow>
            if 0 < lim then '':'' @ show_nat off @ ''-'' @ show_nat (min (off + lim) (u64_bound - 1) - 1)
            else '':'' @ show_nat off
        | None \<Rightarrow> '':'' @ show_nat off)"

definition read_range :: "tool_args \<Rightarrow> string" where
  "read_range args = format_read_range (as_u64 (args ''offset'')) (as_u64 (args ''limit''))"

definition apply_result_to_display :: "string option \<Rightarrow> ToolDisplay \<Rightarrow> ToolDisplay" where
  "apply_result_to_display result_text d =
     (let result_rows = (case result_text of None \<Rightarrow> 0 | Some t \<Rightarrow> if t = [] then 0 else count_lines t);
          input_rows = (case hidden_line_count d of None \<Rightarrow> 0 | Some n \<Rightarrow> n);
          hidden = input_rows + result_rows
      in d\<lparr>hidden_line_count := (if 0 < hidden then Some hidden else None)\<rparr>)"

definition unwrap_or :: "'a option \<Rightarrow> 'a \<Rightarrow> 'a" where
  "unwrap_or m d = (case m of None \<Rightarrow> d | Some x \<Rightarrow> x)"

definition display_detail :: "string \<Rightarrow> string \<Rightarrow> tool_args \<Rightarrow> string \<times> bool" where
  "display_detail home name args =
     (if name = ''bash''
      then (case single_line (unwrap_or (as_str (args ''command'')) ''...'') (MAX_DETAIL - 2) of
              (command, was_cut) \<Rightarrow> (''$ '' @ command, was_cut))
      else if name = ''read''
      then single_line (unwrap_or (path_arg args home) ''...'' @ read_range args) MAX_DETAIL
      else if name = ''write'' \<or> name = ''edit''
      then single_line (unwrap_or (path_arg args home) ''...'') MAX_DETAIL
      else single_line (''tool '' @ name) MAX_DETAIL)"

definition body_field :: "string \<Rightarrow> string" where
  "body_field name =
     (if name = ''bash'' then ''command'' else if name = ''write'' then ''content''
      else if name = ''apply_patch'' \<or> name = ''patch'' then ''patch'' else [])"

definition display_body :: "line_diff \<Rightarrow> string \<Rightarrow> tool_args \<Rightarrow> bool \<Rightarrow> DisplayBody option" where
  "display_body diff name args retain =
     (if name = ''edit''
      then
        (case (as_str (args ''old_text''), as_str (args ''new_text'')) of
           (Some old, Some new) \<Rightarrow> Some (edit_display_body diff old new retain)
         | (body, None) \<Rightarrow> map_option (\<lambda>v. from_text v MAX_EXPANDED_INPUT_BYTES retain) body
         | (None, body) \<Rightarrow> map_option (\<lambda>v. from_text v MAX_EXPANDED_INPUT_BYTES retain) body)
      else if body_field name = [] then None
      else map_option (\<lambda>v. from_text v MAX_EXPANDED_INPUT_BYTES retain) (as_str (args (body_field name))))"

definition build_tool_display_inner ::
  "line_diff \<Rightarrow> string \<Rightarrow> string \<Rightarrow> tool_args option \<Rightarrow> string option \<Rightarrow> bool \<Rightarrow> ToolDisplay" where
  "build_tool_display_inner diff home name args0 result_text retain =
     (let args = unwrap_or args0 Map.empty in
      case display_detail home name args of
        (detail, detail_cut) \<Rightarrow>
          case (case result_text of
                  None \<Rightarrow> (None, False)
                | Some r \<Rightarrow> (case Text_Budget.truncate (sanitize_multiline r) MAX_RESULT_DISPLAY_BYTES of (t, was_cut) \<Rightarrow> (Some t, was_cut))) of
            (bounded_result, result_cut) \<Rightarrow>
              let body = display_body diff name args retain;
                  rows = map_option db_lines body;
                  input_rows = unwrap_or rows 0;
                  body_cut = (case body of None \<Rightarrow> False | Some b \<Rightarrow> db_truncated b)
              in apply_result_to_display bounded_result
                   \<lparr>td_detail = detail, expanded_input = (case body of None \<Rightarrow> None | Some b \<Rightarrow> db_text b),
                    input_line_count = rows, hidden_line_count = (if 0 < input_rows then Some input_rows else None),
                    td_truncated = (detail_cut \<or> result_cut) \<or> body_cut, body_truncated = body_cut \<or> result_cut\<rparr>)"

definition first_line :: "string \<Rightarrow> string" where
  "first_line s =
     (case split_inclusive LF s of
        [] \<Rightarrow> []
      | l # _ \<Rightarrow>
          (case strip_suffix [LF] l of
             None \<Rightarrow> l
           | Some t \<Rightarrow> (case strip_suffix [CR] t of None \<Rightarrow> t | Some u \<Rightarrow> u)))"

definition tool_card :: "line_diff \<Rightarrow> string \<Rightarrow> string \<Rightarrow> tool_args option \<Rightarrow> bool \<Rightarrow> ToolDisplay" where
  "tool_card diff home name args retain =
     (let d = build_tool_display_inner diff home name args None retain;
          field = (if name = ''bash'' then Some ''command''
                   else if name = ''apply_patch'' \<or> name = ''patch'' then Some ''path'' else None)
      in case field of
           None \<Rightarrow> d
         | Some f \<Rightarrow>
             (case single_line (first_line (unwrap_or (as_str (unwrap_or args Map.empty f)) name)) MAX_DETAIL of
                (detail, was_cut) \<Rightarrow> d\<lparr>td_detail := detail, td_truncated := body_truncated d \<or> was_cut\<rparr>))"

definition result_line_count :: "string \<Rightarrow> nat \<times> bool" where
  "result_line_count v =
     (let b = from_text v MAX_RESULT_DISPLAY_BYTES False in (db_lines b, db_truncated b))"

section \<open>Cutting a concatenation\<close>

definition at_boundary :: "string \<Rightarrow> bool" where
  "at_boundary v = (v = [] \<or> \<not> is_cont (hd v))"

lemma floor_from_cong: "(\<And>j. j \<le> i \<Longrightarrow> s ! j = t ! j) \<Longrightarrow> floor_from s i = floor_from t i"
  by (induction i) auto

lemma floor_from_append:
  assumes "at_boundary v" and "k < length v"
  shows "floor_from (s @ v) (length s + k) = length s + floor_from v k"
  using assms(2)
proof (induction k)
  case 0
  with assms(1) have "\<not> is_cont (v ! 0)" by (cases v) (auto simp: at_boundary_def)
  then show ?case by (cases "length s") (auto simp: nth_append)
next
  case (Suc k)
  then show ?case by (simp add: nth_append)
qed

lemma truncate_append_fit:
  assumes "at_boundary v" and "length s \<le> n"
  shows "Text_Budget.truncate (s @ v) n =
    (case Text_Budget.truncate v (n - length s) of (pre, was_cut) \<Rightarrow> (s @ pre, was_cut))"
proof -
  have "floor_char_boundary (s @ v) n = length s + floor_char_boundary v (n - length s)"
    using assms floor_from_append[of v "n - length s" s] by (auto simp: floor_char_boundary_def)
  then show ?thesis by (simp add: Text_Budget.truncate_def Let_def)
qed

lemma truncate_append_cut:
  assumes "n < length s"
  shows "Text_Budget.truncate (s @ v) n = Text_Budget.truncate s n \<and> snd (Text_Budget.truncate s n)"
proof -
  have "floor_char_boundary (s @ v) n = floor_char_boundary s n"
    using assms floor_from_cong[of n "s @ v" s] by (auto simp: floor_char_boundary_def nth_append)
  moreover have "floor_char_boundary s n < length s" using assms floor_char_boundary_le[of s n] by simp
  ultimately show ?thesis by (simp add: Text_Budget.truncate_def Let_def)
qed

lemma truncate_fit: "length s \<le> n \<Longrightarrow> Text_Budget.truncate s n = (s, False)"
  by (simp add: Text_Budget.truncate_def Let_def floor_char_boundary_def)

lemma truncate_snd: "snd (Text_Budget.truncate s n) \<longleftrightarrow> n < length s"
  using floor_char_boundary_le[of s n]
  by (cases "length s \<le> n") (auto simp: truncate_fit, auto simp: Text_Budget.truncate_def Let_def)

lemma count_lf_simps [simp]: "count_lf [] = 0" "count_lf (s @ t) = count_lf s + count_lf t"
  by (simp_all add: count_lf_def)

section \<open>What a body holds\<close>

text \<open>\<open>holds b s\<close>: the body is what is left of \<open>s\<close> within the limit, with its bytes and lines counted.\<close>

definition holds :: "DisplayBody \<Rightarrow> string \<Rightarrow> bool" where
  "holds b s =
     (case Text_Budget.truncate s (db_limit b) of
        (t, was_cut) \<Rightarrow>
          db_truncated b = was_cut \<and> db_bytes b = length t \<and> db_lines b = count_lines t
          \<and> (\<forall>u. db_text b = Some u \<longrightarrow> u = t))"

lemma holds_new: "holds (new_body lim retain) []"
  by (simp add: holds_def new_body_def truncate_fit count_lines_def)

lemma push_fields [simp]:
  "db_limit (body_push v b) = db_limit b" "(db_text (body_push v b) = None) = (db_text b = None)"
  by (auto simp: body_push_def split: prod.splits)

lemma holds_push:
  assumes "holds b s" and "at_boundary v"
  shows "holds (body_push v b) (s @ v)"
proof (cases "db_limit b < length s")
  case True
  from truncate_append_cut[OF True, of v] assms(1) have "db_truncated b" by (auto simp: holds_def split: prod.splits)
  with truncate_append_cut[OF True, of v] assms(1) show ?thesis by (simp add: holds_def body_push_def)
next
  case False
  then have fit: "length s \<le> db_limit b" by simp
  with assms(1) have b: "\<not> db_truncated b" "db_bytes b = length s" "db_lines b = count_lines s"
      "\<And>u. db_text b = Some u \<Longrightarrow> u = s" by (auto simp: holds_def truncate_fit)
  obtain pre c where t: "Text_Budget.truncate v (db_limit b - length s) = (pre, c)" by force
  with truncate_append_fit[OF assms(2) fit] b show ?thesis
    by (auto simp: holds_def body_push_def count_lines_def)
qed

lemma push_truncated: "db_truncated b \<Longrightarrow> body_push v b = b"
  by (simp add: body_push_def)

lemma push_chars_truncated: "db_truncated b \<Longrightarrow> push_chars cs b = b"
  by (induction cs arbitrary: b) (simp_all add: push_truncated)

lemma holds_push_chars: "holds b s \<Longrightarrow> list_all (\<lambda>c. \<not> is_cont c) cs \<Longrightarrow> holds (push_chars cs b) (s @ cs)"
proof (induction cs arbitrary: b s)
  case (Cons c cs)
  from holds_push[OF Cons.prems(1), of "[c]"] Cons.prems(2) have "holds (body_push [c] b) (s @ [c])"
    by (simp add: at_boundary_def)
  from Cons.IH[OF this] Cons.prems(2) show ?case by simp
qed simp

lemma holds_truncated:
  assumes "holds b s" and "db_truncated b"
  shows "holds b (s @ v)"
proof -
  from assms have "db_limit b < length s" using truncate_snd[of s "db_limit b"] by (auto simp: holds_def split: prod.splits)
  from truncate_append_cut[OF this, of v] assms show ?thesis by (simp add: holds_def)
qed

lemma utf8_chars_boundary: "at_boundary s \<Longrightarrow> ch \<in> set (utf8_chars s) \<Longrightarrow> at_boundary ch"
proof (induction s rule: utf8_chars.induct)
  case (2 c s)
  have "at_boundary (dropWhile is_cont s)" using hd_dropWhile[of is_cont s] by (auto simp: at_boundary_def)
  with 2 show ?case by (auto simp: at_boundary_def)
qed simp

lemma hex_lower_ascii: "n < 16 \<Longrightarrow> \<not> is_cont (hex_lower n) \<and> of_char (hex_lower n) < (127 :: nat) \<and> (32 :: nat) \<le> of_char (hex_lower n)"
proof -
  assume "n < 16"
  then have "n \<in> {0, 1, 2, 3, 4, 5, 6, 7, 8, 9, 10, 11, 12, 13, 14, 15}" by (simp, arith)
  then show ?thesis by (elim insertE emptyE) (simp_all add: hex_lower_def is_cont_def char_of_def bit_0)
qed

lemma escape_default_ascii:
  "list_all (\<lambda>c. \<not> is_cont c \<and> of_char c < (127 :: nat) \<and> (32 :: nat) \<le> of_char c) (escape_default ch)"
proof -
  have "of_char (last ch) div 16 < (16 :: nat)" "of_char (last ch) mod 16 < (16 :: nat)"
    using nat_of_char_less_256[of "last ch"] by (simp_all add: less_mult_imp_div_less)
  then show ?thesis
    using hex_lower_ascii by (simp add: escape_default_def Let_def) (simp add: is_cont_def)
qed

lemma holds_sanitized:
  "holds b s \<Longrightarrow> (\<And>ch. ch \<in> set chs \<Longrightarrow> at_boundary ch) \<Longrightarrow>
   holds (sanitized_loop chs b) (s @ concat (map (sanitize_char True) chs))"
proof (induction chs b arbitrary: s rule: sanitized_loop.induct)
  case (2 ch chs b)
  show ?case
  proof (cases "db_truncated b")
    case True
    then show ?thesis using holds_truncated[OF "2.prems"(1)] by simp
  next
    case False
    show ?thesis
    proof (cases "is_control_char ch \<and> \<not> (ch = [LF] \<or> ch = [CHR 0x09])")
      case True
      have "holds (push_chars (escape_default ch) b) (s @ escape_default ch)"
        using escape_default_ascii[of ch] by (intro holds_push_chars[OF "2.prems"(1)]) (auto simp: list_all_iff)
      from "2.IH"(1)[OF False True this] "2.prems"(2) True False show ?thesis by (auto simp: sanitize_char_def)
    next
      case F: False
      have "holds (body_push ch b) (s @ ch)" using "2.prems" by (intro holds_push) auto
      from "2.IH"(2)[OF False F this] "2.prems"(2) F False show ?thesis by (auto simp: sanitize_char_def)
    qed
  qed
qed simp

lemma from_text_holds: "at_boundary v \<Longrightarrow> holds (from_text v lim retain) (sanitize_multiline v)"
  using holds_sanitized[OF holds_new, of "utf8_chars v" lim retain] utf8_chars_boundary[of v]
  by (simp add: from_text_def body_sanitized_def sanitize_multiline_def sanitize_display_text_def)

lemma push_chars_fields [simp]:
  "db_limit (push_chars cs b) = db_limit b" "(db_text (push_chars cs b) = None) = (db_text b = None)"
  by (induction cs arbitrary: b) simp_all

lemma sanitized_fields:
  "db_limit (sanitized_loop chs b) = db_limit b \<and> (db_text (sanitized_loop chs b) = None) = (db_text b = None)"
  by (induction chs b rule: sanitized_loop.induct) auto

section \<open>Retained and counted bodies\<close>

text \<open>The count-only body is the retained one without its text.\<close>

definition counted :: "DisplayBody \<Rightarrow> DisplayBody" where
  "counted b = b\<lparr>db_text := None\<rparr>"

lemma counted_fields [simp]:
  "db_truncated (counted b) = db_truncated b" "db_lines (counted b) = db_lines b"
  "db_bytes (counted b) = db_bytes b" "db_limit (counted b) = db_limit b" "db_text (counted b) = None"
  by (simp_all add: counted_def)

lemma counted_new [simp]: "new_body lim False = counted (new_body lim True)"
  by (simp add: counted_def new_body_def)

lemma counted_push [simp]: "body_push v (counted b) = counted (body_push v b)"
  by (simp add: body_push_def counted_def split: prod.splits)

lemma counted_chars [simp]: "push_chars cs (counted b) = counted (push_chars cs b)"
  by (induction cs arbitrary: b) simp_all

lemma counted_loop [simp]: "sanitized_loop chs (counted b) = counted (sanitized_loop chs b)"
  by (induction chs b rule: sanitized_loop.induct) auto

lemma counted_sanitized [simp]: "body_sanitized v (counted b) = counted (body_sanitized v b)"
  by (simp add: body_sanitized_def)

lemma counted_rows [simp]: "body_rows rows (counted b) = counted (body_rows rows b)"
  by (induction rows b rule: body_rows.induct) (auto simp: body_row_def Let_def)

lemma counted_from_text [simp]: "from_text v lim False = counted (from_text v lim True)"
  by (simp add: from_text_def)

lemma counted_truncated: "(counted b)\<lparr>db_truncated := x\<rparr> = counted (b\<lparr>db_truncated := x\<rparr>)"
  by (simp add: counted_def)

lemma counted_edit [simp]: "edit_display_body diff old new False = counted (edit_display_body diff old new True)"
  by (simp add: edit_display_body_def Let_def counted_truncated split: prod.splits)

lemma counted_body: "display_body diff name args False = map_option counted (display_body diff name args True)"
  by (auto simp: display_body_def option.map_comp comp_def split: option.splits)

lemma counted_display:
  "build_tool_display_inner diff home name args r False
   = (build_tool_display_inner diff home name args r True)\<lparr>expanded_input := None\<rparr>"
  by (cases "display_body diff name (unwrap_or args Map.empty) True")
    (simp_all add: build_tool_display_inner_def counted_body Let_def apply_result_to_display_def split: prod.splits)

section \<open>Clean text\<close>

lemma utf8_chars_append: "at_boundary v \<Longrightarrow> utf8_chars (u @ v) = utf8_chars u @ utf8_chars v"
proof (induction u rule: utf8_chars.induct)
  case (2 c s)
  then have v: "takeWhile is_cont v = []" "dropWhile is_cont v = v" by (cases v; simp add: at_boundary_def)+
  show ?case
  proof (cases "\<forall>x\<in>set s. is_cont x")
    case True
    then have "takeWhile is_cont s = s" "dropWhile is_cont s = []" by simp_all
    with True v show ?thesis
      by (simp add: takeWhile_append2 dropWhile_append2 del: takeWhile_eq_all_conv dropWhile_eq_Nil_conv)
  next
    case False
    then obtain x where x: "x \<in> set s" "\<not> is_cont x" by blast
    have "takeWhile is_cont (s @ v) = takeWhile is_cont s" "dropWhile is_cont (s @ v) = dropWhile is_cont s @ v"
      by (rule takeWhile_append1[OF x(1)], rule x(2)) (rule dropWhile_append1[OF x(1)], rule x(2))
    with 2 show ?thesis by simp
  qed
qed simp

lemma utf8_char_single: "ch \<in> set (utf8_chars s) \<Longrightarrow> utf8_chars ch = [ch]"
proof (induction s rule: utf8_chars.induct)
  case (2 c s)
  have "takeWhile is_cont (takeWhile is_cont s) = takeWhile is_cont s" "dropWhile is_cont (takeWhile is_cont s) = []"
    by (induction s) auto
  with 2 show ?case by (auto simp del: takeWhile_eq_all_conv dropWhile_eq_Nil_conv)
qed simp

definition clean :: "(string \<Rightarrow> bool) \<Rightarrow> string \<Rightarrow> bool" where
  "clean ok s = (\<forall>ch\<in>set (utf8_chars s). is_control_char ch \<longrightarrow> ok ch)"

lemma clean_append: "at_boundary v \<Longrightarrow> clean ok u \<Longrightarrow> clean ok v \<Longrightarrow> clean ok (u @ v)"
  by (auto simp: clean_def utf8_chars_append)

lemma clean_ascii:
  "list_all (\<lambda>c. \<not> is_cont c \<and> of_char c < (127 :: nat) \<and> (32 :: nat) \<le> of_char c) s \<Longrightarrow> clean ok s \<and> at_boundary s"
proof (induction s)
  case (Cons c s)
  then have "clean ok [c]" "clean ok s" "at_boundary s" by (auto simp: clean_def is_control_char_def)
  with clean_append[of s ok "[c]"] Cons.prems show ?case by (simp add: at_boundary_def)
qed (simp add: clean_def at_boundary_def)

definition layout_char :: "bool \<Rightarrow> string \<Rightarrow> bool" where
  "layout_char multiline ch = (multiline \<and> (ch = [LF] \<or> ch = [CHR 0x09]))"

lemma sanitize_char_clean:
  assumes "utf8_chars ch = [ch]"
  shows "clean (layout_char m) (sanitize_char m ch) \<and> (at_boundary ch \<longrightarrow> at_boundary (sanitize_char m ch))"
proof -
  have "clean (layout_char m) ch" if "is_control_char ch \<longrightarrow> layout_char m ch" using that assms by (simp add: clean_def)
  moreover have "clean (layout_char m) (escape_default ch) \<and> at_boundary (escape_default ch)"
    by (rule clean_ascii[OF escape_default_ascii])
  moreover have "clean (layout_char m) '' '' \<and> at_boundary '' ''"
    by (rule clean_ascii) (simp add: is_cont_def)
  ultimately show ?thesis by (auto simp: sanitize_char_def layout_char_def)
qed

lemma at_boundary_append [simp]: "at_boundary u \<Longrightarrow> at_boundary v \<Longrightarrow> at_boundary (u @ v)"
  by (cases u) (auto simp: at_boundary_def)

lemma sanitize_clean:
  "clean (layout_char m) (sanitize_display_text s m) \<and> (at_boundary s \<longrightarrow> at_boundary (sanitize_display_text s m))"
  unfolding sanitize_display_text_def
proof (induction s rule: utf8_chars.induct)
  case (2 c s)
  let ?ch = "c # takeWhile is_cont s" and ?d = "dropWhile is_cont s"
  have d: "at_boundary ?d" using hd_dropWhile[of is_cont s] by (auto simp: at_boundary_def)
  have "utf8_chars ?ch = [?ch]" using utf8_char_single[of ?ch "c # s"] by simp
  note ch = sanitize_char_clean[OF this, of m]
  with 2 d clean_append[of "concat (map (sanitize_char m) (utf8_chars ?d))" "layout_char m" "sanitize_char m ?ch"]
  show ?case by (auto simp: at_boundary_def[of "c # _"] at_boundary_append)
qed (simp add: clean_def at_boundary_def)

lemma clean_truncate:
  assumes "clean ok s"
  shows "clean ok (fst (Text_Budget.truncate s n))"
proof -
  obtain k where "fst (Text_Budget.truncate s n) = concat (take k (utf8_chars s))"
    using boundary_chars[OF floor_char_boundary_boundary[of s n]] by (auto simp: Text_Budget.truncate_def Let_def)
  with assms show ?thesis by (auto simp: clean_def dest: in_set_takeD)
qed

lemma single_line_clean: "clean (\<lambda>_. False) (fst (single_line s n)) \<and> length (fst (single_line s n)) \<le> n"
proof -
  have "layout_char False = (\<lambda>_. False)" by (simp add: layout_char_def fun_eq_iff)
  with sanitize_clean[of False s] clean_truncate[of "\<lambda>_. False" "sanitize_display_text s False" n]
  show ?thesis by (simp add: single_line_def floor_char_boundary_le)
qed

lemma single_line_boundary:
  assumes "at_boundary s"
  shows "at_boundary (fst (single_line s n))"
proof -
  have "at_boundary (sanitize_display_text s False)" using sanitize_clean[of False s] assms by simp
  moreover have "prefix (fst (single_line s n)) (sanitize_display_text s False)"
    by (simp add: single_line_def bytes.cut_prefix)
  ultimately show ?thesis by (auto simp: at_boundary_def prefix_def hd_append split: if_splits)
qed

lemma bash_detail_clean:
  assumes "at_boundary s"
  shows "clean (\<lambda>_. False) (''$ '' @ fst (single_line s n))"
proof -
  have "clean (\<lambda>_. False) ''$ ''"
    by (rule clean_ascii[THEN conjunct1]) (simp add: is_cont_def)
  with single_line_clean[of s n] single_line_boundary[OF assms, of n] show ?thesis by (intro clean_append) simp_all
qed

lemma display_detail_clean:
  assumes "\<forall>s. as_str (args ''command'') = Some s \<longrightarrow> at_boundary s"
  shows "clean (\<lambda>_. False) (fst (display_detail home name args)) \<and> length (fst (display_detail home name args)) \<le> 512"
proof -
  have c: "at_boundary (unwrap_or (as_str (args ''command'')) ''...'')"
    using assms by (cases "as_str (args ''command'')") (auto simp: unwrap_or_def at_boundary_def is_cont_def)
  show ?thesis
  proof (cases "name = ''bash''")
    case True
    then have "fst (display_detail home name args)
        = ''$ '' @ fst (single_line (unwrap_or (as_str (args ''command'')) ''...'') (MAX_DETAIL - 2))"
      by (simp add: display_detail_def split: prod.splits)
    with bash_detail_clean[OF c, of "MAX_DETAIL - 2"] single_line_clean[of _ "MAX_DETAIL - 2"] show ?thesis
      by (simp add: MAX_DETAIL_def)
  next
    case False
    then show ?thesis using single_line_clean[of _ 512] by (simp add: display_detail_def MAX_DETAIL_def)
  qed
qed

lemma td_detail_inner [simp]:
  "td_detail (build_tool_display_inner diff home name args r retain)
   = fst (display_detail home name (unwrap_or args Map.empty))"
  by (simp add: build_tool_display_inner_def apply_result_to_display_def Let_def split: prod.splits)

text \<open>What a tool card shows as its one-line detail, built live or for history, is at most 512
  bytes of whole scalars and contains no control character (no newline, tab, escape or C1
  control), whatever the tool name, its arguments and the home directory are; a bash command is
  assumed to be the UTF-8 text it is in the program.\<close>

theorem tool_detail_is_safe:
  assumes "\<forall>s. as_str (unwrap_or args Map.empty ''command'') = Some s \<longrightarrow> at_boundary s"
  shows "clean (\<lambda>_. False) (td_detail (build_tool_display_inner diff home name args r retain))
    \<and> length (td_detail (build_tool_display_inner diff home name args r retain)) \<le> 512
    \<and> clean (\<lambda>_. False) (td_detail (tool_card diff home name args retain))
    \<and> length (td_detail (tool_card diff home name args retain)) \<le> 512"
proof -
  note inner = display_detail_clean[of "unwrap_or args Map.empty" home name, OF assms]
  have "clean (\<lambda>_. False) (td_detail (tool_card diff home name args retain))
    \<and> length (td_detail (tool_card diff home name args retain)) \<le> 512"
    using inner single_line_clean[of _ 512]
    by (simp add: tool_card_def Let_def MAX_DETAIL_def case_prod_beta)
  with inner show ?thesis by simp
qed

theorem tool_detail_is_safe_witness:
  "clean (\<lambda>_. False) (td_detail (tool_card (\<lambda>_ _. []) ''/root'' ''bash'' (Some [''command'' \<mapsto> JString (''ls'' @ [CHR 0x1B])]) True))"
  using tool_detail_is_safe[of "Some [''command'' \<mapsto> JString (''ls'' @ [CHR 0x1B])]" "\<lambda>_ _. []" "''/root''" "''bash''" None True]
  by (simp add: unwrap_or_def as_str_def at_boundary_def is_cont_def)

text \<open>C31: The body of a card is its text with control characters escaped, cut at the limit on a
  scalar boundary; the byte and line counters describe exactly the text kept, the card is marked
  truncated exactly when the escaped text exceeds the limit, and the row count reported for a
  result without building its text is the row count of the text that would be shown.\<close>

theorem body_is_cut_sanitized_text:
  assumes "at_boundary v"
  shows "(case Text_Budget.truncate (sanitize_multiline v) lim of (t, was_cut) \<Rightarrow>
      from_text v lim True = \<lparr>db_text = Some t, db_bytes = length t, db_lines = count_lines t, db_limit = lim,
        db_truncated = was_cut\<rparr>)
    \<and> result_line_count v =
      (case Text_Budget.truncate (sanitize_multiline v) MAX_RESULT_DISPLAY_BYTES of (t, was_cut) \<Rightarrow> (count_lines t, was_cut))
    \<and> clean (layout_char True) (fst (Text_Budget.truncate (sanitize_multiline v) lim))"
proof -
  have lim: "db_limit (from_text v n rt) = n" "(db_text (from_text v n rt) = None) = (\<not> rt)" for n rt
    using sanitized_fields[of "utf8_chars v" "new_body n rt"]
    by (simp_all add: from_text_def body_sanitized_def new_body_def)
  show ?thesis
    using from_text_holds[OF assms, of lim True] from_text_holds[OF assms, of MAX_RESULT_DISPLAY_BYTES False]
      lim[of lim True] lim[of MAX_RESULT_DISPLAY_BYTES False]
      clean_truncate[of "layout_char True" "sanitize_multiline v" lim] sanitize_clean[of True v]
    by (auto simp: holds_def result_line_count_def Let_def sanitize_multiline_def split: prod.splits
        intro!: DisplayBody.equality)
qed

theorem body_is_cut_sanitized_text_witness:
  "from_text (''a'' @ [CHR 0x1B, LF]) 9 True =
     \<lparr>db_text = Some (''a'' @ [CHR 0x5C] @ ''u{1b}'' @ [LF]), db_bytes = 8, db_lines = 2, db_limit = 9, db_truncated = False\<rparr>"
proof -
  let ?v = "''a'' @ [CHR 0x1B, LF]"
  have "sanitize_multiline ?v = ''a'' @ [CHR 0x5C] @ ''u{1b}'' @ [LF]"
    by (simp add: sanitize_multiline_def sanitize_display_text_def is_cont_def sanitize_char_def is_control_char_def
        escape_default_def hex_lower_def Let_def char_of_def bit_0)
  moreover have "count_lines (''a'' @ [CHR 0x5C] @ ''u{1b}'' @ [LF]) = 2" by (simp add: count_lines_def count_lf_def)
  moreover have "Text_Budget.truncate (''a'' @ [CHR 0x5C] @ ''u{1b}'' @ [LF]) 9 = (''a'' @ [CHR 0x5C] @ ''u{1b}'' @ [LF], False)"
    by (rule truncate_fit) simp
  ultimately show ?thesis
    using body_is_cut_sanitized_text[of ?v 9] by (simp add: at_boundary_def is_cont_def)
qed

text \<open>C24: The count-only cards of listings agree with the full cards: same detail, same row counts
  and same truncation marks, for every tool, all arguments and every line diff; only the body text
  is left out.\<close>

theorem card_counts_agree:
  "tool_card diff home name args False = (tool_card diff home name args True)\<lparr>expanded_input := None\<rparr>
   \<and> build_tool_display_inner diff home name args r False
      = (build_tool_display_inner diff home name args r True)\<lparr>expanded_input := None\<rparr>"
  by (simp add: tool_card_def counted_display Let_def split: option.splits prod.splits)

end
