(* ===== verification/Tool_Text.thy ===== *)
theory Tool_Text
  imports Patch_Apply
begin

text \<open>
  The text work of two tools: the replacement step of the edit tool (\<^verbatim>\<open>edit_text\<close> of
  \<^verbatim>\<open>src/tools/edit.rs\<close>) and the cutting of command and file output
  (\<^verbatim>\<open>src/tools/truncate.rs\<close>). The search functions of the standard library are modelled by
  \<open>split_sub\<close>, the pieces between the leftmost non-overlapping matches. The floating-point
  \<^verbatim>\<open>format_size\<close> is left out.
\<close>

section \<open>Editing\<close>

function split_sub :: "'a list \<Rightarrow> 'a list \<Rightarrow> 'a list list" where
  "split_sub p s =
     (if p = [] then [s]
      else case find_sub p s of
             None \<Rightarrow> [s]
           | Some i \<Rightarrow> take i s # split_sub p (drop (i + length p) s))"
  by pat_completeness auto
termination
  by (relation "measure (\<lambda>(_, s). length s)") (auto dest!: find_sub_Some simp: neq_Nil_conv)

declare split_sub.simps [simp del]

definition match_count :: "'a list \<Rightarrow> 'a list \<Rightarrow> nat" where
  "match_count p s = length (split_sub p s) - 1"

definition replace_sub :: "'a list \<Rightarrow> 'a list \<Rightarrow> 'a list \<Rightarrow> 'a list" where
  "replace_sub p r s = join_with r (split_sub p s)"

definition replace_first :: "'a list \<Rightarrow> 'a list \<Rightarrow> 'a list \<Rightarrow> 'a list" where
  "replace_first p r s =
     (case find_sub p s of None \<Rightarrow> s | Some i \<Rightarrow> take i s @ r @ drop (i + length p) s)"

record EditInput =
  ei_path :: string
  old_text :: string
  new_text :: string
  replace_all :: bool

definition edit_input_ok :: "EditInput \<Rightarrow> bool" where
  "edit_input_ok i =
     (\<not> (old_text i = [] \<or> MAX_PATCH_BYTES < length (old_text i) \<or> MAX_PATCH_BYTES < length (new_text i)
         \<or> CHR 0x00 \<in> set (old_text i) \<or> CHR 0x00 \<in> set (new_text i)))"

definition translate_endings :: "string \<Rightarrow> EditInput \<Rightarrow> EditInput" where
  "translate_endings source i =
     (if contains_sub source [CR, LF] \<and> LF \<in> set (old_text i) \<and> \<not> contains_sub (old_text i) [CR, LF]
      then i\<lparr>old_text := replace_sub [LF] [CR, LF] (old_text i),
             new_text := replace_sub [LF] [CR, LF] (replace_sub [CR, LF] [LF] (new_text i))\<rparr>
      else i)"

definition edit_text :: "string \<Rightarrow> EditInput \<Rightarrow> ToolError + string \<times> nat" where
  "edit_text source input0 =
     (let input = translate_endings source input0;
          matches = match_count (old_text input) source
      in if matches = 0 \<or> (\<not> replace_all input \<and> 1 < matches) then Inl Failed
         else
           let replacements = (if replace_all input then matches else 1) in
           res_bind (ok_or (checked_mul (length (old_text input)) replacements) InvalidInvocation) (\<lambda>removed.
           res_bind (ok_or (checked_mul (length (new_text input)) replacements) InvalidInvocation) (\<lambda>inserted.
           res_bind (ok_or (case checked_sub (length source) removed of
                              None \<Rightarrow> None | Some n \<Rightarrow> checked_add n inserted) InvalidInvocation) (\<lambda>result_len.
           if MAX_PATCH_BYTES < result_len then Inl InvalidInvocation
           else Inr (if replace_all input then replace_sub (old_text input) (new_text input) source
                     else replace_first (old_text input) (new_text input) source, replacements)))))"

section \<open>Cutting output\<close>

record Tail =
  tl_text :: string
  total_lines :: nat
  kept_lines :: nat
  by_bytes :: bool
  tl_partial :: bool
  last_line_bytes :: nat

definition terminated_lines :: "string \<Rightarrow> string list" where
  "terminated_lines s =
     (let ls = split_on LF s in if last ls = [] then butlast ls else ls)"

text \<open>Lines kept, bytes kept, cut by bytes, and whether only the end of the last line is kept.\<close>

fun tail_loop :: "nat \<Rightarrow> nat \<Rightarrow> string list \<Rightarrow> nat \<Rightarrow> nat \<Rightarrow> nat \<times> nat \<times> bool \<times> bool" where
  "tail_loop max_lines max_bytes [] kl kb = (kl, kb, False, False)"
| "tail_loop max_lines max_bytes (line # ls) kl kb =
     (if kl = max_lines then (kl, kb, False, False)
      else
        let cost = length line + (if 0 < kl then 1 else 0) in
        if max_bytes < kb + cost
        then if kl = 0
             then (1, length line - ceil_char_boundary line (length line - max_bytes), True, True)
             else (kl, kb, True, False)
        else tail_loop max_lines max_bytes ls (kl + 1) (kb + cost))"

definition strip_final_lf :: "string \<Rightarrow> string" where
  "strip_final_lf s = (case strip_suffix [LF] s of None \<Rightarrow> s | Some t \<Rightarrow> t)"

definition truncate_tail :: "string \<Rightarrow> nat \<Rightarrow> nat \<Rightarrow> Tail option" where
  "truncate_tail s max_lines max_bytes =
     (let tot = length (terminated_lines s) in
      if tot \<le> max_lines \<and> length s \<le> max_bytes then None
      else
        let body = strip_final_lf s; rlines = rev (split_on LF body) in
        case tail_loop max_lines max_bytes rlines 0 0 of
          (kl, kb, bytes_cut, part) \<Rightarrow>
            if kl = tot \<and> \<not> part then None
            else Some \<lparr>tl_text = drop (length body - kb) body, total_lines = tot, kept_lines = kl,
                       by_bytes = bytes_cut, tl_partial = part, last_line_bytes = length (hd rlines)\<rparr>)"

definition share :: "nat \<Rightarrow> nat \<Rightarrow> nat \<Rightarrow> nat \<times> nat" where
  "share first second tot =
     (let first_budget = (if first \<le> tot div 2 then first else tot - min second (tot div 2))
      in (first_budget, tot - first_budget))"

section \<open>Replacing\<close>

lemma split_sub_nonempty [simp]: "split_sub p s \<noteq> []"
  by (subst split_sub.simps) (auto split: option.splits)

lemma join_split_sub: "join_with p (split_sub p s) = s"
proof (induction p s rule: split_sub.induct)
  case (1 p s)
  show ?case
  proof (cases "p = [] \<or> find_sub p s = None")
    case True
    then show ?thesis by (subst split_sub.simps) auto
  next
    case False
    then obtain i where i: "find_sub p s = Some i" and p: "p \<noteq> []" by auto
    from find_sub_Some[OF i] have "s = take i s @ p @ drop (i + length p) s"
      by (metis append_take_drop_id drop_drop add.commute)
    with i p "1.IH"[OF p i] show ?thesis
      by (subst split_sub.simps) (simp add: join_with_Cons)
  qed
qed

lemma length_join_with:
  "ps \<noteq> [] \<Longrightarrow> length (join_with sep ps) = sum_list (map length ps) + (length ps - 1) * length sep"
proof (induction ps)
  case (Cons l ps)
  then show ?case by (cases "ps = []") (auto simp: join_with_Cons neq_Nil_conv)
qed simp

lemma find_sub_first: "find_sub p s = Some i \<Longrightarrow> p \<noteq> [] \<Longrightarrow> \<not> sublist p (take i s)"
proof (induction s arbitrary: i)
  case (Cons x s)
  show ?case
  proof (cases i)
    case (Suc j)
    with Cons.prems have j: "find_sub p s = Some j" and np: "\<not> prefix p (x # s)" by (auto split: if_splits)
    have "\<not> prefix p (x # take j s)" using np by (metis prefix_order.trans take_Suc_Cons take_is_prefix)
    with Cons.IH[OF j Cons.prems(2)] Suc show ?thesis by (simp add: sublist_Cons_right)
  qed (use Cons.prems in simp)
qed (auto split: if_splits)

lemma split_sub_pieces: "p \<noteq> [] \<Longrightarrow> piece \<in> set (split_sub p s) \<Longrightarrow> \<not> sublist p piece"
proof (induction p s rule: split_sub.induct)
  case (1 p s)
  show ?case
  proof (cases "find_sub p s")
    case None
    with "1.prems" show ?thesis by (subst (asm) split_sub.simps) (simp add: find_sub_None)
  next
    case (Some i)
    with "1.prems" have "piece = take i s \<or> piece \<in> set (split_sub p (drop (i + length p) s))"
      by (subst (asm) split_sub.simps) simp
    with "1.IH"[OF "1.prems"(1) Some "1.prems"(1)] find_sub_first[OF Some "1.prems"(1)] show ?thesis by blast
  qed
qed

lemma translated_old: "old_text i \<noteq> [] \<Longrightarrow> old_text (translate_endings source i) \<noteq> []"
proof -
  assume "old_text i \<noteq> []"
  have "replace_sub [LF] [CR, LF] (old_text i) \<noteq> []" if "LF \<in> set (old_text i)"
  proof -
    from that have "find_sub [LF] (old_text i) \<noteq> None"
      by (auto simp: find_sub_None sublist_def in_set_conv_decomp)
    then obtain k where "find_sub [LF] (old_text i) = Some k" by auto
    then show ?thesis
      by (simp add: replace_sub_def) (subst split_sub.simps, simp add: join_with_Cons)
  qed
  then show ?thesis using \<open>old_text i \<noteq> []\<close> by (auto simp: translate_endings_def)
qed

lemma replace_first_once:
  assumes "p \<noteq> []" and "match_count p s = 1"
  shows "replace_first p r s = replace_sub p r s"
proof -
  from assms have "length (split_sub p s) = 2" by (simp add: match_count_def)
  then obtain i where i: "find_sub p s = Some i"
    using assms(1) by (cases "find_sub p s") (auto simp: split_sub.simps[of p s])
  with assms(1) have eq: "split_sub p s = take i s # split_sub p (drop (i + length p) s)"
    by (subst split_sub.simps) simp
  with \<open>length (split_sub p s) = 2\<close> have "length (split_sub p (drop (i + length p) s)) = 1" by simp
  then have "split_sub p (drop (i + length p) s) = [drop (i + length p) s]"
    by (metis One_nat_def join_split_sub join_with.simps(2) length_0_conv length_Suc_conv)
  with eq i show ?thesis by (simp add: replace_first_def replace_sub_def)
qed

lemma replaced_length:
  assumes "n = match_count p s"
  shows "length p * n \<le> length s" and "length (replace_sub p r s) = length s - length p * n + length r * n"
proof -
  have s: "length s = sum_list (map length (split_sub p s)) + n * length p"
    using length_join_with[of "split_sub p s" p] assms by (simp add: join_split_sub match_count_def)
  then show "length p * n \<le> length s" by (simp add: mult.commute)
  show "length (replace_sub p r s) = length s - length p * n + length r * n"
    using length_join_with[of "split_sub p s" r] assms s by (simp add: replace_sub_def match_count_def mult.commute)
qed

lemma match_count_le: "p \<noteq> [] \<Longrightarrow> match_count p s \<le> length s"
  using replaced_length(1)[OF refl, of p s] by (cases p) auto

lemma translated_new: "length (new_text (translate_endings source i)) \<le> 2 * length (new_text i)"
proof -
  let ?u = "replace_sub [CR, LF] [LF] (new_text i)"
  have "length ?u \<le> length (new_text i)"
    using replaced_length(1)[OF refl, of "[CR, LF]" "new_text i"]
      replaced_length(2)[OF refl, where p = "[CR, LF]" and s = "new_text i" and r = "[LF]"] by simp
  moreover have "length (replace_sub [LF] [CR, LF] ?u) \<le> 2 * length ?u"
    using replaced_length(2)[OF refl, where p = "[LF]" and s = ?u and r = "[CR, LF]"] match_count_le[of "[LF]" ?u] by simp
  ultimately show ?thesis by (simp add: translate_endings_def)
qed

text \<open>C37: The edit tool either reports that the text does not occur, or occurs more than once without
  \<open>replace_all\<close>, or refuses a result above 512 KiB, or returns the file with every leftmost
  non-overlapping occurrence replaced and their number: the file is the pieces joined by the old
  text, no piece contains the old text, and the result is the same pieces joined by the new text.
  The size it checks beforehand is the size of that result, and its arithmetic cannot overflow.
  In a CRLF file, old and new text given with LF are converted first.\<close>

theorem edit_text_replaces:
  assumes ok: "edit_input_ok i" and src: "length source \<le> 524288"
  shows "(let j = translate_endings source i; pieces = split_sub (old_text j) source; n = length pieces - 1;
      out = join_with (new_text j) pieces in
    edit_text source i =
      (if n = 0 \<or> (\<not> replace_all j \<and> 1 < n) then Inl Failed
       else if 524288 < length out then Inl InvalidInvocation else Inr (out, n))
    \<and> join_with (old_text j) pieces = source \<and> (\<forall>p\<in>set pieces. \<not> sublist (old_text j) p))"
proof -
  define j where "j = translate_endings source i"
  define n where "n = match_count (old_text j) source"
  have n': "n = length (split_sub (old_text j) source) - 1" by (simp add: n_def match_count_def)
  have old: "old_text j \<noteq> []" using ok translated_old[of i source] by (simp add: edit_input_ok_def j_def)
  have new: "length (new_text j) \<le> 1048576"
    using ok translated_new[of source i] by (simp add: edit_input_ok_def j_def MAX_PATCH_BYTES_def)
  note len = replaced_length(1)[OF n_def] replaced_length(2)[OF n_def, where r = "new_text j"]
  have n: "n \<le> 524288" using match_count_le[OF old, of source] src by (simp add: n_def)
  have mul: "length (new_text j) * n \<le> 1048576 * 524288" using new n by (rule mult_le_mono)
  have b: "length (old_text j) * n < u64_bound" "length (new_text j) * n < u64_bound"
    "length source - length (old_text j) * n + length (new_text j) * n < u64_bound"
    using len(1) src mul by (simp_all add: u64_bound_def)
  show ?thesis
  proof (cases "n = 0 \<or> (\<not> replace_all j \<and> 1 < n)")
    case True
    then show ?thesis
      using join_split_sub[of "old_text j" source] split_sub_pieces[OF old]
      unfolding edit_text_def Let_def j_def[symmetric] n_def[symmetric] n'[symmetric] by auto
  next
    case False
    then have r: "(if replace_all j then n else 1) = n" by auto
    have out: "(if replace_all j then replace_sub (old_text j) (new_text j) source
        else replace_first (old_text j) (new_text j) source) = replace_sub (old_text j) (new_text j) source"
      using False replace_first_once[OF old, of source "new_text j"] by (auto simp: n_def)
    have "edit_text source i = (if MAX_PATCH_BYTES < length (replace_sub (old_text j) (new_text j) source)
        then Inl InvalidInvocation else Inr (replace_sub (old_text j) (new_text j) source, n))"
      using False b len out unfolding edit_text_def Let_def j_def[symmetric] n_def[symmetric] r
      by (simp add: checked_mul_def checked_sub_def checked_add_def)
    then show ?thesis
      using False join_split_sub[of "old_text j" source] split_sub_pieces[OF old]
      unfolding Let_def j_def[symmetric] n'[symmetric] by (auto simp: replace_sub_def MAX_PATCH_BYTES_def)
  qed
qed

theorem edit_text_replaces_witness:
  "edit_text ''abcb'' \<lparr>ei_path = ''f'', old_text = ''b'', new_text = ''xy'', replace_all = True\<rparr> = Inr (''axycxy'', 2)"
proof -
  let ?i = "\<lparr>ei_path = ''f'', old_text = ''b'', new_text = ''xy'', replace_all = True\<rparr>"
  have "translate_endings ''abcb'' ?i = ?i" by (simp add: translate_endings_def)
  moreover have "split_sub ''b'' ''abcb'' = [''a'', ''c'', []]" by (simp add: split_sub.simps)
  moreover have "edit_input_ok ?i" by (simp add: edit_input_ok_def MAX_PATCH_BYTES_def)
  ultimately show ?thesis using edit_text_replaces[of ?i "''abcb''"] by (simp add: Let_def)
qed

section \<open>The kept end\<close>

lemma join_rev_take:
  assumes "k < length ls"
  shows "length (join_with [LF] (drop (length ls - Suc k) ls))
    = length (join_with [LF] (drop (length ls - k) ls)) + length (ls ! (length ls - Suc k)) + (if 0 < k then 1 else 0)"
proof -
  have "drop (length ls - Suc k) ls = ls ! (length ls - Suc k) # drop (length ls - k) ls"
    using assms by (metis Cons_nth_drop_Suc Suc_diff_Suc diff_less length_greater_0_conv less_Suc_eq_0_disj list.size(3) not_less_zero zero_less_Suc)
  then show ?thesis using assms by (cases "k = 0") (simp_all add: join_with_Cons)
qed

lemma join_suffix: "suffix (join_with [c] (drop k ls)) (join_with [c] ls)"
proof (induction ls arbitrary: k)
  case (Cons l ls)
  show ?case
  proof (cases k)
    case (Suc m)
    show ?thesis
    proof (cases "ls = []")
      case False
      with Cons.IH[of m] Suc show ?thesis by (auto simp: join_with_Cons suffix_def)
    qed (simp add: Suc)
  qed simp
qed simp

lemma tail_loop_spec:
  assumes "tail_loop ml mb rest kl kb = (kl', kb', bc, part)" and "rest = drop kl (rev ls)" and "kl \<le> length ls" "kl \<le> ml"
    and "kb = length (join_with [LF] (drop (length ls - kl) ls))" "kb \<le> mb"
  shows "if part then kl' = 1 \<and> bc \<and> ls \<noteq> [] \<and> 0 < ml \<and> mb < length (last ls)
        \<and> kb' = length (last ls) - ceil_char_boundary (last ls) (length (last ls) - mb)
      else kl' \<le> length ls \<and> kl' \<le> ml \<and> kb' = length (join_with [LF] (drop (length ls - kl') ls)) \<and> kb' \<le> mb
        \<and> (if bc then kl' < length ls \<and> mb < length (join_with [LF] (drop (length ls - Suc kl') ls))
            else kl' = min (length ls) ml)"
  using assms
proof (induction ml mb rest kl kb rule: tail_loop.induct)
  case (2 ml mb line rest kl kb)
  then have k: "kl < length ls" by (metis drop_all length_rev linorder_not_le list.distinct(1))
  have d: "drop kl (rev ls) = ls ! (length ls - Suc kl) # drop (Suc kl) (rev ls)"
    using k by (metis Cons_nth_drop_Suc length_rev rev_nth)
  with "2.prems"(2) have line: "line = ls ! (length ls - Suc kl)" and rest: "rest = drop (kl + 1) (rev ls)" by simp_all
  let ?cost = "length line + (if 0 < kl then 1 else 0)"
  have kb: "kb + ?cost = length (join_with [LF] (drop (length ls - Suc kl) ls))"
    using join_rev_take[OF k] "2.prems"(5) line by simp
  consider "kl = ml" | "kl \<noteq> ml" "mb < kb + ?cost" | "kl \<noteq> ml" "kb + ?cost \<le> mb" by linarith
  then show ?case
  proof cases
    case 1
    with "2.prems"(1,3-6) k show ?thesis by (auto simp: Let_def)
  next
    case 2
    show ?thesis
    proof (cases "kl = 0")
      case True
      with 2 "2.prems"(1,3-6) k line show ?thesis by (auto simp: Let_def last_conv_nth)
    next
      case False
      with 2 "2.prems"(1,3-6) k kb show ?thesis by (auto simp: Let_def)
    qed
  next
    case 3
    then have "tail_loop ml mb rest (kl + 1) (kb + ?cost) = (kl', kb', bc, part)"
      using "2.prems"(1) by (simp add: Let_def)
    from "2.IH"[OF 3(1) refl _ this rest] 3 k "2.prems"(4) kb show ?thesis by simp
  qed
qed auto

lemma drop_suffix: "suffix x b \<Longrightarrow> k \<le> length x \<Longrightarrow> drop (length b - k) b = drop (length x - k) x"
  by (auto simp: suffix_def)

lemma split_on_snoc: "split_on c (s @ [c]) = split_on c s @ [[]]"
  by (induction s) (auto split: list.splits)

lemma last_split_on: "s \<noteq> [] \<Longrightarrow> last s \<noteq> c \<Longrightarrow> last (split_on c s) \<noteq> []"
proof (induction s)
  case (Cons x s)
  then show ?case by (cases "s = []"; cases "split_on c s") (auto split: if_splits)
qed simp

lemma terminated_lines_eq:
  assumes "s \<noteq> []"
  shows "terminated_lines s = split_on LF (strip_final_lf s)"
proof (cases "last s = LF")
  case True
  then obtain t where s: "s = t @ [LF]" using assms by (metis append_butlast_last_id)
  then have "strip_final_lf s = t" by (simp add: strip_final_lf_def)
  with s show ?thesis by (simp add: terminated_lines_def Let_def split_on_snoc)
next
  case False
  have "strip_suffix [LF] s = None" using False assms by (cases "strip_suffix [LF] s") auto
  with last_split_on[OF assms False] show ?thesis by (simp add: terminated_lines_def Let_def strip_final_lf_def)
qed

text \<open>Cutting output keeps its end: nothing is cut only when the text fits both limits (its final
  newline not counted); otherwise what is kept is the longest run of whole last lines within the
  line and the byte limit, reported as cut by bytes exactly when one more line would not have fit
  the bytes, or, when already the last line exceeds the byte limit, the end of that line from a
  scalar boundary; never more than the byte limit.\<close>

theorem truncate_tail_keeps_end:
  "(let body = strip_final_lf s; ls = split_on LF body in
    case truncate_tail s ml mb of
      None \<Rightarrow> length (terminated_lines s) \<le> ml \<and> length body \<le> mb
    | Some t \<Rightarrow>
        total_lines t = length ls \<and> length (tl_text t) \<le> mb \<and>
        (if tl_partial t
         then kept_lines t = 1 \<and> mb < length (last ls)
           \<and> tl_text t = drop (ceil_char_boundary (last ls) (length (last ls) - mb)) (last ls)
         else tl_text t = join_with [LF] (drop (length ls - kept_lines t) ls)
           \<and> kept_lines t \<le> ml \<and> kept_lines t < length ls
           \<and> (if by_bytes t then mb < length (join_with [LF] (drop (length ls - Suc (kept_lines t)) ls))
               else kept_lines t = ml)))"
proof -
  let ?b = "strip_final_lf s" and ?ls = "split_on LF (strip_final_lf s)"
  have body: "join_with [LF] ?ls = ?b" by simp
  have blen: "length ?b \<le> length s" by (auto simp: strip_final_lf_def split: option.splits)
  obtain kl kb bc part where t: "tail_loop ml mb (rev ?ls) 0 0 = (kl, kb, bc, part)" by (metis surj_pair)
  note spec = tail_loop_spec[OF t, of ?ls]
  show ?thesis
  proof (cases "length (terminated_lines s) \<le> ml \<and> length s \<le> mb")
    case True
    with blen show ?thesis by (simp add: truncate_tail_def Let_def)
  next
    case False
    then have "s \<noteq> []" by (auto simp: terminated_lines_def)
    then have tot: "terminated_lines s = ?ls" by (rule terminated_lines_eq)
    show ?thesis
    proof (cases part)
      case True
      with spec have p: "kl = 1" "mb < length (last ?ls)" "kb = length (last ?ls) - ceil_char_boundary (last ?ls) (length (last ?ls) - mb)"
        by auto
      have c: "length (last ?ls) - mb \<le> ceil_char_boundary (last ?ls) (length (last ?ls) - mb)"
        "ceil_char_boundary (last ?ls) (length (last ?ls) - mb) \<le> length (last ?ls)"
        using ceil_char_boundary_ge[of "length (last ?ls) - mb" "last ?ls"] ceil_char_boundary_le_length[of "last ?ls"] by simp_all
      have "drop (length ?ls - 1) ?ls = [last ?ls]" by (metis append_butlast_last_id append_eq_conv_conj length_butlast split_on_nonempty)
      then have "suffix (last ?ls) ?b" using join_suffix[of LF "length ?ls - 1" ?ls] by simp
      from drop_suffix[OF this, of kb] p c
      have k1: "drop (length ?b - kb) ?b = drop (ceil_char_boundary (last ?ls) (length (last ?ls) - mb)) (last ?ls)" by simp
      have "kb \<le> mb" using p(3) c by linarith
      moreover have "length (drop (length ?b - kb) ?b) \<le> kb" by simp
      ultimately have k2: "length (drop (length ?b - kb) ?b) \<le> mb" by linarith
      have "truncate_tail s ml mb = Some \<lparr>tl_text = drop (length ?b - kb) ?b, total_lines = length ?ls, kept_lines = kl,
          by_bytes = bc, tl_partial = part, last_line_bytes = length (hd (rev ?ls))\<rparr>"
        using False True t unfolding truncate_tail_def Let_def tot by simp
      with k1 k2 p(1,2) True show ?thesis by (simp only: Let_def option.case Tail.simps if_True simp_thms)
    next
      case np: False
      with spec have p: "kl \<le> length ?ls" "kl \<le> ml" "kb = length (join_with [LF] (drop (length ?ls - kl) ?ls))" "kb \<le> mb"
        "if bc then kl < length ?ls \<and> mb < length (join_with [LF] (drop (length ?ls - Suc kl) ?ls)) else kl = min (length ?ls) ml"
        by auto
      have "suffix (join_with [LF] (drop (length ?ls - kl) ?ls)) ?b"
        using join_suffix[of LF "length ?ls - kl" ?ls] by simp
      from drop_suffix[OF this, of kb] p(3)
      have "drop (length ?b - kb) ?b = join_with [LF] (drop (length ?ls - kl) ?ls)" by simp
      with False np t tot p show ?thesis
        by (auto simp: truncate_tail_def Let_def min_def split: if_splits)
    qed
  qed
qed

text \<open>Sharing a budget between two outputs hands out all of it, gives neither less than half
  unless it needs less, and gives both what they need when the budget covers them.\<close>

lemma share_is_fair:
  "(let (a, b) = share m n tot in
     a + b = tot \<and> min m (tot div 2) \<le> a \<and> min n (tot div 2) \<le> b \<and> (m + n \<le> tot \<longrightarrow> m \<le> a \<and> n \<le> b))"
  by (auto simp: share_def Let_def)

end
