(* ===== verification/Workspace_Paths.thy ===== *)
theory Workspace_Paths
  imports Prelude
begin

text \<open>
  Paths of the workspace queries: \<^verbatim>\<open>std::path\<close> as the code uses it on Unix,
  \<^verbatim>\<open>workspace.rs\<close> (\<^verbatim>\<open>normalize_relative\<close>) and the search roots of \<^verbatim>\<open>workspace/page.rs\<close>.
  A \<^verbatim>\<open>Path\<close> is the list of its components; \<open>components\<close> splits a text the way
  \<^verbatim>\<open>Path::components\<close> does. Accepted roots are lexically normal and no path lies below two
  of them.
\<close>

section \<open>Components\<close>

datatype Component = RootDir | CurDir | ParentDir | Normal string

type_synonym Path = "Component list"

abbreviation (input) SLASH :: char where
  "SLASH \<equiv> CHR ''/''"

definition body_component :: "string \<Rightarrow> Component list" where
  "body_component p =
     (if p = '''' \<or> p = ''.'' then [] else if p = ''..'' then [ParentDir] else [Normal p])"

text \<open>A leading dot is a component of a relative path; every other dot and empty part is dropped.\<close>

definition components :: "string \<Rightarrow> Path" where
  "components s =
     (case split_on SLASH s of
        [] \<Rightarrow> []
      | p # ps \<Rightarrow>
          (if starts_with s [SLASH] then [RootDir]
           else if p = ''.'' then [CurDir] else body_component p)
          @ concat (map body_component ps))"

definition is_absolute :: "Path \<Rightarrow> bool" where
  "is_absolute p = (case p of RootDir # _ \<Rightarrow> True | _ \<Rightarrow> False)"

fun as_os_str :: "Component \<Rightarrow> string" where
  "as_os_str RootDir = ''/''"
| "as_os_str CurDir = ''.''"
| "as_os_str ParentDir = ''..''"
| "as_os_str (Normal name) = name"

text \<open>\<^verbatim>\<open>PathBuf::push\<close> of one component, \<^verbatim>\<open>PathBuf::pop\<close> (none when there is no parent) and \<^verbatim>\<open>Path::join\<close>.\<close>

definition path_push :: "Component \<Rightarrow> Path \<Rightarrow> Path" where
  "path_push c p = (if c = RootDir then [RootDir] else p @ [c])"

definition path_pop :: "Path \<Rightarrow> Path option" where
  "path_pop p = (if p = [] \<or> List.last p = RootDir then None else Some (butlast p))"

definition path_join :: "Path \<Rightarrow> string \<Rightarrow> Path" where
  "path_join base s =
     (let p = components s in
      if is_absolute p then p
      else if base = [] then p
      else base @ filter (\<lambda>c. c \<noteq> CurDir) p)"

section \<open>Workspace-relative paths\<close>

datatype WorkspaceError =
  InvalidPath | EscapesRoot | PathNotFound | NotFile | NotDirectory | WorkspaceUnavailable | UnknownOutcome
| FileTooLarge | Binary

fun normalize_loop :: "Path \<Rightarrow> Path \<Rightarrow> WorkspaceError + Path" where
  "normalize_loop [] normalized = Inr normalized"
| "normalize_loop (Normal v # cs) normalized = normalize_loop cs (path_push (Normal v) normalized)"
| "normalize_loop (CurDir # cs) normalized = normalize_loop cs normalized"
| "normalize_loop (ParentDir # cs) normalized = Inl InvalidPath"
| "normalize_loop (RootDir # cs) normalized = Inl InvalidPath"

definition normalize_relative :: "string \<Rightarrow> bool \<Rightarrow> WorkspaceError + Path" where
  "normalize_relative path allow_empty =
     (if CHR 0x00 \<in> set path then Inl InvalidPath
      else if is_absolute (components path) then Inl InvalidPath
      else res_bind (normalize_loop (components path) []) (\<lambda>normalized.
        if normalized = [] \<and> \<not> allow_empty then Inl InvalidPath else Inr normalized))"

definition validate_relative_path :: "string \<Rightarrow> WorkspaceError + unit" where
  "validate_relative_path path = res_bind (normalize_relative path False) (\<lambda>_. Inr ())"

section \<open>Search roots\<close>

text \<open>
  \<^verbatim>\<open>display_path\<close> also replaces invalid UTF-8; the request paths it is applied to are strings.
\<close>

fun display_loop :: "Path \<Rightarrow> string \<Rightarrow> string" where
  "display_loop [] display = display"
| "display_loop (Normal part # cs) display =
     display_loop cs ((if display = '''' then '''' else display @ ''/'') @ part)"
| "display_loop (_ # cs) display = display_loop cs display"

definition display_path :: "Path \<Rightarrow> string" where
  "display_path relative = display_loop relative ''''"

definition roots_overlap :: "string \<Rightarrow> string \<Rightarrow> bool" where
  "roots_overlap left right =
     (if left = '''' \<or> right = '''' then True
      else
        let left_path = components left; right_path = components right;
            (short, long) =
              (if length left_path \<le> length right_path then (left_path, right_path)
               else (right_path, left_path))
        in starts_with long short)"

datatype root_error = InvalidArguments

fun root_loop :: "string list \<Rightarrow> string list \<Rightarrow> root_error + string list" where
  "root_loop [] roots = Inr roots"
| "root_loop (path # paths) roots =
     (case normalize_relative path True of
        Inl _ \<Rightarrow> Inl InvalidArguments
      | Inr relative \<Rightarrow>
          let normalized = display_path relative in
          root_loop paths (if normalized \<in> set roots then roots else roots @ [normalized]))"

definition normalized_roots :: "string list option \<Rightarrow> root_error + string list" where
  "normalized_roots paths =
     res_bind (root_loop (case paths of None \<Rightarrow> [] | Some ps \<Rightarrow> ps) []) (\<lambda>roots.
       if roots = [] then Inr ['''']
       else if list_ex (\<lambda>(index, root).
                list_ex (\<lambda>(other, candidate). other \<noteq> index \<and> roots_overlap root candidate)
                  (enumerate 0 roots)) (enumerate 0 roots)
       then Inl InvalidArguments
       else Inr roots)"

section \<open>Laws of components\<close>

definition wf_name :: "string \<Rightarrow> bool" where
  "wf_name n = (n \<noteq> '''' \<and> n \<noteq> ''.'' \<and> n \<noteq> ''..'' \<and> SLASH \<notin> set n)"

lemma body_component_wf: "wf_name n \<Longrightarrow> body_component n = [Normal n]"
  by (simp add: body_component_def wf_name_def)

lemma split_on_sep: "c \<notin> set q \<Longrightarrow> split_on c (q @ c # s) = q # split_on c s"
  by (induction q) auto

lemma split_on_one: "c \<notin> set q \<Longrightarrow> split_on c q = [q]"
  by (induction q) auto

lemma split_on_join:
  "list_all (\<lambda>p. c \<notin> set p) ps \<Longrightarrow> ps \<noteq> [] \<Longrightarrow> split_on c (join_with [c] ps) = ps"
proof (induction ps)
  case (Cons p ps)
  then show ?case by (cases ps) (auto simp: split_on_sep split_on_one)
qed simp

lemma concat_body_wf: "list_all wf_name ns \<Longrightarrow> concat (map body_component ns) = map Normal ns"
  by (induction ns) (auto simp: body_component_wf)

lemma components_join:
  assumes "list_all wf_name ns"
  shows "components (join_with [SLASH] ns) = map Normal ns"
proof (cases ns)
  case (Cons n ms)
  with assms have n: "wf_name n" by simp
  have "list_all (\<lambda>p. SLASH \<notin> set p) ns"
    using assms by (rule list.pred_mono_strong) (simp add: wf_name_def)
  with Cons have split: "split_on SLASH (join_with [SLASH] ns) = ns" by (intro split_on_join) simp_all
  from n Cons have "\<not> prefix [SLASH] (join_with [SLASH] ns)"
    by (cases n; cases ms) (auto simp: wf_name_def)
  with assms Cons n split show ?thesis
    by (simp add: components_def body_component_wf concat_body_wf wf_name_def)
qed (simp add: components_def body_component_def)

lemma body_components_root: "RootDir \<notin> set (concat (map body_component ps))"
  by (induction ps) (auto simp: body_component_def)

lemma body_components_wf:
  "Normal n \<in> set (concat (map body_component ps)) \<Longrightarrow> \<forall>p\<in>set ps. SLASH \<notin> set p \<Longrightarrow> wf_name n"
  by (induction ps) (auto simp: body_component_def wf_name_def split: if_splits)

lemma components_eq:
  obtains p ps where "\<forall>q\<in>set (p # ps). SLASH \<notin> set q"
    and "components s = (if prefix [SLASH] s then [RootDir]
          else if p = ''.'' then [CurDir] else body_component p) @ concat (map body_component ps)"
proof -
  obtain p ps where split: "split_on SLASH s = p # ps" by (cases "split_on SLASH s") auto
  with split_on_no_sep[of _ SLASH s] have "\<forall>q\<in>set (p # ps). SLASH \<notin> set q" by auto
  then show ?thesis
    by (rule that) (simp only: components_def split list.case starts_with_iff)
qed

lemma components_wf:
  assumes "Normal n \<in> set (components s)"
  shows "wf_name n"
proof (rule components_eq[of s])
  fix p ps
  assume parts: "\<forall>q\<in>set (p # ps). SLASH \<notin> set q"
    and eq: "components s = (if prefix [SLASH] s then [RootDir]
          else if p = ''.'' then [CurDir] else body_component p) @ concat (map body_component ps)"
  from assms consider "Normal n \<in> set (body_component p)" | "Normal n \<in> set (concat (map body_component ps))"
    unfolding eq by (auto split: if_splits)
  then show ?thesis
    using parts body_components_wf[of n "[p]"] body_components_wf[of n ps] by cases auto
qed

lemma components_shape:
  "RootDir \<notin> set (components s) \<or> (\<exists>cs. components s = RootDir # cs \<and> RootDir \<notin> set cs)"
  using body_components_root by (rule_tac components_eq[of s]) (auto simp: body_component_def)

lemma components_relative: "\<not> is_absolute (components s) \<Longrightarrow> RootDir \<notin> set (components s)"
  using components_shape[of s] by (auto simp: is_absolute_def)

lemma components_absolute:
  "is_absolute (components s) \<Longrightarrow> \<exists>cs. components s = RootDir # cs \<and> RootDir \<notin> set cs"
  using components_shape[of s] by (auto simp: is_absolute_def split: list.splits Component.splits)

lemma normalize_loop_names:
  assumes "normalize_loop cs acc = Inr p"
  shows "\<exists>ns. p = acc @ map Normal ns \<and> (\<forall>n\<in>set ns. Normal n \<in> set cs)"
  using assms
proof (induction cs acc rule: normalize_loop.induct)
  case (2 v cs acc)
  then obtain ns where "p = path_push (Normal v) acc @ map Normal ns" "\<forall>n\<in>set ns. Normal n \<in> set cs"
    by auto
  then show ?case by (intro exI[of _ "v # ns"]) (auto simp: path_push_def)
qed auto

lemma normalize_relative_names:
  assumes "normalize_relative path e = Inr p"
  obtains ns where "p = map Normal ns" and "list_all wf_name ns"
proof -
  from assms have "normalize_loop (components path) [] = Inr p"
    by (auto simp: normalize_relative_def split: if_splits)
  from normalize_loop_names[OF this] obtain ns
    where "p = map Normal ns" "\<forall>n\<in>set ns. Normal n \<in> set (components path)" by auto
  with components_wf[of _ path] show ?thesis by (intro that) (auto simp: list_all_iff)
qed

lemma join_with_snoc: "join_with sep (ps @ [p]) = (if ps = [] then p else join_with sep ps @ sep @ p)"
  by (induction sep ps rule: join_with.induct) auto

lemma join_with_empty: "list_all wf_name ns \<Longrightarrow> join_with [SLASH] ns = '''' \<longleftrightarrow> ns = []"
  by (cases "([SLASH], ns)" rule: join_with.cases) (auto simp: wf_name_def)

lemma display_loop_names:
  "list_all wf_name ms \<Longrightarrow> list_all wf_name ns
   \<Longrightarrow> display_loop (map Normal ns) (join_with [SLASH] ms) = join_with [SLASH] (ms @ ns)"
proof (induction ns arbitrary: ms)
  case (Cons n ns)
  from Cons.prems Cons.IH[of "ms @ [n]"] show ?case
    by (cases "ms = []") (simp_all add: join_with_snoc join_with_empty)
qed simp

lemma display_names: "list_all wf_name ns \<Longrightarrow> display_path (map Normal ns) = join_with [SLASH] ns"
  using display_loop_names[of "[]" ns] by (simp add: display_path_def)

section \<open>The accepted roots\<close>

definition root_ok :: "string \<Rightarrow> bool" where
  "root_ok r = (\<exists>ns. list_all wf_name ns \<and> r = join_with [SLASH] ns)"

lemma root_ok_components: "root_ok r \<Longrightarrow> \<exists>names. list_all wf_name names \<and> components r = map Normal names"
  using components_join by (fastforce simp: root_ok_def)

lemma root_loop_ok:
  assumes "root_loop paths acc = Inr roots" and "distinct acc" and "\<forall>r\<in>set acc. root_ok r"
  shows "distinct roots \<and> (\<forall>r\<in>set roots. root_ok r) \<and> set acc \<subseteq> set roots
    \<and> (\<forall>p\<in>set paths. \<exists>rel. normalize_relative p True = Inr rel \<and> display_path rel \<in> set roots)"
  using assms
proof (induction paths acc rule: root_loop.induct)
  case (2 path paths acc)
  from "2.prems"(1) obtain rel where rel: "normalize_relative path True = Inr rel"
    by (auto split: sum.splits)
  from normalize_relative_names[OF this] have "root_ok (display_path rel)"
    by (metis display_names root_ok_def)
  with "2.prems" rel "2.IH"[OF rel refl] show ?case
    by (cases "display_path rel \<in> set acc") (auto simp: Let_def)
qed simp

lemma components_Nil [simp]: "components '''' = []"
  by (simp add: components_def body_component_def)

lemma roots_overlap_iff:
  "roots_overlap r r' \<longleftrightarrow> prefix (components r) (components r') \<or> prefix (components r') (components r)"
proof -
  have "prefix (components a) (components b) \<Longrightarrow> length (components b) \<le> length (components a)
      \<Longrightarrow> prefix (components b) (components a)" for a b
    by (auto simp: prefix_def)
  then show ?thesis by (auto simp: roots_overlap_def Let_def)
qed

lemma overlap_free:
  assumes "\<not> list_ex (\<lambda>(index, root).
      list_ex (\<lambda>(other, candidate). other \<noteq> index \<and> roots_overlap root candidate) (enumerate 0 roots))
        (enumerate 0 roots)"
    and "i < length roots" "j < length roots" "i \<noteq> j"
  shows "\<not> prefix (components (roots ! i)) (components (roots ! j))"
proof -
  have mem: "(k, roots ! k) \<in> set (enumerate 0 roots)" if "k < length roots" for k
    using nth_mem[of k "enumerate 0 roots"] that by (simp add: nth_enumerate_eq)
  from mem[OF assms(2)] mem[OF assms(3)] assms(1,4) have "\<not> roots_overlap (roots ! i) (roots ! j)"
    by (fastforce simp: list_ex_iff)
  then show ?thesis by (simp add: roots_overlap_iff)
qed

lemma one_root:
  assumes free: "\<And>i j. i < length rs \<Longrightarrow> j < length rs \<Longrightarrow> i \<noteq> j \<Longrightarrow> \<not> prefix (rs ! i) (rs ! j)"
  shows "length (filter (\<lambda>r. prefix r q) rs) \<le> 1"
proof (rule ccontr)
  let ?I = "{i. i < length rs \<and> prefix (rs ! i) q}"
  assume "\<not> ?thesis"
  then have "\<not> card ?I \<le> Suc 0" by (simp add: length_filter_conv_card)
  then have "\<not> (\<forall>i\<in>?I. \<forall>j\<in>?I. i = j)" by (subst (asm) card_le_Suc0_iff_eq) simp_all
  then obtain i j where "i \<in> ?I" "j \<in> ?I" "i \<noteq> j" by blast
  then show False
    using free[of i j] free[of j i] prefix_same_cases[of "rs ! i" q "rs ! j"] by auto
qed

section \<open>Properties\<close>

text \<open>The roots of an accepted workspace search are the normal forms of the requested paths (or the
  workspace itself when none is requested): each is a relative path of plain names, every
  requested path is accounted for, and no path lies below two of the roots, so that no file
  is searched twice.\<close>

theorem search_roots_disjoint:
  assumes "normalized_roots paths = Inr roots"
  shows "roots \<noteq> []
    \<and> (\<forall>r\<in>set roots. \<exists>names. list_all wf_name names \<and> components r = map Normal names)
    \<and> (\<forall>ps. paths = Some ps \<longrightarrow> (\<forall>p\<in>set ps. \<exists>rel. normalize_relative p True = Inr rel
          \<and> display_path rel \<in> set roots \<and> components (display_path rel) = rel))
    \<and> length (filter (\<lambda>r. starts_with q (components r)) roots) \<le> 1"
proof -
  let ?ps = "case paths of None \<Rightarrow> [] | Some ps \<Rightarrow> ps"
  from assms obtain rs where loop: "root_loop ?ps [] = Inr rs" by (auto simp: normalized_roots_def)
  note ok = root_loop_ok[OF loop, simplified]
  from assms loop consider "rs = []" "roots = ['''']" | "roots = rs" "rs \<noteq> []"
    "\<And>i j. i < length rs \<Longrightarrow> j < length rs \<Longrightarrow> i \<noteq> j \<Longrightarrow> \<not> prefix (components (rs ! i)) (components (rs ! j))"
    using overlap_free[of rs] by (fastforce simp: normalized_roots_def split: if_splits)
  then show ?thesis
  proof cases
    case 1
    with ok show ?thesis by (cases paths) (auto intro: exI[of _ "[]"])
  next
    case 2
    have "\<exists>names. list_all wf_name names \<and> components r = map Normal names" if "r \<in> set roots" for r
      using that ok 2(1) by (intro root_ok_components) simp
    moreover have "components (display_path rel) = rel" if "normalize_relative p True = Inr rel" for p rel
      by (rule normalize_relative_names[OF that]) (simp add: display_names components_join)
    moreover have "length (filter (\<lambda>r. starts_with q (components r)) roots) \<le> 1"
      using one_root[of "map components rs" q] 2 by (simp add: filter_map comp_def)
    ultimately show ?thesis using ok 2 by (cases paths) blast+
  qed
qed

theorem search_roots_disjoint_witness:
  "normalized_roots (Some [''src/./a'', ''./src/a'', ''docs'']) = Inr [''src/a'', ''docs'']
   \<and> length (filter (\<lambda>r. starts_with (components ''src/a/x'') (components r)) [''src/a'', ''docs'']) \<le> 1"
proof
  show run: "normalized_roots (Some [''src/./a'', ''./src/a'', ''docs'']) = Inr [''src/a'', ''docs'']"
    by code_simp
  from search_roots_disjoint[OF run, of "components ''src/a/x''"]
  show "length (filter (\<lambda>r. starts_with (components ''src/a/x'') (components r)) [''src/a'', ''docs'']) \<le> 1"
    by blast
qed

end
