(* ===== verification/Workspace_Status.thy ===== *)
theory Workspace_Status
  imports Workspace_Paths
begin

text \<open>
  \<^verbatim>\<open>workspace/status/porcelain.rs\<close> and \<^verbatim>\<open>workspace/status.rs\<close>: the bounded observation of the Git
  status of a workspace. The porcelain stream is parsed record by record, every path is mapped
  into the workspace or left out, and the result is assembled within an encoded budget. What
  \<^verbatim>\<open>git\<close> answers, the canonical form of a directory and the JSON encoder are parameters.
\<close>

section \<open>Data\<close>

datatype WorkspaceStatusEntryKind = Ordinary | Renamed | Unmerged | Untracked

record WorkspaceStatusEntry =
  se_path :: string
  se_kind :: WorkspaceStatusEntryKind
  index_status :: "string option"
  worktree_status :: "string option"
  original_path :: "string option"

record Observation =
  head_oid :: "string option"
  branch :: "string option"
  detached :: bool
  saw_oid_header :: bool
  saw_head_header :: bool
  staged :: nat
  unstaged :: nat
  untracked :: nat
  conflicted :: nat
  ob_entries :: "WorkspaceStatusEntry list"
  skipped_paths :: nat
  ob_records :: nat
  ob_truncated :: bool
  malformed :: nat

definition observation_default :: Observation where
  "observation_default = \<lparr>head_oid = None, branch = None, detached = False, saw_oid_header = False,
     saw_head_header = False, staged = 0, unstaged = 0, untracked = 0, conflicted = 0, ob_entries = [],
     skipped_paths = 0, ob_records = 0, ob_truncated = False, malformed = 0\<rparr>"

definition branch_headers_complete :: "Observation \<Rightarrow> bool" where
  "branch_headers_complete found = (saw_oid_header found \<and> saw_head_header found)"

definition MAX_STATUS_BRANCH_BYTES :: nat where
  "MAX_STATUS_BRANCH_BYTES = 1024"

definition MAX_PATH_BYTES :: nat where
  "MAX_PATH_BYTES = 4096"

definition note_malformed :: "Observation \<Rightarrow> Observation" where
  "note_malformed found = found\<lparr>malformed := malformed found + 1\<rparr>"

section \<open>Fields of a record\<close>

definition count_status :: "Observation \<Rightarrow> string \<times> string \<Rightarrow> Observation" where
  "count_status found xy =
     (let found = (if fst xy \<noteq> ''.'' then found\<lparr>staged := staged found + 1\<rparr> else found)
      in if snd xy \<noteq> ''.'' then found\<lparr>unstaged := unstaged found + 1\<rparr> else found)"

text \<open>A Unicode scalar is the list of its bytes.\<close>

definition STATUS_CODES :: "string list" where
  "STATUS_CODES = [''.'', ''M'', ''T'', ''A'', ''D'', ''R'', ''C'', ''U'']"

definition xy_codes :: "string \<Rightarrow> (string \<times> string) option" where
  "xy_codes field =
     (if utf8_valid field then
        (case utf8_chars field of
           [x, y] \<Rightarrow> if x \<notin> set STATUS_CODES \<or> y \<notin> set STATUS_CODES then None else Some (x, y)
         | _ \<Rightarrow> None)
      else None)"

definition is_ascii_hexdigit :: "char \<Rightarrow> bool" where
  "is_ascii_hexdigit c = (byte_in 48 57 c \<or> byte_in 97 102 c \<or> byte_in 65 70 c)"

definition valid_oid :: "string \<Rightarrow> bool" where
  "valid_oid v = ((length v = 40 \<or> length v = 64) \<and> list_all is_ascii_hexdigit v)"

definition header :: "string \<Rightarrow> Observation \<Rightarrow> Observation" where
  "header chunk found =
     (if \<not> utf8_valid chunk then note_malformed found
      else case strip_prefix ''# '' chunk of
        None \<Rightarrow> note_malformed found
      | Some rest \<Rightarrow>
          (case split_once (CHR '' '') rest of
             None \<Rightarrow> note_malformed found
           | Some (key, v) \<Rightarrow>
               if key = ''branch.oid'' then
                 let found = found\<lparr>saw_oid_header := True\<rparr> in
                 if v = ''(initial)'' then found\<lparr>head_oid := None\<rparr>
                 else if valid_oid v then found\<lparr>head_oid := Some v\<rparr>
                 else (note_malformed found)\<lparr>head_oid := None\<rparr>
               else if key = ''branch.head'' then
                 let found = found\<lparr>saw_head_header := True\<rparr> in
                 if v = ''(detached)'' then found\<lparr>detached := True, branch := None\<rparr>
                 else if v = '''' \<or> MAX_STATUS_BRANCH_BYTES < length v then note_malformed found
                 else found\<lparr>branch := Some v\<rparr>
               else found))"

text \<open>\<^verbatim>\<open>slice::splitn\<close>: at most \<open>n\<close> parts, the last one with everything that is left.\<close>

fun splitn :: "nat \<Rightarrow> char \<Rightarrow> string \<Rightarrow> string list" where
  "splitn 0 c s = []"
| "splitn (Suc 0) c s = [s]"
| "splitn (Suc (Suc n)) c s =
     (case split_once c s of None \<Rightarrow> [s] | Some (a, b) \<Rightarrow> a # splitn (Suc n) c b)"

definition split_fields :: "string \<Rightarrow> nat \<Rightarrow> string list option" where
  "split_fields chunk n =
     (let parts = splitn n (CHR '' '') chunk in
      if length parts \<noteq> n then None else Some parts)"

section \<open>Paths\<close>

datatype Mapped = Inside string | Outside | Skipped

text \<open>The loop over the components of the joined path; \<^term>\<open>None\<close> is the early return.\<close>

fun normal_loop :: "Path \<Rightarrow> Path \<Rightarrow> Path option" where
  "normal_loop [] normal = Some normal"
| "normal_loop (RootDir # cs) normal = normal_loop cs (path_push RootDir normal)"
| "normal_loop (CurDir # cs) normal = normal_loop cs normal"
| "normal_loop (ParentDir # cs) normal =
     (case path_pop normal of None \<Rightarrow> None | Some parent \<Rightarrow> normal_loop cs parent)"
| "normal_loop (Normal name # cs) normal = normal_loop cs (path_push (Normal name) normal)"

fun relative_loop :: "Path \<Rightarrow> string \<Rightarrow> Mapped" where
  "relative_loop [] relative = Inside relative"
| "relative_loop (component # cs) relative =
     (let name = as_os_str component in
      if \<not> utf8_valid name then Skipped
      else relative_loop cs ((if relative = '''' then '''' else relative @ ''/'') @ name))"

definition relative_to_workspace :: "string \<Rightarrow> Path \<Rightarrow> Path \<Rightarrow> Mapped" where
  "relative_to_workspace path toplevel workspace_root =
     (if MAX_PATH_BYTES < length path then Skipped
      else if \<not> utf8_valid path then Skipped
      else
        let full = (if is_absolute (components path) then components path else path_join toplevel path) in
        case normal_loop full [] of
          None \<Rightarrow> Skipped
        | Some normal \<Rightarrow>
            (case strip_prefix workspace_root normal of
               None \<Rightarrow> Outside
             | Some stripped \<Rightarrow> relative_loop stripped ''''))"

definition map_entry ::
  "string \<Rightarrow> string option \<Rightarrow> Path \<Rightarrow> Path \<Rightarrow> Observation
   \<Rightarrow> (string \<times> string option) option \<times> Observation" where
  "map_entry path original toplevel workspace_root found =
     (case relative_to_workspace path toplevel workspace_root of
        Outside \<Rightarrow> (None, found)
      | Skipped \<Rightarrow> (None, found\<lparr>skipped_paths := skipped_paths found + 1\<rparr>)
      | Inside mapped \<Rightarrow>
          (case original of
             None \<Rightarrow> (Some (mapped, None), found)
           | Some original \<Rightarrow>
               (case relative_to_workspace original toplevel workspace_root of
                  Inside path \<Rightarrow> (Some (mapped, Some path), found)
                | Outside \<Rightarrow> (Some (mapped, None), found)
                | Skipped \<Rightarrow>
                    (Some (mapped, None), found\<lparr>skipped_paths := skipped_paths found + 1\<rparr>))))"

definition workspace_pathspec :: "Path \<Rightarrow> Path \<Rightarrow> string option" where
  "workspace_pathspec workspace_root toplevel =
     map_option (\<lambda>stripped.
       let spec = foldl (\<lambda>spec component.
             let name = as_os_str component in
             if name = '''' then spec
             else (if spec = '''' then '''' else spec @ ''/'') @ name) '''' stripped
       in if spec = '''' then ''.'' else spec)
     (strip_prefix toplevel workspace_root)"

section \<open>Parsing the stream\<close>

definition push_record ::
  "WorkspaceStatusEntryKind \<Rightarrow> (string \<times> string) option \<Rightarrow> string \<times> string option
   \<Rightarrow> Observation \<Rightarrow> Observation" where
  "push_record kind statuses paths found =
     found\<lparr>ob_entries := ob_entries found @
       [\<lparr>se_path = fst paths, se_kind = kind, index_status = map_option fst statuses,
         worktree_status = map_option snd statuses, original_path = snd paths\<rparr>]\<rparr>"

definition note_record :: "Observation \<Rightarrow> Observation" where
  "note_record found = found\<lparr>ob_records := ob_records found + 1\<rparr>"

definition observe_ordinary :: "Path \<Rightarrow> Path \<Rightarrow> string \<Rightarrow> Observation \<Rightarrow> Observation" where
  "observe_ordinary toplevel workspace_root chunk found =
     (case split_fields chunk 9 of
        None \<Rightarrow> note_malformed found
      | Some fs \<Rightarrow>
          (case xy_codes (fs ! 1) of
             None \<Rightarrow> note_malformed found
           | Some statuses \<Rightarrow>
               (case map_entry (fs ! 8) None toplevel workspace_root found of
                  (None, found) \<Rightarrow> found
                | (Some (path, _), found) \<Rightarrow>
                    push_record Ordinary (Some statuses) (path, None)
                      (count_status (note_record found) statuses))))"

definition observe_renamed :: "Path \<Rightarrow> Path \<Rightarrow> string \<Rightarrow> string option \<Rightarrow> Observation \<Rightarrow> Observation" where
  "observe_renamed toplevel workspace_root chunk original found =
     (case split_fields chunk 10 of
        None \<Rightarrow> note_malformed found
      | Some fs \<Rightarrow>
          (case original of
             None \<Rightarrow> note_malformed found
           | Some [] \<Rightarrow> note_malformed found
           | Some original \<Rightarrow>
               (case xy_codes (fs ! 1) of
                  None \<Rightarrow> note_malformed found
                | Some statuses \<Rightarrow>
                    (case map_entry (fs ! 9) (Some original) toplevel workspace_root found of
                       (None, found) \<Rightarrow> found
                     | (Some paths, found) \<Rightarrow>
                         push_record Renamed (Some statuses) paths
                           (count_status (note_record found) statuses)))))"

definition observe_unmerged :: "Path \<Rightarrow> Path \<Rightarrow> string \<Rightarrow> Observation \<Rightarrow> Observation" where
  "observe_unmerged toplevel workspace_root chunk found =
     (case split_fields chunk 11 of
        None \<Rightarrow> note_malformed found
      | Some fs \<Rightarrow>
          (case xy_codes (fs ! 1) of
             None \<Rightarrow> note_malformed found
           | Some statuses \<Rightarrow>
               (case map_entry (fs ! 10) None toplevel workspace_root found of
                  (None, found) \<Rightarrow> found
                | (Some (path, _), found) \<Rightarrow>
                    push_record Unmerged (Some statuses) (path, None)
                      ((note_record found)\<lparr>conflicted := conflicted found + 1\<rparr>))))"

definition observe_untracked :: "Path \<Rightarrow> Path \<Rightarrow> string \<Rightarrow> Observation \<Rightarrow> Observation" where
  "observe_untracked toplevel workspace_root chunk found =
     (case split_fields chunk 2 of
        None \<Rightarrow> note_malformed found
      | Some fs \<Rightarrow>
          (case map_entry (fs ! 1) None toplevel workspace_root found of
             (None, found) \<Rightarrow> found
           | (Some (path, _), found) \<Rightarrow>
               push_record Untracked None (path, None)
                 ((note_record found)\<lparr>untracked := untracked found + 1\<rparr>)))"

text \<open>The loop over the chunks; a rename record takes the chunk after it as well.\<close>

fun observe_loop :: "Path \<Rightarrow> Path \<Rightarrow> nat \<Rightarrow> string list \<Rightarrow> Observation \<Rightarrow> Observation" where
  "observe_loop toplevel workspace_root cap [] found = found"
| "observe_loop toplevel workspace_root cap (chunk # chunks) found =
     (if chunk = [] then observe_loop toplevel workspace_root cap chunks found
      else if cap \<le> ob_records found then found\<lparr>ob_truncated := True\<rparr>
      else if hd chunk = CHR ''#'' then
        observe_loop toplevel workspace_root cap chunks (header chunk found)
      else if hd chunk = CHR ''1'' then
        observe_loop toplevel workspace_root cap chunks
          (observe_ordinary toplevel workspace_root chunk found)
      else if hd chunk = CHR ''2'' then
        (case chunks of
           [] \<Rightarrow> observe_loop toplevel workspace_root cap []
                  (observe_renamed toplevel workspace_root chunk None found)
         | original # chunks' \<Rightarrow> observe_loop toplevel workspace_root cap chunks'
                  (observe_renamed toplevel workspace_root chunk (Some original) found))
      else if hd chunk = CHR ''u'' then
        observe_loop toplevel workspace_root cap chunks
          (observe_unmerged toplevel workspace_root chunk found)
      else if hd chunk = CHR ''?'' then
        observe_loop toplevel workspace_root cap chunks
          (observe_untracked toplevel workspace_root chunk found)
      else if hd chunk = CHR ''!'' then observe_loop toplevel workspace_root cap chunks found
      else observe_loop toplevel workspace_root cap chunks (note_malformed found))"

definition whole_records :: "string \<Rightarrow> string" where
  "whole_records stdout = rev (dropWhile (\<lambda>byte. byte \<noteq> CHR 0x00) (rev stdout))"

definition observe_porcelain :: "string \<Rightarrow> Path \<Rightarrow> Path \<Rightarrow> nat \<Rightarrow> Observation" where
  "observe_porcelain stdout toplevel workspace_root cap =
     observe_loop toplevel workspace_root cap (split_on (CHR 0x00) (whole_records stdout))
       observation_default"

section \<open>The status query\<close>

record GitOutput =
  g_stdout :: string
  exit_code :: "int option"
  spawn_failed :: bool
  g_truncated :: bool
  timed_out :: bool
  io_failed :: bool

definition succeeded :: "GitOutput \<Rightarrow> bool" where
  "succeeded out = (exit_code out = Some 0)"

definition quietly_failed :: "GitOutput \<Rightarrow> bool" where
  "quietly_failed out = (\<not> spawn_failed out \<and> \<not> timed_out out \<and> \<not> g_truncated out \<and> \<not> succeeded out)"

text \<open>\<open>canonical_dir\<close> is \<^verbatim>\<open>canonicalize\<close> together with the check that the path is a directory.\<close>

definition repository_root :: "(string \<Rightarrow> Path option) \<Rightarrow> string \<Rightarrow> Path option" where
  "repository_root canonical_dir stdout =
     (if \<not> utf8_valid stdout then None
      else
        let path = (case strip_suffix [LF] stdout of None \<Rightarrow> stdout | Some p \<Rightarrow> p) in
        if path = '''' \<or> LF \<in> set path then None else canonical_dir path)"

datatype WorkspaceStatusWarning =
  GitUnavailable | StatusFailed | OutputTruncated | Deadline | SkippedPaths | NestedRepository

record WorkspaceStatusResult =
  repo_available :: bool
  ws_head_oid :: "string option"
  ws_branch :: "string option"
  ws_detached :: bool
  ws_staged :: nat
  ws_unstaged :: nat
  ws_untracked :: nat
  ws_conflicted :: nat
  ws_entries :: "WorkspaceStatusEntry list"
  ws_skipped_paths :: nat
  ws_complete :: bool
  warnings :: "WorkspaceStatusWarning list"
  observed_at_unix_ms :: nat

definition failure_warning :: "GitOutput \<Rightarrow> WorkspaceStatusWarning option" where
  "failure_warning out =
     (if spawn_failed out then Some GitUnavailable
      else if timed_out out then Some Deadline
      else if g_truncated out then Some OutputTruncated
      else if io_failed out then Some StatusFailed
      else None)"

definition push_warning ::
  "WorkspaceStatusWarning \<Rightarrow> WorkspaceStatusWarning list \<Rightarrow> WorkspaceStatusWarning list" where
  "push_warning w ws = (if w \<in> set ws then ws else ws @ [w])"

text \<open>The encoder gives the length of the JSON text of a result and of an entry.\<close>

record status_encoder =
  enc_result :: "WorkspaceStatusResult \<Rightarrow> nat"
  enc_entry :: "WorkspaceStatusEntry \<Rightarrow> nat"

fun fill_entries ::
  "status_encoder \<Rightarrow> nat \<Rightarrow> nat \<Rightarrow> WorkspaceStatusEntry list \<Rightarrow> WorkspaceStatusResult
   \<Rightarrow> WorkspaceStatusResult" where
  "fill_entries enc max_bytes used [] r = r"
| "fill_entries enc max_bytes used (entry # es) r =
     (let encoded = enc_entry enc entry in
      if max_bytes < used + encoded + 1 then
        r\<lparr>ws_complete := False, warnings := push_warning OutputTruncated (warnings r)\<rparr>
      else
        fill_entries enc max_bytes (used + (encoded + 1)) es (r\<lparr>ws_entries := ws_entries r @ [entry]\<rparr>))"

definition assemble ::
  "status_encoder \<Rightarrow> bool \<Rightarrow> Observation \<Rightarrow> WorkspaceStatusWarning list \<Rightarrow> bool \<Rightarrow> nat \<Rightarrow> nat
   \<Rightarrow> WorkspaceStatusResult" where
  "assemble enc available ob ws complete max_bytes now =
     (let r = \<lparr>repo_available = available, ws_head_oid = head_oid ob, ws_branch = branch ob,
            ws_detached = detached ob, ws_staged = staged ob, ws_unstaged = unstaged ob,
            ws_untracked = untracked ob, ws_conflicted = conflicted ob, ws_entries = [],
            ws_skipped_paths = skipped_paths ob, ws_complete = complete, warnings = ws,
            observed_at_unix_ms = now\<rparr>;
          envelope = enc_result enc (r\<lparr>ws_entries := [], ws_complete := False,
            warnings := [GitUnavailable, StatusFailed, OutputTruncated, Deadline, SkippedPaths,
                         NestedRepository]\<rparr>)
      in if max_bytes < envelope then
           r\<lparr>ws_head_oid := None, ws_branch := None, ws_entries := [], ws_complete := False,
             warnings := [StatusFailed]\<rparr>
         else fill_entries enc max_bytes envelope (ob_entries ob) r)"

definition STATUS_ARGS :: "string list" where
  "STATUS_ARGS = [''--literal-pathspecs'', ''status'', ''--porcelain=v2'', ''-z'', ''--branch'',
     ''--no-ahead-behind'', ''--ignore-submodules=dirty'', ''--untracked-files=normal'', ''--'']"

text \<open>The second half of \<^verbatim>\<open>status_with_deadline\<close>: what the status command printed.\<close>

definition status_result ::
  "status_encoder \<Rightarrow> GitOutput \<Rightarrow> Path \<Rightarrow> Path \<Rightarrow> nat \<Rightarrow> WorkspaceStatusWarning list \<Rightarrow> nat \<Rightarrow> nat
   \<Rightarrow> WorkspaceStatusResult" where
  "status_result enc out toplevel workspace_root cap ws max_bytes now =
     (if spawn_failed out then
        assemble enc True observation_default (push_warning GitUnavailable ws) False max_bytes now
      else
        let ob = observe_porcelain (g_stdout out) toplevel workspace_root cap;
            (ws, complete) = (if timed_out out then (push_warning Deadline ws, False) else (ws, True));
            (ws, complete) = (if g_truncated out \<or> ob_truncated ob
               then (push_warning OutputTruncated ws, False) else (ws, complete));
            (ws, complete) = (if 0 < skipped_paths ob
               then (push_warning SkippedPaths ws, False) else (ws, complete));
            failed = (0 < malformed ob \<or> io_failed out \<or> quietly_failed out);
            (ws, complete) =
              (if failed then (push_warning StatusFailed ws, False)
               else if \<not> branch_headers_complete ob \<and> \<not> g_truncated out \<and> \<not> timed_out out
               then (push_warning StatusFailed ws, False)
               else (ws, complete))
        in assemble enc True ob ws complete max_bytes now)"

definition status_with_deadline ::
  "status_encoder \<Rightarrow> (Path \<Rightarrow> string list \<Rightarrow> 'e + GitOutput) \<Rightarrow> (string \<Rightarrow> Path option)
   \<Rightarrow> Path \<Rightarrow> nat \<Rightarrow> nat \<Rightarrow> nat \<Rightarrow> 'e + WorkspaceStatusResult" where
  "status_with_deadline enc git canonical_dir root cap max_bytes now =
     (let unavailable = (\<lambda>ws complete. assemble enc False observation_default ws complete max_bytes now) in
      res_bind (git root [''rev-parse'', ''--show-toplevel'']) (\<lambda>probe.
      case failure_warning probe of
        Some w \<Rightarrow> Inr (unavailable (push_warning w []) False)
      | None \<Rightarrow>
          (let toplevel = (if succeeded probe then repository_root canonical_dir (g_stdout probe) else None) in
           if succeeded probe \<and> toplevel = None
           then Inr (unavailable (push_warning StatusFailed []) False)
           else case toplevel of
             None \<Rightarrow>
               res_bind (git root [''rev-parse'', ''--is-bare-repository'']) (\<lambda>classify.
               case failure_warning classify of
                 Some w \<Rightarrow> Inr (unavailable (push_warning w []) False)
               | None \<Rightarrow>
                   if succeeded classify \<and> utf8_valid (g_stdout classify)
                      \<and> trim_str (g_stdout classify) \<in> {''true'', ''false''}
                   then Inr (unavailable [] True)
                   else Inr (unavailable (push_warning StatusFailed []) False))
           | Some toplevel \<Rightarrow>
               (case workspace_pathspec root toplevel of
                  None \<Rightarrow> Inr (unavailable [StatusFailed] False)
                | Some pathspec \<Rightarrow>
                    let ws = (if pathspec \<noteq> ''.'' then push_warning NestedRepository [] else []) in
                    res_bind (git toplevel (STATUS_ARGS @ [pathspec])) (\<lambda>out.
                      Inr (status_result enc out toplevel root cap ws max_bytes now))))))"

section \<open>Mapped paths\<close>

definition canonical_path :: "Path \<Rightarrow> bool" where
  "canonical_path p = (\<exists>ns. list_all wf_name ns \<and> p = RootDir # map Normal ns)"

definition plain_path :: "string \<Rightarrow> bool" where
  "plain_path s = (\<exists>ns. list_all wf_name ns \<and> components s = map Normal ns)"

lemma normal_loop_canonical:
  assumes "normal_loop cs acc = Some p" and "canonical_path acc" and "RootDir \<notin> set cs"
    and "\<And>n. Normal n \<in> set cs \<Longrightarrow> wf_name n"
  shows "canonical_path p"
  using assms
proof (induction cs acc rule: normal_loop.induct)
  case (4 cs acc)
  then obtain ns where ns: "list_all wf_name ns" "acc = RootDir # map Normal ns" by (auto simp: canonical_path_def)
  with 4 show ?case
    by (cases ns rule: rev_cases) (auto simp: path_pop_def canonical_path_def butlast_append)
next
  case (5 name cs acc)
  then obtain ns where "list_all wf_name ns" "acc = RootDir # map Normal ns" by (auto simp: canonical_path_def)
  with 5 have "canonical_path (path_push (Normal name) acc)"
    by (auto simp: canonical_path_def path_push_def intro!: exI[of _ "ns @ [name]"])
  with 5 show ?case by auto
qed auto

lemma join_canonical:
  assumes "canonical_path base" and "normal_loop (path_join base path) [] = Some p"
  shows "canonical_path p"
proof (cases "is_absolute (components path)")
  case True
  from components_absolute[OF this] obtain cs where cs: "components path = RootDir # cs" "RootDir \<notin> set cs"
    by auto
  with assms(2) True have "normal_loop cs [RootDir] = Some p" by (simp add: path_join_def path_push_def)
  then show ?thesis
    by (rule normal_loop_canonical) (use cs components_wf[of _ path] in \<open>auto simp: canonical_path_def\<close>)
next
  case False
  from assms(1) obtain ns where ns: "list_all wf_name ns" "base = RootDir # map Normal ns"
    by (auto simp: canonical_path_def)
  with assms(2) False
  have "normal_loop (map Normal ns @ filter (\<lambda>c. c \<noteq> CurDir) (components path)) [RootDir] = Some p"
    by (simp add: path_join_def path_push_def Let_def)
  then show ?thesis
    by (rule normal_loop_canonical)
      (use ns components_wf[of _ path] components_relative[OF False] in \<open>auto simp: canonical_path_def list_all_iff\<close>)
qed

lemma canonical_strip:
  assumes "canonical_path p" "canonical_path w" "strip_prefix w p = Some s"
  obtains ns where "list_all wf_name ns" and "s = map Normal ns"
proof -
  from assms obtain ns ms where "list_all wf_name ns" "map Normal ms @ s = map Normal ns"
    by (auto simp: canonical_path_def strip_prefix_Some)
  then show ?thesis by (auto simp: append_eq_map_conv intro: that)
qed

lemma relative_loop_display:
  "relative_loop (map Normal ns) acc = Inside rel \<Longrightarrow> rel = display_loop (map Normal ns) acc"
  by (induction ns arbitrary: acc) (auto simp: Let_def split: if_splits)

lemma relative_inside:
  assumes "canonical_path toplevel" "canonical_path workspace_root"
    and "relative_to_workspace path toplevel workspace_root = Inside rel"
  shows "plain_path rel"
    and "normal_loop (path_join toplevel path) [] = Some (workspace_root @ components rel)"
proof -
  have full: "(if is_absolute (components path) then components path else path_join toplevel path)
      = path_join toplevel path"
    by (simp add: path_join_def)
  from assms(3) obtain p stripped where p: "normal_loop (path_join toplevel path) [] = Some p"
      "strip_prefix workspace_root p = Some stripped" "relative_loop stripped '''' = Inside rel"
    unfolding relative_to_workspace_def Let_def full by (auto split: if_splits option.splits)
  from join_canonical[OF assms(1) p(1)] assms(2) p(2) obtain ns
    where ns: "list_all wf_name ns" "stripped = map Normal ns"
    by (rule canonical_strip)
  from ns p(3) have "rel = join_with [SLASH] ns"
    using relative_loop_display display_names[OF ns(1)] by (auto simp: display_path_def)
  with ns(1) have "components rel = map Normal ns" by (simp add: components_join)
  with ns p show "plain_path rel"
    and "normal_loop (path_join toplevel path) [] = Some (workspace_root @ components rel)"
    by (auto simp: plain_path_def)
qed

section \<open>The counters\<close>

definition is_staged :: "WorkspaceStatusEntry \<Rightarrow> bool" where
  "is_staged e = (se_kind e \<in> {Ordinary, Renamed} \<and> index_status e \<noteq> Some ''.'')"

definition is_unstaged :: "WorkspaceStatusEntry \<Rightarrow> bool" where
  "is_unstaged e = (se_kind e \<in> {Ordinary, Renamed} \<and> worktree_status e \<noteq> Some ''.'')"

abbreviation count_of :: "('a \<Rightarrow> bool) \<Rightarrow> 'a list \<Rightarrow> nat" where
  "count_of P xs \<equiv> length (filter P xs)"

definition entry_inside :: "WorkspaceStatusEntry \<Rightarrow> bool" where
  "entry_inside e = (plain_path (se_path e) \<and> (\<forall>p. original_path e = Some p \<longrightarrow> plain_path p))"

definition counts_ok :: "nat \<Rightarrow> Observation \<Rightarrow> bool" where
  "counts_ok cap ob =
     (ob_records ob = length (ob_entries ob) \<and> ob_records ob \<le> cap
      \<and> staged ob = count_of is_staged (ob_entries ob)
      \<and> unstaged ob = count_of is_unstaged (ob_entries ob)
      \<and> untracked ob = count_of (\<lambda>e. se_kind e = Untracked) (ob_entries ob)
      \<and> conflicted ob = count_of (\<lambda>e. se_kind e = Unmerged) (ob_entries ob))"

text \<open>The counters and entries are all an operation may leave alone or extend.\<close>

definition same_entries :: "Observation \<Rightarrow> Observation \<Rightarrow> bool" where
  "same_entries a b =
     (ob_records b = ob_records a \<and> ob_entries b = ob_entries a \<and> staged b = staged a
      \<and> unstaged b = unstaged a \<and> untracked b = untracked a \<and> conflicted b = conflicted a)"

definition adds :: "(WorkspaceStatusEntry \<Rightarrow> bool) \<Rightarrow> Observation \<Rightarrow> Observation \<Rightarrow> bool" where
  "adds good a b =
     (same_entries a b \<or> (\<exists>e. good e \<and> ob_entries b = ob_entries a @ [e] \<and> ob_records b = ob_records a + 1
      \<and> staged b = staged a + of_bool (is_staged e)
      \<and> unstaged b = unstaged a + of_bool (is_unstaged e)
      \<and> untracked b = untracked a + of_bool (se_kind e = Untracked)
      \<and> conflicted b = conflicted a + of_bool (se_kind e = Unmerged)))"

lemma same_adds: "same_entries a b \<Longrightarrow> adds good a b"
  by (simp add: adds_def)

lemma same_refl [simp]: "same_entries a a"
  by (simp add: same_entries_def)

lemma note_malformed_same [simp]: "same_entries a (note_malformed a)"
  by (simp add: same_entries_def note_malformed_def)

lemma header_same: "same_entries a (header chunk a)"
  unfolding header_def Let_def
  by (auto simp: same_entries_def note_malformed_def split: option.splits prod.splits)

definition good_entry :: "Path \<Rightarrow> Path \<Rightarrow> WorkspaceStatusEntry \<Rightarrow> bool" where
  "good_entry toplevel workspace_root e =
     (\<exists>raw. relative_to_workspace raw toplevel workspace_root = Inside (se_path e)
      \<and> (\<forall>p. original_path e = Some p \<longrightarrow>
          (\<exists>old. relative_to_workspace old toplevel workspace_root = Inside p)))"

lemma map_entry_None:
  "map_entry path original toplevel workspace_root a = (None, b) \<Longrightarrow> same_entries a b"
  by (auto simp: map_entry_def same_entries_def split: Mapped.splits option.splits)

lemma map_entry_Some:
  "map_entry path original toplevel workspace_root a = (Some (p, q), b) \<Longrightarrow>
   same_entries a b \<and> relative_to_workspace path toplevel workspace_root = Inside p
   \<and> (\<forall>r. q = Some r \<longrightarrow> (\<exists>old. relative_to_workspace old toplevel workspace_root = Inside r))"
  by (auto simp: map_entry_def same_entries_def split: Mapped.splits option.splits)

lemmas record_defs = push_record_def note_record_def count_status_def Let_def is_staged_def
  is_unstaged_def good_entry_def adds_def same_entries_def

lemma push_counted:
  assumes "map_entry path original toplevel workspace_root a = (Some (p, q), b)"
    and "kind \<in> {Ordinary, Renamed}" and "r = None \<or> r = q"
  shows "adds (good_entry toplevel workspace_root) a
    (push_record kind (Some statuses) (p, r) (count_status (note_record b) statuses))"
proof -
  obtain x y where "statuses = (x, y)" by (cases statuses)
  with map_entry_Some[OF assms(1)] assms(2,3) show ?thesis
    by (cases "x = ''.''"; cases "y = ''.''") (auto simp: record_defs)
qed

lemma push_conflict:
  assumes "map_entry path None toplevel workspace_root a = (Some (p, q), b)"
  shows "adds (good_entry toplevel workspace_root) a
    (push_record Unmerged statuses (p, None) ((note_record b)\<lparr>conflicted := conflicted b + 1\<rparr>))"
  using map_entry_Some[OF assms] by (auto simp: record_defs)

lemma push_untracked:
  assumes "map_entry path None toplevel workspace_root a = (Some (p, q), b)"
  shows "adds (good_entry toplevel workspace_root) a
    (push_record Untracked None (p, None) ((note_record b)\<lparr>untracked := untracked b + 1\<rparr>))"
  using map_entry_Some[OF assms] by (auto simp: record_defs)

lemma observe_ordinary_adds:
  "adds (good_entry toplevel workspace_root) a (observe_ordinary toplevel workspace_root chunk a)"
  unfolding observe_ordinary_def
  by (auto split: option.split prod.split list.split intro: same_adds push_counted dest!: map_entry_None)

lemma observe_renamed_adds:
  "adds (good_entry toplevel workspace_root) a (observe_renamed toplevel workspace_root chunk orig a)"
  unfolding observe_renamed_def
  by (auto split: option.split prod.split list.split intro: same_adds push_counted dest!: map_entry_None)

lemma observe_unmerged_adds:
  "adds (good_entry toplevel workspace_root) a (observe_unmerged toplevel workspace_root chunk a)"
  unfolding observe_unmerged_def
  by (auto split: option.split prod.split list.split intro: same_adds push_conflict[simplified] dest!: map_entry_None)

lemma observe_untracked_adds:
  "adds (good_entry toplevel workspace_root) a (observe_untracked toplevel workspace_root chunk a)"
  unfolding observe_untracked_def
  by (auto split: option.split prod.split list.split intro: same_adds push_untracked[simplified] dest!: map_entry_None)

lemmas record_adds = observe_ordinary_adds observe_renamed_adds observe_unmerged_adds
  observe_untracked_adds same_adds[OF header_same] same_adds[OF note_malformed_same] same_adds[OF same_refl]

lemma adds_prefix: "adds good a b \<Longrightarrow> prefix (ob_entries a) (ob_entries b)"
  by (auto simp: adds_def same_entries_def)

lemma adds_counts: "adds good a b \<Longrightarrow> counts_ok cap a \<Longrightarrow> ob_records a < cap \<Longrightarrow> counts_ok cap b"
  by (auto simp: adds_def same_entries_def counts_ok_def)

lemma adds_good: "adds good a b \<Longrightarrow> list_all good (ob_entries a) \<Longrightarrow> list_all good (ob_entries b)"
  by (auto simp: adds_def same_entries_def)

text \<open>The rounds of the loop: a record that stands alone, and a rename with the chunk after it.\<close>

definition observe_single :: "Path \<Rightarrow> Path \<Rightarrow> string \<Rightarrow> Observation \<Rightarrow> Observation" where
  "observe_single toplevel workspace_root chunk a =
     (if hd chunk = CHR ''#'' then header chunk a
      else if hd chunk = CHR ''1'' then observe_ordinary toplevel workspace_root chunk a
      else if hd chunk = CHR ''u'' then observe_unmerged toplevel workspace_root chunk a
      else if hd chunk = CHR ''?'' then observe_untracked toplevel workspace_root chunk a
      else if hd chunk = CHR ''!'' then a
      else note_malformed a)"

lemma observe_single_adds: "adds (good_entry toplevel workspace_root) a (observe_single toplevel workspace_root chunk a)"
  by (simp add: observe_single_def record_adds)

lemma loop_empty:
  "observe_loop toplevel workspace_root cap ([] # chunks) a = observe_loop toplevel workspace_root cap chunks a"
  by simp

lemma loop_cut:
  "chunk \<noteq> [] \<Longrightarrow> cap \<le> ob_records a
   \<Longrightarrow> observe_loop toplevel workspace_root cap (chunk # chunks) a = a\<lparr>ob_truncated := True\<rparr>"
  by simp

lemma loop_single:
  "chunk \<noteq> [] \<Longrightarrow> \<not> cap \<le> ob_records a \<Longrightarrow> hd chunk \<noteq> CHR ''2''
   \<Longrightarrow> observe_loop toplevel workspace_root cap (chunk # chunks) a
     = observe_loop toplevel workspace_root cap chunks (observe_single toplevel workspace_root chunk a)"
  by (simp add: observe_single_def)

lemma loop_renamed:
  "chunk \<noteq> [] \<Longrightarrow> \<not> cap \<le> ob_records a \<Longrightarrow> hd chunk = CHR ''2''
   \<Longrightarrow> observe_loop toplevel workspace_root cap (chunk # chunks) a
     = observe_loop toplevel workspace_root cap (drop 1 chunks)
         (observe_renamed toplevel workspace_root chunk (if chunks = [] then None else Some (hd chunks)) a)"
  by (cases chunks) simp_all

lemmas loop_rounds = loop_empty loop_cut loop_single loop_renamed

declare observe_loop.simps(2) [simp del]

lemma observe_loop_rule:
  assumes step: "\<And>a b. P a \<Longrightarrow> ob_records a < cap \<Longrightarrow> adds (good_entry toplevel workspace_root) a b \<Longrightarrow> P b"
    and cut: "\<And>a. P a \<Longrightarrow> P (a\<lparr>ob_truncated := True\<rparr>)"
    and "P a"
  shows "P (observe_loop toplevel workspace_root cap chunks a)"
  using \<open>P a\<close>
proof (induction "length chunks" arbitrary: chunks a rule: less_induct)
  case less
  show ?case
  proof (cases chunks)
    case (Cons chunk cs)
    have ih: "P (observe_loop toplevel workspace_root cap rest b)" if "length rest \<le> length cs" "P b" for rest b
      using less.hyps[of rest b] that Cons by simp
    consider "chunk = []" | "chunk \<noteq> []" "cap \<le> ob_records a"
      | "chunk \<noteq> []" "\<not> cap \<le> ob_records a" "hd chunk = CHR ''2''"
      | "chunk \<noteq> []" "\<not> cap \<le> ob_records a" "hd chunk \<noteq> CHR ''2''" by blast
    then show ?thesis
      unfolding Cons using less.prems
      by cases (auto simp: loop_rounds not_le intro!: ih cut
          step[OF _ _ observe_single_adds] step[OF _ _ observe_renamed_adds])
  qed (use less.prems in simp)
qed

lemma observe_loop_counts:
  "counts_ok cap a \<Longrightarrow> counts_ok cap (observe_loop toplevel workspace_root cap chunks a)"
  by (rule observe_loop_rule) (erule (2) adds_counts[rotated], simp add: counts_ok_def)

lemma observe_loop_good:
  "list_all (good_entry toplevel workspace_root) (ob_entries a) \<Longrightarrow>
   list_all (good_entry toplevel workspace_root) (ob_entries (observe_loop toplevel workspace_root cap chunks a))"
  by (rule observe_loop_rule[where P = "\<lambda>a. list_all (good_entry toplevel workspace_root) (ob_entries a)"])
    (auto dest: adds_good)

lemma observe_loop_extends:
  "prefix (ob_entries a) (ob_entries (observe_loop toplevel workspace_root cap chunks a))"
  by (rule observe_loop_rule[where P = "\<lambda>b. prefix (ob_entries a) (ob_entries b)"])
    (auto dest: adds_prefix intro: prefix_order.trans)

lemma observe_counts: "counts_ok cap (observe_porcelain stdout toplevel workspace_root cap)"
  unfolding observe_porcelain_def
  by (rule observe_loop_counts) (simp add: counts_ok_def observation_default_def)

lemma good_entry_inside:
  "canonical_path toplevel \<Longrightarrow> canonical_path workspace_root \<Longrightarrow> good_entry toplevel workspace_root e \<Longrightarrow> entry_inside e"
  by (auto simp: good_entry_def entry_inside_def dest: relative_inside)

lemma observe_inside:
  assumes "canonical_path toplevel" "canonical_path workspace_root"
  shows "list_all entry_inside (ob_entries (observe_porcelain stdout toplevel workspace_root cap))"
proof -
  have "list_all (good_entry toplevel workspace_root) (ob_entries (observe_porcelain stdout toplevel workspace_root cap))"
    unfolding observe_porcelain_def by (rule observe_loop_good) (simp add: observation_default_def)
  then show ?thesis by (rule list.pred_mono_strong) (rule good_entry_inside[OF assms])
qed

section \<open>A stream that was cut\<close>

lemma renamed_half: "ob_entries (observe_renamed toplevel workspace_root chunk (Some []) a) = ob_entries a"
  by (simp add: observe_renamed_def note_malformed_def split: option.split)

lemma observe_loop_cut:
  assumes "ds \<noteq> []"
  shows "prefix (ob_entries (observe_loop toplevel workspace_root cap (cs @ [[]]) a))
    (ob_entries (observe_loop toplevel workspace_root cap (cs @ ds) a))"
proof (induction "length cs" arbitrary: cs a rule: less_induct)
  case less
  show ?case
  proof (cases cs)
    case Nil
    then show ?thesis by (simp add: loop_empty observe_loop_extends)
  next
    case (Cons chunk cs')
    consider "chunk = [] \<or> cap \<le> ob_records a"
      | "chunk \<noteq> []" "\<not> cap \<le> ob_records a" "hd chunk \<noteq> CHR ''2''"
      | "chunk \<noteq> []" "\<not> cap \<le> ob_records a" "hd chunk = CHR ''2''" "cs' = []"
      | "chunk \<noteq> []" "\<not> cap \<le> ob_records a" "hd chunk = CHR ''2''" "cs' \<noteq> []" by blast
    then show ?thesis
    proof cases
      case 1
      then show ?thesis
        using less.hyps[of cs' a] Cons by (cases "chunk = []") (simp_all add: loop_rounds)
    next
      case 2
      then show ?thesis using less.hyps[of cs'] Cons by (simp add: loop_single)
    next
      case 3
      have "prefix (ob_entries a) (ob_entries (observe_loop toplevel workspace_root cap (chunk # ds) a))"
        by (rule observe_loop_extends)
      with 3 Cons show ?thesis by (simp add: loop_renamed[of _ _ _ _ _ "[[]]"] renamed_half)
    next
      case 4
      then obtain original rest where "cs' = original # rest" by (cases cs') auto
      with 4 show ?thesis using less.hyps[of rest] Cons by (simp add: loop_renamed)
    qed
  qed
qed

lemma split_on_append: "split_on c (w @ c # v) = split_on c w @ split_on c v"
  by (induction w) (auto split: list.splits)

lemma whole_records_snoc: "whole_records (w @ CHR 0x00 # y) = w @ CHR 0x00 # whole_records y"
  by (simp add: whole_records_def dropWhile_append)

lemma whole_records_cases:
  obtains "whole_records s = []" | w t where "s = w @ CHR 0x00 # t" and "whole_records s = w @ [CHR 0x00]"
proof (cases "CHR 0x00 \<in> set s")
  case True
  then obtain w t where "s = w @ CHR 0x00 # t" "CHR 0x00 \<notin> set t" by (metis split_list_last)
  moreover from this have "whole_records t = []" by (auto simp: whole_records_def dropWhile_eq_Nil_conv)
  ultimately show ?thesis by (intro that(2)) (auto simp: whole_records_snoc)
qed (auto simp: whole_records_def dropWhile_eq_Nil_conv intro: that(1))

lemma observe_cut:
  "prefix (ob_entries (observe_porcelain (take n stdout) toplevel workspace_root cap))
     (ob_entries (observe_porcelain stdout toplevel workspace_root cap))"
proof (rule whole_records_cases[of "take n stdout"])
  assume "whole_records (take n stdout) = []"
  then show ?thesis
    by (simp add: observe_porcelain_def loop_empty observe_loop_extends)
next
  fix w t
  assume take: "take n stdout = w @ CHR 0x00 # t" and whole: "whole_records (take n stdout) = w @ [CHR 0x00]"
  have "stdout = w @ CHR 0x00 # t @ drop n stdout"
    using append_take_drop_id[of n stdout] unfolding take by simp
  then have "whole_records stdout = w @ CHR 0x00 # whole_records (t @ drop n stdout)"
    by (metis whole_records_snoc)
  with whole observe_loop_cut show ?thesis
    by (simp add: observe_porcelain_def split_on_append)
qed

section \<open>Every printed record\<close>

text \<open>
  A reading of the porcelain stream that is independent of the parser's state: the NUL-terminated records
  git printed, a rename together with the path after it, and what each of them says.
\<close>

datatype Printed =
  PrintedHeader
| PrintedIgnored
| PrintedChange WorkspaceStatusEntryKind "string \<times> string" string "string option"
| PrintedUntracked string
| PrintedUnreadable

fun printed_records :: "string list \<Rightarrow> (string \<times> string option) list" where
  "printed_records [] = []"
| "printed_records (chunk # chunks) =
     (if chunk = [] then printed_records chunks
      else if hd chunk = CHR ''2''
      then (case chunks of [] \<Rightarrow> [(chunk, None)] | original # rest \<Rightarrow> (chunk, Some original) # printed_records rest)
      else (chunk, None) # printed_records chunks)"

definition read_change ::
  "WorkspaceStatusEntryKind \<Rightarrow> nat \<Rightarrow> string \<Rightarrow> string option \<Rightarrow> Printed" where
  "read_change kind n chunk original =
     (case split_fields chunk n of
        None \<Rightarrow> PrintedUnreadable
      | Some fs \<Rightarrow>
          (case xy_codes (fs ! 1) of
             None \<Rightarrow> PrintedUnreadable
           | Some xy \<Rightarrow> PrintedChange kind xy (fs ! (n - 1)) original))"

definition read_record :: "string \<times> string option \<Rightarrow> Printed" where
  "read_record x =
     (let chunk = fst x; original = snd x; c = hd chunk in
      if c = CHR ''#'' then PrintedHeader
      else if c = CHR ''!'' then PrintedIgnored
      else if c = CHR ''1'' then read_change Ordinary 9 chunk None
      else if c = CHR ''2'' then
        (if original = None \<or> original = Some [] then PrintedUnreadable else read_change Renamed 10 chunk original)
      else if c = CHR ''u'' then read_change Unmerged 11 chunk None
      else if c = CHR ''?'' then
        (case split_fields chunk 2 of None \<Rightarrow> PrintedUnreadable | Some fs \<Rightarrow> PrintedUntracked (fs ! 1))
      else PrintedUnreadable)"

definition printed :: "string \<Rightarrow> Printed list" where
  "printed stdout = map read_record (printed_records (split_on (CHR 0x00) (whole_records stdout)))"

fun printed_paths :: "Printed \<Rightarrow> string list" where
  "printed_paths (PrintedChange _ _ path original) = path # (case original of None \<Rightarrow> [] | Some o' \<Rightarrow> [o'])"
| "printed_paths (PrintedUntracked path) = [path]"
| "printed_paths _ = []"

text \<open>The entry of a record whose path lies in the workspace; a previous path outside it is not shown.\<close>

fun entry_of :: "Path \<Rightarrow> Path \<Rightarrow> Printed \<Rightarrow> WorkspaceStatusEntry option" where
  "entry_of toplevel workspace_root (PrintedChange kind xy path original) =
     (case relative_to_workspace path toplevel workspace_root of
        Inside p \<Rightarrow> Some \<lparr>se_path = p, se_kind = kind, index_status = Some (fst xy), worktree_status = Some (snd xy),
          original_path = (case original of None \<Rightarrow> None
            | Some o' \<Rightarrow> (case relative_to_workspace o' toplevel workspace_root of Inside q \<Rightarrow> Some q | _ \<Rightarrow> None))\<rparr>
      | _ \<Rightarrow> None)"
| "entry_of toplevel workspace_root (PrintedUntracked path) =
     (case relative_to_workspace path toplevel workspace_root of
        Inside p \<Rightarrow> Some \<lparr>se_path = p, se_kind = Untracked, index_status = None, worktree_status = None,
          original_path = None\<rparr>
      | _ \<Rightarrow> None)"
| "entry_of toplevel workspace_root _ = None"

definition observe_record :: "Path \<Rightarrow> Path \<Rightarrow> string \<times> string option \<Rightarrow> Observation \<Rightarrow> Observation" where
  "observe_record toplevel workspace_root x a =
     (if hd (fst x) = CHR ''2'' then observe_renamed toplevel workspace_root (fst x) (snd x) a
      else observe_single toplevel workspace_root (fst x) a)"

text \<open>
  A record never hides a fault of an earlier one; when it has none itself its entry is added, and
  its own path lies inside or outside the workspace.
\<close>

definition path_mapped :: "Path \<Rightarrow> Path \<Rightarrow> Printed \<Rightarrow> bool" where
  "path_mapped toplevel workspace_root p =
     (p \<noteq> PrintedUnreadable
      \<and> (printed_paths p \<noteq> [] \<longrightarrow> relative_to_workspace (hd (printed_paths p)) toplevel workspace_root \<noteq> Skipped))"

definition reports :: "Path \<Rightarrow> Path \<Rightarrow> Printed list \<Rightarrow> Observation \<Rightarrow> Observation \<Rightarrow> bool" where
  "reports toplevel workspace_root ps a b =
     (malformed a \<le> malformed b \<and> skipped_paths a \<le> skipped_paths b \<and> (ob_truncated a \<longrightarrow> ob_truncated b)
      \<and> (malformed b = 0 \<and> skipped_paths b = 0 \<and> \<not> ob_truncated b \<longrightarrow>
          ob_entries b = ob_entries a @ List.map_filter (entry_of toplevel workspace_root) ps
          \<and> list_all (path_mapped toplevel workspace_root) ps))"

lemma reports_refl [simp]: "reports toplevel workspace_root [] a a"
  by (simp add: reports_def map_filter_simps)

lemma reports_Cons:
  assumes "reports toplevel workspace_root [p] a b" "reports toplevel workspace_root ps b c"
  shows "reports toplevel workspace_root (p # ps) a c"
  using assms by (auto simp: reports_def map_filter_simps split: option.splits)

lemma malformed_reports: "reports toplevel workspace_root [p] a (note_malformed a)"
  by (simp add: reports_def note_malformed_def)

lemma header_reports: "reports toplevel workspace_root [PrintedHeader] a (header chunk a)"
proof -
  have "malformed a \<le> malformed (header chunk a) \<and> skipped_paths (header chunk a) = skipped_paths a
      \<and> ob_truncated (header chunk a) = ob_truncated a"
    unfolding header_def Let_def note_malformed_def by (auto split: option.split)
  with header_same[of a chunk] show ?thesis by (simp add: reports_def same_entries_def map_filter_simps path_mapped_def)
qed

lemma map_entry_effect:
  assumes "map_entry path original toplevel workspace_root a = (res, b)"
  shows "malformed b = malformed a \<and> ob_truncated b = ob_truncated a \<and> ob_entries b = ob_entries a
    \<and> skipped_paths a \<le> skipped_paths b
    \<and> (skipped_paths b = 0 \<longrightarrow> relative_to_workspace path toplevel workspace_root \<noteq> Skipped
      \<and> res = (case relative_to_workspace path toplevel workspace_root of
          Inside p \<Rightarrow> Some (p, case original of None \<Rightarrow> None
            | Some o' \<Rightarrow> (case relative_to_workspace o' toplevel workspace_root of Inside q \<Rightarrow> Some q | _ \<Rightarrow> None))
        | _ \<Rightarrow> None))"
  using assms by (auto simp: map_entry_def split: Mapped.splits option.splits)

lemma push_effect [simp]:
  "malformed (push_record kind st paths a) = malformed a" "skipped_paths (push_record kind st paths a) = skipped_paths a"
  "ob_truncated (push_record kind st paths a) = ob_truncated a"
  "malformed (count_status a xy) = malformed a" "skipped_paths (count_status a xy) = skipped_paths a"
  "ob_truncated (count_status a xy) = ob_truncated a" "ob_entries (count_status a xy) = ob_entries a"
  "malformed (note_record a) = malformed a" "skipped_paths (note_record a) = skipped_paths a"
  "ob_truncated (note_record a) = ob_truncated a" "ob_entries (note_record a) = ob_entries a"
  "ob_entries (push_record kind st paths a) = ob_entries a @ [\<lparr>se_path = fst paths, se_kind = kind,
     index_status = map_option fst st, worktree_status = map_option snd st, original_path = snd paths\<rparr>]"
  by (simp_all add: push_record_def count_status_def note_record_def Let_def)

lemma ordinary_reports:
  "reports toplevel workspace_root [read_change Ordinary 9 chunk None] a (observe_ordinary toplevel workspace_root chunk a)"
  by (auto simp: observe_ordinary_def read_change_def note_malformed_def reports_def map_filter_simps path_mapped_def
      dest!: map_entry_effect split: option.split prod.split Mapped.splits)

lemma unmerged_reports:
  "reports toplevel workspace_root [read_change Unmerged 11 chunk None] a (observe_unmerged toplevel workspace_root chunk a)"
  by (auto simp: observe_unmerged_def read_change_def note_malformed_def reports_def map_filter_simps path_mapped_def
      dest!: map_entry_effect split: option.split prod.split Mapped.splits)


lemma untracked_reports:
  "reports toplevel workspace_root
     [case split_fields chunk 2 of None \<Rightarrow> PrintedUnreadable | Some fs \<Rightarrow> PrintedUntracked (fs ! 1)] a
     (observe_untracked toplevel workspace_root chunk a)"
  by (auto simp: observe_untracked_def note_malformed_def reports_def map_filter_simps path_mapped_def
      dest!: map_entry_effect split: option.split prod.split Mapped.splits)

lemma renamed_reports:
  assumes "original \<noteq> None" "original \<noteq> Some []"
  shows "reports toplevel workspace_root [read_change Renamed 10 chunk original] a
    (observe_renamed toplevel workspace_root chunk original a)"
proof -
  from assms obtain c cs where "original = Some (c # cs)" by (cases original; cases "the original") auto
  then show ?thesis
    by (auto simp: observe_renamed_def read_change_def note_malformed_def reports_def map_filter_simps path_mapped_def
      dest!: map_entry_effect split: option.split prod.split Mapped.splits)
qed

lemma renamed_unpaired:
  assumes "original = None \<or> original = Some []"
  shows "reports toplevel workspace_root [PrintedUnreadable] a (observe_renamed toplevel workspace_root chunk original a)"
proof -
  have "observe_renamed toplevel workspace_root chunk original a = note_malformed a"
    using assms by (auto simp: observe_renamed_def split: option.split)
  then show ?thesis by (simp add: malformed_reports)
qed

lemma record_reports:
  "reports toplevel workspace_root [read_record x] a (observe_record toplevel workspace_root x a)"
proof -
  have ignored: "reports toplevel workspace_root [PrintedIgnored] a a"
    by (simp add: reports_def map_filter_simps path_mapped_def)
  show ?thesis
    using renamed_reports[of "snd x"] renamed_unpaired[of "snd x"]
    by (auto simp: read_record_def observe_record_def observe_single_def Let_def ignored malformed_reports header_reports
        ordinary_reports unmerged_reports untracked_reports)
qed

lemma observe_loop_reports:
  "reports toplevel workspace_root (map read_record (printed_records chunks)) a
     (observe_loop toplevel workspace_root cap chunks a)"
proof (induction "length chunks" arbitrary: chunks a rule: less_induct)
  case less
  show ?case
  proof (cases chunks)
    case (Cons chunk cs)
    have ih: "reports toplevel workspace_root (map read_record (printed_records rest)) b
        (observe_loop toplevel workspace_root cap rest b)" if "length rest \<le> length cs" for rest b
      using less.hyps[of rest b] that Cons by simp
    note step = reports_Cons[OF record_reports ih]
    consider (empty) "chunk = []" | (full) "chunk \<noteq> []" "cap \<le> ob_records a"
      | (renamed) "chunk \<noteq> []" "\<not> cap \<le> ob_records a" "hd chunk = CHR ''2''"
      | (single) "chunk \<noteq> []" "\<not> cap \<le> ob_records a" "hd chunk \<noteq> CHR ''2''" by blast
    then show ?thesis
    proof cases
      case empty
      with ih[of cs a] Cons show ?thesis by (simp add: loop_empty)
    next
      case full
      then show ?thesis using Cons by (simp add: loop_cut reports_def)
    next
      case renamed
      with step[of "drop 1 cs" "(chunk, if cs = [] then None else Some (hd cs))" a] Cons show ?thesis
        by (cases cs) (simp_all add: loop_renamed observe_record_def)
    next
      case single
      with step[of cs "(chunk, None)" a] Cons show ?thesis by (simp add: loop_single observe_record_def)
    qed
  qed simp
qed

lemma observe_porcelain_reports:
  assumes "malformed (observe_porcelain stdout toplevel workspace_root cap) = 0"
    "skipped_paths (observe_porcelain stdout toplevel workspace_root cap) = 0"
    "\<not> ob_truncated (observe_porcelain stdout toplevel workspace_root cap)"
  shows "ob_entries (observe_porcelain stdout toplevel workspace_root cap)
      = List.map_filter (entry_of toplevel workspace_root) (printed stdout)
    \<and> list_all (path_mapped toplevel workspace_root) (printed stdout)"
proof -
  have "ob_entries observation_default = []" by (simp add: observation_default_def)
  with observe_loop_reports[of toplevel workspace_root "split_on (CHR 0x00) (whole_records stdout)" observation_default cap]
    assms show ?thesis
    unfolding reports_def printed_def observe_porcelain_def by simp
qed

text \<open>What has no entry is a header, an ignored file or lies outside the workspace.\<close>

lemma left_out:
  assumes "path_mapped toplevel workspace_root p" "entry_of toplevel workspace_root p = None"
  shows "p \<in> {PrintedHeader, PrintedIgnored}
    \<or> printed_paths p \<noteq> [] \<and> relative_to_workspace (hd (printed_paths p)) toplevel workspace_root = Outside"
  using assms by (cases p) (auto simp: path_mapped_def split: Mapped.splits)

section \<open>Properties\<close>

lemma prefix_count: "prefix xs ys \<Longrightarrow> count_of P xs \<le> count_of P ys"
  by (auto simp: prefix_def)

text \<open>A status observation reports what its entries say: the record count and the staged, unstaged,
  untracked and conflicted counters are exactly the counts over the entries, there are at most as
  many as the cap allows, and every path and previous path is a relative path of plain names
  below the workspace.\<close>

theorem status_observation_counts:
  assumes "canonical_path toplevel" "canonical_path workspace_root"
    and "ob = observe_porcelain stdout toplevel workspace_root cap"
  shows "ob_records ob = length (ob_entries ob) \<and> length (ob_entries ob) \<le> cap
    \<and> staged ob = count_of is_staged (ob_entries ob)
    \<and> unstaged ob = count_of is_unstaged (ob_entries ob)
    \<and> untracked ob = count_of (\<lambda>e. se_kind e = Untracked) (ob_entries ob)
    \<and> conflicted ob = count_of (\<lambda>e. se_kind e = Unmerged) (ob_entries ob)
    \<and> list_all entry_inside (ob_entries ob)"
  using observe_counts[of cap stdout toplevel workspace_root] observe_inside[OF assms(1,2), of stdout cap]
  by (simp add: assms(3) counts_ok_def)

text \<open>The sample: a rename inside the workspace, a conflict above it, an untracked file.\<close>

definition sample_status :: string where
  "sample_status =
     ''2 R. N... 1 1 1 a b R100 w/new'' @ [CHR 0x00] @ ''w/sub/../old'' @ [CHR 0x00]
     @ ''u UU N... 1 1 1 1 a b c x'' @ [CHR 0x00] @ ''? w/f'' @ [CHR 0x00] @ ''? w/cut''"

theorem status_observation_counts_witness:
  "map se_path (ob_entries (observe_porcelain sample_status [RootDir, Normal ''t''] [RootDir, Normal ''t'', Normal ''w''] 5))
     = [''new'', ''f'']
   \<and> staged (observe_porcelain sample_status [RootDir, Normal ''t''] [RootDir, Normal ''t'', Normal ''w''] 5)
     = count_of is_staged (ob_entries (observe_porcelain sample_status [RootDir, Normal ''t''] [RootDir, Normal ''t'', Normal ''w''] 5))"
proof
  show "map se_path (ob_entries (observe_porcelain sample_status [RootDir, Normal ''t''] [RootDir, Normal ''t'', Normal ''w''] 5))
     = [''new'', ''f'']"
    by code_simp
  have "canonical_path [RootDir, Normal ''t'']" "canonical_path [RootDir, Normal ''t'', Normal ''w'']"
    by (auto simp: canonical_path_def wf_name_def intro: exI[of _ "[''t'']"] exI[of _ "[''t'', ''w'']"])
  from status_observation_counts[OF this refl]
  show "staged (observe_porcelain sample_status [RootDir, Normal ''t''] [RootDir, Normal ''t'', Normal ''w''] 5)
     = count_of is_staged (ob_entries (observe_porcelain sample_status [RootDir, Normal ''t''] [RootDir, Normal ''t'', Normal ''w''] 5))"
    by blast
qed

text \<open>C38: Output that was cut anywhere, in the middle of a path or between the two names of a rename,
  yields no entry that the whole output would not have: the entries are a prefix of those of the
  whole output, and no counter is larger.\<close>

theorem cut_stream_reports_prefix:
  "prefix (ob_entries (observe_porcelain (take n stdout) toplevel workspace_root cap))
     (ob_entries (observe_porcelain stdout toplevel workspace_root cap))
   \<and> staged (observe_porcelain (take n stdout) toplevel workspace_root cap) \<le> staged (observe_porcelain stdout toplevel workspace_root cap)
   \<and> unstaged (observe_porcelain (take n stdout) toplevel workspace_root cap) \<le> unstaged (observe_porcelain stdout toplevel workspace_root cap)
   \<and> untracked (observe_porcelain (take n stdout) toplevel workspace_root cap) \<le> untracked (observe_porcelain stdout toplevel workspace_root cap)
   \<and> conflicted (observe_porcelain (take n stdout) toplevel workspace_root cap) \<le> conflicted (observe_porcelain stdout toplevel workspace_root cap)"
  using observe_cut[of n stdout toplevel workspace_root cap]
    observe_counts[of cap stdout toplevel workspace_root]
    observe_counts[of cap "take n stdout" toplevel workspace_root]
  by (auto simp: counts_ok_def intro!: prefix_count)

lemma fill_entries_complete:
  "ws_complete (fill_entries enc max_bytes used es r) \<Longrightarrow>
   fill_entries enc max_bytes used es r = r\<lparr>ws_entries := ws_entries r @ es\<rparr>"
proof (induction es arbitrary: used r)
  case (Cons e es)
  from Cons.prems Cons.IH[of "used + (enc_entry enc e + 1)" "r\<lparr>ws_entries := ws_entries r @ [e]\<rparr>"] show ?case
    by (cases "max_bytes < used + enc_entry enc e + 1") (simp_all add: Let_def)
qed simp

lemma fill_entries_available: "repo_available (fill_entries enc max_bytes used es r) = repo_available r"
  by (induction enc max_bytes used es r rule: fill_entries.induct) (auto simp: Let_def)

lemma assemble_available [simp]: "repo_available (assemble enc av ob ws c max_bytes now) = av"
  by (simp add: assemble_def Let_def fill_entries_available)

definition base_result ::
  "bool \<Rightarrow> Observation \<Rightarrow> WorkspaceStatusWarning list \<Rightarrow> bool \<Rightarrow> nat \<Rightarrow> WorkspaceStatusResult" where
  "base_result av ob ws c now =
    \<lparr>repo_available = av, ws_head_oid = head_oid ob, ws_branch = branch ob,
      ws_detached = detached ob, ws_staged = staged ob, ws_unstaged = unstaged ob,
      ws_untracked = untracked ob, ws_conflicted = conflicted ob, ws_entries = [],
      ws_skipped_paths = skipped_paths ob, ws_complete = c, warnings = ws, observed_at_unix_ms = now\<rparr>"

lemma assemble_complete:
  assumes "ws_complete (assemble enc av ob ws c max_bytes now)"
  shows "c \<and> assemble enc av ob ws c max_bytes now = (base_result av ob ws c now)\<lparr>ws_entries := ob_entries ob\<rparr>"
proof -
  from assms obtain used where
    fill: "assemble enc av ob ws c max_bytes now
      = fill_entries enc max_bytes used (ob_entries ob) (base_result av ob ws c now)"
    unfolding assemble_def Let_def base_result_def[symmetric] by (simp split: if_splits)
  from fill_entries_complete[OF assms[unfolded fill]] have
    "assemble enc av ob ws c max_bytes now = (base_result av ob ws c now)\<lparr>ws_entries := ob_entries ob\<rparr>"
    by (simp add: fill base_result_def)
  with assms show ?thesis by (simp add: base_result_def)
qed

lemma status_result_complete:
  assumes "ws_complete (status_result enc out toplevel root cap ws max_bytes now)"
  defines "ob \<equiv> observe_porcelain (g_stdout out) toplevel root cap"
  shows "succeeded out \<and> \<not> g_truncated out \<and> \<not> timed_out out \<and> \<not> io_failed out \<and> \<not> spawn_failed out
    \<and> branch_headers_complete ob \<and> malformed ob = 0 \<and> skipped_paths ob = 0 \<and> \<not> ob_truncated ob
    \<and> status_result enc out toplevel root cap ws max_bytes now = assemble enc True ob ws True max_bytes now"
  using assms(1)
  by (auto simp: status_result_def Let_def ob_def[symmetric] quietly_failed_def split: if_splits
      dest!: assemble_complete)

lemma status_available:
  assumes "status_with_deadline enc git canonical_dir root cap max_bytes now = Inr r" and "repo_available r"
  obtains toplevel pathspec out ws where "git toplevel (STATUS_ARGS @ [pathspec]) = Inr out"
    and "workspace_pathspec root toplevel = Some pathspec" and "set ws \<subseteq> {NestedRepository}"
    and "r = status_result enc out toplevel root cap ws max_bytes now"
proof -
  from assms(1) obtain probe where
    p: "git root [''rev-parse'', ''--show-toplevel''] = Inr probe"
    unfolding status_with_deadline_def Let_def by (elim res_bind_InrE)
  show ?thesis
  proof (cases "failure_warning probe = None \<and> succeeded probe \<and> repository_root canonical_dir (g_stdout probe) \<noteq> None")
    case True
    then obtain toplevel where t: "repository_root canonical_dir (g_stdout probe) = Some toplevel" by auto
    with True p assms obtain pathspec where spec: "workspace_pathspec root toplevel = Some pathspec"
      by (cases "workspace_pathspec root toplevel") (auto simp: status_with_deadline_def Let_def)
    let ?ws = "if pathspec \<noteq> ''.'' then push_warning NestedRepository [] else []"
    have "set ?ws \<subseteq> {NestedRepository}" by (auto simp: push_warning_def)
    moreover from True p t assms spec obtain out where
      "git toplevel (STATUS_ARGS @ [pathspec]) = Inr out"
      "r = status_result enc out toplevel root cap ?ws max_bytes now"
      by (auto simp: status_with_deadline_def Let_def)
    ultimately show ?thesis using spec that by blast
  next
    case False
    with p assms have "\<not> repo_available r"
      by (cases "failure_warning probe"; cases "succeeded probe")
        (auto simp: status_with_deadline_def Let_def split: option.splits if_splits)
    with assms(2) show ?thesis by simp
  qed
qed

text \<open>C22: A status that claims to be complete for a repository accounts for every record that git printed and
  terminated: git succeeded, nothing was cut, timed out or skipped, every record could be read and both
  branch headers were seen. The entries are, in order and with their status codes and previous paths, those of exactly the
  changed, renamed, conflicted and untracked records whose path lies in the workspace; the only
  records without an entry are headers, ignored files and records whose path lies outside the workspace, and a previous
  path is left away only when it lies outside. The counters are those of the entries shown, and the only
  warning is that the workspace is part of a larger repository.\<close>

theorem complete_status_is_complete:
  assumes "status_with_deadline enc git canonical_dir root cap max_bytes now = Inr r"
    and "ws_complete r" and "repo_available r"
  shows "\<exists>toplevel pathspec out ob.
      git toplevel (STATUS_ARGS @ [pathspec]) = Inr out
    \<and> workspace_pathspec root toplevel = Some pathspec
    \<and> succeeded out \<and> \<not> g_truncated out \<and> \<not> timed_out out \<and> \<not> io_failed out
    \<and> ob = observe_porcelain (g_stdout out) toplevel root cap
    \<and> branch_headers_complete ob \<and> malformed ob = 0 \<and> skipped_paths ob = 0 \<and> \<not> ob_truncated ob
    \<and> ws_entries r = ob_entries ob
    \<and> ws_entries r = List.map_filter (entry_of toplevel root) (printed (g_stdout out))
    \<and> (\<forall>p\<in>set (printed (g_stdout out)). p \<noteq> PrintedUnreadable
        \<and> (entry_of toplevel root p = None \<longrightarrow> p \<in> {PrintedHeader, PrintedIgnored}
          \<or> printed_paths p \<noteq> [] \<and> relative_to_workspace (hd (printed_paths p)) toplevel root = Outside))
    \<and> ws_staged r = count_of is_staged (ws_entries r)
    \<and> ws_unstaged r = count_of is_unstaged (ws_entries r)
    \<and> ws_untracked r = count_of (\<lambda>e. se_kind e = Untracked) (ws_entries r)
    \<and> ws_conflicted r = count_of (\<lambda>e. se_kind e = Unmerged) (ws_entries r)
    \<and> ws_branch r = branch ob \<and> ws_head_oid r = head_oid ob \<and> ws_detached r = detached ob
    \<and> set (warnings r) \<subseteq> {NestedRepository}"
proof -
  from assms(1,3) obtain toplevel pathspec out ws where
    run: "git toplevel (STATUS_ARGS @ [pathspec]) = Inr out"
      "workspace_pathspec root toplevel = Some pathspec" "set ws \<subseteq> {NestedRepository}"
    and r: "r = status_result enc out toplevel root cap ws max_bytes now"
    by (rule status_available)
  define ob where "ob = observe_porcelain (g_stdout out) toplevel root cap"
  from status_result_complete[OF assms(2)[unfolded r]]
  have clean: "succeeded out" "\<not> g_truncated out" "\<not> timed_out out" "\<not> io_failed out"
      "branch_headers_complete ob" "malformed ob = 0" "skipped_paths ob = 0" "\<not> ob_truncated ob"
    and asm: "r = assemble enc True ob ws True max_bytes now"
    by (simp_all add: ob_def r)
  from assemble_complete[OF assms(2)[unfolded asm]] observe_counts[of cap "g_stdout out" toplevel root]
  have shown: "ws_entries r = ob_entries ob \<and> ws_staged r = count_of is_staged (ws_entries r)
    \<and> ws_unstaged r = count_of is_unstaged (ws_entries r)
    \<and> ws_untracked r = count_of (\<lambda>e. se_kind e = Untracked) (ws_entries r)
    \<and> ws_conflicted r = count_of (\<lambda>e. se_kind e = Unmerged) (ws_entries r)
    \<and> ws_branch r = branch ob \<and> ws_head_oid r = head_oid ob \<and> ws_detached r = detached ob
    \<and> warnings r = ws"
    by (simp add: asm counts_ok_def ob_def base_result_def)
  from observe_porcelain_reports[OF clean(6-8)[unfolded ob_def], folded ob_def] left_out[of toplevel root]
  have every: "ob_entries ob = List.map_filter (entry_of toplevel root) (printed (g_stdout out))"
    "\<forall>p\<in>set (printed (g_stdout out)). p \<noteq> PrintedUnreadable
        \<and> (entry_of toplevel root p = None \<longrightarrow> p \<in> {PrintedHeader, PrintedIgnored}
          \<or> printed_paths p \<noteq> [] \<and> relative_to_workspace (hd (printed_paths p)) toplevel root = Outside)"
    by (simp, unfold list_all_iff path_mapped_def, blast)
  show ?thesis
    by (rule exI[of _ toplevel], rule exI[of _ pathspec], rule exI[of _ out], rule exI[of _ ob])
      (intro conjI, (fact run clean ob_def every)+, (use run(3) shown every in simp)+)
qed

text \<open>
  A small encoder and a git that answers for a clean branch with an untracked file, one outside the workspace and
  an ignored one.
\<close>

definition sample_encoder :: status_encoder where
  "sample_encoder = \<lparr>enc_result = (\<lambda>r. 20), enc_entry = (\<lambda>e. length (se_path e) + 6)\<rparr>"

definition sample_output :: "string \<Rightarrow> GitOutput" where
  "sample_output text = \<lparr>g_stdout = text, exit_code = Some 0, spawn_failed = False, g_truncated = False,
     timed_out = False, io_failed = False\<rparr>"

definition sample_git :: "Path \<Rightarrow> string list \<Rightarrow> unit + GitOutput" where
  "sample_git dir args =
     (if args = [''rev-parse'', ''--show-toplevel''] then Inr (sample_output (''/t'' @ [LF]))
      else Inr (sample_output (''# branch.oid (initial)'' @ [CHR 0x00] @ ''# branch.head main''
        @ [CHR 0x00] @ ''? w/f'' @ [CHR 0x00] @ ''? z'' @ [CHR 0x00] @ ''! w/o'' @ [CHR 0x00])))"

theorem complete_status_is_complete_witness:
  "(case status_with_deadline sample_encoder sample_git (\<lambda>p. Some (components p))
      [RootDir, Normal ''t'', Normal ''w''] 5 40 7 of
     Inl _ \<Rightarrow> False
   | Inr r \<Rightarrow> ws_complete r \<and> repo_available r \<and> ws_branch r = Some ''main''
       \<and> map se_path (ws_entries r) = [''f''] \<and> set (warnings r) \<subseteq> {NestedRepository})"
proof -
  let ?run = "status_with_deadline sample_encoder sample_git (\<lambda>p. Some (components p))
      [RootDir, Normal ''t'', Normal ''w''] 5 40 7"
  have "case ?run of Inl _ \<Rightarrow> False
    | Inr r \<Rightarrow> ws_complete r \<and> repo_available r \<and> ws_branch r = Some ''main'' \<and> map se_path (ws_entries r) = [''f'']"
    by code_simp
  then obtain r where run: "?run = Inr r" and r: "ws_complete r" "repo_available r"
      "ws_branch r = Some ''main''" "map se_path (ws_entries r) = [''f'']"
    by (cases ?run) (simp_all only: sum.case)
  from complete_status_is_complete[OF run r(1,2)] have "set (warnings r) \<subseteq> {NestedRepository}" by blast
  with r show ?thesis unfolding run by simp
qed

end
