(* ===== verification/Tool_Record.thy ===== *)
theory Tool_Record
  imports Ids Workspace_Paths
begin

text \<open>
  The durable record of one tool call: \<^verbatim>\<open>store/tool_records/validate.rs\<close>, the types of
  \<^verbatim>\<open>store.rs\<close>, \<^verbatim>\<open>changes.rs\<close> and \<^verbatim>\<open>tool_data/types.rs\<close> it checks, the blobs of a snapshot
  (\<^verbatim>\<open>tool_data/record.rs\<close>) and their reading (\<^verbatim>\<open>store/tool_records/cold_read.rs\<close>). A record
  that passes the check can be read back without a panic and within its limits. The hash
  function is a parameter.
\<close>

section \<open>Data\<close>

datatype StoreError =
  InvalidRoot | InvalidRecord | UnsupportedFormat | SessionNotFound | SessionAlreadyExists | Corrupt
| RecordTooLarge | Unavailable | HistoryChanged | QueryLimit | StoreInvalidArguments

datatype ToolExecutionState =
  Requested | AwaitingPolicy | ToolRunning | ToolCancelling | ToolSucceeded | ToolFailed | ToolDenied
| ToolCancelled | ToolInputProvided

datatype ToolResultOutcome =
  OutcomeSuccess | OutcomeFailed | OutcomeDenied | OutcomeCancelled | OutcomeInputProvided

fun from_outcome :: "ToolResultOutcome \<Rightarrow> ToolExecutionState" where
  "from_outcome OutcomeSuccess = ToolSucceeded"
| "from_outcome OutcomeFailed = ToolFailed"
| "from_outcome OutcomeDenied = ToolDenied"
| "from_outcome OutcomeCancelled = ToolCancelled"
| "from_outcome OutcomeInputProvided = ToolInputProvided"

fun matches_outcome :: "ToolExecutionState \<Rightarrow> ToolResultOutcome \<Rightarrow> bool" where
  "matches_outcome s OutcomeSuccess = (s = ToolSucceeded)"
| "matches_outcome s OutcomeFailed = (s = ToolFailed)"
| "matches_outcome s OutcomeDenied = (s = ToolDenied)"
| "matches_outcome s OutcomeCancelled = (s = ToolCancelled)"
| "matches_outcome s OutcomeInputProvided = (s = ToolInputProvided)"

definition state_is_terminal :: "ToolExecutionState \<Rightarrow> bool" where
  "state_is_terminal s = (s \<in> {ToolSucceeded, ToolFailed, ToolDenied, ToolCancelled, ToolInputProvided})"

datatype CommandStatus =
  CmdRunning | CmdCancelling | CmdExited | CmdCancelled | CmdTimedOut | CmdSpawnFailed | CmdFailed

definition status_is_terminal :: "CommandStatus \<Rightarrow> bool" where
  "status_is_terminal s = (s \<notin> {CmdRunning, CmdCancelling})"

record CommandResult =
  cr_status :: CommandStatus
  cr_exit_code :: "int option"
  cr_signal :: "int option"
  termination_confirmed :: bool
  stdout_base_offset :: nat
  stdout_observed_end :: nat
  stderr_base_offset :: nat
  stderr_observed_end :: nat
  output_complete :: bool
  output_truncated :: bool

text \<open>The identity of a tool call; loop and call identifiers come from the runtime.\<close>

record ToolRef =
  tr_session :: "u8 list"
  tr_loop :: string
  tr_request :: nat
  tr_call :: string

datatype ToolSubject = FileSubject string | CommandSubject string string | OtherSubject

datatype ToolPhase = Reading | Writing | Matching | Committing | PhaseRunning

datatype ChangeKind = Added | Modified | Deleted | RenamedChange | ConflictChange | UnknownChange

datatype ChangeRevision =
  Missing | Content string nat | Metadata nat "nat option" | UnknownRevision

datatype ChangeCommitState = NotCommitted | Applied | CommitConflict | CommitUnknown

datatype ChangeCoverage = Complete | Partial | CoverageUnavailable

record StoredFileChange =
  fc_path :: string
  fc_kind :: ChangeKind
  fc_before :: ChangeRevision
  fc_after :: ChangeRevision
  fc_state :: ChangeCommitState
  fc_coverage :: ChangeCoverage
  before_captured :: bool
  after_captured :: bool

record StoredSummary =
  su_total :: nat
  su_seen :: bool
  su_truncated :: bool
  su_expired :: bool
  su_file_bytes :: nat
  su_sha256 :: "string option"

record StoredStreamWindow =
  sw_start :: nat
  sw_end :: nat
  sw_seen :: bool
  sw_complete :: bool
  sw_truncated :: bool
  sw_expired :: bool
  sw_file_bytes :: nat
  sw_sha256 :: "string option"

record StoredToolRecord =
  st_version :: nat
  st_ref :: ToolRef
  st_name :: string
  st_subject :: ToolSubject
  st_subject_truncated :: bool
  st_state :: ToolExecutionState
  st_phase :: "ToolPhase option"
  st_started_at :: "string option"
  st_finished_at :: "string option"
  st_outcome :: "ToolResultOutcome option"
  st_input :: StoredSummary
  st_result :: StoredSummary
  st_stdout :: StoredStreamWindow
  st_stderr :: StoredStreamWindow
  st_command :: "CommandResult option"
  st_file_change :: "StoredFileChange option"

section \<open>Limits and names\<close>

definition TOOL_RECORD_FORMAT_VERSION :: nat where
  "TOOL_RECORD_FORMAT_VERSION = 1"

definition MAX_TOOL_INPUT_PERSIST_BYTES :: nat where
  "MAX_TOOL_INPUT_PERSIST_BYTES = 64 * 1024"

definition MAX_TOOL_RESULT_PERSIST_BYTES :: nat where
  "MAX_TOOL_RESULT_PERSIST_BYTES = 256 * 1024"

definition MAX_TOOL_STREAM_BYTES :: nat where
  "MAX_TOOL_STREAM_BYTES = 1024 * 1024"

definition MAX_CHANGE_SNAPSHOT_BYTES :: nat where
  "MAX_CHANGE_SNAPSHOT_BYTES = 512 * 1024"

definition MAX_RECORD_BLOB_BYTES :: nat where
  "MAX_RECORD_BLOB_BYTES = 3 * 1024 * 1024"

definition KNOWN_TOOL_NAMES :: "string list" where
  "KNOWN_TOOL_NAMES = [''read'', ''write'', ''edit'', ''apply_patch'', ''bash'']"

definition LEGACY_STORED_TOOL_NAME :: string where
  "LEGACY_STORED_TOOL_NAME = ''subagent''"

abbreviation (input) TOOL_RECORD_FILE :: string where "TOOL_RECORD_FILE \<equiv> ''record.json''"
abbreviation (input) TOOL_INPUT_FILE :: string where "TOOL_INPUT_FILE \<equiv> ''input.bin''"
abbreviation (input) TOOL_RESULT_FILE :: string where "TOOL_RESULT_FILE \<equiv> ''result.bin''"
abbreviation (input) TOOL_STDOUT_FILE :: string where "TOOL_STDOUT_FILE \<equiv> ''stdout.bin''"
abbreviation (input) TOOL_STDERR_FILE :: string where "TOOL_STDERR_FILE \<equiv> ''stderr.bin''"
abbreviation (input) TOOL_BEFORE_FILE :: string where "TOOL_BEFORE_FILE \<equiv> ''before.bin''"
abbreviation (input) TOOL_AFTER_FILE :: string where "TOOL_AFTER_FILE \<equiv> ''after.bin''"

definition ALLOWED_AUX_FILES :: "string list" where
  "ALLOWED_AUX_FILES = [TOOL_RECORD_FILE, TOOL_INPUT_FILE, TOOL_RESULT_FILE, TOOL_STDOUT_FILE,
     TOOL_STDERR_FILE, TOOL_BEFORE_FILE, TOOL_AFTER_FILE]"

definition is_hexdigit :: "char \<Rightarrow> bool" where
  "is_hexdigit c = (byte_in 48 57 c \<or> byte_in 97 102 c \<or> byte_in 65 70 c)"

definition is_lower_hex :: "char \<Rightarrow> bool" where
  "is_lower_hex c = (byte_in 48 57 c \<or> byte_in 97 102 c)"

definition valid_sha256 :: "string \<Rightarrow> bool" where
  "valid_sha256 v = (length v = 64 \<and> list_all is_hexdigit v)"

definition valid_temp_suffix :: "string \<Rightarrow> bool" where
  "valid_temp_suffix sfx =
     (case split_once (CHR ''-'') sfx of
        None \<Rightarrow> False
      | Some (pid, id') \<Rightarrow>
          pid \<noteq> '''' \<and> list_all is_digit pid \<and> id' \<noteq> ''''
          \<and> (list_all is_digit id' \<or> (length id' = 32 \<and> list_all is_lower_hex id')))"

definition is_valid_temp_name :: "string \<Rightarrow> bool" where
  "is_valid_temp_name name =
     (if length name < 73 \<or> hd name \<noteq> CHR ''.'' then False
      else if \<not> list_all is_lower_hex (take 64 (drop 1 name)) then False
      else if take 5 (drop 65 name) \<noteq> ''.tmp-'' then False
      else valid_temp_suffix (drop 70 name))"

definition sat_add :: "nat \<Rightarrow> nat \<Rightarrow> nat" where
  "sat_add a b = min (a + b) (u64_bound - 1)"

section \<open>Validation\<close>

definition stored_blobs :: "StoredToolRecord \<Rightarrow> (string \<times> nat \<times> string option) list" where
  "stored_blobs s =
     [(TOOL_INPUT_FILE, su_file_bytes (st_input s), su_sha256 (st_input s)),
      (TOOL_RESULT_FILE, su_file_bytes (st_result s), su_sha256 (st_result s)),
      (TOOL_STDOUT_FILE, sw_file_bytes (st_stdout s), sw_sha256 (st_stdout s)),
      (TOOL_STDERR_FILE, sw_file_bytes (st_stderr s), sw_sha256 (st_stderr s))]"

definition validate_summary :: "StoredSummary \<Rightarrow> nat \<Rightarrow> StoreError + unit" where
  "validate_summary s cap =
     (if \<not> su_seen s \<and> (su_total s \<noteq> 0 \<or> su_file_bytes s \<noteq> 0 \<or> su_sha256 s \<noteq> None) then Inl Corrupt
      else if su_seen s \<and> su_total s < su_file_bytes s then Inl Corrupt
      else if su_seen s \<and> su_expired s \<and> (su_file_bytes s \<noteq> 0 \<or> su_sha256 s \<noteq> None) then Inl Corrupt
      else if cap < su_file_bytes s then Inl RecordTooLarge
      else Inr ())"

definition validate_stream :: "StoredStreamWindow \<Rightarrow> StoreError + unit" where
  "validate_stream s =
     (if sw_end s < sw_start s then Inl Corrupt
      else if \<not> sw_seen s
        \<and> (sw_start s \<noteq> 0 \<or> sw_end s \<noteq> 0 \<or> sw_file_bytes s \<noteq> 0 \<or> sw_sha256 s \<noteq> None) then Inl Corrupt
      else if sw_seen s \<and> sw_expired s
        \<and> (sw_start s \<noteq> sw_end s \<or> sw_file_bytes s \<noteq> 0 \<or> sw_sha256 s \<noteq> None) then Inl Corrupt
      else
        res_bind (if sw_seen s \<and> \<not> sw_expired s
          then res_bind (ok_or (checked_sub (sw_end s) (sw_start s)) Corrupt) (\<lambda>diff.
            if diff \<noteq> sw_file_bytes s then Inl Corrupt else Inr ())
          else Inr ()) (\<lambda>_.
        if MAX_TOOL_STREAM_BYTES < sw_file_bytes s then Inl RecordTooLarge else Inr ()))"

fun revision_bytes :: "ChangeRevision \<Rightarrow> nat" where
  "revision_bytes (Content _ b) = b"
| "revision_bytes _ = 0"

definition change_bytes :: "StoredToolRecord \<Rightarrow> nat" where
  "change_bytes s = (case st_file_change s of None \<Rightarrow> 0
     | Some c \<Rightarrow> sat_add (revision_bytes (fc_before c)) (revision_bytes (fc_after c)))"

definition total_file_bytes :: "StoredToolRecord \<Rightarrow> nat" where
  "total_file_bytes s =
     sat_add (sat_add (sat_add (sat_add (su_file_bytes (st_input s)) (su_file_bytes (st_result s)))
       (sw_file_bytes (st_stdout s))) (sw_file_bytes (st_stderr s))) (change_bytes s)"

definition blob_digest_ok :: "string \<times> nat \<times> string option \<Rightarrow> bool" where
  "blob_digest_ok blob =
     (case blob of (_, bytes, hash) \<Rightarrow>
        if bytes = 0 then hash = None
        else (case hash of None \<Rightarrow> False | Some h \<Rightarrow> valid_sha256 h))"

definition validate_content :: "bool \<Rightarrow> string \<Rightarrow> nat \<Rightarrow> StoreError + unit" where
  "validate_content captured sha bytes =
     (if \<not> captured \<or> MAX_CHANGE_SNAPSHOT_BYTES < bytes \<or> \<not> valid_sha256 sha then Inl Corrupt else Inr ())"

definition validate_stored_file_change :: "StoredFileChange \<Rightarrow> StoreError + unit" where
  "validate_stored_file_change c =
     res_bind (case validate_relative_path (fc_path c) of Inl _ \<Rightarrow> Inl Corrupt | Inr u \<Rightarrow> Inr u) (\<lambda>_.
     res_bind (case fc_before c of
         Missing \<Rightarrow> if \<not> before_captured c then Inl Corrupt else Inr ()
       | Content sha bytes \<Rightarrow> validate_content (before_captured c) sha bytes
       | _ \<Rightarrow> if before_captured c then Inl Corrupt else Inr ()) (\<lambda>_.
     res_bind (case fc_after c of
         Content sha bytes \<Rightarrow> validate_content (after_captured c) sha bytes
       | _ \<Rightarrow> if after_captured c then Inl Corrupt else Inr ()) (\<lambda>_.
     if fc_state c \<in> {Applied, CommitConflict}
       \<and> (case fc_after c of Content _ _ \<Rightarrow> False | _ \<Rightarrow> True) then Inl Corrupt
     else Inr ())))"

definition validate_command :: "StoredToolRecord \<Rightarrow> StoreError + unit" where
  "validate_command s =
     (case st_command s of
        None \<Rightarrow> Inr ()
      | Some cmd \<Rightarrow>
          if \<not> status_is_terminal (cr_status cmd) then Inl Corrupt
          else if stdout_base_offset cmd \<noteq> sw_start (st_stdout s)
            \<or> stdout_observed_end cmd \<noteq> sw_end (st_stdout s)
            \<or> stderr_base_offset cmd \<noteq> sw_start (st_stderr s)
            \<or> stderr_observed_end cmd \<noteq> sw_end (st_stderr s) then Inl Corrupt
          else Inr ())"

definition validate_stored_tool_record :: "StoredToolRecord \<Rightarrow> ToolRef \<Rightarrow> StoreError + unit" where
  "validate_stored_tool_record s ref =
     (if st_version s \<noteq> TOOL_RECORD_FORMAT_VERSION then Inl UnsupportedFormat
      else if st_ref s \<noteq> ref then Inl Corrupt
      else if st_name s \<notin> set KNOWN_TOOL_NAMES \<and> st_name s \<noteq> LEGACY_STORED_TOOL_NAME then Inl Corrupt
      else if \<not> state_is_terminal (st_state s) then Inl Corrupt
      else if (case st_outcome s of None \<Rightarrow> False | Some o' \<Rightarrow> \<not> matches_outcome (st_state s) o')
        then Inl Corrupt
      else
        res_bind (validate_summary (st_input s) MAX_TOOL_INPUT_PERSIST_BYTES) (\<lambda>_.
        res_bind (validate_summary (st_result s) MAX_TOOL_RESULT_PERSIST_BYTES) (\<lambda>_.
        res_bind (validate_stream (st_stdout s)) (\<lambda>_.
        res_bind (validate_stream (st_stderr s)) (\<lambda>_.
        if MAX_RECORD_BLOB_BYTES < total_file_bytes s then Inl RecordTooLarge
        else if \<not> list_all blob_digest_ok (stored_blobs s) then Inl Corrupt
        else res_bind (validate_command s) (\<lambda>_.
          case st_file_change s of None \<Rightarrow> Inr () | Some c \<Rightarrow> validate_stored_file_change c))))))"

section \<open>Snapshots and blobs\<close>

record ToolPersistenceSnapshot =
  sn_ref :: ToolRef
  sn_record :: StoredToolRecord
  sn_input :: "string option"
  sn_result :: "string option"
  sn_stdout :: "string option"
  sn_stderr :: "string option"
  sn_before :: "string option"
  sn_after :: "string option"

definition blobs :: "ToolPersistenceSnapshot \<Rightarrow> (string \<times> string option) list" where
  "blobs s = [(TOOL_INPUT_FILE, sn_input s), (TOOL_RESULT_FILE, sn_result s), (TOOL_STDOUT_FILE, sn_stdout s),
     (TOOL_STDERR_FILE, sn_stderr s), (TOOL_BEFORE_FILE, sn_before s), (TOOL_AFTER_FILE, sn_after s)]"

text \<open>
  \<open>file\<close> is what opening and reading the file gives, none on an I/O error; at most one byte more
  than expected is read. \<^term>\<open>None\<close> is the panic of the missing digest.
\<close>

definition read_blob ::
  "(string \<Rightarrow> string) \<Rightarrow> string option \<Rightarrow> nat \<Rightarrow> string option \<Rightarrow> (string option \<times> bool) option" where
  "read_blob hash_bytes file expected_bytes expected_sha256 =
     (if expected_bytes = 0 then Some (None, False)
      else case expected_sha256 of
        None \<Rightarrow> None
      | Some expected_hash \<Rightarrow>
          (case file of
             None \<Rightarrow> Some (None, True)
           | Some content \<Rightarrow>
               let bytes = take (sat_add expected_bytes 1) content in
               if length bytes \<noteq> expected_bytes then Some (None, True)
               else if hash_bytes bytes \<noteq> expected_hash then Some (None, True)
               else Some (Some bytes, False)))"

definition read_change_blob ::
  "(string \<Rightarrow> string) \<Rightarrow> string option \<Rightarrow> ChangeRevision \<Rightarrow> string option \<times> bool" where
  "read_change_blob hash_bytes file revision =
     (case revision of
        Content sha bytes \<Rightarrow>
          if MAX_CHANGE_SNAPSHOT_BYTES < bytes \<or> \<not> valid_sha256 sha then (None, True)
          else (case file of
             None \<Rightarrow> (None, True)
           | Some content \<Rightarrow>
               let v = take (sat_add bytes 1) content in
               if length v \<noteq> bytes \<or> hash_bytes v \<noteq> sha then (None, True) else (Some v, False))
      | _ \<Rightarrow> (None, False))"

section \<open>What a validated record promises\<close>

lemma validate_summary_ok:
  "validate_summary s cap = Inr () \<longleftrightarrow>
   su_file_bytes s \<le> cap \<and> su_file_bytes s \<le> su_total s
   \<and> ((\<not> su_seen s \<or> su_expired s) \<longrightarrow> su_file_bytes s = 0 \<and> su_sha256 s = None)
   \<and> (\<not> su_seen s \<longrightarrow> su_total s = 0)"
  by (auto simp: validate_summary_def)

lemma validate_stream_ok:
  "validate_stream s = Inr () \<longleftrightarrow>
   sw_start s \<le> sw_end s \<and> sw_file_bytes s = sw_end s - sw_start s \<and> sw_file_bytes s \<le> MAX_TOOL_STREAM_BYTES
   \<and> ((\<not> sw_seen s \<or> sw_expired s) \<longrightarrow> sw_file_bytes s = 0 \<and> sw_sha256 s = None)
   \<and> (\<not> sw_seen s \<longrightarrow> sw_end s = 0)"
  by (auto simp: validate_stream_def checked_sub_def res_bind_eq_Inr split: if_splits)

lemma sat_add_small: "sat_add a b \<le> n \<Longrightarrow> n < u64_bound - 1 \<Longrightarrow> sat_add a b = a + b"
  by (simp add: sat_add_def split: if_splits)

lemma blob_limit: "MAX_RECORD_BLOB_BYTES < u64_bound - 1"
  by (simp add: MAX_RECORD_BLOB_BYTES_def u64_bound_def)

lemma total_bytes_exact:
  assumes "total_file_bytes s \<le> MAX_RECORD_BLOB_BYTES"
  shows "su_file_bytes (st_input s) + su_file_bytes (st_result s) + sw_file_bytes (st_stdout s)
    + sw_file_bytes (st_stderr s) + (case st_file_change s of None \<Rightarrow> 0
        | Some c \<Rightarrow> revision_bytes (fc_before c) + revision_bytes (fc_after c)) \<le> MAX_RECORD_BLOB_BYTES"
  using assms blob_limit
  by (auto simp: total_file_bytes_def change_bytes_def sat_add_def min_def split: option.splits if_splits)

lemma validate_content_ok:
  "validate_content captured sha bytes = Inr () \<longleftrightarrow>
   captured \<and> bytes \<le> MAX_CHANGE_SNAPSHOT_BYTES \<and> valid_sha256 sha"
  by (auto simp: validate_content_def)

lemma validated_change_path:
  assumes "validate_stored_file_change c = Inr ()"
  shows "\<exists>names. names \<noteq> [] \<and> list_all wf_name names \<and> normalize_relative (fc_path c) False = Inr (map Normal names)"
proof -
  from assms obtain p where p: "normalize_relative (fc_path c) False = Inr p"
    by (auto simp: validate_stored_file_change_def validate_relative_path_def split: sum.splits)
  moreover from p have "p \<noteq> []" by (auto simp: normalize_relative_def split: if_splits)
  moreover from p obtain ns where "p = map Normal ns" "list_all wf_name ns" by (rule normalize_relative_names)
  ultimately show ?thesis by auto
qed

lemma validated_change_blobs:
  assumes "validate_stored_file_change c = Inr ()"
  shows "fc_before c = Content sha bytes \<Longrightarrow> bytes \<le> MAX_CHANGE_SNAPSHOT_BYTES \<and> valid_sha256 sha"
    and "fc_after c = Content sha bytes \<Longrightarrow> bytes \<le> MAX_CHANGE_SNAPSHOT_BYTES \<and> valid_sha256 sha"
  using assms by (auto simp: validate_stored_file_change_def validate_content_ok)

lemma validated_parts:
  assumes "validate_stored_tool_record s ref = Inr ()"
  shows "st_ref s = ref" "state_is_terminal (st_state s)"
    "validate_summary (st_input s) MAX_TOOL_INPUT_PERSIST_BYTES = Inr ()"
    "validate_summary (st_result s) MAX_TOOL_RESULT_PERSIST_BYTES = Inr ()"
    "validate_stream (st_stdout s) = Inr ()" "validate_stream (st_stderr s) = Inr ()"
    "total_file_bytes s \<le> MAX_RECORD_BLOB_BYTES" "list_all blob_digest_ok (stored_blobs s)"
    "\<And>c. st_file_change s = Some c \<Longrightarrow> validate_stored_file_change c = Inr ()"
  using assms by (auto simp: validate_stored_tool_record_def split: if_splits)

lemma read_blob_validated:
  assumes "blob_digest_ok (name, bytes, hash)"
  shows "\<exists>content bad. read_blob hash_bytes file bytes hash = Some (content, bad)
    \<and> (content = None \<or> bad = False \<and> (\<exists>b. content = Some b \<and> length b = bytes \<and> hash = Some (hash_bytes b)))"
  using assms by (auto simp: blob_digest_ok_def read_blob_def Let_def split: if_splits option.splits)

lemma read_change_blob_sound:
  "read_change_blob hash_bytes file revn = (Some b, bad) \<Longrightarrow> revn = Content (hash_bytes b) (length b) \<and> \<not> bad"
  by (auto simp: read_change_blob_def Let_def split: ChangeRevision.splits if_splits option.splits)

section \<open>Properties\<close>

text \<open>C40: A stored tool record that passes validation is well typed for every later read: it names its own
  call in a terminal state, its blobs and change snapshots together stay within three mebibytes
  without any saturation, both stream windows span exactly the retained bytes, every blob can be
  read from any file content without the missing-digest panic and what is read has the recorded
  length and digest, and a recorded file change names a plain relative path.\<close>

theorem validated_record_reads_safely:
  assumes "validate_stored_tool_record s ref = Inr ()"
  shows "st_ref s = ref \<and> state_is_terminal (st_state s)
    \<and> sum_list (map (\<lambda>(name, bytes, hash). bytes) (stored_blobs s))
        + (case st_file_change s of None \<Rightarrow> 0
           | Some c \<Rightarrow> revision_bytes (fc_before c) + revision_bytes (fc_after c)) \<le> 3 * 1024 * 1024
    \<and> (\<forall>w\<in>{st_stdout s, st_stderr s}. sw_start w \<le> sw_end w \<and> sw_file_bytes w = sw_end w - sw_start w
        \<and> sw_file_bytes w \<le> MAX_TOOL_STREAM_BYTES)
    \<and> (\<forall>(name, bytes, hash)\<in>set (stored_blobs s). \<forall>file. \<exists>content bad.
        read_blob hash_bytes file bytes hash = Some (content, bad)
        \<and> (\<forall>b. content = Some b \<longrightarrow> \<not> bad \<and> length b = bytes \<and> hash = Some (hash_bytes b)))
    \<and> (\<forall>c. st_file_change s = Some c \<longrightarrow>
        (\<exists>names. names \<noteq> [] \<and> list_all wf_name names
          \<and> normalize_relative (fc_path c) False = Inr (map Normal names)))"
proof -
  note ok = validated_parts[OF assms]
  have "\<exists>content bad. read_blob hash_bytes f bytes hash = Some (content, bad)
      \<and> (\<forall>b. content = Some b \<longrightarrow> \<not> bad \<and> length b = bytes \<and> hash = Some (hash_bytes b))"
    if "(name, bytes, hash) \<in> set (stored_blobs s)" for name bytes hash f
  proof -
    from ok(8) that have "blob_digest_ok (name, bytes, hash)" by (auto simp: list_all_iff)
    from read_blob_validated[OF this, of hash_bytes f] show ?thesis by auto
  qed
  then have reads: "\<forall>(name, bytes, hash)\<in>set (stored_blobs s). \<forall>file. \<exists>content bad.
        read_blob hash_bytes file bytes hash = Some (content, bad)
        \<and> (\<forall>b. content = Some b \<longrightarrow> \<not> bad \<and> length b = bytes \<and> hash = Some (hash_bytes b))"
    by blast
  have "sum_list (map (\<lambda>(name, bytes, hash). bytes) (stored_blobs s))
        + (case st_file_change s of None \<Rightarrow> 0
           | Some c \<Rightarrow> revision_bytes (fc_before c) + revision_bytes (fc_after c)) \<le> 3 * 1024 * 1024"
    using total_bytes_exact[OF ok(7)] by (simp add: stored_blobs_def MAX_RECORD_BLOB_BYTES_def add.assoc)
  with ok reads validated_change_path show ?thesis by (simp add: validate_stream_ok)
qed

definition sample_record :: StoredToolRecord where
  "sample_record = \<lparr>st_version = 1, st_ref = \<lparr>tr_session = [1], tr_loop = ''l'', tr_request = 0, tr_call = ''c''\<rparr>,
     st_name = ''bash'', st_subject = OtherSubject, st_subject_truncated = False, st_state = ToolSucceeded,
     st_phase = None, st_started_at = None, st_finished_at = None, st_outcome = Some OutcomeSuccess,
     st_input = \<lparr>su_total = 2, su_seen = True, su_truncated = False, su_expired = False, su_file_bytes = 2,
       su_sha256 = Some (replicate 64 (CHR ''a''))\<rparr>,
     st_result = \<lparr>su_total = 0, su_seen = False, su_truncated = False, su_expired = False, su_file_bytes = 0,
       su_sha256 = None\<rparr>,
     st_stdout = \<lparr>sw_start = 5, sw_end = 8, sw_seen = True, sw_complete = True, sw_truncated = True,
       sw_expired = False, sw_file_bytes = 3, sw_sha256 = Some (replicate 64 (CHR ''0''))\<rparr>,
     st_stderr = \<lparr>sw_start = 0, sw_end = 0, sw_seen = False, sw_complete = True, sw_truncated = False,
       sw_expired = False, sw_file_bytes = 0, sw_sha256 = None\<rparr>,
     st_command = None, st_file_change = None\<rparr>"

lemma sample_record_valid: "validate_stored_tool_record sample_record (st_ref sample_record) = Inr ()"
  by (simp add: validate_stored_tool_record_def sample_record_def validate_summary_def validate_stream_def
      TOOL_RECORD_FORMAT_VERSION_def KNOWN_TOOL_NAMES_def state_is_terminal_def checked_sub_def
      MAX_TOOL_INPUT_PERSIST_BYTES_def MAX_TOOL_RESULT_PERSIST_BYTES_def MAX_TOOL_STREAM_BYTES_def
      MAX_RECORD_BLOB_BYTES_def total_file_bytes_def change_bytes_def sat_add_def u64_bound_def
      blob_digest_ok_def stored_blobs_def valid_sha256_def is_hexdigit_def byte_in_def validate_command_def
      list_all_iff)

theorem validated_record_reads_safely_witness:
  "validate_stored_tool_record sample_record (st_ref sample_record) = Inr ()
   \<and> (\<exists>content bad. read_blob (\<lambda>_. replicate 64 (CHR ''0'')) (Some ''abc'') 3 (Some (replicate 64 (CHR ''0'')))
      = Some (content, bad))"
  using validated_record_reads_safely[OF sample_record_valid, of "\<lambda>_. replicate 64 (CHR ''0'')"]
    sample_record_valid
  by (fastforce simp: sample_record_def stored_blobs_def)

end
