(* ===== verification/Aux_Store.thy ===== *)
theory Aux_Store
  imports Tool_Record "HOL-Library.List_Lexorder" "HOL-Library.Char_ord" "HOL-Library.Product_Lexorder"
begin

text \<open>
  \<^verbatim>\<open>store/tool_records/ledger.rs\<close>, \<^verbatim>\<open>store/tool_records/commit.rs\<close> and \<^verbatim>\<open>Store::delete_session\<close>:
  the accounting of durable tool records. The ledger is built by a directory scan, charged when
  a record is committed, relieved when the oldest records are evicted, and dropped whenever the
  disk may no longer agree with it. All operations hold the auxiliary lock, so that each is one
  step.

  What the file system answers is a parameter: the listing a scan sees and the outcome of every
  call of a commit. The clock of a commit is the number of deadline checks that still succeed; as
  time only moves forward, a check that has failed keeps failing. A \<^verbatim>\<open>PathBuf\<close> is the list of its
  components below the sessions directory. Panics (failed unwraps, subtraction below zero,
  addition beyond 64 bits) are \<^term>\<open>None\<close>.
\<close>

section \<open>The ledger\<close>

type_synonym SessionId = "u8 list"
type_synonym DirPath = "string list"
type_synonym AuxKey = "int \<times> DirPath"

record AuxDirectoryEntry =
  ae_session :: SessionId
  ae_path :: DirPath
  ae_mtime :: int
  ae_bytes :: nat

record AuxLedger =
  al_entries :: "(AuxKey \<times> AuxDirectoryEntry) list"
  al_sessions :: "SessionId \<rightharpoonup> nat \<times> nat"
  al_global :: nat

definition ledger_default :: AuxLedger where
  "ledger_default = \<lparr>al_entries = [], al_sessions = Map.empty, al_global = 0\<rparr>"

text \<open>The ordered map \<^verbatim>\<open>BTreeMap\<close>, as a list sorted by its keys.\<close>

fun bt_insert :: "'k::linorder \<Rightarrow> 'v \<Rightarrow> ('k \<times> 'v) list \<Rightarrow> ('k \<times> 'v) list" where
  "bt_insert k v [] = [(k, v)]"
| "bt_insert k v ((k', v') # m) =
     (if k < k' then (k, v) # (k', v') # m
      else if k = k' then (k, v) # m
      else (k', v') # bt_insert k v m)"

fun bt_remove :: "'k \<Rightarrow> ('k \<times> 'v) list \<Rightarrow> ('v \<times> ('k \<times> 'v) list) option" where
  "bt_remove k [] = None"
| "bt_remove k ((k', v') # m) =
     (if k = k' then Some (v', m) else map_option (\<lambda>(v, m'). (v, (k', v') # m')) (bt_remove k m))"

definition session_totals :: "AuxLedger \<Rightarrow> SessionId \<Rightarrow> nat \<times> nat" where
  "session_totals l s = (case al_sessions l s of None \<Rightarrow> (0, 0) | Some t \<Rightarrow> t)"

definition ledger_insert :: "AuxDirectoryEntry \<Rightarrow> AuxLedger \<Rightarrow> AuxLedger option" where
  "ledger_insert e l =
     Option.bind (checked_add (fst (session_totals l (ae_session e))) (ae_bytes e)) (\<lambda>b.
     Option.bind (checked_add (al_global l) (ae_bytes e)) (\<lambda>g.
     Some \<lparr>al_entries = bt_insert (ae_mtime e, ae_path e) e (al_entries l),
       al_sessions = (al_sessions l)(ae_session e \<mapsto> (b, snd (session_totals l (ae_session e)) + 1)),
       al_global = g\<rparr>))"

definition note_foreign :: "SessionId option \<Rightarrow> nat \<Rightarrow> AuxLedger \<Rightarrow> AuxLedger option" where
  "note_foreign sid bytes l =
     Option.bind (checked_add (al_global l) bytes) (\<lambda>g.
     case sid of
       None \<Rightarrow> Some (l\<lparr>al_global := g\<rparr>)
     | Some s \<Rightarrow>
         Option.bind (checked_add (fst (session_totals l s)) bytes) (\<lambda>b.
         Some (l\<lparr>al_global := g, al_sessions := (al_sessions l)(s \<mapsto> (b, snd (session_totals l s)))\<rparr>)))"

definition ledger_remove :: "AuxKey \<Rightarrow> AuxLedger \<Rightarrow> AuxLedger option" where
  "ledger_remove key l =
     Option.bind (bt_remove key (al_entries l)) (\<lambda>(e, es).
     Option.bind (checked_sub (al_global l) (ae_bytes e)) (\<lambda>g.
     Option.bind (al_sessions l (ae_session e)) (\<lambda>(b, c).
     Option.bind (checked_sub b (ae_bytes e)) (\<lambda>b'.
     Option.bind (checked_sub c 1) (\<lambda>c'.
     Some \<lparr>al_entries = es, al_sessions = (al_sessions l)(ae_session e \<mapsto> (b', c')), al_global = g\<rparr>)))))"

definition remove_session :: "SessionId \<Rightarrow> AuxLedger \<Rightarrow> AuxLedger option" where
  "remove_session s l =
     map_option (\<lambda>g. \<lparr>al_entries = filter (\<lambda>(_, e). ae_session e \<noteq> s) (al_entries l),
         al_sessions = (al_sessions l)(s := None), al_global = g\<rparr>)
       (case al_sessions l s of
          None \<Rightarrow> Some (al_global l)
        | Some (b, _) \<Rightarrow> checked_sub (al_global l) b)"

section \<open>Limits, deadlines and eviction\<close>

record AuxLimits =
  session_bytes :: nat
  session_records :: nat
  global_bytes :: nat
  global_records :: nat
  max_scan_entries :: nat

definition DEFAULT_AUX_LIMITS :: AuxLimits where
  "DEFAULT_AUX_LIMITS = \<lparr>session_bytes = 16 * 1024 * 1024, session_records = 1024,
     global_bytes = 256 * 1024 * 1024, global_records = 8192, max_scan_entries = 65536\<rparr>"

fun check_aux_deadline :: "nat \<Rightarrow> StoreError + nat" where
  "check_aux_deadline 0 = Inl Unavailable"
| "check_aux_deadline (Suc t) = Inr t"

definition aux_session_full :: "AuxLimits \<Rightarrow> SessionId \<Rightarrow> nat \<Rightarrow> AuxLedger \<Rightarrow> bool" where
  "aux_session_full lim target reserve l =
     (session_bytes lim < sat_add (fst (session_totals l target)) reserve
      \<or> session_records lim < snd (session_totals l target) + 1)"

definition aux_global_full :: "AuxLimits \<Rightarrow> nat \<Rightarrow> AuxLedger \<Rightarrow> bool" where
  "aux_global_full lim reserve l =
     (global_bytes lim < sat_add (al_global l) reserve \<or> global_records lim < length (al_entries l) + 1)"

text \<open>
  \<open>removable\<close> tells whether removing a directory succeeds. The result is the answer with the clock
  that is left, and the ledger, which is lost when a removal fails.
\<close>

lemma bt_remove_length: "bt_remove k m = Some (v, m') \<Longrightarrow> length m = Suc (length m')"
  by (induction m arbitrary: m') (auto split: if_splits)

lemma ledger_remove_length:
  "ledger_remove k l = Some l' \<Longrightarrow> length (al_entries l) = Suc (length (al_entries l'))"
  by (auto simp: ledger_remove_def bind_eq_Some_conv dest: bt_remove_length)

function enforce_loop ::
  "SessionId \<Rightarrow> nat \<Rightarrow> AuxLimits \<Rightarrow> (DirPath \<Rightarrow> bool) \<Rightarrow> nat \<Rightarrow> AuxLedger
   \<Rightarrow> ((StoreError + nat) \<times> AuxLedger option) option" where
  "enforce_loop target reserve lim removable t l =
     (if \<not> aux_session_full lim target reserve l \<and> \<not> aux_global_full lim reserve l then Some (Inr t, Some l)
      else case check_aux_deadline t of
        Inl e \<Rightarrow> Some (Inl e, Some l)
      | Inr t \<Rightarrow>
          (case find (\<lambda>(_, e). \<not> aux_session_full lim target reserve l \<or> ae_session e = target) (al_entries l) of
             None \<Rightarrow> Some (Inl Unavailable, Some l)
           | Some (key, e) \<Rightarrow>
               if \<not> removable (ae_path e) then Some (Inl Unavailable, None)
               else (case ledger_remove key l of
                       None \<Rightarrow> None
                     | Some l' \<Rightarrow> enforce_loop target reserve lim removable t l')))"
  by pat_completeness auto
termination
  by (relation "measure (\<lambda>(_, _, _, _, _, l). length (al_entries l))") (auto dest: ledger_remove_length)

section \<open>The scan\<close>

text \<open>
  What the file system shows: a file with whether it is regular and its length, a child of a
  tools directory, a child of the sessions directory; \<^term>\<open>None\<close> where the call fails. Names
  that are not UTF-8 are \<^term>\<open>None\<close> as well.
\<close>

record AuxFile =
  af_name :: "string option"
  af_meta :: "(bool \<times> nat) option"

record ToolEntry =
  te_name :: "string option"
  te_meta :: "(bool \<times> nat) option"
  te_files :: "(AuxFile list \<times> bool) option"
  te_record :: "StoredToolRecord option"
  te_mtime :: "int option"
  te_removable :: bool

datatype ToolsDir = ToolsAbsent | ToolsBad nat | ToolsUnreadable nat | ToolsListed "ToolEntry list"

record SessionEntry =
  sd_name :: "string option"
  sd_meta :: "(bool \<times> nat) option"
  sd_tools :: ToolsDir

record AuxListing =
  li_root :: "StoreError + unit"
  li_entries :: "SessionEntry list"
  li_fault :: bool

fun scan_files_loop :: "AuxFile list \<Rightarrow> bool \<Rightarrow> nat \<Rightarrow> nat \<Rightarrow> bool \<Rightarrow> StoreError + nat \<times> nat \<times> bool" where
  "scan_files_loop [] fault t bytes valid =
     res_bind (check_aux_deadline t) (\<lambda>t. Inr (t, bytes, if fault then False else valid))"
| "scan_files_loop (f # fs) fault t bytes valid =
     res_bind (check_aux_deadline t) (\<lambda>t.
     case af_meta f of
       None \<Rightarrow> scan_files_loop fs fault t bytes False
     | Some (is_file, len) \<Rightarrow>
         scan_files_loop fs fault t (bytes + len)
           (valid \<and> is_file \<and> (case af_name f of None \<Rightarrow> False | Some n \<Rightarrow> n \<in> set ALLOWED_AUX_FILES)))"

definition scan_aux_files :: "ToolEntry \<Rightarrow> nat \<Rightarrow> nat \<Rightarrow> StoreError + nat \<times> nat \<times> bool" where
  "scan_aux_files te t directory_bytes =
     (case te_files te of
        None \<Rightarrow> Inr (t, directory_bytes, False)
      | Some (fs, fault) \<Rightarrow> scan_files_loop fs fault t 0 True)"

abbreviation (input) AUX_TOOLS_DIR :: string where "AUX_TOOLS_DIR \<equiv> ''tools''"

definition DELETING_PREFIX :: string where
  "DELETING_PREFIX = ''.deleting-''"

text \<open>\<open>hash\<close> is \<^verbatim>\<open>tool_ref_hash\<close>: the digest of the JSON form of a reference.\<close>

definition record_matches :: "(ToolRef \<Rightarrow> string) \<Rightarrow> SessionId \<Rightarrow> string \<Rightarrow> StoredToolRecord \<Rightarrow> bool" where
  "record_matches hash sid name r =
     (tr_session (st_ref r) = sid \<and> hash (st_ref r) = name
      \<and> validate_stored_tool_record r (st_ref r) = Inr ())"

definition scan_tool_entry ::
  "(ToolRef \<Rightarrow> string) \<Rightarrow> SessionId \<Rightarrow> string \<Rightarrow> ToolEntry \<Rightarrow> nat \<times> AuxLedger
   \<Rightarrow> (StoreError + nat \<times> AuxLedger) option" where
  "scan_tool_entry hash sid dir te st =
     (case st of (t, l) \<Rightarrow>
        case te_meta te of
          None \<Rightarrow> Some (Inr (t, l))
        | Some (is_dir, len) \<Rightarrow>
            let name = (case te_name te of None \<Rightarrow> '''' | Some n \<Rightarrow> n) in
            run_bind (Some (if is_dir then scan_aux_files te t len else Inr (t, len, False)))
              (\<lambda>(t, bytes, valid_files).
               let foreign = map_option (\<lambda>l. Inr (t, l)) (note_foreign (Some sid) bytes l) in
               if valid_files \<and> is_valid_temp_name name then
                 (if te_removable te then Some (Inr (t, l)) else foreign)
               else if valid_files \<and> valid_sha256 name then
                 (case (te_record te, te_mtime te) of
                    (Some r, Some mtime) \<Rightarrow>
                      if record_matches hash sid name r then
                        map_option (\<lambda>l. Inr (t, l)) (ledger_insert
                          \<lparr>ae_session = sid, ae_path = [dir, AUX_TOOLS_DIR, name], ae_mtime = mtime,
                            ae_bytes = bytes\<rparr> l)
                      else foreign
                  | _ \<Rightarrow> foreign)
               else foreign))"

fun scan_tools_loop ::
  "(ToolRef \<Rightarrow> string) \<Rightarrow> SessionId \<Rightarrow> string \<Rightarrow> ToolEntry list \<Rightarrow> nat \<times> AuxLedger
   \<Rightarrow> (StoreError + nat \<times> AuxLedger) option" where
  "scan_tools_loop hash sid dir [] (t, l) = run_bind (Some (check_aux_deadline t)) (\<lambda>t. Some (Inr (t, l)))"
| "scan_tools_loop hash sid dir (te # tes) (t, l) =
     run_bind (Some (check_aux_deadline t)) (\<lambda>t.
     run_bind (scan_tool_entry hash sid dir te (t, l)) (scan_tools_loop hash sid dir tes))"

definition scan_session_entry ::
  "(ToolRef \<Rightarrow> string) \<Rightarrow> SessionEntry \<Rightarrow> nat \<times> AuxLedger \<Rightarrow> (StoreError + nat \<times> AuxLedger) option" where
  "scan_session_entry hash sd st =
     (case st of (t, l) \<Rightarrow>
        if (case sd_name sd of None \<Rightarrow> False | Some n \<Rightarrow>
              (case strip_prefix DELETING_PREFIX n of None \<Rightarrow> False
               | Some i \<Rightarrow> (case session_id_from_str i of Inl _ \<Rightarrow> False | Inr _ \<Rightarrow> True))) then Some (Inr (t, l))
        else case sd_meta sd of
          None \<Rightarrow> Some (Inr (t, l))
        | Some (is_dir, len) \<Rightarrow>
            (case (sd_name sd, is_dir) of
               (Some n, True) \<Rightarrow>
                 (case session_id_from_str n of
                    Inl _ \<Rightarrow> map_option (\<lambda>l. Inr (t, l)) (note_foreign None len l)
                  | Inr sid \<Rightarrow>
                      (case sd_tools sd of
                         ToolsAbsent \<Rightarrow> Some (Inr (t, l))
                       | ToolsBad bytes \<Rightarrow> map_option (\<lambda>l. Inr (t, l)) (note_foreign (Some sid) bytes l)
                       | ToolsUnreadable bytes \<Rightarrow> map_option (\<lambda>l. Inr (t, l)) (note_foreign (Some sid) bytes l)
                       | ToolsListed tes \<Rightarrow> scan_tools_loop hash sid n tes (t, l)))
             | _ \<Rightarrow> map_option (\<lambda>l. Inr (t, l)) (note_foreign None len l)))"

fun scan_sessions_loop ::
  "(ToolRef \<Rightarrow> string) \<Rightarrow> SessionEntry list \<Rightarrow> bool \<Rightarrow> nat \<times> AuxLedger
   \<Rightarrow> (StoreError + nat \<times> AuxLedger) option" where
  "scan_sessions_loop hash [] fault (t, l) =
     run_bind (Some (check_aux_deadline t)) (\<lambda>t. Some (if fault then Inl Unavailable else Inr (t, l)))"
| "scan_sessions_loop hash (sd # sds) fault (t, l) =
     run_bind (Some (check_aux_deadline t)) (\<lambda>t.
     run_bind (scan_session_entry hash sd (t, l)) (scan_sessions_loop hash sds fault))"

definition scan_aux_ledger ::
  "(ToolRef \<Rightarrow> string) \<Rightarrow> AuxListing \<Rightarrow> nat \<Rightarrow> (StoreError + nat \<times> AuxLedger) option" where
  "scan_aux_ledger hash li t =
     run_bind (Some (li_root li)) (\<lambda>_. scan_sessions_loop hash (li_entries li) (li_fault li) (t, ledger_default))"

definition enforce_aux_budget_locked ::
  "(ToolRef \<Rightarrow> string) \<Rightarrow> AuxListing \<Rightarrow> (DirPath \<Rightarrow> bool) \<Rightarrow> SessionId \<Rightarrow> nat \<Rightarrow> AuxLimits \<Rightarrow> nat
   \<Rightarrow> AuxLedger option \<Rightarrow> ((StoreError + nat) \<times> AuxLedger option) option" where
  "enforce_aux_budget_locked hash li removable target reserve lim t ledger =
     (case ledger of
        Some l \<Rightarrow> enforce_loop target reserve lim removable t l
      | None \<Rightarrow>
          (case scan_aux_ledger hash li t of
             None \<Rightarrow> None
           | Some (Inl e) \<Rightarrow> Some (Inl e, None)
           | Some (Inr (t, l)) \<Rightarrow> enforce_loop target reserve lim removable t l))"

section \<open>Committing a record\<close>

datatype PathState = PathMissing | Directory | RegularFile | Symlink | OtherPath

datatype MkDir = MkDirDone | AlreadyExists | MkDirFailed

text \<open>
  The answers of the file system to one commit, in the order of the calls; \<open>ci_blob\<close> and \<open>ci_write\<close>
  are by file name. Serializing a record and the digest functions are parameters of the commit.
\<close>

record CommitIo =
  ci_late_before :: bool
  ci_ticks :: nat
  ci_session :: "StoreError + unit"
  ci_tools :: "StoreError + PathState"
  ci_target :: "StoreError + bool"
  ci_timeout :: bool
  ci_metadata :: "StoreError + StoredToolRecord option"
  ci_blob :: "string \<Rightarrow> string option"
  ci_listing :: AuxListing
  ci_removable :: "DirPath \<Rightarrow> bool"
  ci_create_tools :: MkDir
  ci_tools_again :: "StoreError + PathState"
  ci_entropy :: bool
  ci_create_temp :: bool
  ci_write :: "string \<Rightarrow> bool"
  ci_sync_temp :: bool
  ci_discard :: bool
  ci_rename :: bool
  ci_now :: int
  ci_sync_tools :: bool
  ci_late_after :: bool

record codec =
  tool_ref_hash :: "ToolRef \<Rightarrow> string"
  record_json :: "StoredToolRecord \<Rightarrow> string option"
  hash_bytes :: "string \<Rightarrow> string"

definition MAX_TOOL_METADATA_BYTES :: nat where
  "MAX_TOOL_METADATA_BYTES = 64 * 1024"

definition raw_bytes :: "ToolPersistenceSnapshot \<Rightarrow> nat" where
  "raw_bytes snap = sum_list (map length (List.map_filter snd (blobs snap)))"

text \<open>
  \<^verbatim>\<open>read_tool_metadata\<close> has loaded a record and validates it; then its blobs are read.
  The loop stops at the first blob that is damaged.
\<close>

definition read_tool_metadata :: "CommitIo \<Rightarrow> ToolRef \<Rightarrow> StoreError + StoredToolRecord option" where
  "read_tool_metadata io ref =
     res_bind (ci_metadata io) (\<lambda>m.
     case m of
       None \<Rightarrow> Inr None
     | Some r \<Rightarrow> res_bind (validate_stored_tool_record r ref) (\<lambda>_. Inr (Some r)))"

fun verify_blobs ::
  "codec \<Rightarrow> CommitIo \<Rightarrow> (string \<times> nat \<times> string option) list \<Rightarrow> (StoreError + unit) option" where
  "verify_blobs cd io [] = Some (Inr ())"
| "verify_blobs cd io ((name, bytes, hash) # bs) =
     (case read_blob (hash_bytes cd) (ci_blob io name) bytes hash of
        None \<Rightarrow> None
      | Some (content, bad) \<Rightarrow>
          if bad \<or> (name \<in> {TOOL_INPUT_FILE, TOOL_RESULT_FILE}
               \<and> (case content of None \<Rightarrow> False | Some b \<Rightarrow> \<not> utf8_valid b))
          then Some (Inl Corrupt)
          else verify_blobs cd io bs)"

definition verify_existing ::
  "codec \<Rightarrow> CommitIo \<Rightarrow> ToolPersistenceSnapshot \<Rightarrow> (StoreError + unit) option" where
  "verify_existing cd io snap =
     (if ci_timeout io then Some (Inl Corrupt)
      else run_bind (Some (read_tool_metadata io (sn_ref snap))) (\<lambda>m.
        case m of
          None \<Rightarrow> Some (Inl Corrupt)
        | Some existing \<Rightarrow>
            (case (record_json cd existing, record_json cd (sn_record snap)) of
               (Some a, Some b) \<Rightarrow>
                 if a \<noteq> b then Some (Inl Corrupt) else verify_blobs cd io (stored_blobs existing)
             | _ \<Rightarrow> Some (Inl Corrupt))))"

fun write_blobs :: "CommitIo \<Rightarrow> (string \<times> string option) list \<Rightarrow> nat \<Rightarrow> StoreError + nat" where
  "write_blobs io [] t = Inr t"
| "write_blobs io ((name, None) # bs) t = write_blobs io bs t"
| "write_blobs io ((name, Some _) # bs) t =
     res_bind (check_aux_deadline t) (\<lambda>t.
     if ci_write io name then write_blobs io bs t else Inl Unavailable)"

definition write_record :: "CommitIo \<Rightarrow> ToolPersistenceSnapshot \<Rightarrow> nat \<Rightarrow> StoreError + nat" where
  "write_record io snap t =
     res_bind (write_blobs io (blobs snap) t) (\<lambda>t.
     res_bind (check_aux_deadline t) (\<lambda>t.
     res_bind (if ci_write io TOOL_RECORD_FILE then Inr () else Inl Unavailable) (\<lambda>_.
     res_bind (check_aux_deadline t) (\<lambda>t.
     if ci_sync_temp io then Inr t else Inl Unavailable))))"

definition discard_aux_temp :: "CommitIo \<Rightarrow> AuxLedger option \<Rightarrow> AuxLedger option" where
  "discard_aux_temp io ledger = (if ci_discard io then ledger else None)"

text \<open>The second half of the commit, after the budget has been enforced.\<close>

definition publish_record ::
  "codec \<Rightarrow> CommitIo \<Rightarrow> ToolPersistenceSnapshot \<Rightarrow> nat \<Rightarrow> nat \<Rightarrow> AuxLedger option
   \<Rightarrow> ((StoreError + unit) \<times> AuxLedger option) option" where
  "publish_record cd io snap item_bytes t ledger =
     (case check_aux_deadline t of
        Inl e \<Rightarrow> Some (Inl e, ledger)
      | Inr t \<Rightarrow>
          if ci_create_tools io = MkDirFailed then Some (Inl Unavailable, ledger)
          else if ci_create_tools io = AlreadyExists \<and> ci_tools_again io \<noteq> Inr Directory
            then Some (Inl Corrupt, ledger)
          else if \<not> ci_entropy io then Some (Inl Unavailable, ledger)
          else (case check_aux_deadline t of
             Inl _ \<Rightarrow> Some (Inl Unavailable, ledger)
           | Inr t \<Rightarrow>
               if \<not> ci_create_temp io then Some (Inl Unavailable, ledger)
               else (case write_record io snap t of
                  Inl _ \<Rightarrow> Some (Inl Unavailable, discard_aux_temp io ledger)
                | Inr t \<Rightarrow>
                    (case check_aux_deadline t of
                       Inl _ \<Rightarrow> Some (Inl Unavailable, discard_aux_temp io ledger)
                     | Inr t \<Rightarrow>
                         if \<not> ci_rename io then Some (Inl Unavailable, discard_aux_temp io ledger)
                         else
                           Option.bind ledger (\<lambda>l.
                           Option.bind (ledger_insert
                             \<lparr>ae_session = tr_session (sn_ref snap),
                               ae_path = [encode_session_id (tr_session (sn_ref snap)), AUX_TOOLS_DIR,
                                          tool_ref_hash cd (sn_ref snap)],
                               ae_mtime = ci_now io, ae_bytes = item_bytes\<rparr> l) (\<lambda>l'.
                           Some (if ci_sync_tools io then Inr () else Inl Unavailable, Some l')))))))"

definition sat_double :: "nat \<Rightarrow> nat" where
  "sat_double n = min (n * 2) (u64_bound - 1)"

definition commit_tool_record_locked ::
  "codec \<Rightarrow> AuxLimits \<Rightarrow> CommitIo \<Rightarrow> ToolPersistenceSnapshot \<Rightarrow> AuxLedger option
   \<Rightarrow> ((StoreError + unit) \<times> AuxLedger option) option" where
  "commit_tool_record_locked cd lim io snap ledger =
     (case check_aux_deadline (ci_ticks io) of
        Inl e \<Rightarrow> Some (Inl e, ledger)
      | Inr t \<Rightarrow>
     (case validate_stored_tool_record (sn_record snap) (sn_ref snap) of
        Inl e \<Rightarrow> Some (Inl e, ledger)
      | Inr _ \<Rightarrow>
     if MAX_RECORD_BLOB_BYTES < raw_bytes snap then Some (Inl RecordTooLarge, ledger)
     else (case ci_session io of
        Inl e \<Rightarrow> Some (Inl e, ledger)
      | Inr _ \<Rightarrow>
     (case ci_tools io of
        Inl e \<Rightarrow> Some (Inl e, ledger)
      | Inr p \<Rightarrow>
     if p \<noteq> Directory \<and> p \<noteq> PathMissing then Some (Inl Corrupt, ledger)
     else (case ci_target io of
        Inl e \<Rightarrow> Some (Inl e, ledger)
      | Inr True \<Rightarrow> map_option (\<lambda>r. (r, ledger)) (verify_existing cd io snap)
      | Inr False \<Rightarrow>
     (case record_json cd (sn_record snap) of
        None \<Rightarrow> Some (Inl Corrupt, ledger)
      | Some record_bytes \<Rightarrow>
     if MAX_TOOL_METADATA_BYTES < length record_bytes then Some (Inl RecordTooLarge, ledger)
     else
       let item_bytes = length record_bytes + raw_bytes snap in
       (case enforce_aux_budget_locked (tool_ref_hash cd) (ci_listing io) (ci_removable io)
               (tr_session (sn_ref snap)) (sat_double item_bytes) lim t ledger of
          None \<Rightarrow> None
        | Some (Inl e, ledger) \<Rightarrow> Some (Inl e, ledger)
        | Some (Inr t, ledger) \<Rightarrow> publish_record cd io snap item_bytes t ledger)))))))"

section \<open>Batches and deletion\<close>

text \<open>
  The batch: \<open>snapshot\<close> is \<^verbatim>\<open>snapshot_for_persistence\<close>, \<open>ios\<close> the answers to the commit of each
  reference in turn.
\<close>

fun persist_loop ::
  "codec \<Rightarrow> AuxLimits \<Rightarrow> (ToolRef \<Rightarrow> ToolPersistenceSnapshot option) \<Rightarrow> (ToolRef \<times> CommitIo) list \<Rightarrow> bool
   \<Rightarrow> AuxLedger option \<Rightarrow> ((ToolRef \<times> (StoreError + unit)) list \<times> AuxLedger option) option" where
  "persist_loop cd lim snapshot [] expired ledger = Some ([], ledger)"
| "persist_loop cd lim snapshot ((ref, io) # rest) expired ledger =
     (if expired \<or> ci_late_before io then
        map_option (\<lambda>(rs, ledger). ((ref, Inl Unavailable) # rs, ledger))
          (persist_loop cd lim snapshot rest True ledger)
      else (case snapshot ref of
          None \<Rightarrow>
            map_option (\<lambda>(rs, ledger). ((ref, Inl Unavailable) # rs, ledger))
              (persist_loop cd lim snapshot rest expired ledger)
        | Some snap \<Rightarrow>
            (case commit_tool_record_locked cd lim io snap ledger of
               None \<Rightarrow> None
             | Some (res, ledger) \<Rightarrow>
                 map_option (\<lambda>(rs, ledger). ((ref, res) # rs, ledger))
                   (persist_loop cd lim snapshot rest
                     (expired \<or> res = Inl QueryLimit \<or> ci_late_after io) ledger))))"

definition persist_loop_tool_records ::
  "codec \<Rightarrow> AuxLimits \<Rightarrow> (ToolRef \<Rightarrow> ToolPersistenceSnapshot option) \<Rightarrow> (ToolRef \<times> CommitIo) list \<Rightarrow> bool
   \<Rightarrow> AuxLedger option \<Rightarrow> ((ToolRef \<times> (StoreError + unit)) list \<times> AuxLedger option) option" where
  "persist_loop_tool_records cd lim snapshot refs locked ledger =
     (if refs = [] then Some ([], ledger)
      else if \<not> locked then Some (map (\<lambda>(ref, _). (ref, Inl Unavailable)) refs, ledger)
      else persist_loop cd lim snapshot refs False ledger)"

record DeleteIo =
  di_session :: "StoreError + unit"
  di_deleting :: "StoreError + PathState"
  di_rename :: bool
  di_sync :: bool

definition delete_session ::
  "DeleteIo \<Rightarrow> SessionId \<Rightarrow> AuxLedger option \<Rightarrow> ((StoreError + unit) \<times> AuxLedger option) option" where
  "delete_session io sid ledger =
     (case di_session io of
        Inl e \<Rightarrow> Some (Inl e, ledger)
      | Inr _ \<Rightarrow>
     (case di_deleting io of
        Inl e \<Rightarrow> Some (Inl e, ledger)
      | Inr p \<Rightarrow>
     if p \<noteq> PathMissing then Some (Inl Corrupt, ledger)
     else if \<not> di_rename io then Some (Inl Unavailable, None)
     else (case (case ledger of None \<Rightarrow> Some None | Some l \<Rightarrow> map_option Some (remove_session sid l)) of
        None \<Rightarrow> None
      | Some ledger \<Rightarrow> Some (if di_sync io then (Inr (), ledger) else (Inl Unavailable, None)))))"

declare enforce_loop.simps [simp del]

section \<open>Exact accounting\<close>

definition bytes_in :: "SessionId \<Rightarrow> (AuxKey \<times> AuxDirectoryEntry) list \<Rightarrow> nat" where
  "bytes_in s es = (\<Sum>(_, e)\<leftarrow>es. if ae_session e = s then ae_bytes e else 0)"

definition count_in :: "SessionId \<Rightarrow> (AuxKey \<times> AuxDirectoryEntry) list \<Rightarrow> nat" where
  "count_in s es = (\<Sum>(_, e)\<leftarrow>es. if ae_session e = s then 1 else 0)"

definition charged :: "AuxLedger \<Rightarrow> nat" where
  "charged l = (\<Sum>s\<in>dom (al_sessions l). fst (session_totals l s))"

text \<open>
  The abstract account: \<open>foreign s\<close> are the bytes of session \<open>s\<close> that are no records, \<open>unowned\<close> those
  of no session. The ledger is the entries and nothing but these sums.
\<close>

definition accounts :: "AuxLedger \<Rightarrow> (SessionId \<Rightarrow> nat) \<Rightarrow> nat \<Rightarrow> bool" where
  "accounts l foreign unowned =
     (sorted_wrt (<) (map fst (al_entries l))
      \<and> (\<forall>(k, e)\<in>set (al_entries l). k = (ae_mtime e, ae_path e))
      \<and> finite (dom (al_sessions l))
      \<and> (\<forall>s. session_totals l s = (bytes_in s (al_entries l) + foreign s, count_in s (al_entries l)))
      \<and> al_global l = charged l + unowned)"

lemma accountsD:
  assumes "accounts l fs u"
  shows "sorted_wrt (<) (map fst (al_entries l))" "distinct (map fst (al_entries l))"
    "\<And>k e. (k, e) \<in> set (al_entries l) \<Longrightarrow> k = (ae_mtime e, ae_path e)"
    "finite (dom (al_sessions l))"
    "\<And>s. session_totals l s = (bytes_in s (al_entries l) + fs s, count_in s (al_entries l))"
    "al_global l = charged l + u"
  using assms by (auto simp: accounts_def strict_sorted_iff)

lemma charged_upd:
  assumes "finite (dom (al_sessions l))"
  shows "charged (l\<lparr>al_sessions := (al_sessions l)(s \<mapsto> (b, c))\<rparr>) + fst (session_totals l s) = charged l + b"
proof -
  let ?D = "dom (al_sessions l) - {s}"
  have "charged (l\<lparr>al_sessions := (al_sessions l)(s \<mapsto> (b, c))\<rparr>) = b + (\<Sum>x\<in>?D. fst (session_totals l x))"
    using assms by (simp add: charged_def session_totals_def sum.insert_remove)
  moreover have "charged l = fst (session_totals l s) + (\<Sum>x\<in>?D. fst (session_totals l x))"
    using assms sum.remove[of "dom (al_sessions l)" s "\<lambda>x. fst (session_totals l x)"]
    by (cases "al_sessions l s") (auto simp: charged_def session_totals_def domI domIff)
  ultimately show ?thesis by simp
qed

lemma totals_le_global:
  assumes "accounts l fs u"
  shows "fst (session_totals l s) \<le> al_global l"
proof (cases "al_sessions l s")
  case (Some t)
  then have "fst (session_totals l s) \<le> charged l"
    unfolding charged_def using accountsD(4)[OF assms] by (intro member_le_sum) auto
  with accountsD(6)[OF assms] show ?thesis by simp
qed (simp add: session_totals_def)

lemma bt_insert_sum:
  "k \<notin> fst ` set m \<Longrightarrow> sum_list (map f (bt_insert k v m)) = (f (k, v) :: nat) + sum_list (map f m)"
  by (induction m rule: bt_insert.induct) auto

lemma bt_insert_keys: "fst ` set (bt_insert k v m) = insert k (fst ` set m)"
  by (induction k v m rule: bt_insert.induct) auto

lemma bt_insert_set: "k \<notin> fst ` set m \<Longrightarrow> set (bt_insert k v m) = insert (k, v) (set m)"
  by (induction k v m rule: bt_insert.induct) auto

lemma bt_insert_sorted:
  "sorted_wrt (<) (map fst m) \<Longrightarrow> sorted_wrt (<) (map fst (bt_insert k v m))"
proof (induction k v m rule: bt_insert.induct)
  case (2 k v k' v' m)
  have "set (map fst (bt_insert k v m)) = insert k (set (map fst m))"
    using bt_insert_keys[of k v m] by simp
  with 2 show ?case by (auto simp del: set_map)
qed simp

lemma bt_remove_mem:
  assumes "(k, v) \<in> set m" "distinct (map fst m)"
  obtains m1 m2 where "m = m1 @ (k, v) # m2" and "bt_remove k m = Some (v, m1 @ m2)"
  using assms
proof (induction m arbitrary: thesis)
  case (Cons x m)
  show ?case
  proof (cases "x = (k, v)")
    case True
    with Cons.prems(1)[of "[]" m] show ?thesis by simp
  next
    case False
    with Cons.prems(2,3) have "(k, v) \<in> set m" "distinct (map fst m)" by auto
    from Cons.prems(3) this(1) have "fst x \<noteq> k" by (force simp: image_iff)
    with Cons.IH \<open>(k, v) \<in> set m\<close> \<open>distinct (map fst m)\<close> obtain m1 m2 where "m = m1 @ (k, v) # m2" "bt_remove k m = Some (v, m1 @ m2)" by blast
    with Cons.prems(1)[of "x # m1" m2] \<open>fst x \<noteq> k\<close> show ?thesis by (cases x) auto
  qed
qed simp

lemma totals_upd [simp]:
  "session_totals (l\<lparr>al_sessions := (al_sessions l)(s \<mapsto> t)\<rparr>) r = (if r = s then t else session_totals l r)"
  by (simp add: session_totals_def)

lemma totals_entries [simp]:
  "session_totals (l\<lparr>al_entries := es\<rparr>) r = session_totals l r"
  "session_totals (l\<lparr>al_global := g\<rparr>) r = session_totals l r"
  by (simp_all add: session_totals_def)

lemma ledger_insert_ok:
  assumes acc: "accounts l fs u" and fresh: "(ae_mtime e, ae_path e) \<notin> fst ` set (al_entries l)"
    and room: "al_global l + ae_bytes e < u64_bound"
  shows "\<exists>l'. ledger_insert e l = Some l' \<and> accounts l' fs u
    \<and> al_entries l' = bt_insert (ae_mtime e, ae_path e) e (al_entries l)
    \<and> al_global l' = al_global l + ae_bytes e
    \<and> session_totals l' (ae_session e) =
        (fst (session_totals l (ae_session e)) + ae_bytes e, snd (session_totals l (ae_session e)) + 1)"
proof -
  let ?k = "(ae_mtime e, ae_path e)" and ?s = "ae_session e"
  let ?t = "(fst (session_totals l ?s) + ae_bytes e, snd (session_totals l ?s) + 1)"
  let ?l = "l\<lparr>al_entries := bt_insert ?k e (al_entries l), al_sessions := (al_sessions l)(?s \<mapsto> ?t),
      al_global := al_global l + ae_bytes e\<rparr>"
  note d = accountsD[OF acc]
  from room totals_le_global[OF acc, of ?s] have ins: "ledger_insert e l = Some ?l"
    by (simp add: ledger_insert_def checked_add_def)
  have tot: "session_totals ?l r = (if r = ?s then ?t else session_totals l r)" for r
    by (simp add: session_totals_def)
  have "charged ?l = charged (l\<lparr>al_sessions := (al_sessions l)(?s \<mapsto> ?t)\<rparr>)"
    by (simp add: charged_def session_totals_def)
  with charged_upd[OF d(4), of ?s "fst ?t" "snd ?t"] d(6) have "al_global ?l = charged ?l + u" by simp
  moreover have "bytes_in r (al_entries ?l) = (if r = ?s then ae_bytes e else 0) + bytes_in r (al_entries l)"
      "count_in r (al_entries ?l) = (if r = ?s then 1 else 0) + count_in r (al_entries l)" for r
    using fresh by (simp_all add: bytes_in_def count_in_def bt_insert_sum)
  ultimately have "accounts ?l fs u"
    unfolding accounts_def tot using d(1,3-5) fresh
    by (auto simp: bt_insert_sorted bt_insert_set)
  with ins tot[of ?s] show ?thesis by simp
qed

lemma note_foreign_ok:
  assumes acc: "accounts l fs u" and room: "al_global l + b < u64_bound"
  shows "\<exists>l'. note_foreign sid b l = Some l' \<and> al_global l' = al_global l + b \<and> al_entries l' = al_entries l
    \<and> (case sid of None \<Rightarrow> accounts l' fs (u + b) | Some s \<Rightarrow> accounts l' (fs(s := fs s + b)) u)"
proof (cases sid)
  case None
  with acc room show ?thesis
    by (auto simp: note_foreign_def checked_add_def accounts_def charged_def)
next
  case (Some s)
  let ?t = "(fst (session_totals l s) + b, snd (session_totals l s))"
  let ?l = "l\<lparr>al_global := al_global l + b, al_sessions := (al_sessions l)(s \<mapsto> ?t)\<rparr>"
  note d = accountsD[OF acc]
  from Some room totals_le_global[OF acc, of s] have noted: "note_foreign sid b l = Some ?l"
    by (simp add: note_foreign_def checked_add_def)
  have tot: "session_totals ?l r = (if r = s then ?t else session_totals l r)" for r
    by (simp add: session_totals_def)
  have "charged ?l = charged (l\<lparr>al_sessions := (al_sessions l)(s \<mapsto> ?t)\<rparr>)"
    by (simp add: charged_def session_totals_def)
  with charged_upd[OF d(4), of s "fst ?t" "snd ?t"] d(6) have "al_global ?l = charged ?l + u" by simp
  with d have "accounts ?l (fs(s := fs s + b)) u"
    unfolding accounts_def tot by auto
  with noted Some show ?thesis by simp
qed

lemma ledger_remove_ok:
  assumes acc: "accounts l fs u" and mem: "(k, e) \<in> set (al_entries l)"
  shows "\<exists>l' m1 m2. ledger_remove k l = Some l' \<and> accounts l' fs u
    \<and> al_entries l = m1 @ (k, e) # m2 \<and> al_entries l' = m1 @ m2"
proof -
  note d = accountsD[OF acc]
  from mem d(2) obtain m1 m2 where m: "al_entries l = m1 @ (k, e) # m2"
    "bt_remove k (al_entries l) = Some (e, m1 @ m2)" by (rule bt_remove_mem)
  let ?s = "ae_session e"
  have b: "bytes_in r (al_entries l) = (if r = ?s then ae_bytes e else 0) + bytes_in r (m1 @ m2)"
    "count_in r (al_entries l) = (if r = ?s then 1 else 0) + count_in r (m1 @ m2)" for r
    by (simp_all add: m(1) bytes_in_def count_in_def)
  with d(5)[of ?s] have t: "ae_bytes e \<le> fst (session_totals l ?s)" "1 \<le> snd (session_totals l ?s)" by simp_all
  then obtain tb tc where some: "al_sessions l ?s = Some (tb, tc)" and tot: "session_totals l ?s = (tb, tc)"
    by (auto simp: session_totals_def split: option.splits)
  let ?l = "l\<lparr>al_entries := m1 @ m2, al_sessions := (al_sessions l)(?s \<mapsto> (tb - ae_bytes e, tc - 1)),
    al_global := al_global l - ae_bytes e\<rparr>"
  from t tot totals_le_global[OF acc, of ?s] m(2) some have rm: "ledger_remove k l = Some ?l"
    by (simp add: ledger_remove_def checked_sub_def)
  have tot': "session_totals ?l r = (if r = ?s then (tb - ae_bytes e, tc - 1) else session_totals l r)" for r
    by (simp add: session_totals_def)
  have "charged ?l = charged (l\<lparr>al_sessions := (al_sessions l)(?s \<mapsto> (tb - ae_bytes e, tc - 1))\<rparr>)"
    by (simp add: charged_def session_totals_def)
  with charged_upd[OF d(4), of ?s "tb - ae_bytes e" "tc - 1"] d(6) t tot totals_le_global[OF acc, of ?s]
  have "al_global ?l = charged ?l + u" by (simp, arith)
  moreover have "sorted_wrt (<) (map fst (m1 @ m2))"
    using d(1) by (simp add: m(1) sorted_wrt_append)
  ultimately have "accounts ?l fs u"
    unfolding accounts_def tot' using d(3-5) b tot by (auto simp: m(1))
  with rm m show ?thesis by auto
qed

lemma sums_without:
  "bytes_in r (filter (\<lambda>(_, e). ae_session e \<noteq> s) es) = (if r = s then 0 else bytes_in r es)"
  "count_in r (filter (\<lambda>(_, e). ae_session e \<noteq> s) es) = (if r = s then 0 else count_in r es)"
  unfolding bytes_in_def count_in_def by (induction es) auto

lemma remove_session_ok:
  assumes acc: "accounts l fs u"
  shows "\<exists>l'. remove_session s l = Some l' \<and> accounts l' (fs(s := 0)) u
    \<and> al_entries l' = filter (\<lambda>(_, e). ae_session e \<noteq> s) (al_entries l)"
proof -
  note d = accountsD[OF acc]
  let ?es = "filter (\<lambda>(_, e). ae_session e \<noteq> s) (al_entries l)"
  let ?l = "l\<lparr>al_entries := ?es, al_sessions := (al_sessions l)(s := None),
    al_global := al_global l - fst (session_totals l s)\<rparr>"
  from totals_le_global[OF acc, of s] have rm: "remove_session s l = Some ?l"
    by (cases "al_sessions l s") (auto simp: remove_session_def session_totals_def checked_sub_def)
  have tot: "session_totals ?l r = (if r = s then (0, 0) else session_totals l r)" for r
    by (simp add: session_totals_def)
  have es: "bytes_in r ?es = (if r = s then 0 else bytes_in r (al_entries l))"
    "count_in r ?es = (if r = s then 0 else count_in r (al_entries l))" for r
    by (simp_all add: sums_without)
  have "charged l = fst (session_totals l s) + charged ?l"
    using sum.remove[OF d(4), of s "\<lambda>x. fst (session_totals l x)"]
    by (cases "al_sessions l s") (auto simp: charged_def session_totals_def domI domIff intro!: sum.cong)
  with d(6) have "al_global ?l = charged ?l + u" by simp
  moreover have "sorted_wrt (<) (map fst ?es)"
    using d(1) by (simp add: sorted_wrt_map sorted_wrt_filter)
  ultimately have "accounts ?l (fs(s := 0)) u"
    unfolding accounts_def tot using d(3-5) es by auto
  with rm show ?thesis by simp
qed

lemma accounts_default: "accounts ledger_default (\<lambda>_. 0) 0"
  by (simp add: accounts_def ledger_default_def session_totals_def bytes_in_def count_in_def charged_def)

section \<open>Eviction\<close>

lemma find_Some_split:
  "find P xs = Some x \<Longrightarrow> \<exists>ys zs. xs = ys @ x # zs \<and> P x \<and> (\<forall>y\<in>set ys. \<not> P y)"
  by (induction xs) (auto split: if_splits intro: exI[of _ "[]"], metis append_Cons set_ConsD)

text \<open>
  The eviction as it should be: while the session is over its limit its oldest record goes, then,
  while the store is over its limit, the oldest record of all.
\<close>

definition is_victim :: "AuxLimits \<Rightarrow> SessionId \<Rightarrow> nat \<Rightarrow> AuxLedger \<Rightarrow> AuxKey \<times> AuxDirectoryEntry \<Rightarrow> bool" where
  "is_victim lim target reserve l x =
     (x \<in> set (al_entries l)
      \<and> (aux_session_full lim target reserve l \<longrightarrow> ae_session (snd x) = target)
      \<and> (\<forall>y\<in>set (al_entries l). (aux_session_full lim target reserve l \<longrightarrow> ae_session (snd y) = target) \<longrightarrow> fst x \<le> fst y))"

lemma find_victim:
  assumes "accounts l fs u"
    and "find (\<lambda>(_, e). \<not> aux_session_full lim target reserve l \<or> ae_session e = target) (al_entries l) = Some x"
  shows "is_victim lim target reserve l x"
proof -
  from find_Some_split[OF assms(2)] obtain ys zs where es: "al_entries l = ys @ x # zs"
    and x: "aux_session_full lim target reserve l \<longrightarrow> ae_session (snd x) = target"
    and ys: "\<forall>y\<in>set ys. \<not> (aux_session_full lim target reserve l \<longrightarrow> ae_session (snd y) = target)"
    by (auto simp: case_prod_beta)
  from accountsD(1)[OF assms(1)] have "\<forall>y\<in>set zs. fst x < fst y" by (auto simp: es sorted_wrt_append)
  with x ys show ?thesis by (auto simp: is_victim_def es)
qed

inductive evicts :: "AuxLimits \<Rightarrow> SessionId \<Rightarrow> nat \<Rightarrow> AuxLedger \<Rightarrow> AuxLedger \<Rightarrow> bool"
  for lim target reserve where
  stop: "evicts lim target reserve l l"
| evict: "aux_session_full lim target reserve l \<or> aux_global_full lim reserve l \<Longrightarrow> is_victim lim target reserve l x
    \<Longrightarrow> ledger_remove (fst x) l = Some l' \<Longrightarrow> evicts lim target reserve l' l''
    \<Longrightarrow> evicts lim target reserve l l''"

definition room_for :: "AuxLimits \<Rightarrow> SessionId \<Rightarrow> nat \<Rightarrow> AuxLedger \<Rightarrow> bool" where
  "room_for lim target reserve l = (\<not> aux_session_full lim target reserve l \<and> \<not> aux_global_full lim reserve l)"

text \<open>Nothing is left that could be evicted, and it still does not fit.\<close>

definition exhausted :: "AuxLimits \<Rightarrow> SessionId \<Rightarrow> nat \<Rightarrow> AuxLedger \<Rightarrow> bool" where
  "exhausted lim target reserve l =
     (\<not> room_for lim target reserve l
      \<and> (\<forall>(k, e)\<in>set (al_entries l). aux_session_full lim target reserve l \<and> ae_session e \<noteq> target))"

definition enforced ::
  "AuxLimits \<Rightarrow> SessionId \<Rightarrow> nat \<Rightarrow> (DirPath \<Rightarrow> bool) \<Rightarrow> nat \<Rightarrow> AuxLedger \<Rightarrow> (SessionId \<Rightarrow> nat) \<Rightarrow> nat
   \<Rightarrow> (StoreError + nat) \<times> AuxLedger option \<Rightarrow> bool" where
  "enforced lim target reserve removable t l fs u r =
     (case r of
        (Inr _, Some l') \<Rightarrow> accounts l' fs u \<and> evicts lim target reserve l l' \<and> room_for lim target reserve l'
      | (Inr _, None) \<Rightarrow> False
      | (Inl e, Some l') \<Rightarrow> accounts l' fs u \<and> evicts lim target reserve l l' \<and> e = Unavailable
          \<and> (length (al_entries l) < t \<longrightarrow> exhausted lim target reserve l')
      | (Inl e, None) \<Rightarrow> e = Unavailable \<and> (\<exists>x\<in>set (al_entries l). \<not> removable (ae_path (snd x))))"

lemma check_deadline_Inl: "check_aux_deadline t = Inl e \<longleftrightarrow> t = 0 \<and> e = Unavailable"
  by (cases t) auto

lemma check_deadline_Inr: "check_aux_deadline t = Inr t' \<longleftrightarrow> t = Suc t'"
  by (cases t) auto

lemma enforce_loop_ok:
  assumes "accounts l fs u"
  shows "\<exists>r. enforce_loop target reserve lim removable t l = Some r
    \<and> enforced lim target reserve removable t l fs u r"
  using assms
proof (induction target reserve lim removable t l rule: enforce_loop.induct)
  case (1 target reserve lim removable t l)
  let ?find = "find (\<lambda>(_, e). \<not> aux_session_full lim target reserve l \<or> ae_session e = target) (al_entries l)"
  consider (room) "room_for lim target reserve l"
    | (late) "\<not> room_for lim target reserve l" "t = 0"
    | (none) t' where "\<not> room_for lim target reserve l" "t = Suc t'" "?find = None"
    | (some) t' k e where "\<not> room_for lim target reserve l" "t = Suc t'" "?find = Some (k, e)"
    by (cases t; cases ?find) auto
  then show ?case
  proof cases
    case some
    from find_victim[OF "1.prems" some(3)] have victim: "is_victim lim target reserve l (k, e)" .
    then have mem: "(k, e) \<in> set (al_entries l)" by (simp add: is_victim_def)
    from ledger_remove_ok[OF "1.prems" mem] obtain l' where
      rm: "ledger_remove k l = Some l'" "accounts l' fs u" "set (al_entries l') \<subseteq> set (al_entries l)"
      by fastforce
    show ?thesis
    proof (cases "removable (ae_path e)")
      case True
      from some have full: "\<not> (\<not> aux_session_full lim target reserve l \<and> \<not> aux_global_full lim reserve l)"
        by (simp add: room_for_def)
      from "1.IH"[OF full _ some(3) refl _ rm(1) rm(2)] some(2) True obtain r where
        r: "enforce_loop target reserve lim removable t' l' = Some r"
        "enforced lim target reserve removable t' l' fs u r" by auto
      have "evicts lim target reserve l l''" if "evicts lim target reserve l' l''" for l''
        using evicts.evict[OF _ victim _ that] full rm(1) by auto
      moreover have "\<exists>x\<in>set (al_entries l). \<not> removable (ae_path (snd x))"
        if "\<exists>x\<in>set (al_entries l'). \<not> removable (ae_path (snd x))" using that rm(3) by blast
      ultimately have "enforced lim target reserve removable t l fs u r"
        using r(2) ledger_remove_length[OF rm(1)] some(2)
        by (cases r; cases "fst r"; cases "snd r") (simp_all add: enforced_def)
      moreover have "enforce_loop target reserve lim removable t l = Some r"
        using full some True rm(1) r(1) by (subst enforce_loop.simps) auto
      ultimately show ?thesis by blast
    next
      case False
      with some mem show ?thesis
        by (subst enforce_loop.simps) (auto simp: room_for_def enforced_def intro!: bexI[of _ "(k, e)"])
    qed
  next
    case none
    then have "exhausted lim target reserve l" by (auto simp: exhausted_def find_None_iff)
    with none "1.prems" show ?thesis
      by (subst enforce_loop.simps) (auto simp: room_for_def enforced_def intro: evicts.stop)
  qed (use "1.prems" in \<open>subst enforce_loop.simps; auto simp: room_for_def enforced_def intro: evicts.stop\<close>)+
qed

section \<open>The scan builds an exact account\<close>

definition file_bytes :: "AuxFile list \<Rightarrow> nat" where
  "file_bytes fs = (\<Sum>f\<leftarrow>fs. case af_meta f of None \<Rightarrow> 0 | Some (_, len) \<Rightarrow> len)"

definition tool_bytes :: "ToolEntry \<Rightarrow> nat" where
  "tool_bytes te = (case te_meta te of None \<Rightarrow> 0
     | Some (is_dir, len) \<Rightarrow>
         if is_dir then (case te_files te of None \<Rightarrow> len | Some (fs, _) \<Rightarrow> file_bytes fs) else len)"

fun tools_bytes :: "ToolsDir \<Rightarrow> nat" where
  "tools_bytes ToolsAbsent = 0"
| "tools_bytes (ToolsBad b) = b"
| "tools_bytes (ToolsUnreadable b) = b"
| "tools_bytes (ToolsListed tes) = sum_list (map tool_bytes tes)"

definition entry_bytes :: "SessionEntry \<Rightarrow> nat" where
  "entry_bytes sd = (case sd_meta sd of None \<Rightarrow> 0 | Some (_, len) \<Rightarrow> len + tools_bytes (sd_tools sd))"

definition listing_bytes :: "AuxListing \<Rightarrow> nat" where
  "listing_bytes li = sum_list (map entry_bytes (li_entries li))"

text \<open>Directory listings name every entry once.\<close>

definition listing_ok :: "AuxListing \<Rightarrow> bool" where
  "listing_ok li = (distinct (List.map_filter sd_name (li_entries li))
     \<and> (\<forall>sd\<in>set (li_entries li). \<forall>tes. sd_tools sd = ToolsListed tes \<longrightarrow> distinct (List.map_filter te_name tes)))"

lemma scan_files_loop_bytes:
  "scan_files_loop fs fault t bytes valid = Inr (t', b, v) \<Longrightarrow> b = bytes + file_bytes fs"
  by (induction fs arbitrary: t bytes valid)
    (auto simp: file_bytes_def simp flip: add.assoc split: option.splits)

lemma scan_entry_bytes:
  assumes "te_meta te = Some (is_dir, len)"
    and "(if is_dir then scan_aux_files te t len else Inr (t, len, False)) = Inr (t', b, v)"
  shows "b = tool_bytes te"
  using assms by (auto simp: tool_bytes_def scan_aux_files_def dest: scan_files_loop_bytes
      split: if_splits option.splits)

text \<open>
  What a scan leaves in the totals beside the record directories it enters, read off the listing
  without the clock: the bytes under a session that are no valid record (\<open>listing_foreign\<close>) and the
  bytes of entries that belong to no session (\<open>listing_unowned\<close>).
\<close>

definition allowed_file :: "AuxFile \<Rightarrow> bool" where
  "allowed_file f =
     ((case af_meta f of None \<Rightarrow> False | Some (is_file, _) \<Rightarrow> is_file)
      \<and> (case af_name f of None \<Rightarrow> False | Some n \<Rightarrow> n \<in> set ALLOWED_AUX_FILES))"

definition files_valid :: "ToolEntry \<Rightarrow> bool" where
  "files_valid te =
     (case te_files te of
        None \<Rightarrow> False
      | Some (fs, fault) \<Rightarrow> \<not> fault \<and> list_all allowed_file fs)"

definition is_record_dir :: "(ToolRef \<Rightarrow> string) \<Rightarrow> SessionId \<Rightarrow> ToolEntry \<Rightarrow> bool" where
  "is_record_dir hash sid te =
     (case (te_name te, te_record te) of
        (Some n, Some r) \<Rightarrow> \<not> is_valid_temp_name n \<and> valid_sha256 n \<and> record_matches hash sid n r \<and> te_mtime te \<noteq> None
      | _ \<Rightarrow> False)"

definition is_removed_temp :: "ToolEntry \<Rightarrow> bool" where
  "is_removed_temp te = ((case te_name te of None \<Rightarrow> False | Some n \<Rightarrow> is_valid_temp_name n) \<and> te_removable te)"

definition tool_foreign :: "(ToolRef \<Rightarrow> string) \<Rightarrow> SessionId \<Rightarrow> ToolEntry \<Rightarrow> nat" where
  "tool_foreign hash sid te =
     (case te_meta te of
        Some (True, _) \<Rightarrow>
          if files_valid te \<and> (is_record_dir hash sid te \<or> is_removed_temp te) then 0 else tool_bytes te
      | _ \<Rightarrow> tool_bytes te)"

definition being_deleted :: "SessionEntry \<Rightarrow> bool" where
  "being_deleted sd =
     (case sd_name sd of None \<Rightarrow> False | Some n \<Rightarrow>
        (case strip_prefix DELETING_PREFIX n of None \<Rightarrow> False
         | Some i \<Rightarrow> (case session_id_from_str i of Inl _ \<Rightarrow> False | Inr _ \<Rightarrow> True)))"

text \<open>The session a directory entry stands for.\<close>

definition entry_session :: "SessionEntry \<Rightarrow> SessionId option" where
  "entry_session sd =
     (case (sd_name sd, sd_meta sd) of
        (Some n, Some (True, _)) \<Rightarrow> (case session_id_from_str n of Inl _ \<Rightarrow> None | Inr sid \<Rightarrow> Some sid)
      | _ \<Rightarrow> None)"

definition entry_foreign :: "(ToolRef \<Rightarrow> string) \<Rightarrow> SessionEntry \<Rightarrow> SessionId \<Rightarrow> nat" where
  "entry_foreign hash sd s =
     (if being_deleted sd \<or> entry_session sd \<noteq> Some s then 0
      else (case sd_tools sd of
              ToolsListed tes \<Rightarrow> sum_list (map (tool_foreign hash s) tes)
            | other \<Rightarrow> tools_bytes other))"

definition entry_unowned :: "SessionEntry \<Rightarrow> nat" where
  "entry_unowned sd =
     (if being_deleted sd \<or> entry_session sd \<noteq> None then 0
      else (case sd_meta sd of None \<Rightarrow> 0 | Some (_, len) \<Rightarrow> len))"

type_synonym scan_notes = "(SessionId \<Rightarrow> nat) \<times> nat"

definition listing_foreign :: "(ToolRef \<Rightarrow> string) \<Rightarrow> AuxListing \<Rightarrow> SessionId \<Rightarrow> nat" where
  "listing_foreign hash li s = sum_list (map (\<lambda>sd. entry_foreign hash sd s) (li_entries li))"

definition listing_unowned :: "AuxListing \<Rightarrow> nat" where
  "listing_unowned li = sum_list (map entry_unowned (li_entries li))"

lemma scan_files_loop_valid:
  "scan_files_loop fs fault t bytes valid = Inr (t', b, v) \<Longrightarrow> v = (valid \<and> \<not> fault \<and> list_all allowed_file fs)"
proof (induction fs arbitrary: t bytes valid)
  case (Cons f fs)
  obtain t1 where t: "check_aux_deadline t = Inr t1"
    using Cons.prems by (cases "check_aux_deadline t") auto
  show ?case
  proof (cases "af_meta f")
    case None
    then have "\<not> allowed_file f" by (simp add: allowed_file_def)
    with None Cons.IH[of t1 bytes False] Cons.prems t show ?thesis by simp
  next
    case (Some m)
    obtain is_file len where m: "m = (is_file, len)" by (cases m)
    with Some have "allowed_file f = (is_file \<and> (case af_name f of None \<Rightarrow> False | Some n \<Rightarrow> n \<in> set ALLOWED_AUX_FILES))"
      by (simp add: allowed_file_def)
    with Some m Cons.IH[of t1 "bytes + len"] Cons.prems t show ?thesis by auto
  qed
qed (auto split: if_splits)

lemma scan_entry_valid:
  assumes "(if is_dir then scan_aux_files te t len else Inr (t, len, False)) = Inr (t', b, v)"
  shows "v = (is_dir \<and> files_valid te)"
  using assms by (auto simp: files_valid_def scan_aux_files_def dest: scan_files_loop_valid
      split: if_splits option.splits)

text \<open>
  One step of the scan: the account it leaves is exact for the given foreign and unowned bytes, at
  most \<open>b\<close> bytes are added, and the only key it may add lies at one of the given paths.
\<close>

definition scan_step ::
  "nat \<Rightarrow> DirPath set \<Rightarrow> (SessionId \<Rightarrow> nat) \<Rightarrow> nat \<Rightarrow> AuxLedger \<Rightarrow> (StoreError + nat \<times> AuxLedger) option \<Rightarrow> bool" where
  "scan_step b ps fs u l r =
     (case r of
        None \<Rightarrow> False
      | Some (Inl _) \<Rightarrow> True
      | Some (Inr (_, l')) \<Rightarrow>
          accounts l' fs u \<and> al_global l' \<le> al_global l + b
          \<and> (\<forall>(k, e)\<in>set (al_entries l'). (k, e) \<in> set (al_entries l) \<or> ae_path e \<in> ps))"

text \<open>The bytes of one session on top of what is noted.\<close>

definition plus_at :: "(SessionId \<Rightarrow> nat) \<Rightarrow> SessionId \<Rightarrow> nat \<Rightarrow> SessionId \<Rightarrow> nat" where
  "plus_at fs s b = (\<lambda>r. fs r + (if r = s then b else 0))"

lemma plus_at_upd: "fs(s := fs s + b) = plus_at fs s b"
  by (auto simp: plus_at_def)

lemma plus_at_0 [simp]: "plus_at fs s 0 = fs"
  by (auto simp: plus_at_def)

lemma plus_at_plus_at: "plus_at (plus_at fs s a) s b = plus_at fs s (a + b)"
  by (auto simp: plus_at_def)

lemma scan_step_keep: "accounts l fs u \<Longrightarrow> scan_step b ps fs u l (Some (Inr (t, l)))"
  by (auto simp: scan_step_def)

lemma scan_step_Inl: "scan_step b ps fs u l (Some (Inl e))"
  by (simp add: scan_step_def)

lemma scan_step_foreign:
  assumes "accounts l fs u" "al_global l + b' < u64_bound" "b' \<le> b"
  shows "scan_step b ps (plus_at fs s b') u l (map_option (\<lambda>l. Inr (t, l)) (note_foreign (Some s) b' l))"
    and "scan_step b ps fs (u + b') l (map_option (\<lambda>l. Inr (t, l)) (note_foreign None b' l))"
  using note_foreign_ok[OF assms(1,2), of "Some s"] note_foreign_ok[OF assms(1,2), of None] assms(3)
  by (auto simp: scan_step_def plus_at_upd)

lemma scan_step_insert:
  assumes "accounts l fs u" "al_global l + ae_bytes e < u64_bound" "ae_bytes e \<le> b" "ae_path e \<in> ps"
    and fresh: "\<forall>x\<in>set (al_entries l). ae_path (snd x) \<notin> ps"
  shows "scan_step b ps fs u l (map_option (\<lambda>l. Inr (t, l)) (ledger_insert e l))"
proof -
  have "(ae_mtime e, ae_path e) \<notin> fst ` set (al_entries l)"
    using accountsD(3)[OF assms(1)] fresh assms(4) by force
  from ledger_insert_ok[OF assms(1) this assms(2)] assms(3,4) bt_insert_set[OF this] show ?thesis
    by (auto simp: scan_step_def)
qed

lemma scan_step_bind:
  assumes "scan_step b ps fs1 u1 l r" and "b \<le> b'" "ps \<subseteq> ps'"
    and "\<And>t l'. accounts l' fs1 u1 \<Longrightarrow> al_global l' \<le> al_global l + b
      \<Longrightarrow> (\<forall>(k, e)\<in>set (al_entries l'). (k, e) \<in> set (al_entries l) \<or> ae_path e \<in> ps)
      \<Longrightarrow> scan_step (b' - b) (ps' - ps) fs2 u2 l' (f (t, l'))"
  shows "scan_step b' ps' fs2 u2 l (run_bind r f)"
proof (cases r)
  case (Some res)
  show ?thesis
  proof (cases res)
    case (Inr p)
    obtain t l' where p: "p = (t, l')" by (cases p)
    with assms(1) Some Inr have l': "accounts l' fs1 u1" "al_global l' \<le> al_global l + b"
      "\<forall>(k, e)\<in>set (al_entries l'). (k, e) \<in> set (al_entries l) \<or> ae_path e \<in> ps"
      by (auto simp: scan_step_def)
    from assms(4)[OF l'] have "scan_step (b' - b) (ps' - ps) fs2 u2 l' (f (t, l'))" .
    with l' assms(2,3) Some Inr p show ?thesis
      by (fastforce simp: scan_step_def split: option.splits sum.splits)
  qed (simp add: Some scan_step_def)
qed (use assms(1) in \<open>simp add: scan_step_def\<close>)

definition tool_paths :: "string \<Rightarrow> ToolEntry list \<Rightarrow> DirPath set" where
  "tool_paths dir tes = (\<lambda>n. [dir, AUX_TOOLS_DIR, n]) ` set (List.map_filter te_name tes)"

definition entry_paths :: "SessionEntry \<Rightarrow> DirPath set" where
  "entry_paths sd = {p. \<exists>n q. sd_name sd = Some n \<and> p = n # q}"

definition unused :: "DirPath set \<Rightarrow> AuxLedger \<Rightarrow> bool" where
  "unused ps l = (\<forall>(k, e)\<in>set (al_entries l). ae_path e \<notin> ps)"

lemma scan_step_check:
  assumes "\<And>t'. t = Suc t' \<Longrightarrow> scan_step b ps fs u l (f t')"
  shows "scan_step b ps fs u l (run_bind (Some (check_aux_deadline t)) f)"
  using assms by (cases t) (simp_all add: scan_step_def)

lemma no_empty_name: "\<not> is_valid_temp_name []" "\<not> valid_sha256 []"
  by (simp_all add: is_valid_temp_name_def valid_sha256_def)

lemma scan_tool_entry_step:
  assumes acc: "accounts l fs u" and room: "al_global l + tool_bytes te < u64_bound"
    and fresh: "unused (tool_paths dir [te]) l"
  shows "scan_step (tool_bytes te) (tool_paths dir [te]) (plus_at fs sid (tool_foreign hash sid te)) u l
    (scan_tool_entry hash sid dir te (t, l))"
proof (cases "te_meta te")
  case None
  then show ?thesis by (simp add: scan_tool_entry_def tool_foreign_def tool_bytes_def scan_step_keep[OF acc])
next
  case (Some m)
  obtain is_dir len where m: "m = (is_dir, len)" by (cases m)
  define name where "name = (case te_name te of None \<Rightarrow> '''' | Some n \<Rightarrow> n)"
  show ?thesis
  proof (cases "if is_dir then scan_aux_files te t len else Inr (t, len, False)")
    case (Inl e)
    with Some m show ?thesis by (simp add: scan_tool_entry_def scan_step_Inl)
  next
    case (Inr r)
    obtain t' b v where r: "r = (t', b, v)" by (cases r)
    have b: "b = tool_bytes te" using scan_entry_bytes[of te is_dir len t t' b v] Some m Inr r by simp
    have v: "v = (is_dir \<and> files_valid te)" using scan_entry_valid Inr r by blast
    have foreign: "scan_step (tool_bytes te) ps (plus_at fs sid (tool_bytes te)) u l
        (map_option (\<lambda>l. Inr (t', l)) (note_foreign (Some sid) b l))" for ps
      using scan_step_foreign(1)[OF acc, of b] room b by simp
    have insert: "scan_step (tool_bytes te) (tool_paths dir [te]) fs u l (map_option (\<lambda>l. Inr (t', l)) (ledger_insert
        \<lparr>ae_session = sid, ae_path = [dir, AUX_TOOLS_DIR, name], ae_mtime = mt, ae_bytes = b\<rparr> l))"
      if "valid_sha256 name" for mt
    proof (rule scan_step_insert[OF acc])
      from that show "ae_path \<lparr>ae_session = sid, ae_path = [dir, AUX_TOOLS_DIR, name], ae_mtime = mt, ae_bytes = b\<rparr>
          \<in> tool_paths dir [te]"
        by (auto simp: tool_paths_def valid_sha256_def map_filter_simps name_def split: option.splits)
      from fresh show "\<forall>x\<in>set (al_entries l). ae_path (snd x) \<notin> tool_paths dir [te]" by (auto simp: unused_def)
    qed (use room b in simp_all)
    have noted: "tool_foreign hash sid te =
        (if v \<and> (is_valid_temp_name name \<and> te_removable te
            \<or> \<not> is_valid_temp_name name \<and> valid_sha256 name
              \<and> (\<exists>r mt. te_record te = Some r \<and> te_mtime te = Some mt \<and> record_matches hash sid name r))
         then 0 else tool_bytes te)"
      using Some m no_empty_name
      by (cases is_dir; cases "te_name te"; cases "te_record te"; cases "te_mtime te")
        (auto simp: tool_foreign_def v name_def is_record_dir_def is_removed_temp_def)
    show ?thesis
      using Some m Inr r foreign insert scan_step_keep[OF acc]
      unfolding scan_tool_entry_def name_def[symmetric] noted
      by (cases "is_valid_temp_name name"; cases "valid_sha256 name"; cases "te_record te"; cases "te_mtime te")
        (simp_all add: Let_def)
  qed
qed

lemma tool_paths_Cons: "tool_paths dir (te # tes) = tool_paths dir [te] \<union> tool_paths dir tes"
  by (auto simp: tool_paths_def map_filter_simps split: option.splits)

lemma tool_paths_disjoint:
  "distinct (List.map_filter te_name (te # tes)) \<Longrightarrow> tool_paths dir [te] \<inter> tool_paths dir tes = {}"
  by (auto simp: tool_paths_def map_filter_simps split: option.splits)

lemma unused_after:
  assumes "unused ps l" "\<forall>(k, e)\<in>set (al_entries l'). (k, e) \<in> set (al_entries l) \<or> ae_path e \<in> qs"
    and "ps \<inter> qs = {}"
  shows "unused ps l'"
  using assms by (fastforce simp: unused_def)

lemma unused_mono: "unused ps l \<Longrightarrow> qs \<subseteq> ps \<Longrightarrow> unused qs l"
  by (fastforce simp: unused_def)

lemma scan_tools_step:
  assumes "accounts l fs u" and "al_global l + sum_list (map tool_bytes tes) < u64_bound"
    and "unused (tool_paths dir tes) l" and "distinct (List.map_filter te_name tes)"
  shows "scan_step (sum_list (map tool_bytes tes)) (tool_paths dir tes)
    (plus_at fs sid (sum_list (map (tool_foreign hash sid) tes))) u l (scan_tools_loop hash sid dir tes (t, l))"
  using assms
proof (induction tes arbitrary: t l fs)
  case Nil
  then show ?case by (cases t) (auto simp: scan_step_Inl intro: scan_step_keep)
next
  case (Cons te tes)
  let ?ps = "tool_paths dir (te # tes)" and ?b = "sum_list (map tool_bytes (te # tes))"
  let ?f = "plus_at fs sid (sum_list (map (tool_foreign hash sid) (te # tes)))"
  have disj: "tool_paths dir [te] \<inter> tool_paths dir tes = {}" using tool_paths_disjoint Cons.prems(4) .
  have "scan_step ?b ?ps ?f u l (run_bind (scan_tool_entry hash sid dir te (t', l)) (scan_tools_loop hash sid dir tes))"
    for t'
  proof (rule scan_step_bind)
    show "scan_step (tool_bytes te) (tool_paths dir [te]) (plus_at fs sid (tool_foreign hash sid te)) u l
        (scan_tool_entry hash sid dir te (t', l))"
      using Cons.prems by (intro scan_tool_entry_step) (auto simp: tool_paths_Cons[of dir te tes] intro: unused_mono)
    fix t'' l'
    assume l': "accounts l' (plus_at fs sid (tool_foreign hash sid te)) u" "al_global l' \<le> al_global l + tool_bytes te"
      "\<forall>(k, e)\<in>set (al_entries l'). (k, e) \<in> set (al_entries l) \<or> ae_path e \<in> tool_paths dir [te]"
    have "unused (tool_paths dir tes) l'"
      using unused_after[OF _ l'(3), of "tool_paths dir tes"] disj Cons.prems(3)
      by (auto simp: tool_paths_Cons[of dir te tes] intro: unused_mono)
    with Cons.IH[OF l'(1)] l'(2) Cons.prems(2,4) have
      "scan_step (sum_list (map tool_bytes tes)) (tool_paths dir tes) ?f u l' (scan_tools_loop hash sid dir tes (t'', l'))"
      by (auto simp: map_filter_simps plus_at_plus_at split: option.splits)
    moreover have "?ps - tool_paths dir [te] = tool_paths dir tes"
      using disj by (auto simp: tool_paths_Cons[of dir te tes])
    ultimately show "scan_step (?b - tool_bytes te) (?ps - tool_paths dir [te]) ?f u l'
        (scan_tools_loop hash sid dir tes (t'', l'))" by simp
  qed (auto simp: tool_paths_Cons[of dir te tes])
  then show ?case by (simp del: run_bind_Some add: scan_step_check)
qed

lemma tool_paths_entry: "sd_name sd = Some n \<Longrightarrow> tool_paths n tes \<subseteq> entry_paths sd"
  by (auto simp: tool_paths_def entry_paths_def)

lemma scan_step_mono: "scan_step b ps fs u l r \<Longrightarrow> b \<le> b' \<Longrightarrow> ps \<subseteq> ps' \<Longrightarrow> scan_step b' ps' fs u l r"
  by (fastforce simp: scan_step_def split: option.splits sum.splits prod.splits)

text \<open>The notes of a directory entry, as one session's bytes or as unowned bytes.\<close>

lemma entry_noted:
  "being_deleted sd \<Longrightarrow> (\<lambda>s. fs s + entry_foreign hash sd s) = fs" "being_deleted sd \<Longrightarrow> entry_unowned sd = 0"
  "entry_session sd = None \<Longrightarrow> (\<lambda>s. fs s + entry_foreign hash sd s) = fs"
  "\<not> being_deleted sd \<Longrightarrow> entry_session sd = None \<Longrightarrow> entry_unowned sd = (case sd_meta sd of None \<Rightarrow> 0 | Some (_, len) \<Rightarrow> len)"
  "entry_session sd = Some sid \<Longrightarrow> entry_unowned sd = 0"
  "\<not> being_deleted sd \<Longrightarrow> entry_session sd = Some sid \<Longrightarrow> (\<lambda>s. fs s + entry_foreign hash sd s)
     = plus_at fs sid (case sd_tools sd of ToolsListed tes \<Rightarrow> sum_list (map (tool_foreign hash sid) tes) | other \<Rightarrow> tools_bytes other)"
  by (auto simp: entry_foreign_def entry_unowned_def plus_at_def fun_eq_iff)

lemma scan_session_alive:
  assumes "\<not> being_deleted sd" "sd_meta sd = Some (is_dir, len)"
  shows "entry_session sd = None \<Longrightarrow>
      scan_session_entry hash sd (t, l) = map_option (\<lambda>l. Inr (t, l)) (note_foreign None len l)"
    and "entry_session sd = Some sid \<Longrightarrow> sd_name sd = Some n \<Longrightarrow>
      scan_session_entry hash sd (t, l) =
       (case sd_tools sd of
          ToolsListed tes \<Rightarrow> scan_tools_loop hash sid n tes (t, l)
        | ToolsAbsent \<Rightarrow> Some (Inr (t, l))
        | other \<Rightarrow> map_option (\<lambda>l. Inr (t, l)) (note_foreign (Some sid) (tools_bytes other) l))"
  using assms(2) assms(1)[unfolded being_deleted_def]
  by (auto simp: scan_session_entry_def entry_session_def split: option.splits bool.splits sum.splits ToolsDir.splits)

lemma scan_session_step:
  assumes acc: "accounts l fs u" and room: "al_global l + entry_bytes sd < u64_bound"
    and fresh: "unused (entry_paths sd) l"
    and names: "\<And>tes. sd_tools sd = ToolsListed tes \<Longrightarrow> distinct (List.map_filter te_name tes)"
  shows "scan_step (entry_bytes sd) (entry_paths sd) (\<lambda>s. fs s + entry_foreign hash sd s) (u + entry_unowned sd) l
    (scan_session_entry hash sd (t, l))"
proof -
  have keep: "scan_step b ps fs u l (Some (Inr (t, l)))" for b ps by (rule scan_step_keep[OF acc])
  have foreign: "scan_step (entry_bytes sd) ps (plus_at fs s b) u l (map_option (\<lambda>l. Inr (t, l)) (note_foreign (Some s) b l))"
    "scan_step (entry_bytes sd) ps fs (u + b) l (map_option (\<lambda>l. Inr (t, l)) (note_foreign None b l))"
    if "b \<le> entry_bytes sd" for ps s b
    using that room by (intro scan_step_foreign[OF acc]; simp)+
  have tools: "scan_step (entry_bytes sd) (entry_paths sd) (plus_at fs sid (sum_list (map (tool_foreign hash sid) tes))) u l
      (scan_tools_loop hash sid n tes (t, l))"
    if "sd_name sd = Some n" "sd_tools sd = ToolsListed tes" "sum_list (map tool_bytes tes) \<le> entry_bytes sd"
    for sid n tes
    by (rule scan_step_mono[OF scan_tools_step[OF acc]])
      (use that room fresh names tool_paths_entry[of sd n tes] in \<open>auto intro: unused_mono\<close>)
  show ?thesis
  proof (cases "being_deleted sd")
    case True
    then have "scan_session_entry hash sd (t, l) = Some (Inr (t, l))"
      unfolding scan_session_entry_def being_deleted_def by simp
    with True show ?thesis by (simp add: entry_noted keep)
  next
    case alive: False
    show ?thesis
    proof (cases "sd_meta sd")
      case None
      moreover from this have "entry_session sd = None" by (simp add: entry_session_def split: option.split)
      moreover have "scan_session_entry hash sd (t, l) = Some (Inr (t, l))"
        using None by (simp add: scan_session_entry_def)
      ultimately show ?thesis using alive by (simp add: entry_noted keep)
    next
      case (Some m)
      obtain is_dir len where m: "m = (is_dir, len)" by (cases m)
      have b: "len \<le> entry_bytes sd" "tools_bytes (sd_tools sd) \<le> entry_bytes sd"
        using Some m by (simp_all add: entry_bytes_def)
      show ?thesis
      proof (cases "entry_session sd")
        case None
        with foreign(2)[OF b(1)] Some m alive show ?thesis by (simp add: entry_noted scan_session_alive)
      next
        case sid: (Some sid)
        then obtain n where n: "sd_name sd = Some n" by (auto simp: entry_session_def split: option.splits)
        from scan_session_alive(2)[OF alive _ sid n] Some m b n keep foreign(1) tools alive sid show ?thesis
          by (cases "sd_tools sd") (simp_all add: entry_noted)
      qed
    qed
  qed
qed

lemma entry_paths_disjoint:
  "distinct (List.map_filter sd_name (sd # sds)) \<Longrightarrow> sd' \<in> set sds \<Longrightarrow> entry_paths sd \<inter> entry_paths sd' = {}"
  by (force simp: entry_paths_def List.map_filter_def)

lemma scan_sessions_step:
  assumes "accounts l fs u" and "al_global l + sum_list (map entry_bytes sds) < u64_bound"
    and "unused (\<Union>(entry_paths ` set sds)) l" and "distinct (List.map_filter sd_name sds)"
    and "\<forall>sd\<in>set sds. \<forall>tes. sd_tools sd = ToolsListed tes \<longrightarrow> distinct (List.map_filter te_name tes)"
  shows "scan_step (sum_list (map entry_bytes sds)) (\<Union>(entry_paths ` set sds))
    (\<lambda>s. fs s + sum_list (map (\<lambda>sd. entry_foreign hash sd s) sds)) (u + sum_list (map entry_unowned sds)) l
    (scan_sessions_loop hash sds fault (t, l))"
  using assms
proof (induction sds arbitrary: t l fs u)
  case Nil
  then show ?case by (cases t) (auto simp: scan_step_Inl intro: scan_step_keep)
next
  case (Cons sd sds)
  let ?ps = "\<Union>(entry_paths ` set (sd # sds))" and ?b = "sum_list (map entry_bytes (sd # sds))"
  let ?f = "\<lambda>s. fs s + sum_list (map (\<lambda>sd. entry_foreign hash sd s) (sd # sds))"
    and ?u = "u + sum_list (map entry_unowned (sd # sds))"
  have disj: "entry_paths sd \<inter> \<Union>(entry_paths ` set sds) = {}"
    using entry_paths_disjoint[OF Cons.prems(4)] by blast
  have "scan_step ?b ?ps ?f ?u l (run_bind (scan_session_entry hash sd (t', l)) (scan_sessions_loop hash sds fault))" for t'
  proof (rule scan_step_bind)
    show "scan_step (entry_bytes sd) (entry_paths sd) (\<lambda>s. fs s + entry_foreign hash sd s) (u + entry_unowned sd) l
        (scan_session_entry hash sd (t', l))"
      using Cons.prems by (intro scan_session_step) (auto intro: unused_mono)
    fix t'' l'
    assume l': "accounts l' (\<lambda>s. fs s + entry_foreign hash sd s) (u + entry_unowned sd)"
      "al_global l' \<le> al_global l + entry_bytes sd"
      "\<forall>(k, e)\<in>set (al_entries l'). (k, e) \<in> set (al_entries l) \<or> ae_path e \<in> entry_paths sd"
    have "unused (\<Union>(entry_paths ` set sds)) l'"
      using unused_after[OF _ l'(3), of "\<Union>(entry_paths ` set sds)"] disj Cons.prems(3)
      by (auto intro: unused_mono)
    with Cons.IH[OF l'(1)] l'(2) Cons.prems(2,4,5) have
      "scan_step (sum_list (map entry_bytes sds)) (\<Union>(entry_paths ` set sds)) ?f ?u l'
        (scan_sessions_loop hash sds fault (t'', l'))"
      by (auto simp: map_filter_simps add.assoc split: option.splits)
    moreover have "?ps - entry_paths sd = \<Union>(entry_paths ` set sds)" using disj by auto
    ultimately show "scan_step (?b - entry_bytes sd) (?ps - entry_paths sd) ?f ?u l'
        (scan_sessions_loop hash sds fault (t'', l'))" by simp
  qed auto
  then show ?case by (simp del: run_bind_Some add: scan_step_check)
qed

lemma scan_aux_ledger_ok:
  assumes "listing_ok li" "listing_bytes li < u64_bound"
  shows "\<exists>r. scan_aux_ledger hash li t = Some r
    \<and> (\<forall>t' l. r = Inr (t', l) \<longrightarrow> accounts l (listing_foreign hash li) (listing_unowned li))"
proof (cases "li_root li")
  case (Inr _)
  have "scan_step (listing_bytes li) (\<Union>(entry_paths ` set (li_entries li))) (\<lambda>s. 0 + listing_foreign hash li s)
    (0 + listing_unowned li) ledger_default
    (scan_sessions_loop hash (li_entries li) (li_fault li) (t, ledger_default))"
    unfolding listing_bytes_def listing_foreign_def listing_unowned_def using assms
    by (intro scan_sessions_step[OF accounts_default])
      (auto simp: listing_ok_def listing_bytes_def unused_def ledger_default_def)
  with Inr show ?thesis by (auto simp: scan_aux_ledger_def scan_step_def split: option.splits sum.splits)
qed (simp add: scan_aux_ledger_def)

section \<open>Commits keep the account\<close>

definition target_path :: "codec \<Rightarrow> ToolPersistenceSnapshot \<Rightarrow> DirPath" where
  "target_path cd snap = [encode_session_id (tr_session (sn_ref snap)), AUX_TOOLS_DIR, tool_ref_hash cd (sn_ref snap)]"

text \<open>
  What is assumed of the answers: listings name entries once and the sizes fit 64 bits, and a
  target directory that is reported missing is not one the ledger accounts for, that is, nobody
  else removes record directories while the store is open.
\<close>

definition answers_ok :: "codec \<Rightarrow> CommitIo \<Rightarrow> ToolPersistenceSnapshot \<Rightarrow> AuxLedger option \<Rightarrow> bool" where
  "answers_ok cd io snap ledger =
     (listing_ok (ci_listing io) \<and> listing_bytes (ci_listing io) < u64_bound
      \<and> (ci_target io = Inr False \<longrightarrow>
          (case ledger of
             Some l \<Rightarrow> unused {target_path cd snap} l
           | None \<Rightarrow> \<forall>t t' l. scan_aux_ledger (tool_ref_hash cd) (ci_listing io) t = Some (Inr (t', l))
                      \<longrightarrow> unused {target_path cd snap} l)))"

definition aux_limits_ok :: "AuxLimits \<Rightarrow> bool" where
  "aux_limits_ok lim = (session_bytes lim < u64_bound - 1 \<and> global_bytes lim < u64_bound - 1)"

text \<open>
  A ledger that is present accounts for its entries and for what was noted by the scan that built
  it; \<open>notes_after\<close> is what is noted once a commit has run, which scans when the ledger is absent.
\<close>

definition ledger_exact :: "AuxLedger option \<Rightarrow> scan_notes \<Rightarrow> bool" where
  "ledger_exact ledger noted = (\<forall>l. ledger = Some l \<longrightarrow> accounts l (fst noted) (snd noted))"

definition notes_after :: "codec \<Rightarrow> CommitIo \<Rightarrow> AuxLedger option \<Rightarrow> scan_notes \<Rightarrow> scan_notes" where
  "notes_after cd io ledger noted =
     (case ledger of
        Some _ \<Rightarrow> noted
      | None \<Rightarrow> (listing_foreign (tool_ref_hash cd) (ci_listing io), listing_unowned (ci_listing io)))"

definition within_aux_limits :: "AuxLimits \<Rightarrow> SessionId \<Rightarrow> AuxLedger \<Rightarrow> bool" where
  "within_aux_limits lim s l =
     (fst (session_totals l s) \<le> session_bytes lim \<and> snd (session_totals l s) \<le> session_records lim
      \<and> al_global l \<le> global_bytes lim \<and> length (al_entries l) \<le> global_records lim)"

lemma ledger_exact_simps [simp]:
  "ledger_exact None noted" "ledger_exact (Some l) noted = accounts l (fst noted) (snd noted)"
  by (auto simp: ledger_exact_def)

lemma bt_insert_length: "k \<notin> fst ` set m \<Longrightarrow> length (bt_insert k v m) = Suc (length m)"
  using bt_insert_sum[of k m "\<lambda>_. 1" v] by (simp add: sum_list_triv)

lemma evicts_subset: "evicts lim s b l l' \<Longrightarrow> accounts l fs u \<Longrightarrow> set (al_entries l') \<subseteq> set (al_entries l)"
proof (induction rule: evicts.induct)
  case (evict l x l' l'')
  from evict(2) obtain k e where "x = (k, e)" "(k, e) \<in> set (al_entries l)" by (cases x) (auto simp: is_victim_def)
  with ledger_remove_ok[OF evict.prems, of k e] evict show ?case by fastforce
qed simp

lemma item_reserve:
  assumes "b \<le> MAX_TOOL_METADATA_BYTES + MAX_RECORD_BLOB_BYTES"
  shows "b \<le> sat_double b"
  using assms by (simp add: sat_double_def MAX_TOOL_METADATA_BYTES_def MAX_RECORD_BLOB_BYTES_def u64_bound_def)

definition new_entry :: "codec \<Rightarrow> CommitIo \<Rightarrow> ToolPersistenceSnapshot \<Rightarrow> nat \<Rightarrow> AuxDirectoryEntry" where
  "new_entry cd io snap b = \<lparr>ae_session = tr_session (sn_ref snap), ae_path = target_path cd snap,
     ae_mtime = ci_now io, ae_bytes = b\<rparr>"

lemma insert_in_room:
  assumes acc: "accounts l fs u" and room: "room_for lim (tr_session (sn_ref snap)) reserve l" and "b \<le> reserve"
    and fresh: "unused {target_path cd snap} l" and lim: "aux_limits_ok lim"
  shows "\<exists>l'. ledger_insert (new_entry cd io snap b) l = Some l' \<and> accounts l' fs u
    \<and> within_aux_limits lim (tr_session (sn_ref snap)) l'
    \<and> al_entries l' = bt_insert (ci_now io, target_path cd snap) (new_entry cd io snap b) (al_entries l)"
proof -
  let ?s = "tr_session (sn_ref snap)" and ?e = "new_entry cd io snap b"
  have key: "(ae_mtime ?e, ae_path ?e) = (ci_now io, target_path cd snap)" by (simp add: new_entry_def)
  from room lim have r: "al_global l + reserve \<le> global_bytes lim" "length (al_entries l) + 1 \<le> global_records lim"
      "fst (session_totals l ?s) + reserve \<le> session_bytes lim" "snd (session_totals l ?s) + 1 \<le> session_records lim"
    by (auto simp: room_for_def aux_session_full_def aux_global_full_def aux_limits_ok_def sat_add_def min_def split: if_splits)
  have fresh': "(ae_mtime ?e, ae_path ?e) \<notin> fst ` set (al_entries l)"
    using accountsD(3)[OF acc] fresh by (fastforce simp: key unused_def)
  moreover have "al_global l + ae_bytes ?e < u64_bound"
    using r(1) \<open>b \<le> reserve\<close> lim by (auto simp: new_entry_def aux_limits_ok_def)
  ultimately obtain l' where l': "ledger_insert ?e l = Some l'" "accounts l' fs u"
    "al_entries l' = bt_insert (ae_mtime ?e, ae_path ?e) ?e (al_entries l)" "al_global l' = al_global l + b"
    "session_totals l' ?s = (fst (session_totals l ?s) + b, snd (session_totals l ?s) + 1)"
    using ledger_insert_ok[OF acc, of ?e] by (auto simp: new_entry_def)
  moreover have "within_aux_limits lim ?s l'"
    using r l' \<open>b \<le> reserve\<close> bt_insert_length[OF fresh', of ?e] by (simp add: within_aux_limits_def)
  ultimately show ?thesis unfolding key by blast
qed

text \<open>How a commit may leave the ledger that had room for it.\<close>

definition published ::
  "codec \<Rightarrow> AuxLimits \<Rightarrow> CommitIo \<Rightarrow> ToolPersistenceSnapshot \<Rightarrow> nat \<Rightarrow> AuxLedger
   \<Rightarrow> scan_notes \<Rightarrow> (StoreError + unit) \<times> AuxLedger option \<Rightarrow> bool" where
  "published cd lim io snap b l noted r =
     (case snd r of
        None \<Rightarrow> fst r \<noteq> Inr ()
      | Some l' \<Rightarrow>
          accounts l' (fst noted) (snd noted) \<and> (fst r \<noteq> Inr () \<and> l' = l
          \<or> within_aux_limits lim (tr_session (sn_ref snap)) l'
            \<and> al_entries l' = bt_insert (ci_now io, target_path cd snap) (new_entry cd io snap b) (al_entries l)))"

lemma publish_record_ok:
  assumes acc: "accounts l fs u" and "room_for lim (tr_session (sn_ref snap)) reserve l" "b \<le> reserve"
    and "unused {target_path cd snap} l" "aux_limits_ok lim"
  shows "\<exists>r. publish_record cd io snap b t (Some l) = Some r \<and> published cd lim io snap b l (fs, u) r"
proof -
  from insert_in_room[OF assms, of io] obtain l' where
    ins: "ledger_insert (new_entry cd io snap b) l = Some l'" "accounts l' fs u"
      "within_aux_limits lim (tr_session (sn_ref snap)) l'"
      "al_entries l' = bt_insert (ci_now io, target_path cd snap) (new_entry cd io snap b) (al_entries l)"
    by blast
  have kept: "published cd lim io snap b l (fs, u) (Inl e, Some l)" for e
    using acc by (simp add: published_def)
  have lost: "published cd lim io snap b l (fs, u) (Inl e, None)" for e by (simp add: published_def)
  have discarded: "published cd lim io snap b l (fs, u) (Inl e, discard_aux_temp io (Some l))" for e
    by (simp add: discard_aux_temp_def kept lost)
  have new: "published cd lim io snap b l (fs, u) (r, Some l')" for r
    using ins(2-4) by (simp add: published_def)
  show ?thesis
    unfolding publish_record_def new_entry_def[of cd io snap, unfolded target_path_def, symmetric] target_path_def[symmetric]
    using kept discarded new ins(1)
    by (simp add: new_entry_def[symmetric] split: sum.split)
qed

lemma unused_evicted: "unused ps l \<Longrightarrow> accounts l fs u \<Longrightarrow> evicts lim s b l l' \<Longrightarrow> unused ps l'"
  using evicts_subset by (fastforce simp: unused_def)

lemma verify_blobs_total: "list_all blob_digest_ok bs \<Longrightarrow> \<exists>r. verify_blobs cd io bs = Some r"
proof (induction bs)
  case (Cons b bs)
  obtain name bytes hash where b: "b = (name, bytes, hash)" by (cases b)
  with Cons.prems read_blob_validated[of name bytes hash "hash_bytes cd" "ci_blob io name"] obtain content bad
    where "read_blob (hash_bytes cd) (ci_blob io name) bytes hash = Some (content, bad)" by auto
  with Cons b show ?case by simp
qed simp

lemma verify_existing_total: "\<exists>r. verify_existing cd io snap = Some r"
proof (cases "read_tool_metadata io (sn_ref snap)")
  case (Inr m)
  have "\<exists>r. verify_blobs cd io (stored_blobs existing) = Some r" if "m = Some existing" for existing
    using Inr that verify_blobs_total validated_parts(8)
    by (fastforce simp: read_tool_metadata_def split: option.splits)
  with Inr show ?thesis by (auto simp: verify_existing_def split: option.split)
qed (simp add: verify_existing_def)

text \<open>
  How a commit ends: nothing happened; or a ledger with room was reached by evictions and the
  record was published or not; or the room could not be made.
\<close>

definition committed ::
  "codec \<Rightarrow> AuxLimits \<Rightarrow> CommitIo \<Rightarrow> ToolPersistenceSnapshot \<Rightarrow> AuxLedger option
   \<Rightarrow> scan_notes \<Rightarrow> (StoreError + unit) \<times> AuxLedger option \<Rightarrow> bool" where
  "committed cd lim io snap ledger noted r =
     (ledger_exact (snd r) noted
      \<and> (fst r = Inr () \<and> ci_target io = Inr False \<longrightarrow>
          (\<exists>l reserve l1 l' b rjson. record_json cd (sn_record snap) = Some rjson \<and> b = length rjson + raw_bytes snap \<and> (ledger = Some l
              \<or> ledger = None \<and> (\<exists>t t'. scan_aux_ledger (tool_ref_hash cd) (ci_listing io) t = Some (Inr (t', l))))
            \<and> reserve = sat_double b \<and> evicts lim (tr_session (sn_ref snap)) reserve l l1
            \<and> room_for lim (tr_session (sn_ref snap)) reserve l1
            \<and> snd r = Some l' \<and> within_aux_limits lim (tr_session (sn_ref snap)) l'
            \<and> al_entries l' = bt_insert (ci_now io, target_path cd snap) (new_entry cd io snap b) (al_entries l1))))"

lemma enforce_commit_ok:
  assumes acc: "accounts l fs u" and fresh: "unused {target_path cd snap} l" and lim: "aux_limits_ok lim"
    and b: "b \<le> sat_double b" "record_json cd (sn_record snap) = Some rjson" "b = length rjson + raw_bytes snap"
    and src: "ledger = Some l \<or> ledger = None
      \<and> (\<exists>t t'. scan_aux_ledger (tool_ref_hash cd) (ci_listing io) t = Some (Inr (t', l)))"
  shows "\<exists>r. (case enforce_loop (tr_session (sn_ref snap)) (sat_double b) lim (ci_removable io) t l of
          None \<Rightarrow> None
        | Some (Inl e, ledger) \<Rightarrow> Some (Inl e, ledger)
        | Some (Inr t, ledger) \<Rightarrow> publish_record cd io snap b t ledger) = Some r
      \<and> committed cd lim io snap ledger (fs, u) r"
proof -
  let ?s = "tr_session (sn_ref snap)"
  from enforce_loop_ok[OF acc, of ?s "sat_double b" lim "ci_removable io" t] obtain res lo where
    run: "enforce_loop ?s (sat_double b) lim (ci_removable io) t l = Some (res, lo)"
      "enforced lim ?s (sat_double b) (ci_removable io) t l fs u (res, lo)" by auto
  show ?thesis
  proof (cases res)
    case (Inl e)
    with run show ?thesis
      by (cases lo) (auto simp: committed_def enforced_def)
  next
    case (Inr t')
    with run(2) obtain l1 where l1: "lo = Some l1" "accounts l1 fs u" "evicts lim ?s (sat_double b) l l1"
      "room_for lim ?s (sat_double b) l1" by (cases lo) (auto simp: enforced_def)
    from publish_record_ok[OF l1(2,4) b(1) unused_evicted[OF fresh acc l1(3)] lim, of io t'] obtain r where
      r: "publish_record cd io snap b t' (Some l1) = Some r" "published cd lim io snap b l1 (fs, u) r" by blast
    from r(2) have "ledger_exact (snd r) (fs, u)" by (auto simp: published_def split: option.splits)
    moreover from r(2) have "\<exists>l'. snd r = Some l' \<and> within_aux_limits lim ?s l'
        \<and> al_entries l' = bt_insert (ci_now io, target_path cd snap) (new_entry cd io snap b) (al_entries l1)"
      if "fst r = Inr ()" using that by (auto simp: published_def split: option.splits)
    ultimately have "committed cd lim io snap ledger (fs, u) r"
      unfolding committed_def using src l1(3,4) b(2,3) by blast
    with run(1) Inr l1(1) r(1) show ?thesis by auto
  qed
qed

lemma commit_ok:
  assumes "ledger_exact ledger noted" "answers_ok cd io snap ledger" "aux_limits_ok lim"
  shows "\<exists>r. commit_tool_record_locked cd lim io snap ledger = Some r 
    \<and> committed cd lim io snap ledger (notes_after cd io ledger noted) r"
proof (cases "\<exists>t rjson. ci_ticks io = Suc t \<and> validate_stored_tool_record (sn_record snap) (sn_ref snap) = Inr ()
    \<and> raw_bytes snap \<le> MAX_RECORD_BLOB_BYTES \<and> ci_session io = Inr () \<and> ci_tools io \<in> {Inr Directory, Inr PathMissing}
    \<and> ci_target io = Inr False \<and> record_json cd (sn_record snap) = Some rjson
    \<and> length rjson \<le> MAX_TOOL_METADATA_BYTES")
  case True
  then obtain t rjson where go: "ci_ticks io = Suc t"
    "validate_stored_tool_record (sn_record snap) (sn_ref snap) = Inr ()" "raw_bytes snap \<le> MAX_RECORD_BLOB_BYTES"
    "ci_session io = Inr ()" "ci_tools io \<in> {Inr Directory, Inr PathMissing}" "ci_target io = Inr False"
    "record_json cd (sn_record snap) = Some rjson" "length rjson \<le> MAX_TOOL_METADATA_BYTES" by blast
  let ?b = "length rjson + raw_bytes snap"
  have b: "?b \<le> sat_double ?b" using go by (intro item_reserve) simp
  have run: "commit_tool_record_locked cd lim io snap ledger =
      (case enforce_aux_budget_locked (tool_ref_hash cd) (ci_listing io) (ci_removable io)
               (tr_session (sn_ref snap)) (sat_double ?b) lim t ledger of
          None \<Rightarrow> None
        | Some (Inl e, ledger) \<Rightarrow> Some (Inl e, ledger)
        | Some (Inr t, ledger) \<Rightarrow> publish_record cd io snap ?b t ledger)"
    using go by (auto simp: commit_tool_record_locked_def Let_def)
  show ?thesis
  proof (cases ledger)
    case (Some l)
    with assms(1) have acc: "accounts l (fst noted) (snd noted)" by simp
    from assms(2) go(6) Some have "unused {target_path cd snap} l" by (simp add: answers_ok_def)
    from enforce_commit_ok[OF acc this assms(3) b go(7) refl, of ledger io t] Some show ?thesis
      unfolding run by (simp add: enforce_aux_budget_locked_def notes_after_def)
  next
    case None
    let ?f = "listing_foreign (tool_ref_hash cd) (ci_listing io)" and ?u = "listing_unowned (ci_listing io)"
    from assms(2) have "listing_ok (ci_listing io)" "listing_bytes (ci_listing io) < u64_bound"
      by (simp_all add: answers_ok_def)
    from scan_aux_ledger_ok[OF this, of "tool_ref_hash cd" t] obtain r where
      r: "scan_aux_ledger (tool_ref_hash cd) (ci_listing io) t = Some r" "\<forall>t' l. r = Inr (t', l) \<longrightarrow> accounts l ?f ?u" by blast
    show ?thesis
    proof (cases r)
      case (Inl e)
      with None r(1) show ?thesis
        unfolding run by (simp add: enforce_aux_budget_locked_def committed_def)
    next
      case (Inr p)
      obtain t' l where p: "p = (t', l)" by (cases p)
      with Inr r(2) have acc: "accounts l ?f ?u" by simp
      have "unused {target_path cd snap} l"
        using assms(2) go(6) None r(1) Inr p by (simp add: answers_ok_def)
      from enforce_commit_ok[OF acc this assms(3) b go(7) refl, of ledger io t'] None r(1) Inr p show ?thesis
        unfolding run by (auto simp: enforce_aux_budget_locked_def notes_after_def)
    qed
  qed
next
  case False
  have kept: "ledger_exact ledger (notes_after cd io ledger noted)"
    using assms(1) by (cases ledger) (simp_all add: notes_after_def)
  then have same: "committed cd lim io snap ledger (notes_after cd io ledger noted) (Inl e, ledger)" for e
    by (simp add: committed_def)
  show ?thesis
  proof (cases "ci_target io = Inr True")
    case True
    then have "committed cd lim io snap ledger (notes_after cd io ledger noted) (r, ledger)" for r
      using kept by (simp add: committed_def)
    with same verify_existing_total[of cd io snap] True show ?thesis
      by (auto simp: commit_tool_record_locked_def split: sum.split)
  next
    case other: False
    from False other same show ?thesis
      by (auto simp: commit_tool_record_locked_def check_deadline_Inr not_le split: sum.split option.split bool.split)
  qed
qed

section \<open>Batches, deletion and the whole life of the ledger\<close>

fun batch_ok ::
  "codec \<Rightarrow> AuxLimits \<Rightarrow> (ToolRef \<Rightarrow> ToolPersistenceSnapshot option) \<Rightarrow> (ToolRef \<times> CommitIo) list
   \<Rightarrow> AuxLedger option \<Rightarrow> bool" where
  "batch_ok cd lim snapshot [] ledger = True"
| "batch_ok cd lim snapshot ((ref, io) # rest) ledger =
     (case snapshot ref of
        None \<Rightarrow> batch_ok cd lim snapshot rest ledger
      | Some snap \<Rightarrow> answers_ok cd io snap ledger
          \<and> (case commit_tool_record_locked cd lim io snap ledger of
               None \<Rightarrow> True
             | Some (_, ledger') \<Rightarrow> batch_ok cd lim snapshot rest ledger'))"

lemma persist_expired:
  "persist_loop cd lim snapshot refs True ledger = Some (map (\<lambda>(ref, _). (ref, Inl Unavailable)) refs, ledger)"
  by (induction refs) auto

text \<open>
  The life of the ledger together with what its scan noted: a commit, which scans when there is no
  ledger, and the deletion of a session, after which nothing of the session is noted any more.
\<close>

definition forget :: "SessionId \<Rightarrow> scan_notes \<Rightarrow> scan_notes" where
  "forget sid noted = ((fst noted)(sid := 0), snd noted)"

inductive aux_step :: "codec \<Rightarrow> AuxLedger option \<times> scan_notes \<Rightarrow> AuxLedger option \<times> scan_notes \<Rightarrow> bool" for cd where
  commit: "answers_ok cd io snap ledger
    \<Longrightarrow> commit_tool_record_locked cd DEFAULT_AUX_LIMITS io snap ledger = Some (res, ledger')
    \<Longrightarrow> aux_step cd (ledger, noted) (ledger', notes_after cd io ledger noted)"
| delete: "delete_session io sid ledger = Some (r, ledger')
    \<Longrightarrow> aux_step cd (ledger, noted) (ledger', if r = Inr () then forget sid noted else noted)"

inductive_cases aux_stepE: "aux_step cd st st'"

lemma default_limits_fit: "aux_limits_ok DEFAULT_AUX_LIMITS"
  by (simp add: aux_limits_ok_def DEFAULT_AUX_LIMITS_def u64_bound_def)

lemma persist_loop_ok:
  assumes "ledger_exact ledger noted" "batch_ok cd DEFAULT_AUX_LIMITS snapshot refs ledger"
  shows "\<exists>rs ledger' noted'. persist_loop cd DEFAULT_AUX_LIMITS snapshot refs expired ledger = Some (rs, ledger')
    \<and> (aux_step cd)\<^sup>*\<^sup>* (ledger, noted) (ledger', noted') \<and> map fst rs = map fst refs"
  using assms
proof (induction refs arbitrary: expired ledger noted)
  case (Cons x rest)
  obtain ref io where x: "x = (ref, io)" by (cases x)
  show ?case
  proof (cases "expired \<or> ci_late_before io")
    case True
    with x show ?thesis by (auto simp: persist_expired simp del: split_paired_Ex)
  next
    case False
    show ?thesis
    proof (cases "snapshot ref")
      case None
      with False x Cons.prems Cons.IH[of ledger noted expired] show ?thesis by (auto simp del: split_paired_Ex)
    next
      case (Some snap)
      with x Cons.prems have answers: "answers_ok cd io snap ledger" by simp
      let ?noted = "notes_after cd io ledger noted"
      from commit_ok[OF Cons.prems(1) answers default_limits_fit] obtain res ledger' where
        c: "commit_tool_record_locked cd DEFAULT_AUX_LIMITS io snap ledger = Some (res, ledger')"
          "committed cd DEFAULT_AUX_LIMITS io snap ledger ?noted (res, ledger')" by auto
      then have "ledger_exact ledger' ?noted" by (simp add: committed_def)
      moreover from Cons.prems(2) x Some c(1) have "batch_ok cd DEFAULT_AUX_LIMITS snapshot rest ledger'" by simp
      ultimately obtain rs ledger'' noted'' where
        "persist_loop cd DEFAULT_AUX_LIMITS snapshot rest (expired \<or> res = Inl QueryLimit \<or> ci_late_after io) ledger'
          = Some (rs, ledger'')" "(aux_step cd)\<^sup>*\<^sup>* (ledger', ?noted) (ledger'', noted'')" "map fst rs = map fst rest"
        using Cons.IH by blast
      moreover from this(2) aux_step.commit[OF answers c(1), of noted] have
        "(aux_step cd)\<^sup>*\<^sup>* (ledger, noted) (ledger'', noted'')" by (rule converse_rtranclp_into_rtranclp[rotated])
      ultimately show ?thesis using False x Some c(1) by (auto simp del: split_paired_Ex)
    qed
  qed
qed (auto simp del: split_paired_Ex)

lemma persist_ok:
  assumes "ledger_exact ledger noted" "batch_ok cd DEFAULT_AUX_LIMITS snapshot refs ledger"
  shows "\<exists>rs ledger' noted'. persist_loop_tool_records cd DEFAULT_AUX_LIMITS snapshot refs locked ledger = Some (rs, ledger')
    \<and> (aux_step cd)\<^sup>*\<^sup>* (ledger, noted) (ledger', noted') \<and> map fst rs = map fst refs"
  using persist_loop_ok[OF assms, of False]
  by (auto simp: persist_loop_tool_records_def case_prod_beta comp_def simp del: split_paired_Ex)

lemma delete_session_ok:
  assumes "ledger_exact ledger noted"
  shows "\<exists>r ledger'. delete_session io sid ledger = Some (r, ledger')
    \<and> ledger_exact ledger' (if r = Inr () then forget sid noted else noted)
    \<and> (\<forall>l' x. r = Inr () \<longrightarrow> ledger' = Some l' \<longrightarrow> x \<in> set (al_entries l') \<longrightarrow> ae_session (snd x) \<noteq> sid)
    \<and> (\<forall>l'. r = Inr () \<longrightarrow> ledger' = Some l' \<longrightarrow> al_sessions l' sid = None)"
proof (cases ledger)
  case None
  then show ?thesis by (auto simp: delete_session_def split: sum.split)
next
  case (Some l)
  with assms have acc: "accounts l (fst noted) (snd noted)" by simp
  from remove_session_ok[OF acc, of sid] obtain l' where l': "remove_session sid l = Some l'"
    "accounts l' ((fst noted)(sid := 0)) (snd noted)"
    "al_entries l' = filter (\<lambda>(_, e). ae_session e \<noteq> sid) (al_entries l)" by blast
  moreover have "al_sessions l' sid = None" using l'(1) by (auto simp: remove_session_def)
  ultimately show ?thesis
    using Some assms by (auto simp: delete_session_def forget_def split: sum.split)
qed

definition aux_inv :: "AuxLedger option \<times> scan_notes \<Rightarrow> bool" where
  "aux_inv st = ledger_exact (fst st) (snd st)"

lemma aux_step_exact:
  assumes "aux_inv st" "aux_step cd st st'"
  shows "aux_inv st'"
  using assms(2)
proof cases
  case (commit io snap ledger res ledger' noted)
  with commit_ok[OF _ commit(3) default_limits_fit, of noted] assms(1) show ?thesis
    by (auto simp: aux_inv_def committed_def)
next
  case (delete io sid ledger r ledger' noted)
  with delete_session_ok[of ledger noted io sid] assms(1) show ?thesis by (auto simp: aux_inv_def)
qed

interpretation aux: invariant_system "\<lambda>st. st = (None, \<lambda>_. 0, 0)" "aux_step cd" aux_inv for cd
  by unfold_locales (auto simp: aux_inv_def[of "(None, _)"] intro: aux_step_exact)

section \<open>Properties\<close>

text \<open>C14: Whatever tool records are committed and sessions deleted, with any failures of the file
  system and any deadline, the ledger is either absent, to be rebuilt by a scan, or exact: the bytes and
  record counts of every session are the sums over the entries recorded for it plus the bytes that the scan
  which built the ledger found under that session and that are no valid record (none after the session was deleted), and
  the global bytes are the sum over the sessions plus the bytes of entries of no session in that
  scan's listing. What was noted changes with a scan or a deletion only, so every insertion charges
  and every removal refunds exactly the bytes of its entry. A batch never panics, answers every reference
  in order and is a sequence of such commits; a deletion never panics and leaves nothing of
  the session accounted for.\<close>

theorem aux_ledger_exact:
  assumes "(aux_step cd)\<^sup>*\<^sup>* (None, \<lambda>_. 0, 0) (ledger, foreign, unowned)"
  shows "(\<forall>l. ledger = Some l \<longrightarrow>
        (\<forall>s. session_totals l s = (bytes_in s (al_entries l) + foreign s, count_in s (al_entries l)))
        \<and> al_global l = (\<Sum>s\<in>dom (al_sessions l). bytes_in s (al_entries l) + foreign s) + unowned
        \<and> sorted_wrt (<) (map fst (al_entries l)))
    \<and> (batch_ok cd DEFAULT_AUX_LIMITS snapshot refs ledger \<longrightarrow>
        (\<exists>rs ledger' noted'. persist_loop_tool_records cd DEFAULT_AUX_LIMITS snapshot refs locked ledger = Some (rs, ledger')
          \<and> map fst rs = map fst refs \<and> (aux_step cd)\<^sup>*\<^sup>* (ledger, foreign, unowned) (ledger', noted')))
    \<and> (\<exists>r ledger'. delete_session io sid ledger = Some (r, ledger')
        \<and> (r = Inr () \<longrightarrow> aux_step cd (ledger, foreign, unowned) (ledger', foreign(sid := 0), unowned)
          \<and> (\<forall>l'. ledger' = Some l' \<longrightarrow>
            al_sessions l' sid = None \<and> (\<forall>x\<in>set (al_entries l'). ae_session (snd x) \<noteq> sid))))"
proof -
  have exact: "ledger_exact ledger (foreign, unowned)"
    using aux.reachable_inv[OF refl assms] by (simp add: aux_inv_def)
  have "(\<forall>s. session_totals l s = (bytes_in s (al_entries l) + foreign s, count_in s (al_entries l)))
        \<and> al_global l = (\<Sum>s\<in>dom (al_sessions l). bytes_in s (al_entries l) + foreign s) + unowned
        \<and> sorted_wrt (<) (map fst (al_entries l))" if "ledger = Some l" for l
  proof -
    from exact that have "accounts l foreign unowned" by simp
    note d = accountsD[OF this]
    from d(5,6) have "al_global l = (\<Sum>s\<in>dom (al_sessions l). bytes_in s (al_entries l) + foreign s) + unowned"
      by (simp add: charged_def)
    with d show ?thesis by blast
  qed
  moreover have "aux_step cd (ledger, foreign, unowned) (ledger', foreign(sid := 0), unowned)"
    if "delete_session io sid ledger = Some (Inr (), ledger')" for ledger'
    using aux_step.delete[OF that, of cd "(foreign, unowned)"] by (simp add: forget_def)
  ultimately show ?thesis using persist_ok[OF exact] delete_session_ok[OF exact, of io sid] by blast
qed

text \<open>A commit of the sample record into an empty store where every call succeeds.\<close>

definition sample_snapshot :: ToolPersistenceSnapshot where
  "sample_snapshot = \<lparr>sn_ref = st_ref sample_record, sn_record = sample_record, sn_input = Some ''ab'', sn_result = None,
     sn_stdout = Some ''abc'', sn_stderr = None, sn_before = None, sn_after = None\<rparr>"

definition sample_io :: CommitIo where
  "sample_io = \<lparr>ci_late_before = False, ci_ticks = 20, ci_session = Inr (), ci_tools = Inr PathMissing,
     ci_target = Inr False, ci_timeout = False, ci_metadata = Inr None, ci_blob = (\<lambda>_. None),
     ci_listing = \<lparr>li_root = Inr (), li_entries = [], li_fault = False\<rparr>, ci_removable = (\<lambda>_. True),
     ci_create_tools = MkDirDone, ci_tools_again = Inr Directory, ci_entropy = True, ci_create_temp = True,
     ci_write = (\<lambda>_. True), ci_sync_temp = True, ci_discard = True, ci_rename = True, ci_now = 7,
     ci_sync_tools = True, ci_late_after = False\<rparr>"

definition sample_codec :: codec where
  "sample_codec = \<lparr>tool_ref_hash = (\<lambda>r. tr_call r), record_json = (\<lambda>_. Some ''{}''), hash_bytes = (\<lambda>_. '''')\<rparr>"

lemma sample_scan:
  "scan_aux_ledger hash (ci_listing sample_io) t = Some (Inr (t', l)) \<longleftrightarrow> t = Suc t' \<and> l = ledger_default"
  by (cases t) (auto simp: scan_aux_ledger_def sample_io_def)

lemma sample_answers: "answers_ok sample_codec sample_io sample_snapshot None"
  unfolding answers_ok_def sample_scan
  by (simp add: listing_ok_def listing_bytes_def sample_io_def unused_def ledger_default_def
      List.map_filter_def u64_bound_def)

lemma sample_room: "room_for DEFAULT_AUX_LIMITS s 14 ledger_default"
  by (simp add: room_for_def aux_session_full_def aux_global_full_def DEFAULT_AUX_LIMITS_def session_totals_def
      ledger_default_def sat_add_def u64_bound_def)

lemma sample_raw: "raw_bytes sample_snapshot = 5"
  by (simp add: raw_bytes_def blobs_def sample_snapshot_def map_filter_simps)

lemma sample_io_answers:
  "ci_ticks sample_io = 20" "ci_session sample_io = Inr ()" "ci_tools sample_io = Inr PathMissing"
  "ci_target sample_io = Inr False" "ci_create_tools sample_io = MkDirDone" "ci_entropy sample_io"
  "ci_create_temp sample_io" "ci_write sample_io n" "ci_sync_temp sample_io" "ci_rename sample_io"
  "ci_sync_tools sample_io" "\<not> ci_late_before sample_io" "record_json sample_codec r = Some ''{}''"
  by (simp_all add: sample_io_def sample_codec_def)

lemma check_deadline_pos: "0 < t \<Longrightarrow> check_aux_deadline t = Inr (t - 1)"
  by (cases t) auto

lemma sample_insert:
  "\<exists>l. ledger_insert \<lparr>ae_session = s, ae_path = p, ae_mtime = m, ae_bytes = 7\<rparr> ledger_default = Some l"
  by (simp add: ledger_insert_def ledger_default_def session_totals_def checked_add_def u64_bound_def)

lemma sample_publish:
  "\<exists>l. publish_record sample_codec sample_io sample_snapshot 7 18 (Some ledger_default) = Some (Inr (), Some l)"
  using sample_insert
  by (auto simp: publish_record_def sample_io_answers check_deadline_pos write_record_def blobs_def
      sample_snapshot_def bind_eq_Some_conv)

lemma sample_commits:
  "\<exists>l. commit_tool_record_locked sample_codec DEFAULT_AUX_LIMITS sample_io sample_snapshot None
   = Some (Inr (), Some l)"
proof -
  have double: "sat_double 7 = 14" by (simp add: sat_double_def u64_bound_def)
  have room: "enforce_loop s 14 DEFAULT_AUX_LIMITS f 18 ledger_default = Some (Inr 18, Some ledger_default)" for s f
    using sample_room[of s] by (subst enforce_loop.simps) (simp add: room_for_def)
  have "validate_stored_tool_record (sn_record sample_snapshot) (sn_ref sample_snapshot) = Inr ()"
    using sample_record_valid by (simp add: sample_snapshot_def)
  moreover have "scan_aux_ledger hash (ci_listing sample_io) 19 = Some (Inr (18, ledger_default))" for hash
    by (simp add: sample_scan)
  ultimately show ?thesis using double room sample_publish
    by (simp add: commit_tool_record_locked_def sample_raw MAX_RECORD_BLOB_BYTES_def MAX_TOOL_METADATA_BYTES_def
        sample_io_answers check_deadline_pos enforce_aux_budget_locked_def Let_def)
qed

theorem aux_ledger_exact_witness:
  "\<exists>l. commit_tool_record_locked sample_codec DEFAULT_AUX_LIMITS sample_io sample_snapshot None = Some (Inr (), Some l)
    \<and> (aux_step sample_codec)\<^sup>*\<^sup>* (None, \<lambda>_. 0, 0) (Some l, \<lambda>_. 0, 0)
    \<and> session_totals l [1] = (bytes_in [1] (al_entries l), count_in [1] (al_entries l))"
proof -
  obtain l where c: "commit_tool_record_locked sample_codec DEFAULT_AUX_LIMITS sample_io sample_snapshot None
    = Some (Inr (), Some l)" using sample_commits by blast
  have "notes_after sample_codec sample_io None (\<lambda>_. 0, 0) = (\<lambda>_. 0, 0)"
    by (simp add: notes_after_def listing_foreign_def listing_unowned_def sample_io_def fun_eq_iff)
  with aux_step.commit[OF sample_answers c, of "(\<lambda>_. 0, 0)"] have
    reach: "(aux_step sample_codec)\<^sup>*\<^sup>* (None, \<lambda>_. 0, 0) (Some l, \<lambda>_. 0, 0)" by auto
  from aux_ledger_exact[OF reach, THEN conjunct1] have
    "session_totals l [1] = (bytes_in [1] (al_entries l) + 0, count_in [1] (al_entries l))" by blast
  with c reach show ?thesis by auto
qed

text \<open>C23: A record that is committed leaves the store within its limits: the account it finds (held or
  scanned) is reduced by evicting, as long as there is no room for twice the size of the record (its
  JSON and its blobs), the oldest record of the session when the session is over its limit and otherwise the
  oldest record of all; then exactly the new directory is added with the size of the record, and
  session bytes, session records, global bytes and global records are all within the limits. Every other
  outcome leaves the ledger exact, for the bytes noted by the scan that built it, or drops it.\<close>

theorem commit_within_budget:
  assumes "ledger_exact ledger noted" "answers_ok cd io snap ledger" "aux_limits_ok lim"
  shows "\<exists>res ledger'. commit_tool_record_locked cd lim io snap ledger = Some (res, ledger')
    \<and> ledger_exact ledger' (notes_after cd io ledger noted)
    \<and> (res = Inr () \<and> ci_target io = Inr False \<longrightarrow>
        (\<exists>l l1 l' b rjson. record_json cd (sn_record snap) = Some rjson \<and> b = length rjson + raw_bytes snap
          \<and> (ledger = Some l
              \<or> ledger = None \<and> (\<exists>t t'. scan_aux_ledger (tool_ref_hash cd) (ci_listing io) t = Some (Inr (t', l))))
          \<and> evicts lim (tr_session (sn_ref snap)) (sat_double b) l l1
          \<and> ledger' = Some l' \<and> within_aux_limits lim (tr_session (sn_ref snap)) l'
          \<and> al_entries l' = bt_insert (ci_now io, target_path cd snap) (new_entry cd io snap b) (al_entries l1)))"
proof -
  from commit_ok[OF assms] obtain res ledger' where
    "commit_tool_record_locked cd lim io snap ledger = Some (res, ledger')"
    "committed cd lim io snap ledger (notes_after cd io ledger noted) (res, ledger')" by auto
  then show ?thesis unfolding committed_def fst_conv snd_conv by blast
qed

theorem commit_within_budget_witness:
  "\<exists>l. commit_tool_record_locked sample_codec DEFAULT_AUX_LIMITS sample_io sample_snapshot None = Some (Inr (), Some l)
     \<and> within_aux_limits DEFAULT_AUX_LIMITS [1] l"
proof -
  obtain l where c: "commit_tool_record_locked sample_codec DEFAULT_AUX_LIMITS sample_io sample_snapshot None
    = Some (Inr (), Some l)" using sample_commits by blast
  have "tr_session (sn_ref sample_snapshot) = [1]" by (simp add: sample_snapshot_def sample_record_def)
  with commit_within_budget[OF _ sample_answers default_limits_fit, of "(\<lambda>_. 0, 0)"] c sample_io_answers(4) show ?thesis by auto
qed

text \<open>C39: Enforcing the budget of a session always returns. On success there is room for the reservation; the
  ledger was reached by evictions only, oldest first. If it fails with the ledger kept and the clock
  allowed one check per record, then nothing was left that could be evicted; the ledger is
  dropped only when a directory could not be removed.\<close>

theorem eviction_makes_room:
  assumes "accounts l foreign unowned"
  shows "\<exists>res ledger'. enforce_loop target reserve lim removable t l = Some (res, ledger')
    \<and> (\<forall>t'. res = Inr t' \<longrightarrow> (\<exists>l'. ledger' = Some l' \<and> room_for lim target reserve l'))
    \<and> (\<forall>l'. ledger' = Some l' \<longrightarrow> accounts l' foreign unowned \<and> evicts lim target reserve l l')
    \<and> (\<forall>e. res = Inl e \<longrightarrow> e = Unavailable \<and>
        (case ledger' of
           Some l' \<Rightarrow> length (al_entries l) < t \<longrightarrow> exhausted lim target reserve l'
         | None \<Rightarrow> \<exists>x\<in>set (al_entries l). \<not> removable (ae_path (snd x))))"
proof -
  from enforce_loop_ok[OF assms, of target reserve lim removable t] obtain res ledger' where
    "enforce_loop target reserve lim removable t l = Some (res, ledger')"
    "enforced lim target reserve removable t l foreign unowned (res, ledger')" by auto
  then show ?thesis
    by (cases res; cases ledger') (auto simp: enforced_def)
qed

theorem eviction_makes_room_witness:
  "\<exists>res ledger'. enforce_loop [1] 14 DEFAULT_AUX_LIMITS (\<lambda>_. True) 5 ledger_default = Some (res, ledger')
    \<and> (\<forall>l'. ledger' = Some l' \<longrightarrow> accounts l' (\<lambda>_. 0) 0)"
  using eviction_makes_room[OF accounts_default, of "[1]" 14 DEFAULT_AUX_LIMITS "\<lambda>_. True" 5]
  by (elim exE conjE) (intro exI conjI; assumption?; simp)

end
