(* ===== verification/Workspace_Write.thy ===== *)
theory Workspace_Write
  imports Tool_Record
begin

text \<open>
  Resolving, reading and atomically replacing workspace files: the file operations of
  \<^verbatim>\<open>workspace.rs\<close>, \<^verbatim>\<open>workspace/atomic.rs\<close>, and \<^verbatim>\<open>tools/file_change.rs\<close> with the \<^verbatim>\<open>FileChange\<close> of
  \<^verbatim>\<open>changes.rs\<close>, which turns the observation of a write into the recorded change.

  What the file system answers is a parameter. Where the code asks about each path once, the
  answers are functions of the path; where it asks again in a loop they also depend on the
  time. A started write either fails or replaces a file below the canonical root, and a recorded
  change says no more than what was observed.
\<close>

section \<open>Answers of the file system\<close>

record FileStamp =
  stamp_len :: nat
  modified_nanos :: "nat option"

definition modified_unix_ms :: "FileStamp \<Rightarrow> nat option" where
  "modified_unix_ms s =
     Option.bind (modified_nanos s) (\<lambda>n. if n div 1000000 < u64_bound then Some (n div 1000000) else None)"

datatype FileMeta = MetaSymlink | MetaFile FileStamp | MetaDir FileStamp | MetaSpecial FileStamp

datatype IoErrorKind = IoNotFound | IoNotADirectory | IoIsADirectory | IoAlreadyExists | IoLoop | IoOther

fun map_io_error :: "IoErrorKind \<Rightarrow> WorkspaceError" where
  "map_io_error IoNotFound = PathNotFound"
| "map_io_error IoNotADirectory = NotDirectory"
| "map_io_error _ = WorkspaceUnavailable"

definition map_read_error :: "WorkspaceError \<Rightarrow> IoErrorKind \<Rightarrow> WorkspaceError" where
  "map_read_error wrong_type e =
     (if e = IoNotFound then PathNotFound
      else if e = IoIsADirectory \<or> e = IoNotADirectory then wrong_type
      else WorkspaceUnavailable)"

definition map_open_error :: "IoErrorKind \<Rightarrow> WorkspaceError" where
  "map_open_error e = (if e = IoLoop then EscapesRoot else map_read_error NotFile e)"

definition map_err :: "('e \<Rightarrow> 'f) \<Rightarrow> 'e + 'a \<Rightarrow> 'f + 'a" where
  "map_err f r = (case r of Inl e \<Rightarrow> Inl (f e) | Inr x \<Rightarrow> Inr x)"

fun meta_is_dir :: "FileMeta \<Rightarrow> bool" where
  "meta_is_dir (MetaDir _) = True"
| "meta_is_dir _ = False"

fun meta_is_file :: "FileMeta \<Rightarrow> bool" where
  "meta_is_file (MetaFile _) = True"
| "meta_is_file _ = False"

definition ensure_inside :: "Path \<Rightarrow> Path \<Rightarrow> WorkspaceError + unit" where
  "ensure_inside root path = (if starts_with path root then Inr () else Inl EscapesRoot)"

definition ensure_regular :: "FileMeta \<Rightarrow> WorkspaceError + unit" where
  "ensure_regular m = (if meta_is_file m then Inr () else Inl NotFile)"

text \<open>\<^verbatim>\<open>symlink_metadata\<close>, \<^verbatim>\<open>metadata\<close> and \<^verbatim>\<open>canonicalize\<close> at one moment.\<close>

record FsView =
  symlink_meta :: "Path \<Rightarrow> IoErrorKind + FileMeta"
  target_meta :: "Path \<Rightarrow> IoErrorKind + FileMeta"
  canonical :: "Path \<Rightarrow> IoErrorKind + Path"

section \<open>Resolving and reading\<close>

definition canonicalize_inside :: "FsView \<Rightarrow> Path \<Rightarrow> Path \<Rightarrow> WorkspaceError + Path" where
  "canonicalize_inside fs root path =
     res_bind (map_err map_io_error (canonical fs path)) (\<lambda>resolved.
     res_bind (ensure_inside root resolved) (\<lambda>_. Inr resolved))"

definition open_workspace :: "FsView \<Rightarrow> Path \<Rightarrow> WorkspaceError + Path" where
  "open_workspace fs root =
     res_bind (map_err map_io_error (target_meta fs root)) (\<lambda>m.
     if \<not> meta_is_dir m then Inl NotDirectory
     else res_bind (map_err map_io_error (canonical fs root)) (\<lambda>root.
       res_bind (map_err map_io_error (target_meta fs root)) (\<lambda>m.
       if \<not> meta_is_dir m then Inl NotDirectory else Inr root)))"

definition resolve_existing :: "FsView \<Rightarrow> Path \<Rightarrow> string \<Rightarrow> WorkspaceError + Path" where
  "resolve_existing fs root path =
     res_bind (normalize_relative path False) (\<lambda>relative.
     res_bind (canonicalize_inside fs root (root @ relative)) (\<lambda>resolved.
     res_bind (map_err map_io_error (target_meta fs resolved)) (\<lambda>m.
     res_bind (ensure_regular m) (\<lambda>_. Inr resolved))))"

definition resolve_directory :: "FsView \<Rightarrow> Path \<Rightarrow> string \<Rightarrow> WorkspaceError + Path" where
  "resolve_directory fs root path =
     res_bind (normalize_relative path True) (\<lambda>relative.
     res_bind (canonicalize_inside fs root (root @ relative)) (\<lambda>resolved.
     res_bind (map_err map_io_error (target_meta fs resolved)) (\<lambda>m.
     if \<not> meta_is_dir m then Inl NotDirectory else Inr resolved)))"

definition resolve_inside_sync :: "FsView \<Rightarrow> Path \<Rightarrow> string \<Rightarrow> bool \<Rightarrow> WorkspaceError + Path" where
  "resolve_inside_sync fs root path allow_empty =
     res_bind (normalize_relative path allow_empty) (\<lambda>relative.
     res_bind (map_err map_io_error (canonical fs (root @ relative))) (\<lambda>resolved.
     res_bind (ensure_inside root resolved) (\<lambda>_. Inr resolved)))"

text \<open>
  An opened file: its metadata when it is asked, what reading it to the end gives and the metadata
  afterwards; none where the call fails.
\<close>

record OpenedFile =
  of_first :: "IoErrorKind + FileMeta"
  of_start :: "FileStamp option"
  of_content :: "string option"
  of_end :: "FileStamp option"

definition open_regular_file ::
  "FsView \<Rightarrow> (Path \<Rightarrow> IoErrorKind + OpenedFile) \<Rightarrow> Path \<Rightarrow> string \<Rightarrow> WorkspaceError + OpenedFile" where
  "open_regular_file fs open_read root path =
     res_bind (resolve_existing fs root path) (\<lambda>resolved.
     res_bind (map_err map_io_error (symlink_meta fs resolved)) (\<lambda>m.
     if m = MetaSymlink then Inl EscapesRoot
     else res_bind (ensure_regular m) (\<lambda>_.
       res_bind (map_err map_open_error (open_read resolved)) (\<lambda>f.
       res_bind (map_err map_io_error (of_first f)) (\<lambda>m.
       res_bind (ensure_regular m) (\<lambda>_. Inr f))))))"

definition open_regular_file_sync ::
  "FsView \<Rightarrow> (Path \<Rightarrow> IoErrorKind + OpenedFile) \<Rightarrow> Path \<Rightarrow> string \<Rightarrow> WorkspaceError + (OpenedFile \<times> FileMeta)" where
  "open_regular_file_sync fs open_read root path =
     res_bind (resolve_inside_sync fs root path False) (\<lambda>resolved.
     res_bind (map_err map_open_error (open_read resolved)) (\<lambda>f.
     res_bind (map_err map_io_error (of_first f)) (\<lambda>m.
     res_bind (ensure_regular m) (\<lambda>_. Inr (f, m)))))"

record ReadPrefix =
  rp_bytes :: string
  has_more :: bool

definition read_prefix :: "WorkspaceError + OpenedFile \<Rightarrow> nat \<Rightarrow> WorkspaceError + ReadPrefix" where
  "read_prefix opened max_bytes =
     res_bind opened (\<lambda>f.
     case of_content f of
       None \<Rightarrow> Inl WorkspaceUnavailable
     | Some content \<Rightarrow>
         let bytes = take (sat_add max_bytes 4) content
         in Inr \<lparr>rp_bytes = bytes, has_more = max_bytes < length bytes\<rparr>)"

record FileSnapshot =
  fsn_bytes :: string
  fsn_stamp :: FileStamp
  fsn_stable :: bool

datatype FileCapture =
  CaptureMissing | CaptureComplete FileSnapshot | CaptureTooLarge FileStamp | CaptureError WorkspaceError

definition capture_file :: "WorkspaceError + OpenedFile \<Rightarrow> nat \<Rightarrow> FileCapture" where
  "capture_file opened max_bytes =
     (case opened of
        Inl e \<Rightarrow> if e = PathNotFound then CaptureMissing else CaptureError e
      | Inr f \<Rightarrow>
        case of_start f of
          None \<Rightarrow> CaptureError WorkspaceUnavailable
        | Some start_stamp \<Rightarrow>
          if max_bytes < stamp_len start_stamp then CaptureTooLarge start_stamp
          else case of_content f of
            None \<Rightarrow> CaptureError WorkspaceUnavailable
          | Some content \<Rightarrow>
            let bytes = take (sat_add max_bytes 1) content in
            case of_end f of
              None \<Rightarrow> CaptureError WorkspaceUnavailable
            | Some end_stamp \<Rightarrow>
              if max_bytes < length bytes then CaptureTooLarge start_stamp
              else CaptureComplete
                \<lparr>fsn_bytes = bytes, fsn_stamp = start_stamp, fsn_stable = (start_stamp = end_stamp)\<rparr>)"

definition read_text_snapshot ::
  "WorkspaceError + OpenedFile \<Rightarrow> nat \<Rightarrow> WorkspaceError + (string \<times> FileStamp \<times> bool)" where
  "read_text_snapshot opened max_bytes =
     (case capture_file opened max_bytes of
        CaptureMissing \<Rightarrow> Inl PathNotFound
      | CaptureTooLarge _ \<Rightarrow> Inl FileTooLarge
      | CaptureError e \<Rightarrow> Inl e
      | CaptureComplete snapshot \<Rightarrow>
          if CHR 0x00 \<in> set (fsn_bytes snapshot) then Inl Binary
          else if \<not> utf8_valid (fsn_bytes snapshot) then Inl Binary
          else Inr (fsn_bytes snapshot, fsn_stamp snapshot, fsn_stable snapshot))"

section \<open>Where a write goes\<close>

definition file_name :: "Path \<Rightarrow> string option" where
  "file_name p = (if p = [] then None else case List.last p of Normal n \<Rightarrow> Some n | _ \<Rightarrow> None)"

fun classify_write_target :: "IoErrorKind + FileMeta \<Rightarrow> WorkspaceError + FileStamp option" where
  "classify_write_target (Inr MetaSymlink) = Inl InvalidPath"
| "classify_write_target (Inr (MetaFile s)) = Inr (Some s)"
| "classify_write_target (Inr _) = Inl NotFile"
| "classify_write_target (Inl IoNotFound) = Inr None"
| "classify_write_target (Inl IoNotADirectory) = Inl NotDirectory"
| "classify_write_target (Inl _) = Inl WorkspaceUnavailable"

lemma path_pop_shorter [termination_simp]: "path_pop p = Some q \<Longrightarrow> length q < length p"
  by (cases p) (auto simp: path_pop_def split: if_splits)

fun resolve_parent_loop :: "FsView \<Rightarrow> Path \<Rightarrow> Path \<Rightarrow> string list \<Rightarrow> WorkspaceError + Path" where
  "resolve_parent_loop fs root cursor missing =
     (case symlink_meta fs cursor of
        Inr _ \<Rightarrow>
          res_bind (canonicalize_inside fs root cursor) (\<lambda>resolved.
          res_bind (map_err map_io_error (target_meta fs resolved)) (\<lambda>m.
          if \<not> meta_is_dir m then Inl NotDirectory
          else Inr (foldl (\<lambda>p name. path_push (Normal name) p) resolved (rev missing))))
      | Inl IoNotFound \<Rightarrow>
          if cursor = root then Inl PathNotFound
          else (case file_name cursor of
            None \<Rightarrow> Inl InvalidPath
          | Some component \<Rightarrow>
              (case path_pop cursor of
                 None \<Rightarrow> Inl EscapesRoot
               | Some cursor' \<Rightarrow>
                   if \<not> starts_with cursor' root then Inl EscapesRoot
                   else resolve_parent_loop fs root cursor' (missing @ [component])))
      | Inl IoNotADirectory \<Rightarrow> Inl NotDirectory
      | Inl _ \<Rightarrow> Inl WorkspaceUnavailable)"

declare resolve_parent_loop.simps [simp del]

definition resolve_write_parent :: "FsView \<Rightarrow> Path \<Rightarrow> Path \<Rightarrow> WorkspaceError + Path" where
  "resolve_write_parent fs root relative = resolve_parent_loop fs root (root @ relative) []"

definition resolve_for_write :: "FsView \<Rightarrow> Path \<Rightarrow> string \<Rightarrow> WorkspaceError + Path" where
  "resolve_for_write fs root path =
     res_bind (normalize_relative path False) (\<lambda>relative.
     res_bind (ok_or (file_name relative) InvalidPath) (\<lambda>name.
     let parent = (case path_pop relative of None \<Rightarrow> [] | Some p \<Rightarrow> p) in
     res_bind (resolve_write_parent fs root parent) (\<lambda>parent.
     let target = path_push (Normal name) parent in
     res_bind (classify_write_target (symlink_meta fs target)) (\<lambda>_. Inr target))))"

text \<open>
  The blocking half asks the file system again. Each round of the inner loop asks at its own moment
  \<open>t\<close>; \<open>mkdir\<close> answers \<^verbatim>\<open>create_dir\<close> and \<open>sync\<close> whether syncing a directory succeeds. The loop
  goes round again after every attempt to create the directory, so that it may not end: then its
  value is \<^term>\<open>None\<close>.
\<close>

record FsTime =
  view_at :: "nat \<Rightarrow> FsView"
  mkdir :: "nat \<Rightarrow> Path \<Rightarrow> IoErrorKind + unit"
  dir_sync :: "nat \<Rightarrow> Path \<Rightarrow> bool"

partial_function (option) ensure_component ::
  "FsTime \<Rightarrow> Path \<Rightarrow> Path \<Rightarrow> string \<Rightarrow> nat \<Rightarrow> (WorkspaceError + (Path \<times> nat)) option" where
  "ensure_component ft root current name t =
     (let candidate = current @ [Normal name] in
      case symlink_meta (view_at ft t) candidate of
        Inr MetaSymlink \<Rightarrow>
          Some (res_bind (canonicalize_inside (view_at ft t) root candidate) (\<lambda>resolved.
            res_bind (map_err map_io_error (target_meta (view_at ft t) resolved)) (\<lambda>m.
            if \<not> meta_is_dir m then Inl NotDirectory else Inr (resolved, Suc t))))
      | Inr (MetaDir _) \<Rightarrow> Some (Inr (candidate, Suc t))
      | Inr _ \<Rightarrow> Some (Inl NotDirectory)
      | Inl IoNotFound \<Rightarrow>
          (case mkdir ft t candidate of
             Inr _ \<Rightarrow>
               if dir_sync ft t current then ensure_component ft root current name (Suc t)
               else Some (Inl WorkspaceUnavailable)
           | Inl IoAlreadyExists \<Rightarrow> ensure_component ft root current name (Suc t)
           | Inl _ \<Rightarrow> Some (Inl WorkspaceUnavailable))
      | Inl IoNotADirectory \<Rightarrow> Some (Inl NotDirectory)
      | Inl _ \<Rightarrow> Some (Inl WorkspaceUnavailable))"

fun ensure_components ::
  "FsTime \<Rightarrow> Path \<Rightarrow> Path \<Rightarrow> Path \<Rightarrow> nat \<Rightarrow> (WorkspaceError + (Path \<times> nat)) option" where
  "ensure_components ft root [] current t = Some (Inr (current, t))"
| "ensure_components ft root (Normal name # cs) current t =
     run_bind (ensure_component ft root current name t) (\<lambda>(current, t). ensure_components ft root cs current t)"
| "ensure_components ft root (_ # cs) current t = Some (Inl InvalidPath)"

definition ensure_parent_directory ::
  "FsTime \<Rightarrow> Path \<Rightarrow> Path \<Rightarrow> nat \<Rightarrow> (WorkspaceError + (Path \<times> nat)) option" where
  "ensure_parent_directory ft root parent t =
     (case strip_prefix root parent of
        None \<Rightarrow> Some (Inl EscapesRoot)
      | Some relative \<Rightarrow> ensure_components ft root relative root t)"

section \<open>The atomic replacement\<close>

datatype ExpectedFileState = ExpectMissing | ExpectPresent FileStamp

datatype FileState = StateMissing | StatePresent FileStamp | StateUnknown

record AtomicWriteObservation =
  ob_outcome :: "WorkspaceError + unit"
  ob_before :: FileState
  ob_after :: FileState
  renamed :: bool
  expected_matches :: "bool option"
  expected_unknown :: bool

definition failed_observation :: "WorkspaceError \<Rightarrow> AtomicWriteObservation" where
  "failed_observation e = \<lparr>ob_outcome = Inl e, ob_before = StateUnknown, ob_after = StateUnknown,
     renamed = False, expected_matches = None, expected_unknown = False\<rparr>"

fun file_state_sync :: "IoErrorKind + FileMeta \<Rightarrow> FileState" where
  "file_state_sync (Inr (MetaFile s)) = StatePresent s"
| "file_state_sync (Inr _) = StateUnknown"
| "file_state_sync (Inl IoNotFound) = StateMissing"
| "file_state_sync (Inl _) = StateUnknown"

fun expected_matches_state :: "ExpectedFileState option \<Rightarrow> FileState \<Rightarrow> bool option" where
  "expected_matches_state None s = None"
| "expected_matches_state (Some ExpectMissing) s = Some (s = StateMissing)"
| "expected_matches_state (Some (ExpectPresent e)) (StatePresent a) = Some (e = a)"
| "expected_matches_state (Some (ExpectPresent e)) StateMissing = Some False"
| "expected_matches_state (Some (ExpectPresent e)) StateUnknown = None"

definition temp_basename :: "nat \<Rightarrow> nat \<Rightarrow> string" where
  "temp_basename pid n = ''.minicore-write-'' @ show_nat pid @ ''-'' @ show_nat n @ ''.tmp''"

definition ascii_lower :: "char \<Rightarrow> char" where
  "ascii_lower c = (if byte_in 65 90 c then char_of (of_char c + 32 :: nat) else c)"

definition eq_ignore_ascii_case :: "string \<Rightarrow> string \<Rightarrow> bool" where
  "eq_ignore_ascii_case a b = (map ascii_lower a = map ascii_lower b)"

definition temp_path_aliases_target :: "string \<Rightarrow> string \<Rightarrow> bool" where
  "temp_path_aliases_target candidate target =
     (candidate = target
      \<or> (utf8_valid candidate \<and> utf8_valid target \<and> eq_ignore_ascii_case candidate target))"

datatype OpenAnswer = OpenedNew | OpenExists | OpenFailed

text \<open>The attempts: the identifier each draws and what the file system answers to it.\<close>

record TempTry =
  tt_id :: nat
  tt_meta :: "IoErrorKind + FileMeta"
  tt_open :: OpenAnswer

fun create_temp_loop :: "nat \<Rightarrow> nat \<Rightarrow> (nat \<Rightarrow> TempTry) \<Rightarrow> nat \<Rightarrow> string \<Rightarrow> WorkspaceError + string" where
  "create_temp_loop 0 k tries pid target = Inl WorkspaceUnavailable"
| "create_temp_loop (Suc n) k tries pid target =
     (let temp = temp_basename pid (tt_id (tries k)) in
      if temp_path_aliases_target temp target then create_temp_loop n (Suc k) tries pid target
      else case tt_meta (tries k) of
        Inr _ \<Rightarrow> create_temp_loop n (Suc k) tries pid target
      | Inl IoNotFound \<Rightarrow>
          (case tt_open (tries k) of
             OpenedNew \<Rightarrow> Inr temp
           | OpenExists \<Rightarrow> create_temp_loop n (Suc k) tries pid target
           | OpenFailed \<Rightarrow> Inl WorkspaceUnavailable)
      | Inl _ \<Rightarrow> Inl WorkspaceUnavailable)"

definition create_unique_temp :: "(nat \<Rightarrow> TempTry) \<Rightarrow> nat \<Rightarrow> string \<Rightarrow> WorkspaceError + string" where
  "create_unique_temp tries pid target = create_temp_loop 128 0 tries pid target"

text \<open>The answers to the calls of one write, in the order the code makes them.\<close>

record WriteIo =
  wi_meta :: "IoErrorKind + FileMeta"
  wi_tries :: "nat \<Rightarrow> TempTry"
  wi_pid :: nat
  wi_chmod :: bool
  wi_write :: bool
  wi_flush :: bool
  wi_chmod_again :: bool
  wi_sync :: bool
  wi_recheck :: "IoErrorKind + FileMeta"
  wi_reclassify :: "IoErrorKind + FileMeta"
  wi_rename :: bool
  wi_after :: "IoErrorKind + FileMeta"
  wi_dir_sync :: bool

definition write_temp :: "WriteIo \<Rightarrow> FileStamp option \<Rightarrow> bool" where
  "write_temp io metadata =
     ((metadata = None \<or> wi_chmod io) \<and> wi_write io \<and> wi_flush io \<and> (metadata = None \<or> wi_chmod_again io) \<and> wi_sync io)"

definition write_checked ::
  "WriteIo \<Rightarrow> ExpectedFileState option \<Rightarrow> AtomicWriteObservation \<Rightarrow> AtomicWriteObservation" where
  "write_checked io expected ob =
     (let matches = expected_matches_state expected (file_state_sync (wi_recheck io));
          unknown = (expected \<noteq> None \<and> matches = None);
          ob = ob\<lparr>expected_unknown := unknown,
                 expected_matches := (if unknown \<or> matches \<noteq> None then matches else expected_matches ob)\<rparr>
      in case classify_write_target (wi_reclassify io) of
           Inl e \<Rightarrow> ob\<lparr>ob_outcome := Inl e\<rparr>
         | Inr _ \<Rightarrow>
             if \<not> wi_rename io then ob\<lparr>ob_outcome := Inl WorkspaceUnavailable\<rparr>
             else ob\<lparr>renamed := True, ob_after := file_state_sync (wi_after io),
                 ob_outcome := (if wi_dir_sync io then Inr () else Inl UnknownOutcome)\<rparr>)"

definition atomic_write :: "WriteIo \<Rightarrow> string \<Rightarrow> ExpectedFileState option \<Rightarrow> AtomicWriteObservation" where
  "atomic_write io target expected =
     (case classify_write_target (wi_meta io) of
        Inl e \<Rightarrow> failed_observation e
      | Inr metadata \<Rightarrow>
          let before = (case metadata of None \<Rightarrow> StateMissing | Some s \<Rightarrow> StatePresent s);
              ob = (failed_observation WorkspaceUnavailable)\<lparr>ob_before := before,
                     expected_matches := expected_matches_state expected before\<rparr>
          in case create_unique_temp (wi_tries io) (wi_pid io) target of
               Inl e \<Rightarrow> ob\<lparr>ob_outcome := Inl e\<rparr>
             | Inr temp \<Rightarrow>
                 if \<not> write_temp io metadata then ob\<lparr>ob_outcome := Inl WorkspaceUnavailable\<rparr>
                 else write_checked io expected ob)"

text \<open>\<open>commit_target\<close> is the file \<^verbatim>\<open>commit_write\<close> replaces; a resolved target without a parent is a panic.\<close>

definition commit_target :: "FsTime \<Rightarrow> Path \<Rightarrow> Path \<Rightarrow> nat \<Rightarrow> (WorkspaceError + (Path \<times> string \<times> nat)) option" where
  "commit_target ft root target t =
     Option.bind (path_pop target) (\<lambda>parent.
     Option.bind (file_name target) (\<lambda>name.
     run_bind (ensure_parent_directory ft root parent t) (\<lambda>(parent, t).
     Some (Inr (path_push (Normal name) parent, name, t)))))"

definition commit_write ::
  "FsTime \<Rightarrow> (Path \<Rightarrow> nat \<Rightarrow> WriteIo) \<Rightarrow> Path \<Rightarrow> Path \<Rightarrow> ExpectedFileState option \<Rightarrow> nat
   \<Rightarrow> AtomicWriteObservation option" where
  "commit_write ft io root target expected t =
     Option.bind (commit_target ft root target t) (\<lambda>r.
     case r of
       Inl e \<Rightarrow> Some (failed_observation e)
     | Inr (target, name, t) \<Rightarrow> Some (atomic_write (io target t) name expected))"

section \<open>The recorded change\<close>

text \<open>The retained snapshot of a side with the capacity of its vector, which the budget counts.\<close>

record FileChange =
  ch_path :: string
  ch_kind :: ChangeKind
  ch_before :: ChangeRevision
  ch_after :: ChangeRevision
  ch_commit_state :: ChangeCommitState
  ch_coverage :: ChangeCoverage
  ch_before_captured :: bool
  ch_after_captured :: bool
  ch_before_bytes :: "(string \<times> nat) option"
  ch_after_bytes :: "(string \<times> nat) option"
  ch_before_corrupt :: bool
  ch_after_corrupt :: bool

definition content_revision :: "(string \<Rightarrow> string) \<Rightarrow> string \<Rightarrow> ChangeRevision" where
  "content_revision hash_bytes bytes = Content (hash_bytes bytes) (length bytes)"

definition metadata_revision :: "FileStamp \<Rightarrow> ChangeRevision" where
  "metadata_revision stamp = Metadata (stamp_len stamp) (modified_unix_ms stamp)"

definition revision_matches_snapshot ::
  "(string \<Rightarrow> string) \<Rightarrow> ChangeRevision \<Rightarrow> string option \<Rightarrow> bool \<Rightarrow> bool" where
  "revision_matches_snapshot hash_bytes revision bytes allow_missing =
     (case (revision, bytes) of
        (Missing, None) \<Rightarrow> allow_missing
      | (Content sha size', Some v) \<Rightarrow> size' = length v \<and> hash_bytes v = sha
      | _ \<Rightarrow> False)"

definition before_available :: "(string \<Rightarrow> string) \<Rightarrow> FileChange \<Rightarrow> bool" where
  "before_available hash_bytes c =
     (ch_before_captured c \<and> \<not> ch_before_corrupt c
      \<and> revision_matches_snapshot hash_bytes (ch_before c) (map_option fst (ch_before_bytes c)) True)"

definition after_available :: "(string \<Rightarrow> string) \<Rightarrow> FileChange \<Rightarrow> bool" where
  "after_available hash_bytes c =
     (ch_after_captured c \<and> \<not> ch_after_corrupt c
      \<and> revision_matches_snapshot hash_bytes (ch_after c) (map_option fst (ch_after_bytes c)) False)"

definition details_available :: "(string \<Rightarrow> string) \<Rightarrow> FileChange \<Rightarrow> bool" where
  "details_available hash_bytes c = (before_available hash_bytes c \<and> after_available hash_bytes c)"

definition change_stored :: "FileChange \<Rightarrow> StoredFileChange" where
  "change_stored c = \<lparr>fc_path = ch_path c, fc_kind = ch_kind c, fc_before = ch_before c, fc_after = ch_after c,
     fc_state = ch_commit_state c, fc_coverage = ch_coverage c, before_captured = ch_before_captured c,
     after_captured = ch_after_captured c\<rparr>"

definition change_from_stored ::
  "StoredFileChange \<Rightarrow> (string \<times> nat) option \<Rightarrow> bool \<Rightarrow> (string \<times> nat) option \<Rightarrow> bool \<Rightarrow> FileChange" where
  "change_from_stored s before_bytes before_corrupt after_bytes after_corrupt =
     \<lparr>ch_path = fc_path s, ch_kind = fc_kind s, ch_before = fc_before s, ch_after = fc_after s,
      ch_commit_state = fc_state s, ch_coverage = fc_coverage s, ch_before_captured = before_captured s,
      ch_after_captured = after_captured s, ch_before_bytes = before_bytes, ch_after_bytes = after_bytes,
      ch_before_corrupt = before_corrupt, ch_after_corrupt = after_corrupt\<rparr>"

text \<open>What is known of the file before the write; the content carries its capacity.\<close>

datatype FileBefore =
  BeforeMissing | BeforeContent "string \<times> nat" FileStamp bool | BeforeMetadata FileStamp | BeforeUnknown

fun file_before_from_capture :: "nat \<Rightarrow> FileCapture \<Rightarrow> FileBefore" where
  "file_before_from_capture cap CaptureMissing = BeforeMissing"
| "file_before_from_capture cap (CaptureComplete s) = BeforeContent (fsn_bytes s, cap) (fsn_stamp s) (fsn_stable s)"
| "file_before_from_capture cap (CaptureTooLarge stamp) = BeforeMetadata stamp"
| "file_before_from_capture cap (CaptureError _) = BeforeUnknown"

definition read_source_before ::
  "WorkspaceError + OpenedFile \<Rightarrow> nat \<Rightarrow> bool \<Rightarrow> WorkspaceError + (string \<times> FileBefore)" where
  "read_source_before opened max_bytes bound =
     res_bind (read_text_snapshot opened max_bytes) (\<lambda>(source, stamp, steady).
     Inr (source, if bound then BeforeContent (source, length source) stamp steady else BeforeUnknown))"

fun expected_file_state :: "FileBefore \<Rightarrow> ExpectedFileState option" where
  "expected_file_state BeforeMissing = Some ExpectMissing"
| "expected_file_state (BeforeContent _ stamp _) = Some (ExpectPresent stamp)"
| "expected_file_state (BeforeMetadata stamp) = Some (ExpectPresent stamp)"
| "expected_file_state BeforeUnknown = None"

fun before_facts ::
  "(string \<Rightarrow> string) \<Rightarrow> FileBefore \<Rightarrow> ChangeRevision \<times> bool \<times> (string \<times> nat) option \<times> bool \<times> bool" where
  "before_facts hash_bytes BeforeMissing = (Missing, True, None, True, False)"
| "before_facts hash_bytes (BeforeContent bytes _ steady) =
     (content_revision hash_bytes (fst bytes), True, Some bytes, steady, False)"
| "before_facts hash_bytes (BeforeMetadata stamp) = (metadata_revision stamp, False, None, True, False)"
| "before_facts hash_bytes BeforeUnknown = (UnknownRevision, False, None, False, True)"

definition observed_commit_state :: "AtomicWriteObservation \<Rightarrow> bool \<Rightarrow> bool \<Rightarrow> ChangeCommitState" where
  "observed_commit_state ob unknown_facts conflict =
     (case ob_outcome ob of
        Inl e \<Rightarrow>
          if e = UnknownOutcome then CommitUnknown
          else if \<not> renamed ob \<and> expected_matches ob = Some False then CommitConflict
          else if \<not> renamed ob then NotCommitted
          else CommitUnknown
      | Inr _ \<Rightarrow>
          if unknown_facts then CommitUnknown else if conflict then CommitConflict else Applied)"

definition observed_change ::
  "(string \<Rightarrow> string) \<Rightarrow> string \<Rightarrow> FileBefore \<Rightarrow> string \<Rightarrow> AtomicWriteObservation \<Rightarrow> FileChange" where
  "observed_change hash_bytes path file_before after_bytes ob =
     (let (before, before_captured, before_bytes, steady, before_unknown) = before_facts hash_bytes file_before;
          after = (if renamed ob then content_revision hash_bytes after_bytes else UnknownRevision);
          after_missing = (ob_after ob = StateMissing);
          unknown_facts = (before_unknown \<or> expected_unknown ob \<or> ob_before ob = StateUnknown
            \<or> (renamed ob \<and> ob_after ob = StateUnknown));
          conflict = (\<not> unknown_facts
            \<and> ((\<not> steady \<and> \<not> before_unknown) \<or> expected_matches ob = Some False \<or> (renamed ob \<and> after_missing)));
          commit_state = observed_commit_state ob unknown_facts conflict;
          coverage =
            (if \<not> renamed ob then CoverageUnavailable
             else if unknown_facts \<or> \<not> before_captured \<or> \<not> steady \<or> conflict \<or> commit_state \<noteq> Applied
             then (if before = UnknownRevision then CoverageUnavailable else Partial)
             else Complete)
      in \<lparr>ch_path = path,
          ch_kind = (case before of Missing \<Rightarrow> Added | UnknownRevision \<Rightarrow> UnknownChange | _ \<Rightarrow> Modified),
          ch_before = before, ch_after = after, ch_commit_state = commit_state, ch_coverage = coverage,
          ch_before_captured = before_captured, ch_after_captured = renamed ob,
          ch_before_bytes = before_bytes,
          ch_after_bytes = (if renamed ob then Some (after_bytes, length after_bytes) else None),
          ch_before_corrupt = False, ch_after_corrupt = False\<rparr>)"

definition prepare_atomic_write ::
  "FsView \<Rightarrow> FsTime \<Rightarrow> (Path \<Rightarrow> nat \<Rightarrow> WriteIo) \<Rightarrow> Path \<Rightarrow> string \<Rightarrow> ExpectedFileState option \<Rightarrow> nat
   \<Rightarrow> AtomicWriteObservation option" where
  "prepare_atomic_write fs ft io root path expected t =
     (case resolve_for_write fs root path of
        Inr target \<Rightarrow> commit_write ft io root target expected t
      | Inl e \<Rightarrow> Some (failed_observation e))"

section \<open>Resolved paths\<close>

lemma map_err_Inr [simp]: "map_err f r = Inr x \<longleftrightarrow> r = Inr x"
  by (cases r) (auto simp: map_err_def)

lemma ensure_inside_ok [simp]: "ensure_inside root p = Inr u \<longleftrightarrow> prefix root p"
  by (auto simp: ensure_inside_def)

lemma canonicalize_inside_prefix: "canonicalize_inside fs root p = Inr q \<Longrightarrow> prefix root q"
  by (auto simp: canonicalize_inside_def)

lemma push_names: "foldl (\<lambda>p name. path_push (Normal name) p) r ns = r @ map Normal ns"
  by (induction ns arbitrary: r) (auto simp: path_push_def)

lemma resolve_parent_inside: "resolve_parent_loop fs root cursor missing = Inr p \<Longrightarrow> prefix root p"
proof (induction fs root cursor missing rule: resolve_parent_loop.induct)
  case (1 fs root cursor missing)
  show ?case
  proof (cases "symlink_meta fs cursor")
    case (Inl e)
    with "1.prems" have e: "e = IoNotFound"
      by (subst (asm) resolve_parent_loop.simps) (cases e; simp)
    with "1.prems" Inl obtain name cursor' where
      "cursor \<noteq> root" "file_name cursor = Some name" "path_pop cursor = Some cursor'" "prefix root cursor'"
      "resolve_parent_loop fs root cursor' (missing @ [name]) = Inr p"
      by (subst (asm) resolve_parent_loop.simps) (auto split: if_splits option.splits)
    with "1.IH"[OF Inl e] show ?thesis by simp
  next
    case (Inr m)
    with "1.prems" obtain resolved where "canonicalize_inside fs root cursor = Inr resolved" and
      "p = resolved @ map Normal (rev missing)"
      by (subst (asm) resolve_parent_loop.simps) (auto simp: push_names split: if_splits)
    then show ?thesis by (auto dest!: canonicalize_inside_prefix)
  qed
qed

lemma resolve_for_write_inside:
  assumes "resolve_for_write fs root path = Inr target"
  obtains parent name where "target = parent @ [Normal name]" "prefix root parent"
  using assms
  by (auto simp: resolve_for_write_def resolve_write_parent_def path_push_def Let_def intro: resolve_parent_inside)

lemma ensure_component_inside_all:
  "ensure_component ft root current name t = Some r
   \<Longrightarrow> prefix root current \<longrightarrow> (\<forall>p t'. r = Inr (p, t') \<longrightarrow> prefix root p)"
proof (rule ensure_component.raw_induct[of "\<lambda>ft root current name t r.
      prefix root current \<longrightarrow> (\<forall>p t'. r = Inr (p, t') \<longrightarrow> prefix root p)"], goal_cases)
  case (1 ensure ft root current name t r)
  then show ?case
    by (auto simp: Let_def dest: canonicalize_inside_prefix
        split: sum.splits FileMeta.splits IoErrorKind.splits if_splits)
qed assumption

lemma ensure_component_inside:
  "ensure_component ft root current name t = Some (Inr (p, t')) \<Longrightarrow> prefix root current \<Longrightarrow> prefix root p"
  using ensure_component_inside_all by blast

lemma ensure_components_inside:
  "ensure_components ft root cs current t = Some (Inr (p, t')) \<Longrightarrow> prefix root current \<Longrightarrow> prefix root p"
  by (induction ft root cs current t rule: ensure_components.induct)
    (auto simp: run_bind_eq_Inr dest: ensure_component_inside)

lemma commit_target_inside:
  "commit_target ft root target t = Some (Inr (target', name, t'))
   \<Longrightarrow> file_name target = Some name \<and> (\<exists>parent. target' = parent @ [Normal name] \<and> prefix root parent)"
  by (auto simp: commit_target_def ensure_parent_directory_def bind_eq_Some_conv run_bind_eq_Inr path_push_def
      intro: ensure_components_inside split: option.splits)

text \<open>A file system on which a directory that was just created, or reported as existing, is seen.\<close>

definition settled :: "FsTime \<Rightarrow> bool" where
  "settled ft = (\<forall>t p. mkdir ft t p \<in> {Inr (), Inl IoAlreadyExists}
     \<longrightarrow> symlink_meta (view_at ft (Suc t)) p \<noteq> Inl IoNotFound)"

lemma ensure_component_returns:
  assumes "settled ft"
  shows "\<exists>r. ensure_component ft root current name t = Some r"
proof -
  have once: "\<exists>r. ensure_component ft root current name t = Some r"
    if "symlink_meta (view_at ft t) (current @ [Normal name]) \<noteq> Inl IoNotFound" for t
    using that
    by (subst ensure_component.simps) (auto simp: Let_def split: sum.splits FileMeta.splits IoErrorKind.splits)
  have again: "\<exists>r. ensure_component ft root current name (Suc t) = Some r"
    if "mkdir ft t (current @ [Normal name]) \<in> {Inr (), Inl IoAlreadyExists}"
    using that assms unfolding settled_def by (intro once) blast
  show ?thesis
    by (subst ensure_component.simps)
      (use again in \<open>auto simp: Let_def split: sum.splits FileMeta.splits IoErrorKind.splits\<close>)
qed

lemma ensure_components_returns: "settled ft \<Longrightarrow> \<exists>r. ensure_components ft root cs current t = Some r"
proof (induction ft root cs current t rule: ensure_components.induct)
  case (2 ft root name cs current t)
  then show ?case by (auto intro!: run_bind_total ensure_component_returns split: prod.splits)
qed auto

lemma commit_target_returns:
  assumes "settled ft" "path_pop target \<noteq> None" "file_name target \<noteq> None"
  shows "\<exists>r. commit_target ft root target t = Some r"
  using assms
  by (auto simp: commit_target_def ensure_parent_directory_def split: option.splits
      intro!: run_bind_total ensure_components_returns)

lemma create_temp_fresh:
  "create_temp_loop n k tries pid target = Inr temp \<Longrightarrow> \<not> temp_path_aliases_target temp target"
  by (induction n arbitrary: k) (auto simp: Let_def split: if_splits sum.splits IoErrorKind.splits OpenAnswer.splits)

section \<open>What an observation proves\<close>

lemma matches_state_True:
  "expected_matches_state e s = Some True \<longleftrightarrow>
   (e = Some ExpectMissing \<and> s = StateMissing) \<or> (\<exists>stamp. e = Some (ExpectPresent stamp) \<and> s = StatePresent stamp)"
  by (cases "(e, s)" rule: expected_matches_state.cases) auto

lemma observation_renamed:
  assumes "renamed (atomic_write io target expected)"
  shows "wi_rename io \<and> ob_outcome (atomic_write io target expected) = (if wi_dir_sync io then Inr () else Inl UnknownOutcome)
    \<and> ob_after (atomic_write io target expected) = file_state_sync (wi_after io)
    \<and> ob_before (atomic_write io target expected) \<noteq> StateUnknown
    \<and> expected_matches (atomic_write io target expected)
        = expected_matches_state expected (file_state_sync (wi_recheck io))
    \<and> (expected_unknown (atomic_write io target expected)
        \<longleftrightarrow> expected \<noteq> None \<and> expected_matches_state expected (file_state_sync (wi_recheck io)) = None)"
proof -
  have none: "expected_matches_state None s = None" for s by simp
  show ?thesis
    using assms
    by (auto simp: atomic_write_def write_checked_def failed_observation_def Let_def none
        split: sum.splits option.splits if_splits)
qed

lemma classify_known: "classify_write_target m = Inl e \<Longrightarrow> e \<noteq> UnknownOutcome"
  by (cases m rule: classify_write_target.cases) auto

lemma create_temp_known: "create_temp_loop n k tries pid target = Inl e \<Longrightarrow> e \<noteq> UnknownOutcome"
  by (induction n arbitrary: k) (auto simp: Let_def split: if_splits sum.splits IoErrorKind.splits OpenAnswer.splits)

lemma observation_not_renamed:
  "\<not> renamed (atomic_write io target expected) \<Longrightarrow>
   \<exists>e. ob_outcome (atomic_write io target expected) = Inl e \<and> e \<noteq> UnknownOutcome"
  by (auto simp: atomic_write_def write_checked_def failed_observation_def create_unique_temp_def Let_def
      dest: classify_known create_temp_known split: sum.splits option.splits if_splits)

lemmas change_simps = observed_change_def observed_commit_state_def Let_def content_revision_def
  metadata_revision_def details_available_def before_available_def after_available_def
  revision_matches_snapshot_def

lemma applied_facts:
  assumes "ch_commit_state (observed_change hash_bytes path before bytes ob) = Applied"
    and "ob = atomic_write io target (expected_file_state before)"
  shows "renamed ob \<and> wi_rename io \<and> wi_dir_sync io
    \<and> expected_matches_state (expected_file_state before) (file_state_sync (wi_recheck io)) = Some True
    \<and> (\<exists>stamp. file_state_sync (wi_after io) = StatePresent stamp)
    \<and> (\<forall>b s steady. before = BeforeContent b s steady \<longrightarrow> steady)"
proof -
  have ren: "renamed ob"
    using assms observation_not_renamed[of io target "expected_file_state before"]
    by (auto simp: change_simps split: prod.splits if_splits)
  note ob = observation_renamed[OF ren[unfolded assms(2)], folded assms(2)]
  from assms(1) ren ob have "wi_dir_sync io"
    by (auto simp: change_simps split: prod.splits if_splits)
  with assms(1) ren ob show ?thesis
    by (cases before; cases "file_state_sync (wi_after io)") (auto simp: change_simps split: if_splits)
qed

lemma observed_change_validates:
  assumes "validate_relative_path path = Inr ()"
    and "\<And>b. valid_sha256 (hash_bytes b)"
    and "length bytes \<le> MAX_CHANGE_SNAPSHOT_BYTES"
    and "\<And>b stamp steady. before = BeforeContent b stamp steady \<Longrightarrow> length (fst b) \<le> MAX_CHANGE_SNAPSHOT_BYTES"
    and ob_def: "ob = atomic_write io target (expected_file_state before)"
    and c_def: "c = observed_change hash_bytes path before bytes ob"
  shows "validate_stored_file_change (change_stored c)
    = (if \<not> renamed ob \<and> expected_matches ob = Some False then Inl Corrupt else Inr ())"
proof -
  have path: "fc_path (change_stored c) = path"
    by (simp add: c_def observed_change_def change_stored_def Let_def split: prod.splits)
  have before: "validate_content True (hash_bytes b) (length b) = Inr ()"
    if "length b \<le> MAX_CHANGE_SNAPSHOT_BYTES" for b
    using that assms(2) by (simp add: validate_content_ok)
  have sides: "(case fc_before (change_stored c) of
         Missing \<Rightarrow> if \<not> before_captured (change_stored c) then Inl Corrupt else Inr ()
       | Content sha bytes \<Rightarrow> validate_content (before_captured (change_stored c)) sha bytes
       | _ \<Rightarrow> if before_captured (change_stored c) then Inl Corrupt else Inr ()) = Inr ()"
    using before assms(4)
    by (cases before) (simp_all add: c_def observed_change_def change_stored_def Let_def content_revision_def
        metadata_revision_def)
  have after: "fc_after (change_stored c) = (if renamed ob then Content (hash_bytes bytes) (length bytes) else UnknownRevision)"
    "after_captured (change_stored c) = renamed ob"
    by (simp_all add: c_def observed_change_def change_stored_def content_revision_def Let_def split: prod.splits)
  have state: "fc_state (change_stored c) \<in> {Applied, CommitConflict} \<longleftrightarrow> expected_matches ob = Some False" if "\<not> renamed ob"
    using that observation_not_renamed[of io target "expected_file_state before", folded ob_def]
    by (auto simp: c_def observed_change_def observed_commit_state_def change_stored_def Let_def split: prod.splits)
  show ?thesis
    unfolding validate_stored_file_change_def sides path assms(1) after
    using before[OF assms(3)] state by (cases "renamed ob") auto
qed

lemma unwritten_conflict:
  assumes "ob = atomic_write io target (expected_file_state before)" "c = observed_change hash_bytes path before bytes ob"
  shows "\<not> renamed ob \<and> expected_matches ob = Some False \<longleftrightarrow> ch_commit_state c = CommitConflict \<and> ch_after c = UnknownRevision"
  using observation_not_renamed[of io target "expected_file_state before"]
  by (cases before) (auto simp: assms change_simps)

text \<open>A snapshot that a change carries is the content its revision names.\<close>

lemma observed_change_sides:
  assumes "c = observed_change hash_bytes path before bytes ob"
    and "length bytes \<le> MAX_CHANGE_SNAPSHOT_BYTES"
    and "\<And>b stamp steady. before = BeforeContent b stamp steady \<Longrightarrow> length (fst b) \<le> MAX_CHANGE_SNAPSHOT_BYTES"
  shows "revision_bytes (ch_before c) \<le> MAX_CHANGE_SNAPSHOT_BYTES" "revision_bytes (ch_after c) \<le> MAX_CHANGE_SNAPSHOT_BYTES"
    and "ch_before_bytes c = Some b \<Longrightarrow> ch_before c = Content (hash_bytes (fst b)) (length (fst b))"
    and "ch_after_bytes c = Some b \<Longrightarrow> ch_after c = Content (hash_bytes (fst b)) (length (fst b))"
  using assms by (cases before; auto simp: change_simps split: if_splits)+

section \<open>Properties\<close>

text \<open>C15: Whatever the file system answers, a path that is resolved for reading, for listing or for writing
  has the canonical root as a prefix; the file that a started write replaces lies below the root, has the
  requested name, and its temporary file is another name of the same directory even when case is
  ignored. When a directory that was just created is seen, deciding the target ends without a panic.\<close>

theorem resolved_paths_inside_root:
  shows "(resolve_existing fs root path = Inr p \<longrightarrow> prefix root p)
    \<and> (resolve_directory fs root path = Inr p \<longrightarrow> prefix root p)
    \<and> (resolve_inside_sync fs root path allow = Inr p \<longrightarrow> prefix root p)
    \<and> (resolve_for_write fs root path = Inr target \<longrightarrow>
        (\<exists>parent name. target = parent @ [Normal name] \<and> prefix root parent)
        \<and> (\<forall>target' name t'. commit_target ft root target t = Some (Inr (target', name, t')) \<longrightarrow>
            file_name target = Some name
            \<and> (\<exists>parent'. target' = parent' @ [Normal name] \<and> prefix root parent')
            \<and> (\<forall>tries pid temp. create_unique_temp tries pid name = Inr temp \<longrightarrow>
                temp \<noteq> name \<and> \<not> temp_path_aliases_target temp name))
        \<and> (settled ft \<longrightarrow> (\<exists>r. commit_target ft root target t = Some r)))"
proof -
  have "resolve_existing fs root path = Inr p \<longrightarrow> prefix root p"
    "resolve_directory fs root path = Inr p \<longrightarrow> prefix root p"
    "resolve_inside_sync fs root path allow = Inr p \<longrightarrow> prefix root p"
    by (auto simp: resolve_existing_def resolve_directory_def resolve_inside_sync_def
        dest: canonicalize_inside_prefix split: if_splits)
  moreover have "\<exists>r. commit_target ft root target t = Some r"
    if "resolve_for_write fs root path = Inr target" "settled ft"
    using that(1) by (rule resolve_for_write_inside)
      (use commit_target_returns[OF that(2)] in \<open>auto simp: path_pop_def file_name_def\<close>)
  moreover have "temp \<noteq> name \<and> \<not> temp_path_aliases_target temp name"
    if "create_unique_temp tries pid name = Inr temp" for tries pid name temp
    using create_temp_fresh[OF that[unfolded create_unique_temp_def]]
    by (auto simp: temp_path_aliases_target_def)
  ultimately show ?thesis
    by (blast elim: resolve_for_write_inside dest: commit_target_inside)
qed

definition sample_root :: Path where
  "sample_root = [RootDir, Normal ''w'']"

definition sample_fs :: FsView where
  "sample_fs = \<lparr>symlink_meta = (\<lambda>p. if p = sample_root then Inr (MetaDir \<lparr>stamp_len = 0, modified_nanos = None\<rparr>)
       else Inl IoNotFound),
     target_meta = (\<lambda>p. Inr (MetaDir \<lparr>stamp_len = 0, modified_nanos = None\<rparr>)), canonical = Inr\<rparr>"

definition sample_time :: FsTime where
  "sample_time = \<lparr>view_at = (\<lambda>_. sample_fs\<lparr>symlink_meta := (\<lambda>_. Inr (MetaDir \<lparr>stamp_len = 0, modified_nanos = None\<rparr>))\<rparr>),
     mkdir = (\<lambda>_ _. Inl IoAlreadyExists), dir_sync = (\<lambda>_ _. True)\<rparr>"

theorem resolved_paths_inside_root_witness:
  "resolve_for_write sample_fs sample_root ''d/a'' = Inr (sample_root @ [Normal ''d'', Normal ''a''])
   \<and> settled sample_time
   \<and> (\<exists>r. commit_target sample_time sample_root (sample_root @ [Normal ''d'', Normal ''a'']) 0 = Some r)
   \<and> prefix sample_root (sample_root @ [Normal ''d''])"
proof -
  have w: "resolve_for_write sample_fs sample_root ''d/a'' = Inr (sample_root @ [Normal ''d'', Normal ''a''])"
    by code_simp
  moreover have "settled sample_time" by (simp add: settled_def sample_time_def)
  ultimately show ?thesis
    using resolved_paths_inside_root[of sample_fs sample_root "''d/a''" _ _
        "sample_root @ [Normal ''d'', Normal ''a'']" sample_time 0] by simp
qed

text \<open>C16: The change recorded for a file tool says no more than the write observed. A change is recorded as applied
  only when the temporary file was renamed over the target and its directory synced, the file still had the
  expected state (missing, or the stamp read before) immediately before the rename, the content read before
  was stable, and a file was there afterwards; then coverage is complete when the previous content was
  captured, and both recorded sides match their snapshots. Without a rename no content is claimed
  for the new side, and the change is either not committed or, if the expected state was not found, a conflict.\<close>

theorem recorded_change_is_observed:
  "let ob = atomic_write io target (expected_file_state before);
       c = observed_change hash_bytes path before bytes ob
   in (ch_commit_state c = Applied \<longrightarrow>
        wi_rename io \<and> wi_dir_sync io
        \<and> (case before of
             BeforeMissing \<Rightarrow> file_state_sync (wi_recheck io) = StateMissing
           | BeforeContent b stamp steady \<Rightarrow> file_state_sync (wi_recheck io) = StatePresent stamp \<and> steady
           | BeforeMetadata stamp \<Rightarrow> file_state_sync (wi_recheck io) = StatePresent stamp
           | BeforeUnknown \<Rightarrow> False)
        \<and> (\<exists>stamp. file_state_sync (wi_after io) = StatePresent stamp)
        \<and> ch_after c = Content (hash_bytes bytes) (length bytes))
    \<and> (ch_coverage c = Complete \<longleftrightarrow> ch_commit_state c = Applied \<and> ch_before_captured c)
    \<and> (ch_coverage c = Complete \<longrightarrow> details_available hash_bytes c)
    \<and> (\<not> renamed ob \<longrightarrow> ch_after c = UnknownRevision \<and> \<not> ch_after_captured c \<and> ch_coverage c = CoverageUnavailable
        \<and> ch_commit_state c = (if expected_matches ob = Some False then CommitConflict else NotCommitted))"
proof -
  define ob where "ob = atomic_write io target (expected_file_state before)"
  define c where "c = observed_change hash_bytes path before bytes ob"
  note applied = applied_facts[of hash_bytes path before bytes ob io target, folded c_def, OF _ ob_def]
  have "ch_commit_state c = Applied \<longrightarrow>
        wi_rename io \<and> wi_dir_sync io
        \<and> (case before of
             BeforeMissing \<Rightarrow> file_state_sync (wi_recheck io) = StateMissing
           | BeforeContent b stamp steady \<Rightarrow> file_state_sync (wi_recheck io) = StatePresent stamp \<and> steady
           | BeforeMetadata stamp \<Rightarrow> file_state_sync (wi_recheck io) = StatePresent stamp
           | BeforeUnknown \<Rightarrow> False)
        \<and> (\<exists>stamp. file_state_sync (wi_after io) = StatePresent stamp)
        \<and> ch_after c = Content (hash_bytes bytes) (length bytes)"
  proof
    assume "ch_commit_state c = Applied"
    note facts = applied[OF this]
    then have "ch_after c = Content (hash_bytes bytes) (length bytes)"
      by (simp add: c_def observed_change_def content_revision_def Let_def split: prod.splits)
    with facts show "wi_rename io \<and> wi_dir_sync io
        \<and> (case before of
             BeforeMissing \<Rightarrow> file_state_sync (wi_recheck io) = StateMissing
           | BeforeContent b stamp steady \<Rightarrow> file_state_sync (wi_recheck io) = StatePresent stamp \<and> steady
           | BeforeMetadata stamp \<Rightarrow> file_state_sync (wi_recheck io) = StatePresent stamp
           | BeforeUnknown \<Rightarrow> False)
        \<and> (\<exists>stamp. file_state_sync (wi_after io) = StatePresent stamp)
        \<and> ch_after c = Content (hash_bytes bytes) (length bytes)"
      by (cases before) (auto simp: matches_state_True)
  qed
  moreover have "ch_coverage c = Complete \<longleftrightarrow> ch_commit_state c = Applied \<and> ch_before_captured c"
  proof
    assume a: "ch_commit_state c = Applied \<and> ch_before_captured c"
    then have "renamed ob" using applied by blast
    with a show "ch_coverage c = Complete"
      by (cases before; cases "ob_outcome ob") (simp_all add: c_def change_simps split: if_splits)
  next
    assume "ch_coverage c = Complete"
    then show "ch_commit_state c = Applied \<and> ch_before_captured c"
      by (auto simp: c_def observed_change_def Let_def split: prod.splits if_splits)
  qed
  moreover have "ch_coverage c = Complete \<longrightarrow> details_available hash_bytes c"
    by (cases before) (auto simp: c_def observed_change_def Let_def details_available_def before_available_def
        after_available_def revision_matches_snapshot_def content_revision_def split: if_splits)
  moreover have "\<not> renamed ob \<longrightarrow> ch_after c = UnknownRevision \<and> \<not> ch_after_captured c \<and> ch_coverage c = CoverageUnavailable
        \<and> ch_commit_state c = (if expected_matches ob = Some False then CommitConflict else NotCommitted)"
    using observation_not_renamed[of io target "expected_file_state before", folded ob_def]
    by (cases before) (auto simp: c_def change_simps)
  ultimately show ?thesis unfolding Let_def ob_def[symmetric] c_def[symmetric] by blast
qed

definition sample_stamp :: FileStamp where
  "sample_stamp = \<lparr>stamp_len = 1, modified_nanos = Some 7\<rparr>"

definition sample_write :: WriteIo where
  "sample_write = \<lparr>wi_meta = Inr (MetaFile sample_stamp),
     wi_tries = (\<lambda>k. \<lparr>tt_id = k, tt_meta = Inl IoNotFound, tt_open = (if k = 0 then OpenExists else OpenedNew)\<rparr>),
     wi_pid = 4, wi_chmod = True, wi_write = True, wi_flush = True, wi_chmod_again = True, wi_sync = True,
     wi_recheck = Inr (MetaFile sample_stamp), wi_reclassify = Inr (MetaFile sample_stamp), wi_rename = True,
     wi_after = Inr (MetaFile sample_stamp), wi_dir_sync = True\<rparr>"

definition sample_hash :: "string \<Rightarrow> string" where
  "sample_hash b = replicate 64 (CHR ''0'')"

definition sample_change :: "WriteIo \<Rightarrow> FileChange" where
  "sample_change io =
     observed_change sample_hash ''a'' (BeforeContent (''x'', 1) sample_stamp True) ''yz''
       (atomic_write io ''a'' (Some (ExpectPresent sample_stamp)))"

theorem recorded_change_is_observed_witness:
  "ch_commit_state (sample_change sample_write) = Applied \<and> ch_coverage (sample_change sample_write) = Complete
   \<and> details_available sample_hash (sample_change sample_write)
   \<and> file_state_sync (wi_recheck sample_write) = StatePresent sample_stamp"
proof -
  have "ch_commit_state (sample_change sample_write) = Applied" "ch_before_captured (sample_change sample_write)"
    by code_simp+
  then show ?thesis
    using recorded_change_is_observed[of sample_write "''a''" "BeforeContent (''x'', 1) sample_stamp True"
        sample_hash "''a''" "''yz''"]
    by (simp add: Let_def sample_change_def)
qed

text \<open>C18: A change recorded for a write within the snapshot limit passes the validation of stored records, with
  one exception: when the file no longer had the expected state and the write then failed before the
  rename, the change is recorded as a conflict without a new content, which the validation rejects as
  corrupt, so that the record of that tool call is never stored.\<close>

theorem recorded_change_storable:
  assumes "validate_relative_path path = Inr ()"
    and "\<And>b. valid_sha256 (hash_bytes b)"
    and "length bytes \<le> MAX_CHANGE_SNAPSHOT_BYTES"
    and "\<And>b stamp steady. before = BeforeContent b stamp steady \<Longrightarrow> length (fst b) \<le> MAX_CHANGE_SNAPSHOT_BYTES"
  shows "let ob = atomic_write io target (expected_file_state before);
             c = observed_change hash_bytes path before bytes ob
         in validate_stored_file_change (change_stored c)
            = (if \<not> renamed ob \<and> expected_matches ob = Some False then Inl Corrupt else Inr ())"
  unfolding Let_def by (rule observed_change_validates[OF assms refl refl])

theorem recorded_change_storable_witness:
  "validate_stored_file_change (change_stored (sample_change sample_write)) = Inr ()
   \<and> ch_commit_state (sample_change (sample_write\<lparr>wi_meta := Inl IoNotFound, wi_write := False\<rparr>)) = CommitConflict
   \<and> validate_stored_file_change
        (change_stored (sample_change (sample_write\<lparr>wi_meta := Inl IoNotFound, wi_write := False\<rparr>))) = Inl Corrupt"
proof -
  have path: "validate_relative_path ''a'' = Inr ()" by code_simp
  have hash: "valid_sha256 (sample_hash b)" for b
    by (simp add: sample_hash_def valid_sha256_def is_hexdigit_def byte_in_def list_all_iff)
  have len: "length ''yz'' \<le> MAX_CHANGE_SNAPSHOT_BYTES" by (simp add: MAX_CHANGE_SNAPSHOT_BYTES_def)
  have storable: "validate_stored_file_change (change_stored (sample_change io))
      = (let ob = atomic_write io ''a'' (Some (ExpectPresent sample_stamp))
         in if \<not> renamed ob \<and> expected_matches ob = Some False then Inl Corrupt else Inr ())" for io
    using recorded_change_storable[OF path hash len, of "BeforeContent (''x'', 1) sample_stamp True" io "''a''"]
    by (simp add: sample_change_def Let_def MAX_CHANGE_SNAPSHOT_BYTES_def)
  have "renamed (atomic_write sample_write ''a'' (Some (ExpectPresent sample_stamp)))"
    "\<not> renamed (atomic_write (sample_write\<lparr>wi_meta := Inl IoNotFound, wi_write := False\<rparr>) ''a''
        (Some (ExpectPresent sample_stamp)))"
    "expected_matches (atomic_write (sample_write\<lparr>wi_meta := Inl IoNotFound, wi_write := False\<rparr>) ''a''
        (Some (ExpectPresent sample_stamp))) = Some False"
    "ch_commit_state (sample_change (sample_write\<lparr>wi_meta := Inl IoNotFound, wi_write := False\<rparr>)) = CommitConflict"
    by code_simp+
  then show ?thesis by (simp only: storable Let_def simp_thms if_True if_False)
qed

end
