(* ===== verification/Tool_Data.thy ===== *)
theory Tool_Data
  imports Workspace_Write Display "HOL-Library.AList"
begin

text \<open>
  The facts a loaded Session keeps about its tool calls: \<^verbatim>\<open>tool_data/record.rs\<close> and
  \<^verbatim>\<open>tool_data/data.rs\<close>. A record holds the requested input, the result text, bounded tail windows of the
  process streams, the command record and one file change; the store bounds the number of
  records and their bytes by evicting the oldest data first. Every operation holds the store's
  lock, so that each is one step of \<open>td_step\<close>.

  Buffers carry their capacity, which is what the budget counts; how much more than asked for the
  allocator gives is a parameter of every push. The hash map of records is an association
  list; its order is never observed. Panics (subtraction below zero, a slice out of bounds, the
  debug assertion of the accounting) are \<^term>\<open>None\<close>.
\<close>

section \<open>Stream windows\<close>

datatype ToolDataStream = InputStream | OutputStream | StdoutStream | StderrStream

definition is_process :: "ToolDataStream \<Rightarrow> bool" where
  "is_process s = (s \<in> {StdoutStream, StderrStream})"

datatype ToolDataAvailability = AvPending | AvUnavailable | AvAvailable | AvPartial | AvExpired

record StreamWindow =
  w_bytes :: string
  w_cap :: nat
  w_start :: nat
  w_end :: nat
  w_seen :: bool
  w_complete :: bool
  w_truncated :: bool
  w_expired :: bool
  w_corrupt :: bool

definition window_default :: StreamWindow where
  "window_default = \<lparr>w_bytes = [], w_cap = 0, w_start = 0, w_end = 0, w_seen = False, w_complete = False,
     w_truncated = False, w_expired = False, w_corrupt = False\<rparr>"

record StreamPush =
  sp_base :: nat
  sp_next :: nat
  sp_dropped :: bool

definition sat_mul :: "nat \<Rightarrow> nat \<Rightarrow> nat" where
  "sat_mul a b = min (a * b) (u64_bound - 1)"

text \<open>
  \<^verbatim>\<open>VecDeque::reserve_exact\<close>: the capacity becomes at least the length and what is asked for, with
  \<open>slack\<close> on top when the allocator gives more.
\<close>

definition reserve_exact :: "nat \<Rightarrow> nat \<Rightarrow> nat \<Rightarrow> nat \<Rightarrow> nat" where
  "reserve_exact slack len cap additional = (if cap < len + additional then len + additional + slack else cap)"

definition push_fits :: "nat \<Rightarrow> string \<Rightarrow> StreamWindow \<Rightarrow> StreamWindow option" where
  "push_fits slack chunk w =
     (let old_len = length (w_bytes w); total_len = sat_add old_len (length chunk) in
      if w_cap w < total_len
      then Option.bind (checked_sub (min (max (sat_mul (w_cap w) 2) total_len) MAX_TOOL_STREAM_BYTES) old_len)
        (\<lambda>additional. Some (w\<lparr>w_cap := reserve_exact slack old_len (w_cap w) additional, w_bytes := w_bytes w @ chunk\<rparr>))
      else Some (w\<lparr>w_bytes := w_bytes w @ chunk\<rparr>))"

definition push_drops :: "nat \<Rightarrow> string \<Rightarrow> StreamWindow \<Rightarrow> StreamWindow option" where
  "push_drops slack chunk w =
     (let old_len = length (w_bytes w); total_len = sat_add old_len (length chunk) in
      Option.bind (checked_sub total_len MAX_TOOL_STREAM_BYTES) (\<lambda>excess.
      let old_dropped = min excess old_len; chunk_dropped = excess - old_dropped;
          kept = drop old_dropped (w_bytes w)
      in if length chunk < chunk_dropped then None
         else Option.bind
           (if w_cap w < MAX_TOOL_STREAM_BYTES
            then map_option (reserve_exact slack (length kept) (w_cap w))
              (checked_sub MAX_TOOL_STREAM_BYTES (length kept))
            else Some (w_cap w))
           (\<lambda>cap. Some (w\<lparr>w_start := sat_add (w_start w) excess, w_truncated := True, w_cap := cap,
                w_bytes := kept @ drop chunk_dropped chunk\<rparr>))))"

definition window_push :: "nat \<Rightarrow> string \<Rightarrow> StreamWindow \<Rightarrow> (StreamPush \<times> StreamWindow) option" where
  "window_push slack chunk w =
     (let w = w\<lparr>w_seen := True\<rparr>;
          w = (if w_bytes w = [] then w\<lparr>w_start := w_end w\<rparr> else w);
          base = w_end w;
          w = w\<lparr>w_end := sat_add (w_end w) (length chunk)\<rparr>
      in if chunk = [] then Some (\<lparr>sp_base = base, sp_next = w_end w, sp_dropped = False\<rparr>, w)
         else
           let w = w\<lparr>w_expired := False\<rparr>;
               dropped = (MAX_TOOL_STREAM_BYTES < sat_add (length (w_bytes w)) (length chunk))
           in map_option (\<lambda>w'. (\<lparr>sp_base = base, sp_next = w_end w, sp_dropped = dropped\<rparr>, w'))
                (if dropped then push_drops slack chunk w else push_fits slack chunk w))"

definition window_retained :: "StreamWindow \<Rightarrow> nat" where
  "window_retained w = (if w_expired w then 0 else w_cap w)"

definition live_range :: "StreamWindow \<Rightarrow> nat \<times> nat" where
  "live_range w = (w_start w, w_end w)"

definition window_evict :: "StreamWindow \<Rightarrow> StreamWindow" where
  "window_evict w = w\<lparr>w_bytes := [], w_cap := 0, w_start := w_end w, w_expired := True, w_truncated := True\<rparr>"

definition snapshot_blob :: "(string \<Rightarrow> string) \<Rightarrow> string \<Rightarrow> bool \<Rightarrow> string option \<times> nat \<times> string option" where
  "snapshot_blob hash_bytes bytes expired =
     (if expired \<or> bytes = [] then (None, 0, None) else (Some bytes, length bytes, Some (hash_bytes bytes)))"

definition window_snapshot :: "(string \<Rightarrow> string) \<Rightarrow> StreamWindow \<Rightarrow> StoredStreamWindow \<times> string option" where
  "window_snapshot hash_bytes w =
     (let (bytes, file_bytes, file_sha256) = snapshot_blob hash_bytes (w_bytes w) (w_expired w)
      in (\<lparr>sw_start = w_start w, sw_end = w_end w, sw_seen = w_seen w, sw_complete = w_complete w,
           sw_truncated = w_truncated w, sw_expired = w_expired w, sw_file_bytes = file_bytes,
           sw_sha256 = file_sha256\<rparr>, bytes))"

section \<open>Records\<close>

datatype ToolRecordingState = MemoryOnly | RecordSaved | RecordFailed

record ToolRecord =
  r_name :: string
  r_subject :: ToolSubject
  r_subject_truncated :: bool
  r_input :: string
  r_input_total :: nat
  r_input_seen :: bool
  r_input_truncated :: bool
  r_input_expired :: bool
  r_result :: string
  r_output_line_count :: "nat option"
  r_result_total :: nat
  r_result_seen :: bool
  r_result_truncated :: bool
  r_result_expired :: bool
  r_state :: ToolExecutionState
  r_phase :: "ToolPhase option"
  r_started_at :: "string option"
  r_finished_at :: "string option"
  r_outcome :: "ToolResultOutcome option"
  r_stdout :: StreamWindow
  r_stderr :: StreamWindow
  r_command :: "CommandResult option"
  r_file_change :: "FileChange option"
  r_input_corrupt :: bool
  r_result_corrupt :: bool
  r_recording :: ToolRecordingState

definition record_is_terminal :: "ToolRecord \<Rightarrow> bool" where
  "record_is_terminal r =
     (state_is_terminal (r_state r)
      \<and> (case r_command r of None \<Rightarrow> True | Some cmd \<Rightarrow> status_is_terminal (cr_status cmd)))"

definition record_new :: "string \<Rightarrow> ToolRecord" where
  "record_new name = \<lparr>r_name = name, r_subject = OtherSubject, r_subject_truncated = False, r_input = [],
     r_input_total = 0, r_input_seen = False, r_input_truncated = False, r_input_expired = False,
     r_result = [], r_output_line_count = None, r_result_total = 0, r_result_seen = False,
     r_result_truncated = False, r_result_expired = False, r_state = Requested, r_phase = None,
     r_started_at = None, r_finished_at = None, r_outcome = None, r_stdout = window_default,
     r_stderr = window_default, r_command = None, r_file_change = None, r_input_corrupt = False,
     r_result_corrupt = False, r_recording = MemoryOnly\<rparr>"

fun record_stream :: "ToolRecord \<Rightarrow> ToolDataStream \<Rightarrow> StreamWindow option" where
  "record_stream r StdoutStream = Some (r_stdout r)"
| "record_stream r StderrStream = Some (r_stderr r)"
| "record_stream r _ = None"

fun set_stream :: "ToolDataStream \<Rightarrow> StreamWindow \<Rightarrow> ToolRecord \<Rightarrow> ToolRecord" where
  "set_stream StdoutStream w r = r\<lparr>r_stdout := w\<rparr>"
| "set_stream StderrStream w r = r\<lparr>r_stderr := w\<rparr>"
| "set_stream _ w r = r"

definition COMMAND_METADATA_BYTES :: nat where "COMMAND_METADATA_BYTES = 128"
definition CHANGE_METADATA_BYTES :: nat where "CHANGE_METADATA_BYTES = 512"

fun subject_len :: "ToolSubject \<Rightarrow> nat" where
  "subject_len (FileSubject path) = length path"
| "subject_len (CommandSubject script cwd) = sat_add (length script) (length cwd)"
| "subject_len OtherSubject = 0"

definition capacity_of :: "(string \<times> nat) option \<Rightarrow> nat" where
  "capacity_of b = (case b of None \<Rightarrow> 0 | Some (_, cap) \<Rightarrow> cap)"

definition change_snapshot_bytes :: "FileChange \<Rightarrow> nat" where
  "change_snapshot_bytes c = sat_add (capacity_of (ch_before_bytes c)) (capacity_of (ch_after_bytes c))"

definition retained_bytes :: "ToolRecord \<Rightarrow> nat" where
  "retained_bytes r =
     (let command = (if r_command r \<noteq> None then COMMAND_METADATA_BYTES else 0);
          file_change = (case r_file_change r of None \<Rightarrow> 0
            | Some c \<Rightarrow> sat_add (sat_add CHANGE_METADATA_BYTES (length (ch_path c))) (change_snapshot_bytes c))
      in sat_add (sat_add (sat_add (sat_add (sat_add (sat_add (sat_add
           (length (r_name r)) (subject_len (r_subject r))) (length (r_input r))) (length (r_result r)))
           (window_retained (r_stdout r))) (window_retained (r_stderr r))) file_change) command)"

definition text_availability :: "bool \<Rightarrow> bool \<Rightarrow> bool \<Rightarrow> nat \<Rightarrow> nat \<Rightarrow> bool \<Rightarrow> ToolDataAvailability" where
  "text_availability seen expired terminal retained observed truncated =
     (if expired then AvExpired
      else if seen then (if truncated \<or> retained < observed then AvPartial else AvAvailable)
      else if terminal then AvUnavailable
      else AvPending)"

definition input_availability :: "ToolRecord \<Rightarrow> ToolDataAvailability" where
  "input_availability r =
     (if r_input_corrupt r then AvUnavailable
      else text_availability (r_input_seen r) (r_input_expired r) (state_is_terminal (r_state r))
        (length (r_input r)) (r_input_total r) (r_input_truncated r))"

definition output_availability :: "ToolRecord \<Rightarrow> ToolDataAvailability" where
  "output_availability r =
     (if r_result_corrupt r then AvUnavailable
      else text_availability (r_result_seen r) (r_result_expired r) (state_is_terminal (r_state r))
        (length (r_result r)) (r_result_total r) (r_result_truncated r))"

definition evict_input :: "ToolRecord \<Rightarrow> ToolRecord" where
  "evict_input r = r\<lparr>r_input := [], r_input_expired := True\<rparr>"

definition evict_result :: "ToolRecord \<Rightarrow> ToolRecord" where
  "evict_result r = r\<lparr>r_result := [], r_output_line_count := None, r_result_expired := True\<rparr>"

definition stream_final :: "ToolRecord \<Rightarrow> bool" where
  "stream_final r = (case r_command r of Some cmd \<Rightarrow> status_is_terminal (cr_status cmd)
     | None \<Rightarrow> state_is_terminal (r_state r))"

definition process_availability :: "ToolRecord \<Rightarrow> ToolDataStream \<Rightarrow> ToolDataAvailability" where
  "process_availability r stream =
     (case record_stream r stream of
        None \<Rightarrow> AvUnavailable
      | Some w \<Rightarrow>
          if w_corrupt w then AvUnavailable
          else if w_expired w then AvExpired
          else if w_truncated w then AvPartial
          else if w_seen w \<or> w_complete w then AvAvailable
          else if stream_final r then AvUnavailable
          else AvPending)"

definition live_command :: "ToolRecord \<Rightarrow> CommandResult \<Rightarrow> CommandResult" where
  "live_command r cmd =
     cmd\<lparr>stdout_base_offset := fst (live_range (r_stdout r)), stdout_observed_end := snd (live_range (r_stdout r)),
       stderr_base_offset := fst (live_range (r_stderr r)), stderr_observed_end := snd (live_range (r_stderr r)),
       output_truncated := (output_truncated cmd \<or> w_truncated (r_stdout r) \<or> w_truncated (r_stderr r)
         \<or> w_expired (r_stdout r) \<or> w_expired (r_stderr r))\<rparr>"

record ToolExecutionData =
  ex_output_line_count :: "nat option"
  ex_ref :: ToolRef
  ex_name :: string
  ex_state :: ToolExecutionState
  ex_phase :: "ToolPhase option"
  ex_started_at :: "string option"
  ex_finished_at :: "string option"
  ex_outcome :: "ToolResultOutcome option"
  ex_input_availability :: ToolDataAvailability
  ex_output_availability :: ToolDataAvailability
  ex_input_bytes :: nat
  ex_result_bytes :: nat
  ex_input_truncated :: bool
  ex_result_truncated :: bool
  ex_command :: "CommandResult option"
  ex_recording :: ToolRecordingState

definition execution_data :: "ToolRecord \<Rightarrow> ToolRef \<Rightarrow> ToolExecutionData" where
  "execution_data r ref = \<lparr>ex_output_line_count = r_output_line_count r, ex_ref = ref, ex_name = r_name r,
     ex_state = r_state r, ex_phase = r_phase r, ex_started_at = r_started_at r, ex_finished_at = r_finished_at r,
     ex_outcome = r_outcome r, ex_input_availability = input_availability r,
     ex_output_availability = output_availability r, ex_input_bytes = r_input_total r,
     ex_result_bytes = r_result_total r,
     ex_input_truncated = (r_input_truncated r \<or> length (r_input r) < r_input_total r),
     ex_result_truncated = (r_result_truncated r \<or> length (r_result r) < r_result_total r),
     ex_command = map_option (live_command r) (r_command r), ex_recording = r_recording r\<rparr>"

section \<open>The store\<close>

definition MAX_TOOL_RECORDS :: nat where "MAX_TOOL_RECORDS = 1024"
definition MAX_TOOL_TOTAL_BYTES :: nat where "MAX_TOOL_TOTAL_BYTES = 8 * 1024 * 1024"
definition MAX_TOOL_INPUT_BYTES :: nat where "MAX_TOOL_INPUT_BYTES = 64 * 1024"
definition MAX_TOOL_RESULT_BYTES :: nat where "MAX_TOOL_RESULT_BYTES = 256 * 1024"
definition EVENT_INPUT_PREVIEW_BYTES :: nat where "EVENT_INPUT_PREVIEW_BYTES = 2 * 1024"
definition MAX_SUBJECT_BYTES :: nat where "MAX_SUBJECT_BYTES = 4 * 1024"

record ToolDataInner =
  td_records :: "(ToolRef \<times> ToolRecord) list"
  td_order :: "ToolRef list"
  td_total :: nat

definition inner_default :: ToolDataInner where
  "inner_default = \<lparr>td_records = [], td_order = [], td_total = 0\<rparr>"

definition get_record :: "ToolDataInner \<Rightarrow> ToolRef \<Rightarrow> ToolRecord option" where
  "get_record d ref = map_of (td_records d) ref"

definition put_record :: "ToolRef \<Rightarrow> ToolRecord \<Rightarrow> ToolDataInner \<Rightarrow> ToolDataInner" where
  "put_record ref r d = d\<lparr>td_records := AList.update ref r (td_records d)\<rparr>"

definition modify_record :: "ToolRef \<Rightarrow> (ToolRecord \<Rightarrow> ToolRecord) \<Rightarrow> ToolDataInner \<Rightarrow> ToolDataInner" where
  "modify_record ref f d = (case get_record d ref of None \<Rightarrow> d | Some r \<Rightarrow> put_record ref (f r) d)"

definition track :: "ToolRef \<Rightarrow> string \<Rightarrow> ToolDataInner \<Rightarrow> ToolDataInner" where
  "track ref name d =
     (case get_record d ref of
        Some _ \<Rightarrow> d
      | None \<Rightarrow>
          let r = record_new name
          in (put_record ref r d)\<lparr>td_total := sat_add (td_total d) (retained_bytes r), td_order := td_order d @ [ref]\<rparr>)"

text \<open>\<open>f\<close> is the closure that changes the record; it may panic.\<close>

definition resize :: "ToolRef \<Rightarrow> (ToolRecord \<Rightarrow> ToolRecord option) \<Rightarrow> ToolDataInner \<Rightarrow> ToolDataInner option" where
  "resize ref f d =
     (case get_record d ref of
        None \<Rightarrow> Some (d\<lparr>td_total := sat_add (td_total d - 0) 0\<rparr>)
      | Some r \<Rightarrow> Option.bind (f r) (\<lambda>r'.
          Some ((put_record ref r' d)\<lparr>td_total := sat_add (td_total d - retained_bytes r) (retained_bytes r')\<rparr>)))"

definition input_evictable :: "ToolRecord \<Rightarrow> bool" where
  "input_evictable r = (\<not> r_input_expired r \<and> (r_input r \<noteq> [] \<or> 0 < r_input_total r))"

definition result_evictable :: "ToolRecord \<Rightarrow> bool" where
  "result_evictable r = (\<not> r_result_expired r \<and> (r_result r \<noteq> [] \<or> 0 < r_result_total r))"

definition change_evictable :: "ToolRecord \<Rightarrow> bool" where
  "change_evictable r = (case r_file_change r of None \<Rightarrow> False | Some c \<Rightarrow> 0 < change_snapshot_bytes c)"

definition window_evictable :: "StreamWindow \<Rightarrow> bool" where
  "window_evictable w = (\<not> w_expired w \<and> (w_bytes w \<noteq> [] \<or> 0 < w_end w))"

definition stream_victim :: "ToolRecord \<Rightarrow> ToolDataStream option" where
  "stream_victim r =
     find (\<lambda>s. case record_stream r s of None \<Rightarrow> False | Some w \<Rightarrow> window_evictable w) [StdoutStream, StderrStream]"

definition drop_change_bytes :: "ToolRecord \<Rightarrow> ToolRecord" where
  "drop_change_bytes r =
     r\<lparr>r_file_change := map_option (\<lambda>c. c\<lparr>ch_before_bytes := None, ch_after_bytes := None\<rparr>) (r_file_change r)\<rparr>"

definition evict_stream :: "ToolDataStream \<Rightarrow> ToolRecord \<Rightarrow> ToolRecord" where
  "evict_stream s r = (case record_stream r s of None \<Rightarrow> r | Some w \<Rightarrow> set_stream s (window_evict w) r)"

definition find_record :: "(ToolRecord \<Rightarrow> bool) \<Rightarrow> ToolDataInner \<Rightarrow> ToolRef option" where
  "find_record P d = find (\<lambda>ref. case get_record d ref of None \<Rightarrow> False | Some r \<Rightarrow> P r) (td_order d)"

definition freed_from :: "ToolDataInner \<Rightarrow> ToolRef \<Rightarrow> (ToolRecord \<Rightarrow> nat) \<Rightarrow> nat" where
  "freed_from d ref size_of = (case get_record d ref of None \<Rightarrow> 0 | Some r \<Rightarrow> size_of r)"

definition release :: "ToolRef \<Rightarrow> (ToolRecord \<Rightarrow> nat) \<Rightarrow> (ToolRecord \<Rightarrow> ToolRecord) \<Rightarrow> ToolDataInner \<Rightarrow> ToolDataInner" where
  "release ref size_of f d = (modify_record ref f d)\<lparr>td_total := td_total d - freed_from d ref size_of\<rparr>"

definition evict_some_bytes :: "ToolDataInner \<Rightarrow> bool \<times> ToolDataInner" where
  "evict_some_bytes d =
     (case find_record input_evictable d of
        Some ref \<Rightarrow> (True, release ref (\<lambda>r. length (r_input r)) evict_input d)
      | None \<Rightarrow>
      case find_record result_evictable d of
        Some ref \<Rightarrow> (True, release ref (\<lambda>r. length (r_result r)) evict_result d)
      | None \<Rightarrow>
      case find_record change_evictable d of
        Some ref \<Rightarrow> (True, release ref (\<lambda>r. case r_file_change r of None \<Rightarrow> 0 | Some c \<Rightarrow> change_snapshot_bytes c)
          drop_change_bytes d)
      | None \<Rightarrow>
      case find_record (\<lambda>r. stream_victim r \<noteq> None) d of
        Some ref \<Rightarrow>
          (case Option.bind (get_record d ref) stream_victim of
             None \<Rightarrow> (False, d)
           | Some s \<Rightarrow> (True, release ref (\<lambda>r. case record_stream r s of None \<Rightarrow> 0 | Some w \<Rightarrow> window_retained w)
               (evict_stream s) d))
      | None \<Rightarrow> (False, d))"

definition remove_oldest :: "ToolDataInner \<Rightarrow> bool \<times> ToolDataInner" where
  "remove_oldest d =
     (case (case find_record (\<lambda>r. state_is_terminal (r_state r)) d of
              Some ref \<Rightarrow> Some ref
            | None \<Rightarrow> (case td_order d of [] \<Rightarrow> None | ref # _ \<Rightarrow> Some ref)) of
        None \<Rightarrow> (False, d)
      | Some ref \<Rightarrow>
          (True, \<lparr>td_records = AList.delete ref (td_records d),
             td_order = filter (\<lambda>x. x \<noteq> ref) (td_order d),
             td_total = td_total d - freed_from d ref retained_bytes\<rparr>))"

text \<open>What is left to evict; every round of the loops takes something of it.\<close>

definition evictables :: "ToolRecord \<Rightarrow> nat" where
  "evictables r = of_bool (input_evictable r) + of_bool (result_evictable r) + of_bool (change_evictable r)
     + of_bool (window_evictable (r_stdout r)) + of_bool (window_evictable (r_stderr r))"

definition evict_weight :: "ToolDataInner \<Rightarrow> ToolRef \<Rightarrow> nat" where
  "evict_weight d ref = Suc (case get_record d ref of None \<Rightarrow> 0 | Some r \<Rightarrow> evictables r)"

definition evict_measure :: "ToolDataInner \<Rightarrow> nat" where
  "evict_measure d = sum_list (map (evict_weight d) (td_order d))"

lemma get_put_record [simp]: "get_record (put_record ref r d) x = (if x = ref then Some r else get_record d x)"
  by (simp add: get_record_def put_record_def update_conv')

lemma get_record_total [simp]: "get_record (d\<lparr>td_total := n\<rparr>) = get_record d"
  by (rule ext) (simp add: get_record_def)

lemma get_record_order [simp]: "get_record (d\<lparr>td_order := ns\<rparr>) = get_record d"
  by (rule ext) (simp add: get_record_def)

lemma order_put_record [simp]: "td_order (put_record ref r d) = td_order d"
  "td_total (put_record ref r d) = td_total d"
  by (simp_all add: put_record_def)

lemma find_record_Some:
  "find_record P d = Some ref \<Longrightarrow> ref \<in> set (td_order d) \<and> (\<exists>r. get_record d ref = Some r \<and> P r)"
  by (auto simp: find_record_def find_Some_iff split: option.splits)

lemma sum_list_strict:
  fixes f g :: "'a \<Rightarrow> nat"
  assumes "x \<in> set xs" "f x < g x" "\<And>y. y \<in> set xs \<Longrightarrow> f y \<le> g y"
  shows "sum_list (map f xs) < sum_list (map g xs)"
  using assms
proof (induction xs)
  case (Cons a xs)
  have "sum_list (map f xs) \<le> sum_list (map g xs)" using Cons.prems(3) by (intro sum_list_mono) simp
  with Cons show ?case by (cases "x = a") (auto intro: add_less_le_mono add_le_less_mono)
qed simp

lemma release_measure:
  assumes "ref \<in> set (td_order d)" "get_record d ref = Some r" "evictables (f r) < evictables r"
  shows "evict_measure (release ref size_of f d) < evict_measure d"
  unfolding evict_measure_def
proof -
  have ord: "td_order (release ref size_of f d) = td_order d"
    using assms(2) by (simp add: release_def modify_record_def)
  have w: "evict_weight (release ref size_of f d) x = (if x = ref then Suc (evictables (f r)) else evict_weight d x)" for x
    using assms(2) by (simp add: evict_weight_def release_def modify_record_def)
  have wr: "evict_weight d ref = Suc (evictables r)" using assms(2) by (simp add: evict_weight_def)
  show "sum_list (map (evict_weight (release ref size_of f d)) (td_order (release ref size_of f d)))
      < sum_list (map (evict_weight d) (td_order d))"
    unfolding ord using assms(3) wr by (intro sum_list_strict[OF assms(1)]) (simp_all add: w)
qed

lemma evictables_input: "input_evictable r \<Longrightarrow> evictables (evict_input r) < evictables r"
  by (simp add: evictables_def evict_input_def input_evictable_def result_evictable_def change_evictable_def)

lemma evictables_result: "result_evictable r \<Longrightarrow> evictables (evict_result r) < evictables r"
  by (simp add: evictables_def evict_result_def input_evictable_def result_evictable_def change_evictable_def)

lemma change_snapshot_cleared [simp]: "change_snapshot_bytes (c\<lparr>ch_before_bytes := None, ch_after_bytes := None\<rparr>) = 0"
  by (simp add: change_snapshot_bytes_def capacity_of_def sat_add_def)

lemma evictables_change: "change_evictable r \<Longrightarrow> evictables (drop_change_bytes r) < evictables r"
  by (auto simp: evictables_def drop_change_bytes_def input_evictable_def result_evictable_def change_evictable_def
      split: option.splits)

lemma stream_victim_Some:
  "stream_victim r = Some s \<Longrightarrow>
   (s = StdoutStream \<and> window_evictable (r_stdout r)) \<or> (s = StderrStream \<and> window_evictable (r_stderr r))"
  by (auto simp: stream_victim_def split: if_splits)

lemma window_evict_done: "\<not> window_evictable (window_evict w)"
  by (simp add: window_evictable_def window_evict_def)

lemma evictables_stream:
  assumes "stream_victim r = Some s"
  shows "evictables (evict_stream s r) < evictables r"
  using stream_victim_Some[OF assms]
proof (elim disjE conjE)
  assume "s = StdoutStream" "window_evictable (r_stdout r)"
  then show ?thesis
    by (simp add: evictables_def evict_stream_def window_evict_done input_evictable_def result_evictable_def
        change_evictable_def)
next
  assume "s = StderrStream" "window_evictable (r_stderr r)"
  then show ?thesis
    by (simp add: evictables_def evict_stream_def window_evict_done input_evictable_def result_evictable_def
        change_evictable_def)
qed

text \<open>The four kinds of eviction, with what each frees.\<close>

inductive evicts_part :: "ToolRecord \<Rightarrow> (ToolRecord \<Rightarrow> nat) \<Rightarrow> (ToolRecord \<Rightarrow> ToolRecord) \<Rightarrow> bool" for r where
  input: "input_evictable r \<Longrightarrow> evicts_part r (\<lambda>r. length (r_input r)) evict_input"
| result: "result_evictable r \<Longrightarrow> evicts_part r (\<lambda>r. length (r_result r)) evict_result"
| change: "change_evictable r \<Longrightarrow>
    evicts_part r (\<lambda>r. case r_file_change r of None \<Rightarrow> 0 | Some c \<Rightarrow> change_snapshot_bytes c) drop_change_bytes"
| stream: "stream_victim r = Some s \<Longrightarrow>
    evicts_part r (\<lambda>r. case record_stream r s of None \<Rightarrow> 0 | Some w \<Rightarrow> window_retained w) (evict_stream s)"

lemma evicts_part_measure: "evicts_part r size_of f \<Longrightarrow> evictables (f r) < evictables r"
  by (erule evicts_part.cases)
    (simp_all only: evictables_input evictables_result evictables_change evictables_stream)

lemma evict_some_bytes_cases:
  assumes "evict_some_bytes d = (b, d')"
  obtains (idle) "\<not> b" "d' = d"
  | (freed) ref r size_of f where "b" "ref \<in> set (td_order d)" "get_record d ref = Some r" "evicts_part r size_of f"
      "d' = release ref size_of f d"
proof (cases "find_record input_evictable d")
  case (Some ref)
  from find_record_Some[OF Some] obtain r where r: "ref \<in> set (td_order d)" "get_record d ref = Some r"
    "input_evictable r" by blast
  from assms Some have "b" "d' = release ref (\<lambda>r. length (r_input r)) evict_input d"
    by (simp_all add: evict_some_bytes_def)
  then show ?thesis by (rule freed[OF _ r(1,2) evicts_part.input[OF r(3)]])
next
  case i: None
  show ?thesis
  proof (cases "find_record result_evictable d")
    case (Some ref)
    from find_record_Some[OF Some] obtain r where r: "ref \<in> set (td_order d)" "get_record d ref = Some r"
      "result_evictable r" by blast
    from assms i Some have "b" "d' = release ref (\<lambda>r. length (r_result r)) evict_result d"
      by (simp_all add: evict_some_bytes_def)
    then show ?thesis by (rule freed[OF _ r(1,2) evicts_part.result[OF r(3)]])
  next
    case r: None
    show ?thesis
    proof (cases "find_record change_evictable d")
      case (Some ref)
      from find_record_Some[OF Some] obtain q where q: "ref \<in> set (td_order d)" "get_record d ref = Some q"
        "change_evictable q" by blast
      from assms i r Some have "b" "d' = release ref
          (\<lambda>r. case r_file_change r of None \<Rightarrow> 0 | Some c \<Rightarrow> change_snapshot_bytes c) drop_change_bytes d"
        by (simp_all add: evict_some_bytes_def)
      then show ?thesis by (rule freed[OF _ q(1,2) evicts_part.change[OF q(3)]])
    next
      case c: None
      show ?thesis
      proof (cases "find_record (\<lambda>r. stream_victim r \<noteq> None) d")
        case None
        with assms i r c idle show ?thesis by (simp add: evict_some_bytes_def)
      next
        case (Some ref)
        with find_record_Some[OF Some] obtain r s where *: "ref \<in> set (td_order d)" "get_record d ref = Some r"
          "stream_victim r = Some s" by auto
        with assms i r c Some have "b" "d' = release ref
            (\<lambda>r. case record_stream r s of None \<Rightarrow> 0 | Some w \<Rightarrow> window_retained w) (evict_stream s) d"
          by (simp_all add: evict_some_bytes_def)
        then show ?thesis by (rule freed[OF _ *(1,2) evicts_part.stream[OF *(3)]])
      qed
    qed
  qed
qed

lemma evict_measure_less: "evict_some_bytes d = (True, d') \<Longrightarrow> evict_measure d' < evict_measure d"
  by (erule evict_some_bytes_cases) (simp, simp only: release_measure evicts_part_measure)

lemma remove_oldest_cases:
  assumes "remove_oldest d = (b, d')"
  obtains (empty) "\<not> b" "d' = d" "td_order d = []"
  | (victim) ref where "b" "ref \<in> set (td_order d)"
      "d' = \<lparr>td_records = AList.delete ref (td_records d), td_order = filter (\<lambda>x. x \<noteq> ref) (td_order d),
         td_total = td_total d - freed_from d ref retained_bytes\<rparr>"
proof (cases "find_record (\<lambda>r. state_is_terminal (r_state r)) d")
  case n: None
  show ?thesis
  proof (cases "td_order d")
    case Nil
    with assms n have "\<not> b" "d' = d" by (simp_all add: remove_oldest_def)
    with Nil show ?thesis by (rule empty[rotated 2])
  next
    case (Cons ref refs)
    with assms n have "b" "d' = \<lparr>td_records = AList.delete ref (td_records d),
        td_order = filter (\<lambda>x. x \<noteq> ref) (td_order d), td_total = td_total d - freed_from d ref retained_bytes\<rparr>"
      by (simp_all add: remove_oldest_def)
    with Cons show ?thesis by (intro victim[of ref]) simp_all
  qed
next
  case (Some ref)
  then have "ref \<in> set (td_order d)" by (auto dest: find_record_Some)
  moreover from assms Some have "b" "d' = \<lparr>td_records = AList.delete ref (td_records d),
      td_order = filter (\<lambda>x. x \<noteq> ref) (td_order d), td_total = td_total d - freed_from d ref retained_bytes\<rparr>"
    by (simp_all add: remove_oldest_def)
  ultimately show ?thesis by (intro victim[of ref])
qed

lemma get_delete_record:
  "get_record \<lparr>td_records = AList.delete ref (td_records d), td_order = ns, td_total = n\<rparr> x
   = (if x = ref then None else get_record d x)"
  by (simp add: get_record_def delete_conv')

lemma filter_shorter: "x \<in> set xs \<Longrightarrow> length (filter (\<lambda>y. y \<noteq> x) xs) < length xs"
  using length_filter_less[of x xs "\<lambda>y. y \<noteq> x"] by simp

lemma sum_list_without:
  fixes f :: "'a \<Rightarrow> nat"
  shows "x \<in> set xs \<Longrightarrow> 0 < f x \<Longrightarrow> sum_list (map f (filter (\<lambda>y. y \<noteq> x) xs)) < sum_list (map f xs)"
proof (induction xs)
  case (Cons a xs)
  have "sum_list (map f (filter (\<lambda>y. y \<noteq> x) xs)) \<le> sum_list (map f xs)" by (rule sum_list_filter_le_nat)
  with Cons show ?case by auto
qed simp

lemma remove_measure_less: "remove_oldest d = (True, d') \<Longrightarrow> evict_measure d' < evict_measure d"
proof (erule remove_oldest_cases)
  fix ref
  assume ref: "ref \<in> set (td_order d)" and d': "d' = \<lparr>td_records = AList.delete ref (td_records d),
      td_order = filter (\<lambda>x. x \<noteq> ref) (td_order d), td_total = td_total d - freed_from d ref retained_bytes\<rparr>"
  have w: "evict_weight d' x = evict_weight d x" if "x \<noteq> ref" for x
    using that by (simp add: d' evict_weight_def get_delete_record)
  have "evict_measure d' = sum_list (map (evict_weight d) (filter (\<lambda>x. x \<noteq> ref) (td_order d)))"
    unfolding evict_measure_def
    by (intro arg_cong[of _ _ sum_list] map_cong) (simp_all add: w, simp add: d')
  also have "\<dots> < evict_measure d"
    unfolding evict_measure_def using ref by (rule sum_list_without) (simp add: evict_weight_def)
  finally show "evict_measure d' < evict_measure d" .
qed simp

function enforce_bytes :: "ToolDataInner \<Rightarrow> ToolDataInner" where
  "enforce_bytes d =
     (if MAX_TOOL_TOTAL_BYTES < td_total d
      then case evict_some_bytes d of
          (True, d') \<Rightarrow> enforce_bytes d'
        | (False, d') \<Rightarrow> (case remove_oldest d' of (True, d'') \<Rightarrow> enforce_bytes d'' | (False, d'') \<Rightarrow> d'')
      else d)"
  by pat_completeness auto
termination
proof (relation "measure evict_measure", goal_cases)
  case (2 d b d')
  then show ?case by (metis (full_types) evict_measure_less in_measure)
next
  case (3 d b d' b' d'')
  then have "d' = d" by (metis evict_some_bytes_cases)
  with 3 show ?case by (metis (full_types) remove_measure_less in_measure)
qed simp

lemma remove_oldest_shorter: "remove_oldest d = (True, d') \<Longrightarrow> length (td_order d') < length (td_order d)"
  by (erule remove_oldest_cases) (simp_all add: filter_shorter)

function enforce_count :: "ToolDataInner \<Rightarrow> ToolDataInner" where
  "enforce_count d =
     (if MAX_TOOL_RECORDS < length (td_records d)
      then case remove_oldest d of (True, d') \<Rightarrow> enforce_count d' | (False, d') \<Rightarrow> d'
      else d)"
  by pat_completeness auto
termination
  by (relation "measure (\<lambda>d. length (td_order d))") (simp_all, metis remove_oldest_shorter)

declare enforce_bytes.simps [simp del] enforce_count.simps [simp del]

definition enforce_limits :: "ToolDataInner \<Rightarrow> ToolDataInner option" where
  "enforce_limits d =
     (let d = enforce_count (enforce_bytes d); held = sum_list (map (\<lambda>(_, r). retained_bytes r) (td_records d))
      in if held < u64_bound \<and> td_total d = held then Some d else None)"

section \<open>Operations\<close>

text \<open>
  The arguments of an invocation are what looking up a member and reading it as a string gives;
  their JSON text is \<open>raw\<close>. The time of day is an argument, none when the clock fails.
\<close>

type_synonym invocation_args = "string \<Rightarrow> string option"

fun string_arg :: "invocation_args \<Rightarrow> string list \<Rightarrow> string" where
  "string_arg args [] = ''''"
| "string_arg args (key # keys) = (case args key of Some v \<Rightarrow> v | None \<Rightarrow> string_arg args keys)"

definition subject_for :: "string \<Rightarrow> invocation_args \<Rightarrow> ToolSubject \<times> bool" where
  "subject_for name args =
     (if name \<in> {''read'', ''write'', ''edit'', ''apply_patch''}
      then let (path, truncated) = Text_Budget.truncate (string_arg args [''path'', ''file_path'']) MAX_SUBJECT_BYTES
           in (FileSubject path, truncated)
      else if name = ''bash''
      then let cwd = (case args ''cwd'' of None \<Rightarrow> ''.'' | Some c \<Rightarrow> c);
               (script, script_truncated) = Text_Budget.truncate (string_arg args [''command'']) MAX_SUBJECT_BYTES;
               (cwd, cwd_truncated) = Text_Budget.truncate cwd MAX_SUBJECT_BYTES
           in (CommandSubject script cwd, script_truncated \<or> cwd_truncated)
      else (OtherSubject, False))"

record ToolInputSummary =
  is_total :: nat
  is_preview :: string
  is_truncated :: bool
  is_encoding :: string

record ToolInvocationData =
  iv_ref :: ToolRef
  iv_name :: string
  iv_subject :: ToolSubject
  iv_subject_truncated :: bool
  iv_input :: ToolInputSummary

definition note_requested :: "ToolRef \<Rightarrow> string \<Rightarrow> ToolDataInner \<Rightarrow> ToolDataInner option" where
  "note_requested ref name d = enforce_limits (track ref name d)"

definition set_input :: "string \<Rightarrow> invocation_args \<Rightarrow> string \<Rightarrow> ToolRecord \<Rightarrow> ToolRecord" where
  "set_input name args raw r =
     (if r_input_seen r then r
      else r\<lparr>r_subject := fst (subject_for name args), r_subject_truncated := snd (subject_for name args),
        r_input := fst (Text_Budget.truncate raw MAX_TOOL_INPUT_BYTES), r_input_total := length raw,
        r_input_seen := True, r_input_truncated := snd (Text_Budget.truncate raw MAX_TOOL_INPUT_BYTES),
        r_input_expired := False\<rparr>)"

definition note_invocation ::
  "ToolRef \<Rightarrow> string \<Rightarrow> invocation_args \<Rightarrow> string \<Rightarrow> ToolDataInner \<Rightarrow> (ToolInvocationData option \<times> ToolDataInner) option" where
  "note_invocation ref name args raw d =
     (let d = track ref name d;
          already_published = (case get_record d ref of None \<Rightarrow> False | Some r \<Rightarrow> r_input_seen r)
      in Option.bind (resize ref (\<lambda>r. Some (set_input name args raw r)) d) (\<lambda>d.
         Option.bind (enforce_limits d) (\<lambda>d.
         Some (if already_published then None
               else map_option (\<lambda>r. \<lparr>iv_ref = ref, iv_name = r_name r, iv_subject = r_subject r,
                   iv_subject_truncated = r_subject_truncated r,
                   iv_input = \<lparr>is_total = r_input_total r,
                     is_preview = fst (Text_Budget.truncate (r_input r) EVENT_INPUT_PREVIEW_BYTES),
                     is_truncated = (EVENT_INPUT_PREVIEW_BYTES < length (r_input r) \<or> r_input_truncated r),
                     is_encoding = ''utf8_json''\<rparr>\<rparr>) (get_record d ref), d))))"

definition mark_awaiting_policy :: "ToolRef \<Rightarrow> ToolDataInner \<Rightarrow> ToolDataInner" where
  "mark_awaiting_policy ref d =
     modify_record ref (\<lambda>r. if r_state r = Requested then r\<lparr>r_state := AwaitingPolicy\<rparr> else r) d"

definition mark_running :: "string option \<Rightarrow> ToolRef \<Rightarrow> ToolDataInner \<Rightarrow> ToolDataInner" where
  "mark_running now ref d =
     modify_record ref (\<lambda>r.
       let r = (if \<not> state_is_terminal (r_state r) then r\<lparr>r_state := ToolRunning\<rparr> else r)
       in if r_started_at r = None then r\<lparr>r_started_at := now\<rparr> else r) d"

definition phase_from_wire :: "string \<Rightarrow> ToolPhase option" where
  "phase_from_wire message =
     (if message = ''reading'' then Some Reading
      else if message = ''writing'' then Some Writing
      else if message = ''matching'' then Some Matching
      else if message = ''committing'' then Some Committing
      else if message = ''running'' then Some PhaseRunning
      else None)"

definition note_phase :: "ToolRef \<Rightarrow> string \<Rightarrow> ToolDataInner \<Rightarrow> ToolDataInner" where
  "note_phase ref message d =
     (case phase_from_wire message of
        None \<Rightarrow> d
      | Some phase \<Rightarrow> modify_record ref (\<lambda>r. r\<lparr>r_phase := Some phase\<rparr>) d)"

definition capture_result :: "string \<Rightarrow> ToolRecord \<Rightarrow> ToolRecord" where
  "capture_result content r =
     (let (result, truncated) = Text_Budget.truncate content MAX_TOOL_RESULT_BYTES
      in r\<lparr>r_output_line_count := Some (count_lines result), r_result := result, r_result_total := length content,
           r_result_seen := True, r_result_truncated := truncated\<rparr>)"

definition note_result :: "ToolRef \<Rightarrow> string \<Rightarrow> ToolDataInner \<Rightarrow> ToolDataInner option" where
  "note_result ref content d =
     Option.bind (resize ref (\<lambda>r. Some ((capture_result content r)\<lparr>r_result_expired := False\<rparr>)) d) enforce_limits"

definition mark_cancelling :: "ToolRef \<Rightarrow> ToolDataInner \<Rightarrow> ToolDataInner" where
  "mark_cancelling ref d =
     modify_record ref (\<lambda>r. if \<not> state_is_terminal (r_state r) then r\<lparr>r_state := ToolCancelling\<rparr> else r) d"

record ToolStreamNotice =
  ns_stream :: ToolDataStream
  ns_base :: nat
  ns_next :: nat
  ns_observed_end :: nat
  ns_dropped :: bool
  ns_expired :: bool

definition push_stream :: "nat \<Rightarrow> ToolDataStream \<Rightarrow> string \<Rightarrow> ToolRecord \<Rightarrow> ToolRecord option" where
  "push_stream slack stream chunk r =
     (case record_stream r stream of
        None \<Rightarrow> Some r
      | Some w \<Rightarrow> map_option (\<lambda>(_, w'). set_stream stream w' r) (window_push slack chunk w))"

definition note_stream_chunk ::
  "nat \<Rightarrow> ToolRef \<Rightarrow> ToolDataStream \<Rightarrow> string \<Rightarrow> ToolDataInner \<Rightarrow> (ToolStreamNotice option \<times> ToolDataInner) option" where
  "note_stream_chunk slack ref stream chunk d =
     (case get_record d ref of
        None \<Rightarrow> Some (None, d)
      | Some r \<Rightarrow>
          Option.bind (resize ref (push_stream slack stream chunk) d) (\<lambda>d.
          case record_stream r stream of
            None \<Rightarrow> Some (None, d)
          | Some w \<Rightarrow>
              Option.bind (window_push slack chunk w) (\<lambda>(pushed, _).
              Option.bind (enforce_limits d) (\<lambda>d.
              Some (case get_record d ref of
                  None \<Rightarrow> None
                | Some r' \<Rightarrow> map_option (\<lambda>w'. \<lparr>ns_stream = stream, ns_base = sp_base pushed, ns_next = sp_next pushed,
                    ns_observed_end = w_end w', ns_dropped = (sp_dropped pushed \<or> w_truncated w'),
                    ns_expired = w_expired w'\<rparr>) (record_stream r' stream), d)))))"

definition finish_stream :: "bool \<Rightarrow> ToolDataStream \<Rightarrow> ToolRecord \<Rightarrow> ToolRecord" where
  "finish_stream was_cut stream r =
     (case record_stream r stream of
        None \<Rightarrow> r
      | Some w \<Rightarrow> set_stream stream (w\<lparr>w_complete := True, w_truncated := (was_cut \<or> w_truncated w)\<rparr>) r)"

definition note_stream_end :: "ToolRef \<Rightarrow> ToolDataStream \<Rightarrow> ToolDataInner \<Rightarrow> ToolDataInner option" where
  "note_stream_end ref stream d = resize ref (\<lambda>r. Some (finish_stream False stream r)) d"

definition note_stream_cut :: "ToolRef \<Rightarrow> ToolDataStream \<Rightarrow> ToolDataInner \<Rightarrow> ToolDataInner option" where
  "note_stream_cut ref stream d = resize ref (\<lambda>r. Some (finish_stream True stream r)) d"

definition snapshot_data :: "ToolDataInner \<Rightarrow> ToolRef \<Rightarrow> ToolExecutionData option" where
  "snapshot_data d ref = map_option (\<lambda>r. execution_data r ref) (get_record d ref)"

definition note_command ::
  "ToolRef \<Rightarrow> CommandResult \<Rightarrow> ToolDataInner \<Rightarrow> (ToolExecutionData option \<times> ToolDataInner) option" where
  "note_command ref cmd d =
     (if get_record d ref = None then Some (None, d)
      else Option.bind (resize ref (\<lambda>r. Some (r\<lparr>r_command := Some cmd\<rparr>)) d) (\<lambda>d.
        Option.bind (enforce_limits d) (\<lambda>d. Some (snapshot_data d ref, d))))"

definition note_recording ::
  "ToolRef \<Rightarrow> ToolRecordingState \<Rightarrow> ToolDataInner \<Rightarrow> ToolExecutionData option \<times> ToolDataInner" where
  "note_recording ref recording d =
     (let d = modify_record ref (\<lambda>r. r\<lparr>r_recording := recording\<rparr>) d in (snapshot_data d ref, d))"

definition note_file_change :: "ToolRef \<Rightarrow> FileChange \<Rightarrow> ToolDataInner \<Rightarrow> ToolDataInner option" where
  "note_file_change ref change d =
     Option.bind (resize ref (\<lambda>r. Some (if r_file_change r = None then r\<lparr>r_file_change := Some change\<rparr> else r)) d)
       enforce_limits"

definition record_file_change ::
  "(string \<Rightarrow> string) \<Rightarrow> ToolRef option \<Rightarrow> string \<Rightarrow> FileBefore \<Rightarrow> string \<Rightarrow> AtomicWriteObservation
   \<Rightarrow> ToolDataInner \<Rightarrow> ToolDataInner option" where
  "record_file_change hash_bytes tool_ref path before after_bytes ob d =
     (case tool_ref of
        None \<Rightarrow> Some d
      | Some ref \<Rightarrow> note_file_change ref (observed_change hash_bytes path before after_bytes ob) d)"

definition stream_range :: "ToolDataInner \<Rightarrow> ToolRef \<Rightarrow> ToolDataStream \<Rightarrow> (nat \<times> nat) option" where
  "stream_range d ref stream =
     Option.bind (get_record d ref) (\<lambda>r. map_option live_range (record_stream r stream))"

definition finish_record :: "string option \<Rightarrow> ToolResultOutcome \<Rightarrow> ToolRecord \<Rightarrow> ToolRecord" where
  "finish_record now out r =
     (let r = r\<lparr>r_state := from_outcome out, r_outcome := Some out\<rparr>
      in if r_finished_at r = None then r\<lparr>r_finished_at := now\<rparr> else r)"

definition finish_and_snapshot ::
  "string option \<Rightarrow> ToolRef \<Rightarrow> ToolResultOutcome \<Rightarrow> ToolDataInner \<Rightarrow> ToolExecutionData option \<times> ToolDataInner" where
  "finish_and_snapshot now ref out d =
     (let d = modify_record ref (finish_record now out) d in (snapshot_data d ref, d))"

text \<open>The items of a loop report; only tool results matter here.\<close>

record ToolResultItem =
  ti_loop :: string
  ti_request :: nat
  ti_call :: string
  ti_name :: string
  ti_content :: string
  ti_outcome :: ToolResultOutcome

datatype HistoryItem = ResultItem ToolResultItem | OtherItem

definition item_ref :: "u8 list \<Rightarrow> ToolResultItem \<Rightarrow> ToolRef" where
  "item_ref session item =
     \<lparr>tr_session = session, tr_loop = ti_loop item, tr_request = ti_request item, tr_call = ti_call item\<rparr>"

definition reconcile_item :: "string option \<Rightarrow> u8 list \<Rightarrow> ToolResultItem \<Rightarrow> ToolDataInner \<Rightarrow> ToolDataInner option" where
  "reconcile_item now session item d =
     (let ref = item_ref session item;
          d = track ref (ti_name item) d;
          captured = (case get_record d ref of None \<Rightarrow> False | Some r \<Rightarrow> \<not> r_result_expired r);
          d = modify_record ref (finish_record now (ti_outcome item)) d
      in if captured then resize ref (\<lambda>r. Some (capture_result (ti_content item) r)) d else Some d)"

fun reconcile_loop :: "string option \<Rightarrow> u8 list \<Rightarrow> HistoryItem list \<Rightarrow> ToolDataInner \<Rightarrow> ToolDataInner option" where
  "reconcile_loop now session [] d = Some d"
| "reconcile_loop now session (OtherItem # items) d = reconcile_loop now session items d"
| "reconcile_loop now session (ResultItem item # items) d =
     Option.bind (reconcile_item now session item d) (reconcile_loop now session items)"

definition reconcile :: "string option \<Rightarrow> u8 list \<Rightarrow> HistoryItem list \<Rightarrow> ToolDataInner \<Rightarrow> ToolDataInner option" where
  "reconcile now session items d = Option.bind (reconcile_loop now session items d) enforce_limits"

definition loop_tool_refs :: "ToolDataInner \<Rightarrow> u8 list \<Rightarrow> string \<Rightarrow> ToolRef list" where
  "loop_tool_refs d session loop = filter (\<lambda>r. tr_session r = session \<and> tr_loop r = loop) (td_order d)"

definition file_change :: "ToolDataInner \<Rightarrow> ToolRef \<Rightarrow> FileChange option" where
  "file_change d ref = Option.bind (get_record d ref) r_file_change"

definition snapshot_for_persistence ::
  "(string \<Rightarrow> string) \<Rightarrow> ToolDataInner \<Rightarrow> ToolRef \<Rightarrow> ToolPersistenceSnapshot option" where
  "snapshot_for_persistence hash_bytes d ref =
     Option.bind (get_record d ref) (\<lambda>r.
     if \<not> record_is_terminal r then None
     else
       let (input_bytes, input_file_bytes, input_sha) = snapshot_blob hash_bytes (r_input r) (r_input_expired r);
           (result_bytes, result_file_bytes, result_sha) = snapshot_blob hash_bytes (r_result r) (r_result_expired r);
           (stdout_summary, stdout_bytes) = window_snapshot hash_bytes (r_stdout r);
           (stderr_summary, stderr_bytes) = window_snapshot hash_bytes (r_stderr r)
       in Some \<lparr>sn_ref = ref,
            sn_record = \<lparr>st_version = TOOL_RECORD_FORMAT_VERSION, st_ref = ref, st_name = r_name r,
              st_subject = r_subject r, st_subject_truncated = r_subject_truncated r, st_state = r_state r,
              st_phase = r_phase r, st_started_at = r_started_at r, st_finished_at = r_finished_at r,
              st_outcome = r_outcome r,
              st_input = \<lparr>su_total = r_input_total r, su_seen = r_input_seen r, su_truncated = r_input_truncated r,
                su_expired = r_input_expired r, su_file_bytes = input_file_bytes, su_sha256 = input_sha\<rparr>,
              st_result = \<lparr>su_total = r_result_total r, su_seen = r_result_seen r, su_truncated = r_result_truncated r,
                su_expired = r_result_expired r, su_file_bytes = result_file_bytes, su_sha256 = result_sha\<rparr>,
              st_stdout = stdout_summary, st_stderr = stderr_summary,
              st_command = map_option (live_command r) (r_command r),
              st_file_change = map_option change_stored (r_file_change r)\<rparr>,
            sn_input = input_bytes, sn_result = result_bytes, sn_stdout = stdout_bytes, sn_stderr = stderr_bytes,
            sn_before = map_option fst (Option.bind (r_file_change r) ch_before_bytes),
            sn_after = map_option fst (Option.bind (r_file_change r) ch_after_bytes)\<rparr>)"

end
