(* ===== verification/Tool_Data_Safe.thy ===== *)
theory Tool_Data_Safe
  imports Tool_Data
begin

text \<open>
  The invariant of the tool-call store: the exact sizes behind the saturating arithmetic, the well-formed
  records and windows, and what every operation of \<open>Tool_Data\<close> keeps of them.
\<close>

section \<open>Exact sizes\<close>

text \<open>The bytes a record really holds, without saturation.\<close>

definition subject_size :: "ToolSubject \<Rightarrow> nat" where
  "subject_size s = (case s of FileSubject path \<Rightarrow> length path
     | CommandSubject script cwd \<Rightarrow> length script + length cwd | OtherSubject \<Rightarrow> 0)"

definition change_size :: "FileChange \<Rightarrow> nat" where
  "change_size c = CHANGE_METADATA_BYTES + length (ch_path c) + capacity_of (ch_before_bytes c) + capacity_of (ch_after_bytes c)"

definition record_size :: "ToolRecord \<Rightarrow> nat" where
  "record_size r = length (r_name r) + subject_size (r_subject r) + length (r_input r) + length (r_result r)
     + window_retained (r_stdout r) + window_retained (r_stderr r)
     + (case r_file_change r of None \<Rightarrow> 0 | Some c \<Rightarrow> change_size c)
     + (if r_command r \<noteq> None then COMMAND_METADATA_BYTES else 0)"

definition store_size :: "ToolDataInner \<Rightarrow> nat" where
  "store_size d = sum_list (map (\<lambda>(_, r). record_size r) (td_records d))"

lemma sat_add_min: "sat_add (min a (u64_bound - 1)) (min b (u64_bound - 1)) = min (a + b) (u64_bound - 1)"
  by (simp add: sat_add_def)

lemma sat_add_exact: "a + b < u64_bound \<Longrightarrow> sat_add a b = a + b"
  by (simp add: sat_add_def)

lemma retained_bytes_size:
  assumes "record_size r < u64_bound"
  shows "retained_bytes r = record_size r"
proof -
  have "subject_len (r_subject r) = subject_size (r_subject r)"
    using assms by (cases "r_subject r") (simp_all add: subject_size_def record_size_def sat_add_exact)
  moreover have "sat_add (sat_add CHANGE_METADATA_BYTES (length (ch_path c))) (change_snapshot_bytes c) = change_size c"
    if "r_file_change r = Some c" for c
    using assms that by (simp add: change_size_def record_size_def change_snapshot_bytes_def sat_add_exact)
  ultimately show ?thesis
    using assms by (cases "r_file_change r")
      (simp_all add: retained_bytes_def record_size_def Let_def sat_add_exact)
qed

section \<open>Well-formed records\<close>

definition stream_window_ok :: "StreamWindow \<Rightarrow> bool" where
  "stream_window_ok w = (w_start w + length (w_bytes w) = w_end w \<and> length (w_bytes w) \<le> MAX_TOOL_STREAM_BYTES
     \<and> w_end w < u64_bound \<and> (\<not> w_seen w \<longrightarrow> w_end w = 0 \<and> \<not> w_expired w) \<and> (w_expired w \<longrightarrow> w_bytes w = [] \<and> w_cap w = 0)
     \<and> (\<not> w_truncated w \<longrightarrow> w_start w = 0) \<and> \<not> w_corrupt w)"

definition text_ok :: "nat \<Rightarrow> string \<Rightarrow> nat \<Rightarrow> bool \<Rightarrow> bool \<Rightarrow> bool" where
  "text_ok cap t len seen expired = (length t \<le> len \<and> length t \<le> cap \<and> (\<not> seen \<longrightarrow> len = 0 \<and> \<not> expired)
     \<and> (expired \<longrightarrow> t = []))"

definition outcome_ok :: "ToolResultOutcome option \<Rightarrow> ToolExecutionState \<Rightarrow> bool" where
  "outcome_ok out st = (case out of None \<Rightarrow> \<not> state_is_terminal st | Some out' \<Rightarrow> st = from_outcome out')"

definition record_ok :: "ToolRecord \<Rightarrow> bool" where
  "record_ok r = (text_ok MAX_TOOL_INPUT_BYTES (r_input r) (r_input_total r) (r_input_seen r) (r_input_expired r)
     \<and> text_ok MAX_TOOL_RESULT_BYTES (r_result r) (r_result_total r) (r_result_seen r) (r_result_expired r)
     \<and> stream_window_ok (r_stdout r) \<and> stream_window_ok (r_stderr r)
     \<and> outcome_ok (r_outcome r) (r_state r)
     \<and> \<not> r_input_corrupt r \<and> \<not> r_result_corrupt r)"

lemma window_default_ok: "stream_window_ok window_default"
  by (simp add: stream_window_ok_def window_default_def u64_bound_def)

lemma record_new_ok: "record_ok (record_new name)"
  by (simp add: record_ok_def record_new_def text_ok_def window_default_ok outcome_ok_def state_is_terminal_def)

lemma window_evict_ok: "stream_window_ok w \<Longrightarrow> window_evictable w \<Longrightarrow> stream_window_ok (window_evict w)"
  by (auto simp: stream_window_ok_def window_evict_def window_evictable_def)

lemma push_drops_eq:
  assumes "checked_sub (sat_add (length (w_bytes v)) (length chunk)) MAX_TOOL_STREAM_BYTES = Some x"
    and "\<not> length chunk < x - min x (length (w_bytes v))"
    and "(if w_cap v < MAX_TOOL_STREAM_BYTES
      then map_option (reserve_exact slack (length (drop (min x (length (w_bytes v))) (w_bytes v))) (w_cap v))
        (checked_sub MAX_TOOL_STREAM_BYTES (length (drop (min x (length (w_bytes v))) (w_bytes v))))
      else Some (w_cap v)) = Some cap"
  shows "push_drops slack chunk v = Some (v\<lparr>w_start := sat_add (w_start v) x, w_truncated := True, w_cap := cap,
    w_bytes := drop (min x (length (w_bytes v))) (w_bytes v) @ drop (x - min x (length (w_bytes v))) chunk\<rparr>)"
  unfolding push_drops_def Let_def assms(1) Option.bind.simps assms(3) using assms(2) by simp

lemma push_drops_ok:
  assumes "stream_window_ok w" "w_seen w" "w_start w + length (w_bytes w) + length chunk = e" "e < u64_bound"
    and "MAX_TOOL_STREAM_BYTES < length (w_bytes w) + length chunk"
  shows "\<exists>w'. push_drops slack chunk (w\<lparr>w_end := e, w_expired := False\<rparr>) = Some w' \<and> stream_window_ok w'
    \<and> w_end w' = e \<and> w_bytes w' = drop (w_start w' - w_start w) (w_bytes w @ chunk) \<and> w_start w \<le> w_start w'
    \<and> w_cap w' \<le> max (w_cap w) (MAX_TOOL_STREAM_BYTES + slack) \<and> \<not> w_expired w'"
proof -
  let ?l = "length (w_bytes w)"
  define x where "x = ?l + length chunk - MAX_TOOL_STREAM_BYTES"
  have sum: "sat_add ?l (length chunk) = ?l + length chunk" "sat_add (w_start w) x = w_start w + x"
    using assms(3,4) by (simp_all add: sat_add_exact x_def)
  have excess: "checked_sub (?l + length chunk) MAX_TOOL_STREAM_BYTES = Some x"
    using assms(5) by (simp add: checked_sub_def x_def)
  define kept where "kept = drop (min x ?l) (w_bytes w)"
  define rest where "rest = drop (x - min x ?l) chunk"
  have bytes: "kept @ rest = drop x (w_bytes w @ chunk)"
    by (cases "x \<le> ?l") (simp_all add: kept_def rest_def)
  have kept_le: "length kept \<le> MAX_TOOL_STREAM_BYTES"
    using assms(1) by (auto simp: kept_def stream_window_ok_def intro: le_trans[OF diff_le_self])
  have fits: "\<not> length chunk < x - min x ?l" by (auto simp: min_def not_less x_def)
  obtain cap where cap: "(if w_cap w < MAX_TOOL_STREAM_BYTES
      then map_option (reserve_exact slack (length kept) (w_cap w)) (checked_sub MAX_TOOL_STREAM_BYTES (length kept))
      else Some (w_cap w)) = Some cap" "cap \<le> max (w_cap w) (MAX_TOOL_STREAM_BYTES + slack)"
    using kept_le by (cases "w_cap w < MAX_TOOL_STREAM_BYTES") (simp_all add: checked_sub_def reserve_exact_def)
  define w' where "w' = w\<lparr>w_end := e, w_expired := False, w_start := w_start w + x, w_truncated := True, w_cap := cap,
      w_bytes := kept @ rest\<rparr>"
  have push: "push_drops slack chunk (w\<lparr>w_end := e, w_expired := False\<rparr>) = Some w'"
  proof -
    let ?v = "w\<lparr>w_end := e, w_expired := False\<rparr>"
    have v: "w_bytes ?v = w_bytes w" "w_cap ?v = w_cap w" "w_start ?v = w_start w" by simp_all
    note push_drops_eq[of ?v chunk x slack cap, unfolded v sum, OF excess fits cap(1)[unfolded kept_def]]
    then show ?thesis by (simp only: w'_def kept_def rest_def)
  qed
  have len: "length (kept @ rest) = MAX_TOOL_STREAM_BYTES" unfolding bytes using assms(5) by (simp add: x_def)
  have "stream_window_ok w'"
    using assms len by (simp add: stream_window_ok_def w'_def x_def del: length_append)
  moreover have "w_bytes w' = drop (w_start w' - w_start w) (w_bytes w @ chunk)"
    by (simp add: w'_def bytes del: drop_append)
  ultimately show ?thesis using push cap(2) by (simp add: w'_def)
qed

lemma push_fits_ok:
  assumes "stream_window_ok w" "w_seen w" "w_start w + length (w_bytes w) + length chunk = e" "e < u64_bound"
    and "length (w_bytes w) + length chunk \<le> MAX_TOOL_STREAM_BYTES"
  shows "\<exists>w'. push_fits slack chunk (w\<lparr>w_end := e, w_expired := False\<rparr>) = Some w' \<and> stream_window_ok w'
    \<and> w_end w' = e \<and> w_bytes w' = w_bytes w @ chunk \<and> w_start w' = w_start w
    \<and> w_cap w' \<le> max (w_cap w) (MAX_TOOL_STREAM_BYTES + slack) \<and> \<not> w_expired w'"
proof -
  let ?l = "length (w_bytes w)"
  have sum: "sat_add ?l (length chunk) = ?l + length chunk" using assms(3,4) by (simp add: sat_add_exact)
  have "?l \<le> min (max (sat_mul (w_cap w) 2) (?l + length chunk)) MAX_TOOL_STREAM_BYTES"
    using assms(5) by simp
  then show ?thesis
    using assms by (simp add: push_fits_def sum Let_def checked_sub_def reserve_exact_def stream_window_ok_def)
qed

text \<open>A push appends the chunk to the stream and keeps a tail of it.\<close>

lemma window_push_ok:
  assumes ok: "stream_window_ok w" and fits: "w_end w + length chunk < u64_bound"
  obtains p w' where "window_push slack chunk w = Some (p, w')" "stream_window_ok w'" "w_end w' = w_end w + length chunk"
    "w_start w \<le> w_start w'" "w_bytes w' = drop (w_start w' - w_start w) (w_bytes w @ chunk)"
    "window_retained w' \<le> max (window_retained w) (MAX_TOOL_STREAM_BYTES + slack)"
    "sp_base p = w_end w" "sp_next p = w_end w'"
proof -
  let ?e = "w_end w + length chunk"
  have w0: "(if w_bytes (w\<lparr>w_seen := True\<rparr>) = [] then w\<lparr>w_seen := True, w_start := w_end (w\<lparr>w_seen := True\<rparr>)\<rparr>
      else w\<lparr>w_seen := True\<rparr>) = w\<lparr>w_seen := True\<rparr>"
    using ok by (cases "w_bytes w = []") (simp_all add: stream_window_ok_def)
  have seen_ok: "stream_window_ok (w\<lparr>w_seen := True\<rparr>)" using ok by (simp add: stream_window_ok_def)
  have e: "w_start w + length (w_bytes w) + length chunk = ?e" using ok by (simp add: stream_window_ok_def)
  have sum: "sat_add (w_end w) (length chunk) = ?e" "sat_add (length (w_bytes w)) (length chunk) = length (w_bytes w) + length chunk"
    using e fits by (simp_all add: sat_add_exact)
  have cap: "n \<le> max (w_cap w) m \<Longrightarrow> \<not> w_expired v \<Longrightarrow> w_cap v = n \<Longrightarrow> window_retained v \<le> max (window_retained w) m" for n m v
    using ok by (auto simp: window_retained_def stream_window_ok_def)
  show ?thesis
  proof (cases "chunk = []")
    case True
    show ?thesis
    proof (rule that)
      show "window_push slack chunk w = Some (\<lparr>sp_base = w_end w, sp_next = w_end w, sp_dropped = False\<rparr>, w\<lparr>w_seen := True\<rparr>)"
        using w0 sum(1) True by (simp add: window_push_def Let_def)
    qed (use ok seen_ok True in \<open>simp_all add: window_retained_def stream_window_ok_def\<close>)
  next
    case chunk: False
    let ?d = "MAX_TOOL_STREAM_BYTES < length (w_bytes w) + length chunk"
    have run: "window_push slack chunk w =
        map_option (\<lambda>w'. (\<lparr>sp_base = w_end w, sp_next = ?e, sp_dropped = ?d\<rparr>, w'))
          (if ?d then push_drops slack chunk (w\<lparr>w_seen := True, w_end := ?e, w_expired := False\<rparr>)
           else push_fits slack chunk (w\<lparr>w_seen := True, w_end := ?e, w_expired := False\<rparr>))"
      using w0 sum chunk by (simp add: window_push_def Let_def)
    show ?thesis
    proof (cases ?d)
      case True
      from push_drops_ok[OF seen_ok, of chunk ?e slack] e fits True obtain w' where
        "push_drops slack chunk (w\<lparr>w_seen := True, w_end := ?e, w_expired := False\<rparr>) = Some w'" and
        w': "stream_window_ok w'" "w_end w' = ?e" "w_bytes w' = drop (w_start w' - w_start w) (w_bytes w @ chunk)"
        "w_start w \<le> w_start w'" "w_cap w' \<le> max (w_cap w) (MAX_TOOL_STREAM_BYTES + slack)" "\<not> w_expired w'"
        by auto
      with run True have "window_push slack chunk w = Some (\<lparr>sp_base = w_end w, sp_next = ?e, sp_dropped = True\<rparr>, w')"
        by simp
      from that[OF this w'(1,2,4,3) cap[OF w'(5,6)]] w'(2) show ?thesis by simp
    next
      case False
      from push_fits_ok[OF seen_ok, of chunk ?e slack] e fits False obtain w' where
        "push_fits slack chunk (w\<lparr>w_seen := True, w_end := ?e, w_expired := False\<rparr>) = Some w'" and
        w': "stream_window_ok w'" "w_end w' = ?e" "w_bytes w' = w_bytes w @ chunk" "w_start w' = w_start w"
        "w_cap w' \<le> max (w_cap w) (MAX_TOOL_STREAM_BYTES + slack)" "\<not> w_expired w'"
        by auto
      with run False have "window_push slack chunk w = Some (\<lparr>sp_base = w_end w, sp_next = ?e, sp_dropped = False\<rparr>, w')"
        by simp
      from that[OF this w'(1,2) _ _ cap[OF w'(5,6)]] w'(2-4) show ?thesis by simp
    qed
  qed
qed

section \<open>The invariant of the store\<close>

definition store_ok :: "ToolDataInner \<Rightarrow> bool" where
  "store_ok d = (distinct (map fst (td_records d)) \<and> distinct (td_order d)
     \<and> set (td_order d) = fst ` set (td_records d) \<and> td_total d = store_size d \<and> store_size d < u64_bound
     \<and> (\<forall>(ref, r)\<in>set (td_records d). record_ok r))"

definition within_budget :: "ToolDataInner \<Rightarrow> bool" where
  "within_budget d = (td_total d \<le> MAX_TOOL_TOTAL_BYTES \<and> length (td_records d) \<le> MAX_TOOL_RECORDS)"

lemma store_size_total [simp]: "store_size (d\<lparr>td_total := n\<rparr>) = store_size d" "store_size (d\<lparr>td_order := ns\<rparr>) = store_size d"
  by (simp_all add: store_size_def)

lemma size_update_Some:
  "map_of al k = Some v \<Longrightarrow>
   sum_list (map (\<lambda>(_, r). f r) (AList.update k v' al)) + f v = sum_list (map (\<lambda>(_, r). f r) al) + (f v' :: nat)"
  by (induction al) auto

lemma size_update_None:
  "map_of al k = None \<Longrightarrow>
   sum_list (map (\<lambda>(_, r). f r) (AList.update k v' al)) = sum_list (map (\<lambda>(_, r). f r) al) + (f v' :: nat)"
  by (induction al) auto

lemma size_delete:
  "distinct (map fst al) \<Longrightarrow> map_of al k = Some v \<Longrightarrow>
   sum_list (map (\<lambda>(_, r). f r) (AList.delete k al)) + (f v :: nat) = sum_list (map (\<lambda>(_, r). f r) al)"
proof (induction al)
  case (Cons a al)
  then show ?case
  proof (cases "fst a = k")
    case True
    with Cons.prems have "k \<notin> fst ` set al" by auto
    then have "AList.delete k al = al" by (simp add: delete_id)
    with True Cons.prems show ?thesis by (cases a) simp
  qed (cases a; auto simp: delete_simps)
qed simp

lemma put_size:
  "get_record d ref = Some r \<Longrightarrow> store_size (put_record ref r' d) + record_size r = store_size d + record_size r'"
  "get_record d ref = None \<Longrightarrow> store_size (put_record ref r' d) = store_size d + record_size r'"
  by (simp_all add: store_size_def put_record_def get_record_def size_update_Some size_update_None)

lemma size_le_store: "get_record d ref = Some r \<Longrightarrow> record_size r \<le> store_size d"
  unfolding get_record_def store_size_def
  by (drule map_of_SomeD) (force intro: member_le_sum_list)

lemma get_record_mem: "store_ok d \<Longrightarrow> get_record d ref = Some r \<longleftrightarrow> (ref, r) \<in> set (td_records d)"
  by (simp add: get_record_def store_ok_def)

lemma get_record_order_iff: "store_ok d \<Longrightarrow> get_record d ref = None \<longleftrightarrow> ref \<notin> set (td_order d)"
  by (simp add: get_record_def store_ok_def map_of_eq_None_iff)

lemma store_record_ok: "store_ok d \<Longrightarrow> get_record d ref = Some r \<Longrightarrow> record_ok r \<and> record_size r < u64_bound"
  using size_le_store[of d ref r] by (auto simp: get_record_mem) (auto simp: store_ok_def)

lemma set_update: "map_of al k = Some v \<Longrightarrow> set (AList.update k v' al) \<subseteq> insert (k, v') (set al)"
  "map_of al k = None \<Longrightarrow> set (AList.update k v' al) = insert (k, v') (set al)"
  by (induction al) auto

lemma length_update_Some: "map_of al k = Some v \<Longrightarrow> length (AList.update k v' al) = length al"
  by (induction al) auto

lemma put_ok:
  assumes "store_ok d" "get_record d ref = Some r" "record_ok r'"
    and "n = store_size (put_record ref r' d)" "n < u64_bound"
  shows "store_ok ((put_record ref r' d)\<lparr>td_total := n\<rparr>)"
proof -
  have keys: "fst ` set (AList.update ref r' (td_records d)) = fst ` set (td_records d)"
    "distinct (map fst (AList.update ref r' (td_records d)))"
    using assms(1,2) by (auto simp: dom_update get_record_def store_ok_def distinct_update insert_absorb dest: map_of_SomeD)
      (force dest: map_of_SomeD)+
  have "\<forall>(x, q)\<in>set (AList.update ref r' (td_records d)). record_ok q"
    using set_update(1)[of "td_records d" ref r r'] assms(1-3) by (fastforce simp: store_ok_def get_record_def)
  with keys assms show ?thesis by (simp add: store_ok_def put_record_def)
qed

lemma put_new_ok:
  assumes "store_ok d" "get_record d ref = None" "record_ok r'"
    and "n = store_size d + record_size r'" "n < u64_bound"
  shows "store_ok ((put_record ref r' d)\<lparr>td_total := n, td_order := td_order d @ [ref]\<rparr>)"
proof -
  have keys: "fst ` set (AList.update ref r' (td_records d)) = insert ref (fst ` set (td_records d))"
    "distinct (map fst (AList.update ref r' (td_records d)))"
    using assms(1) by (auto simp: dom_update store_ok_def distinct_update)
  have "\<forall>(x, q)\<in>set (AList.update ref r' (td_records d)). record_ok q"
    using set_update(2)[of "td_records d" ref r'] assms(1-3) by (auto simp: store_ok_def get_record_def)
  moreover have "ref \<notin> set (td_order d)" using assms(1,2) by (simp add: get_record_order_iff)
  ultimately show ?thesis
    using keys assms put_size(2)[OF assms(2)] by (simp add: store_ok_def put_record_def store_size_def)
qed

lemma modify_ok:
  assumes "store_ok d" "\<And>r. get_record d ref = Some r \<Longrightarrow> record_ok r \<Longrightarrow> record_ok (f r) \<and> record_size (f r) = record_size r"
  shows "store_ok (modify_record ref f d)"
    and "td_total (modify_record ref f d) = td_total d"
    and "length (td_records (modify_record ref f d)) = length (td_records d)"
proof -
  have ok: "store_ok ((put_record ref (f r) d)\<lparr>td_total := td_total d\<rparr>)" if "get_record d ref = Some r" for r
    using store_record_ok[OF assms(1) that] assms(2)[OF that] put_size(1)[OF that, of "f r"] assms(1)
    by (intro put_ok[OF assms(1) that]) (auto simp: store_ok_def)
  have total: "(put_record ref q d)\<lparr>td_total := td_total d\<rparr> = put_record ref q d" for q
    by (simp add: put_record_def)
  show "store_ok (modify_record ref f d)"
    using assms(1) ok by (auto simp: modify_record_def total split: option.splits)
  show "td_total (modify_record ref f d) = td_total d"
    by (simp add: modify_record_def split: option.splits)
  show "length (td_records (modify_record ref f d)) = length (td_records d)"
    by (simp add: modify_record_def put_record_def get_record_def length_update_Some split: option.splits)
qed

lemma window_default_retained [simp]: "window_retained window_default = 0"
  by (simp add: window_retained_def window_default_def)

lemma record_new_size [simp]: "record_size (record_new name) = length name"
  by (simp add: record_size_def record_new_def subject_size_def)

lemma get_track: "get_record (track ref name d) x =
   (if x = ref \<and> get_record d ref = None then Some (record_new name) else get_record d x)"
  by (cases "get_record d ref") (simp_all add: track_def Let_def)

lemma track_ok:
  assumes "store_ok d" "store_size d + length name < u64_bound"
  shows "store_ok (track ref name d)" "store_size (track ref name d) \<le> store_size d + length name"
proof -
  have "store_ok (track ref name d) \<and> store_size (track ref name d) \<le> store_size d + length name"
  proof (cases "get_record d ref")
    case None
    have eq: "sat_add (td_total d) (retained_bytes (record_new name)) = store_size d + length name"
      using assms by (simp add: retained_bytes_size sat_add_exact store_ok_def)
    show ?thesis
      using None put_new_ok[OF assms(1) None record_new_ok, of "store_size d + length name" name] assms(2)
        put_size(2)[OF None, of "record_new name"]
      by (simp add: track_def Let_def eq)
  qed (use assms in \<open>simp add: track_def\<close>)
  then show "store_ok (track ref name d)" "store_size (track ref name d) \<le> store_size d + length name" by simp_all
qed

lemma resize_ok:
  assumes "store_ok d"
    and "\<And>r. get_record d ref = Some r \<Longrightarrow> record_ok r \<Longrightarrow>
      \<exists>r'. f r = Some r' \<and> record_ok r' \<and> store_size d - record_size r + record_size r' < u64_bound"
  shows "\<exists>d'. resize ref f d = Some d' \<and> store_ok d'
    \<and> (\<forall>x. get_record d' x = (if x = ref then Option.bind (get_record d ref) f else get_record d x))
    \<and> store_size d' = (case get_record d ref of None \<Rightarrow> store_size d
        | Some r \<Rightarrow> store_size d - record_size r + record_size (the (f r)))
    \<and> length (td_records d') = length (td_records d)"
proof (cases "get_record d ref")
  case None
  have "sat_add (td_total d - 0) 0 = td_total d" using assms(1) by (simp add: store_ok_def sat_add_exact)
  with None assms(1) show ?thesis by (simp add: resize_def)
next
  case (Some r)
  note r = store_record_ok[OF assms(1) Some]
  with assms(2)[OF Some] obtain r' where r': "f r = Some r'" "record_ok r'"
    "store_size d - record_size r + record_size r' < u64_bound" by blast
  have le: "record_size r \<le> store_size d" using Some by (rule size_le_store)
  have size: "store_size (put_record ref r' d) = store_size d - record_size r + record_size r'"
    using put_size(1)[OF Some, of r'] le by simp
  have "record_size r' < u64_bound" using r'(3) by simp
  then have total: "sat_add (td_total d - retained_bytes r) (retained_bytes r') = store_size (put_record ref r' d)"
    using r r'(3) size assms(1) by (simp add: retained_bytes_size store_ok_def sat_add_exact)
  have "store_ok ((put_record ref r' d)\<lparr>td_total := store_size (put_record ref r' d)\<rparr>)"
    using r'(2,3) size by (intro put_ok[OF assms(1) Some]) simp_all
  with Some r'(1) total size show ?thesis
    by (simp add: resize_def put_record_def get_record_def length_update_Some update_conv')
qed

section \<open>Eviction\<close>

inductive evolved :: "ToolRecord \<Rightarrow> ToolRecord \<Rightarrow> bool" for r where
  same: "evolved r r"
| evicted: "evolved r q \<Longrightarrow> evicts_part q size_of f \<Longrightarrow> evolved r (f q)"

definition shrinks :: "ToolDataInner \<Rightarrow> ToolDataInner \<Rightarrow> bool" where
  "shrinks d d' = (\<forall>ref r'. get_record d' ref = Some r' \<longrightarrow> (\<exists>r. get_record d ref = Some r \<and> evolved r r'))"

lemma evolved_trans: "evolved q s \<Longrightarrow> evolved r q \<Longrightarrow> evolved r s"
  by (induction rule: evolved.induct) (auto intro: evolved.intros)

lemma shrinks_refl [simp]: "shrinks d d"
  by (auto simp: shrinks_def intro: evolved.same)

lemma shrinks_trans: "shrinks d d' \<Longrightarrow> shrinks d' d'' \<Longrightarrow> shrinks d d''"
  unfolding shrinks_def by (meson evolved_trans)

lemma evict_input_ok: "record_ok r \<Longrightarrow> input_evictable r \<Longrightarrow> record_ok (evict_input r)
   \<and> record_size (evict_input r) + length (r_input r) = record_size r"
  by (simp add: record_ok_def text_ok_def evict_input_def input_evictable_def record_size_def) auto

lemma evict_result_ok: "record_ok r \<Longrightarrow> result_evictable r \<Longrightarrow> record_ok (evict_result r)
   \<and> record_size (evict_result r) + length (r_result r) = record_size r"
  by (simp add: record_ok_def text_ok_def evict_result_def result_evictable_def record_size_def) auto

lemma drop_change_ok:
  assumes "record_ok r" "r_file_change r = Some c" "record_size r < u64_bound"
  shows "record_ok (drop_change_bytes r) \<and> record_size (drop_change_bytes r) + change_snapshot_bytes c = record_size r"
proof -
  have "change_snapshot_bytes c = capacity_of (ch_before_bytes c) + capacity_of (ch_after_bytes c)"
    using assms by (simp add: change_snapshot_bytes_def record_size_def change_size_def sat_add_exact)
  with assms show ?thesis
    by (simp add: drop_change_bytes_def record_ok_def record_size_def change_size_def capacity_of_def)
qed

lemma evict_stream_ok:
  assumes "record_ok r" "stream_victim r = Some s"
  shows "record_ok (evict_stream s r) \<and>
    record_size (evict_stream s r) + (case record_stream r s of None \<Rightarrow> 0 | Some w \<Rightarrow> window_retained w) = record_size r"
  using stream_victim_Some[OF assms(2)]
proof (elim disjE conjE)
  assume s: "s = StdoutStream" "window_evictable (r_stdout r)"
  moreover have "stream_window_ok (window_evict (r_stdout r))" using assms(1) s by (simp add: window_evict_ok record_ok_def)
  ultimately show ?thesis using assms(1)
    by (simp add: evict_stream_def record_ok_def record_size_def window_retained_def window_evict_def)
next
  assume s: "s = StderrStream" "window_evictable (r_stderr r)"
  moreover have "stream_window_ok (window_evict (r_stderr r))" using assms(1) s by (simp add: window_evict_ok record_ok_def)
  ultimately show ?thesis using assms(1)
    by (simp add: evict_stream_def record_ok_def record_size_def window_retained_def window_evict_def)
qed

lemma evicts_ok:
  assumes "evicts_part r size_of f" "record_ok r" "record_size r < u64_bound"
  shows "record_ok (f r) \<and> record_size (f r) + size_of r = record_size r"
  using assms(1)
proof cases
  case change
  then obtain c where "r_file_change r = Some c" by (cases "r_file_change r") (auto simp: change_evictable_def)
  with change drop_change_ok[OF assms(2) _ assms(3)] show ?thesis by simp
qed (use assms(2) in \<open>simp_all add: evict_input_ok evict_result_ok evict_stream_ok\<close>)

lemma release_ok:
  assumes "store_ok d" "get_record d ref = Some r" "evicts_part r size_of f"
  shows "store_ok (release ref size_of f d) \<and> shrinks d (release ref size_of f d)"
proof -
  note r = store_record_ok[OF assms(1,2)]
  with evicts_ok[OF assms(3)] have fr: "record_ok (f r)" "record_size (f r) + size_of r = record_size r" by auto
  have n: "td_total d - size_of r = store_size (put_record ref (f r) d)"
    using put_size(1)[OF assms(2), of "f r"] fr(2) assms(1) by (simp add: store_ok_def)
  have "store_ok ((put_record ref (f r) d)\<lparr>td_total := td_total d - size_of r\<rparr>)"
    using assms(1) n by (intro put_ok[OF assms(1,2) fr(1)]) (auto simp: store_ok_def)
  moreover have "evolved r (f r)" using evolved.same assms(3) by (rule evolved.evicted)
  ultimately show ?thesis
    using assms(2) by (auto simp: release_def modify_record_def freed_from_def shrinks_def intro: evolved.same)
qed

lemma evict_some_bytes_ok:
  assumes "store_ok d" "evict_some_bytes d = (b, d')"
  shows "store_ok d' \<and> shrinks d d'"
  using assms(2)
proof (cases rule: evict_some_bytes_cases)
  case (freed ref r size_of f)
  with release_ok[OF assms(1)] show ?thesis by simp
qed (use assms(1) in simp)

lemma remove_oldest_ok:
  assumes "store_ok d" "remove_oldest d = (b, d')"
  shows "store_ok d' \<and> shrinks d d'"
  using assms(2)
proof (cases rule: remove_oldest_cases)
  case (victim ref)
  obtain r where r: "get_record d ref = Some r"
    using victim(2) get_record_order_iff[OF assms(1), of ref] by (cases "get_record d ref") auto
  have size: "store_size d' + record_size r = store_size d"
    using size_delete[of "td_records d" ref r record_size] r assms(1) victim(3)
    by (simp add: store_size_def store_ok_def get_record_def)
  have "retained_bytes r = record_size r"
    using store_record_ok[OF assms(1) r] by (simp add: retained_bytes_size)
  then have total: "td_total d' = store_size d'"
    using victim(3) size r assms(1) by (simp add: freed_from_def store_ok_def)
  have "distinct (map fst (td_records d'))"
    using assms(1) victim(3) by (simp add: store_ok_def distinct_delete)
  moreover have "set (td_records d') = {p \<in> set (td_records d). fst p \<noteq> ref}"
    using victim(3) by (auto simp: AList.delete_eq)
  moreover have "td_order d' = filter (\<lambda>x. x \<noteq> ref) (td_order d)" using victim(3) by simp
  ultimately have "store_ok d'"
    using assms(1) total size by (auto simp: store_ok_def)
  moreover have "shrinks d d'"
    using victim(3) by (auto simp: shrinks_def get_delete_record intro: evolved.same)
  ultimately show ?thesis ..
qed (use assms(1) in simp)

lemma empty_order: "store_ok d \<Longrightarrow> td_order d = [] \<Longrightarrow> td_records d = [] \<and> td_total d = 0"
  by (auto simp: store_ok_def store_size_def)

lemma enforce_bytes_ok:
  "store_ok d \<Longrightarrow> store_ok (enforce_bytes d) \<and> td_total (enforce_bytes d) \<le> MAX_TOOL_TOTAL_BYTES
     \<and> shrinks d (enforce_bytes d)"
proof (induction d rule: enforce_bytes.induct)
  case (1 d)
  show ?case
  proof (cases "MAX_TOOL_TOTAL_BYTES < td_total d")
    case over: True
    obtain b d' where e: "evict_some_bytes d = (b, d')" by fastforce
    note d' = evict_some_bytes_ok[OF "1.prems" e]
    show ?thesis
    proof (cases b)
      case True
      with over e have eq: "enforce_bytes d = enforce_bytes d'" by (simp add: enforce_bytes.simps[of d])
      from "1.IH"(1)[OF over e[symmetric, simplified True]] True d' e show ?thesis
        unfolding eq by (metis shrinks_trans)
    next
      case F: False
      obtain b' d'' where r: "remove_oldest d' = (b', d'')" by fastforce
      note d'' = remove_oldest_ok[OF _ r]
      have same: "d' = d" using e F by (cases rule: evict_some_bytes_cases) simp_all
      show ?thesis
      proof (cases b')
        case True
        with over e F r have eq: "enforce_bytes d = enforce_bytes d''" by (simp add: enforce_bytes.simps[of d])
        have "store_ok (enforce_bytes d'') \<and> td_total (enforce_bytes d'') \<le> MAX_TOOL_TOTAL_BYTES
            \<and> shrinks d'' (enforce_bytes d'')"
          using "1.IH"(2)[OF over e[symmetric, simplified F] _ r[symmetric, simplified True]] True F d' d'' e r by blast
        then show ?thesis unfolding eq using d' d'' by (metis shrinks_trans)
      next
        case False
        with r have "td_order d' = []" by (cases rule: remove_oldest_cases) simp_all
        with empty_order "1.prems" same over show ?thesis by auto
      qed
    qed
  next
    case False
    then have "enforce_bytes d = d" by (simp add: enforce_bytes.simps[of d])
    with "1.prems" False show ?thesis by simp
  qed
qed

lemma remove_oldest_total: "remove_oldest d = (b, d') \<Longrightarrow> td_total d' \<le> td_total d"
  by (erule remove_oldest_cases) simp_all

lemma enforce_count_ok:
  "store_ok d \<Longrightarrow> store_ok (enforce_count d) \<and> td_total (enforce_count d) \<le> td_total d
     \<and> length (td_records (enforce_count d)) \<le> MAX_TOOL_RECORDS \<and> shrinks d (enforce_count d)"
proof (induction d rule: enforce_count.induct)
  case (1 d)
  show ?case
  proof (cases "MAX_TOOL_RECORDS < length (td_records d)")
    case over: True
    obtain b d' where r: "remove_oldest d = (b, d')" by fastforce
    note d' = remove_oldest_ok[OF "1.prems" r] remove_oldest_total[OF r]
    show ?thesis
    proof (cases b)
      case True
      with over r have eq: "enforce_count d = enforce_count d'" by (simp add: enforce_count.simps[of d])
      from "1.IH"[OF over r[symmetric, simplified True]] True d' r show ?thesis
        unfolding eq by (metis shrinks_trans le_trans)
    next
      case False
      with r have "td_order d = []" by (cases rule: remove_oldest_cases) simp_all
      with empty_order "1.prems" over show ?thesis by auto
    qed
  next
    case False
    then have "enforce_count d = d" by (simp add: enforce_count.simps[of d])
    with "1.prems" False show ?thesis by simp
  qed
qed

lemma enforce_limits_ok:
  assumes "store_ok d"
  shows "\<exists>d'. enforce_limits d = Some d' \<and> store_ok d' \<and> within_budget d' \<and> shrinks d d'"
proof -
  define d' where "d' = enforce_count (enforce_bytes d)"
  note bytes = enforce_bytes_ok[OF assms]
  with enforce_count_ok[of "enforce_bytes d"] have d': "store_ok d'" "within_budget d'" "shrinks d d'"
    by (auto simp: d'_def within_budget_def intro: shrinks_trans)
  have "retained_bytes r = record_size r" if "(ref, r) \<in> set (td_records d')" for ref r
    using that store_record_ok[OF d'(1)] by (simp add: get_record_mem[OF d'(1), symmetric] retained_bytes_size)
  then have "sum_list (map (\<lambda>(_, r). retained_bytes r) (td_records d')) = store_size d'"
    unfolding store_size_def by (intro arg_cong[of _ _ sum_list] map_cong) auto
  then have "enforce_limits d = Some d'"
    using d'(1) by (simp add: enforce_limits_def Let_def d'_def[symmetric] store_ok_def)
  with d' show ?thesis by blast
qed

section \<open>What the operations do to a record\<close>

lemma truncate_le: "length (fst (Text_Budget.truncate s n)) \<le> n" "length (fst (Text_Budget.truncate s n)) \<le> length s"
  by (simp_all add: floor_char_boundary_le floor_char_boundary_le_length)

lemma subject_for_size: "subject_size (fst (subject_for name args)) \<le> 2 * MAX_SUBJECT_BYTES"
proof -
  have cut: "length p \<le> MAX_SUBJECT_BYTES" if "Text_Budget.truncate s MAX_SUBJECT_BYTES = (p, b)" for s p b
    using truncate_le(1)[of s MAX_SUBJECT_BYTES] that by simp
  show ?thesis
    by (auto simp: subject_for_def subject_size_def Let_def dest!: cut split: prod.splits)
qed

definition span :: "StreamWindow \<Rightarrow> string \<times> nat \<times> nat" where
  "span w = (w_bytes w, w_start w, w_end w)"

definition spans :: "ToolRecord \<Rightarrow> (string \<times> nat \<times> nat) \<times> (string \<times> nat \<times> nat)" where
  "spans r = (span (r_stdout r), span (r_stderr r))"

text \<open>A change of a record that keeps it well formed and the spans of its windows, and takes at most \<open>k\<close> bytes.\<close>

definition settles :: "nat \<Rightarrow> ToolRecord \<Rightarrow> ToolRecord \<Rightarrow> bool" where
  "settles k r r' = (record_ok r' \<and> record_size r' \<le> record_size r + k \<and> spans r' = spans r)"

lemma set_input_settles:
  assumes "record_ok r"
  shows "settles (2 * MAX_SUBJECT_BYTES + MAX_TOOL_INPUT_BYTES) r (set_input name args raw r)"
proof (cases "r_input_seen r")
  case True
  with assms show ?thesis by (simp add: settles_def set_input_def)
next
  case False
  then show ?thesis
    using assms subject_for_size[of name args] truncate_le[of raw MAX_TOOL_INPUT_BYTES]
    by (simp add: settles_def set_input_def record_ok_def text_ok_def record_size_def spans_def)
qed

lemma capture_result_settles:
  assumes "record_ok r" "\<not> r_result_expired r"
  shows "settles MAX_TOOL_RESULT_BYTES r (capture_result content r)"
  using assms truncate_le[of content MAX_TOOL_RESULT_BYTES]
  by (cases "Text_Budget.truncate content MAX_TOOL_RESULT_BYTES")
    (simp add: settles_def capture_result_def record_ok_def text_ok_def record_size_def spans_def)

lemma note_result_settles:
  assumes "record_ok r"
  shows "settles MAX_TOOL_RESULT_BYTES r ((capture_result content r)\<lparr>r_result_expired := False\<rparr>)"
  using assms truncate_le[of content MAX_TOOL_RESULT_BYTES]
  by (cases "Text_Budget.truncate content MAX_TOOL_RESULT_BYTES")
    (simp add: settles_def capture_result_def record_ok_def text_ok_def record_size_def spans_def)

lemma from_outcome_terminal: "state_is_terminal (from_outcome out)"
  by (cases out) (simp_all add: state_is_terminal_def)

lemma finish_stream_settles: "record_ok r \<Longrightarrow> settles 0 r (finish_stream c s r)"
  by (cases s) (simp_all add: finish_stream_def settles_def record_ok_def stream_window_ok_def record_size_def
      window_retained_def spans_def span_def)

lemma finish_record_settles: "settles 0 r (finish_record now out r)" if "record_ok r"
  using that by (simp add: finish_record_def settles_def record_ok_def outcome_ok_def record_size_def spans_def Let_def)

lemma mark_settles:
  assumes "record_ok r"
  shows "settles 0 r (if r_state r = Requested then r\<lparr>r_state := AwaitingPolicy\<rparr> else r)"
    and "settles 0 r (if \<not> state_is_terminal (r_state r) then r\<lparr>r_state := ToolCancelling\<rparr> else r)"
    and "settles 0 r (let r = (if \<not> state_is_terminal (r_state r) then r\<lparr>r_state := ToolRunning\<rparr> else r)
       in if r_started_at r = None then r\<lparr>r_started_at := now\<rparr> else r)"
    and "settles 0 r (r\<lparr>r_phase := ph\<rparr>)" and "settles 0 r (r\<lparr>r_recording := rec\<rparr>)"
    and "settles COMMAND_METADATA_BYTES r (r\<lparr>r_command := Some cmd\<rparr>)"
    and "settles (change_size c) r (if r_file_change r = None then r\<lparr>r_file_change := Some c\<rparr> else r)"
proof -
  have out: "outcome_ok (r_outcome r) (r_state r)" using assms by (simp add: record_ok_def)
  have live: "outcome_ok (r_outcome r) st" if "\<not> state_is_terminal (r_state r)" "\<not> state_is_terminal st" for st
    using that out by (cases "r_outcome r") (simp_all add: outcome_ok_def from_outcome_terminal)
  have states: "\<not> state_is_terminal Requested" "\<not> state_is_terminal AwaitingPolicy" "\<not> state_is_terminal ToolCancelling"
    "\<not> state_is_terminal ToolRunning" by (simp_all add: state_is_terminal_def)
  show "settles 0 r (if r_state r = Requested then r\<lparr>r_state := AwaitingPolicy\<rparr> else r)"
    "settles 0 r (if \<not> state_is_terminal (r_state r) then r\<lparr>r_state := ToolCancelling\<rparr> else r)"
    "settles 0 r (let r = (if \<not> state_is_terminal (r_state r) then r\<lparr>r_state := ToolRunning\<rparr> else r)
       in if r_started_at r = None then r\<lparr>r_started_at := now\<rparr> else r)"
    using assms live states by (simp_all add: settles_def record_ok_def record_size_def spans_def Let_def)
  show "settles 0 r (r\<lparr>r_phase := ph\<rparr>)" "settles 0 r (r\<lparr>r_recording := rec\<rparr>)"
    "settles COMMAND_METADATA_BYTES r (r\<lparr>r_command := Some cmd\<rparr>)"
    "settles (change_size c) r (if r_file_change r = None then r\<lparr>r_file_change := Some c\<rparr> else r)"
    using assms by (simp_all add: settles_def record_ok_def record_size_def spans_def)
qed

section \<open>Sequences of operations\<close>

text \<open>The calls of \<^verbatim>\<open>ToolData\<close> that change it, each under the lock of the store.\<close>

datatype td_op =
  OpRequested ToolRef string
| OpInvocation ToolRef string invocation_args string
| OpAwaiting ToolRef
| OpRunning "string option" ToolRef
| OpPhase ToolRef string
| OpResult ToolRef string
| OpCancelling ToolRef
| OpChunk nat ToolRef ToolDataStream string
| OpEnd ToolRef ToolDataStream
| OpCut ToolRef ToolDataStream
| OpCommand ToolRef CommandResult
| OpRecording ToolRef ToolRecordingState
| OpChange ToolRef FileChange
| OpFinish "string option" ToolRef ToolResultOutcome
| OpReconcile "string option" "u8 list" "HistoryItem list"

fun td_apply :: "td_op \<Rightarrow> ToolDataInner \<Rightarrow> ToolDataInner option" where
  "td_apply (OpRequested ref name) d = note_requested ref name d"
| "td_apply (OpInvocation ref name args raw) d = map_option snd (note_invocation ref name args raw d)"
| "td_apply (OpAwaiting ref) d = Some (mark_awaiting_policy ref d)"
| "td_apply (OpRunning now ref) d = Some (mark_running now ref d)"
| "td_apply (OpPhase ref message) d = Some (note_phase ref message d)"
| "td_apply (OpResult ref content) d = note_result ref content d"
| "td_apply (OpCancelling ref) d = Some (mark_cancelling ref d)"
| "td_apply (OpChunk slack ref stream chunk) d = map_option snd (note_stream_chunk slack ref stream chunk d)"
| "td_apply (OpEnd ref stream) d = note_stream_end ref stream d"
| "td_apply (OpCut ref stream) d = note_stream_cut ref stream d"
| "td_apply (OpCommand ref cmd) d = map_option snd (note_command ref cmd d)"
| "td_apply (OpRecording ref recording) d = Some (snd (note_recording ref recording d))"
| "td_apply (OpChange ref change) d = note_file_change ref change d"
| "td_apply (OpFinish now ref out) d = Some (snd (finish_and_snapshot now ref out d))"
| "td_apply (OpReconcile now session items) d = reconcile now session items d"

fun item_need :: "HistoryItem \<Rightarrow> nat" where
  "item_need (ResultItem item) = length (ti_name item) + MAX_TOOL_RESULT_BYTES"
| "item_need OtherItem = 0"

text \<open>The bytes that an operation brings in: what it is given fits the address space.\<close>

fun op_need :: "td_op \<Rightarrow> nat" where
  "op_need (OpRequested ref name) = length name"
| "op_need (OpInvocation ref name args raw) = length name"
| "op_need (OpChunk slack ref stream chunk) = slack"
| "op_need (OpChange ref c) = change_size c"
| "op_need (OpReconcile now session items) = sum_list (map item_need items)"
| "op_need _ = 0"

fun op_fits :: "ToolDataInner \<Rightarrow> td_op \<Rightarrow> bool" where
  "op_fits d (OpChunk slack ref stream chunk) =
     (slack < 2 ^ 63 \<and> (case Option.bind (get_record d ref) (\<lambda>r. record_stream r stream) of
        None \<Rightarrow> True | Some w \<Rightarrow> w_end w + length chunk < u64_bound))"
| "op_fits d op = (op_need op < 2 ^ 63)"

definition default_spans :: "(string \<times> nat \<times> nat) \<times> (string \<times> nat \<times> nat)" where
  "default_spans = (([], 0, 0), ([], 0, 0))"

definition spans_at :: "ToolDataInner \<Rightarrow> ToolRef \<Rightarrow> (string \<times> nat \<times> nat) \<times> (string \<times> nat \<times> nat)" where
  "spans_at d ref = (case get_record d ref of None \<Rightarrow> default_spans | Some r \<Rightarrow> spans r)"

text \<open>No record is lost and no window moves; a new record has empty windows.\<close>

definition quiet :: "ToolDataInner \<Rightarrow> ToolDataInner \<Rightarrow> bool" where
  "quiet d d' = (\<forall>ref. (get_record d ref \<noteq> None \<longrightarrow> get_record d' ref \<noteq> None) \<and> spans_at d' ref = spans_at d ref)"

lemma quiet_refl [simp]: "quiet d d"
  by (simp add: quiet_def)

lemma quiet_trans: "quiet d d' \<Longrightarrow> quiet d' d'' \<Longrightarrow> quiet d d''"
  by (simp add: quiet_def)

lemma spans_new: "spans (record_new name) = default_spans"
  by (simp add: spans_def span_def record_new_def window_default_def default_spans_def)

lemma track_quiet: "quiet d (track ref name d)"
  by (auto simp: quiet_def spans_at_def get_track spans_new split: option.splits)

lemma modify_settles:
  assumes "store_ok d" "within_budget d" "\<And>r. record_ok r \<Longrightarrow> settles 0 r (f r)" "\<And>r. record_size (f r) = record_size r"
  shows "store_ok (modify_record ref f d) \<and> within_budget (modify_record ref f d) \<and> quiet d (modify_record ref f d)"
proof -
  have f: "record_ok r \<Longrightarrow> record_ok (f r) \<and> record_size (f r) = record_size r" for r
    using assms(3)[of r] assms(4) by (simp add: settles_def)
  have "quiet d (modify_record ref f d)"
    using assms(3) store_record_ok[OF assms(1)]
    by (auto simp: quiet_def spans_at_def modify_record_def settles_def split: option.splits)
  with modify_ok[OF assms(1), of ref f] f assms(2) show ?thesis by (simp add: within_budget_def)
qed

lemma resize_settles:
  assumes "store_ok d" "store_size d + k < u64_bound"
    and "\<And>r. get_record d ref = Some r \<Longrightarrow> record_ok r \<Longrightarrow> \<exists>r'. f r = Some r' \<and> settles k r r'"
  shows "\<exists>d'. resize ref f d = Some d' \<and> store_ok d' \<and> quiet d d' \<and> store_size d' \<le> store_size d + k
    \<and> length (td_records d') = length (td_records d) \<and> get_record d' ref = Option.bind (get_record d ref) f"
proof -
  have "\<exists>r'. f r = Some r' \<and> record_ok r' \<and> store_size d - record_size r + record_size r' < u64_bound"
    if "get_record d ref = Some r" "record_ok r" for r
    using assms(3)[OF that] size_le_store[OF that(1)] assms(2) by (auto simp: settles_def)
  from resize_ok[OF assms(1) this] obtain d' where d': "resize ref f d = Some d'" "store_ok d'"
    "\<And>x. get_record d' x = (if x = ref then Option.bind (get_record d ref) f else get_record d x)"
    "store_size d' = (case get_record d ref of None \<Rightarrow> store_size d
        | Some r \<Rightarrow> store_size d - record_size r + record_size (the (f r)))"
    "length (td_records d') = length (td_records d)" by blast
  have s: "\<exists>r'. f r = Some r' \<and> settles k r r'" if "get_record d ref = Some r" for r
    using assms(3)[OF that] store_record_ok[OF assms(1) that] by blast
  have "quiet d d'" using s by (fastforce simp: quiet_def spans_at_def d'(3) settles_def split: option.splits)
  moreover have "store_size d' \<le> store_size d + k"
  proof (cases "get_record d ref")
    case (Some r)
    with s[OF Some] size_le_store[OF Some] show ?thesis by (auto simp: d'(4) settles_def)
  qed (simp add: d'(4))
  ultimately show ?thesis using d' by auto
qed

definition good :: "ToolDataInner \<Rightarrow> bool" where
  "good d = (store_ok d \<and> within_budget d)"

definition quietly :: "ToolDataInner \<Rightarrow> ToolDataInner \<Rightarrow> bool" where
  "quietly d d' = (good d' \<and> (\<exists>d1. quiet d d1 \<and> shrinks d1 d'))"

lemma quietly_enforce: "store_ok d1 \<Longrightarrow> quiet d d1 \<Longrightarrow> \<exists>d'. enforce_limits d1 = Some d' \<and> quietly d d'"
  using enforce_limits_ok[of d1] by (auto simp: quietly_def good_def)

lemma good_room:
  assumes "good d" "k < 2 ^ 63"
  shows "store_size d + k + 16777216 < u64_bound"
  using assms by (simp add: good_def store_ok_def within_budget_def MAX_TOOL_TOTAL_BYTES_def u64_bound_def)

lemma quietly_modify:
  assumes "good d" "\<And>r. record_ok r \<Longrightarrow> settles 0 r (f r)" "\<And>r. record_size (f r) = record_size r"
  shows "quietly d (modify_record ref f d)"
proof -
  have "quiet d (modify_record ref f d) \<and> good (modify_record ref f d)"
    using modify_settles[of d f ref] assms by (simp add: good_def)
  then show ?thesis unfolding quietly_def using shrinks_refl by blast
qed

lemma quietly_resize:
  assumes "good d" "k \<le> 2 ^ 63" "\<And>r. record_ok r \<Longrightarrow> settles k r (f r)"
  shows "\<exists>d' d1. resize ref (\<lambda>r. Some (f r)) d = Some d1 \<and> enforce_limits d1 = Some d' \<and> quietly d d'"
proof -
  have "store_size d + k < u64_bound"
    using assms(1,2) by (simp add: good_def store_ok_def within_budget_def MAX_TOOL_TOTAL_BYTES_def u64_bound_def)
  with resize_settles[of d k ref "\<lambda>r. Some (f r)"] assms(1,3) obtain d1 where
    "resize ref (\<lambda>r. Some (f r)) d = Some d1" "store_ok d1" "quiet d d1" by (auto simp: good_def)
  with quietly_enforce show ?thesis by blast
qed

lemma requested_ok:
  assumes "good d" "length name < 2 ^ 63"
  shows "\<exists>d'. note_requested ref name d = Some d' \<and> quietly d d'"
proof -
  have "store_ok (track ref name d)"
    using good_room[OF assms] assms(1) by (intro track_ok) (simp_all add: good_def)
  then show ?thesis using quietly_enforce[OF _ track_quiet] by (simp add: note_requested_def)
qed

lemma input_constants: "2 * MAX_SUBJECT_BYTES + MAX_TOOL_INPUT_BYTES \<le> 16777216"
  by (simp add: MAX_SUBJECT_BYTES_def MAX_TOOL_INPUT_BYTES_def)

lemma invocation_ok:
  assumes "good d" "length name < 2 ^ 63"
  shows "\<exists>e d'. note_invocation ref name args raw d = Some (e, d') \<and> quietly d d'"
proof -
  let ?k = "2 * MAX_SUBJECT_BYTES + MAX_TOOL_INPUT_BYTES"
  note room = good_room[OF assms]
  have t: "store_ok (track ref name d)" "store_size (track ref name d) + ?k < u64_bound"
    using track_ok[of d name ref] assms(1) room input_constants by (simp_all add: good_def)
  from resize_settles[OF t, of ref "\<lambda>r. Some (set_input name args raw r)"] obtain d1 where
    d1: "resize ref (\<lambda>r. Some (set_input name args raw r)) (track ref name d) = Some d1" "store_ok d1"
    "quiet (track ref name d) d1" by (auto intro: set_input_settles)
  from quietly_enforce[OF d1(2) quiet_trans[OF track_quiet d1(3)]] d1(1) show ?thesis
    by (auto simp: note_invocation_def Let_def)
qed

lemma item_ok:
  assumes "store_ok d" "store_size d + item_need (ResultItem item) < u64_bound"
  shows "\<exists>d'. reconcile_item now session item d = Some d' \<and> store_ok d' \<and> quiet d d'
    \<and> store_size d' \<le> store_size d + item_need (ResultItem item)"
proof -
  define ref where "ref = item_ref session item"
  define d1 where "d1 = track ref (ti_name item) d"
  define d2 where "d2 = modify_record ref (finish_record now (ti_outcome item)) d1"
  have d1: "store_ok d1" "store_size d1 \<le> store_size d + length (ti_name item)" "quiet d d1"
    using track_ok[of d "ti_name item" ref] assms by (simp_all add: d1_def track_quiet)
  have keep: "record_size (finish_record now out r) = record_size r" for out r
    by (cases "r_command r") (simp_all add: finish_record_def record_size_def Let_def)
  have d2: "store_ok d2" "store_size d2 = store_size d1" "quiet d1 d2"
    using modify_ok[OF d1(1), of ref "finish_record now (ti_outcome item)"] finish_record_settles keep d1(1)
      store_record_ok[OF d1(1)]
    by (auto simp: d2_def settles_def store_ok_def quiet_def spans_at_def modify_record_def split: option.splits)
  have expired: "r_result_expired (finish_record now out r) = r_result_expired r" for out r
    by (simp add: finish_record_def Let_def)
  show ?thesis
  proof (cases "case get_record d1 ref of None \<Rightarrow> False | Some r \<Rightarrow> \<not> r_result_expired r")
    case True
    then obtain r where r: "get_record d1 ref = Some r" "\<not> r_result_expired r" by (auto split: option.splits)
    then have "get_record d2 ref = Some (finish_record now (ti_outcome item) r)" by (simp add: d2_def modify_record_def)
    with r have live: "get_record d2 ref = Some q \<Longrightarrow> \<not> r_result_expired q" for q by (auto simp: expired)
    have "store_size d2 + MAX_TOOL_RESULT_BYTES < u64_bound" using d1 d2 assms(2) by simp
    from resize_settles[OF d2(1) this, of ref "\<lambda>r. Some (capture_result (ti_content item) r)"] live obtain d3 where
      d3: "resize ref (\<lambda>r. Some (capture_result (ti_content item) r)) d2 = Some d3" "store_ok d3" "quiet d2 d3"
      "store_size d3 \<le> store_size d2 + MAX_TOOL_RESULT_BYTES"
      by (auto intro: capture_result_settles)
    have "quiet d d3" using d1(3) d2(3) d3(3) by (meson quiet_trans)
    with True d3 d1(2) d2(2) show ?thesis
      by (simp add: reconcile_item_def Let_def ref_def[symmetric] d1_def[symmetric] d2_def[symmetric])
  next
    case False
    have "quiet d d2" using d1(3) d2(3) by (rule quiet_trans)
    with False d2 d1(2) show ?thesis
      by (simp add: reconcile_item_def Let_def ref_def[symmetric] d1_def[symmetric] d2_def[symmetric])
  qed
qed

lemma reconcile_loop_ok:
  "store_ok d \<Longrightarrow> store_size d + sum_list (map item_need items) < u64_bound
   \<Longrightarrow> \<exists>d'. reconcile_loop now session items d = Some d' \<and> store_ok d' \<and> quiet d d'"
proof (induction items arbitrary: d)
  case (Cons item items)
  show ?case
  proof (cases item)
    case (ResultItem it)
    with item_ok[of d it now session] Cons.prems obtain d1 where d1: "reconcile_item now session it d = Some d1"
      "store_ok d1" "quiet d d1" "store_size d1 \<le> store_size d + item_need (ResultItem it)" by auto
    with Cons.IH[of d1] Cons.prems ResultItem show ?thesis by (auto intro: quiet_trans)
  qed (use Cons in simp)
qed simp

lemma same_size_record:
  "record_size (if r_state r = Requested then r\<lparr>r_state := AwaitingPolicy\<rparr> else r) = record_size r"
  "record_size (if \<not> state_is_terminal (r_state r) then r\<lparr>r_state := ToolCancelling\<rparr> else r) = record_size r"
  "record_size (let r = (if \<not> state_is_terminal (r_state r) then r\<lparr>r_state := ToolRunning\<rparr> else r)
     in if r_started_at r = None then r\<lparr>r_started_at := now\<rparr> else r) = record_size r"
  "record_size (r\<lparr>r_phase := ph\<rparr>) = record_size r" "record_size (r\<lparr>r_recording := rec\<rparr>) = record_size r"
  "record_size (finish_record now out r) = record_size r"
  by (cases "r_command r"; simp add: record_size_def finish_record_def Let_def)+

text \<open>The windows of a chunk: the store before eviction has exactly one window moved.\<close>

definition pushed_window :: "nat \<Rightarrow> string \<Rightarrow> StreamWindow \<Rightarrow> StreamWindow" where
  "pushed_window slack chunk w = (case window_push slack chunk w of None \<Rightarrow> w | Some (p, w') \<Rightarrow> w')"

lemma push_stream_ok:
  assumes "record_ok r" "record_stream r stream = Some w" "w_end w + length chunk < u64_bound"
  shows "push_stream slack stream chunk r = Some (set_stream stream (pushed_window slack chunk w) r)
    \<and> record_ok (set_stream stream (pushed_window slack chunk w) r)
    \<and> record_size (set_stream stream (pushed_window slack chunk w) r) \<le> record_size r + (MAX_TOOL_STREAM_BYTES + slack)
    \<and> (\<exists>p. window_push slack chunk w = Some (p, pushed_window slack chunk w))"
proof -
  have ok: "stream_window_ok w" using assms(1,2) by (cases stream) (auto simp: record_ok_def)
  from window_push_ok[OF ok assms(3), of slack] obtain p w' where w': "window_push slack chunk w = Some (p, w')"
    "stream_window_ok w'" "window_retained w' \<le> max (window_retained w) (MAX_TOOL_STREAM_BYTES + slack)" by metis
  have pw: "pushed_window slack chunk w = w'" using w'(1) by (simp add: pushed_window_def)
  show ?thesis
    unfolding pw using assms(1,2) w' by (cases stream) (auto simp: push_stream_def record_ok_def record_size_def)
qed

lemma chunk_ok:
  assumes "good d" "op_fits d (OpChunk slack ref stream chunk)"
    and "get_record d ref = Some r" "record_stream r stream = Some w"
  shows "\<exists>e d' d1. note_stream_chunk slack ref stream chunk d = Some (e, d') \<and> good d' \<and> shrinks d1 d'
    \<and> (\<forall>x. get_record d1 x = (if x = ref then Some (set_stream stream (pushed_window slack chunk w) r) else get_record d x))"
proof -
  have ok: "store_ok d" "record_ok r" using assms(1,3) store_record_ok by (auto simp: good_def)
  have fits: "slack < 2 ^ 63" "w_end w + length chunk < u64_bound" using assms(2-4) by simp_all
  note push = push_stream_ok[OF ok(2) assms(4) fits(2), of slack]
  have "store_size d - record_size r + record_size (set_stream stream (pushed_window slack chunk w) r) < u64_bound"
    using push[THEN conjunct2, THEN conjunct2, THEN conjunct1] good_room[OF assms(1) fits(1)] size_le_store[OF assms(3)]
    unfolding MAX_TOOL_STREAM_BYTES_def by linarith
  with resize_ok[OF ok(1), of ref "push_stream slack stream chunk"] push assms(3) obtain d1 where
    d1: "resize ref (push_stream slack stream chunk) d = Some d1" "store_ok d1"
    "\<forall>x. get_record d1 x = (if x = ref then Some (set_stream stream (pushed_window slack chunk w) r) else get_record d x)"
    by auto
  from enforce_limits_ok[OF d1(2)] obtain d' where "enforce_limits d1 = Some d'" "good d'" "shrinks d1 d'"
    by (auto simp: good_def)
  moreover from this(1) have "\<exists>e. note_stream_chunk slack ref stream chunk d = Some (e, d')"
    using d1(1) push assms(3,4) by (auto simp: note_stream_chunk_def)
  ultimately show ?thesis using d1(3) by blast
qed

lemma quiet_op:
  assumes "good d" "op_fits d op"
    and "\<And>slack ref stream chunk r w. op = OpChunk slack ref stream chunk \<Longrightarrow>
      get_record d ref = Some r \<Longrightarrow> record_stream r stream \<noteq> Some w"
  shows "\<exists>d'. td_apply op d = Some d' \<and> quietly d d'"
proof -
  have refl: "quietly d d" using assms(1) shrinks_refl quiet_refl unfolding quietly_def by blast
  have wf: "store_ok d" using assms(1) by (simp add: good_def)
  have room: "store_size d < u64_bound" using wf by (simp add: store_ok_def)
  have small: "MAX_TOOL_RESULT_BYTES \<le> 2 ^ 63" "COMMAND_METADATA_BYTES \<le> 2 ^ 63"
    by (simp_all add: MAX_TOOL_RESULT_BYTES_def COMMAND_METADATA_BYTES_def)
  have flags: "\<exists>d'. resize ref (\<lambda>r. Some (finish_stream c s r)) d = Some d' \<and> quietly d d'" for ref c s
  proof -
    from resize_settles[OF wf, of 0 ref "\<lambda>r. Some (finish_stream c s r)"] room obtain d' where
      d': "resize ref (\<lambda>r. Some (finish_stream c s r)) d = Some d'" "store_ok d'" "quiet d d'"
      "store_size d' \<le> store_size d" "length (td_records d') = length (td_records d)"
      by (auto intro: finish_stream_settles)
    then have "good d'" using assms(1) by (auto simp: good_def within_budget_def store_ok_def)
    with d' show ?thesis unfolding quietly_def using shrinks_refl by blast
  qed
  show ?thesis
  proof (cases op)
    case (OpRequested ref name)
    with assms requested_ok show ?thesis by simp
  next
    case (OpInvocation ref name args raw)
    with assms invocation_ok[of d name ref args raw] show ?thesis by auto
  next
    case (OpAwaiting ref)
    with quietly_modify[OF assms(1) mark_settles(1) same_size_record(1)] show ?thesis
      by (simp add: mark_awaiting_policy_def)
  next
    case (OpRunning now ref)
    with quietly_modify[OF assms(1) mark_settles(3) same_size_record(3)] show ?thesis
      by (simp add: mark_running_def)
  next
    case (OpPhase ref message)
    with quietly_modify[OF assms(1) mark_settles(4) same_size_record(4)] refl show ?thesis
      by (simp add: note_phase_def split: option.splits)
  next
    case (OpResult ref content)
    with quietly_resize[OF assms(1) small(1) note_result_settles[of _ content], of ref] show ?thesis
      by (auto simp: note_result_def)
  next
    case (OpCancelling ref)
    with quietly_modify[OF assms(1) mark_settles(2) same_size_record(2)] show ?thesis
      by (simp add: mark_cancelling_def)
  next
    case (OpChunk slack ref stream chunk)
    show ?thesis
    proof (cases "get_record d ref")
      case None
      with OpChunk refl show ?thesis by (simp add: note_stream_chunk_def)
    next
      case (Some r)
      have none: "record_stream r stream = None"
        using assms(3)[OF OpChunk Some] by (cases "record_stream r stream") auto
      have "\<exists>d'. resize ref (push_stream slack stream chunk) d = Some d' \<and> store_ok d' \<and> quiet d d'
          \<and> store_size d' \<le> store_size d + 0 \<and> length (td_records d') = length (td_records d)
          \<and> get_record d' ref = Option.bind (get_record d ref) (push_stream slack stream chunk)"
        using Some none room by (intro resize_settles[OF wf]) (auto simp: push_stream_def settles_def)
      then obtain d' where d': "resize ref (push_stream slack stream chunk) d = Some d'" "store_ok d'" "quiet d d'"
        "store_size d' \<le> store_size d" "length (td_records d') = length (td_records d)" by auto
      then have "good d'" using assms(1) by (auto simp: good_def within_budget_def store_ok_def)
      then have "quietly d d'" unfolding quietly_def using d'(3) shrinks_refl by blast
      with Some none d'(1) OpChunk show ?thesis by (simp add: note_stream_chunk_def)
    qed
  next
    case (OpEnd ref stream)
    with flags show ?thesis by (simp add: note_stream_end_def)
  next
    case (OpCut ref stream)
    with flags show ?thesis by (simp add: note_stream_cut_def)
  next
    case (OpCommand ref cmd)
    with quietly_resize[OF assms(1) small(2) mark_settles(6)[of _ cmd], of ref] refl show ?thesis
      by (auto simp: note_command_def)
  next
    case (OpRecording ref recording)
    with quietly_modify[OF assms(1) mark_settles(5) same_size_record(5)] show ?thesis
      by (simp add: note_recording_def Let_def)
  next
    case (OpChange ref change)
    with quietly_resize[OF assms(1) _ mark_settles(7)[of _ change], of ref] assms(2) show ?thesis
      by (auto simp: note_file_change_def)
  next
    case (OpFinish now ref out)
    with quietly_modify[OF assms(1) finish_record_settles same_size_record(6)] show ?thesis
      by (simp add: finish_and_snapshot_def Let_def)
  next
    case (OpReconcile now session items)
    then have "store_size d + sum_list (map item_need items) < u64_bound"
      using good_room[OF assms(1), of "sum_list (map item_need items)"] assms(2) by simp
    from reconcile_loop_ok[OF wf this] obtain d1 where "reconcile_loop now session items d = Some d1"
      "store_ok d1" "quiet d d1" by blast
    with quietly_enforce[of d1 d] OpReconcile show ?thesis by (auto simp: reconcile_def)
  qed
qed

section \<open>The bytes a process wrote\<close>

text \<open>
  The log of a stream is everything that was pushed to it since its record was created. A window
  shows the log from its start offset on.
\<close>

type_synonym stream_log = "ToolRef \<Rightarrow> ToolDataStream \<Rightarrow> string"

fun op_pushed :: "td_op \<Rightarrow> stream_log" where
  "op_pushed (OpChunk slack ref stream chunk) x s = (if x = ref \<and> s = stream then chunk else [])"
| "op_pushed _ x s = []"

inductive td_step :: "ToolDataInner \<times> stream_log \<Rightarrow> ToolDataInner \<times> stream_log \<Rightarrow> bool" where
  call: "op_fits d op \<Longrightarrow> td_apply op d = Some d' \<Longrightarrow>
    td_step (d, log) (d', \<lambda>ref s. if get_record d' ref = None then [] else log ref s @ op_pushed op ref s)"

inductive_cases td_stepE: "td_step (d, log) st'"

definition tail_of :: "string \<times> nat \<times> nat \<Rightarrow> string \<Rightarrow> bool" where
  "tail_of sp s = (case sp of (bytes, start, end_at) \<Rightarrow> end_at = length s \<and> start \<le> end_at \<and> bytes = drop start s)"

definition traced :: "ToolDataInner \<Rightarrow> stream_log \<Rightarrow> bool" where
  "traced d log = (\<forall>ref. (get_record d ref = None \<longrightarrow> (\<forall>s. log ref s = []))
     \<and> tail_of (fst (spans_at d ref)) (log ref StdoutStream) \<and> tail_of (snd (spans_at d ref)) (log ref StderrStream))"

lemma tail_of_push:
  assumes "tail_of (span w) s" "stream_window_ok w" "w_end w + length chunk < u64_bound"
  shows "tail_of (span (pushed_window slack chunk w)) (s @ chunk)"
proof -
  from window_push_ok[OF assms(2,3), of slack] obtain p w' where w': "window_push slack chunk w = Some (p, w')"
    "stream_window_ok w'" "w_end w' = w_end w + length chunk" "w_start w \<le> w_start w'"
    "w_bytes w' = drop (w_start w' - w_start w) (w_bytes w @ chunk)" by metis
  from assms(1) have s: "w_end w = length s" "w_start w \<le> length s" "w_bytes w = drop (w_start w) s"
    by (simp_all add: tail_of_def span_def)
  have "w_bytes w @ chunk = drop (w_start w) (s @ chunk)" using s by simp
  then have "w_bytes w' = drop (w_start w') (s @ chunk)" using w'(4,5) by (metis drop_drop le_add_diff_inverse2)
  moreover have "w_start w' \<le> w_end w'" using w'(2) by (simp add: stream_window_ok_def)
  ultimately show ?thesis
    using w'(1,3) s(1) by (simp add: tail_of_def span_def pushed_window_def)
qed

lemma evicts_tail:
  assumes "evicts_part r size_of f" "tail_of (fst (spans r)) s" "tail_of (snd (spans r)) s'"
  shows "tail_of (fst (spans (f r))) s \<and> tail_of (snd (spans (f r))) s'"
  using assms(1)
proof cases
  case (stream st)
  with stream_victim_Some[OF stream(3)] assms(2,3) show ?thesis
    by (auto simp: evict_stream_def spans_def span_def tail_of_def window_evict_def)
qed (use assms(2,3) in \<open>simp_all add: spans_def evict_input_def evict_result_def drop_change_bytes_def\<close>)

lemma evolved_tail:
  "evolved r r' \<Longrightarrow> tail_of (fst (spans r)) s \<Longrightarrow> tail_of (snd (spans r)) s'
   \<Longrightarrow> tail_of (fst (spans r')) s \<and> tail_of (snd (spans r')) s'"
  by (induction rule: evolved.induct) (auto dest: evicts_tail)

lemma shrinks_traced:
  assumes "shrinks d d'"
    and "\<And>ref. get_record d' ref \<noteq> None \<Longrightarrow>
      tail_of (fst (spans_at d ref)) (log ref StdoutStream) \<and> tail_of (snd (spans_at d ref)) (log ref StderrStream)"
  shows "traced d' (\<lambda>ref s. if get_record d' ref = None then [] else log ref s)"
proof -
  have "tail_of (fst (spans_at d' ref)) (log ref StdoutStream) \<and> tail_of (snd (spans_at d' ref)) (log ref StderrStream)"
    if r': "get_record d' ref = Some r'" for ref r'
  proof -
    from assms(1) r' obtain r where r: "get_record d ref = Some r" "evolved r r'" by (auto simp: shrinks_def)
    have "tail_of (fst (spans r)) (log ref StdoutStream)" "tail_of (snd (spans r)) (log ref StderrStream)"
      using assms(2)[of ref] r r' by (simp_all add: spans_at_def)
    from evolved_tail[OF r(2) this] r' show ?thesis by (simp add: spans_at_def)
  qed
  then show ?thesis
    by (auto simp: traced_def spans_at_def default_spans_def tail_of_def split: option.splits)
qed

lemma td_step_traced:
  assumes "good d" "traced d log" "op_fits d op" "td_apply op d = Some d'"
  shows "good d' \<and> traced d' (\<lambda>ref s. if get_record d' ref = None then [] else log ref s @ op_pushed op ref s)"
proof (cases "\<exists>slack ref stream chunk r w. op = OpChunk slack ref stream chunk \<and> get_record d ref = Some r
    \<and> record_stream r stream = Some w")
  case True
  then obtain slack ref stream chunk r w where op: "op = OpChunk slack ref stream chunk"
    and r: "get_record d ref = Some r" "record_stream r stream = Some w" by blast
  from chunk_ok[OF assms(1) assms(3)[unfolded op] r] assms(4) op obtain d1 where
    d1: "good d'" "shrinks d1 d'"
    "\<And>x. get_record d1 x = (if x = ref then Some (set_stream stream (pushed_window slack chunk w) r) else get_record d x)"
    by auto
  have ok: "record_ok r" using store_record_ok[OF _ r(1)] assms(1) by (simp add: good_def)
  have fits: "w_end w + length chunk < u64_bound" using assms(3) r by (simp add: op)
  have old: "tail_of (fst (spans_at d x)) (log x StdoutStream)" "tail_of (snd (spans_at d x)) (log x StderrStream)" for x
    using assms(2) by (simp_all add: traced_def)
  have "tail_of (fst (spans_at d1 x)) (log x StdoutStream @ op_pushed op x StdoutStream)
      \<and> tail_of (snd (spans_at d1 x)) (log x StderrStream @ op_pushed op x StderrStream)" for x
  proof (cases "x = ref")
    case x: True
    show ?thesis
    proof (cases stream)
      case StdoutStream
      with r(2) ok have w: "w = r_stdout r" "stream_window_ok w" by (simp_all add: record_ok_def)
      from tail_of_push[OF _ w(2) fits, of "log ref StdoutStream" slack] old[of ref] StdoutStream w(1) x r(1) op
      show ?thesis by (simp add: spans_at_def d1(3) spans_def)
    next
      case StderrStream
      with r(2) ok have w: "w = r_stderr r" "stream_window_ok w" by (simp_all add: record_ok_def)
      from tail_of_push[OF _ w(2) fits, of "log ref StderrStream" slack] old[of ref] StderrStream w(1) x r(1) op
      show ?thesis by (simp add: spans_at_def d1(3) spans_def)
    qed (use r(2) in simp_all)
  next
    case False
    with old[of x] op show ?thesis by (simp add: spans_at_def d1(3))
  qed
  with shrinks_traced[OF d1(2), of "\<lambda>ref s. log ref s @ op_pushed op ref s"] d1(1) show ?thesis by simp
next
  case False
  from quiet_op[OF assms(1,3)] False assms(4) have "quietly d d'" by fastforce
  then obtain d1 where d1: "good d'" "quiet d d1" "shrinks d1 d'" by (auto simp: quietly_def)
  have none: "op_pushed op x s = []" if "get_record d' x \<noteq> None" "s \<in> {StdoutStream, StderrStream}" for x s
  proof (cases op)
    case (OpChunk slack ref stream chunk)
    have "x \<noteq> ref \<or> s \<noteq> stream"
    proof (rule ccontr)
      assume "\<not> (x \<noteq> ref \<or> s \<noteq> stream)"
      moreover from this have "get_record d ref = None"
        using False OpChunk that(2) by (cases "get_record d ref"; cases s) force+
      ultimately have "quietly d d' \<and> d' = d"
        using assms(4) OpChunk \<open>quietly d d'\<close> by (auto simp: note_stream_chunk_def)
      with that(1) \<open>get_record d ref = None\<close> \<open>\<not> (x \<noteq> ref \<or> s \<noteq> stream)\<close> show False by simp
    qed
    with OpChunk show ?thesis by auto
  qed simp_all
  have "tail_of (fst (spans_at d1 x)) (log x StdoutStream @ op_pushed op x StdoutStream)
      \<and> tail_of (snd (spans_at d1 x)) (log x StderrStream @ op_pushed op x StderrStream)"
    if "get_record d' x \<noteq> None" for x
    using assms(2) d1(2) none[OF that] by (simp add: traced_def quiet_def)
  with shrinks_traced[OF d1(3), of "\<lambda>ref s. log ref s @ op_pushed op ref s"] d1(1) show ?thesis by simp
qed

definition td_inv :: "ToolDataInner \<times> stream_log \<Rightarrow> bool" where
  "td_inv = (\<lambda>(d, log). good d \<and> traced d log)"

lemma td_init_inv: "td_inv (inner_default, \<lambda>_ _. [])"
  by (simp add: td_inv_def good_def store_ok_def within_budget_def inner_default_def store_size_def u64_bound_def
      traced_def spans_at_def get_record_def default_spans_def tail_of_def)

interpretation tool_data: invariant_system "\<lambda>st. st = (inner_default, \<lambda>_ _. [])" td_step td_inv
proof
  fix s t
  assume "td_inv s" "td_step s t"
  then show "td_inv t" by (cases s) (auto simp: td_inv_def elim!: td_stepE dest: td_step_traced)
qed (simp add: td_init_inv)

section \<open>The changes that calls record\<close>

text \<open>
  A file change is recorded by \<^verbatim>\<open>record_file_change\<close> for a write within the size limit of the file
  tools. The store keeps it as it was recorded, or without the bytes of its two sides once they were evicted.
\<close>

definition written_change :: "(string \<Rightarrow> string) \<Rightarrow> FileChange \<Rightarrow> bool" where
  "written_change hash_bytes c =
     (\<exists>path before bytes io target.
        validate_relative_path path = Inr () \<and> length bytes \<le> MAX_CHANGE_SNAPSHOT_BYTES
        \<and> (\<forall>b stamp steady. before = BeforeContent b stamp steady \<longrightarrow> length (fst b) \<le> MAX_CHANGE_SNAPSHOT_BYTES)
        \<and> c = observed_change hash_bytes path before bytes (atomic_write io target (expected_file_state before)))"

definition kept_change :: "(string \<Rightarrow> string) \<Rightarrow> FileChange \<Rightarrow> bool" where
  "kept_change hash_bytes c =
     (\<exists>w. written_change hash_bytes w \<and> (c = w \<or> c = w\<lparr>ch_before_bytes := None, ch_after_bytes := None\<rparr>))"

lemma kept_change_validates:
  assumes "kept_change hash_bytes c" "\<And>b. valid_sha256 (hash_bytes b)"
  shows "validate_stored_file_change (change_stored c)
    = (if ch_commit_state c = CommitConflict \<and> ch_after c = UnknownRevision then Inl Corrupt else Inr ())"
proof -
  from assms(1) obtain w path before bytes io target where w: "validate_relative_path path = Inr ()"
    "length bytes \<le> MAX_CHANGE_SNAPSHOT_BYTES"
    "\<And>b stamp steady. before = BeforeContent b stamp steady \<Longrightarrow> length (fst b) \<le> MAX_CHANGE_SNAPSHOT_BYTES"
    "w = observed_change hash_bytes path before bytes (atomic_write io target (expected_file_state before))"
    and c: "c = w \<or> c = w\<lparr>ch_before_bytes := None, ch_after_bytes := None\<rparr>"
    unfolding kept_change_def written_change_def by blast
  have "change_stored c = change_stored w" "ch_commit_state c = ch_commit_state w" "ch_after c = ch_after w"
    using c by (auto simp: change_stored_def)
  with observed_change_validates[OF w(1) assms(2) w(2,3) refl w(4)] unwritten_conflict[OF refl w(4)] show ?thesis by simp
qed

lemma kept_change_sides:
  assumes "kept_change hash_bytes c"
  shows "revision_bytes (ch_before c) \<le> MAX_CHANGE_SNAPSHOT_BYTES" "revision_bytes (ch_after c) \<le> MAX_CHANGE_SNAPSHOT_BYTES"
    and "ch_before_bytes c = Some b \<Longrightarrow> ch_before c = Content (hash_bytes (fst b)) (length (fst b))"
    and "ch_after_bytes c = Some b \<Longrightarrow> ch_after c = Content (hash_bytes (fst b)) (length (fst b))"
proof -
  from assms obtain w path before bytes ob where w: "length bytes \<le> MAX_CHANGE_SNAPSHOT_BYTES"
    "\<And>b stamp steady. before = BeforeContent b stamp steady \<Longrightarrow> length (fst b) \<le> MAX_CHANGE_SNAPSHOT_BYTES"
    "w = observed_change hash_bytes path before bytes ob"
    and c: "c = w \<or> c = w\<lparr>ch_before_bytes := None, ch_after_bytes := None\<rparr>"
    unfolding kept_change_def written_change_def by blast
  have sides: "revision_bytes (ch_before w) \<le> MAX_CHANGE_SNAPSHOT_BYTES" "revision_bytes (ch_after w) \<le> MAX_CHANGE_SNAPSHOT_BYTES"
    "\<And>b. ch_before_bytes w = Some b \<Longrightarrow> ch_before w = Content (hash_bytes (fst b)) (length (fst b))"
    "\<And>b. ch_after_bytes w = Some b \<Longrightarrow> ch_after w = Content (hash_bytes (fst b)) (length (fst b))"
    using observed_change_sides[OF w(3,1)] w(2) by blast+
  show "revision_bytes (ch_before c) \<le> MAX_CHANGE_SNAPSHOT_BYTES" "revision_bytes (ch_after c) \<le> MAX_CHANGE_SNAPSHOT_BYTES"
    using c sides(1,2) by auto
  have same: "ch_before c = ch_before w" "ch_after c = ch_after w" using c by auto
  show "ch_before_bytes c = Some b \<Longrightarrow> ch_before c = Content (hash_bytes (fst b)) (length (fst b))"
  proof -
    assume "ch_before_bytes c = Some b"
    with c have "ch_before_bytes w = Some b" by auto
    from sides(3)[OF this] show ?thesis by (simp only: same)
  qed
  show "ch_after_bytes c = Some b \<Longrightarrow> ch_after c = Content (hash_bytes (fst b)) (length (fst b))"
  proof -
    assume "ch_after_bytes c = Some b"
    with c have "ch_after_bytes w = Some b" by auto
    from sides(4)[OF this] show ?thesis by (simp only: same)
  qed
qed

definition record_changes :: "(string \<Rightarrow> string) \<Rightarrow> ToolRecord \<Rightarrow> bool" where
  "record_changes hash_bytes r = (\<forall>c. r_file_change r = Some c \<longrightarrow> kept_change hash_bytes c)"

definition changes_kept :: "(string \<Rightarrow> string) \<Rightarrow> ToolDataInner \<Rightarrow> bool" where
  "changes_kept hash_bytes d = (\<forall>ref r. get_record d ref = Some r \<longrightarrow> record_changes hash_bytes r)"

lemma kept_without_bytes:
  "kept_change hash_bytes c \<Longrightarrow> kept_change hash_bytes (c\<lparr>ch_before_bytes := None, ch_after_bytes := None\<rparr>)"
  by (auto simp: kept_change_def)

lemma same_change [simp]:
  "r_file_change (evict_input r) = r_file_change r" "r_file_change (evict_result r) = r_file_change r"
  "r_file_change (set_stream s w r) = r_file_change r" "r_file_change (evict_stream s r) = r_file_change r"
  "r_file_change (set_input name args raw r) = r_file_change r" "r_file_change (capture_result content r) = r_file_change r"
  "r_file_change (finish_stream b s r) = r_file_change r" "r_file_change (finish_record now out r) = r_file_change r"
  by (simp_all add: evict_input_def evict_result_def set_input_def capture_result_def finish_record_def Let_def case_prod_beta)
    (cases s; simp add: evict_stream_def finish_stream_def)+

lemma evicts_change: "evicts_part r size_of f \<Longrightarrow> record_changes hash_bytes r \<Longrightarrow> record_changes hash_bytes (f r)"
  by (erule evicts_part.cases) (auto simp: record_changes_def drop_change_bytes_def intro: kept_without_bytes)

lemma keptI: "(\<And>ref r. get_record d ref = Some r \<Longrightarrow> record_changes hash_bytes r) \<Longrightarrow> changes_kept hash_bytes d"
  by (simp add: changes_kept_def)

lemma kept_put:
  "changes_kept hash_bytes d \<Longrightarrow> record_changes hash_bytes r \<Longrightarrow> changes_kept hash_bytes (put_record ref r d)"
  by (simp add: changes_kept_def)

lemma kept_fields [simp]:
  "changes_kept hash_bytes (d\<lparr>td_total := n\<rparr>) = changes_kept hash_bytes d"
  "changes_kept hash_bytes (d\<lparr>td_order := ns\<rparr>) = changes_kept hash_bytes d"
  by (simp_all add: changes_kept_def)

lemma kept_modify:
  assumes "changes_kept hash_bytes d"
    and "\<And>r. get_record d ref = Some r \<Longrightarrow> record_changes hash_bytes r \<Longrightarrow> record_changes hash_bytes (f r)"
  shows "changes_kept hash_bytes (modify_record ref f d)"
  using assms by (auto simp: modify_record_def changes_kept_def split: option.split)

lemma kept_resize:
  assumes "changes_kept hash_bytes d" "resize ref f d = Some d'"
    and "\<And>r r'. record_changes hash_bytes r \<Longrightarrow> f r = Some r' \<Longrightarrow> record_changes hash_bytes r'"
  shows "changes_kept hash_bytes d'"
proof (cases "get_record d ref")
  case (Some r)
  with assms(2) obtain r' where "f r = Some r'" "d' = (put_record ref r' d)\<lparr>td_total := td_total d'\<rparr>"
    by (auto simp: resize_def bind_eq_Some_conv)
  moreover have "record_changes hash_bytes r" using assms(1) Some by (simp add: changes_kept_def)
  ultimately show ?thesis using kept_put[OF assms(1) assms(3)] by (metis kept_fields(1))
qed (use assms(1,2) in \<open>auto simp: resize_def\<close>)

lemma kept_track: "changes_kept hash_bytes d \<Longrightarrow> changes_kept hash_bytes (track ref name d)"
  by (auto simp: changes_kept_def get_track record_changes_def record_new_def split: if_splits option.splits)

lemma kept_evict:
  assumes "changes_kept hash_bytes d" "evict_some_bytes d = (b, d')"
  shows "changes_kept hash_bytes d'"
  using assms(2)
proof (cases rule: evict_some_bytes_cases)
  case (freed ref r size_of f)
  then show ?thesis using kept_modify[OF assms(1), of ref f] evicts_change by (auto simp: release_def)
qed (use assms(1) in simp)

lemma kept_oldest:
  assumes "changes_kept hash_bytes d" "remove_oldest d = (b, d')"
  shows "changes_kept hash_bytes d'"
  using assms(2)
proof (cases rule: remove_oldest_cases)
  case (victim ref)
  then show ?thesis using assms(1) by (auto simp: changes_kept_def get_record_def delete_conv' split: if_splits)
qed (use assms(1) in simp)

lemma kept_enforce_bytes: "changes_kept hash_bytes d \<Longrightarrow> changes_kept hash_bytes (enforce_bytes d)"
proof (induction d rule: enforce_bytes.induct)
  case (1 d)
  obtain b d' where e: "evict_some_bytes d = (b, d')" by fastforce
  obtain b' d'' where o': "remove_oldest d' = (b', d'')" by fastforce
  note kept = kept_evict[OF "1.prems" e] kept_oldest[OF kept_evict[OF "1.prems" e] o']
  show ?case
    by (subst enforce_bytes.simps) (use "1.IH" "1.prems" e o' kept in \<open>cases b; cases b'; auto\<close>)
qed

lemma kept_enforce_count: "changes_kept hash_bytes d \<Longrightarrow> changes_kept hash_bytes (enforce_count d)"
proof (induction d rule: enforce_count.induct)
  case (1 d)
  obtain b d' where o': "remove_oldest d = (b, d')" by fastforce
  note kept = kept_oldest[OF "1.prems" o']
  show ?case by (subst enforce_count.simps) (use "1.IH" "1.prems" o' kept in \<open>cases b; auto\<close>)
qed

lemma kept_enforce: "changes_kept hash_bytes d \<Longrightarrow> enforce_limits d = Some d' \<Longrightarrow> changes_kept hash_bytes d'"
  by (auto simp: enforce_limits_def Let_def kept_enforce_bytes kept_enforce_count split: if_splits)

lemma kept_reconcile_item:
  assumes "changes_kept hash_bytes d" "reconcile_item now session item d = Some d'"
  shows "changes_kept hash_bytes d'"
proof -
  let ?d = "modify_record (item_ref session item) (finish_record now (ti_outcome item))
    (track (item_ref session item) (ti_name item) d)"
  have "changes_kept hash_bytes ?d"
    using kept_modify[OF kept_track[OF assms(1)]] by (simp add: record_changes_def)
  then have "changes_kept hash_bytes d''"
    if "resize (item_ref session item) (\<lambda>r. Some (capture_result (ti_content item) r)) ?d = Some d''" for d''
    by (rule kept_resize[OF _ that]) (auto simp: record_changes_def)
  with assms(2) \<open>changes_kept hash_bytes ?d\<close> show ?thesis by (auto simp: reconcile_item_def Let_def split: if_splits)
qed

lemma kept_reconcile_loop:
  "changes_kept hash_bytes d \<Longrightarrow> reconcile_loop now session items d = Some d' \<Longrightarrow> changes_kept hash_bytes d'"
proof (induction now session items d rule: reconcile_loop.induct)
  case (3 now session item items d)
  from "3.prems"(2) obtain d1 where "reconcile_item now session item d = Some d1"
    "reconcile_loop now session items d1 = Some d'" by (auto simp: bind_eq_Some_conv)
  with "3.IH" kept_reconcile_item[OF "3.prems"(1)] show ?case by blast
qed auto

text \<open>
  The calls of a Session: any operation, with the changes that the file tools record. The store stays
  well formed and keeps such changes only.
\<close>

inductive call_step :: "(string \<Rightarrow> string) \<Rightarrow> ToolDataInner \<Rightarrow> ToolDataInner \<Rightarrow> bool" for hash_bytes where
  call: "op_fits d op \<Longrightarrow> (\<forall>ref c. op = OpChange ref c \<longrightarrow> written_change hash_bytes c) \<Longrightarrow> td_apply op d = Some d'
    \<Longrightarrow> call_step hash_bytes d d'"

lemma kept_resize_enforce:
  assumes "changes_kept hash_bytes d" "Option.bind (resize ref f d) enforce_limits = Some d'"
    and "\<And>r r'. record_changes hash_bytes r \<Longrightarrow> f r = Some r' \<Longrightarrow> record_changes hash_bytes r'"
  shows "changes_kept hash_bytes d'"
proof -
  from assms(2) obtain d1 where d1: "resize ref f d = Some d1" "enforce_limits d1 = Some d'"
    by (auto simp: bind_eq_Some_conv)
  have "changes_kept hash_bytes d1" by (rule kept_resize[OF assms(1) d1(1)]) (fact assms(3))
  with d1(2) show ?thesis by (rule kept_enforce[rotated])
qed

lemma chunk_keeps:
  assumes "changes_kept hash_bytes d" "note_stream_chunk slack ref stream chunk d = Some (n, d')"
  shows "changes_kept hash_bytes d'"
proof (cases "get_record d ref")
  case (Some r)
  with assms(2) obtain d1 where d1: "resize ref (push_stream slack stream chunk) d = Some d1"
    "d' = d1 \<or> enforce_limits d1 = Some d'"
    by (auto simp: note_stream_chunk_def bind_eq_Some_conv split: option.splits)
  have "changes_kept hash_bytes d1"
    by (rule kept_resize[OF assms(1) d1(1)]) (auto simp: push_stream_def record_changes_def split: option.splits)
  with d1(2) kept_enforce show ?thesis by blast
qed (use assms in \<open>simp add: note_stream_chunk_def\<close>)

lemma op_keeps:
  assumes kept: "changes_kept hash_bytes d" and run: "td_apply op d = Some d'"
    and change: "\<And>ref c. op = OpChange ref c \<Longrightarrow> written_change hash_bytes c"
  shows "changes_kept hash_bytes d'"
proof -
  note modify = kept_modify[OF kept] and resize = kept_resize_enforce[OF kept]
  show ?thesis
  proof (cases op)
    case (OpRequested ref name)
    with run show ?thesis by (auto simp: note_requested_def intro: kept_enforce kept_track[OF kept])
  next
    case (OpInvocation ref name args raw)
    with run have "Option.bind (resize ref (\<lambda>r. Some (set_input name args raw r)) (track ref name d)) enforce_limits = Some d'"
      by (auto simp: note_invocation_def Let_def bind_eq_Some_conv)
    then show ?thesis by (rule kept_resize_enforce[OF kept_track[OF kept]]) (auto simp: record_changes_def)
  next
    case (OpResult ref content)
    with run show ?thesis by (auto simp: note_result_def record_changes_def intro: resize)
  next
    case (OpChunk slack ref stream chunk)
    with run chunk_keeps[OF kept] show ?thesis by auto
  next
    case (OpEnd ref stream)
    with run show ?thesis by (auto simp: note_stream_end_def record_changes_def intro: kept_resize[OF kept])
  next
    case (OpCut ref stream)
    with run show ?thesis by (auto simp: note_stream_cut_def record_changes_def intro: kept_resize[OF kept])
  next
    case (OpCommand ref cmd)
    with run have "d' = d \<or> Option.bind (resize ref (\<lambda>r. Some (r\<lparr>r_command := Some cmd\<rparr>)) d) enforce_limits = Some d'"
      by (auto simp: note_command_def bind_eq_Some_conv split: if_splits)
    with kept show ?thesis by (auto simp: record_changes_def intro: resize)
  next
    case (OpChange ref c)
    with change have "kept_change hash_bytes c" by (auto simp: kept_change_def)
    with run OpChange show ?thesis by (auto simp: note_file_change_def record_changes_def intro: resize)
  next
    case (OpReconcile now session items)
    with run show ?thesis
      by (auto simp: reconcile_def bind_eq_Some_conv intro: kept_enforce kept_reconcile_loop[OF kept])
  qed (use run kept in \<open>auto simp: mark_awaiting_policy_def mark_running_def note_phase_def mark_cancelling_def
      note_recording_def finish_and_snapshot_def record_changes_def Let_def split: option.splits intro!: modify\<close>)
qed

lemma op_good: "good d \<Longrightarrow> op_fits d op \<Longrightarrow> td_apply op d = Some d' \<Longrightarrow> good d'"
proof (cases "\<exists>slack ref stream chunk r w. op = OpChunk slack ref stream chunk \<and> get_record d ref = Some r
    \<and> record_stream r stream = Some w")
  case True
  assume "good d" "op_fits d op" "td_apply op d = Some d'"
  with True chunk_ok[of d] show ?thesis by fastforce
next
  case False
  assume "good d" "op_fits d op" "td_apply op d = Some d'"
  with False quiet_op[of d op] show ?thesis by (fastforce simp: quietly_def)
qed

interpretation tool_calls: invariant_system "\<lambda>d. d = inner_default" "call_step hash_bytes"
  "\<lambda>d. good d \<and> changes_kept hash_bytes d" for hash_bytes
proof
  fix d d'
  assume "good d \<and> changes_kept hash_bytes d" "call_step hash_bytes d d'"
  then show "good d' \<and> changes_kept hash_bytes d'" by (auto elim!: call_step.cases intro: op_good op_keeps)
qed (use td_init_inv in \<open>simp add: td_inv_def changes_kept_def inner_default_def get_record_def\<close>)

section \<open>Persistence\<close>

lemma window_snapshot_ok:
  assumes "stream_window_ok w" "\<And>b. valid_sha256 (hash_bytes b)" "window_snapshot hash_bytes w = (sw, blob)"
  shows "validate_stream sw = Inr () \<and> blob_digest_ok (name, sw_file_bytes sw, sw_sha256 sw)
    \<and> sw_start sw = w_start w \<and> sw_end sw = w_end w \<and> sw_file_bytes sw = length (w_bytes w)
    \<and> read_blob hash_bytes blob (sw_file_bytes sw) (sw_sha256 sw) = Some (blob, False)"
proof -
  have small: "sat_add (length (w_bytes w)) 1 = Suc (length (w_bytes w))"
    using assms(1) by (simp add: stream_window_ok_def sat_add_def MAX_TOOL_STREAM_BYTES_def u64_bound_def)
  have blob: "snapshot_blob hash_bytes (w_bytes w) (w_expired w)
      = (if w_bytes w = [] then (None, 0, None) else (Some (w_bytes w), length (w_bytes w), Some (hash_bytes (w_bytes w))))"
    using assms(1) by (auto simp: snapshot_blob_def stream_window_ok_def)
  show ?thesis
  proof (cases "w_bytes w = []")
    case True
    with assms(3) blob have "sw = \<lparr>sw_start = w_start w, sw_end = w_end w, sw_seen = w_seen w, sw_complete = w_complete w,
        sw_truncated = w_truncated w, sw_expired = w_expired w, sw_file_bytes = 0, sw_sha256 = None\<rparr>" "blob = None"
      by (simp_all add: window_snapshot_def)
    with True assms(1) show ?thesis by (auto simp: validate_stream_ok blob_digest_ok_def read_blob_def stream_window_ok_def)
  next
    case False
    with assms(3) blob have "sw = \<lparr>sw_start = w_start w, sw_end = w_end w, sw_seen = w_seen w, sw_complete = w_complete w,
        sw_truncated = w_truncated w, sw_expired = w_expired w, sw_file_bytes = length (w_bytes w),
        sw_sha256 = Some (hash_bytes (w_bytes w))\<rparr>" "blob = Some (w_bytes w)"
      by (simp_all add: window_snapshot_def)
    with False assms(1,2) small show ?thesis
      by (auto simp: validate_stream_ok blob_digest_ok_def read_blob_def stream_window_ok_def Let_def)
  qed
qed

lemma text_snapshot_ok:
  assumes "text_ok cap t len seen expired" "\<And>b. valid_sha256 (hash_bytes b)" "cap < 2 ^ 32"
    and "snapshot_blob hash_bytes t expired = (blob, n, sha)"
  shows "validate_summary \<lparr>su_total = len, su_seen = seen, su_truncated = trunc, su_expired = expired, su_file_bytes = n,
      su_sha256 = sha\<rparr> cap = Inr () \<and> blob_digest_ok (name, n, sha) \<and> n = length t
    \<and> read_blob hash_bytes blob n sha = Some (blob, False)"
proof -
  have "snapshot_blob hash_bytes t expired = (if t = [] then (None, 0, None) else (Some t, length t, Some (hash_bytes t)))"
    using assms(1) by (auto simp: snapshot_blob_def text_ok_def)
  moreover have "sat_add (length t) 1 = Suc (length t)"
    using assms(1,3) by (simp add: text_ok_def sat_add_def u64_bound_def)
  ultimately show ?thesis
    using assms by (cases "t = []")
      (auto simp: validate_summary_ok blob_digest_ok_def read_blob_def text_ok_def Let_def)
qed

lemma same_limits:
  "MAX_TOOL_INPUT_BYTES = MAX_TOOL_INPUT_PERSIST_BYTES" "MAX_TOOL_RESULT_BYTES = MAX_TOOL_RESULT_PERSIST_BYTES"
  "MAX_TOOL_INPUT_BYTES < 2 ^ 32" "MAX_TOOL_RESULT_BYTES < 2 ^ 32"
  by (simp_all add: MAX_TOOL_INPUT_BYTES_def MAX_TOOL_INPUT_PERSIST_BYTES_def MAX_TOOL_RESULT_BYTES_def
      MAX_TOOL_RESULT_PERSIST_BYTES_def)

lemma outcome_matches: "outcome_ok (Some out) st \<Longrightarrow> matches_outcome st out"
  by (cases out) (simp_all add: outcome_ok_def)

lemma snapshot_parts:
  assumes "get_record d ref = Some r" "record_is_terminal r"
  obtains ib inb ih rb rn rh ow ob ew eb snap where
    "snapshot_blob hash_bytes (r_input r) (r_input_expired r) = (ib, inb, ih)"
    "snapshot_blob hash_bytes (r_result r) (r_result_expired r) = (rb, rn, rh)"
    "window_snapshot hash_bytes (r_stdout r) = (ow, ob)" "window_snapshot hash_bytes (r_stderr r) = (ew, eb)"
    "snapshot_for_persistence hash_bytes d ref = Some snap"
    "sn_input snap = ib" "sn_result snap = rb" "sn_stdout snap = ob" "sn_stderr snap = eb"
    "sn_before snap = map_option fst (Option.bind (r_file_change r) ch_before_bytes)"
    "sn_after snap = map_option fst (Option.bind (r_file_change r) ch_after_bytes)"
    "sn_record snap = \<lparr>st_version = TOOL_RECORD_FORMAT_VERSION, st_ref = ref, st_name = r_name r,
              st_subject = r_subject r, st_subject_truncated = r_subject_truncated r, st_state = r_state r,
              st_phase = r_phase r, st_started_at = r_started_at r, st_finished_at = r_finished_at r,
              st_outcome = r_outcome r,
              st_input = \<lparr>su_total = r_input_total r, su_seen = r_input_seen r, su_truncated = r_input_truncated r,
                su_expired = r_input_expired r, su_file_bytes = inb, su_sha256 = ih\<rparr>,
              st_result = \<lparr>su_total = r_result_total r, su_seen = r_result_seen r, su_truncated = r_result_truncated r,
                su_expired = r_result_expired r, su_file_bytes = rn, su_sha256 = rh\<rparr>,
              st_stdout = ow, st_stderr = ew,
              st_command = map_option (live_command r) (r_command r),
              st_file_change = map_option change_stored (r_file_change r)\<rparr>"
proof -
  obtain ib inb ih where i: "snapshot_blob hash_bytes (r_input r) (r_input_expired r) = (ib, inb, ih)" by (metis prod_cases3)
  obtain rb rn rh where rr: "snapshot_blob hash_bytes (r_result r) (r_result_expired r) = (rb, rn, rh)" by (metis prod_cases3)
  obtain ow ob where o': "window_snapshot hash_bytes (r_stdout r) = (ow, ob)" by fastforce
  obtain ew eb where e: "window_snapshot hash_bytes (r_stderr r) = (ew, eb)" by fastforce
  obtain snap where snap: "snapshot_for_persistence hash_bytes d ref = Some snap"
    using assms by (simp add: snapshot_for_persistence_def i rr o' e)
  show ?thesis
    by (rule that[OF i rr o' e snap])
      (use snap assms in \<open>simp_all add: snapshot_for_persistence_def i rr o' e\<close>, (drule sym, simp)+)
qed

text \<open>What the files of a record take together.\<close>

definition stored_size :: "ToolRecord \<Rightarrow> nat" where
  "stored_size r = length (r_input r) + length (r_result r) + length (w_bytes (r_stdout r)) + length (w_bytes (r_stderr r))
     + (case r_file_change r of None \<Rightarrow> 0 | Some c \<Rightarrow> revision_bytes (ch_before c) + revision_bytes (ch_after c))"

lemma stored_size_fits:
  assumes "record_ok r"
    and "\<And>c. r_file_change r = Some c \<Longrightarrow>
      revision_bytes (ch_before c) \<le> MAX_CHANGE_SNAPSHOT_BYTES \<and> revision_bytes (ch_after c) \<le> MAX_CHANGE_SNAPSHOT_BYTES"
    and "r_file_change r = None \<or> w_bytes (r_stdout r) = [] \<and> w_bytes (r_stderr r) = []"
  shows "stored_size r \<le> MAX_RECORD_BLOB_BYTES"
proof -
  have "length (r_input r) \<le> MAX_TOOL_INPUT_BYTES" "length (r_result r) \<le> MAX_TOOL_RESULT_BYTES"
    "length (w_bytes (r_stdout r)) \<le> MAX_TOOL_STREAM_BYTES" "length (w_bytes (r_stderr r)) \<le> MAX_TOOL_STREAM_BYTES"
    using assms(1) by (simp_all add: record_ok_def text_ok_def stream_window_ok_def)
  then show ?thesis
    using assms(2,3) by (cases "r_file_change r") (auto simp: stored_size_def MAX_TOOL_INPUT_BYTES_def MAX_TOOL_RESULT_BYTES_def
        MAX_TOOL_STREAM_BYTES_def MAX_CHANGE_SNAPSHOT_BYTES_def MAX_RECORD_BLOB_BYTES_def)
qed

lemma total_min:
  "total_file_bytes s = min (su_file_bytes (st_input s) + su_file_bytes (st_result s) + sw_file_bytes (st_stdout s)
     + sw_file_bytes (st_stderr s) + (case st_file_change s of None \<Rightarrow> 0
        | Some c \<Rightarrow> revision_bytes (fc_before c) + revision_bytes (fc_after c))) (u64_bound - 1)"
proof -
  have "min (min a N + b) N = min (a + b) N" "min (a + min b N) N = min (a + b) N" for a b N :: nat by linarith+
  then show ?thesis by (cases "st_file_change s") (simp_all add: total_file_bytes_def change_bytes_def sat_add_def)
qed

lemma total_too_large:
  "MAX_RECORD_BLOB_BYTES < total_file_bytes s \<longleftrightarrow>
   MAX_RECORD_BLOB_BYTES < su_file_bytes (st_input s) + su_file_bytes (st_result s) + sw_file_bytes (st_stdout s)
     + sw_file_bytes (st_stderr s) + (case st_file_change s of None \<Rightarrow> 0
        | Some c \<Rightarrow> revision_bytes (fc_before c) + revision_bytes (fc_after c))"
  unfolding total_min using blob_limit by (simp only: min_less_iff_conj simp_thms)

text \<open>The snapshot of a finished call, the answer of the validation and what reading its blobs gives.\<close>

definition reads_back :: "(string \<Rightarrow> string) \<Rightarrow> ToolPersistenceSnapshot \<Rightarrow> bool" where
  "reads_back hash_bytes snap =
     (list_all2 (\<lambda>(name, blob) (name', bytes, sha). name = name' \<and> read_blob hash_bytes blob bytes sha = Some (blob, False))
        (take 4 (blobs snap)) (stored_blobs (sn_record snap))
      \<and> (case st_file_change (sn_record snap) of
           None \<Rightarrow> sn_before snap = None \<and> sn_after snap = None
         | Some c \<Rightarrow>
             read_change_blob hash_bytes (sn_before snap) (fc_before c)
               = (sn_before snap, sn_before snap = None \<and> (\<exists>sha n. fc_before c = Content sha n))
           \<and> read_change_blob hash_bytes (sn_after snap) (fc_after c)
               = (sn_after snap, sn_after snap = None \<and> (\<exists>sha n. fc_after c = Content sha n))))"

lemma change_blob_reads:
  assumes "\<And>b. blob = Some b \<Longrightarrow> revn = Content (hash_bytes b) (length b)" "revision_bytes revn \<le> MAX_CHANGE_SNAPSHOT_BYTES"
    and "\<And>b. valid_sha256 (hash_bytes b)"
  shows "read_change_blob hash_bytes blob revn = (blob, blob = None \<and> (\<exists>sha n. revn = Content sha n))"
proof (cases blob)
  case None
  then show ?thesis by (cases revn) (simp_all add: read_change_blob_def)
next
  case (Some b)
  with assms(1) have "revn = Content (hash_bytes b) (length b)" by simp
  moreover from this assms(2) have "sat_add (length b) 1 = Suc (length b)" "length b \<le> MAX_CHANGE_SNAPSHOT_BYTES"
    by (simp_all add: sat_add_def MAX_CHANGE_SNAPSHOT_BYTES_def u64_bound_def)
  ultimately show ?thesis using Some assms(3) by (simp add: read_change_blob_def Let_def)
qed

lemma snapshot_validates:
  assumes "record_ok r" "get_record d ref = Some r" "record_is_terminal r" "r_name r \<in> set KNOWN_TOOL_NAMES"
    and hash: "\<And>b. valid_sha256 (hash_bytes b)"
  shows "\<exists>snap. snapshot_for_persistence hash_bytes d ref = Some snap
    \<and> validate_stored_tool_record (sn_record snap) ref =
        (if MAX_RECORD_BLOB_BYTES < stored_size r then Inl RecordTooLarge
         else case r_file_change r of None \<Rightarrow> Inr () | Some c \<Rightarrow> validate_stored_file_change (change_stored c))
    \<and> list_all2 (\<lambda>(name, blob) (name', bytes, sha). name = name' \<and> read_blob hash_bytes blob bytes sha = Some (blob, False))
        (take 4 (blobs snap)) (stored_blobs (sn_record snap))
    \<and> st_file_change (sn_record snap) = map_option change_stored (r_file_change r)
    \<and> sn_before snap = map_option fst (Option.bind (r_file_change r) ch_before_bytes)
    \<and> sn_after snap = map_option fst (Option.bind (r_file_change r) ch_after_bytes)"
proof -
  from assms(2,3) obtain ib inb ih rb rn rh ow ob ew eb snap where parts:
    "snapshot_blob hash_bytes (r_input r) (r_input_expired r) = (ib, inb, ih)"
    "snapshot_blob hash_bytes (r_result r) (r_result_expired r) = (rb, rn, rh)"
    "window_snapshot hash_bytes (r_stdout r) = (ow, ob)" "window_snapshot hash_bytes (r_stderr r) = (ew, eb)"
    and snap: "snapshot_for_persistence hash_bytes d ref = Some snap"
    "sn_input snap = ib" "sn_result snap = rb" "sn_stdout snap = ob" "sn_stderr snap = eb"
    "sn_before snap = map_option fst (Option.bind (r_file_change r) ch_before_bytes)"
    "sn_after snap = map_option fst (Option.bind (r_file_change r) ch_after_bytes)"
    "sn_record snap = \<lparr>st_version = TOOL_RECORD_FORMAT_VERSION, st_ref = ref, st_name = r_name r,
              st_subject = r_subject r, st_subject_truncated = r_subject_truncated r, st_state = r_state r,
              st_phase = r_phase r, st_started_at = r_started_at r, st_finished_at = r_finished_at r,
              st_outcome = r_outcome r,
              st_input = \<lparr>su_total = r_input_total r, su_seen = r_input_seen r, su_truncated = r_input_truncated r,
                su_expired = r_input_expired r, su_file_bytes = inb, su_sha256 = ih\<rparr>,
              st_result = \<lparr>su_total = r_result_total r, su_seen = r_result_seen r, su_truncated = r_result_truncated r,
                su_expired = r_result_expired r, su_file_bytes = rn, su_sha256 = rh\<rparr>,
              st_stdout = ow, st_stderr = ew,
              st_command = map_option (live_command r) (r_command r),
              st_file_change = map_option change_stored (r_file_change r)\<rparr>"
    by (rule snapshot_parts)
  have ok: "text_ok MAX_TOOL_INPUT_BYTES (r_input r) (r_input_total r) (r_input_seen r) (r_input_expired r)"
    "text_ok MAX_TOOL_RESULT_BYTES (r_result r) (r_result_total r) (r_result_seen r) (r_result_expired r)"
    "stream_window_ok (r_stdout r)" "stream_window_ok (r_stderr r)" "outcome_ok (r_outcome r) (r_state r)"
    using assms(1) by (simp_all add: record_ok_def)
  note texts = text_snapshot_ok[OF ok(1) hash same_limits(3) parts(1)] text_snapshot_ok[OF ok(2) hash same_limits(4) parts(2)]
  note windows = window_snapshot_ok[OF ok(3) hash parts(3)] window_snapshot_ok[OF ok(4) hash parts(4)]
  have digests: "list_all blob_digest_ok (stored_blobs (sn_record snap))"
    using texts[THEN conjunct2, THEN conjunct1] windows[THEN conjunct2, THEN conjunct1]
    by (simp add: stored_blobs_def snap(8))
  have size: "MAX_RECORD_BLOB_BYTES < total_file_bytes (sn_record snap) \<longleftrightarrow> MAX_RECORD_BLOB_BYTES < stored_size r"
    unfolding total_too_large using texts windows
    by (cases "r_file_change r") (simp_all add: snap(8) stored_size_def change_stored_def)
  have cmd: "validate_command (sn_record snap) = Inr ()"
    using assms(3) windows
    by (auto simp: validate_command_def snap(8) record_is_terminal_def live_command_def live_range_def split: option.splits)
  have outc: "r_outcome r = Some out \<Longrightarrow> matches_outcome (r_state r) out" for out
    using ok(5) outcome_matches by simp
  have valid: "validate_stored_tool_record (sn_record snap) ref =
        (if MAX_RECORD_BLOB_BYTES < stored_size r then Inl RecordTooLarge
         else case r_file_change r of None \<Rightarrow> Inr () | Some c \<Rightarrow> validate_stored_file_change (change_stored c))"
    unfolding validate_stored_tool_record_def cmd size
    using assms(3,4) outc digests texts[THEN conjunct1] windows[THEN conjunct1] same_limits(1,2)
    by (cases "r_outcome r"; cases "r_file_change r") (simp_all add: snap(8) record_is_terminal_def)
  have "list_all2 (\<lambda>(name, blob) (name', bytes, sha). name = name' \<and> read_blob hash_bytes blob bytes sha = Some (blob, False))
        (take 4 (blobs snap)) (stored_blobs (sn_record snap))"
    using texts[THEN conjunct2, THEN conjunct2, THEN conjunct2]
      windows[THEN conjunct2, THEN conjunct2, THEN conjunct2, THEN conjunct2, THEN conjunct2] snap(2-5)
    by (simp add: blobs_def stored_blobs_def snap(8))
  with valid snap(1,6-8) show ?thesis by (intro exI[of _ snap]) simp
qed

lemma snapshot_valid:
  assumes "record_ok r" "get_record d ref = Some r" "record_is_terminal r" "r_name r \<in> set KNOWN_TOOL_NAMES"
    and hash: "\<And>b. valid_sha256 (hash_bytes b)"
    and change: "record_changes hash_bytes r"
  shows "\<exists>snap. snapshot_for_persistence hash_bytes d ref = Some snap
    \<and> validate_stored_tool_record (sn_record snap) ref =
        (if MAX_RECORD_BLOB_BYTES < stored_size r then Inl RecordTooLarge
         else case r_file_change r of None \<Rightarrow> Inr () | Some c \<Rightarrow> validate_stored_file_change (change_stored c))
    \<and> reads_back hash_bytes snap"
proof -
  from snapshot_validates[OF assms(1-4), of hash_bytes, OF hash] obtain snap where snap: "snapshot_for_persistence hash_bytes d ref = Some snap"
    "validate_stored_tool_record (sn_record snap) ref =
        (if MAX_RECORD_BLOB_BYTES < stored_size r then Inl RecordTooLarge
         else case r_file_change r of None \<Rightarrow> Inr () | Some c \<Rightarrow> validate_stored_file_change (change_stored c))"
    "list_all2 (\<lambda>(name, blob) (name', bytes, sha). name = name' \<and> read_blob hash_bytes blob bytes sha = Some (blob, False))
        (take 4 (blobs snap)) (stored_blobs (sn_record snap))"
    "st_file_change (sn_record snap) = map_option change_stored (r_file_change r)"
    "sn_before snap = map_option fst (Option.bind (r_file_change r) ch_before_bytes)"
    "sn_after snap = map_option fst (Option.bind (r_file_change r) ch_after_bytes)" by blast
  have "read_change_blob hash_bytes (sn_before snap) (ch_before c)
        = (sn_before snap, sn_before snap = None \<and> (\<exists>sha n. ch_before c = Content sha n))
      \<and> read_change_blob hash_bytes (sn_after snap) (ch_after c)
        = (sn_after snap, sn_after snap = None \<and> (\<exists>sha n. ch_after c = Content sha n))" if c: "r_file_change r = Some c" for c
  proof -
    from change c have kept: "kept_change hash_bytes c" by (simp add: record_changes_def)
    note sides = kept_change_sides[OF kept]
    have b: "ch_before c = Content (hash_bytes b) (length b)" if "sn_before snap = Some b" for b
      using that c by (auto simp: snap(5) dest: sides(3))
    have a: "ch_after c = Content (hash_bytes b) (length b)" if "sn_after snap = Some b" for b
      using that c by (auto simp: snap(6) dest: sides(4))
    show ?thesis
      by (rule conjI; rule change_blob_reads) (fact b sides(1) hash a sides(2))+
  qed
  with snap(3-6) have "reads_back hash_bytes snap"
    by (cases "r_file_change r") (simp_all add: reads_back_def change_stored_def)
  with snap(1,2) show ?thesis by blast
qed

lemma revision_bytes_le:
  assumes "validate_stored_file_change c = Inr ()"
  shows "revision_bytes (fc_before c) \<le> MAX_CHANGE_SNAPSHOT_BYTES" "revision_bytes (fc_after c) \<le> MAX_CHANGE_SNAPSHOT_BYTES"
proof -
  show "revision_bytes (fc_before c) \<le> MAX_CHANGE_SNAPSHOT_BYTES"
    using validated_change_blobs(1)[OF assms] by (cases "fc_before c") simp_all
  show "revision_bytes (fc_after c) \<le> MAX_CHANGE_SNAPSHOT_BYTES"
    using validated_change_blobs(2)[OF assms] by (cases "fc_after c") simp_all
qed

text \<open>A record whose change, if any, is storable and belongs to a call without process output.\<close>

lemma snapshot_storable:
  assumes "record_ok r" "get_record d ref = Some r" "record_is_terminal r" "r_name r \<in> set KNOWN_TOOL_NAMES"
    and hash: "\<And>b. valid_sha256 (hash_bytes b)"
    and change: "\<And>c. r_file_change r = Some c \<Longrightarrow>
      validate_stored_file_change (change_stored c) = Inr () \<and> \<not> w_seen (r_stdout r) \<and> \<not> w_seen (r_stderr r)"
  shows "\<exists>snap. snapshot_for_persistence hash_bytes d ref = Some snap
    \<and> validate_stored_tool_record (sn_record snap) ref = Inr ()
    \<and> list_all2 (\<lambda>(name, blob) (name', bytes, sha). name = name' \<and> read_blob hash_bytes blob bytes sha = Some (blob, False))
        (take 4 (blobs snap)) (stored_blobs (sn_record snap))"
proof -
  have "w_bytes (r_stdout r) = []" "w_bytes (r_stderr r) = []" if "r_file_change r = Some c" for c
    using change[OF that] assms(1) by (auto simp: record_ok_def stream_window_ok_def)
  moreover have "revision_bytes (ch_before c) \<le> MAX_CHANGE_SNAPSHOT_BYTES \<and> revision_bytes (ch_after c) \<le> MAX_CHANGE_SNAPSHOT_BYTES"
    if "r_file_change r = Some c" for c
    using revision_bytes_le[of "change_stored c"] change[OF that] by (simp add: change_stored_def)
  ultimately have "stored_size r \<le> MAX_RECORD_BLOB_BYTES"
    by (intro stored_size_fits[OF assms(1)]) (cases "r_file_change r"; blast)+
  with snapshot_validates[OF assms(1-4), of hash_bytes, OF hash] change show ?thesis by (cases "r_file_change r") auto
qed

section \<open>Properties\<close>

lemma reached:
  assumes "td_step\<^sup>*\<^sup>* (inner_default, \<lambda>_ _. []) (d, log)"
  shows "store_ok d" "within_budget d" "traced d log"
  using tool_data.reachable_inv[OF refl assms] by (simp_all add: td_inv_def good_def)

text \<open>C9: Whatever operations run on the tool data of a Session, in any order and with any allocator slack, no
  operation panics (so the debug assertion on the byte accounting always holds), the byte counter is exactly
  the sum of what the records hold, it stays within eight mebibytes and the records within 1024, the
  eviction order lists every record once, and a call is in a terminal state exactly when an
  outcome is recorded, which is then the one the state stands for.\<close>

theorem tool_data_accounting_exact:
  assumes "td_step\<^sup>*\<^sup>* (inner_default, \<lambda>_ _. []) (d, log)"
  shows "td_total d = sum_list (map (\<lambda>(ref, r). record_size r) (td_records d))
    \<and> td_total d \<le> 8 * 1024 * 1024 \<and> length (td_records d) \<le> 1024
    \<and> distinct (td_order d) \<and> set (td_order d) = fst ` set (td_records d)
    \<and> (\<forall>ref r. get_record d ref = Some r \<longrightarrow>
        (state_is_terminal (r_state r) \<longleftrightarrow> r_outcome r \<noteq> None)
        \<and> (\<forall>out. r_outcome r = Some out \<longrightarrow> r_state r = from_outcome out))
    \<and> (\<forall>op. op_fits d op \<longrightarrow> (\<exists>d'. td_apply op d = Some d'))"
proof -
  note inv = reached[OF assms]
  have good: "good d" using inv by (simp add: good_def)
  have "\<exists>d'. td_apply op d = Some d'" if "op_fits d op" for op
  proof (cases "\<exists>slack ref stream chunk r w. op = OpChunk slack ref stream chunk \<and> get_record d ref = Some r
      \<and> record_stream r stream = Some w")
    case True
    with chunk_ok[OF good] that show ?thesis by fastforce
  next
    case False
    with quiet_op[OF good that] show ?thesis by blast
  qed
  moreover have "(state_is_terminal (r_state r) \<longleftrightarrow> r_outcome r \<noteq> None)
      \<and> (\<forall>out. r_outcome r = Some out \<longrightarrow> r_state r = from_outcome out)" if "get_record d ref = Some r" for ref r
    using store_record_ok[OF inv(1) that] from_outcome_terminal
    by (cases "r_outcome r") (auto simp: record_ok_def outcome_ok_def)
  ultimately show ?thesis
    using inv(1,2)
    by (simp add: store_ok_def store_size_def within_budget_def MAX_TOOL_TOTAL_BYTES_def MAX_TOOL_RECORDS_def)
qed

text \<open>C10: The window of a process stream always shows the end of what the process wrote. In every reachable state
  its observed end is the number of bytes pushed since the record was created, its bytes are exactly
  those from its start offset on, at most one mebibyte is kept, an expired window is empty, and a window
  that is not marked truncated holds every byte; pushes, evictions under the budget and ends of
  streams may interleave in any way.\<close>

theorem stream_window_shows_tail:
  assumes "td_step\<^sup>*\<^sup>* (inner_default, \<lambda>_ _. []) (d, log)"
    and "get_record d ref = Some r" "record_stream r s = Some w"
  shows "w_end w = length (log ref s) \<and> w_start w \<le> w_end w \<and> w_bytes w = drop (w_start w) (log ref s)
    \<and> length (w_bytes w) \<le> 1024 * 1024 \<and> (w_expired w \<longrightarrow> w_bytes w = [])
    \<and> (\<not> w_truncated w \<longrightarrow> w_bytes w = log ref s)"
proof -
  note inv = reached[OF assms(1)]
  have "stream_window_ok w" using store_record_ok[OF inv(1) assms(2)] assms(3) by (cases s) (auto simp: record_ok_def)
  moreover have "tail_of (span w) (log ref s)"
    using inv(3)[unfolded traced_def, THEN spec, of ref] assms(2,3) by (cases s) (auto simp: spans_at_def spans_def)
  ultimately show ?thesis
    by (auto simp: tail_of_def span_def stream_window_ok_def MAX_TOOL_STREAM_BYTES_def)
qed

text \<open>C17: When a finished tool call can be stored, and what reads back. In any store that the calls of a Session
  reach, where every file change was recorded by a write within the size limit of the file tools (with hexadecimal
  SHA-256 digests), the snapshot of a terminal record of a known tool passes the validation of stored
  records, however much of it was evicted, with exactly two exceptions: its files together exceed three mebibytes, which needs a
  file change and process output in the same call, or its file change is a conflict that was recorded
  before the rename. Of the six blobs, input, result and both streams read back from their own bytes as
  intact; the two sides of a file change read back as the bytes of the snapshot, and when these were
  evicted the reader reports the side as damaged instead of showing other bytes.\<close>

theorem finished_record_is_storable:
  assumes "(call_step hash_bytes)\<^sup>*\<^sup>* inner_default d"
    and "get_record d ref = Some r" "record_is_terminal r" "r_name r \<in> set KNOWN_TOOL_NAMES"
    and "\<And>b. valid_sha256 (hash_bytes b)"
  shows "\<exists>snap. snapshot_for_persistence hash_bytes d ref = Some snap
    \<and> validate_stored_tool_record (sn_record snap) ref =
        (if MAX_RECORD_BLOB_BYTES < stored_size r then Inl RecordTooLarge
         else if \<exists>c. r_file_change r = Some c \<and> ch_commit_state c = CommitConflict \<and> ch_after c = UnknownRevision
         then Inl Corrupt else Inr ())
    \<and> (r_file_change r = None \<or> w_bytes (r_stdout r) = [] \<and> w_bytes (r_stderr r) = [] \<longrightarrow>
        stored_size r \<le> MAX_RECORD_BLOB_BYTES)
    \<and> list_all2 (\<lambda>(name, blob) (name', bytes, sha). name = name' \<and> read_blob hash_bytes blob bytes sha = Some (blob, False))
        (take 4 (blobs snap)) (stored_blobs (sn_record snap))
    \<and> drop 4 (blobs snap) = [(TOOL_BEFORE_FILE, sn_before snap), (TOOL_AFTER_FILE, sn_after snap)]
    \<and> (case r_file_change r of
         None \<Rightarrow> sn_before snap = None \<and> sn_after snap = None
       | Some c \<Rightarrow>
           st_file_change (sn_record snap) = Some (change_stored c)
         \<and> sn_before snap = map_option fst (ch_before_bytes c) \<and> sn_after snap = map_option fst (ch_after_bytes c)
         \<and> read_change_blob hash_bytes (sn_before snap) (ch_before c)
             = (sn_before snap, sn_before snap = None \<and> (\<exists>sha n. ch_before c = Content sha n))
         \<and> read_change_blob hash_bytes (sn_after snap) (ch_after c)
             = (sn_after snap, sn_after snap = None \<and> (\<exists>sha n. ch_after c = Content sha n)))"
proof -
  have inv: "good d" "changes_kept hash_bytes d" using tool_calls.reachable_inv[OF refl assms(1)] by simp_all
  have ok: "record_ok r" using store_record_ok[OF _ assms(2)] inv(1) by (simp add: good_def)
  have changes: "record_changes hash_bytes r" using inv(2) assms(2) by (simp add: changes_kept_def)
  from snapshot_valid[OF ok assms(2-5) changes] obtain snap where
    snap: "snapshot_for_persistence hash_bytes d ref = Some snap"
    "validate_stored_tool_record (sn_record snap) ref =
        (if MAX_RECORD_BLOB_BYTES < stored_size r then Inl RecordTooLarge
         else case r_file_change r of None \<Rightarrow> Inr () | Some c \<Rightarrow> validate_stored_file_change (change_stored c))"
    "reads_back hash_bytes snap" by blast
  have parts: "st_file_change (sn_record snap) = map_option change_stored (r_file_change r)"
    "sn_before snap = map_option fst (Option.bind (r_file_change r) ch_before_bytes)"
    "sn_after snap = map_option fst (Option.bind (r_file_change r) ch_after_bytes)"
    by (rule snapshot_parts[OF assms(2,3), of hash_bytes], use snap(1) in simp)+
  have "(case r_file_change r of None \<Rightarrow> Inr () | Some c \<Rightarrow> validate_stored_file_change (change_stored c))
      = (if \<exists>c. r_file_change r = Some c \<and> ch_commit_state c = CommitConflict \<and> ch_after c = UnknownRevision
         then Inl Corrupt else Inr ())"
    using kept_change_validates[OF _ assms(5)] changes by (auto simp: record_changes_def split: option.split)
  moreover have "stored_size r \<le> MAX_RECORD_BLOB_BYTES"
    if "r_file_change r = None \<or> w_bytes (r_stdout r) = [] \<and> w_bytes (r_stderr r) = []"
    by (rule stored_size_fits[OF ok _ that]) (use changes kept_change_sides(1,2) in \<open>auto simp: record_changes_def\<close>)
  ultimately show ?thesis using snap parts
    by (cases "r_file_change r") (auto simp: reads_back_def blobs_def change_stored_def)
qed

text \<open>A call that was requested, wrote two bytes and finished.\<close>

definition sample_ref :: ToolRef where
  "sample_ref = \<lparr>tr_session = [1], tr_loop = ''l'', tr_request = 0, tr_call = ''c''\<rparr>"

definition sample_window :: StreamWindow where
  "sample_window = window_default\<lparr>w_seen := True, w_bytes := ''ok'', w_cap := 5, w_end := 2\<rparr>"

definition sample_store :: "ToolRecord \<Rightarrow> nat \<Rightarrow> ToolDataInner" where
  "sample_store r n = \<lparr>td_records = [(sample_ref, r)], td_order = [sample_ref], td_total = n\<rparr>"

definition sample_written :: ToolRecord where
  "sample_written = (record_new ''bash'')\<lparr>r_stdout := sample_window\<rparr>"

definition sample_finished :: ToolRecord where
  "sample_finished = sample_written\<lparr>r_state := ToolSucceeded, r_outcome := Some OutcomeSuccess\<rparr>"

lemma enforce_small:
  assumes "td_total d \<le> MAX_TOOL_TOTAL_BYTES" "length (td_records d) \<le> MAX_TOOL_RECORDS"
    and "td_total d = sum_list (map (\<lambda>(_, r). retained_bytes r) (td_records d))" "td_total d < u64_bound"
  shows "enforce_limits d = Some d"
  using assms by (simp add: enforce_limits_def enforce_bytes.simps[of d] enforce_count.simps[of d] Let_def)

lemma sample_run:
  "td_step\<^sup>*\<^sup>* (inner_default, \<lambda>_ _. []) (sample_store sample_finished 9,
     \<lambda>ref s. if ref = sample_ref \<and> s = StdoutStream then ''ok'' else [])"
proof -
  let ?none = "\<lambda>_ _. [] :: string" and ?l = "\<lambda>ref s. if ref = sample_ref \<and> s = StdoutStream then ''ok'' else []"
  have size: "record_size (record_new ''bash'') = 4" "record_size sample_written = 9"
    by (simp, simp add: sample_written_def record_size_def subject_size_def record_new_def window_retained_def
        window_default_def sample_window_def)
  then have retained: "retained_bytes (record_new ''bash'') = 4" "retained_bytes sample_written = 9"
    using retained_bytes_size[of "record_new ''bash''"] retained_bytes_size[of sample_written]
    by (simp_all add: u64_bound_def)
  have get: "get_record (sample_store r n) ref = (if ref = sample_ref then Some r else None)" for r n ref
    by (auto simp: sample_store_def get_record_def)
  have fit: "enforce_limits (sample_store (record_new ''bash'') 4) = Some (sample_store (record_new ''bash'') 4)"
    "enforce_limits (sample_store sample_written 9) = Some (sample_store sample_written 9)"
    by (rule enforce_small; simp add: sample_store_def retained MAX_TOOL_TOTAL_BYTES_def MAX_TOOL_RECORDS_def
        u64_bound_def)+
  have "td_apply (OpRequested sample_ref ''bash'') inner_default = Some (sample_store (record_new ''bash'') 4)"
    using fit(1) by (simp add: note_requested_def track_def inner_default_def get_record_def put_record_def Let_def
        sample_store_def retained sat_add_def u64_bound_def)
  then have first: "td_step (inner_default, ?none) (sample_store (record_new ''bash'') 4, ?none)"
    using td_step.call[of inner_default "OpRequested sample_ref ''bash''" _ ?none] by (simp cong: if_cong)
  have push: "window_push 3 ''ok'' window_default = Some (\<lparr>sp_base = 0, sp_next = 2, sp_dropped = False\<rparr>, sample_window)"
    by (simp add: window_push_def push_fits_def window_default_def sample_window_def sat_add_def sat_mul_def
        MAX_TOOL_STREAM_BYTES_def u64_bound_def reserve_exact_def checked_sub_def Let_def)
  have out: "r_stdout (record_new ''bash'') = window_default" by (simp add: record_new_def)
  have "td_apply (OpChunk 3 sample_ref StdoutStream ''ok'') (sample_store (record_new ''bash'') 4) = Some (sample_store sample_written 9)"
  proof -
    have "resize sample_ref (push_stream 3 StdoutStream ''ok'') (sample_store (record_new ''bash'') 4) = Some (sample_store sample_written 9)"
    proof -
      have "push_stream 3 StdoutStream ''ok'' (record_new ''bash'') = Some sample_written"
        using push out by (simp add: push_stream_def sample_written_def)
      then show ?thesis
        by (simp add: resize_def get retained sat_add_def u64_bound_def) (simp add: put_record_def sample_store_def)
    qed
    then show ?thesis using push fit(2) out by (simp add: note_stream_chunk_def get)
  qed
  moreover have "op_fits (sample_store (record_new ''bash'') 4) (OpChunk 3 sample_ref StdoutStream ''ok'')"
    by (simp add: get out) (simp add: window_default_def u64_bound_def)
  moreover have "(\<lambda>ref s. if get_record (sample_store sample_written 9) ref = None then []
      else ?none ref s @ op_pushed (OpChunk 3 sample_ref StdoutStream ''ok'') ref s) = ?l"
    by (simp add: get fun_eq_iff)
  ultimately have second: "td_step (sample_store (record_new ''bash'') 4, ?none) (sample_store sample_written 9, ?l)"
    using td_step.call[of "sample_store (record_new ''bash'') 4" "OpChunk 3 sample_ref StdoutStream ''ok''"
        "sample_store sample_written 9" ?none] by simp
  have "td_apply (OpFinish None sample_ref OutcomeSuccess) (sample_store sample_written 9) = Some (sample_store sample_finished 9)"
  proof -
    have "finish_record None OutcomeSuccess sample_written = sample_finished"
      by (simp add: finish_record_def sample_finished_def Let_def sample_written_def record_new_def)
    then show ?thesis
      by (simp add: finish_and_snapshot_def modify_record_def get Let_def) (simp add: put_record_def sample_store_def)
  qed
  moreover have "(\<lambda>ref s. if get_record (sample_store sample_finished 9) ref = None then []
      else ?l ref s @ op_pushed (OpFinish None sample_ref OutcomeSuccess) ref s) = ?l"
    by (auto simp: get fun_eq_iff)
  ultimately have "td_step (sample_store sample_written 9, ?l) (sample_store sample_finished 9, ?l)"
    using td_step.call[of "sample_store sample_written 9" "OpFinish None sample_ref OutcomeSuccess"
        "sample_store sample_finished 9" ?l] by simp
  with second first show ?thesis by (meson converse_rtranclp_into_rtranclp rtranclp.rtrancl_refl)
qed

theorem tool_data_accounting_exact_witness:
  "td_total (sample_store sample_finished 9) \<le> 8 * 1024 * 1024
   \<and> (\<exists>d'. td_apply (OpReconcile None [1] []) (sample_store sample_finished 9) = Some d')"
proof -
  have "op_fits (sample_store sample_finished 9) (OpReconcile None [1] [])" by simp
  with tool_data_accounting_exact[OF sample_run] show ?thesis by blast
qed

theorem stream_window_shows_tail_witness:
  "get_record (sample_store sample_finished 9) sample_ref = Some sample_finished
   \<and> record_stream sample_finished StdoutStream = Some sample_window
   \<and> w_end sample_window = 2 \<and> w_bytes sample_window = ''ok''"
proof -
  have "get_record (sample_store sample_finished 9) sample_ref = Some sample_finished"
    "record_stream sample_finished StdoutStream = Some sample_window"
    by (simp_all add: sample_store_def get_record_def sample_finished_def sample_written_def)
  with stream_window_shows_tail[OF sample_run this] show ?thesis
    by (simp add: sample_window_def window_default_def)
qed

text \<open>A write call that replaced a file and finished.\<close>

definition sample_changed :: ToolRecord where
  "sample_changed = (record_new ''write'')\<lparr>r_file_change := Some (sample_change sample_write)\<rparr>"

definition sample_wrote :: ToolRecord where
  "sample_wrote = sample_changed\<lparr>r_state := ToolSucceeded, r_outcome := Some OutcomeSuccess\<rparr>"

lemma sample_change_facts:
  "ch_path (sample_change sample_write) = ''a''" "ch_before_bytes (sample_change sample_write) = Some (''x'', 1)"
  "ch_after_bytes (sample_change sample_write) = Some (''yz'', 2)" "ch_commit_state (sample_change sample_write) = Applied"
  by code_simp+

lemma sample_change_written: "written_change sample_hash (sample_change sample_write)"
proof -
  have "validate_relative_path ''a'' = Inr ()" by code_simp
  moreover have "length ''yz'' \<le> MAX_CHANGE_SNAPSHOT_BYTES" by (simp add: MAX_CHANGE_SNAPSHOT_BYTES_def)
  moreover have "sample_change sample_write = observed_change sample_hash ''a'' (BeforeContent (''x'', 1) sample_stamp True) ''yz''
      (atomic_write sample_write ''a'' (expected_file_state (BeforeContent (''x'', 1) sample_stamp True)))"
    by (simp add: sample_change_def)
  moreover have "\<forall>b stamp steady. BeforeContent (''x'', 1) sample_stamp True = BeforeContent b stamp steady \<longrightarrow>
      length (fst b) \<le> MAX_CHANGE_SNAPSHOT_BYTES"
    by (simp add: MAX_CHANGE_SNAPSHOT_BYTES_def)
  ultimately show ?thesis unfolding written_change_def by blast
qed

lemma sample_calls: "(call_step sample_hash)\<^sup>*\<^sup>* inner_default (sample_store sample_wrote 521)"
proof -
  let ?c = "sample_change sample_write"
  have get: "get_record (sample_store r n) ref = (if ref = sample_ref then Some r else None)" for r n ref
    by (auto simp: sample_store_def get_record_def)
  have size: "record_size (record_new ''write'') = 5" "record_size sample_changed = 521"
    by (simp, simp add: sample_changed_def record_size_def subject_size_def record_new_def window_retained_def
        window_default_def change_size_def sample_change_facts capacity_of_def CHANGE_METADATA_BYTES_def)
  then have retained: "retained_bytes (record_new ''write'') = 5" "retained_bytes sample_changed = 521"
    using retained_bytes_size[of "record_new ''write''"] retained_bytes_size[of sample_changed]
    by (simp_all add: u64_bound_def)
  have fit: "enforce_limits (sample_store (record_new ''write'') 5) = Some (sample_store (record_new ''write'') 5)"
    "enforce_limits (sample_store sample_changed 521) = Some (sample_store sample_changed 521)"
    by (rule enforce_small; simp add: sample_store_def retained MAX_TOOL_TOTAL_BYTES_def MAX_TOOL_RECORDS_def
        u64_bound_def)+
  have "td_apply (OpRequested sample_ref ''write'') inner_default = Some (sample_store (record_new ''write'') 5)"
    using fit(1) by (simp add: note_requested_def track_def inner_default_def get_record_def put_record_def Let_def
        sample_store_def retained sat_add_def u64_bound_def)
  then have first: "call_step sample_hash inner_default (sample_store (record_new ''write'') 5)"
    by (intro call_step.call[of _ "OpRequested sample_ref ''write''"]) simp_all
  have "resize sample_ref (\<lambda>r. Some (if r_file_change r = None then r\<lparr>r_file_change := Some ?c\<rparr> else r))
      (sample_store (record_new ''write'') 5) = Some (sample_store sample_changed 521)"
  proof -
    have "(if r_file_change (record_new ''write'') = None then (record_new ''write'')\<lparr>r_file_change := Some ?c\<rparr>
        else record_new ''write'') = sample_changed" by (simp add: record_new_def sample_changed_def)
    then show ?thesis
      by (simp add: resize_def get retained sat_add_def u64_bound_def) (simp add: put_record_def sample_store_def)
  qed
  then have "td_apply (OpChange sample_ref ?c) (sample_store (record_new ''write'') 5) = Some (sample_store sample_changed 521)"
    using fit(2) by (simp add: note_file_change_def)
  then have second: "call_step sample_hash (sample_store (record_new ''write'') 5) (sample_store sample_changed 521)"
    using sample_change_written
    by (intro call_step.call[of _ "OpChange sample_ref ?c"])
      (simp_all add: change_size_def sample_change_facts capacity_of_def CHANGE_METADATA_BYTES_def)
  have "finish_record None OutcomeSuccess sample_changed = sample_wrote"
    by (simp add: finish_record_def sample_wrote_def Let_def sample_changed_def record_new_def)
  then have "td_apply (OpFinish None sample_ref OutcomeSuccess) (sample_store sample_changed 521) = Some (sample_store sample_wrote 521)"
    by (simp add: finish_and_snapshot_def modify_record_def get Let_def) (simp add: put_record_def sample_store_def)
  then have "call_step sample_hash (sample_store sample_changed 521) (sample_store sample_wrote 521)"
    by (intro call_step.call[of _ "OpFinish None sample_ref OutcomeSuccess"]) simp_all
  with second first show ?thesis by (meson converse_rtranclp_into_rtranclp rtranclp.rtrancl_refl)
qed

theorem finished_record_is_storable_witness:
  "\<exists>snap. snapshot_for_persistence sample_hash (sample_store sample_wrote 521) sample_ref = Some snap
    \<and> validate_stored_tool_record (sn_record snap) sample_ref = Inr ()
    \<and> sn_before snap = Some ''x'' \<and> sn_after snap = Some ''yz''
    \<and> read_change_blob sample_hash (Some ''yz'') (ch_after (sample_change sample_write)) = (Some ''yz'', False)"
proof -
  have get: "get_record (sample_store sample_wrote 521) sample_ref = Some sample_wrote"
    by (simp add: sample_store_def get_record_def)
  have r: "record_is_terminal sample_wrote" "r_name sample_wrote \<in> set KNOWN_TOOL_NAMES"
    and c: "r_file_change sample_wrote = Some (sample_change sample_write)" "w_bytes (r_stdout sample_wrote) = []"
    "w_bytes (r_stderr sample_wrote) = []"
    by (simp_all add: sample_wrote_def sample_changed_def record_new_def record_is_terminal_def
        state_is_terminal_def KNOWN_TOOL_NAMES_def window_default_def)
  have "valid_sha256 (sample_hash b)" for b
    by (simp add: sample_hash_def valid_sha256_def is_hexdigit_def byte_in_def list_all_iff)
  from finished_record_is_storable[OF sample_calls get r this] c show ?thesis
    by (auto simp: sample_change_facts not_less)
qed

end
