(* ===== verification/Tool_Paging.thy ===== *)
theory Tool_Paging
  imports Tool_Data_Safe Aux_Store
begin

text \<open>
  Reading the facts of a tool call back: \<^verbatim>\<open>tool_data/paging.rs\<close> (pages of a byte channel and bounded
  summaries), \<^verbatim>\<open>tool_data/read.rs\<close> (the live record first, the stored copy where the live one has been
  evicted) and \<^verbatim>\<open>read_tool_source\<close> of \<^verbatim>\<open>store/tool_records/cold_read.rs\<close>.

  The base64 encoder, the size of serde's JSON encoding, the JSON parser, the hash and the answers of the
  file system are parameters. Panics (arithmetic overflow, a slice out of bounds, an unreachable branch, a
  missing digest) are \<^term>\<open>None\<close>.
\<close>

section \<open>Requests and pages\<close>

text \<open>The errors of \<^verbatim>\<open>AgentError\<close> that these queries return.\<close>

datatype ReadError =
  ReadInvalidArguments | ReadQueryLimit | ToolNotFound | ReadSessionNotFound | ReadStore | ReadStoreUnavailable
| ReadInvalidState | ReadInternal

fun from_store_error :: "StoreError \<Rightarrow> ReadError" where
  "from_store_error SessionNotFound = ReadSessionNotFound"
| "from_store_error Unavailable = ReadStoreUnavailable"
| "from_store_error HistoryChanged = ReadInvalidState"
| "from_store_error StoreError.QueryLimit = ReadQueryLimit"
| "from_store_error StoreInvalidArguments = ReadInvalidArguments"
| "from_store_error _ = ReadStore"

fun from_query_error :: "query_error \<Rightarrow> ReadError" where
  "from_query_error query_error.QueryLimit = ReadQueryLimit"
| "from_query_error query_error.InvalidArguments = ReadInvalidArguments"

definition DEFAULT_READ_MAX_BYTES :: nat where "DEFAULT_READ_MAX_BYTES = 256 * 1024"
definition MAX_READ_MAX_BYTES :: nat where "MAX_READ_MAX_BYTES = 1024 * 1024"
definition MAX_INVOCATION_PREVIEW_BYTES :: nat where "MAX_INVOCATION_PREVIEW_BYTES = 8 * 1024"
definition READ_DEADLINE :: nat where "READ_DEADLINE = 10"

definition validate_max_bytes :: "nat option \<Rightarrow> ReadError + unit" where
  "validate_max_bytes v =
     (case v of Some n \<Rightarrow> if n = 0 \<or> MAX_READ_MAX_BYTES < n then Inl ReadInvalidArguments else Inr ()
      | None \<Rightarrow> Inr ())"

fun stream_encoding :: "ToolDataStream \<Rightarrow> string" where
  "stream_encoding InputStream = ''utf8_json''"
| "stream_encoding OutputStream = ''utf8''"
| "stream_encoding StdoutStream = ''base64''"
| "stream_encoding StderrStream = ''base64''"

record ToolReadRequest =
  rr_ref :: ToolRef
  rr_display :: bool
  rr_max_bytes :: "nat option"

record ToolOutputRequest =
  rq_ref :: ToolRef
  rq_stream :: ToolDataStream
  rq_offset :: nat
  rq_max_bytes :: "nat option"

record ToolReadResult =
  rs_display :: "ToolDisplay option"
  rs_invocation :: "ToolInvocationData option"
  rs_execution :: ToolExecutionData

record ToolOutputPage =
  pg_ref :: ToolRef
  pg_stream :: ToolDataStream
  pg_encoding :: string
  pg_base :: nat
  pg_next :: nat
  pg_observed :: nat
  pg_eof :: bool
  pg_truncated :: bool
  pg_availability :: ToolDataAvailability
  pg_data :: string

section \<open>Views of a byte channel\<close>

record ToolOutputView =
  ov_bytes :: "string \<times> string"
  ov_base :: nat
  ov_observed :: nat
  ov_seen :: bool
  ov_known :: bool
  ov_complete :: bool
  ov_truncated :: bool
  ov_availability :: ToolDataAvailability
  ov_corrupt :: bool

text \<open>
  A window is a ring buffer; \<open>wrap\<close> is the number of its bytes before the wrap, the first of the two slices.
\<close>

definition window_view :: "nat \<Rightarrow> ToolRecord \<Rightarrow> ToolDataStream \<Rightarrow> StreamWindow \<Rightarrow> ToolOutputView" where
  "window_view wrap r stream w =
     \<lparr>ov_bytes = (take wrap (w_bytes w), drop wrap (w_bytes w)), ov_base = w_start w, ov_observed = w_end w,
      ov_seen = w_seen w, ov_known = w_seen w \<or> w_complete w, ov_complete = w_complete w \<or> stream_final r,
      ov_truncated = w_truncated w, ov_availability = process_availability r stream, ov_corrupt = w_corrupt w\<rparr>"

definition text_view ::
  "ToolRecord \<Rightarrow> string \<Rightarrow> nat \<Rightarrow> bool \<Rightarrow> bool \<Rightarrow> bool \<Rightarrow> bool \<Rightarrow> ToolOutputView" where
  "text_view r t observed seen expired truncated corrupt =
     \<lparr>ov_bytes = (t, []), ov_base = 0, ov_observed = observed, ov_seen = seen, ov_known = seen,
      ov_complete = state_is_terminal (r_state r), ov_truncated = truncated,
      ov_availability = (if corrupt then AvUnavailable
        else text_availability seen expired (state_is_terminal (r_state r)) (length t) observed truncated),
      ov_corrupt = corrupt\<rparr>"

fun output_view :: "nat \<Rightarrow> ToolRecord \<Rightarrow> ToolDataStream \<Rightarrow> ToolOutputView" where
  "output_view wrap r StdoutStream = window_view wrap r StdoutStream (r_stdout r)"
| "output_view wrap r StderrStream = window_view wrap r StderrStream (r_stderr r)"
| "output_view wrap r InputStream =
     text_view r (r_input r) (r_input_total r) (r_input_seen r) (r_input_expired r) (r_input_truncated r) (r_input_corrupt r)"
| "output_view wrap r OutputStream =
     text_view r (r_result r) (r_result_total r) (r_result_seen r) (r_result_expired r) (r_result_truncated r)
       (r_result_corrupt r)"

type_synonym ToolBlob = "string option \<times> bool"

definition stored_terminal :: "StoredToolRecord \<Rightarrow> bool" where
  "stored_terminal s = (case st_command s of None \<Rightarrow> state_is_terminal (st_state s)
     | Some cmd \<Rightarrow> status_is_terminal (cr_status cmd))"

definition stored_window_view :: "StoredToolRecord \<Rightarrow> StoredStreamWindow \<Rightarrow> ToolBlob \<Rightarrow> ToolOutputView" where
  "stored_window_view s w blob =
     \<lparr>ov_bytes = (unwrap_or (fst blob) [], []), ov_base = sw_start w, ov_observed = sw_end w, ov_seen = sw_seen w,
      ov_known = sw_seen w \<or> sw_complete w, ov_complete = sw_complete w \<or> stored_terminal s,
      ov_truncated = sw_truncated w,
      ov_availability =
        (if snd blob then AvUnavailable
         else if sw_expired w then AvExpired
         else if sw_truncated w then AvPartial
         else if sw_seen w \<or> sw_complete w then AvAvailable
         else if stored_terminal s then AvUnavailable
         else AvPending),
      ov_corrupt = snd blob\<rparr>"

definition stored_text_view :: "StoredToolRecord \<Rightarrow> StoredSummary \<Rightarrow> ToolBlob \<Rightarrow> ToolOutputView" where
  "stored_text_view s su blob =
     (let bytes = unwrap_or (fst blob) []; corrupt = (snd blob \<or> \<not> utf8_valid bytes) in
      \<lparr>ov_bytes = (bytes, []), ov_base = 0, ov_observed = su_total su, ov_seen = su_seen su, ov_known = su_seen su,
       ov_complete = state_is_terminal (st_state s), ov_truncated = su_truncated su,
       ov_availability = (if corrupt then AvUnavailable
         else text_availability (su_seen su) (su_expired su) (state_is_terminal (st_state s)) (su_file_bytes su)
           (su_total su) (su_truncated su)),
       ov_corrupt = corrupt\<rparr>)"

fun view_from_stored :: "StoredToolRecord \<Rightarrow> ToolDataStream \<Rightarrow> ToolBlob \<Rightarrow> ToolOutputView" where
  "view_from_stored s StdoutStream blob = stored_window_view s (st_stdout s) blob"
| "view_from_stored s StderrStream blob = stored_window_view s (st_stderr s) blob"
| "view_from_stored s InputStream blob = stored_text_view s (st_input s) blob"
| "view_from_stored s OutputStream blob = stored_text_view s (st_result s) blob"

section \<open>Pages of a view\<close>

text \<open>
  \<open>page_len\<close> is the length of serde's JSON encoding of a page and \<open>encode\<close> the standard base64 encoder.
\<close>

definition fitting_page :: "(ToolOutputPage \<Rightarrow> nat) \<Rightarrow> nat \<Rightarrow> ToolOutputPage \<Rightarrow> (ReadError + ToolOutputPage) option" where
  "fitting_page page_len max_bytes p = Some (map_err from_query_error (encoded_result page_len p max_bytes))"

definition page_data ::
  "(string \<Rightarrow> string) \<Rightarrow> nat \<Rightarrow> ToolDataStream \<Rightarrow> string \<Rightarrow> string \<Rightarrow> ReadError + (string \<times> nat)" where
  "page_data encode available stream first second =
     (if is_process stream then
        let n = min ((available - 2) div 4 * 3) (length first + length second);
            bytes = (if n \<le> length first then take n first else first @ take (n - length first) second)
        in Inr (encode bytes, n)
      else if \<not> utf8_valid first then Inl ReadInvalidArguments
      else let p = json_string_prefix first available in Inr (p, length p))"

definition take_page ::
  "(string \<Rightarrow> string) \<Rightarrow> (ToolOutputPage \<Rightarrow> nat) \<Rightarrow> ToolOutputView \<Rightarrow> ToolOutputRequest \<Rightarrow> nat \<Rightarrow> nat \<Rightarrow> ToolOutputPage
   \<Rightarrow> string \<Rightarrow> string \<Rightarrow> (ReadError + ToolOutputPage) option" where
  "take_page encode page_len v rq max_bytes end_at base first second =
     (let envelope = page_len (base\<lparr>pg_base := rq_offset rq, pg_next := u64_bound - 1, pg_eof := False\<rparr>) in
      if max_bytes < envelope then Some (Inl ReadInvalidArguments)
      else
        let available = max_bytes - envelope + 2 in
        run_bind (Some (page_data encode available (rq_stream rq) first second)) (\<lambda>(data, n).
        if n = 0 then Some (Inl ReadInvalidArguments)
        else Option.bind (checked_add (rq_offset rq) n) (\<lambda>next.
          fitting_page page_len max_bytes
            (base\<lparr>pg_base := rq_offset rq, pg_next := next, pg_data := data,
               pg_eof := (if is_process (rq_stream rq) then ov_complete v \<and> ov_observed v \<le> next
                          else end_at \<le> next)\<rparr>))))"

definition base_page :: "ToolOutputView \<Rightarrow> ToolOutputRequest \<Rightarrow> nat \<Rightarrow> ToolOutputPage" where
  "base_page v rq end_at = \<lparr>pg_ref = rq_ref rq, pg_stream = rq_stream rq, pg_encoding = stream_encoding (rq_stream rq),
     pg_base = ov_base v, pg_next = ov_observed v, pg_observed = ov_observed v, pg_eof = ov_complete v,
     pg_truncated = ov_truncated v \<or> (\<not> is_process (rq_stream rq) \<and> end_at < ov_observed v),
     pg_availability = ov_availability v, pg_data = []\<rparr>"

definition project ::
  "(string \<Rightarrow> string) \<Rightarrow> (ToolOutputPage \<Rightarrow> nat) \<Rightarrow> ToolOutputView \<Rightarrow> ToolOutputRequest \<Rightarrow> nat
   \<Rightarrow> (ReadError + ToolOutputPage) option" where
  "project encode page_len v rq max_bytes =
     (let process = is_process (rq_stream rq);
          retained = length (fst (ov_bytes v)) + length (snd (ov_bytes v));
          offset = rq_offset rq
      in Option.bind (checked_add (ov_base v) retained) (\<lambda>end_at.
      let base = base_page v rq end_at
      in
        if ov_corrupt v \<or> ov_availability v = AvExpired then
          if process \<and> \<not> ov_corrupt v \<and> ov_observed v < offset then Some (Inl ReadInvalidArguments)
          else fitting_page page_len max_bytes
            (base\<lparr>pg_base := (if ov_corrupt v then ov_base v else ov_observed v),
               pg_eof := ov_complete v \<or> \<not> process, pg_truncated := True\<rparr>)
        else if ov_observed v < offset \<or> \<not> ov_seen v \<and> offset \<noteq> 0 then Some (Inl ReadInvalidArguments)
        else if offset < ov_base v then
          fitting_page page_len max_bytes
            (base\<lparr>pg_next := (if retained = 0 then ov_observed v else ov_base v),
               pg_eof := ov_complete v \<and> retained = 0, pg_truncated := True, pg_availability := AvPartial\<rparr>)
        else if end_at < offset then
          fitting_page page_len max_bytes
            (base\<lparr>pg_base := offset, pg_eof := True, pg_truncated := True, pg_availability := AvPartial\<rparr>)
        else
          let skip = offset - ov_base v; len0 = length (fst (ov_bytes v)) in
          if len0 \<le> skip \<and> length (snd (ov_bytes v)) < skip - len0 then None
          else
            let (first, second) = (if skip < len0 then (drop skip (fst (ov_bytes v)), snd (ov_bytes v))
              else (drop (skip - len0) (snd (ov_bytes v)), [])) in
            if first = [] \<and> second = [] then
              fitting_page page_len max_bytes
                (base\<lparr>pg_base := offset, pg_next := offset,
                   pg_eof := (if process then ov_complete v \<and> ov_observed v \<le> offset
                              else ov_availability v \<noteq> AvPending)\<rparr>)
            else take_page encode page_len v rq max_bytes end_at base first second))"

section \<open>Summaries\<close>

record ReadMetadata =
  rm_execution :: ToolExecutionData
  rm_input_seen :: bool
  rm_result_seen :: bool
  rm_stdout_end :: "nat option"
  rm_stderr_end :: "nat option"

definition window_end :: "StreamWindow \<Rightarrow> nat option" where
  "window_end w = (if w_seen w \<or> w_complete w \<or> w_expired w \<or> 0 < w_end w then Some (w_end w) else None)"

definition stored_window_end :: "StoredStreamWindow \<Rightarrow> nat option" where
  "stored_window_end w = (if sw_seen w \<or> sw_complete w \<or> sw_expired w \<or> 0 < sw_end w then Some (sw_end w) else None)"

definition metadata_from_record :: "ToolRecord \<Rightarrow> ToolRef \<Rightarrow> ReadMetadata" where
  "metadata_from_record r ref = \<lparr>rm_execution = execution_data r ref, rm_input_seen = r_input_seen r,
     rm_result_seen = r_result_seen r, rm_stdout_end = window_end (r_stdout r), rm_stderr_end = window_end (r_stderr r)\<rparr>"

definition stored_command :: "StoredToolRecord \<Rightarrow> CommandResult \<Rightarrow> CommandResult" where
  "stored_command s cmd =
     cmd\<lparr>stdout_base_offset := sw_start (st_stdout s), stdout_observed_end := sw_end (st_stdout s),
       stderr_base_offset := sw_start (st_stderr s), stderr_observed_end := sw_end (st_stderr s),
       output_truncated := (output_truncated cmd \<or> sw_truncated (st_stdout s) \<or> sw_truncated (st_stderr s)
         \<or> sw_expired (st_stdout s) \<or> sw_expired (st_stderr s))\<rparr>"

definition summary_availability :: "bool \<Rightarrow> StoredSummary \<Rightarrow> ToolDataAvailability" where
  "summary_availability terminal su =
     text_availability (su_seen su) (su_expired su) terminal (su_file_bytes su) (su_total su) (su_truncated su)"

definition metadata_from_stored :: "StoredToolRecord \<Rightarrow> ReadMetadata" where
  "metadata_from_stored s =
     (let terminal = state_is_terminal (st_state s) in
      \<lparr>rm_execution = \<lparr>ex_output_line_count = None, ex_ref = st_ref s, ex_name = st_name s, ex_state = st_state s,
         ex_phase = st_phase s, ex_started_at = st_started_at s, ex_finished_at = st_finished_at s,
         ex_outcome = st_outcome s, ex_input_availability = summary_availability terminal (st_input s),
         ex_output_availability = summary_availability terminal (st_result s),
         ex_input_bytes = su_total (st_input s), ex_result_bytes = su_total (st_result s),
         ex_input_truncated = (su_truncated (st_input s) \<or> su_file_bytes (st_input s) < su_total (st_input s)),
         ex_result_truncated = (su_truncated (st_result s) \<or> su_file_bytes (st_result s) < su_total (st_result s)),
         ex_command = map_option (stored_command s) (st_command s), ex_recording = RecordSaved\<rparr>,
       rm_input_seen = su_seen (st_input s), rm_result_seen = su_seen (st_result s),
       rm_stdout_end = stored_window_end (st_stdout s), rm_stderr_end = stored_window_end (st_stderr s)\<rparr>)"

definition metadata_terminal :: "ReadMetadata \<Rightarrow> bool" where
  "metadata_terminal m =
     (state_is_terminal (ex_state (rm_execution m))
      \<and> (case ex_command (rm_execution m) of None \<Rightarrow> True | Some cmd \<Rightarrow> status_is_terminal (cr_status cmd)))"

text \<open>\<^verbatim>\<open>a.zip(b).is_none_or(|(a, b)| a == b)\<close>\<close>

fun agree_on :: "('a \<Rightarrow> 'b) \<Rightarrow> 'a option \<Rightarrow> 'a option \<Rightarrow> bool" where
  "agree_on f (Some a) (Some b) = (f a = f b)"
| "agree_on f _ _ = True"

definition command_facts :: "CommandResult \<Rightarrow> CommandStatus \<times> int option \<times> int option \<times> bool \<times> bool" where
  "command_facts cmd = (cr_status cmd, cr_exit_code cmd, cr_signal cmd, termination_confirmed cmd, output_complete cmd)"

definition compatible :: "ReadMetadata \<Rightarrow> ReadMetadata \<Rightarrow> bool" where
  "compatible m disk =
     (let warm = rm_execution m; cold = rm_execution disk in
      ex_name warm = ex_name cold
      \<and> (\<not> state_is_terminal (ex_state warm) \<or> \<not> state_is_terminal (ex_state cold) \<or> ex_state warm = ex_state cold)
      \<and> agree_on (\<lambda>x. x) (ex_outcome warm) (ex_outcome cold)
      \<and> (\<not> rm_input_seen m \<or> \<not> rm_input_seen disk \<or> ex_input_bytes warm = ex_input_bytes cold)
      \<and> (\<not> rm_result_seen m \<or> \<not> rm_result_seen disk \<or> ex_result_bytes warm = ex_result_bytes cold)
      \<and> agree_on (\<lambda>x. x) (rm_stdout_end m) (rm_stdout_end disk)
      \<and> agree_on (\<lambda>x. x) (rm_stderr_end m) (rm_stderr_end disk)
      \<and> agree_on command_facts (ex_command warm) (ex_command cold))"

record ToolSummary =
  ts_metadata :: ReadMetadata
  ts_subject :: ToolSubject
  ts_subject_truncated :: bool
  ts_input :: string

definition usable :: "ToolDataAvailability \<Rightarrow> bool" where
  "usable a = (a \<in> {AvAvailable, AvPartial})"

definition needs_stored :: "ToolSummary \<Rightarrow> bool" where
  "needs_stored t =
     (metadata_terminal (ts_metadata t)
      \<and> (\<not> usable (ex_input_availability (rm_execution (ts_metadata t)))
         \<or> \<not> usable (ex_output_availability (rm_execution (ts_metadata t)))))"

definition decode_text :: "ToolBlob \<Rightarrow> string \<times> bool" where
  "decode_text blob = (let bytes = unwrap_or (fst blob) [] in if utf8_valid bytes then (bytes, snd blob) else ([], True))"

datatype ToolReadPayload = SummaryPayload ToolBlob ToolBlob | StreamPayload ToolBlob

record StoredToolRead =
  sr_metadata :: StoredToolRecord
  sr_payload :: ToolReadPayload

fun summary_from_stored :: "StoredToolRecord \<Rightarrow> ToolReadPayload \<Rightarrow> ToolSummary option" where
  "summary_from_stored s (StreamPayload _) = None"
| "summary_from_stored s (SummaryPayload input result) =
     (let (input, input_corrupt) = decode_text input; (result, result_corrupt) = decode_text result;
          m = metadata_from_stored s;
          ex = rm_execution m;
          ex = (if input_corrupt then ex\<lparr>ex_input_availability := AvUnavailable\<rparr> else ex);
          ex = (if result_corrupt then ex\<lparr>ex_output_availability := AvUnavailable\<rparr>
                else if rm_result_seen m \<and> \<not> su_expired (st_result s)
                then ex\<lparr>ex_output_line_count := Some (count_lines result)\<rparr> else ex)
      in Some \<lparr>ts_metadata = m\<lparr>rm_execution := ex\<rparr>, ts_subject = st_subject s,
           ts_subject_truncated = st_subject_truncated s, ts_input = input\<rparr>)"

definition or_else :: "'a option \<Rightarrow> 'a option \<Rightarrow> 'a option" where
  "or_else a b = (case a of None \<Rightarrow> b | Some _ \<Rightarrow> a)"

definition takes_cold :: "bool \<Rightarrow> bool \<Rightarrow> ToolDataAvailability \<Rightarrow> ToolDataAvailability \<Rightarrow> bool" where
  "takes_cold warm_seen cold_seen warm cold =
     (\<not> warm_seen \<and> cold_seen
      \<or> \<not> usable warm \<and> (usable cold \<or> cold_seen \<and> cold = AvUnavailable))"

definition merge_start :: "bool \<Rightarrow> ToolExecutionData \<Rightarrow> ToolExecutionData \<Rightarrow> ToolExecutionData" where
  "merge_start input_seen warm cold =
     (if \<not> input_seen \<and> ex_started_at warm = None
      then warm\<lparr>ex_phase := or_else (ex_phase warm) (ex_phase cold), ex_started_at := ex_started_at cold,
             ex_finished_at := or_else (ex_finished_at cold) (ex_finished_at warm)\<rparr>
      else warm)"

definition merge_input :: "ToolSummary \<Rightarrow> ToolSummary \<Rightarrow> ToolSummary" where
  "merge_input t disk =
     (let m = ts_metadata t; warm = rm_execution m; cold = rm_execution (ts_metadata disk) in
      if takes_cold (rm_input_seen m) (rm_input_seen (ts_metadata disk)) (ex_input_availability warm)
           (ex_input_availability cold)
      then t\<lparr>ts_input := ts_input disk, ts_subject := ts_subject disk, ts_subject_truncated := ts_subject_truncated disk,
             ts_metadata := m\<lparr>rm_input_seen := rm_input_seen (ts_metadata disk),
               rm_execution := warm\<lparr>ex_input_bytes := ex_input_bytes cold, ex_input_truncated := ex_input_truncated cold,
                 ex_input_availability := ex_input_availability cold\<rparr>\<rparr>\<rparr>
      else t)"

definition merge_result :: "ToolSummary \<Rightarrow> ToolSummary \<Rightarrow> ToolSummary" where
  "merge_result t disk =
     (let m = ts_metadata t; warm = rm_execution m; cold = rm_execution (ts_metadata disk) in
      if takes_cold (rm_result_seen m) (rm_result_seen (ts_metadata disk)) (ex_output_availability warm)
           (ex_output_availability cold)
      then t\<lparr>ts_metadata := m\<lparr>rm_result_seen := rm_result_seen (ts_metadata disk),
               rm_execution := warm\<lparr>ex_result_bytes := ex_result_bytes cold,
                 ex_result_truncated := ex_result_truncated cold, ex_output_line_count := ex_output_line_count cold,
                 ex_output_availability := ex_output_availability cold\<rparr>\<rparr>\<rparr>
      else t)"

definition merge_command :: "ToolExecutionData \<Rightarrow> ToolExecutionData \<Rightarrow> ToolExecutionData" where
  "merge_command warm cold =
     warm\<lparr>ex_command := or_else (ex_command warm) (ex_command cold),
       ex_recording := (if ex_recording warm = MemoryOnly then ex_recording cold else ex_recording warm)\<rparr>"

definition on_execution :: "(ToolExecutionData \<Rightarrow> ToolExecutionData) \<Rightarrow> ToolSummary \<Rightarrow> ToolSummary" where
  "on_execution f t = t\<lparr>ts_metadata := (ts_metadata t)\<lparr>rm_execution := f (rm_execution (ts_metadata t))\<rparr>\<rparr>"

definition merge_summary :: "ToolSummary \<Rightarrow> ToolSummary \<Rightarrow> ToolSummary" where
  "merge_summary t disk =
     (if \<not> compatible (ts_metadata t) (ts_metadata disk) then t
      else
        let cold = rm_execution (ts_metadata disk);
            t = on_execution (\<lambda>warm. merge_start (rm_input_seen (ts_metadata t)) warm cold) t;
            t = merge_result (merge_input t disk) disk
        in on_execution (\<lambda>warm. merge_command warm cold) t)"

definition read_summary :: "ToolRecord \<Rightarrow> ToolRef \<Rightarrow> ToolSummary" where
  "read_summary r ref = \<lparr>ts_metadata = metadata_from_record r ref, ts_subject = r_subject r,
     ts_subject_truncated = r_subject_truncated r, ts_input = r_input r\<rparr>"

section \<open>Bounded results\<close>

definition summary_invocation :: "ToolSummary \<Rightarrow> ToolInvocationData option" where
  "summary_invocation t =
     (let ex = rm_execution (ts_metadata t) in
      if rm_input_seen (ts_metadata t) \<or> ex_input_availability ex = AvExpired then
        let (preview, was_cut) = Text_Budget.truncate (ts_input t) MAX_INVOCATION_PREVIEW_BYTES
        in Some \<lparr>iv_ref = ex_ref ex, iv_name = ex_name ex, iv_subject = ts_subject t,
             iv_subject_truncated = ts_subject_truncated t,
             iv_input = \<lparr>is_total = ex_input_bytes ex, is_preview = preview,
               is_truncated = (was_cut \<or> ex_input_truncated ex \<or> ex_input_availability ex = AvExpired
                 \<or> ex_input_availability ex = AvUnavailable),
               is_encoding = ''utf8_json''\<rparr>\<rparr>
      else None)"

definition with_preview :: "string \<Rightarrow> ToolInvocationData \<Rightarrow> ToolInvocationData" where
  "with_preview p iv = iv\<lparr>iv_input := (iv_input iv)\<lparr>is_preview := p, is_truncated := True\<rparr>\<rparr>"

definition project_read :: "(ToolReadResult \<Rightarrow> nat) \<Rightarrow> ToolSummary \<Rightarrow> nat \<Rightarrow> ReadError + ToolReadResult" where
  "project_read read_len t max_bytes =
     (let result = \<lparr>rs_display = None, rs_invocation = summary_invocation t, rs_execution = rm_execution (ts_metadata t)\<rparr> in
      if max_bytes < read_len result then
        (case rs_invocation result of
           None \<Rightarrow> Inl ReadInvalidArguments
         | Some iv \<Rightarrow>
             let template_len = read_len (result\<lparr>rs_invocation := Some (with_preview [] iv)\<rparr>) in
             if max_bytes < template_len then Inl ReadInvalidArguments
             else
               let available = sat_add (max_bytes - template_len) 2
               in Inr (result\<lparr>rs_invocation :=
                    Some (with_preview (json_string_prefix (is_preview (iv_input iv)) available) iv)\<rparr>))
      else Inr result)"

text \<open>\<open>parse_args\<close> is the JSON parser; \<open>diff\<close> and \<open>home\<close> are those of the cards.\<close>

definition summary_arguments :: "(string \<Rightarrow> tool_args option) \<Rightarrow> ToolSummary \<Rightarrow> tool_args option" where
  "summary_arguments parse_args t =
     (let ex = rm_execution (ts_metadata t) in
      if \<not> ex_input_truncated ex \<and> ex_input_availability ex \<noteq> AvExpired \<and> ex_input_availability ex \<noteq> AvUnavailable
      then parse_args (ts_input t) else None)"

definition summary_display :: "line_diff \<Rightarrow> string \<Rightarrow> (string \<Rightarrow> tool_args option) \<Rightarrow> ToolSummary \<Rightarrow> ToolDisplay" where
  "summary_display diff home parse_args t =
     (let name = ex_name (rm_execution (ts_metadata t)); args = summary_arguments parse_args t;
          d = tool_card diff home name args True
      in if args = None \<and> name \<in> {''write'', ''edit'', ''patch'', ''apply_patch'', ''bash''}
         then d\<lparr>body_truncated := True\<rparr> else d)"

definition cut_display :: "string \<Rightarrow> ToolDisplay \<Rightarrow> ToolDisplay" where
  "cut_display body d = d\<lparr>expanded_input := Some body, input_line_count := Some (count_lines body),
     hidden_line_count := Some (count_lines body)\<rparr>"

definition project_display_read ::
  "line_diff \<Rightarrow> string \<Rightarrow> (string \<Rightarrow> tool_args option) \<Rightarrow> (ToolReadResult \<Rightarrow> nat) \<Rightarrow> ToolSummary \<Rightarrow> nat
   \<Rightarrow> ReadError + ToolReadResult" where
  "project_display_read diff home parse_args read_len t max_bytes =
     (let d = summary_display diff home parse_args t;
          result = \<lparr>rs_display = Some d, rs_invocation = None, rs_execution = rm_execution (ts_metadata t)\<rparr>
      in if max_bytes < read_len result then
           (case expanded_input d of
              None \<Rightarrow> Inl ReadInvalidArguments
            | Some source \<Rightarrow>
                let d = d\<lparr>expanded_input := Some [], td_truncated := True, body_truncated := True\<rparr>;
                    template_len = read_len (result\<lparr>rs_display := Some d\<rparr>)
                in if max_bytes < template_len then Inl ReadInvalidArguments
                   else
                     let available = sat_add (max_bytes - template_len) 2
                     in Inr (result\<lparr>rs_display := Some (cut_display (json_string_prefix source available) d)\<rparr>))
         else Inr result)"

section \<open>The stored copy\<close>

text \<open>
  \<open>real_dir_opt\<close> is answered by the path's state. \<open>dk_open\<close> is what opening and reading \<^verbatim>\<open>record.json\<close>
  gives, \<open>dk_parse\<close> what serde makes of its bytes, \<open>dk_late\<close> whether the deadline passes first.
\<close>

definition real_dir_opt :: "StoreError + PathState \<Rightarrow> StoreError + bool" where
  "real_dir_opt p = res_bind p (\<lambda>p.
     if p = Directory then Inr True else if p = PathMissing then Inr False else Inl Corrupt)"

datatype FileOpen = FileNotFound | FileInvalid | FileUnavailable | FileUnreadable | FileContent string

record ToolDisk =
  dk_late :: bool
  dk_root :: "StoreError + unit"
  dk_session :: "StoreError + PathState"
  dk_tools :: "StoreError + PathState"
  dk_record :: "StoreError + PathState"
  dk_open :: FileOpen
  dk_parse :: "string \<Rightarrow> StoredToolRecord option"
  dk_blob :: "string \<Rightarrow> string option"

definition load_tool_metadata :: "ToolDisk \<Rightarrow> StoreError + StoredToolRecord option" where
  "load_tool_metadata dk =
     (case dk_open dk of
        FileNotFound \<Rightarrow> Inr None
      | FileInvalid \<Rightarrow> Inl Corrupt
      | FileUnavailable \<Rightarrow> Inl Unavailable
      | FileUnreadable \<Rightarrow> Inl Unavailable
      | FileContent content \<Rightarrow>
          let bytes = take (MAX_TOOL_METADATA_BYTES + 1) content in
          if MAX_TOOL_METADATA_BYTES < length bytes then Inl Corrupt
          else (case dk_parse dk bytes of None \<Rightarrow> Inl Corrupt | Some s \<Rightarrow> Inr (Some s)))"

definition stored_tool_metadata :: "ToolDisk \<Rightarrow> ToolRef \<Rightarrow> StoreError + StoredToolRecord option" where
  "stored_tool_metadata dk ref =
     res_bind (dk_root dk) (\<lambda>_.
     res_bind (real_dir_opt (dk_session dk)) (\<lambda>there.
     if \<not> there then Inl SessionNotFound
     else res_bind (real_dir_opt (dk_tools dk)) (\<lambda>there.
     if \<not> there then Inr None
     else res_bind (real_dir_opt (dk_record dk)) (\<lambda>there.
     if \<not> there then Inr None
     else res_bind (load_tool_metadata dk) (\<lambda>m.
     case m of
       None \<Rightarrow> Inr None
     | Some s \<Rightarrow> res_bind (validate_stored_tool_record s ref) (\<lambda>_. Inr (Some s)))))))"

datatype ToolReadScope = SummaryScope | StreamScope ToolDataStream

fun scope_index :: "ToolDataStream \<Rightarrow> nat" where
  "scope_index InputStream = 0"
| "scope_index OutputStream = 1"
| "scope_index StdoutStream = 2"
| "scope_index StderrStream = 3"

definition read_at :: "(string \<Rightarrow> string) \<Rightarrow> ToolDisk \<Rightarrow> StoredToolRecord \<Rightarrow> nat \<Rightarrow> ToolBlob option" where
  "read_at sha dk s index = (let (name, bytes, hash) = stored_blobs s ! index in read_blob sha (dk_blob dk name) bytes hash)"

definition read_tool_source ::
  "(string \<Rightarrow> string) \<Rightarrow> ToolDisk \<Rightarrow> ToolRef \<Rightarrow> ToolReadScope \<Rightarrow> (StoreError + StoredToolRead option) option" where
  "read_tool_source sha dk ref scope =
     (if dk_late dk then Some (Inl StoreError.QueryLimit)
      else run_bind (Some (stored_tool_metadata dk ref)) (\<lambda>m.
      case m of
        None \<Rightarrow> Some (Inr None)
      | Some s \<Rightarrow>
          map_option (\<lambda>payload. Inr (Some \<lparr>sr_metadata = s, sr_payload = payload\<rparr>))
            (case scope of
               SummaryScope \<Rightarrow>
                 Option.bind (read_at sha dk s 0) (\<lambda>input.
                 Option.bind (read_at sha dk s 1) (\<lambda>result. Some (SummaryPayload input result)))
             | StreamScope stream \<Rightarrow> map_option StreamPayload (read_at sha dk s (scope_index stream)))))"

section \<open>Reads\<close>

text \<open>
  A query looks at its cancellation token and at the clock at successive moments: 0 when its deadline is
  set, 1 and 2 at its budget checks, 3 while the stored copy is read.
\<close>

record QueryTime =
  cancelled_at :: "nat \<Rightarrow> bool"
  now_at :: "nat \<Rightarrow> nat"

definition query_check :: "QueryTime \<Rightarrow> nat \<Rightarrow> ReadError + unit" where
  "query_check q i = map_err from_query_error (check_budget (cancelled_at q i) (now_at q i) (now_at q 0 + READ_DEADLINE))"

fun tool_store_error :: "StoreError \<Rightarrow> ReadError" where
  "tool_store_error SessionNotFound = ToolNotFound"
| "tool_store_error e = from_store_error e"

definition read_source ::
  "(string \<Rightarrow> string) \<Rightarrow> QueryTime \<Rightarrow> ToolDisk \<Rightarrow> ToolRef \<Rightarrow> ToolReadScope \<Rightarrow> (ReadError + StoredToolRead option) option" where
  "read_source sha q dk ref scope =
     run_bind (Some (query_check q 2)) (\<lambda>_.
     if cancelled_at q 3 then Some (Inl ReadQueryLimit)
     else map_option (map_err tool_store_error) (read_tool_source sha dk ref scope))"

record ReadEnv =
  env_sha :: "string \<Rightarrow> string"
  env_encode :: "string \<Rightarrow> string"
  env_page_len :: "ToolOutputPage \<Rightarrow> nat"
  env_read_len :: "ToolReadResult \<Rightarrow> nat"
  env_diff :: line_diff
  env_home :: string
  env_parse :: "string \<Rightarrow> tool_args option"

definition merged_summary ::
  "ReadEnv \<Rightarrow> QueryTime \<Rightarrow> ToolDisk \<Rightarrow> ToolRef \<Rightarrow> ToolSummary option \<Rightarrow> (ReadError + ToolSummary option) option" where
  "merged_summary env q dk ref warm =
     (if (case warm of None \<Rightarrow> True | Some t \<Rightarrow> needs_stored t) then
        (case read_source (env_sha env) q dk ref SummaryScope of
           None \<Rightarrow> None
         | Some (Inr (Some disk)) \<Rightarrow>
             map_option (\<lambda>cold. Inr (Some (case warm of None \<Rightarrow> cold | Some t \<Rightarrow> merge_summary t cold)))
               (summary_from_stored (sr_metadata disk) (sr_payload disk))
         | Some (Inl e) \<Rightarrow> Some (if warm = None \<or> e = ReadQueryLimit then Inl e else Inr warm)
         | Some (Inr None) \<Rightarrow> Some (Inr warm))
      else Some (Inr warm))"

definition warm_record :: "ToolDataInner option \<Rightarrow> ToolRef \<Rightarrow> ToolRecord option" where
  "warm_record data ref = Option.bind data (\<lambda>d. get_record d ref)"

definition tool_read ::
  "ReadEnv \<Rightarrow> QueryTime \<Rightarrow> ToolDisk \<Rightarrow> ToolDataInner option \<Rightarrow> ToolReadRequest \<Rightarrow> (ReadError + ToolReadResult) option" where
  "tool_read env q dk data rq =
     run_bind (Some (validate_max_bytes (rr_max_bytes rq))) (\<lambda>_.
     run_bind (Some (query_check q 1)) (\<lambda>_.
     run_bind (merged_summary env q dk (rr_ref rq)
       (map_option (\<lambda>r. read_summary r (rr_ref rq)) (warm_record data (rr_ref rq)))) (\<lambda>warm.
     run_bind (Some (ok_or warm ToolNotFound)) (\<lambda>source.
     let max_bytes = unwrap_or (rr_max_bytes rq) DEFAULT_READ_MAX_BYTES in
     Some (if rr_display rq
           then project_display_read (env_diff env) (env_home env) (env_parse env) (env_read_len env) source max_bytes
           else project_read (env_read_len env) source max_bytes)))))"

definition output_needs_stored :: "ToolRecord \<Rightarrow> ToolRef \<Rightarrow> ToolOutputView \<Rightarrow> bool" where
  "output_needs_stored r ref v = (metadata_terminal (metadata_from_record r ref) \<and> \<not> usable (ov_availability v))"

definition tool_output ::
  "ReadEnv \<Rightarrow> nat \<Rightarrow> QueryTime \<Rightarrow> ToolDisk \<Rightarrow> ToolDataInner option \<Rightarrow> ToolOutputRequest
   \<Rightarrow> (ReadError + ToolOutputPage) option" where
  "tool_output env wrap q dk data rq =
     run_bind (Some (validate_max_bytes (rq_max_bytes rq))) (\<lambda>_.
     run_bind (Some (query_check q 1)) (\<lambda>_.
     let max_bytes = unwrap_or (rq_max_bytes rq) DEFAULT_READ_MAX_BYTES;
         page_of = (\<lambda>v. project (env_encode env) (env_page_len env) v rq max_bytes);
         cold = (\<lambda>warm. case read_source (env_sha env) q dk (rq_ref rq) (StreamScope (rq_stream rq)) of
             None \<Rightarrow> None
           | Some (Inr (Some disk)) \<Rightarrow>
               (case sr_payload disk of
                  SummaryPayload _ _ \<Rightarrow> None
                | StreamPayload blob \<Rightarrow>
                    let v = view_from_stored (sr_metadata disk) (rq_stream rq) blob in
                    if (case warm of
                          None \<Rightarrow> True
                        | Some (r, known, page) \<Rightarrow>
                            compatible (metadata_from_record r (rq_ref rq)) (metadata_from_stored (sr_metadata disk))
                            \<and> (usable (ov_availability v) \<or> ov_corrupt v \<or> \<not> known \<and> ov_known v))
                    then page_of v
                    else Some (case warm of None \<Rightarrow> Inl ToolNotFound | Some (_, _, page) \<Rightarrow> page))
           | Some (Inl e) \<Rightarrow> Some (case warm of None \<Rightarrow> Inl e
               | Some (_, _, page) \<Rightarrow> if e = ReadQueryLimit then Inl e else page)
           | Some (Inr None) \<Rightarrow> Some (case warm of None \<Rightarrow> Inl ToolNotFound | Some (_, _, page) \<Rightarrow> page))
     in case warm_record data (rq_ref rq) of
          None \<Rightarrow> cold None
        | Some r \<Rightarrow>
            let v = output_view wrap r (rq_stream rq) in
            Option.bind (page_of v) (\<lambda>page.
            if \<not> output_needs_stored r (rq_ref rq) v then Some page else cold (Some (r, ov_known v, page)))))"

section \<open>Scalars of valid text\<close>

lemma is_cont_code: "is_cont c \<longleftrightarrow> 128 \<le> (of_char c :: nat) \<and> (of_char c :: nat) < 192"
  by (cases c) (simp add: is_cont_def of_char_Char of_bool_def)

lemma utf8_split:
  assumes "utf8_valid s" "s \<noteq> []"
  obtains a cs rest where "s = a # cs @ rest" "\<not> is_cont a" "list_all is_cont cs" "length cs \<le> 3" "utf8_valid rest"
proof -
  have cont: "byte_in 160 191 b \<Longrightarrow> is_cont b" "byte_in 128 159 b \<Longrightarrow> is_cont b" "byte_in 144 191 b \<Longrightarrow> is_cont b"
    "byte_in 128 143 b \<Longrightarrow> is_cont b" for b
    by (auto simp: byte_in_def is_cont_code)
  have lead: "byte_in 0 127 a \<Longrightarrow> \<not> is_cont a" "byte_in 194 223 a \<Longrightarrow> \<not> is_cont a" "byte_in 224 224 a \<Longrightarrow> \<not> is_cont a"
    "byte_in 225 236 a \<Longrightarrow> \<not> is_cont a" "byte_in 238 239 a \<Longrightarrow> \<not> is_cont a" "byte_in 237 237 a \<Longrightarrow> \<not> is_cont a"
    "byte_in 240 240 a \<Longrightarrow> \<not> is_cont a" "byte_in 241 243 a \<Longrightarrow> \<not> is_cont a" "byte_in 244 244 a \<Longrightarrow> \<not> is_cont a" for a
    by (auto simp: byte_in_def is_cont_code)
  from assms(2) obtain a t where s: "s = a # t" by (cases s) auto
  show ?thesis
  proof (cases "byte_in 0 127 a")
    case True
    with assms(1) s that[of a "[]" t] lead show ?thesis by simp
  next
    case one: False
    with assms(1) s obtain b t1 where t: "t = b # t1" by (cases t) auto
    show ?thesis
    proof (cases "byte_in 194 223 a")
      case True
      with assms(1) s t one that[of a "[b]" t1] lead show ?thesis by simp
    next
      case two: False
      with assms(1) s t one obtain c t2 where t1: "t1 = c # t2" by (cases t1) auto
      show ?thesis
      proof (cases "byte_in 224 224 a \<or> byte_in 225 236 a \<or> byte_in 238 239 a \<or> byte_in 237 237 a")
        case True
        with assms(1) s t t1 one two that[of a "[b, c]" t2] lead cont show ?thesis by (auto split: if_splits)
      next
        case three: False
        with assms(1) s t t1 one two obtain d t3 where t2: "t2 = d # t3" by (cases t2) auto
        with assms(1) s t t1 one two three that[of a "[b, c, d]" t3] lead cont show ?thesis by (auto split: if_splits)
      qed
    qed
  qed
qed

lemma cont_span:
  assumes "list_all is_cont cs" "utf8_valid rest"
  shows "takeWhile is_cont (cs @ rest) = cs" "dropWhile is_cont (cs @ rest) = rest"
proof -
  have "rest = [] \<or> \<not> is_cont (hd rest)"
  proof (cases "rest = []")
    case False
    with assms(2) show ?thesis by (rule utf8_split) auto
  qed simp
  then show "takeWhile is_cont (cs @ rest) = cs" "dropWhile is_cont (cs @ rest) = rest"
    using assms(1) by (induction cs) (cases rest; auto)+
qed

lemma utf8_valid_chars:
  "utf8_valid s \<Longrightarrow> list_all (\<lambda>ch. length ch \<le> 4) (utf8_chars s) \<and> utf8_valid (concat (drop k (utf8_chars s)))"
proof (induction s arbitrary: k rule: length_induct)
  case (1 s)
  show ?case
  proof (cases "s = []")
    case False
    with "1.prems" obtain a cs rest where s: "s = a # cs @ rest" "\<not> is_cont a" "list_all is_cont cs" "length cs \<le> 3"
      "utf8_valid rest" by (rule utf8_split)
    have chars: "utf8_chars s = (a # cs) # utf8_chars rest" by (simp add: s(1) cont_span[OF s(3,5)])
    from "1.IH" s have IH: "list_all (\<lambda>ch. length ch \<le> 4) (utf8_chars rest)" "utf8_valid (concat (drop j (utf8_chars rest)))" for j
      by auto
    with chars s(4) "1.prems" show ?thesis
      by (cases k) (auto simp: s(1)[symmetric] cont_span[OF s(3,5)])
  qed simp
qed

lemma escaped_char_len_le: "length ch \<le> 4 \<Longrightarrow> escaped_char_len ch \<le> 6"
  by (auto simp: escaped_char_len_def split: list.splits)

text \<open>A cut of valid text at a JSON budget leaves valid text, and progresses when six bytes are free.\<close>

lemma json_cut_valid:
  assumes "utf8_valid s" and p_def: "p = json_string_prefix s (n + 2)"
  shows "p = take (length p) s" "utf8_valid (drop (length p) s)" "json_escaped_len p \<le> n"
    "s \<noteq> [] \<Longrightarrow> 6 \<le> n \<Longrightarrow> p \<noteq> []"
proof -
  let ?k = "scalars_fit n (utf8_chars s)"
  have p: "p = concat (take ?k (utf8_chars s))" unfolding p_def by (rule json_string_prefix_chars)
  have split: "s = p @ concat (drop ?k (utf8_chars s))"
    by (metis p append_take_drop_id concat_append concat_utf8_chars)
  show "p = take (length p) s" by (metis split append_eq_conv_conj)
  have "drop (length p) s = concat (drop ?k (utf8_chars s))" by (metis split append_eq_conv_conj)
  with utf8_valid_chars[OF assms(1)] show "utf8_valid (drop (length p) s)" by simp
  show "json_escaped_len p \<le> n" unfolding p_def by (rule json.cut_cost)
  assume "s \<noteq> []" "6 \<le> n"
  then obtain ch chs where chs: "utf8_chars s = ch # chs" "ch \<noteq> []"
    using utf8_chars_nonempty[of s] by (cases s) auto
  with utf8_valid_chars[OF assms(1)] have "escaped_char_len ch \<le> 6" by (auto intro: escaped_char_len_le)
  with \<open>6 \<le> n\<close> chs show "p \<noteq> []" by (simp add: p)
qed

lemma show_nat_longer: "m \<le> n \<Longrightarrow> length (show_nat m) \<le> length (show_nat n)"
proof (induction n arbitrary: m rule: less_induct)
  case (less n)
  show ?case
  proof (cases "m < 10")
    case True
    then show ?thesis using show_nat_nonempty[of n] by (simp add: show_nat.simps[of m] Suc_le_eq)
  next
    case False
    with less have "length (show_nat (m div 10)) \<le> length (show_nat (n div 10))" by (simp add: div_le_mono)
    with False less.prems show ?thesis by (simp add: show_nat.simps[of m] show_nat.simps[of n])
  qed
qed

section \<open>What a page holds\<close>

text \<open>
  What the code relies on in the encoders. Serde writes a page as an object whose numbers are decimal, whose
  Booleans are \<^verbatim>\<open>true\<close> and \<^verbatim>\<open>false\<close> and whose text is escaped; base64 writes every started group of three
  bytes as four characters that need no escape.
\<close>

definition page_len_law :: "(ToolOutputPage \<Rightarrow> nat) \<Rightarrow> bool" where
  "page_len_law L = (\<exists>F. \<forall>p. L p = F (p\<lparr>pg_base := 0, pg_next := 0, pg_eof := False, pg_data := []\<rparr>)
     + length (show_nat (pg_base p)) + length (show_nat (pg_next p)) + (if pg_eof p then 4 else 5)
     + json_escaped_len (pg_data p))"

definition base64_law :: "(string \<Rightarrow> string) \<Rightarrow> bool" where
  "base64_law encode = (\<forall>b. length (encode b) = (length b + 2) div 3 * 4 \<and> json_escaped_len (encode b) = length (encode b))"

definition view_bytes :: "ToolOutputView \<Rightarrow> string" where
  "view_bytes v = fst (ov_bytes v) @ snd (ov_bytes v)"

definition view_end :: "ToolOutputView \<Rightarrow> nat" where
  "view_end v = ov_base v + length (view_bytes v)"

definition readable :: "ToolDataStream \<Rightarrow> ToolOutputView \<Rightarrow> bool" where
  "readable stream v =
     (ov_seen v \<and> \<not> ov_corrupt v \<and> ov_availability v \<noteq> AvExpired \<and> view_end v \<le> ov_observed v
      \<and> ov_observed v < u64_bound
      \<and> (if is_process stream then view_end v = ov_observed v
         else ov_base v = 0 \<and> snd (ov_bytes v) = [] \<and> utf8_valid (view_bytes v)))"

definition page_room :: "(ToolOutputPage \<Rightarrow> nat) \<Rightarrow> ToolOutputView \<Rightarrow> ToolOutputRequest \<Rightarrow> nat \<Rightarrow> bool" where
  "page_room L v rq max_bytes =
     (L ((base_page v rq (view_end v))\<lparr>pg_base := u64_bound - 1, pg_next := u64_bound - 1, pg_eof := False\<rparr>) + 6 \<le> max_bytes)"

definition starts_scalar :: "ToolDataStream \<Rightarrow> ToolOutputView \<Rightarrow> nat \<Rightarrow> bool" where
  "starts_scalar stream v off = (is_process stream \<or> utf8_valid (drop (off - ov_base v) (view_bytes v)))"

definition shown :: "(string \<Rightarrow> string) \<Rightarrow> ToolDataStream \<Rightarrow> string \<Rightarrow> string" where
  "shown encode stream bytes = (if is_process stream then encode bytes else bytes)"

lemma json_escaped_len_Nil [simp]: "json_escaped_len [] = 0"
  by (simp add: json_escaped_len_def)

lemma base64_fits: "base64_law encode \<Longrightarrow> n \<le> a div 4 * 3 \<Longrightarrow> length b = n \<Longrightarrow> json_escaped_len (encode b) \<le> a"
proof -
  assume "base64_law encode" "n \<le> a div 4 * 3" "length b = n"
  then have "json_escaped_len (encode b) = (n + 2) div 3 * 4" by (simp add: base64_law_def)
  moreover have "(n + 2) div 3 \<le> a div 4" using \<open>n \<le> a div 4 * 3\<close> by linarith
  ultimately show ?thesis using div_times_less_eq_dividend[of a 4] by simp
qed

lemma page_data_ok:
  assumes "base64_law encode" "6 \<le> a" "first @ second \<noteq> []"
    and "is_process stream \<or> second = [] \<and> utf8_valid first"
  obtains n where "page_data encode (a + 2) stream first second = Inr (shown encode stream (take n (first @ second)), n)"
    "0 < n" "n \<le> length (first @ second)" "json_escaped_len (shown encode stream (take n (first @ second))) \<le> a"
    "is_process stream \<or> utf8_valid (drop n first)"
proof (cases "is_process stream")
  case True
  define n where "n = min (a div 4 * 3) (length first + length second)"
  have taken: "(if n \<le> length first then take n first else first @ take (n - length first) second) = take n (first @ second)"
    by simp
  have pos: "0 < n"
  proof -
    have "0 < a div 4" using assms(2) by simp
    moreover have "0 < length first + length second" using assms(3) by auto
    ultimately show ?thesis by (simp add: n_def)
  qed
  have len: "length (take n (first @ second)) = n" by (simp add: n_def)
  show ?thesis
  proof (rule that[of n])
    show "page_data encode (a + 2) stream first second = Inr (shown encode stream (take n (first @ second)), n)"
      using True taken by (simp add: page_data_def shown_def n_def Let_def)
    show "json_escaped_len (shown encode stream (take n (first @ second))) \<le> a"
      using base64_fits[OF assms(1) _ len] True by (simp add: shown_def n_def)
  qed (use pos True in \<open>simp_all add: n_def\<close>)
next
  case False
  with assms(3,4) have t: "second = []" "utf8_valid first" "first \<noteq> []" by auto
  define p where "p = json_string_prefix first (a + 2)"
  note cut_facts = json_cut_valid[OF t(2) p_def]
  have len: "length p \<le> length first" by (metis cut_facts(1) length_take min.cobounded1)
  show ?thesis
  proof (rule that[of "length p"])
    show "page_data encode (a + 2) stream first second = Inr (shown encode stream (take (length p) (first @ second)), length p)"
      using False t cut_facts(1) p_def by (simp add: page_data_def shown_def Let_def)
    show "json_escaped_len (shown encode stream (take (length p) (first @ second))) \<le> a"
      using False t(1) cut_facts(1,3) by (simp add: shown_def)
  qed (use cut_facts t assms(2) len in auto)
qed

lemma page_len_bound:
  assumes "page_len_law L" "off < u64_bound" "next < u64_bound"
    and "json_escaped_len data \<le> max_bytes - L (base\<lparr>pg_base := off, pg_next := u64_bound - 1, pg_eof := False\<rparr>)"
    and "L (base\<lparr>pg_base := off, pg_next := u64_bound - 1, pg_eof := False\<rparr>) \<le> max_bytes" "pg_data base = []"
  shows "L (base\<lparr>pg_base := off, pg_next := next, pg_data := data, pg_eof := fin\<rparr>) \<le> max_bytes"
proof -
  from assms(1) obtain F where F: "\<And>p. L p = F (p\<lparr>pg_base := 0, pg_next := 0, pg_eof := False, pg_data := []\<rparr>)
     + length (show_nat (pg_base p)) + length (show_nat (pg_next p)) + (if pg_eof p then 4 else 5)
     + json_escaped_len (pg_data p)" by (auto simp: page_len_law_def)
  have "length (show_nat next) \<le> length (show_nat (u64_bound - 1))" using assms(3) by (intro show_nat_longer) simp
  with assms(4-6) show ?thesis by (cases base; cases fin) (simp_all add: F)
qed

lemma page_room_fits:
  assumes "page_len_law L" "page_room L v rq max_bytes" "off < u64_bound"
  shows "L ((base_page v rq (view_end v))\<lparr>pg_base := off, pg_next := u64_bound - 1, pg_eof := False\<rparr>) + 6 \<le> max_bytes"
proof -
  from assms(1) obtain F where F: "\<And>p. L p = F (p\<lparr>pg_base := 0, pg_next := 0, pg_eof := False, pg_data := []\<rparr>)
     + length (show_nat (pg_base p)) + length (show_nat (pg_next p)) + (if pg_eof p then 4 else 5)
     + json_escaped_len (pg_data p)" by (auto simp: page_len_law_def)
  have "length (show_nat off) \<le> length (show_nat (u64_bound - 1))" using assms(3) by (intro show_nat_longer) simp
  with assms(2) show ?thesis by (simp add: page_room_def F)
qed

lemma sliced:
  assumes "ov_base v \<le> off" "off < view_end v"
  defines "skip \<equiv> off - ov_base v"
  obtains first second where
    "(if skip < length (fst (ov_bytes v)) then (drop skip (fst (ov_bytes v)), snd (ov_bytes v))
      else (drop (skip - length (fst (ov_bytes v))) (snd (ov_bytes v)), [])) = (first, second)"
    "first @ second = drop skip (view_bytes v)" "first @ second \<noteq> []" "snd (ov_bytes v) = [] \<longrightarrow> second = []"
    "\<not> (length (fst (ov_bytes v)) \<le> skip \<and> length (snd (ov_bytes v)) < skip - length (fst (ov_bytes v)))"
proof -
  have skip: "skip < length (view_bytes v)" using assms by (auto simp: view_end_def)
  show ?thesis
  proof (cases "skip < length (fst (ov_bytes v))")
    case True
    then show ?thesis using that[of "drop skip (fst (ov_bytes v))" "snd (ov_bytes v)"]
      by (simp add: view_bytes_def)
  next
    case False
    then show ?thesis using that[of "drop (skip - length (fst (ov_bytes v))) (snd (ov_bytes v))" "[]"] skip
      by (auto simp: view_bytes_def)
  qed
qed

lemma project_page:
  assumes ok: "readable (rq_stream rq) v" and laws: "page_len_law L" "base64_law encode" and room: "page_room L v rq max_bytes"
    and off: "ov_base v \<le> rq_offset rq" "rq_offset rq < view_end v" "starts_scalar (rq_stream rq) v (rq_offset rq)"
  obtains n p where "project encode L v rq max_bytes = Some (Inr p)" "0 < n" "rq_offset rq + n \<le> view_end v"
    "pg_base p = rq_offset rq" "pg_next p = rq_offset rq + n" "L p \<le> max_bytes"
    "pg_data p = shown encode (rq_stream rq) (take n (drop (rq_offset rq - ov_base v) (view_bytes v)))"
    "starts_scalar (rq_stream rq) v (rq_offset rq + n)"
    "pg_eof p = (if is_process (rq_stream rq) then ov_complete v \<and> rq_offset rq + n = view_end v
       else rq_offset rq + n = view_end v)"
proof -
  let ?o = "rq_offset rq"
  let ?st = "rq_stream rq"
  let ?b = "base_page v rq (view_end v)"
  let ?t = "?b\<lparr>pg_base := ?o, pg_next := u64_bound - 1, pg_eof := False\<rparr>"
  have facts: "view_end v < u64_bound" "?o < u64_bound" "?o \<le> ov_observed v" "view_end v \<le> ov_observed v" "ov_seen v"
      "\<not> ov_corrupt v" "ov_availability v \<noteq> AvExpired" "is_process ?st \<Longrightarrow> ov_observed v = view_end v"
    using ok off(2) by (auto simp: readable_def)
  from off(1,2) obtain first second where fs:
    "(if ?o - ov_base v < length (fst (ov_bytes v)) then (drop (?o - ov_base v) (fst (ov_bytes v)), snd (ov_bytes v))
      else (drop (?o - ov_base v - length (fst (ov_bytes v))) (snd (ov_bytes v)), [])) = (first, second)"
    "first @ second = drop (?o - ov_base v) (view_bytes v)" "first @ second \<noteq> []" "snd (ov_bytes v) = [] \<longrightarrow> second = []"
    "\<not> (length (fst (ov_bytes v)) \<le> ?o - ov_base v \<and> length (snd (ov_bytes v)) < ?o - ov_base v - length (fst (ov_bytes v)))"
    by (rule sliced)
  define a where "a = max_bytes - L ?t"
  have fit: "L ?t + 6 \<le> max_bytes" using page_room_fits[OF laws(1) room facts(2)] .
  have plain: "is_process ?st \<or> second = [] \<and> utf8_valid first"
  proof (cases "is_process ?st")
    case False
    with ok have "snd (ov_bytes v) = []" by (simp add: readable_def)
    with fs(4) have "second = []" by simp
    with fs(2) off(3) False show ?thesis by (simp add: starts_scalar_def)
  qed simp
  have six: "6 \<le> a" using fit by (simp add: a_def)
  obtain n where n: "page_data encode (a + 2) ?st first second = Inr (shown encode ?st (take n (first @ second)), n)"
    "0 < n" "n \<le> length (first @ second)" "json_escaped_len (shown encode ?st (take n (first @ second))) \<le> a"
    "is_process ?st \<or> utf8_valid (drop n first)"
    by (rule page_data_ok[OF laws(2) six fs(3) plain])
  let ?d = "shown encode ?st (take n (first @ second))"
  have len: "length (first @ second) = view_end v - ?o" unfolding fs(2) using off(1) by (simp add: view_end_def)
  with n(3) off(2) have next_le: "?o + n \<le> view_end v" by linarith
  define p where "p = ?b\<lparr>pg_base := ?o, pg_next := ?o + n, pg_data := ?d,
    pg_eof := (if is_process ?st then ov_complete v \<and> ov_observed v \<le> ?o + n else view_end v \<le> ?o + n)\<rparr>"
  have Lp: "L p \<le> max_bytes"
    unfolding p_def
  proof (rule page_len_bound[OF laws(1)])
    show "?o + n < u64_bound" using next_le facts(1) by linarith
    show "json_escaped_len ?d \<le> max_bytes - L ?t" using n(4) by (simp only: a_def)
    show "L ?t \<le> max_bytes" using fit by simp
  qed (use facts(2) in \<open>simp_all add: base_page_def\<close>)
  have taken: "take_page encode L v rq max_bytes (view_end v) ?b first second = Some (Inr p)"
  proof -
    have sum: "checked_add ?o n = Some (?o + n)" using next_le facts(1) by simp
    have nlt: "\<not> max_bytes < L ?t" using fit by simp
    show ?thesis
      unfolding take_page_def Let_def if_not_P[OF nlt] n(1)[unfolded a_def] run_bind_Some sum.case prod.case sum
        Option.bind.bind_lunit fitting_page_def p_def[symmetric]
      using n(2) Lp by (simp add: encoded_result_def map_err_def)
  qed
  have "project encode L v rq max_bytes = Some (Inr p)"
  proof -
    have ne: "\<not> (first = [] \<and> second = [])" using fs(3) by auto
    have chk: "checked_add (ov_base v) (length (fst (ov_bytes v)) + length (snd (ov_bytes v))) = Some (view_end v)"
      using facts(1) by (simp add: view_end_def view_bytes_def)
    show ?thesis
      unfolding project_def Let_def chk Option.bind.bind_lunit
      using facts off(1,2) fs(1,5) taken ne by (simp add: Let_def) blast
  qed
  moreover have "starts_scalar ?st v (?o + n)"
  proof (cases "is_process ?st")
    case False
    with plain n(5) have "second = []" "utf8_valid (drop n first)" by auto
    moreover have "drop (?o + n - ov_base v) (view_bytes v) = drop n (first @ second)"
      unfolding fs(2) using off(1) by (simp add: add.commute)
    ultimately show ?thesis by (simp add: starts_scalar_def)
  qed (simp add: starts_scalar_def)
  moreover have "pg_eof p = (if is_process ?st then ov_complete v \<and> ?o + n = view_end v else ?o + n = view_end v)"
    using next_le facts(8) by (auto simp: p_def)
  ultimately show ?thesis
    using that[of p n] n(2) next_le Lp fs(2) by (simp add: p_def base_page_def)
qed

text \<open>
  A client asks for the page at an offset, then for the page at that page's next offset, and so on.
\<close>

inductive paged :: "(nat \<Rightarrow> (ReadError + ToolOutputPage) option) \<Rightarrow> nat \<Rightarrow> ToolOutputPage list \<Rightarrow> nat \<Rightarrow> bool" for ask where
  stop: "paged ask off [] off"
| page: "ask off = Some (Inr p) \<Longrightarrow> paged ask (pg_next p) ps off' \<Longrightarrow> paged ask off (p # ps) off'"

definition carries :: "(string \<Rightarrow> string) \<Rightarrow> (ToolOutputPage \<Rightarrow> nat) \<Rightarrow> ToolDataStream \<Rightarrow> nat \<Rightarrow> ToolOutputPage \<Rightarrow> string \<Rightarrow> bool" where
  "carries encode L stream max_bytes p piece =
     (piece \<noteq> [] \<and> pg_data p = shown encode stream piece \<and> pg_next p = pg_base p + length piece \<and> L p \<le> max_bytes)"

lemma pages_cover:
  assumes ok: "readable (rq_stream rq) v" and laws: "page_len_law L" "base64_law encode" and room: "page_room L v rq max_bytes"
  shows "ov_base v \<le> off \<Longrightarrow> off \<le> view_end v \<Longrightarrow> starts_scalar (rq_stream rq) v off \<Longrightarrow>
    \<exists>ps pieces. paged (\<lambda>off. project encode L v (rq\<lparr>rq_offset := off\<rparr>) max_bytes) off ps (view_end v)
      \<and> list_all2 (carries encode L (rq_stream rq) max_bytes) ps pieces
      \<and> concat pieces = drop (off - ov_base v) (view_bytes v)
      \<and> list_all (\<lambda>p. \<not> pg_eof p) (butlast ps)"
proof (induction "view_end v - off" arbitrary: off rule: less_induct)
  case less
  let ?ask = "\<lambda>off. project encode L v (rq\<lparr>rq_offset := off\<rparr>) max_bytes"
  show ?case
  proof (cases "off = view_end v")
    case True
    then show ?thesis
      by (intro exI[of _ "[]"]) (auto simp: view_end_def intro: paged.stop)
  next
    case False
    with less.prems have lt: "off < view_end v" by simp
    have room': "page_room L v (rq\<lparr>rq_offset := off\<rparr>) max_bytes"
      using room by (simp add: page_room_def base_page_def)
    obtain n p where p: "?ask off = Some (Inr p)" "0 < n" "off + n \<le> view_end v" "pg_base p = off" "pg_next p = off + n"
      "L p \<le> max_bytes" "pg_data p = shown encode (rq_stream rq) (take n (drop (off - ov_base v) (view_bytes v)))"
      "starts_scalar (rq_stream rq) v (off + n)"
      "pg_eof p = (if is_process (rq_stream rq) then ov_complete v \<and> off + n = view_end v else off + n = view_end v)"
      by (rule project_page[OF _ laws room']) (use ok lt less.prems in auto)
    have len: "length (take n (drop (off - ov_base v) (view_bytes v))) = n"
      using p(3) less.prems(1) by (simp add: view_end_def)
    have dec: "view_end v - (off + n) < view_end v - off" using p(2) lt by linarith
    from less.hyps[OF dec] p(3,8) less.prems(1) obtain ps pieces where IH:
      "paged ?ask (off + n) ps (view_end v)" "list_all2 (carries encode L (rq_stream rq) max_bytes) ps pieces"
      "concat pieces = drop (off + n - ov_base v) (view_bytes v)" "list_all (\<lambda>p. \<not> pg_eof p) (butlast ps)"
      by auto
    let ?piece = "take n (drop (off - ov_base v) (view_bytes v))"
    have "carries encode L (rq_stream rq) max_bytes p ?piece"
      unfolding carries_def len using p(2,4-7) len by auto
    moreover have "?piece @ concat pieces = drop (off - ov_base v) (view_bytes v)"
      unfolding IH(3) using less.prems(1) by (metis Nat.add_diff_assoc2 add.commute append_take_drop_id drop_drop)
    moreover have "paged ?ask off (p # ps) (view_end v)"
      using paged.page[of ?ask off p ps "view_end v"] p(1,5) IH(1) by simp
    moreover have "list_all (\<lambda>p. \<not> pg_eof p) (butlast (p # ps))"
    proof (cases ps)
      case (Cons q qs)
      from IH(1) Cons have "off + n \<noteq> view_end v"
      proof (rule_tac ccontr)
        assume "\<not> off + n \<noteq> view_end v"
        with IH(3) have "concat pieces = []" by (simp add: view_end_def)
        with IH(2) Cons show False by (cases pieces) (auto simp: carries_def)
      qed
      with p(9) IH(4) Cons show ?thesis by auto
    qed simp
    ultimately show ?thesis using IH(2) by (intro exI[of _ "p # ps"] exI[of _ "?piece # pieces"]) auto
  qed
qed

lemma page_at_end:
  assumes "readable (rq_stream rq) v" "rq_offset rq = view_end v" "project encode L v rq max_bytes = Some (Inr p)"
  shows "pg_data p = [] \<and> pg_next p = view_end v
    \<and> (is_process (rq_stream rq) \<longrightarrow> pg_eof p = ov_complete v)"
proof -
  have chk: "checked_add (ov_base v) (length (fst (ov_bytes v)) + length (snd (ov_bytes v))) = Some (view_end v)"
    using assms(1) by (simp add: readable_def view_end_def view_bytes_def)
  have "view_end v - ov_base v = length (fst (ov_bytes v)) + length (snd (ov_bytes v))"
    by (simp add: view_end_def view_bytes_def)
  then show ?thesis
    using assms unfolding project_def Let_def chk Option.bind.bind_lunit
    by (auto simp: readable_def fitting_page_def encoded_result_def map_err_def base_page_def view_end_def
        split: if_splits)
qed

section \<open>Every request is answered\<close>

definition view_sound :: "ToolDataStream \<Rightarrow> ToolOutputView \<Rightarrow> bool" where
  "view_sound stream v =
     (view_end v < u64_bound \<and> ov_base v \<le> ov_observed v
      \<and> (is_process stream \<and> ov_corrupt v \<longrightarrow> ov_complete v)
      \<and> (is_process stream \<and> \<not> ov_corrupt v \<and> ov_availability v \<noteq> AvExpired \<longrightarrow> view_end v = ov_observed v)
      \<and> (ov_availability v = AvPending \<longrightarrow> \<not> ov_complete v))"

definition advances :: "(ToolOutputPage \<Rightarrow> nat) \<Rightarrow> nat \<Rightarrow> bool \<Rightarrow> nat \<Rightarrow> ToolOutputPage \<Rightarrow> bool" where
  "advances L max_bytes finished off p =
     (L p \<le> max_bytes \<and> (pg_eof p \<or> off < pg_next p \<or> pg_next p = off \<and> \<not> finished))"

lemma fitting_page_advances:
  assumes "pg_eof p \<or> off < pg_next p \<or> pg_next p = off \<and> \<not> finished"
  shows "\<exists>x. fitting_page L max_bytes p = Some x \<and> (\<forall>q. x = Inr q \<longrightarrow> advances L max_bytes finished off q)"
  using assms by (auto simp: fitting_page_def encoded_result_def map_err_def advances_def)

lemma page_data_length: "page_data encode available stream first second = Inr (data, n) \<Longrightarrow> n \<le> length (first @ second)"
proof -
  have "prefix (json_string_prefix first available) first"
  proof (cases "available \<le> 2")
    case False
    then obtain k where "available = k + 2" by (metis add.commute le_Suc_ex nat_le_linear)
    then show ?thesis using json.cut_prefix[of first k] by simp
  qed (simp add: json_string_prefix_def take_is_prefix)
  then show "page_data encode available stream first second = Inr (data, n) \<Longrightarrow> n \<le> length (first @ second)"
    by (auto simp: page_data_def Let_def split: if_splits dest: prefix_length_le)
qed

lemma take_page_advances:
  assumes "rq_offset rq + length (first @ second) < u64_bound"
  shows "\<exists>x. take_page encode L v rq max_bytes end_at base first second = Some x
    \<and> (\<forall>p. x = Inr p \<longrightarrow> advances L max_bytes finished (rq_offset rq) p)"
proof (cases "max_bytes < L (base\<lparr>pg_base := rq_offset rq, pg_next := u64_bound - 1, pg_eof := False\<rparr>)")
  case False
  let ?a = "max_bytes - L (base\<lparr>pg_base := rq_offset rq, pg_next := u64_bound - 1, pg_eof := False\<rparr>) + 2"
  show ?thesis
  proof (cases "page_data encode ?a (rq_stream rq) first second")
    case (Inr dn)
    obtain data n where dn: "dn = (data, n)" by fastforce
    from page_data_length[OF Inr[unfolded dn]] assms have sum: "checked_add (rq_offset rq) n = Some (rq_offset rq + n)" by simp
    show ?thesis
      unfolding take_page_def Let_def if_not_P[OF False] Inr dn run_bind_Some sum.case prod.case sum Option.bind.bind_lunit
      by (cases "n = 0") (simp, simp only: if_False, rule fitting_page_advances, simp)
  qed (use False in \<open>simp add: take_page_def Let_def\<close>)
qed (simp add: take_page_def Let_def)

lemma project_advances:
  assumes "view_sound (rq_stream rq) v"
  shows "\<exists>x. project encode L v rq max_bytes = Some x
    \<and> (\<forall>p. x = Inr p \<longrightarrow> advances L max_bytes (ov_complete v) (rq_offset rq) p)"
proof -
  let ?o = "rq_offset rq"
  let ?fin = "view_end v"
  have chk: "checked_add (ov_base v) (length (fst (ov_bytes v)) + length (snd (ov_bytes v))) = Some ?fin"
    using assms by (simp add: view_sound_def view_end_def view_bytes_def)
  consider (gone) "ov_corrupt v \<or> ov_availability v = AvExpired" | (bad) "\<not> (ov_corrupt v \<or> ov_availability v = AvExpired)"
      "ov_observed v < ?o \<or> \<not> ov_seen v \<and> ?o \<noteq> 0"
    | (early) "\<not> (ov_corrupt v \<or> ov_availability v = AvExpired)" "\<not> (ov_observed v < ?o \<or> \<not> ov_seen v \<and> ?o \<noteq> 0)" "?o < ov_base v"
    | (late) "\<not> (ov_corrupt v \<or> ov_availability v = AvExpired)" "\<not> (ov_observed v < ?o \<or> \<not> ov_seen v \<and> ?o \<noteq> 0)"
      "\<not> ?o < ov_base v" "?fin < ?o"
    | (at_end) "\<not> (ov_corrupt v \<or> ov_availability v = AvExpired)" "\<not> (ov_observed v < ?o \<or> \<not> ov_seen v \<and> ?o \<noteq> 0)"
      "\<not> ?o < ov_base v" "\<not> ?fin < ?o" "?o = ?fin"
    | (inside) "\<not> (ov_corrupt v \<or> ov_availability v = AvExpired)" "\<not> (ov_observed v < ?o \<or> \<not> ov_seen v \<and> ?o \<noteq> 0)"
      "\<not> ?o < ov_base v" "\<not> ?fin < ?o" "?o < ?fin"
    by linarith
  then show ?thesis
  proof cases
    case gone
    show ?thesis
      unfolding project_def Let_def chk Option.bind.bind_lunit if_P[OF gone]
      using assms gone
      by (cases "is_process (rq_stream rq) \<and> \<not> ov_corrupt v \<and> ov_observed v < ?o")
        (simp, simp only: if_False, intro fitting_page_advances, auto simp: view_sound_def base_page_def)
  next
    case bad
    then show ?thesis unfolding project_def Let_def chk Option.bind.bind_lunit by simp
  next
    case early
    show ?thesis
      unfolding project_def Let_def chk Option.bind.bind_lunit if_not_P[OF early(1)] if_not_P[OF early(2)] if_P[OF early(3)]
      by (rule fitting_page_advances) (use early(3) assms in \<open>auto simp: view_sound_def\<close>)
  next
    case late
    show ?thesis
      unfolding project_def Let_def chk Option.bind.bind_lunit if_not_P[OF late(1)] if_not_P[OF late(2)] if_not_P[OF late(3)]
        if_P[OF late(4)]
      by (rule fitting_page_advances) simp
  next
    case at_end
    have skip: "?o - ov_base v = length (fst (ov_bytes v)) + length (snd (ov_bytes v))"
      using at_end(5) by (simp add: view_end_def view_bytes_def)
    have there: "\<not> (length (fst (ov_bytes v)) \<le> ?o - ov_base v
        \<and> length (snd (ov_bytes v)) < ?o - ov_base v - length (fst (ov_bytes v)))"
      and none: "(if ?o - ov_base v < length (fst (ov_bytes v)) then (drop (?o - ov_base v) (fst (ov_bytes v)), snd (ov_bytes v))
        else (drop (?o - ov_base v - length (fst (ov_bytes v))) (snd (ov_bytes v)), [])) = ([], [])"
      by (simp_all add: skip)
    have eof: "(if is_process (rq_stream rq) then ov_complete v \<and> ov_observed v \<le> ?o else ov_availability v \<noteq> AvPending)
        \<or> \<not> ov_complete v"
      using at_end(1,5) assms by (auto simp: view_sound_def)
    show ?thesis
      unfolding project_def Let_def chk Option.bind.bind_lunit if_not_P[OF at_end(1)] if_not_P[OF at_end(2)]
        if_not_P[OF at_end(3)] if_not_P[OF at_end(4)] if_not_P[OF there] none prod.case if_P[OF conjI[OF refl refl]]
      by (rule fitting_page_advances) (use eof in auto)
  next
    case inside
    from inside(3) have "ov_base v \<le> ?o" by simp
    from this inside(5) obtain first second where fs:
      "(if ?o - ov_base v < length (fst (ov_bytes v)) then (drop (?o - ov_base v) (fst (ov_bytes v)), snd (ov_bytes v))
        else (drop (?o - ov_base v - length (fst (ov_bytes v))) (snd (ov_bytes v)), [])) = (first, second)"
      "first @ second = drop (?o - ov_base v) (view_bytes v)" "first @ second \<noteq> []" "snd (ov_bytes v) = [] \<longrightarrow> second = []"
      "\<not> (length (fst (ov_bytes v)) \<le> ?o - ov_base v \<and> length (snd (ov_bytes v)) < ?o - ov_base v - length (fst (ov_bytes v)))"
      by (rule sliced)
    have ne: "\<not> (first = [] \<and> second = [])" using fs(3) by auto
    have "?o + length (first @ second) = ?fin" unfolding fs(2) using inside(3,5) by (simp add: view_end_def)
    then have lt: "?o + length (first @ second) < u64_bound" using assms by (simp add: view_sound_def)
    show ?thesis
      unfolding project_def Let_def chk Option.bind.bind_lunit if_not_P[OF inside(1)] if_not_P[OF inside(2)]
        if_not_P[OF inside(3)] if_not_P[OF inside(4)] if_not_P[OF fs(5)] fs(1) prod.case if_not_P[OF ne]
      by (rule take_page_advances[OF lt])
  qed
qed

section \<open>Live and stored views\<close>

lemma process_streams: "is_process s \<Longrightarrow> (\<exists>w. record_stream r s = Some w \<and> output_view wrap r s = window_view wrap r s w)"
  by (cases s) (simp_all add: is_process_def)

lemma window_view_parts:
  assumes "stream_window_ok w"
  shows "view_bytes (window_view wrap r s w) = w_bytes w" "view_end (window_view wrap r s w) = w_end w"
    "ov_base (window_view wrap r s w) = w_start w" "ov_observed (window_view wrap r s w) = w_end w"
    "\<not> ov_corrupt (window_view wrap r s w)"
  using assms by (simp_all add: window_view_def view_end_def view_bytes_def stream_window_ok_def)

lemma window_span: "stream_window_ok w \<Longrightarrow> w_start w \<le> w_end w \<and> w_end w < u64_bound"
  by (auto simp: stream_window_ok_def)

lemma record_stream_ok: "record_ok r \<Longrightarrow> record_stream r s = Some w \<Longrightarrow> stream_window_ok w"
  by (cases s) (auto simp: record_ok_def)

lemma text_availability_pending: "text_availability seen expired terminal n m t = AvPending \<Longrightarrow> \<not> terminal"
  by (auto simp: text_availability_def split: if_splits)

lemma live_view_sound:
  assumes "record_ok r" "record_size r < u64_bound"
  shows "view_sound s (output_view wrap r s)"
proof (cases "is_process s")
  case True
  then obtain w where w: "record_stream r s = Some w" "output_view wrap r s = window_view wrap r s w"
    using process_streams by blast
  note parts = window_view_parts[OF record_stream_ok[OF assms(1) w(1)], of wrap r s]
  have "ov_availability (window_view wrap r s w) = AvPending \<Longrightarrow> \<not> ov_complete (window_view wrap r s w)"
    by (auto simp: window_view_def process_availability_def w(1) split: if_splits)
  with parts window_span[OF record_stream_ok[OF assms(1) w(1)]] show ?thesis by (simp add: view_sound_def w(2))
next
  case False
  have len: "length (r_input r) < u64_bound" "length (r_result r) < u64_bound" using assms(2) by (simp_all add: record_size_def)
  with False show ?thesis
    by (cases s) (auto simp: is_process_def view_sound_def text_view_def view_end_def view_bytes_def
        dest: text_availability_pending split: if_splits)
qed

lemma live_readable:
  assumes "record_ok r" "record_stream r s = Some w" "w_seen w" "\<not> w_expired w"
  shows "readable s (output_view wrap r s)" "usable (ov_availability (output_view wrap r s))"
proof -
  have s: "is_process s" and v: "output_view wrap r s = window_view wrap r s w"
    using assms(2) by (cases s; auto simp: is_process_def)+
  note ok = record_stream_ok[OF assms(1,2)]
  have "ov_availability (window_view wrap r s w) \<in> {AvAvailable, AvPartial}"
    using assms(2-4) ok by (simp add: window_view_def process_availability_def stream_window_ok_def)
  with window_view_parts[OF ok, of wrap r s] window_span[OF ok] s assms(3) show "readable s (output_view wrap r s)"
    "usable (ov_availability (output_view wrap r s))"
    by (auto simp: readable_def v usable_def, simp_all add: window_view_def)
qed

text \<open>Every number of a parsed record is a 64-bit word.\<close>

definition stored_u64 :: "StoredToolRecord \<Rightarrow> bool" where
  "stored_u64 s = (sw_end (st_stdout s) < u64_bound \<and> sw_end (st_stderr s) < u64_bound)"

lemma validated_command:
  assumes "validate_stored_tool_record s ref = Inr ()"
  shows "stored_terminal s"
  using assms validated_parts(2)[OF assms]
  by (auto simp: validate_stored_tool_record_def validate_command_def stored_terminal_def res_bind_eq_Inr
      split: if_splits option.splits)

lemma read_blob_length:
  "read_blob sha file n hash = Some (content, bad) \<Longrightarrow> content = None \<or> (\<exists>b. content = Some b \<and> length b = n \<and> \<not> bad)"
  by (auto simp: read_blob_def Let_def split: if_splits option.splits)

lemma read_blob_present:
  "read_blob sha file n hash = Some (content, False) \<Longrightarrow> unwrap_or content [] = [] \<and> n = 0 \<or> (\<exists>b. content = Some b \<and> length b = n)"
  by (auto simp: read_blob_def Let_def unwrap_or_def split: if_splits option.splits)

lemma stored_view_sound:
  assumes valid: "validate_stored_tool_record st ref = Inr ()" and u64: "stored_u64 st"
    and blob: "read_at sha dk st (scope_index s) = Some (content, bad)"
  shows "view_sound s (view_from_stored st s (content, bad))" "ov_complete (view_from_stored st s (content, bad))"
proof -
  note ok = validated_parts[OF valid]
  have small: "n \<le> MAX_RECORD_BLOB_BYTES \<Longrightarrow> n < u64_bound" for n using blob_limit by simp
  have window: "view_sound s (stored_window_view st w (content, bad)) \<and> ov_complete (stored_window_view st w (content, bad))"
    if "is_process s" "validate_stream w = Inr ()" "sw_end w < u64_bound"
      "read_blob sha f (sw_file_bytes w) (sw_sha256 w) = Some (content, bad)" for w f
  proof -
    have "length (unwrap_or content []) \<le> sw_file_bytes w" "\<not> bad \<Longrightarrow> length (unwrap_or content []) = sw_file_bytes w"
      using read_blob_length[OF that(4)] read_blob_present[of sha f "sw_file_bytes w" "sw_sha256 w" content] that(4)
      by (auto simp: unwrap_or_def)
    moreover have "ov_complete (stored_window_view st w (content, bad))"
      using validated_command[OF valid] by (simp add: stored_window_view_def)
    ultimately show ?thesis
      using that(1-3) validated_command[OF valid]
      by (auto simp: view_sound_def stored_window_view_def view_end_def view_bytes_def validate_stream_ok split: if_splits)
  qed
  have plain: "view_sound s (stored_text_view st su (content, bad)) \<and> ov_complete (stored_text_view st su (content, bad))"
    if "\<not> is_process s" "su_file_bytes su \<le> MAX_RECORD_BLOB_BYTES"
      "read_blob sha f (su_file_bytes su) (su_sha256 su) = Some (content, bad)" for su f
  proof -
    have "length (unwrap_or content []) \<le> su_file_bytes su" using read_blob_length[OF that(3)] by (auto simp: unwrap_or_def)
    with that(1,2) small[of "su_file_bytes su"] ok(2) show ?thesis
      by (auto simp: view_sound_def stored_text_view_def view_end_def view_bytes_def Let_def
          dest: text_availability_pending split: if_splits)
  qed
  have texts: "su_file_bytes (st_input st) \<le> MAX_RECORD_BLOB_BYTES" "su_file_bytes (st_result st) \<le> MAX_RECORD_BLOB_BYTES"
    using total_bytes_exact[OF ok(7)] by simp_all
  have "view_sound s (view_from_stored st s (content, bad)) \<and> ov_complete (view_from_stored st s (content, bad))"
  proof (cases s)
    case InputStream
    with blob texts plain[of "st_input st"] show ?thesis by (auto simp: read_at_def stored_blobs_def is_process_def)
  next
    case OutputStream
    with blob texts plain[of "st_result st"] show ?thesis by (auto simp: read_at_def stored_blobs_def is_process_def)
  next
    case StdoutStream
    with blob u64 ok(5) window[of "st_stdout st"] show ?thesis
      by (auto simp: read_at_def stored_blobs_def stored_u64_def is_process_def)
  next
    case StderrStream
    with blob u64 ok(6) window[of "st_stderr st"] show ?thesis
      by (auto simp: read_at_def stored_blobs_def stored_u64_def is_process_def)
  qed
  then show "view_sound s (view_from_stored st s (content, bad))" "ov_complete (view_from_stored st s (content, bad))"
    by auto
qed

section \<open>Reading back what was evicted\<close>

text \<open>Where the ring buffer wraps does not show.\<close>

lemma process_page_data:
  "is_process s \<Longrightarrow> page_data encode available s first second
    = (let n = min ((available - 2) div 4 * 3) (length (first @ second)) in Inr (encode (take n (first @ second)), n))"
  by (simp add: page_data_def Let_def)

lemma take_page_joined:
  assumes "is_process (rq_stream rq)" "first @ second = first' @ second'" "ov_complete v = ov_complete v'"
    and "ov_observed v = ov_observed v'"
  shows "take_page encode L v rq max_bytes end_at base first second = take_page encode L v' rq max_bytes end_at base first' second'"
proof -
  have data: "page_data encode a (rq_stream rq) first second = page_data encode a (rq_stream rq) first' second'" for a
    unfolding process_page_data[OF assms(1)] assms(2) ..
  show ?thesis unfolding take_page_def assms(3,4) data ..
qed

lemma project_joined:
  assumes "is_process (rq_stream rq)" "view_bytes v = view_bytes v'" "v\<lparr>ov_bytes := ([], [])\<rparr> = v'\<lparr>ov_bytes := ([], [])\<rparr>"
  shows "project encode L v rq max_bytes = project encode L v' rq max_bytes"
proof -
  have eqs: "ov_base v = ov_base v'" "ov_observed v = ov_observed v'" "ov_seen v = ov_seen v'" "ov_complete v = ov_complete v'"
    "ov_truncated v = ov_truncated v'" "ov_availability v = ov_availability v'" "ov_corrupt v = ov_corrupt v'"
    using assms(3) by (cases v; cases v'; simp)+
  have len: "length (fst (ov_bytes v)) + length (snd (ov_bytes v)) = length (fst (ov_bytes v')) + length (snd (ov_bytes v'))"
    using assms(2) by (metis view_bytes_def length_append)
  have base: "base_page v rq e = base_page v' rq e" for e by (simp add: base_page_def eqs)
  define skip where "skip = rq_offset rq - ov_base v'"
  define pair where "pair u = (if skip < length (fst (ov_bytes u)) then (drop skip (fst (ov_bytes u)), snd (ov_bytes u))
      else (drop (skip - length (fst (ov_bytes u))) (snd (ov_bytes u)), []))" for u :: ToolOutputView
  have joined: "fst (pair u) @ snd (pair u) = drop skip (view_bytes u)" for u
    by (simp add: pair_def view_bytes_def)
  have out: "(length (fst (ov_bytes u)) \<le> skip \<and> length (snd (ov_bytes u)) < skip - length (fst (ov_bytes u)))
      \<longleftrightarrow> length (view_bytes u) < skip" for u
    by (auto simp: view_bytes_def)
  have "(if fst (pair v) = [] \<and> snd (pair v) = [] then P else take_page encode L v rq max_bytes e b (fst (pair v)) (snd (pair v)))
      = (if fst (pair v') = [] \<and> snd (pair v') = [] then P else take_page encode L v' rq max_bytes e b (fst (pair v')) (snd (pair v')))"
    for P e b
  proof -
    have same: "fst (pair v) @ snd (pair v) = fst (pair v') @ snd (pair v')" unfolding joined assms(2) ..
    then have "(fst (pair v) = [] \<and> snd (pair v) = []) = (fst (pair v') = [] \<and> snd (pair v') = [])"
      by (metis append_is_Nil_conv)
    then show ?thesis using take_page_joined[OF assms(1) same eqs(4,2)] by simp
  qed
  then show ?thesis
    unfolding project_def Let_def len eqs base skip_def[symmetric] out pair_def[symmetric] assms(2) case_prod_beta
    by (simp only:)
qed

text \<open>What eviction leaves: the facts of the call, and each channel whole or expired.\<close>

definition window_kept :: "StreamWindow \<Rightarrow> StreamWindow \<Rightarrow> bool" where
  "window_kept w w' = (w' = w \<or> w_expired w' \<and> \<not> w_corrupt w' \<and> w_seen w' = w_seen w \<and> w_complete w' = w_complete w \<and> w_end w' = w_end w
     \<and> w_seen w)"

definition facts_kept :: "ToolRecord \<Rightarrow> ToolRecord \<Rightarrow> bool" where
  "facts_kept r r' =
     (r_name r' = r_name r \<and> r_state r' = r_state r \<and> r_outcome r' = r_outcome r \<and> r_command r' = r_command r
      \<and> r_input_seen r' = r_input_seen r \<and> r_input_total r' = r_input_total r \<and> r_input_truncated r' = r_input_truncated r
      \<and> r_result_seen r' = r_result_seen r \<and> r_result_total r' = r_result_total r
      \<and> r_result_truncated r' = r_result_truncated r
      \<and> (r_input r' = r_input r \<and> r_input_expired r' = r_input_expired r \<or> r_input_expired r')
      \<and> (r_result r' = r_result r \<and> r_result_expired r' = r_result_expired r \<or> r_result_expired r')
      \<and> window_kept (r_stdout r) (r_stdout r') \<and> window_kept (r_stderr r) (r_stderr r') \<and> record_ok r')"

lemma window_kept_evict:
  "stream_window_ok w' \<Longrightarrow> window_evictable w' \<Longrightarrow> window_kept w w' \<Longrightarrow> window_kept w (window_evict w')"
  by (auto simp: window_kept_def window_evict_def stream_window_ok_def window_evictable_def)

lemma evicts_facts_kept:
  assumes "evicts_part q size_of f" "facts_kept r q" "record_size q < u64_bound"
  shows "facts_kept r (f q)"
proof -
  have ok: "record_ok (f q)" using evicts_ok[OF assms(1) _ assms(3)] assms(2) by (simp add: facts_kept_def)
  from assms(1) show ?thesis
  proof cases
    case (stream st)
    have wins: "stream_window_ok (r_stdout q)" "stream_window_ok (r_stderr q)" "window_kept (r_stdout r) (r_stdout q)"
      "window_kept (r_stderr r) (r_stderr q)"
      using assms(2) by (simp_all add: facts_kept_def record_ok_def)
    from stream_victim_Some[OF stream(3)] show ?thesis
    proof (elim disjE conjE)
      assume "st = StdoutStream" "window_evictable (r_stdout q)"
      with wins stream(2) assms(2) ok window_kept_evict show ?thesis by (simp add: facts_kept_def evict_stream_def)
    next
      assume "st = StderrStream" "window_evictable (r_stderr q)"
      with wins stream(2) assms(2) ok window_kept_evict show ?thesis by (simp add: facts_kept_def evict_stream_def)
    qed
  qed (use assms(2) ok in \<open>simp_all add: facts_kept_def evict_input_def evict_result_def drop_change_bytes_def\<close>)
qed

lemma evolved_facts_kept:
  assumes "evolved r r'" "record_ok r" "record_size r < u64_bound"
  shows "facts_kept r r' \<and> record_size r' \<le> record_size r"
  using assms(1)
proof induction
  case same
  show ?case using assms(2) by (simp add: facts_kept_def window_kept_def)
next
  case (evicted q size_of f)
  then have q: "facts_kept r q" "record_size q < u64_bound" "record_ok q" using assms(3) by (auto simp: facts_kept_def)
  from evicts_facts_kept[OF evicted.hyps(2) q(1,2)] evicts_ok[OF evicted.hyps(2) q(3,2)] evicted.IH show ?case by simp
qed

lemma agree_same [simp]: "agree_on f x x"
  by (cases x) simp_all

lemma agree_eq: "(\<And>x. a = Some x \<Longrightarrow> b = Some x \<or> b = None) \<Longrightarrow> agree_on f a b"
  by (cases a; cases b) auto

lemma window_end_kept: "window_kept w w' \<Longrightarrow> window_end w' = window_end w"
  by (auto simp: window_kept_def window_end_def)

lemma command_facts_live [simp]: "command_facts (live_command r cmd) = command_facts cmd"
  "command_facts (stored_command s cmd) = command_facts cmd"
  by (simp_all add: command_facts_def live_command_def stored_command_def)

lemma snapshot_window_end: "window_snapshot sha w = (sw, blob) \<Longrightarrow> stored_window_end sw = window_end w"
  by (auto simp: window_snapshot_def snapshot_blob_def stored_window_end_def window_end_def split: if_splits)

text \<open>The stored copy of a record, and the blob of a channel in it.\<close>

fun channel_blob :: "ToolPersistenceSnapshot \<Rightarrow> ToolDataStream \<Rightarrow> string option" where
  "channel_blob snap InputStream = sn_input snap"
| "channel_blob snap OutputStream = sn_result snap"
| "channel_blob snap StdoutStream = sn_stdout snap"
| "channel_blob snap StderrStream = sn_stderr snap"

lemma snapshot_compatible:
  assumes "get_record d ref = Some r" "snapshot_for_persistence sha d ref = Some snap" "facts_kept r r'"
  shows "compatible (metadata_from_record r' ref') (metadata_from_stored (sn_record snap))"
proof -
  have final: "record_is_terminal r" using assms(1,2) by (auto simp: snapshot_for_persistence_def split: if_splits)
  obtain ib inb ih rb rn rh ow ob ew eb snap' where parts:
    "window_snapshot sha (r_stdout r) = (ow, ob)" "window_snapshot sha (r_stderr r) = (ew, eb)"
    and snap: "snapshot_for_persistence sha d ref = Some snap'"
    "sn_record snap' = \<lparr>st_version = TOOL_RECORD_FORMAT_VERSION, st_ref = ref, st_name = r_name r,
              st_subject = r_subject r, st_subject_truncated = r_subject_truncated r, st_state = r_state r,
              st_phase = r_phase r, st_started_at = r_started_at r, st_finished_at = r_finished_at r,
              st_outcome = r_outcome r,
              st_input = \<lparr>su_total = r_input_total r, su_seen = r_input_seen r, su_truncated = r_input_truncated r,
                su_expired = r_input_expired r, su_file_bytes = inb, su_sha256 = ih\<rparr>,
              st_result = \<lparr>su_total = r_result_total r, su_seen = r_result_seen r, su_truncated = r_result_truncated r,
                su_expired = r_result_expired r, su_file_bytes = rn, su_sha256 = rh\<rparr>,
              st_stdout = ow, st_stderr = ew,
              st_command = map_option (live_command r) (r_command r),
              st_file_change = map_option change_stored (r_file_change r)\<rparr>"
    by (rule snapshot_parts[OF assms(1) final])
  have rec: "sn_record snap = sn_record snap'" using snap(1) assms(2) by simp
  have ends: "window_end (r_stdout r') = stored_window_end ow" "window_end (r_stderr r') = stored_window_end ew"
    using assms(3) snapshot_window_end[OF parts(1)] snapshot_window_end[OF parts(2)]
    by (simp_all add: facts_kept_def window_end_kept)
  show ?thesis
    unfolding rec snap(2) metadata_from_record_def metadata_from_stored_def compatible_def Let_def execution_data_def
    using assms(3) ends by (cases "r_command r") (simp_all add: facts_kept_def)
qed

lemma snapshot_blob_bytes: "(expired \<longrightarrow> t = []) \<Longrightarrow> snapshot_blob sha t expired = (blob, n, h) \<Longrightarrow> unwrap_or blob [] = t \<and> n = length t"
  by (auto simp: snapshot_blob_def unwrap_or_def split: if_splits)

lemma stored_window_same:
  assumes "window_snapshot sha w = (sw, blob)" "stream_window_ok w" "stored_terminal st = stream_final r" "record_stream r s = Some w"
  shows "view_bytes (stored_window_view st sw (blob, False)) = view_bytes (window_view wrap r s w)"
    "(stored_window_view st sw (blob, False))\<lparr>ov_bytes := ([], [])\<rparr> = (window_view wrap r s w)\<lparr>ov_bytes := ([], [])\<rparr>"
proof -
  obtain bl n h where b: "snapshot_blob sha (w_bytes w) (w_expired w) = (bl, n, h)" by (metis prod_cases3)
  with assms(1) have sw: "sw = \<lparr>sw_start = w_start w, sw_end = w_end w, sw_seen = w_seen w, sw_complete = w_complete w,
      sw_truncated = w_truncated w, sw_expired = w_expired w, sw_file_bytes = n, sw_sha256 = h\<rparr>" "blob = bl"
    by (simp_all add: window_snapshot_def)
  have "unwrap_or bl [] = w_bytes w" using snapshot_blob_bytes[OF _ b] assms(2) by (simp add: stream_window_ok_def)
  then show "view_bytes (stored_window_view st sw (blob, False)) = view_bytes (window_view wrap r s w)"
    by (simp add: view_bytes_def stored_window_view_def window_view_def sw)
  show "(stored_window_view st sw (blob, False))\<lparr>ov_bytes := ([], [])\<rparr> = (window_view wrap r s w)\<lparr>ov_bytes := ([], [])\<rparr>"
    using assms(2-4) by (simp add: stored_window_view_def window_view_def sw process_availability_def stream_window_ok_def)
qed

lemma stored_text_same:
  assumes "snapshot_blob sha t expired = (blob, n, h)" "text_ok cap t len seen expired" "utf8_valid t" "st_state st = r_state r"
  shows "stored_text_view st \<lparr>su_total = len, su_seen = seen, su_truncated = trunc, su_expired = expired, su_file_bytes = n,
      su_sha256 = h\<rparr> (blob, False) = text_view r t len seen expired trunc False"
proof -
  have "unwrap_or blob [] = t \<and> n = length t" using snapshot_blob_bytes[OF _ assms(1)] assms(2) by (simp add: text_ok_def)
  then show ?thesis using assms(3,4) by (simp add: stored_text_view_def text_view_def Let_def)
qed

lemma stored_view_same:
  assumes "get_record d ref = Some r" "snapshot_for_persistence sha d ref = Some snap" "record_ok r"
    and "utf8_valid (r_input r)" "utf8_valid (r_result r)"
  shows "view_bytes (view_from_stored (sn_record snap) s (channel_blob snap s, False)) = view_bytes (output_view wrap r s)
    \<and> (view_from_stored (sn_record snap) s (channel_blob snap s, False))\<lparr>ov_bytes := ([], [])\<rparr>
        = (output_view wrap r s)\<lparr>ov_bytes := ([], [])\<rparr>
    \<and> (\<not> is_process s \<longrightarrow> view_from_stored (sn_record snap) s (channel_blob snap s, False) = output_view wrap r s)"
proof -
  have final: "record_is_terminal r" using assms(1,2) by (auto simp: snapshot_for_persistence_def split: if_splits)
  obtain ib inb ih rb rn rh ow ob ew eb snap' where parts:
    "snapshot_blob sha (r_input r) (r_input_expired r) = (ib, inb, ih)"
    "snapshot_blob sha (r_result r) (r_result_expired r) = (rb, rn, rh)"
    "window_snapshot sha (r_stdout r) = (ow, ob)" "window_snapshot sha (r_stderr r) = (ew, eb)"
    and snap: "snapshot_for_persistence sha d ref = Some snap'"
    "sn_input snap' = ib" "sn_result snap' = rb" "sn_stdout snap' = ob" "sn_stderr snap' = eb"
    "sn_record snap' = \<lparr>st_version = TOOL_RECORD_FORMAT_VERSION, st_ref = ref, st_name = r_name r,
              st_subject = r_subject r, st_subject_truncated = r_subject_truncated r, st_state = r_state r,
              st_phase = r_phase r, st_started_at = r_started_at r, st_finished_at = r_finished_at r,
              st_outcome = r_outcome r,
              st_input = \<lparr>su_total = r_input_total r, su_seen = r_input_seen r, su_truncated = r_input_truncated r,
                su_expired = r_input_expired r, su_file_bytes = inb, su_sha256 = ih\<rparr>,
              st_result = \<lparr>su_total = r_result_total r, su_seen = r_result_seen r, su_truncated = r_result_truncated r,
                su_expired = r_result_expired r, su_file_bytes = rn, su_sha256 = rh\<rparr>,
              st_stdout = ow, st_stderr = ew,
              st_command = map_option (live_command r) (r_command r),
              st_file_change = map_option change_stored (r_file_change r)\<rparr>"
    by (rule snapshot_parts[OF assms(1) final])
  have eq: "snap = snap'" using snap(1) assms(2) by simp
  have "stored_terminal (sn_record snap') = stream_final r"
    by (cases "r_command r") (simp_all add: stored_terminal_def snap(6) stream_final_def live_command_def)
  moreover have "st_state (sn_record snap') = r_state r" by (simp add: snap(6))
  moreover note ok = assms(3)[unfolded record_ok_def]
  ultimately show ?thesis
    using stored_text_same[OF parts(1), of MAX_TOOL_INPUT_BYTES _ _ "sn_record snap'" r]
      stored_text_same[OF parts(2), of MAX_TOOL_RESULT_BYTES _ _ "sn_record snap'" r]
      stored_window_same[OF parts(3), of "sn_record snap'" r StdoutStream wrap]
      stored_window_same[OF parts(4), of "sn_record snap'" r StderrStream wrap] assms(4,5)
    unfolding eq
    by (cases s) (simp_all add: snap(2-5) is_process_def, simp_all add: snap(6))
qed

lemma stored_page_same:
  assumes "get_record d ref = Some r" "snapshot_for_persistence sha d ref = Some snap" "record_ok r"
    and "utf8_valid (r_input r)" "utf8_valid (r_result r)" "s = rq_stream rq"
  shows "project encode L (view_from_stored (sn_record snap) s (channel_blob snap s, False)) rq max_bytes
      = project encode L (output_view wrap r s) rq max_bytes"
    "ov_availability (view_from_stored (sn_record snap) s (channel_blob snap s, False)) = ov_availability (output_view wrap r s)"
proof -
  note same = stored_view_same[OF assms(1-5), of s wrap]
  show "project encode L (view_from_stored (sn_record snap) s (channel_blob snap s, False)) rq max_bytes
      = project encode L (output_view wrap r s) rq max_bytes"
  proof (cases "is_process s")
    case True
    with same show ?thesis by (intro project_joined) (simp_all add: assms(6))
  next
    case False
    with same show ?thesis by simp
  qed
  from same have "ov_availability ((view_from_stored (sn_record snap) s (channel_blob snap s, False))\<lparr>ov_bytes := ([], [])\<rparr>)
      = ov_availability ((output_view wrap r s)\<lparr>ov_bytes := ([], [])\<rparr>)" by simp
  then show "ov_availability (view_from_stored (sn_record snap) s (channel_blob snap s, False)) = ov_availability (output_view wrap r s)"
    by simp
qed

definition stored_at :: "ToolDisk \<Rightarrow> ToolPersistenceSnapshot \<Rightarrow> bool" where
  "stored_at dk snap =
     (\<not> dk_late dk \<and> dk_root dk = Inr () \<and> dk_session dk = Inr Directory \<and> dk_tools dk = Inr Directory
      \<and> dk_record dk = Inr Directory
      \<and> (\<exists>c. dk_open dk = FileContent c \<and> length c \<le> MAX_TOOL_METADATA_BYTES \<and> dk_parse dk c = Some (sn_record snap))
      \<and> (\<forall>(name, blob)\<in>set (blobs snap). dk_blob dk name = blob))"

lemma stored_source:
  assumes "stored_at dk snap" "validate_stored_tool_record (sn_record snap) ref = Inr ()"
    and "list_all2 (\<lambda>(name, blob) (name', bytes, sh). name = name' \<and> read_blob sha blob bytes sh = Some (blob, False))
        (take 4 (blobs snap)) (stored_blobs (sn_record snap))"
  shows "read_tool_source sha dk ref (StreamScope s)
    = Some (Inr (Some \<lparr>sr_metadata = sn_record snap, sr_payload = StreamPayload (channel_blob snap s, False)\<rparr>))"
proof -
  from assms(1) obtain c where c: "dk_open dk = FileContent c" "length c \<le> MAX_TOOL_METADATA_BYTES"
    "dk_parse dk c = Some (sn_record snap)" by (auto simp: stored_at_def)
  have "load_tool_metadata dk = Inr (Some (sn_record snap))"
    using c by (simp add: load_tool_metadata_def Let_def)
  with assms(1,2) have "stored_tool_metadata dk ref = Inr (Some (sn_record snap))"
    by (simp add: stored_tool_metadata_def stored_at_def real_dir_opt_def)
  moreover have "dk_blob dk TOOL_INPUT_FILE = sn_input snap" "dk_blob dk TOOL_RESULT_FILE = sn_result snap"
    "dk_blob dk TOOL_STDOUT_FILE = sn_stdout snap" "dk_blob dk TOOL_STDERR_FILE = sn_stderr snap"
    using assms(1) by (simp_all add: stored_at_def blobs_def)
  then have "read_at sha dk (sn_record snap) (scope_index s) = Some (channel_blob snap s, False)"
    using assms(3) by (cases s) (simp_all add: read_at_def stored_blobs_def blobs_def)
  ultimately show ?thesis using assms(1) by (simp add: read_tool_source_def stored_at_def)
qed

lemma kept_window_view:
  assumes "window_kept w w'" "record_stream r s = Some w" "record_stream r' s = Some w'" "stream_final r' = stream_final r"
  shows "ov_availability (window_view wrap r' s w') = AvExpired \<or> window_view wrap r' s w' = window_view wrap r s w"
  using assms(1) unfolding window_kept_def
  by (elim disjE conjE) (simp_all add: window_view_def process_availability_def assms(2-4))

lemma kept_view:
  assumes "facts_kept r r'" "record_ok r"
  shows "ov_availability (output_view wrap r' s) = AvExpired \<or> output_view wrap r' s = output_view wrap r s"
proof -
  have final: "stream_final r' = stream_final r" using assms(1) by (cases "r_command r") (simp_all add: facts_kept_def stream_final_def)
  have ok: "record_ok r'" using assms by (simp add: facts_kept_def)
  have kept: "window_kept (r_stdout r) (r_stdout r')" "window_kept (r_stderr r) (r_stderr r')" using assms by (simp_all add: facts_kept_def)
  show ?thesis
  proof (cases s)
    case StdoutStream
    with kept_window_view[OF kept(1) _ _ final, of StdoutStream] show ?thesis by simp
  next
    case StderrStream
    with kept_window_view[OF kept(2) _ _ final, of StderrStream] show ?thesis by simp
  next
    case InputStream
    with assms ok show ?thesis
      by (cases "r_input_expired r'") (simp_all add: facts_kept_def text_view_def text_availability_def record_ok_def)
  next
    case OutputStream
    with assms ok show ?thesis
      by (cases "r_result_expired r'") (simp_all add: facts_kept_def text_view_def text_availability_def record_ok_def)
  qed
qed

lemma tool_output_live:
  assumes "validate_max_bytes (rq_max_bytes rq) = Inr ()" "query_check q 1 = Inr ()" "warm_record data (rq_ref rq) = Some r"
    and "\<not> output_needs_stored r (rq_ref rq) (output_view wrap r (rq_stream rq))"
  shows "tool_output env wrap q dk data rq
    = project (env_encode env) (env_page_len env) (output_view wrap r (rq_stream rq)) rq
        (unwrap_or (rq_max_bytes rq) DEFAULT_READ_MAX_BYTES)"
  using assms by (simp add: tool_output_def Let_def)

lemma facts_terminal:
  assumes "facts_kept r r'" "record_is_terminal r"
  shows "metadata_terminal (metadata_from_record r' ref)"
  using assms by (cases "r_command r")
    (simp_all add: metadata_terminal_def metadata_from_record_def execution_data_def facts_kept_def record_is_terminal_def
      live_command_def)

section \<open>Sizes of summaries\<close>

text \<open>What the code relies on in serde for the two shapes of a result.\<close>

definition bool_len :: "bool \<Rightarrow> nat" where
  "bool_len b = (if b then 4 else 5)"

definition count_field_len :: "string \<Rightarrow> nat option \<Rightarrow> nat" where
  "count_field_len key v = (case v of None \<Rightarrow> 0 | Some n \<Rightarrow> length key + 4 + length (show_nat n))"

definition text_field_len :: "string \<Rightarrow> string option \<Rightarrow> nat" where
  "text_field_len key v = (case v of None \<Rightarrow> 0 | Some t \<Rightarrow> length key + 6 + json_escaped_len t)"

definition display_len :: "ToolDisplay \<Rightarrow> nat" where
  "display_len d = text_field_len ''expanded_input'' (expanded_input d)
     + count_field_len ''input_line_count'' (input_line_count d) + count_field_len ''hidden_line_count'' (hidden_line_count d)
     + bool_len (td_truncated d) + bool_len (body_truncated d)"

definition read_len_law :: "(ToolReadResult \<Rightarrow> nat) \<Rightarrow> bool" where
  "read_len_law L =
     ((\<exists>F. \<forall>iv ex. L \<lparr>rs_display = None, rs_invocation = Some iv, rs_execution = ex\<rparr>
         = F (with_preview [] iv) ex + json_escaped_len (is_preview (iv_input iv)) + bool_len (is_truncated (iv_input iv)))
      \<and> (\<exists>G. \<forall>d ex. L \<lparr>rs_display = Some d, rs_invocation = None, rs_execution = ex\<rparr>
         = G (td_detail d) ex + display_len d))"

definition exact_body :: "DisplayBody \<Rightarrow> bool" where
  "exact_body b = (\<forall>t. db_text b = Some t \<longrightarrow> db_bytes b = length t \<and> db_lines b = count_lines t)"

lemma exact_push: "exact_body b \<Longrightarrow> exact_body (body_push v b)"
  by (auto simp: exact_body_def body_push_def count_lines_def split: prod.splits)

lemma exact_push_chars: "exact_body b \<Longrightarrow> exact_body (push_chars cs b)"
  by (induction cs arbitrary: b) (simp_all add: exact_push)

lemma exact_sanitized: "exact_body b \<Longrightarrow> exact_body (sanitized_loop chs b)"
  by (induction chs arbitrary: b) (simp_all add: exact_push exact_push_chars)

lemma exact_new: "exact_body (new_body lim retain)"
  by (simp add: exact_body_def new_body_def count_lines_def)

lemma exact_rows: "exact_body b \<Longrightarrow> exact_body (body_rows rows b)"
  by (induction rows b rule: body_rows.induct) (simp_all add: body_row_def body_sanitized_def exact_push exact_sanitized Let_def)

lemma exact_display_body: "display_body diff name args retain = Some b \<Longrightarrow> exact_body b"
proof -
  have plain: "exact_body (from_text v lim rt)" for v lim rt
    by (simp add: from_text_def body_sanitized_def exact_sanitized exact_new)
  have "exact_body (b\<lparr>db_truncated := x\<rparr>)" if "exact_body b" for b x using that by (simp add: exact_body_def)
  then have "exact_body (edit_display_body diff old new rt)" for old new rt
    by (simp add: edit_display_body_def Let_def exact_rows exact_push exact_new split: prod.splits)
  with plain show "display_body diff name args retain = Some b \<Longrightarrow> exact_body b"
    by (auto simp: display_body_def split: if_splits option.splits)
qed

lemma unwrap_or_simps [simp]: "unwrap_or (Some x) y = x" "unwrap_or None y = y"
  by (simp_all add: unwrap_or_def)

lemma card_line_counts:
  assumes "expanded_input (tool_card diff home name args True) = Some t"
  shows "input_line_count (tool_card diff home name args True) = Some (count_lines t)"
    "hidden_line_count (tool_card diff home name args True) = (if t = [] then None else Some (count_lines t))"
proof -
  let ?i = "build_tool_display_inner diff home name args None True"
  have same: "expanded_input (tool_card diff home name args True) = expanded_input ?i"
    "input_line_count (tool_card diff home name args True) = input_line_count ?i"
    "hidden_line_count (tool_card diff home name args True) = hidden_line_count ?i"
    by (simp_all add: tool_card_def Let_def split: option.splits prod.splits)
  from assms same(1) obtain b where b: "display_body diff name (unwrap_or args Map.empty) True = Some b" "db_text b = Some t"
    by (cases "display_body diff name (unwrap_or args Map.empty) True")
      (auto simp: build_tool_display_inner_def Let_def apply_result_to_display_def split: prod.splits)
  from exact_display_body[OF b(1)] b(2) have lines: "db_lines b = count_lines t" by (simp add: exact_body_def)
  have "input_line_count ?i = Some (count_lines t)" "hidden_line_count ?i = (if t = [] then None else Some (count_lines t))"
    using lines by (simp_all add: build_tool_display_inner_def b(1) Let_def apply_result_to_display_def
        count_lines_def split: prod.splits)
  with same show "input_line_count (tool_card diff home name args True) = Some (count_lines t)"
    "hidden_line_count (tool_card diff home name args True) = (if t = [] then None else Some (count_lines t))"
    by simp_all
qed

lemma summary_line_counts:
  assumes "expanded_input (summary_display diff home parse_args t) = Some s"
  shows "input_line_count (summary_display diff home parse_args t) = Some (count_lines s)"
    "hidden_line_count (summary_display diff home parse_args t) = (if s = [] then None else Some (count_lines s))"
  using assms by (auto simp: summary_display_def Let_def card_line_counts split: if_splits)

lemma count_lines_prefix: "prefix u s \<Longrightarrow> count_lines u \<le> count_lines s"
  by (auto simp: prefix_def count_lines_def)

lemma json_prefix_room:
  "prefix (json_string_prefix s (sat_add n 2)) s" "json_escaped_len (json_string_prefix s (sat_add n 2)) \<le> n"
proof -
  obtain k where k: "sat_add n 2 = k + 2" "k \<le> n"
  proof -
    have "2 \<le> sat_add n 2" by (simp add: sat_add_def u64_bound_def)
    moreover have "sat_add n 2 \<le> n + 2" by (simp add: sat_add_def)
    ultimately show ?thesis using that[of "sat_add n 2 - 2"] by simp
  qed
  show "prefix (json_string_prefix s (sat_add n 2)) s" unfolding k(1) by (rule json.cut_prefix)
  show "json_escaped_len (json_string_prefix s (sat_add n 2)) \<le> n"
    unfolding k(1) using json.cut_cost[of s k] k(2) by (rule le_trans)
qed

lemma project_read_fits:
  assumes "read_len_law L" "project_read L t max_bytes = Inr res"
  shows "L res \<le> max_bytes"
proof -
  from assms(1) obtain F where F: "\<And>iv ex. L \<lparr>rs_display = None, rs_invocation = Some iv, rs_execution = ex\<rparr>
      = F (with_preview [] iv) ex + json_escaped_len (is_preview (iv_input iv)) + bool_len (is_truncated (iv_input iv))"
    by (auto simp: read_len_law_def)
  let ?r = "\<lambda>iv. \<lparr>rs_display = None, rs_invocation = iv, rs_execution = rm_execution (ts_metadata t)\<rparr>"
  show ?thesis
  proof (cases "max_bytes < L (?r (summary_invocation t))")
    case True
    with assms(2) obtain iv where iv: "summary_invocation t = Some iv"
      by (cases "summary_invocation t") (simp_all add: project_read_def Let_def)
    let ?n = "L (?r (Some (with_preview [] iv)))"
    let ?p = "json_string_prefix (is_preview (iv_input iv)) (sat_add (max_bytes - ?n) 2)"
    from assms(2) True iv have fit: "?n \<le> max_bytes" and res: "res = ?r (Some (with_preview ?p iv))"
      by (auto simp: project_read_def Let_def split: if_splits)
    have "L res = ?n + json_escaped_len ?p"
      unfolding res F by (simp add: with_preview_def)
    with json_prefix_room(2)[of "is_preview (iv_input iv)" "max_bytes - ?n"] fit show ?thesis by simp
  qed (use assms(2) in \<open>auto simp: project_read_def Let_def\<close>)
qed

lemma project_display_fits:
  assumes "read_len_law L" "project_display_read diff home parse_args L t max_bytes = Inr res"
  shows "L res \<le> max_bytes
    \<or> (\<exists>d. rs_display res = Some d \<and> expanded_input d = Some [] \<and> hidden_line_count d = Some 0 \<and> L res \<le> max_bytes + 22)"
proof -
  from assms(1) obtain G where G: "\<And>d ex. L \<lparr>rs_display = Some d, rs_invocation = None, rs_execution = ex\<rparr>
      = G (td_detail d) ex + display_len d"
    by (auto simp: read_len_law_def)
  let ?d = "summary_display diff home parse_args t"
  let ?r = "\<lambda>d. \<lparr>rs_display = Some d, rs_invocation = None, rs_execution = rm_execution (ts_metadata t)\<rparr>"
  show ?thesis
  proof (cases "max_bytes < L (?r ?d)")
    case True
    with assms(2) obtain s where s: "expanded_input ?d = Some s"
      by (cases "expanded_input ?d") (simp_all add: project_display_read_def Let_def)
    let ?t = "?d\<lparr>expanded_input := Some [], td_truncated := True, body_truncated := True\<rparr>"
    let ?n = "L (?r ?t)"
    define b where "b = json_string_prefix s (sat_add (max_bytes - ?n) 2)"
    from assms(2) True s have fit: "?n \<le> max_bytes" and res: "res = ?r (cut_display b ?t)"
      by (auto simp: project_display_read_def Let_def b_def split: if_splits)
    note room = json_prefix_room[of s "max_bytes - ?n", folded b_def]
    note counts = summary_line_counts[OF s]
    have shorter: "length (show_nat (count_lines b)) \<le> length (show_nat (count_lines s))"
      using room(1) by (intro show_nat_longer count_lines_prefix)
    have n: "?n = G (td_detail ?d) (rm_execution (ts_metadata t)) + 28 + count_field_len ''input_line_count'' (Some (count_lines s))
        + count_field_len ''hidden_line_count'' (if s = [] then None else Some (count_lines s))"
      unfolding G by (simp add: display_len_def text_field_len_def bool_len_def counts)
    have new: "L res = G (td_detail ?d) (rm_execution (ts_metadata t)) + 28 + json_escaped_len b
        + count_field_len ''input_line_count'' (Some (count_lines b)) + count_field_len ''hidden_line_count'' (Some (count_lines b))"
      unfolding res G by (simp add: display_len_def text_field_len_def bool_len_def cut_display_def)
    show ?thesis
    proof (cases "s = []")
      case True
      with room(1) have "b = []" by simp
      with n new True fit have "L res \<le> max_bytes + 22"
        by (simp add: count_field_len_def count_lines_def show_nat.simps)
      then show ?thesis using res \<open>b = []\<close> by (simp add: cut_display_def count_lines_def)
    next
      case False
      with n new shorter room(2) fit have "L res \<le> max_bytes" by (simp add: count_field_len_def)
      then show ?thesis ..
    qed
  qed (use assms(2) in \<open>auto simp: project_display_read_def Let_def\<close>)
qed

section \<open>The stored copy is read without panics\<close>

lemma read_at_total:
  assumes "validate_stored_tool_record s ref = Inr ()" "i < 4"
  shows "\<exists>blob. read_at sha dk s i = Some blob"
proof -
  have "list_all blob_digest_ok (stored_blobs s)" "length (stored_blobs s) = 4"
    using validated_parts(8)[OF assms(1)] by (simp_all add: stored_blobs_def)
  then have "blob_digest_ok (stored_blobs s ! i)" using assms(2) by (simp add: list_all_length)
  then obtain name bytes hash where e: "stored_blobs s ! i = (name, bytes, hash)" "blob_digest_ok (name, bytes, hash)"
    by (metis prod_cases3)
  from read_blob_validated[OF e(2), of sha "dk_blob dk name"] show ?thesis by (auto simp: read_at_def e(1))
qed

lemma scope_index_bound: "scope_index s < 4"
  by (cases s) simp_all

lemma stored_metadata_valid:
  assumes "stored_tool_metadata dk ref = Inr (Some s)"
  shows "validate_stored_tool_record s ref = Inr () \<and> (\<exists>c. dk_parse dk c = Some s)"
  using assms by (auto simp: stored_tool_metadata_def load_tool_metadata_def Let_def
      split: if_splits option.splits FileOpen.splits) blast

lemma tool_source_total:
  obtains x where "read_tool_source sha dk ref scope = Some x"
    "\<forall>src. x = Inr (Some src) \<longrightarrow> validate_stored_tool_record (sr_metadata src) ref = Inr ()
       \<and> (\<exists>c. dk_parse dk c = Some (sr_metadata src))
       \<and> (case scope of
            SummaryScope \<Rightarrow> \<exists>input result. sr_payload src = SummaryPayload input result
          | StreamScope s \<Rightarrow> \<exists>blob. sr_payload src = StreamPayload blob \<and> read_at sha dk (sr_metadata src) (scope_index s) = Some blob)"
proof (cases "\<exists>s. \<not> dk_late dk \<and> stored_tool_metadata dk ref = Inr (Some s)")
  case True
  then obtain s where s: "\<not> dk_late dk" "stored_tool_metadata dk ref = Inr (Some s)" by blast
  note valid = stored_metadata_valid[OF s(2)]
  show ?thesis
  proof (cases scope)
    case SummaryScope
    from read_at_total[OF conjunct1[OF valid], of 0] read_at_total[OF conjunct1[OF valid], of 1] obtain a b where
      "read_at sha dk s 0 = Some a" "read_at sha dk s 1 = Some b" by fastforce
    with s SummaryScope valid that show ?thesis by (simp add: read_tool_source_def)
  next
    case (StreamScope st)
    from read_at_total[OF conjunct1[OF valid] scope_index_bound[of st]] obtain a where "read_at sha dk s (scope_index st) = Some a"
      by blast
    with s StreamScope valid that show ?thesis by (simp add: read_tool_source_def)
  qed
next
  case False
  show ?thesis
  proof (cases "dk_late dk")
    case True
    then show ?thesis using that by (simp add: read_tool_source_def)
  next
    case late: False
    show ?thesis
    proof (cases "stored_tool_metadata dk ref")
      case (Inl e)
      with late that show ?thesis by (simp add: read_tool_source_def)
    next
      case (Inr m)
      with late False have "m = None" by (cases m) auto
      with late Inr that show ?thesis by (simp add: read_tool_source_def)
    qed
  qed
qed

lemma source_total:
  obtains x where "read_source sha q dk ref scope = Some x"
    "\<forall>src. x = Inr (Some src) \<longrightarrow> validate_stored_tool_record (sr_metadata src) ref = Inr ()
       \<and> (\<exists>c. dk_parse dk c = Some (sr_metadata src))
       \<and> (case scope of
            SummaryScope \<Rightarrow> \<exists>input result. sr_payload src = SummaryPayload input result
          | StreamScope s \<Rightarrow> \<exists>blob. sr_payload src = StreamPayload blob \<and> read_at sha dk (sr_metadata src) (scope_index s) = Some blob)"
proof -
  obtain x where x: "read_tool_source sha dk ref scope = Some x"
    "\<forall>src. x = Inr (Some src) \<longrightarrow> validate_stored_tool_record (sr_metadata src) ref = Inr ()
       \<and> (\<exists>c. dk_parse dk c = Some (sr_metadata src))
       \<and> (case scope of
            SummaryScope \<Rightarrow> \<exists>input result. sr_payload src = SummaryPayload input result
          | StreamScope s \<Rightarrow> \<exists>blob. sr_payload src = StreamPayload blob \<and> read_at sha dk (sr_metadata src) (scope_index s) = Some blob)"
    by (rule tool_source_total)
  show ?thesis
  proof (cases "query_check q 2")
    case (Inl e)
    with that show ?thesis by (simp add: read_source_def)
  next
    case (Inr u)
    show ?thesis
    proof (cases "cancelled_at q 3")
      case True
      with Inr that show ?thesis by (simp add: read_source_def)
    next
      case False
      have "read_source sha q dk ref scope = Some (map_err tool_store_error x)"
        using Inr False x(1) by (simp add: read_source_def)
      then show ?thesis using that x(2) by (cases x) (auto simp: map_err_def)
    qed
  qed
qed

section \<open>Properties\<close>

text \<open>C11: A client that pages through a process stream with \<^verbatim>\<open>tool.output\<close> gets exactly the bytes the process
  wrote. In every reachable state of the tool data, for every stream whose window is retained and every
  offset in it, following the next offsets reaches the end of the stream; the decoded pages are non-empty,
  adjacent, and together the stream from that offset on; every page fits the requested size, and none
  before the last claims to be the end. The encoders are only assumed to have the documented sizes, the
  size must leave six bytes beside the empty page, and where the ring buffer wraps does not matter.\<close>

theorem stream_pages_deliver_stream:
  assumes "td_step\<^sup>*\<^sup>* (inner_default, \<lambda>_ _. []) (d, log)" "get_record d (rq_ref rq) = Some r"
    and "record_stream r (rq_stream rq) = Some w" "w_seen w" "\<not> w_expired w" "w_start w \<le> off" "off \<le> w_end w"
    and "page_len_law (env_page_len env)" "base64_law (env_encode env)"
    and "validate_max_bytes (rq_max_bytes rq) = Inr ()" "query_check q 1 = Inr ()"
    and "page_room (env_page_len env) (output_view wrap r (rq_stream rq)) rq (unwrap_or (rq_max_bytes rq) DEFAULT_READ_MAX_BYTES)"
  shows "\<exists>ps pieces.
    paged (\<lambda>off. tool_output env wrap q dk (Some d) (rq\<lparr>rq_offset := off\<rparr>)) off ps (length (log (rq_ref rq) (rq_stream rq)))
    \<and> list_all2 (\<lambda>p piece. piece \<noteq> [] \<and> pg_data p = env_encode env piece \<and> pg_next p = pg_base p + length piece
        \<and> env_page_len env p \<le> unwrap_or (rq_max_bytes rq) DEFAULT_READ_MAX_BYTES) ps pieces
    \<and> concat pieces = drop off (log (rq_ref rq) (rq_stream rq))
    \<and> list_all (\<lambda>p. \<not> pg_eof p) (butlast ps)"
proof -
  let ?s = "rq_stream rq"
  let ?v = "output_view wrap r ?s"
  let ?m = "unwrap_or (rq_max_bytes rq) DEFAULT_READ_MAX_BYTES"
  note inv = reached[OF assms(1)]
  have ok: "record_ok r" using store_record_ok[OF inv(1) assms(2)] by simp
  have s: "is_process ?s" and v: "?v = window_view wrap r ?s w"
    using assms(3) by (cases ?s; auto simp: is_process_def)+
  have span: "w_end w = length (log (rq_ref rq) ?s)" "w_bytes w = drop (w_start w) (log (rq_ref rq) ?s)"
  proof -
    have "tail_of (span w) (log (rq_ref rq) ?s)"
      using inv(3) assms(2,3) s by (cases ?s) (auto simp: traced_def spans_at_def spans_def is_process_def split: option.splits)
    then show "w_end w = length (log (rq_ref rq) ?s)" "w_bytes w = drop (w_start w) (log (rq_ref rq) ?s)"
      by (simp_all add: tail_of_def span_def)
  qed
  note live = live_readable[OF ok assms(3-5), of wrap]
  note parts = window_view_parts[OF record_stream_ok[OF ok assms(3)], of wrap r ?s]
  have ask: "tool_output env wrap q dk (Some d) (rq\<lparr>rq_offset := off\<rparr>)
      = project (env_encode env) (env_page_len env) ?v (rq\<lparr>rq_offset := off\<rparr>) ?m" for off
    using tool_output_live[of "rq\<lparr>rq_offset := off\<rparr>" q "Some d" r wrap env dk] assms(2,10,11) live(2)
    by (simp add: warm_record_def output_needs_stored_def)
  have "drop (off - w_start w) (w_bytes w) = drop off (log (rq_ref rq) ?s)" using span(2) assms(6) by simp
  then show ?thesis
    using pages_cover[OF live(1) assms(8,9,12), of off] assms(6,7) parts s span(1)
    unfolding ask by (simp add: v starts_scalar_def carries_def[abs_def] shown_def)
qed

text \<open>C12: Evicted output is read back unchanged. When the snapshot of a finished call is on disk, \<^verbatim>\<open>tool.output\<close>
  answers every request on every channel that was readable with the very page the complete live record gives,
  whether the live record is untouched, has lost any of its buffers to eviction since, has been dropped, or the
  Session is not loaded at all. Names, hashes and file changes are those the store accepts; texts are valid UTF-8.\<close>

theorem evicted_output_reads_back:
  assumes "td_step\<^sup>*\<^sup>* (inner_default, \<lambda>_ _. []) (d, log)" "get_record d (rq_ref rq) = Some r"
    and "snapshot_for_persistence (env_sha env) d (rq_ref rq) = Some snap" "stored_at dk snap"
    and "r_name r \<in> set KNOWN_TOOL_NAMES" "\<forall>b. valid_sha256 (env_sha env b)"
    and "\<forall>c. r_file_change r = Some c \<longrightarrow>
      validate_stored_file_change (change_stored c) = Inr () \<and> \<not> w_seen (r_stdout r) \<and> \<not> w_seen (r_stderr r)"
    and "utf8_valid (r_input r)" "utf8_valid (r_result r)"
    and "usable (ov_availability (output_view wrap r (rq_stream rq)))"
    and "warm_record data (rq_ref rq) = None \<or> (\<exists>r'. warm_record data (rq_ref rq) = Some r' \<and> evolved r r')"
    and "validate_max_bytes (rq_max_bytes rq) = Inr ()" "query_check q 1 = Inr ()" "query_check q 2 = Inr ()" "\<not> cancelled_at q 3"
  shows "tool_output env wrap q dk data rq
    = project (env_encode env) (env_page_len env) (output_view wrap r (rq_stream rq)) rq
        (unwrap_or (rq_max_bytes rq) DEFAULT_READ_MAX_BYTES)"
proof -
  let ?s = "rq_stream rq"
  let ?m = "unwrap_or (rq_max_bytes rq) DEFAULT_READ_MAX_BYTES"
  let ?cold = "view_from_stored (sn_record snap) ?s (channel_blob snap ?s, False)"
  let ?page = "project (env_encode env) (env_page_len env) (output_view wrap r ?s) rq ?m"
  note inv = reached[OF assms(1)]
  have ok: "record_ok r" "record_size r < u64_bound" using store_record_ok[OF inv(1) assms(2)] by simp_all
  have final: "record_is_terminal r" using assms(2,3) by (auto simp: snapshot_for_persistence_def split: if_splits)
  from snapshot_storable[OF ok(1) assms(2) final assms(5), of "env_sha env"] assms(3,6,7)
  have valid: "validate_stored_tool_record (sn_record snap) (rq_ref rq) = Inr ()"
    "list_all2 (\<lambda>(name, blob) (name', bytes, sh). name = name' \<and> read_blob (env_sha env) blob bytes sh = Some (blob, False))
        (take 4 (blobs snap)) (stored_blobs (sn_record snap))" by auto
  have src: "read_source (env_sha env) q dk (rq_ref rq) (StreamScope ?s)
      = Some (Inr (Some \<lparr>sr_metadata = sn_record snap, sr_payload = StreamPayload (channel_blob snap ?s, False)\<rparr>))"
    using assms(14,15) by (simp add: read_source_def stored_source[OF assms(4) valid] map_err_def)
  note same = stored_page_same[OF assms(2,3) ok(1) assms(8,9) refl, where wrap = wrap]
  show ?thesis
  proof (cases "warm_record data (rq_ref rq)")
    case None
    then show ?thesis
      using assms(12,13) src same(1) by (simp add: tool_output_def Let_def)
  next
    case (Some r')
    with assms(11) have "evolved r r'" by simp
    from evolved_facts_kept[OF this ok] have kept: "facts_kept r r'" "record_ok r'" "record_size r' < u64_bound"
      using ok(2) by (auto simp: facts_kept_def)
    show ?thesis
    proof (cases "output_view wrap r' ?s = output_view wrap r ?s")
      case True
      with assms(10) have "\<not> output_needs_stored r' (rq_ref rq) (output_view wrap r' ?s)" by (simp add: output_needs_stored_def)
      from tool_output_live[OF assms(12,13) Some this] True show ?thesis by simp
    next
      case False
      with kept_view[OF kept(1) ok(1), of wrap ?s] have gone: "ov_availability (output_view wrap r' ?s) = AvExpired" by simp
      with facts_terminal[OF kept(1) final] have needs: "output_needs_stored r' (rq_ref rq) (output_view wrap r' ?s)"
        by (simp add: output_needs_stored_def usable_def)
      obtain x where warm: "project (env_encode env) (env_page_len env) (output_view wrap r' ?s) rq ?m = Some x"
        using project_advances[OF live_view_sound[OF kept(2,3)]] by blast
      have "usable (ov_availability ?cold)" using assms(10) same(2) by simp
      then show ?thesis
        using Some needs warm src snapshot_compatible[OF assms(2,3) kept(1)] same(1) assms(12,13)
        by (simp add: tool_output_def Let_def)
    qed
  qed
qed

text \<open>C19: Every request for output is answered without a panic, whatever the live data, the disk, the clock and the
  position of the ring buffer's wrap: the answer is an error, or a page within the requested size that either
  ends the channel, moves the client forward, or tells it to wait at the end of a call that is still running.
  So a client that follows the next offsets never loops on a finished call.\<close>

theorem output_requests_are_answered:
  assumes "\<forall>d. data = Some d \<longrightarrow> (\<exists>log. td_step\<^sup>*\<^sup>* (inner_default, \<lambda>_ _. []) (d, log))"
    and "\<forall>c s. dk_parse dk c = Some s \<longrightarrow> stored_u64 s"
  shows "\<exists>x. tool_output env wrap q dk data rq = Some x
    \<and> (\<forall>p. x = Inr p \<longrightarrow>
        env_page_len env p \<le> unwrap_or (rq_max_bytes rq) DEFAULT_READ_MAX_BYTES
        \<and> (pg_eof p \<or> rq_offset rq < pg_next p
           \<or> pg_next p = rq_offset rq
             \<and> (\<exists>r. warm_record data (rq_ref rq) = Some r \<and> \<not> ov_complete (output_view wrap r (rq_stream rq)))))"
proof -
  let ?s = "rq_stream rq"
  let ?m = "unwrap_or (rq_max_bytes rq) DEFAULT_READ_MAX_BYTES"
  let ?page = "\<lambda>v. project (env_encode env) (env_page_len env) v rq ?m"
  define fine where "fine x = (\<forall>p. x = Inr p \<longrightarrow> advances (env_page_len env) ?m
      (\<forall>r. warm_record data (rq_ref rq) = Some r \<longrightarrow> ov_complete (output_view wrap r ?s)) (rq_offset rq) p)" for x :: "ReadError + ToolOutputPage"
  have errs: "fine (Inl e)" for e by (simp add: fine_def)
  have live: "\<exists>x. ?page (output_view wrap r ?s) = Some x \<and> fine x" if r: "warm_record data (rq_ref rq) = Some r" for r
  proof -
    from r obtain d where d: "data = Some d" "get_record d (rq_ref rq) = Some r" by (cases data) (auto simp: warm_record_def)
    with assms(1) obtain log where "td_step\<^sup>*\<^sup>* (inner_default, \<lambda>_ _. []) (d, log)" by blast
    from store_record_ok[OF reached(1)[OF this] d(2)] have "view_sound ?s (output_view wrap r ?s)" by (simp add: live_view_sound)
    from project_advances[OF this, of "env_encode env" "env_page_len env" ?m] r show ?thesis by (simp add: fine_def)
  qed
  obtain x where x: "read_source (env_sha env) q dk (rq_ref rq) (StreamScope ?s) = Some x"
    "\<forall>src. x = Inr (Some src) \<longrightarrow> validate_stored_tool_record (sr_metadata src) (rq_ref rq) = Inr ()
       \<and> (\<exists>c. dk_parse dk c = Some (sr_metadata src))
       \<and> (case StreamScope ?s of
            SummaryScope \<Rightarrow> \<exists>input result. sr_payload src = SummaryPayload input result
          | StreamScope s \<Rightarrow> \<exists>blob. sr_payload src = StreamPayload blob
              \<and> read_at (env_sha env) dk (sr_metadata src) (scope_index s) = Some blob)"
    by (rule source_total)
  have cold: "\<exists>blob y. sr_payload src = StreamPayload blob \<and> ?page (view_from_stored (sr_metadata src) ?s blob) = Some y \<and> fine y"
    if src: "x = Inr (Some src)" for src
  proof -
    from x(2) src assms(2) obtain blob where b: "validate_stored_tool_record (sr_metadata src) (rq_ref rq) = Inr ()"
      "stored_u64 (sr_metadata src)" "sr_payload src = StreamPayload blob"
      "read_at (env_sha env) dk (sr_metadata src) (scope_index ?s) = Some blob" by auto
    obtain content bad where blob: "blob = (content, bad)" by fastforce
    note sound = stored_view_sound[OF b(1,2) b(4)[unfolded blob]]
    from project_advances[OF sound(1), of "env_encode env" "env_page_len env" ?m] sound(2)
    have "\<exists>y. ?page (view_from_stored (sr_metadata src) ?s blob) = Some y \<and> fine y"
      by (auto simp: fine_def blob advances_def)
    with b(3) show ?thesis by blast
  qed
  have "\<exists>y. tool_output env wrap q dk data rq = Some y \<and> fine y"
  proof (cases "validate_max_bytes (rq_max_bytes rq) = Inr () \<and> query_check q 1 = Inr ()")
    case True
    show ?thesis
    proof (cases "warm_record data (rq_ref rq)")
      case None
      show ?thesis
      proof (cases "\<exists>src. x = Inr (Some src)")
        case src: True
        with cold show ?thesis using True None x(1) by (auto simp: tool_output_def Let_def)
      next
        case False
        then show ?thesis using True None x(1) errs
          by (cases x) (auto simp: tool_output_def Let_def split: option.splits)
      qed
    next
      case (Some r)
      from live[OF Some] obtain page where page: "?page (output_view wrap r ?s) = Some page" "fine page" by blast
      show ?thesis
      proof (cases "output_needs_stored r (rq_ref rq) (output_view wrap r ?s) \<and> (\<exists>src. x = Inr (Some src))")
        case src: True
        then obtain src where src: "x = Inr (Some src)" by blast
        from cold[OF src] obtain blob y where "sr_payload src = StreamPayload blob"
          "?page (view_from_stored (sr_metadata src) ?s blob) = Some y" "fine y" by blast
        then show ?thesis using True Some page x(1) src by (simp add: tool_output_def Let_def)
      next
        case False
        then show ?thesis using True Some page x(1) errs
          by (cases x) (auto simp: tool_output_def Let_def split: option.splits)
      qed
    qed
  next
    case False
    then show ?thesis using errs
      by (cases "validate_max_bytes (rq_max_bytes rq)"; cases "query_check q 1") (simp_all add: tool_output_def)
  qed
  then show ?thesis by (auto simp: fine_def advances_def)
qed

text \<open>C20: Reads of a tool call are answered without a panic, from any live data and any disk, and their results fit the
  requested size: the preview of the input, or the body of the card, is cut to the longest prefix that
  still fits. The one exception is a card with an empty body, which can come out up to 22 bytes too long,
  the length of the row count that is added after the size was checked.\<close>

theorem read_results_fit:
  assumes "read_len_law (env_read_len env)"
  shows "\<exists>x. tool_read env q dk data rq = Some x
    \<and> (\<forall>res. x = Inr res \<longrightarrow>
        env_read_len env res \<le> unwrap_or (rr_max_bytes rq) DEFAULT_READ_MAX_BYTES
        \<or> rr_display rq
          \<and> (\<exists>d. rs_display res = Some d \<and> expanded_input d = Some [] \<and> hidden_line_count d = Some 0
             \<and> env_read_len env res \<le> unwrap_or (rr_max_bytes rq) DEFAULT_READ_MAX_BYTES + 22))"
proof -
  let ?m = "unwrap_or (rr_max_bytes rq) DEFAULT_READ_MAX_BYTES"
  let ?warm = "map_option (\<lambda>r. read_summary r (rr_ref rq)) (warm_record data (rr_ref rq))"
  obtain y where y: "merged_summary env q dk (rr_ref rq) ?warm = Some y"
  proof -
    obtain x where x: "read_source (env_sha env) q dk (rr_ref rq) SummaryScope = Some x"
      "\<forall>src. x = Inr (Some src) \<longrightarrow> validate_stored_tool_record (sr_metadata src) (rr_ref rq) = Inr ()
         \<and> (\<exists>c. dk_parse dk c = Some (sr_metadata src))
         \<and> (case SummaryScope of
              SummaryScope \<Rightarrow> \<exists>input result. sr_payload src = SummaryPayload input result
            | StreamScope s \<Rightarrow> \<exists>blob. sr_payload src = StreamPayload blob
                \<and> read_at (env_sha env) dk (sr_metadata src) (scope_index s) = Some blob)"
      by (rule source_total)
    have "\<exists>t. summary_from_stored (sr_metadata src) (sr_payload src) = Some t" if "x = Inr (Some src)" for src
      using x(2) that by (auto simp: Let_def split: prod.splits)
    with x(1) that show ?thesis by (cases x) (force simp: merged_summary_def split: option.splits)+
  qed
  have fits: "env_read_len env res \<le> ?m
      \<or> rr_display rq \<and> (\<exists>d. rs_display res = Some d \<and> expanded_input d = Some [] \<and> hidden_line_count d = Some 0
          \<and> env_read_len env res \<le> ?m + 22)"
    if "(if rr_display rq then project_display_read (env_diff env) (env_home env) (env_parse env) (env_read_len env) t ?m
         else project_read (env_read_len env) t ?m) = Inr res" for t res
    using that project_read_fits[OF assms, of t ?m res]
      project_display_fits[OF assms, of "env_diff env" "env_home env" "env_parse env" t ?m res]
    by (cases "rr_display rq") simp_all
  show ?thesis
  proof (cases "validate_max_bytes (rr_max_bytes rq) = Inr () \<and> query_check q 1 = Inr () \<and> (\<exists>t. y = Inr (Some t))")
    case True
    then obtain t where "y = Inr (Some t)" by blast
    with True y have "tool_read env q dk data rq = Some (if rr_display rq
        then project_display_read (env_diff env) (env_home env) (env_parse env) (env_read_len env) t ?m
        else project_read (env_read_len env) t ?m)" by (simp add: tool_read_def Let_def)
    with fits show ?thesis by blast
  next
    case False
    then have "\<exists>e. tool_read env q dk data rq = Some (Inl e)"
      using y by (cases "validate_max_bytes (rr_max_bytes rq)"; cases "query_check q 1"; cases y)
        (auto simp: tool_read_def split: option.splits)
    then show ?thesis by auto
  qed
qed

text \<open>C21: The exception does occur: for every call whose card has an empty, complete body, the request whose size is one
  byte less than the full result is answered with a result 21 bytes larger than requested.\<close>

theorem empty_card_exceeds_request:
  assumes "read_len_law L" "expanded_input (summary_display diff home parse_args t) = Some []"
    and "\<not> td_truncated (summary_display diff home parse_args t)" "\<not> body_truncated (summary_display diff home parse_args t)"
  shows "let m = L \<lparr>rs_display = Some (summary_display diff home parse_args t), rs_invocation = None,
        rs_execution = rm_execution (ts_metadata t)\<rparr> - 1
    in \<exists>res. project_display_read diff home parse_args L t m = Inr res \<and> L res = m + 21"
proof -
  let ?d = "summary_display diff home parse_args t" and ?ex = "rm_execution (ts_metadata t)"
  from assms(1) obtain G where G: "\<And>d ex. L \<lparr>rs_display = Some d, rs_invocation = None, rs_execution = ex\<rparr>
      = G (td_detail d) ex + display_len d" by (auto simp: read_len_law_def)
  note counts = summary_line_counts[OF assms(2)]
  have full: "display_len ?d = 51" and template: "display_len (?d\<lparr>expanded_input := Some [], td_truncated := True, body_truncated := True\<rparr>) = 49"
    and cut_len: "display_len (cut_display [] (?d\<lparr>expanded_input := Some [], td_truncated := True, body_truncated := True\<rparr>)) = 71"
    using assms(2-4) counts
    by (simp_all add: display_len_def text_field_len_def count_field_len_def bool_len_def count_lines_def show_nat.simps
        cut_display_def)
  have empty: "json_string_prefix [] n = []" for n by (simp add: json_string_prefix_def)
  show ?thesis
    unfolding Let_def project_display_read_def G full
    by (simp add: assms(2) G template empty cut_len) (simp add: cut_display_def)
qed

section \<open>Witnesses\<close>

text \<open>Standard base64, and encodings with the sizes serde gives them.\<close>

definition b64_digit :: "nat \<Rightarrow> char" where
  "b64_digit n = (if n < 26 then char_of (65 + n) else if n < 52 then char_of (71 + n) else if n < 62 then char_of (n - 4)
     else if n = 62 then CHR ''+'' else CHR ''/'')"

fun base64 :: "string \<Rightarrow> string" where
  "base64 [] = []"
| "base64 [a] = [b64_digit (of_char a div 4), b64_digit (of_char a mod 4 * 16), CHR ''='', CHR ''='']"
| "base64 [a, b] = [b64_digit (of_char a div 4), b64_digit (of_char a mod 4 * 16 + of_char b div 16),
     b64_digit (of_char b mod 16 * 4), CHR ''='']"
| "base64 (a # b # c # s) = b64_digit (of_char a div 4) # b64_digit (of_char a mod 4 * 16 + of_char b div 16)
     # b64_digit (of_char b mod 16 * 4 + of_char c div 64) # b64_digit (of_char c mod 64) # base64 s"

definition plain_char :: "char \<Rightarrow> bool" where
  "plain_char c = (of_char c \<in> {35..<127 :: nat} \<and> of_char c \<noteq> (92 :: nat))"

lemma plain_escaped: "list_all plain_char s \<Longrightarrow> json_escaped_len s = length s"
proof (induction s)
  case (Cons c s)
  have "takeWhile is_cont s = []" "dropWhile is_cont s = s"
    using Cons.prems by (cases s; auto simp: plain_char_def is_cont_code)+
  moreover have "escaped_char_len [c] = 1" using Cons.prems by (auto simp: escaped_char_len_def plain_char_def)
  ultimately show ?case using Cons by (simp add: json_escaped_len_def)
qed simp

lemma b64_digit_plain: "plain_char (b64_digit n)"
  by (auto simp: b64_digit_def plain_char_def)

lemma base64_plain: "list_all plain_char (base64 s)"
  by (induction s rule: base64.induct) (simp_all add: b64_digit_plain plain_char_def[of "CHR ''=''"])

lemma base64_ok: "base64_law base64"
proof -
  have step: "(5 + n) div 3 = Suc (Suc (Suc n) div 3)" for n :: nat by presburger
  have "length (base64 s) = (length s + 2) div 3 * 4" for s
    by (induction s rule: base64.induct) (simp_all add: step)
  then show ?thesis by (simp add: base64_law_def plain_escaped base64_plain)
qed

definition sample_page_len :: "ToolOutputPage \<Rightarrow> nat" where
  "sample_page_len p = 200 + length (show_nat (pg_base p)) + length (show_nat (pg_next p)) + (if pg_eof p then 4 else 5)
     + json_escaped_len (pg_data p)"

definition sample_read_len :: "ToolReadResult \<Rightarrow> nat" where
  "sample_read_len r = 300 + (case rs_invocation r of None \<Rightarrow> 0
      | Some iv \<Rightarrow> json_escaped_len (is_preview (iv_input iv)) + bool_len (is_truncated (iv_input iv)))
     + (case rs_display r of None \<Rightarrow> 0 | Some d \<Rightarrow> display_len d)"

lemma sample_laws: "page_len_law sample_page_len" "read_len_law sample_read_len"
proof -
  show "page_len_law sample_page_len"
    unfolding page_len_law_def sample_page_len_def by (rule exI[of _ "\<lambda>_. 200"]) simp
  have "sample_read_len \<lparr>rs_display = None, rs_invocation = Some iv, rs_execution = ex\<rparr>
      = 300 + json_escaped_len (is_preview (iv_input iv)) + bool_len (is_truncated (iv_input iv))"
    "sample_read_len \<lparr>rs_display = Some d, rs_invocation = None, rs_execution = ex\<rparr> = 300 + display_len d" for iv ex d
    by (simp_all add: sample_read_len_def)
  then show "read_len_law sample_read_len"
    unfolding read_len_law_def by (intro conjI exI[of _ "\<lambda>_ _. 300"]) simp_all
qed

definition sample_env :: ReadEnv where
  "sample_env = \<lparr>env_sha = sample_hash, env_encode = base64, env_page_len = sample_page_len,
     env_read_len = sample_read_len, env_diff = \<lambda>_ _. [], env_home = ''/root'',
     env_parse = \<lambda>_. Some [''content'' \<mapsto> JString []]\<rparr>"

definition sample_clock :: QueryTime where
  "sample_clock = \<lparr>cancelled_at = \<lambda>_. False, now_at = \<lambda>i. i\<rparr>"

definition sample_request :: ToolOutputRequest where
  "sample_request = \<lparr>rq_ref = sample_ref, rq_stream = StdoutStream, rq_offset = 0, rq_max_bytes = Some 1000\<rparr>"

definition sample_disk :: "ToolPersistenceSnapshot \<Rightarrow> ToolDisk" where
  "sample_disk snap = \<lparr>dk_late = False, dk_root = Inr (), dk_session = Inr Directory, dk_tools = Inr Directory,
     dk_record = Inr Directory, dk_open = FileContent ''{}'', dk_parse = \<lambda>_. Some (sn_record snap),
     dk_blob = \<lambda>name. case map_of (blobs snap) name of None \<Rightarrow> None | Some b \<Rightarrow> b\<rparr>"

definition sample_snap :: ToolPersistenceSnapshot where
  "sample_snap = the (snapshot_for_persistence sample_hash (sample_store sample_finished 9) sample_ref)"

definition sample_evicted :: ToolRecord where
  "sample_evicted = evict_stream StdoutStream sample_finished"

lemma sample_checks:
  "validate_max_bytes (rq_max_bytes sample_request) = Inr ()" "query_check sample_clock 1 = Inr ()"
  "query_check sample_clock 2 = Inr ()" "\<not> cancelled_at sample_clock 3"
  "unwrap_or (rq_max_bytes sample_request) DEFAULT_READ_MAX_BYTES = 1000"
  by (simp_all add: sample_request_def validate_max_bytes_def MAX_READ_MAX_BYTES_def query_check_def sample_clock_def
      check_budget_def READ_DEADLINE_def map_err_def)

lemma sample_get:
  "get_record (sample_store r n) (rq_ref sample_request) = Some r"
  "record_stream sample_finished (rq_stream sample_request) = Some sample_window"
  "w_seen sample_window" "\<not> w_expired sample_window" "w_start sample_window = 0" "w_end sample_window = 2"
  by (simp_all add: sample_store_def get_record_def sample_request_def sample_finished_def sample_written_def
      sample_window_def window_default_def)

lemma sample_page_room: "page_room sample_page_len v sample_request 1000"
proof -
  have "length (show_nat (u64_bound - 1)) \<le> Suc 19"
    by (rule length_show_nat_le) (simp add: u64_bound_def)
  then show ?thesis by (simp add: page_room_def sample_page_len_def base_page_def)
qed

theorem stream_pages_deliver_stream_witness:
  "\<exists>ps pieces. paged (\<lambda>off. tool_output sample_env 1 sample_clock (sample_disk sample_snap) (Some (sample_store sample_finished 9))
      (sample_request\<lparr>rq_offset := off\<rparr>)) 0 ps 2
    \<and> list_all2 (\<lambda>p piece. pg_data p = base64 piece) ps pieces \<and> concat pieces = ''ok''"
proof -
  let ?l = "\<lambda>ref s. if ref = sample_ref \<and> s = StdoutStream then ''ok'' else []"
  have l: "?l (rq_ref sample_request) (rq_stream sample_request) = ''ok''" by (simp add: sample_request_def)
  have env: "env_page_len sample_env = sample_page_len" "env_encode sample_env = base64" by (simp_all add: sample_env_def)
  have room: "page_room (env_page_len sample_env) (output_view 1 sample_finished (rq_stream sample_request)) sample_request
      (unwrap_or (rq_max_bytes sample_request) DEFAULT_READ_MAX_BYTES)"
    by (simp add: env sample_checks sample_page_room)
  obtain ps pieces where "paged (\<lambda>off. tool_output sample_env 1 sample_clock (sample_disk sample_snap)
        (Some (sample_store sample_finished 9)) (sample_request\<lparr>rq_offset := off\<rparr>)) 0 ps (length ''ok'')"
      "list_all2 (\<lambda>p piece. piece \<noteq> [] \<and> pg_data p = env_encode sample_env piece \<and> pg_next p = pg_base p + length piece
        \<and> env_page_len sample_env p \<le> unwrap_or (rq_max_bytes sample_request) DEFAULT_READ_MAX_BYTES) ps pieces"
      "concat pieces = drop 0 ''ok''"
    using stream_pages_deliver_stream[OF sample_run sample_get(1-4), of 0 sample_env sample_clock 1 "sample_disk sample_snap"]
      sample_laws(1) base64_ok sample_checks(1,2) room
    unfolding env l sample_get(5,6) by auto
  then show ?thesis
    by (intro exI[of _ ps] exI[of _ pieces]) (auto simp: env numeral_2_eq_2 elim: list_all2_mono)
qed

theorem output_requests_are_answered_witness:
  "\<exists>x. tool_output sample_env 0 sample_clock ((sample_disk sample_snap)\<lparr>dk_open := FileNotFound, dk_parse := \<lambda>_. None\<rparr>)
     (Some (sample_store sample_finished 9)) sample_request = Some x"
  using output_requests_are_answered[of "Some (sample_store sample_finished 9)"
      "(sample_disk sample_snap)\<lparr>dk_open := FileNotFound, dk_parse := \<lambda>_. None\<rparr>" sample_env 0 sample_clock sample_request] sample_run
  by auto

theorem read_results_fit_witness:
  "\<exists>x. tool_read sample_env sample_clock ((sample_disk sample_snap)\<lparr>dk_open := FileNotFound\<rparr>) (Some (sample_store sample_finished 9))
     \<lparr>rr_ref = sample_ref, rr_display = False, rr_max_bytes = Some 1000\<rparr> = Some x"
proof -
  have "read_len_law (env_read_len sample_env)" by (simp add: sample_env_def sample_laws)
  from read_results_fit[OF this, of sample_clock "(sample_disk sample_snap)\<lparr>dk_open := FileNotFound\<rparr>"
      "Some (sample_store sample_finished 9)" "\<lparr>rr_ref = sample_ref, rr_display = False, rr_max_bytes = Some 1000\<rparr>"]
  show ?thesis by blast
qed

theorem evicted_output_reads_back_witness:
  "tool_output sample_env 0 sample_clock (sample_disk sample_snap) (Some (sample_store sample_evicted 4)) sample_request
   = project base64 sample_page_len (output_view 0 sample_finished StdoutStream) sample_request 1000
   \<and> tool_output sample_env 0 sample_clock (sample_disk sample_snap) None sample_request
   = project base64 sample_page_len (output_view 0 sample_finished StdoutStream) sample_request 1000"
proof -
  have facts: "record_is_terminal sample_finished" "r_name sample_finished \<in> set KNOWN_TOOL_NAMES"
    "r_file_change sample_finished = None" "r_input sample_finished = []" "r_result sample_finished = []"
    by (simp_all add: sample_finished_def sample_written_def record_new_def record_is_terminal_def
        state_is_terminal_def KNOWN_TOOL_NAMES_def)
  have hash: "\<forall>b. valid_sha256 (env_sha sample_env b)"
    by (simp add: sample_env_def sample_hash_def valid_sha256_def is_hexdigit_def byte_in_def list_all_iff)
  have env: "env_page_len sample_env = sample_page_len" "env_encode sample_env = base64" "env_sha sample_env = sample_hash"
    by (simp_all add: sample_env_def)
  have ref: "rq_ref sample_request = sample_ref" "rq_stream sample_request = StdoutStream" by (simp_all add: sample_request_def)
  have "\<exists>snap. snapshot_for_persistence sample_hash (sample_store sample_finished 9) sample_ref = Some snap"
    using facts(1) sample_get(1)[of sample_finished 9]
    by (simp add: snapshot_for_persistence_def ref split: prod.splits)
  then have snap: "snapshot_for_persistence (env_sha sample_env) (sample_store sample_finished 9) (rq_ref sample_request) = Some sample_snap"
    by (auto simp: sample_snap_def env ref)
  have disk: "stored_at (sample_disk sample_snap) sample_snap"
    by (auto simp: stored_at_def sample_disk_def blobs_def MAX_TOOL_METADATA_BYTES_def)
  have usable: "usable (ov_availability (output_view 0 sample_finished (rq_stream sample_request)))"
    by (simp add: ref window_view_def process_availability_def usable_def sample_finished_def sample_written_def
        sample_window_def window_default_def)
  have "stream_victim sample_finished = Some StdoutStream"
    by (simp add: stream_victim_def sample_finished_def sample_written_def sample_window_def window_default_def
        window_evictable_def)
  then have "evolved sample_finished sample_evicted"
    unfolding sample_evicted_def by (rule evolved.evicted[OF evolved.same evicts_part.stream])
  moreover have "warm_record (Some (sample_store sample_evicted 4)) (rq_ref sample_request) = Some sample_evicted"
    using sample_get(1) by (simp add: warm_record_def)
  ultimately have warm: "\<exists>r'. warm_record (Some (sample_store sample_evicted 4)) (rq_ref sample_request) = Some r'
      \<and> evolved sample_finished r'" by blast
  have "tool_output sample_env 0 sample_clock (sample_disk sample_snap) data sample_request
      = project base64 sample_page_len (output_view 0 sample_finished StdoutStream) sample_request 1000"
    if "warm_record data (rq_ref sample_request) = None
      \<or> (\<exists>r'. warm_record data (rq_ref sample_request) = Some r' \<and> evolved sample_finished r')" for data
    using evicted_output_reads_back[OF sample_run sample_get(1) snap disk facts(2) hash _ _ _ usable that sample_checks(1-4)]
    by (simp add: facts env ref sample_checks(5))
  from this[of "Some (sample_store sample_evicted 4)"] this[of None] warm show ?thesis
    by (simp add: warm_record_def)
qed

theorem empty_card_exceeds_request_witness:
  "\<exists>m t res. project_display_read (\<lambda>_ _. []) ''/root'' (env_parse sample_env) sample_read_len t m = Inr res
     \<and> m < sample_read_len res"
proof -
  define t where "t = read_summary (sample_finished\<lparr>r_name := ''write'', r_input := ''{}'', r_input_total := 2, r_input_seen := True\<rparr>) sample_ref"
  have args: "summary_arguments (env_parse sample_env) t = Some [''content'' \<mapsto> JString []]"
    by (simp add: summary_arguments_def t_def read_summary_def metadata_from_record_def execution_data_def sample_env_def
        sample_finished_def sample_written_def record_new_def input_availability_def text_availability_def)
  have name: "ex_name (rm_execution (ts_metadata t)) = ''write''"
    by (simp add: t_def read_summary_def metadata_from_record_def execution_data_def)
  have detail: "display_detail ''/root'' ''write'' [''content'' \<mapsto> JString []] = (''...'', False)"
    by (simp add: display_detail_def path_arg_def as_str_def single_line_def sanitize_display_text_def is_cont_code
        sanitize_char_def is_control_char_def truncate_fit MAX_DETAIL_def)
  have body: "display_body (\<lambda>_ _. []) ''write'' [''content'' \<mapsto> JString []] True
      = Some \<lparr>db_text = Some [], db_bytes = 0, db_lines = 0, db_limit = MAX_EXPANDED_INPUT_BYTES, db_truncated = False\<rparr>"
    by (simp add: display_body_def body_field_def as_str_def from_text_def body_sanitized_def new_body_def)
  have card: "summary_display (\<lambda>_ _. []) ''/root'' (env_parse sample_env) t
      = \<lparr>td_detail = ''...'', expanded_input = Some [], input_line_count = Some 0, hidden_line_count = None,
         td_truncated = False, body_truncated = False\<rparr>"
    by (simp add: summary_display_def args name tool_card_def build_tool_display_inner_def detail body
        apply_result_to_display_def Let_def)
  from empty_card_exceeds_request[OF sample_laws(2), of "\<lambda>_ _. []" "''/root''" "env_parse sample_env" t] card
  obtain m res where "project_display_read (\<lambda>_ _. []) ''/root'' (env_parse sample_env) sample_read_len t m = Inr res"
    "sample_read_len res = m + 21" by (auto simp: Let_def)
  then show ?thesis by (intro exI[of _ m] exI[of _ t] exI[of _ res]) simp
qed

end
