(* ===== verification/History_Log.thy ===== *)
theory History_Log
  imports Input_Queue Store_Time Tool_Record
begin

text \<open>
  The history of a Session: \<^verbatim>\<open>src/history.rs\<close>, the loop records of \<^verbatim>\<open>src/store.rs\<close>, the usage totals
  of \<^verbatim>\<open>src/read.rs\<close>, and from \<^verbatim>\<open>src/store/history.rs\<close> the appending of a loop, its rollback, the loading
  of the log with its repairs and the index kept in memory. \<^verbatim>\<open>persist_report\<close> of
  \<^verbatim>\<open>src/sessions/active_loop.rs\<close> merges what was appended into the loaded history.

  The log is a file of bytes, one encoded record and a newline per loop. The JSON codec, the hash, the
  provider's check of replay data and the constructor of reasoning content are parameters; a running
  hash is the bytes it was fed. A reader hands out the file in chunks of any sizes, and every file
  operation may fail; a failed write leaves any prefix of its bytes in the file.

  \<open>hl_step\<close> is the life of one log: loads, appends, unloads, each with any outcome of its file
  operations. It refines \<open>spec_step\<close>, an append-only list whose last append may be undecided until the
  next load.
\<close>

section \<open>Data\<close>

record Usage =
  input_tokens :: "nat option"
  output_tokens :: "nat option"
  reasoning_tokens :: "nat option"
  cache_read_tokens :: "nat option"
  cache_write_tokens :: "nat option"
  provider_total_tokens :: "nat option"

record CoveredUsage =
  cu_usage :: Usage
  cu_loop_count :: nat
  cu_last_loop_id :: "LoopId option"
  cu_partial :: bool

record ReasoningContent =
  rc_text :: "string option"
  rc_summary :: "string option"
  rc_opaque :: "string option"

datatype AssistantPart = TextPart string | ToolCallPart string | ReasoningPart ReasoningContent

record AssistantHistory =
  ah_provider_replay :: "string option"
  ah_loop_id :: LoopId
  ah_request_index :: nat
  ah_model :: string
  ah_reasoning :: string
  ah_content :: "AssistantPart list"
  ah_finish_reason :: string
  ah_usage :: Usage

datatype LogItem =
  UserItem LoopId string | AssistantItem AssistantHistory | ToolResultEntry string | SummaryItem string

record InterruptedRequest =
  ir_stop_reason :: string
  ir_request_index :: nat
  ir_model :: string
  ir_reasoning :: string
  ir_text :: string

record StoredLoopRecord =
  lr_loop_id :: LoopId
  lr_outcome :: LoopOutcomeView
  lr_items :: "LogItem list"
  lr_usage :: Usage
  lr_requests :: nat
  lr_tool_rounds :: nat
  lr_final_config_revision :: nat
  lr_completed_at :: string
  lr_user_times :: "string option list option"
  lr_interrupted :: "InterruptedRequest option"

record HistoryLine =
  hl_end :: nat
  hl_items :: nat
  hl_hash :: string
  hl_usage :: CoveredUsage

datatype AppendError = AppendNotWritten StoreError | AppendUnknown

type_synonym user_times_map = "LoopId \<times> nat \<rightharpoonup> string"

record log_env =
  le_encode :: "StoredLoopRecord \<Rightarrow> string option"
  le_parse :: "string \<Rightarrow> StoredLoopRecord option"
  le_reasoning_new :: "string option \<Rightarrow> string option \<Rightarrow> ReasoningContent option"
  le_replay_ok :: "string \<Rightarrow> AssistantPart list \<Rightarrow> bool"
  le_sha :: "string \<Rightarrow> string"

definition MAX_LOOP_RECORD_BYTES :: nat where
  "MAX_LOOP_RECORD_BYTES = 16 * 1024 * 1024"

abbreviation newline :: char where
  "newline \<equiv> CHR 0x0A"

section \<open>Normalization of history items\<close>

fun sanitize_parts :: "log_env \<Rightarrow> AssistantPart list \<Rightarrow> AgentError + AssistantPart list" where
  "sanitize_parts env [] = Inr []"
| "sanitize_parts env (TextPart t # ps) = res_bind (sanitize_parts env ps) (\<lambda>c. Inr (TextPart t # c))"
| "sanitize_parts env (ToolCallPart t # ps) =
     res_bind (sanitize_parts env ps) (\<lambda>c. Inr (ToolCallPart t # c))"
| "sanitize_parts env (ReasoningPart r # ps) =
     (if rc_text r = None \<and> rc_summary r = None then sanitize_parts env ps
      else res_bind (ok_or (le_reasoning_new env (rc_text r) (rc_summary r)) InternalFailure) (\<lambda>cleaned.
           res_bind (sanitize_parts env ps) (\<lambda>c. Inr (ReasoningPart cleaned # c))))"

definition sanitize_assistant ::
  "log_env \<Rightarrow> AssistantHistory \<Rightarrow> bool \<Rightarrow> AgentError + AssistantHistory option" where
  "sanitize_assistant env a durable =
     res_bind (sanitize_parts env (ah_content a)) (\<lambda>content.
     res_bind
       (if durable then
          (case ah_provider_replay a of
             Some replay \<Rightarrow> if le_replay_ok env replay content then Inr (Some replay) else Inl InternalFailure
           | None \<Rightarrow> Inr None)
        else Inr None) (\<lambda>provider_replay.
     if content = [] \<and> provider_replay = None then Inr None
     else Inr (Some (a\<lparr>ah_provider_replay := provider_replay, ah_content := content\<rparr>))))"

fun normalize_items :: "log_env \<Rightarrow> bool \<Rightarrow> LogItem list \<Rightarrow> AgentError + LogItem list" where
  "normalize_items env durable [] = Inr []"
| "normalize_items env durable (AssistantItem a # its) =
     res_bind (sanitize_assistant env a durable) (\<lambda>kept.
     res_bind (normalize_items env durable its) (\<lambda>rest.
     Inr (case kept of Some a' \<Rightarrow> AssistantItem a' # rest | None \<Rightarrow> rest)))"
| "normalize_items env durable (i # its) =
     res_bind (normalize_items env durable its) (\<lambda>rest. Inr (i # rest))"

definition sanitize_history :: "log_env \<Rightarrow> LogItem list \<Rightarrow> AgentError + LogItem list" where
  "sanitize_history env xs = normalize_items env False xs"

definition normalize_history :: "log_env \<Rightarrow> LogItem list \<Rightarrow> AgentError + LogItem list" where
  "normalize_history env xs = normalize_items env True xs"

section \<open>Loop records\<close>

fun is_user :: "LogItem \<Rightarrow> bool" where
  "is_user (UserItem _ _) = True"
| "is_user _ = False"

definition user_count :: "LogItem list \<Rightarrow> nat" where
  "user_count xs = length (filter is_user xs)"

definition user_times_are_valid :: "StoredLoopRecord \<Rightarrow> bool" where
  "user_times_are_valid r =
     (case lr_user_times r of
        None \<Rightarrow> True
      | Some tms \<Rightarrow> length tms \<le> user_count (lr_items r)
          \<and> list_all (\<lambda>t. case t of None \<Rightarrow> True | Some ts \<Rightarrow> valid_timestamp ts) tms)"

definition normalized_user_times :: "StoredLoopRecord \<Rightarrow> string option list option" where
  "normalized_user_times r =
     (case lr_user_times r of
        None \<Rightarrow> None
      | Some tms \<Rightarrow>
          if user_count (lr_items r) < length tms then None
          else Some (map (\<lambda>t. case t of None \<Rightarrow> None
                            | Some ts \<Rightarrow> if valid_timestamp ts then Some ts else None) tms))"

section \<open>Usage totals\<close>

definition empty_usage :: Usage where
  "empty_usage = \<lparr>input_tokens = None, output_tokens = None, reasoning_tokens = None,
     cache_read_tokens = None, cache_write_tokens = None, provider_total_tokens = None\<rparr>"

definition covered_usage_default :: CoveredUsage where
  "covered_usage_default =
     \<lparr>cu_usage = empty_usage, cu_loop_count = 0, cu_last_loop_id = None, cu_partial = False\<rparr>"

definition usage_sum :: "nat option \<Rightarrow> nat option \<Rightarrow> bool \<Rightarrow> nat option \<times> bool" where
  "usage_sum a b partial =
     (let partial = (partial \<or> b = None) in
      case (a, b) of
        (Some a, Some b) \<Rightarrow>
          (case checked_add a b of Some c \<Rightarrow> (Some c, partial) | None \<Rightarrow> (Some (u64_bound - 1), True))
      | (Some a, None) \<Rightarrow> (Some a, partial)
      | (None, b) \<Rightarrow> (b, partial))"

definition covered_usage_add :: "LoopId \<Rightarrow> Usage \<Rightarrow> CoveredUsage \<Rightarrow> CoveredUsage" where
  "covered_usage_add loop_id n u =
     (let (i, p) = usage_sum (input_tokens (cu_usage u)) (input_tokens n) (cu_partial u);
          (ou, p) = usage_sum (output_tokens (cu_usage u)) (output_tokens n) p;
          (re, p) = usage_sum (reasoning_tokens (cu_usage u)) (reasoning_tokens n) p;
          (cr, p) = usage_sum (cache_read_tokens (cu_usage u)) (cache_read_tokens n) p;
          (cw, p) = usage_sum (cache_write_tokens (cu_usage u)) (cache_write_tokens n) p;
          (pt, p) = usage_sum (provider_total_tokens (cu_usage u)) (provider_total_tokens n) p
      in \<lparr>cu_usage = \<lparr>input_tokens = i, output_tokens = ou, reasoning_tokens = re,
            cache_read_tokens = cr, cache_write_tokens = cw, provider_total_tokens = pt\<rparr>,
          cu_loop_count = cu_loop_count u + 1, cu_last_loop_id = Some loop_id, cu_partial = p\<rparr>)"

section \<open>The index\<close>

definition empty_line :: HistoryLine where
  "empty_line = \<lparr>hl_end = 0, hl_items = 0, hl_hash = [], hl_usage = covered_usage_default\<rparr>"

definition last_line :: "HistoryLine list \<Rightarrow> HistoryLine" where
  "last_line index = (if index = [] then empty_line else List.last index)"

definition history_index_line ::
  "HistoryLine list \<Rightarrow> string \<Rightarrow> StoredLoopRecord \<Rightarrow> nat \<Rightarrow> HistoryLine list" where
  "history_index_line index bytes r item_count =
     (let line = last_line index in
      index @ [\<lparr>hl_end = hl_end line + length bytes, hl_items = hl_items line + item_count,
        hl_hash = hl_hash line @ bytes,
        hl_usage = covered_usage_add (lr_loop_id r) (lr_usage r) (hl_usage line)\<rparr>])"

section \<open>Reading chunks\<close>

text \<open>
  \<^verbatim>\<open>fill_buf\<close> shows the first chunk that is left; no chunk, or an empty one, is the end of the file, and
  \<^const>\<open>None\<close> a failed read. \<open>chunks_of\<close> relates a reader to the bytes it delivers.
\<close>

type_synonym chunks = "string option list"

definition byte_position :: "string \<Rightarrow> nat option" where
  "byte_position c = (if newline \<in> set c then Some (length (takeWhile (\<lambda>b. b \<noteq> newline) c)) else None)"

definition consume_chunk :: "nat \<Rightarrow> string \<Rightarrow> chunks \<Rightarrow> chunks" where
  "consume_chunk n c cs = (if length c \<le> n then cs else Some (drop n c) # cs)"

definition bounded_extend :: "string \<Rightarrow> string \<times> nat \<times> bool \<Rightarrow> string \<times> nat \<times> bool" where
  "bounded_extend part st =
     (let (buf, line_len, oversized) = st in
      if oversized then (buf, line_len, True)
      else (case checked_add line_len (length part) of
              Some total_len \<Rightarrow>
                if total_len \<le> MAX_LOOP_RECORD_BYTES then (buf @ part, total_len, False)
                else (buf, line_len, True)
            | None \<Rightarrow> (buf, line_len, True)))"

definition chunks_of :: "chunks \<Rightarrow> string \<Rightarrow> bool" where
  "chunks_of cs bs \<longleftrightarrow> (\<forall>c \<in> set cs. \<exists>b. c = Some b \<and> b \<noteq> [] \<and> length b \<le> MAX_LOOP_RECORD_BYTES)
     \<and> concat (map the cs) = bs"

section \<open>Loading\<close>

record LoadState =
  ls_items :: "LogItem list"
  ls_times :: user_times_map
  ls_offset :: nat
  ls_index :: "HistoryLine list"

definition empty_load :: LoadState where
  "empty_load = \<lparr>ls_items = [], ls_times = (\<lambda>_. None), ls_offset = 0, ls_index = []\<rparr>"

fun load_line :: "chunks \<Rightarrow> string \<times> nat \<times> bool \<Rightarrow> StoreError + (bool \<times> (string \<times> nat \<times> bool) \<times> chunks)" where
  "load_line [] st = Inr (True, st, [])"
| "load_line (None # cs) st = Inl StoreError.Unavailable"
| "load_line (Some c # cs) st =
     (if c = [] then Inr (True, st, cs)
      else case byte_position c of
        Some p \<Rightarrow> Inr (False, bounded_extend (take p c) st, consume_chunk (p + 1) c cs)
      | None \<Rightarrow> load_line cs (bounded_extend c st))"

fun record_times :: "StoredLoopRecord \<Rightarrow> string option list \<Rightarrow> LogItem list \<Rightarrow> nat \<Rightarrow> user_times_map \<Rightarrow> user_times_map"
where
  "record_times r tms [] occ m = m"
| "record_times r tms (UserItem l t # its) occ m =
     record_times r tms its (occ + 1)
       (if occ < length tms then (case tms ! occ of Some ts \<Rightarrow> m((lr_loop_id r, occ) \<mapsto> ts) | None \<Rightarrow> m) else m)"
| "record_times r tms (_ # its) occ m = record_times r tms its occ m"

definition load_record :: "string \<Rightarrow> StoredLoopRecord \<Rightarrow> LogItem list \<Rightarrow> LoadState \<Rightarrow> LoadState" where
  "load_record buf r normalized st =
     (let tms = (case lr_user_times r of
                   Some tms \<Rightarrow> if length tms \<le> user_count (lr_items r) then tms else []
                 | None \<Rightarrow> []) in
      \<lparr>ls_items = ls_items st @ normalized,
       ls_times = record_times r tms (lr_items r) 0 (ls_times st),
       ls_offset = ls_offset st + (length buf + 1),
       ls_index = history_index_line (ls_index st) (buf @ [newline]) r (length normalized)\<rparr>)"

definition parse_record :: "log_env \<Rightarrow> string \<Rightarrow> StoreError + (StoredLoopRecord \<times> LogItem list)" where
  "parse_record env buf =
     (case le_parse env buf of
        None \<Rightarrow> Inl Corrupt
      | Some r \<Rightarrow>
          (case normalize_history env (lr_items r) of
             Inl _ \<Rightarrow> Inl Corrupt
           | Inr normalized \<Rightarrow> Inr (r, normalized)))"

text \<open>\<open>write_all\<close>, \<open>flush\<close> and \<open>sync_data\<close> in a row: when one fails, some prefix of the bytes is in the file.\<close>

record IoWrite =
  iw_ok :: bool
  iw_reached :: nat

definition append_bytes :: "IoWrite \<Rightarrow> string \<Rightarrow> string \<Rightarrow> bool \<times> string" where
  "append_bytes io bytes contents =
     (if iw_ok io then (True, contents @ bytes) else (False, contents @ take (iw_reached io) bytes))"

datatype HistoryMeta = MetaDirectoryError StoreError | MetaMissing | MetaFailed | MetaNotFile | MetaRegular

definition require_history_file :: "HistoryMeta \<Rightarrow> string \<Rightarrow> StoreError + nat" where
  "require_history_file m contents =
     (case m of
        MetaDirectoryError e \<Rightarrow> Inl e
      | MetaMissing \<Rightarrow> Inl Corrupt
      | MetaFailed \<Rightarrow> Inl StoreError.Unavailable
      | MetaNotFile \<Rightarrow> Inl Corrupt
      | MetaRegular \<Rightarrow> Inr (length contents))"

record LoadIo =
  ld_meta :: HistoryMeta
  ld_open :: bool
  ld_chunks :: chunks
  ld_append_open :: bool
  ld_newline :: IoWrite
  ld_repair_open :: bool
  ld_set_len :: bool
  ld_sync :: bool

definition tail_repair :: "LoadIo \<Rightarrow> nat \<Rightarrow> string \<Rightarrow> (StoreError + unit) \<times> string" where
  "tail_repair io complete_offset contents =
     (if \<not> ld_repair_open io then (Inl StoreError.Unavailable, contents)
      else if \<not> ld_set_len io then (Inl StoreError.Unavailable, contents)
      else if \<not> ld_sync io then (Inl StoreError.Unavailable, take complete_offset contents)
      else (Inr (), take complete_offset contents))"

definition newline_repair :: "LoadIo \<Rightarrow> string \<Rightarrow> (StoreError + unit) \<times> string" where
  "newline_repair io contents =
     (if \<not> ld_append_open io then (Inl StoreError.Unavailable, contents)
      else let (ok, contents') = append_bytes (ld_newline io) [newline] contents in
        (if ok then (Inr (), contents') else (Inl StoreError.Unavailable, contents')))"

definition chunk_measure :: "chunks \<Rightarrow> nat" where
  "chunk_measure cs = sum_list (map (\<lambda>c. case c of Some b \<Rightarrow> length b + 1 | None \<Rightarrow> 1) cs)"

lemma chunk_measure_simps [simp]:
  "chunk_measure [] = 0"
  "chunk_measure (c # cs) = (case c of Some b \<Rightarrow> length b + 1 | None \<Rightarrow> 1) + chunk_measure cs"
  by (simp_all add: chunk_measure_def)

lemma load_line_shorter:
  "load_line cs st = Inr (False, st', cs') \<Longrightarrow> chunk_measure cs' < chunk_measure cs"
proof (induction cs st rule: load_line.induct)
  case (3 c cs st)
  then show ?case
    by (fastforce simp: consume_chunk_def byte_position_def split: if_splits)
qed simp_all

function load_loop ::
  "log_env \<Rightarrow> LoadIo \<Rightarrow> chunks \<Rightarrow> LoadState \<Rightarrow> string \<Rightarrow> (StoreError + (LoadState \<times> bool)) \<times> string" where
  "load_loop env io cs st contents =
     (case load_line cs ([], 0, False) of
        Inl e \<Rightarrow> (Inl e, contents)
      | Inr (reached_eof, (buf, line_len, oversized), cs') \<Rightarrow>
          if reached_eof \<and> line_len = 0 \<and> \<not> oversized then (Inr (st, False), contents)
          else (case (if oversized then Inl Corrupt else parse_record env buf) of
            Inl e \<Rightarrow> if reached_eof then (Inr (st, True), contents) else (Inl e, contents)
          | Inr (r, normalized) \<Rightarrow>
              if reached_eof then
                (case newline_repair io contents of
                   (Inl e, contents') \<Rightarrow> (Inl e, contents')
                 | (Inr _, contents') \<Rightarrow> (Inr (load_record buf r normalized st, False), contents'))
              else load_loop env io cs' (load_record buf r normalized st) contents))"
  by pat_completeness auto

termination
  by (relation "measure (\<lambda>(env, io, cs, st, contents). chunk_measure cs)") (auto dest: load_line_shorter)

declare load_loop.simps [simp del]

definition load_history ::
  "log_env \<Rightarrow> LoadIo \<Rightarrow> string \<Rightarrow> (StoreError + (LogItem list \<times> user_times_map \<times> HistoryLine list)) \<times> string"
where
  "load_history env io contents =
     (case require_history_file (ld_meta io) contents of
        Inl e \<Rightarrow> (Inl e, contents)
      | Inr _ \<Rightarrow>
          if \<not> ld_open io then (Inl StoreError.Unavailable, contents)
          else case load_loop env io (ld_chunks io) empty_load contents of
            (Inl e, contents') \<Rightarrow> (Inl e, contents')
          | (Inr (st, saw_partial), contents') \<Rightarrow>
              let (repaired, contents'') =
                (if saw_partial then tail_repair io (ls_offset st) contents' else (Inr (), contents'))
              in case repaired of
                Inl e \<Rightarrow> (Inl e, contents'')
              | Inr _ \<Rightarrow> (Inr (ls_items st, ls_times st, ls_index st), contents''))"

section \<open>Appending\<close>

record AppendIo =
  ap_meta :: HistoryMeta
  ap_open :: bool
  ap_write :: IoWrite
  ap_reopen :: bool
  ap_set_len :: bool
  ap_sync :: bool

definition truncate_append :: "AppendIo \<Rightarrow> nat \<Rightarrow> string \<Rightarrow> AppendError \<times> string" where
  "truncate_append io previous_len contents =
     (if \<not> ap_set_len io then (AppendUnknown, contents)
      else if \<not> ap_sync io then (AppendUnknown, take previous_len contents)
      else (AppendNotWritten StoreError.Unavailable, take previous_len contents))"

definition rollback_append :: "AppendIo \<Rightarrow> nat \<Rightarrow> string \<Rightarrow> AppendError \<times> string" where
  "rollback_append io previous_len contents =
     (if ap_reopen io then truncate_append io previous_len contents else (AppendUnknown, contents))"

fun has_replay :: "LogItem \<Rightarrow> bool" where
  "has_replay (AssistantItem a) = (ah_provider_replay a \<noteq> None)"
| "has_replay _ = False"

definition loop_bytes :: "log_env \<Rightarrow> StoredLoopRecord \<Rightarrow> StoreError + (string \<times> bool)" where
  "loop_bytes env r =
     res_bind (ok_or (le_encode env (if user_times_are_valid r then r
         else r\<lparr>lr_user_times := normalized_user_times r\<rparr>)) Corrupt) (\<lambda>bytes.
     let shed_metadata = MAX_LOOP_RECORD_BYTES < length bytes
           \<and> (lr_user_times r \<noteq> None \<or> lr_interrupted r \<noteq> None) in
     res_bind (if shed_metadata
       then ok_or (le_encode env (r\<lparr>lr_user_times := None, lr_interrupted := None\<rparr>)) Corrupt
       else Inr bytes) (\<lambda>bytes.
     if MAX_LOOP_RECORD_BYTES < length bytes then Inl RecordTooLarge
     else Inr (bytes @ [newline], shed_metadata)))"

definition append_loop ::
  "log_env \<Rightarrow> AppendIo \<Rightarrow> StoredLoopRecord \<Rightarrow> string \<times> HistoryLine list option
     \<Rightarrow> (AppendError + bool) \<times> string \<times> HistoryLine list option" where
  "append_loop env io r = (\<lambda>(contents, index).
     case require_history_file (ap_meta io) contents of
       Inl e \<Rightarrow> (Inl (AppendNotWritten e), contents, index)
     | Inr previous_len \<Rightarrow>
         (case normalize_history env (lr_items r) of
            Inl _ \<Rightarrow> (Inl (AppendNotWritten Corrupt), contents, index)
          | Inr normalized_items \<Rightarrow>
              let r = (if list_ex has_replay (lr_items r) then r\<lparr>lr_items := normalized_items\<rparr> else r) in
              (case loop_bytes env r of
                 Inl e \<Rightarrow> (Inl (AppendNotWritten e), contents, index)
               | Inr (bytes, shed_metadata) \<Rightarrow>
                   if \<not> ap_open io then (Inl (AppendNotWritten StoreError.Unavailable), contents, index)
                   else let (written, contents') = append_bytes (ap_write io) bytes contents in
                     if \<not> written then
                       let (e, contents'') = rollback_append io previous_len contents'
                       in (Inl e, contents'', index)
                     else (Inr (\<not> shed_metadata), contents',
                           map_option (\<lambda>ix. history_index_line ix bytes r (length normalized_items)) index))))"

section \<open>Normalization is a projection\<close>

definition reasoning_law :: "log_env \<Rightarrow> bool" where
  "reasoning_law env \<longleftrightarrow>
     (\<forall>t s c. le_reasoning_new env t s = Some c \<longrightarrow> rc_text c = t \<and> rc_summary c = s)"

lemma sanitize_parts_idem:
  "reasoning_law env \<Longrightarrow> sanitize_parts env ps = Inr c \<Longrightarrow> sanitize_parts env c = Inr c"
  by (induction env ps arbitrary: c rule: sanitize_parts.induct)
    (auto simp: res_bind_eq_Inr reasoning_law_def split: if_splits)

lemma sanitize_assistant_idem:
  assumes "reasoning_law env" "sanitize_assistant env a d = Inr (Some b)"
  shows "sanitize_assistant env b d = Inr (Some b)"
  using assms(2) sanitize_parts_idem[OF assms(1), of "ah_content a"]
  by (cases d; cases "ah_provider_replay a"; cases "sanitize_parts env (ah_content a)")
    (auto simp: sanitize_assistant_def split: if_splits)

lemma normalize_items_idem:
  "reasoning_law env \<Longrightarrow> normalize_items env d xs = Inr ys \<Longrightarrow> normalize_items env d ys = Inr ys"
  by (induction env d xs arbitrary: ys rule: normalize_items.induct)
    (auto simp: res_bind_eq_Inr dest: sanitize_assistant_idem split: option.splits)

lemma normalize_items_users:
  "normalize_items env d xs = Inr ys \<Longrightarrow> filter is_user ys = filter is_user xs"
  by (induction env d xs arbitrary: ys rule: normalize_items.induct)
    (auto simp: res_bind_eq_Inr split: option.splits)

lemma sanitize_history_no_replay:
  "normalize_items env False xs = Inr ys \<Longrightarrow> \<not> list_ex has_replay ys"
  by (induction env "False" xs arbitrary: ys rule: normalize_items.induct)
    (auto simp: res_bind_eq_Inr sanitize_assistant_def split: option.splits if_splits)

section \<open>Chunks and lines\<close>

lemma chunks_of_simps [simp]:
  "chunks_of [] bs \<longleftrightarrow> bs = []"
  "\<not> chunks_of (None # cs) bs"
  by (auto simp: chunks_of_def)

lemma chunks_of_Cons:
  "chunks_of (Some b # cs) bs \<longleftrightarrow>
     b \<noteq> [] \<and> length b \<le> MAX_LOOP_RECORD_BYTES \<and> (\<exists>bs'. bs = b @ bs' \<and> chunks_of cs bs')"
  by (auto simp: chunks_of_def)

lemma max_record_u64: "MAX_LOOP_RECORD_BYTES < u64_bound"
  by (simp add: MAX_LOOP_RECORD_BYTES_def u64_bound_def)

definition line_state :: "string \<Rightarrow> string \<times> nat \<times> bool \<Rightarrow> bool" where
  "line_state seen st \<longleftrightarrow> (case st of (buf, n, oversized) \<Rightarrow>
     (oversized \<longrightarrow> MAX_LOOP_RECORD_BYTES < length seen)
     \<and> (\<not> oversized \<longrightarrow> buf = seen \<and> n = length seen \<and> length seen \<le> MAX_LOOP_RECORD_BYTES))"

lemma line_state_empty [simp]: "line_state [] ([], 0, False)"
  by (simp add: line_state_def)

lemma line_state_extend: "line_state seen st \<Longrightarrow> line_state (seen @ part) (bounded_extend part st)"
  using max_record_u64
  by (auto simp: line_state_def bounded_extend_def Let_def split: prod.splits option.splits if_splits)

lemma first_newline_unique:
  assumes "l @ newline # r = l' @ newline # r'" "newline \<notin> set l" "newline \<notin> set l'"
  shows "l = l' \<and> r = r'"
proof -
  have "takeWhile (\<lambda>b. b \<noteq> newline) (l @ newline # r) = l" "takeWhile (\<lambda>b. b \<noteq> newline) (l' @ newline # r') = l'"
    using assms(2,3) by (auto simp: takeWhile_append)
  then show ?thesis using assms(1) by simp
qed

lemma byte_position_split:
  "byte_position c = Some p \<Longrightarrow>
     \<exists>rest. c = take p c @ newline # rest \<and> newline \<notin> set (take p c) \<and> drop (p + 1) c = rest \<and> p < length c"
proof -
  assume "byte_position c = Some p"
  then have nl: "newline \<in> set c" and p: "p = length (takeWhile (\<lambda>b. b \<noteq> newline) c)"
    by (auto simp: byte_position_def split: if_splits)
  obtain l r where c: "c = l @ newline # r" "newline \<notin> set l"
    using nl split_list_first by fastforce
  then have "p = length l" unfolding p by (auto simp: takeWhile_append)
  then show ?thesis using c by auto
qed

lemma chunks_of_consume:
  assumes "chunks_of (Some c # cs) (c @ bs)" "n \<le> length c" "0 < n"
  shows "chunks_of (consume_chunk n c cs) (drop n c @ bs)"
  using assms by (auto simp: consume_chunk_def chunks_of_Cons)

lemma load_line_complete:
  assumes "chunks_of cs (l @ newline # rest)" "newline \<notin> set l" "line_state seen st"
  shows "\<exists>st' cs'. load_line cs st = Inr (False, st', cs') \<and> line_state (seen @ l) st' \<and> chunks_of cs' rest"
  using assms
proof (induction cs st arbitrary: l seen rule: load_line.induct)
  case (3 c cs st)
  then obtain bs where c: "c \<noteq> []" "l @ newline # rest = c @ bs" "chunks_of cs bs"
    by (auto simp: chunks_of_Cons)
  show ?case
  proof (cases "byte_position c")
    case None
    then have "newline \<notin> set c" by (simp add: byte_position_def split: if_splits)
    then obtain l' where l: "l = c @ l'" "bs = l' @ newline # rest"
      using c(2) by (auto simp: append_eq_append_conv2 Cons_eq_append_conv)
    then show ?thesis
      using "3.IH"[OF c(1) None, of l' "seen @ c"] 3(3,4) c None by (simp add: line_state_extend)
  next
    case (Some p)
    from byte_position_split[OF this] obtain r where r: "c = take p c @ newline # r"
      "newline \<notin> set (take p c)" "drop (p + 1) c = r" "p < length c" by blast
    then have eq: "l @ newline # rest = take p c @ newline # r @ bs" using c(2) by (metis append.assoc append_Cons)
    then have l: "l = take p c" "rest = r @ bs"
      using first_newline_unique[OF eq] 3(3) r(2) by auto
    have "chunks_of (consume_chunk (p + 1) c cs) (r @ bs)"
      using chunks_of_consume[of c cs bs "p + 1"] 3(2) r c by auto
    then show ?thesis using c(1) Some l 3(4) by (simp add: line_state_extend)
  qed
qed simp_all

lemma load_line_eof:
  assumes "chunks_of cs bs" "newline \<notin> set bs" "line_state seen st"
  shows "\<exists>st' cs'. load_line cs st = Inr (True, st', cs') \<and> line_state (seen @ bs) st'"
  using assms
proof (induction cs st arbitrary: bs seen rule: load_line.induct)
  case (3 c cs st)
  then obtain bs' where c: "c \<noteq> []" "bs = c @ bs'" "chunks_of cs bs'"
    by (auto simp: chunks_of_Cons)
  then have "byte_position c = None" using 3(3) by (simp add: byte_position_def)
  then show ?case
    using "3.IH"[OF c(1) _ c(3), of "seen @ c"] 3(3,4) c by (simp add: line_state_extend)
qed simp_all

section \<open>The log as a list of lines\<close>

definition log_file :: "string list \<Rightarrow> string" where
  "log_file ls = concat (map (\<lambda>l. l @ [newline]) ls)"

definition line_ok :: "log_env \<Rightarrow> string \<Rightarrow> bool" where
  "line_ok env l \<longleftrightarrow> newline \<notin> set l \<and> length l \<le> MAX_LOOP_RECORD_BYTES \<and> \<not> isl (parse_record env l)"

definition line_items :: "log_env \<Rightarrow> string \<Rightarrow> LogItem list" where
  "line_items env l = (case parse_record env l of Inr (r, normalized) \<Rightarrow> normalized | Inl _ \<Rightarrow> [])"

definition log_items :: "log_env \<Rightarrow> string list \<Rightarrow> LogItem list" where
  "log_items env ls = concat (map (line_items env) ls)"

definition load_one :: "log_env \<Rightarrow> string \<Rightarrow> LoadState \<Rightarrow> LoadState" where
  "load_one env l st = (case parse_record env l of Inr (r, normalized) \<Rightarrow> load_record l r normalized st | Inl _ \<Rightarrow> st)"

definition load_lines :: "log_env \<Rightarrow> string list \<Rightarrow> LoadState \<Rightarrow> LoadState" where
  "load_lines env ls st = fold (load_one env) ls st"

definition index_of :: "log_env \<Rightarrow> string list \<Rightarrow> HistoryLine list" where
  "index_of env ls = ls_index (load_lines env ls empty_load)"

definition times_of :: "log_env \<Rightarrow> string list \<Rightarrow> user_times_map" where
  "times_of env ls = ls_times (load_lines env ls empty_load)"

definition file_lines :: "string \<Rightarrow> string list" where
  "file_lines contents = butlast (split_on newline contents)"

definition file_tail :: "string \<Rightarrow> string" where
  "file_tail contents = List.last (split_on newline contents)"

text \<open>The lines a load keeps: the complete ones, and the tail when it is a whole record without its newline.\<close>

definition kept_lines :: "log_env \<Rightarrow> string list \<Rightarrow> string \<Rightarrow> string list" where
  "kept_lines env ls torn = (if torn \<noteq> [] \<and> line_ok env torn then ls @ [torn] else ls)"

lemma log_file_simps [simp]:
  "log_file [] = []" "log_file (l # ls) = l @ newline # log_file ls" "log_file (ls @ ls') = log_file ls @ log_file ls'"
  by (simp_all add: log_file_def)

lemma log_items_simps [simp]:
  "log_items env [] = []" "log_items env (l # ls) = line_items env l @ log_items env ls"
  "log_items env (ls @ ls') = log_items env ls @ log_items env ls'"
  by (simp_all add: log_items_def)

lemma load_lines_simps [simp]:
  "load_lines env [] st = st" "load_lines env (l # ls) st = load_lines env ls (load_one env l st)"
  "load_lines env (ls @ ls') st = load_lines env ls' (load_lines env ls st)"
  by (simp_all add: load_lines_def)

lemma log_file_join: "log_file (butlast (x # xs)) @ List.last (x # xs) = join_with [newline] (x # xs)"
  by (induction xs arbitrary: x) (simp_all add: join_with_Cons)

lemma file_split: "log_file (file_lines contents) @ file_tail contents = contents"
proof -
  obtain x xs where s: "split_on newline contents = x # xs"
    using split_on_nonempty[of newline contents] by (cases "split_on newline contents") auto
  then show ?thesis
    using log_file_join[of x xs] join_split_on[of newline contents] unfolding file_lines_def file_tail_def s by metis
qed

lemma file_lines_no_newline: "list_all (\<lambda>l. newline \<notin> set l) (file_lines contents)" "newline \<notin> set (file_tail contents)"
  using split_on_no_sep[of _ newline contents] split_on_nonempty[of newline contents]
  by (auto simp: list_all_iff file_lines_def file_tail_def dest: in_set_butlastD)

lemma load_one_simps [simp]:
  "line_ok env l \<Longrightarrow> ls_items (load_one env l st) = ls_items st @ line_items env l"
  "line_ok env l \<Longrightarrow> ls_offset (load_one env l st) = ls_offset st + (length l + 1)"
  by (auto simp: load_one_def line_ok_def line_items_def load_record_def Let_def isl_def split: sum.splits)

lemma load_lines_items:
  "list_all (line_ok env) ls \<Longrightarrow> ls_items (load_lines env ls st) = ls_items st @ log_items env ls"
  "list_all (line_ok env) ls \<Longrightarrow> ls_offset (load_lines env ls st) = ls_offset st + length (log_file ls)"
  by (induction ls arbitrary: st) simp_all

subsection \<open>The loading loop, line by line\<close>

lemma parse_record_Inl: "parse_record env l = Inl e \<Longrightarrow> e = Corrupt"
  by (auto simp: parse_record_def split: option.splits sum.splits)

lemma load_loop_line:
  assumes "chunks_of cs (l @ newline # rest)" "newline \<notin> set l"
  shows "\<exists>cs'. chunks_of cs' rest \<and> load_loop env io cs st contents =
    (if line_ok env l then load_loop env io cs' (load_one env l st) contents else (Inl Corrupt, contents))"
proof -
  from load_line_complete[OF assms line_state_empty] obtain buf n ov cs' where
    r: "load_line cs ([], 0, False) = Inr (False, (buf, n, ov), cs')" "line_state l (buf, n, ov)" "chunks_of cs' rest"
    by fastforce
  show ?thesis
  proof (intro exI[of _ cs'] conjI)
    show "load_loop env io cs st contents =
      (if line_ok env l then load_loop env io cs' (load_one env l st) contents else (Inl Corrupt, contents))"
    proof (cases "parse_record env l")
      case (Inl e)
      then show ?thesis using r parse_record_Inl[OF Inl]
        by (subst load_loop.simps) (auto simp: line_ok_def line_state_def)
    next
      case (Inr v)
      then show ?thesis using r assms(2)
        by (subst load_loop.simps) (cases v; auto simp: line_ok_def line_state_def load_one_def)
    qed
  qed (rule r(3))
qed

lemma load_loop_lines:
  assumes "chunks_of cs (log_file ls @ torn)" "list_all (\<lambda>l. newline \<notin> set l) ls"
  shows "\<exists>cs'. chunks_of cs' torn \<and> load_loop env io cs st contents =
    (if list_all (line_ok env) ls then load_loop env io cs' (load_lines env ls st) contents else (Inl Corrupt, contents))"
  using assms
proof (induction ls arbitrary: cs st)
  case (Cons l ls)
  from load_loop_line[of cs l "log_file ls @ torn" env io st contents] Cons.prems obtain cs' where
    c: "chunks_of cs' (log_file ls @ torn)" "load_loop env io cs st contents =
      (if line_ok env l then load_loop env io cs' (load_one env l st) contents else (Inl Corrupt, contents))"
    by auto
  from Cons.IH[OF c(1), of "load_one env l st"] Cons.prems c(2) show ?case by auto
qed auto

lemma load_loop_tail:
  assumes "chunks_of cs torn" "newline \<notin> set torn"
  shows "load_loop env io cs st contents =
    (if torn = [] then (Inr (st, False), contents)
     else if line_ok env torn then
       (case newline_repair io contents of
          (Inl e, contents') \<Rightarrow> (Inl e, contents')
        | (Inr _, contents') \<Rightarrow> (Inr (load_one env torn st, False), contents'))
     else (Inr (st, True), contents))"
proof -
  from load_line_eof[OF assms line_state_empty] obtain buf n ov cs' where
    r: "load_line cs ([], 0, False) = Inr (True, (buf, n, ov), cs')" "line_state torn (buf, n, ov)" by fastforce
  show ?thesis
  proof (cases "parse_record env torn")
    case (Inl e)
    then show ?thesis using r by (subst load_loop.simps) (auto simp: line_ok_def line_state_def)
  next
    case (Inr v)
    then show ?thesis using r assms(2)
      by (subst load_loop.simps) (cases v; auto simp: line_ok_def line_state_def load_one_def split: sum.splits prod.splits)
  qed
qed

definition load_io_ok :: "LoadIo \<Rightarrow> bool" where
  "load_io_ok io \<longleftrightarrow> ld_meta io = MetaRegular \<and> ld_open io \<and> ld_append_open io \<and> iw_ok (ld_newline io)
     \<and> ld_repair_open io \<and> ld_set_len io \<and> ld_sync io"

text \<open>What a load returns on any file, by its complete lines and its tail.\<close>

definition loaded_log :: "log_env \<Rightarrow> string list \<Rightarrow> LogItem list \<times> user_times_map \<times> HistoryLine list" where
  "loaded_log env ls = (log_items env ls, times_of env ls, index_of env ls)"

lemma kept_lines_cases:
  obtains (none) "torn = []" "kept_lines env ls torn = ls"
  | (whole) "torn \<noteq> []" "line_ok env torn" "kept_lines env ls torn = ls @ [torn]"
  | (partial) "torn \<noteq> []" "\<not> line_ok env torn" "kept_lines env ls torn = ls"
  by (auto simp: kept_lines_def)

lemma load_history_log:
  assumes cs: "chunks_of (ld_chunks io) (log_file ls @ torn)" and nl: "list_all (\<lambda>l. newline \<notin> set l) ls" "newline \<notin> set torn"
    and f: "contents = log_file ls @ torn"
    and meta: "ld_meta io = MetaRegular" "ld_open io"
  shows "load_history env io contents =
    (if \<not> list_all (line_ok env) ls then (Inl Corrupt, contents)
     else if torn = [] then (Inr (loaded_log env ls), contents)
     else if line_ok env torn then
       (case newline_repair io contents of
          (Inl e, contents') \<Rightarrow> (Inl e, contents')
        | (Inr _, contents') \<Rightarrow> (Inr (loaded_log env (ls @ [torn])), contents'))
     else (case tail_repair io (length (log_file ls)) contents of
          (Inl e, contents') \<Rightarrow> (Inl e, contents')
        | (Inr _, contents') \<Rightarrow> (Inr (loaded_log env ls), contents')))"
proof -
  from load_loop_lines[OF cs nl(1), of env io empty_load contents] obtain cs' where c: "chunks_of cs' torn"
    "load_loop env io (ld_chunks io) empty_load contents =
       (if list_all (line_ok env) ls then load_loop env io cs' (load_lines env ls empty_load) contents
        else (Inl Corrupt, contents))" by blast
  note t = load_loop_tail[OF c(1) nl(2), of env io "load_lines env ls empty_load" contents]
  have m: "require_history_file (ld_meta io) contents = Inr (length contents)"
    by (simp add: require_history_file_def meta)
  have off: "ls_offset (load_lines env ls empty_load) = length (log_file ls)"
    and it: "ls_items (load_lines env ls empty_load) = log_items env ls" if "list_all (line_ok env) ls"
    using load_lines_items[OF that, of empty_load] by (simp_all add: empty_load_def)
  show ?thesis
  proof (cases "list_all (line_ok env) ls")
    case True
    then show ?thesis
      using it off unfolding load_history_def m c(2) t
      by (auto simp: meta loaded_log_def times_of_def index_of_def split: sum.splits prod.splits)
  next
    case False
    then show ?thesis unfolding load_history_def m c(2) by (simp add: meta)
  qed
qed

lemma repairs_ok:
  assumes "load_io_ok io"
  shows "newline_repair io contents = (Inr (), contents @ [newline])"
    "tail_repair io n contents = (Inr (), take n contents)"
  using assms by (simp_all add: load_io_ok_def newline_repair_def tail_repair_def append_bytes_def)

section \<open>Appending a loop\<close>

text \<open>
  What is assumed of the JSON codec: a record whose times are valid reads back, its encoding is one line, and
  no proper prefix of it is a complete JSON value.
\<close>

definition codec_law :: "log_env \<Rightarrow> bool" where
  "codec_law env \<longleftrightarrow> (\<forall>r b. le_encode env r = Some b \<longrightarrow> user_times_are_valid r \<longrightarrow>
     le_parse env b = Some r \<and> newline \<notin> set b \<and> b \<noteq> [] \<and> (\<forall>p. strict_prefix p b \<longrightarrow> le_parse env p = None))"

lemma normalized_user_times_valid: "user_times_are_valid (r\<lparr>lr_user_times := normalized_user_times r\<rparr>)"
  by (auto simp: user_times_are_valid_def normalized_user_times_def list_all_iff split: option.splits if_splits)

lemma shed_times_valid: "user_times_are_valid (r\<lparr>lr_user_times := None, lr_interrupted := None\<rparr>)"
  by (simp add: user_times_are_valid_def)

lemma loop_bytes_record:
  assumes "loop_bytes env r = Inr (bytes, shed)" "codec_law env"
  obtains b s where "bytes = b @ [newline]" "length b \<le> MAX_LOOP_RECORD_BYTES" "newline \<notin> set b" "b \<noteq> []"
    "le_parse env b = Some s" "\<forall>p. strict_prefix p b \<longrightarrow> le_parse env p = None"
    "lr_items s = lr_items r" "lr_loop_id s = lr_loop_id r" "lr_usage s = lr_usage r"
proof -
  from assms(1) obtain b s where b: "bytes = b @ [newline]" "length b \<le> MAX_LOOP_RECORD_BYTES" "le_encode env s = Some b"
    and s: "s \<in> {r, r\<lparr>lr_user_times := normalized_user_times r\<rparr>, r\<lparr>lr_user_times := None, lr_interrupted := None\<rparr>}"
      "user_times_are_valid s"
    using normalized_user_times_valid[of r] shed_times_valid[of r]
    by (auto simp: loop_bytes_def Let_def res_bind_eq_Inr split: if_splits)
  then show thesis using that[of b s] assms(2) unfolding codec_law_def by auto
qed

text \<open>The line an append writes, \<open>b\<close>, is a whole line of the log that yields the normalized items.\<close>

definition appended_line :: "log_env \<Rightarrow> StoredLoopRecord \<Rightarrow> string \<Rightarrow> bool" where
  "appended_line env r b \<longleftrightarrow> b \<noteq> [] \<and> line_ok env b \<and> normalize_history env (lr_items r) = Inr (line_items env b)
     \<and> (\<forall>p. strict_prefix p b \<longrightarrow> le_parse env p = None)
     \<and> (\<exists>s. le_parse env b = Some s \<and> lr_loop_id s = lr_loop_id r \<and> lr_usage s = lr_usage r)"

lemma parse_record_of_parse:
  "le_parse env b = Some s \<Longrightarrow> normalize_history env (lr_items s) = Inr ns \<Longrightarrow> parse_record env b = Inr (s, ns)"
  by (simp add: parse_record_def)

lemma appended_lineI:
  assumes "loop_bytes env (if list_ex has_replay (lr_items r) then r\<lparr>lr_items := ns\<rparr> else r) = Inr (bytes, shed)"
    and "normalize_history env (lr_items r) = Inr ns" "codec_law env" "reasoning_law env"
  obtains b where "bytes = b @ [newline]" "appended_line env r b" "length ns = length (line_items env b)"
proof -
  let ?r = "if list_ex has_replay (lr_items r) then r\<lparr>lr_items := ns\<rparr> else r"
  from loop_bytes_record[OF assms(1,3)] obtain b s where b: "bytes = b @ [newline]"
    "length b \<le> MAX_LOOP_RECORD_BYTES" "newline \<notin> set b" "b \<noteq> []" "le_parse env b = Some s"
    "\<forall>p. strict_prefix p b \<longrightarrow> le_parse env p = None"
    "lr_items s = lr_items ?r" "lr_loop_id s = lr_loop_id ?r" "lr_usage s = lr_usage ?r" .
  have "normalize_history env (lr_items s) = Inr ns"
    using assms(2) normalize_items_idem[OF assms(4), of True "lr_items r" ns]
    by (simp add: b(7) normalize_history_def)
  then have "parse_record env b = Inr (s, ns)" using b(5) by (simp add: parse_record_of_parse)
  moreover have "lr_loop_id s = lr_loop_id r" "lr_usage s = lr_usage r" using b(8,9) by (auto split: if_splits)
  ultimately have "appended_line env r b" "length ns = length (line_items env b)"
    using b assms(2) by (simp_all add: appended_line_def line_ok_def line_items_def)
  then show thesis using b(1) by (intro that)
qed

lemma index_of_snoc:
  assumes "appended_line env r b"
  shows "history_index_line (index_of env ls) (b @ [newline]) r (length (line_items env b)) = index_of env (ls @ [b])"
proof -
  from assms obtain s ns where "parse_record env b = Inr (s, ns)" "lr_loop_id s = lr_loop_id r" "lr_usage s = lr_usage r"
    by (auto simp: appended_line_def line_ok_def parse_record_def split: option.splits sum.splits)
  then show ?thesis
    by (simp add: index_of_def load_one_def load_record_def history_index_line_def line_items_def Let_def)
qed

lemma append_loop_cases:
  assumes "append_loop env io r (contents, ix) = (res, contents', ix')" "codec_law env" "reasoning_law env"
  obtains (ok) b where "res \<noteq> Inl AppendUnknown" "\<not> isl res" "appended_line env r b" "contents' = contents @ b @ [newline]"
      "ix' = map_option (\<lambda>ix. history_index_line ix (b @ [newline]) r (length (line_items env b))) ix"
  | (refused) e where "res = Inl (AppendNotWritten e)" "contents' = contents" "ix' = ix"
  | (unknown) b p where "res = Inl AppendUnknown" "appended_line env r b" "prefix p (b @ [newline])"
      "contents' = contents @ p" "ix' = ix"
proof -
  note d = assms(1)[unfolded append_loop_def Let_def, simplified]
  show thesis
  proof (cases "require_history_file (ap_meta io) contents")
    case (Inl e) then show thesis using d refused by auto
  next
    case (Inr n)
    then have n: "n = length contents" by (auto simp: require_history_file_def split: HistoryMeta.splits)
    show thesis
    proof (cases "normalize_history env (lr_items r)")
      case (Inl e) then show thesis using d Inr refused by auto
    next
      case N: (Inr ns)
      let ?r = "if list_ex has_replay (lr_items r) then r\<lparr>lr_items := ns\<rparr> else r"
      show thesis
      proof (cases "loop_bytes env ?r")
        case (Inl e) then show thesis using d Inr N refused by (auto split: if_splits)
      next
        case B: (Inr v)
        obtain bytes shed where v: "v = (bytes, shed)" by (cases v)
        from appended_lineI[OF B[unfolded v] N assms(2,3)] obtain b where
          b: "bytes = b @ [newline]" "appended_line env r b" "length ns = length (line_items env b)" .
        note d' = d[unfolded Inr N, simplified, unfolded B v, simplified]
        show thesis
        proof (cases "ap_open io \<and> iw_ok (ap_write io)")
          case True
          have "history_index_line ix bytes ?r k = history_index_line ix bytes r k" for ix k by (simp add: history_index_line_def)
          then show thesis using ok[of b] b True d' by (auto simp: append_bytes_def)
        next
          case False
          then consider "\<not> ap_open io" | "ap_open io" "\<not> iw_ok (ap_write io)" by blast
          then show thesis
          proof cases
            case 1 then show thesis using d' refused by auto
          next
            case 2
            then have "(\<exists>e. res = Inl (AppendNotWritten e) \<and> contents' = contents) \<or>
               res = Inl AppendUnknown \<and> (\<exists>p. prefix p bytes \<and> contents' = contents @ p)" "ix' = ix"
              using d' by (auto simp: append_bytes_def rollback_append_def truncate_append_def n take_is_prefix
                  split: if_splits)
            then show thesis using refused unknown b by auto
          qed
        qed
      qed
    qed
  qed
qed

section \<open>The life of a log\<close>

record HistSys =
  hs_file :: string
  hs_loaded :: bool
  hs_history :: "LogItem list"
  hs_times :: user_times_map
  hs_index :: "HistoryLine list option"
  hs_blocked :: "SessionBlockReason option"

definition persist_report ::
  "log_env \<Rightarrow> AppendIo \<Rightarrow> StoredLoopRecord \<Rightarrow> LogItem list \<Rightarrow> HistSys \<Rightarrow> (TurnPersistence \<times> bool) \<times> HistSys" where
  "persist_report env io stored sanitized s =
     (case append_loop env io stored (hs_file s, hs_index s) of
        (Inr _, contents, index) \<Rightarrow>
          ((Persisted, False),
           s\<lparr>hs_file := contents, hs_index := index, hs_history := hs_history s @ sanitized,
             hs_times := record_times stored (case lr_user_times stored of Some tms \<Rightarrow> tms | None \<Rightarrow> []) sanitized 0
               (hs_times s),
             hs_blocked := None\<rparr>)
      | (Inl e, contents, index) \<Rightarrow>
          ((NotPersisted, e = AppendUnknown),
           s\<lparr>hs_file := contents, hs_index := index,
             hs_blocked := (if e = AppendUnknown then Some BlockedPersistence else hs_blocked s)\<rparr>))"

definition read_failed :: "chunks \<Rightarrow> bool" where
  "read_failed cs \<longleftrightarrow> None \<in> set cs \<and> Some [] \<notin> set cs"

text \<open>
  A loaded Session runs turns unless it is blocked after an undecided append; another part of the program may block
  it at any time. A load reads the file to its end or fails on the way.
\<close>

datatype log_event =
  Shown "LogItem list" | LoadRefused | TurnPersisted "LogItem list" | TurnRefused "LogItem list"
| TurnUndecided "LogItem list" | SessionInternalBlock | SessionUnloaded

fun turn_event :: "TurnPersistence \<times> bool \<Rightarrow> LogItem list \<Rightarrow> log_event" where
  "turn_event (Persisted, _) xs = TurnPersisted xs"
| "turn_event (NotPersisted, False) xs = TurnRefused xs"
| "turn_event (NotPersisted, True) xs = TurnUndecided xs"

inductive hl_step :: "log_env \<Rightarrow> HistSys \<Rightarrow> log_event \<Rightarrow> HistSys \<Rightarrow> bool" for env where
  load: "\<not> hs_loaded s \<Longrightarrow> chunks_of (ld_chunks io) (hs_file s) \<or> read_failed (ld_chunks io) \<Longrightarrow>
    load_history env io (hs_file s) = (Inr (xs, tms, index), contents) \<Longrightarrow>
    hl_step env s (Shown xs) \<lparr>hs_file = contents, hs_loaded = True, hs_history = xs, hs_times = tms,
      hs_index = Some index, hs_blocked = None\<rparr>"
| load_failed: "\<not> hs_loaded s \<Longrightarrow> chunks_of (ld_chunks io) (hs_file s) \<or> read_failed (ld_chunks io) \<Longrightarrow>
    load_history env io (hs_file s) = (Inl e, contents) \<Longrightarrow> hl_step env s LoadRefused (s\<lparr>hs_file := contents\<rparr>)"
| persist: "hs_loaded s \<Longrightarrow> hs_blocked s \<noteq> Some BlockedPersistence \<Longrightarrow>
    normalize_history env reported = Inr sanitized \<Longrightarrow> lr_items stored = sanitized \<Longrightarrow>
    persist_report env io stored sanitized s = (outcome, s') \<Longrightarrow> hl_step env s (turn_event outcome sanitized) s'"
| block: "hs_loaded s \<Longrightarrow> hs_blocked s = None \<Longrightarrow>
    hl_step env s SessionInternalBlock (s\<lparr>hs_blocked := Some BlockedInternal\<rparr>)"
| unload: "hs_loaded s \<Longrightarrow>
    hl_step env s SessionUnloaded (s\<lparr>hs_loaded := False, hs_history := [], hs_index := None\<rparr>)"

definition hl_init :: "log_env \<Rightarrow> string list \<Rightarrow> HistSys \<Rightarrow> bool" where
  "hl_init env ls s \<longleftrightarrow> \<not> hs_loaded s \<and> hs_file s = log_file ls \<and> list_all (line_ok env) ls"

text \<open>The contract: an append-only list of items, where an append may stay undecided until the next load.\<close>

record log_spec =
  sp_items :: "LogItem list"
  sp_pending :: "LogItem list option"
  sp_view :: "LogItem list option"

definition sp_outcomes :: "log_spec \<Rightarrow> LogItem list set" where
  "sp_outcomes a = {sp_items a} \<union> (case sp_pending a of Some ns \<Rightarrow> {sp_items a @ ns} | None \<Rightarrow> {})"

inductive spec_step :: "log_spec \<Rightarrow> log_event \<Rightarrow> log_spec \<Rightarrow> bool" where
  spec_shown: "sp_view a = None \<Longrightarrow> kept \<in> sp_outcomes a \<Longrightarrow>
    spec_step a (Shown kept) \<lparr>sp_items = kept, sp_pending = None, sp_view = Some kept\<rparr>"
| spec_load_refused: "sp_view a = None \<Longrightarrow> a' = a \<or> (\<exists>kept \<in> sp_outcomes a. a' = a\<lparr>sp_items := kept, sp_pending := None\<rparr>) \<Longrightarrow>
    spec_step a LoadRefused a'"
| spec_persisted: "sp_view a = Some v \<Longrightarrow> sp_pending a = None \<Longrightarrow>
    spec_step a (TurnPersisted ns) (a\<lparr>sp_items := sp_items a @ ns, sp_view := Some (v @ ns)\<rparr>)"
| spec_refused: "sp_view a = Some v \<Longrightarrow> sp_pending a = None \<Longrightarrow> spec_step a (TurnRefused ns) a"
| spec_undecided: "sp_view a = Some v \<Longrightarrow> sp_pending a = None \<Longrightarrow>
    spec_step a (TurnUndecided ns) (a\<lparr>sp_pending := Some ns\<rparr>)"
| spec_block: "sp_view a \<noteq> None \<Longrightarrow> spec_step a SessionInternalBlock a"
| spec_unloaded: "sp_view a \<noteq> None \<Longrightarrow> spec_step a SessionUnloaded (a\<lparr>sp_view := None\<rparr>)"

definition spec_start :: "LogItem list \<Rightarrow> log_spec" where
  "spec_start xs = \<lparr>sp_items = xs, sp_pending = None, sp_view = None\<rparr>"

text \<open>
  The file behind an abstract list: with nothing undecided it is exactly the lines of the list; otherwise a part of
  the undecided line may follow them.
\<close>

definition file_rel :: "log_env \<Rightarrow> string \<Rightarrow> string list \<Rightarrow> LogItem list option \<Rightarrow> bool" where
  "file_rel env contents ls pend \<longleftrightarrow> list_all (line_ok env) ls \<and>
     (case pend of
        None \<Rightarrow> contents = log_file ls
      | Some ns \<Rightarrow> \<exists>b p. contents = log_file ls @ p \<and> prefix p (b @ [newline]) \<and> b \<noteq> [] \<and> line_ok env b
          \<and> line_items env b = ns \<and> (\<forall>q. strict_prefix q b \<longrightarrow> le_parse env q = None))"

definition log_rel :: "log_env \<Rightarrow> HistSys \<Rightarrow> log_spec \<Rightarrow> bool" where
  "log_rel env c a \<longleftrightarrow>
     sp_view a = (if hs_loaded c then Some (hs_history c) else None)
     \<and> (hs_loaded c \<longrightarrow> hs_history c = sp_items a)
     \<and> (hs_loaded c \<longrightarrow> sp_pending a \<noteq> None \<longrightarrow> hs_blocked c = Some BlockedPersistence)
     \<and> (\<exists>ls. file_rel env (hs_file c) ls (sp_pending a) \<and> sp_items a = log_items env ls
          \<and> (hs_loaded c \<longrightarrow> hs_index c = Some (index_of env ls)))"

fun run :: "('s \<Rightarrow> 'e \<Rightarrow> 's \<Rightarrow> bool) \<Rightarrow> 's \<Rightarrow> 'e list \<Rightarrow> 's \<Rightarrow> bool" where
  "run step s [] t \<longleftrightarrow> s = t"
| "run step s (e # es) t \<longleftrightarrow> (\<exists>u. step s e u \<and> run step u es t)"

locale forward_simulation =
  fixes cstep :: "'c \<Rightarrow> 'e \<Rightarrow> 'c \<Rightarrow> bool"
    and astep :: "'a \<Rightarrow> 'e \<Rightarrow> 'a \<Rightarrow> bool"
    and rel :: "'c \<Rightarrow> 'a \<Rightarrow> bool"
  assumes step_rel: "rel c a \<Longrightarrow> cstep c e c' \<Longrightarrow> \<exists>a'. astep a e a' \<and> rel c' a'"
begin

lemma simulated: "run cstep c es c' \<Longrightarrow> rel c a \<Longrightarrow> \<exists>a'. run astep a es a' \<and> rel c' a'"
proof (induction es arbitrary: c a)
  case (Cons e es)
  then obtain d where d: "cstep c e d" "run cstep d es c'" by auto
  from step_rel[OF Cons.prems(2) d(1)] obtain b where "astep a e b" "rel d b" by blast
  then show ?case using Cons.IH[OF d(2)] unfolding run.simps by blast
qed simp

end

subsection \<open>Loading in the simulation\<close>

lemma load_line_read_failed:
  "read_failed cs \<Longrightarrow> (\<exists>e. load_line cs st = Inl e) \<or>
     (\<exists>st' cs'. load_line cs st = Inr (False, st', cs') \<and> read_failed cs')"
proof (induction cs st rule: load_line.induct)
  case (3 c cs st)
  then have c: "c \<noteq> []" "read_failed cs" by (auto simp: read_failed_def)
  show ?case
  proof (cases "byte_position c")
    case (Some p)
    have "read_failed (consume_chunk (p + 1) c cs)" using c by (auto simp: read_failed_def consume_chunk_def)
    then show ?thesis using Some c by (cases "bounded_extend (take p c) st") auto
  qed (use 3 c in simp)
qed (simp_all add: read_failed_def)

lemma load_loop_read_failed:
  "read_failed cs \<Longrightarrow> \<exists>e. load_loop env io cs st contents = (Inl e, contents)"
proof (induction env io cs st contents rule: load_loop.induct)
  case (1 env io cs st contents)
  from load_line_read_failed[OF "1.prems", of "([], 0, False)"] show ?case
  proof (elim disjE exE conjE)
    fix st' cs' assume r: "load_line cs ([], 0, False) = Inr (False, st', cs')" "read_failed cs'"
    obtain buf n ov where s: "st' = (buf, n, ov)" by (cases st') auto
    show ?thesis
    proof (cases "if ov then Inl Corrupt else parse_record env buf")
      case (Inl e) then show ?thesis using r s by (subst load_loop.simps) (simp split: if_splits)
    next
      case (Inr v)
      obtain rr ns where v: "v = (rr, ns)" by (cases v)
      show ?thesis
        using "1.IH"[OF r(1)[unfolded s] refl refl refl refl _ Inr[unfolded v] refl _ r(2)] r s Inr v
        by (subst load_loop.simps) (auto split: if_splits)
    qed
  qed (subst load_loop.simps, simp)
qed

lemma load_history_read_failed:
  assumes "read_failed (ld_chunks io)"
  shows "\<exists>e. load_history env io contents = (Inl e, contents)"
  using load_loop_read_failed[OF assms, of env io empty_load contents]
  by (auto simp: load_history_def split: sum.splits)

lemma line_ok_no_newline: "list_all (line_ok env) ls \<Longrightarrow> list_all (\<lambda>l. newline \<notin> set l) ls"
  by (auto simp: list_all_iff line_ok_def)

definition decided_file :: "log_env \<Rightarrow> string list \<Rightarrow> LogItem list option \<Rightarrow> string list \<Rightarrow> bool" where
  "decided_file env ls pend ls' \<longleftrightarrow> list_all (line_ok env) ls' \<and>
     (log_items env ls' = log_items env ls \<or> (\<exists>ns. pend = Some ns \<and> log_items env ls' = log_items env ls @ ns))"

definition load_outcome ::
  "log_env \<Rightarrow> string \<Rightarrow> string list \<Rightarrow> LogItem list option
     \<Rightarrow> (StoreError + (LogItem list \<times> user_times_map \<times> HistoryLine list)) \<times> string \<Rightarrow> bool" where
  "load_outcome env contents ls pend out \<longleftrightarrow>
     (\<exists>ls'. decided_file env ls pend ls' \<and> snd out = log_file ls' \<and> (isl (fst out) \<or> fst out = Inr (loaded_log env ls')))
     \<or> isl (fst out) \<and> snd out = contents"

lemma load_history_blocked:
  assumes "ld_meta io \<noteq> MetaRegular \<or> \<not> ld_open io"
  shows "\<exists>e. load_history env io contents = (Inl e, contents)"
  using assms by (auto simp: load_history_def require_history_file_def split: HistoryMeta.splits)

lemma load_outcome_whole:
  assumes "list_all (line_ok env) ls'" "chunks_of (ld_chunks io) (log_file ls')" "decided_file env ls pend ls'"
  shows "load_outcome env (log_file ls') ls pend (load_history env io (log_file ls'))"
proof (cases "ld_meta io = MetaRegular \<and> ld_open io")
  case True
  then have "load_history env io (log_file ls') = (Inr (loaded_log env ls'), log_file ls')"
    using load_history_log[of io ls' "[]" "log_file ls'" env] assms line_ok_no_newline[OF assms(1)] by simp
  then show ?thesis using assms(3) by (auto simp: load_outcome_def)
next
  case False
  then obtain e where "load_history env io (log_file ls') = (Inl e, log_file ls')" using load_history_blocked by blast
  then show ?thesis by (auto simp: load_outcome_def)
qed

lemma load_outcome_torn:
  assumes ls: "list_all (line_ok env) ls" and cs: "chunks_of (ld_chunks io) (log_file ls @ p)"
    and p: "prefix p b" "p \<noteq> []" and b: "line_ok env b" "line_items env b = ns" "\<forall>q. strict_prefix q b \<longrightarrow> le_parse env q = None"
  shows "load_outcome env (log_file ls @ p) ls (Some ns) (load_history env io (log_file ls @ p))"
proof (cases "ld_meta io = MetaRegular \<and> ld_open io")
  case True
  have nl: "newline \<notin> set p" using p(1) b(1) by (auto simp: line_ok_def dest: set_mono_prefix)
  note r = load_history_log[OF cs line_ok_no_newline[OF ls] nl refl conjunct1[OF True] conjunct2[OF True], of env]
  have d: "decided_file env ls (Some ns) ls" "p = b \<Longrightarrow> decided_file env ls (Some ns) (ls @ [p])"
    using ls b by (auto simp: decided_file_def)
  show ?thesis
  proof (cases "p = b")
    case True
    then have "line_ok env p" using b(1) by simp
    then have eq: "load_history env io (log_file ls @ p) =
        (case newline_repair io (log_file ls @ p) of
           (Inl e, contents') \<Rightarrow> (Inl e, contents')
         | (Inr _, contents') \<Rightarrow> (Inr (loaded_log env (ls @ [p])), contents'))"
      unfolding r using ls p(2) by simp
    have "newline_repair io (log_file ls @ p) = (Inr (), log_file (ls @ [p])) \<or>
      (\<exists>e. newline_repair io (log_file ls @ p) = (Inl e, log_file ls @ p)) \<or>
      (\<exists>e. newline_repair io (log_file ls @ p) = (Inl e, log_file (ls @ [p])))"
      by (cases "iw_reached (ld_newline io)") (auto simp: newline_repair_def append_bytes_def)
    then show ?thesis unfolding eq using d(2)[OF True] by (auto simp: load_outcome_def)
  next
    case False
    then have "\<not> line_ok env p" using b(3) p by (auto simp: line_ok_def parse_record_def strict_prefix_def)
    then have eq: "load_history env io (log_file ls @ p) =
        (case tail_repair io (length (log_file ls)) (log_file ls @ p) of
           (Inl e, contents') \<Rightarrow> (Inl e, contents')
         | (Inr _, contents') \<Rightarrow> (Inr (loaded_log env ls), contents'))"
      unfolding r using ls p(2) by simp
    show ?thesis unfolding eq using d(1) by (auto simp: load_outcome_def tail_repair_def)
  qed
next
  case False
  then obtain e where "load_history env io (log_file ls @ p) = (Inl e, log_file ls @ p)" using load_history_blocked by blast
  then show ?thesis by (auto simp: load_outcome_def)
qed

lemma load_outcome_file:
  assumes "file_rel env contents ls pend" "chunks_of (ld_chunks io) contents \<or> read_failed (ld_chunks io)"
  shows "load_outcome env contents ls pend (load_history env io contents)"
  using assms(2)
proof
  assume cs: "chunks_of (ld_chunks io) contents"
  have ls: "list_all (line_ok env) ls" using assms(1) by (simp add: file_rel_def)
  then have d: "decided_file env ls pend ls" by (simp add: decided_file_def)
  show ?thesis
  proof (cases pend)
    case None
    then show ?thesis using assms(1) load_outcome_whole[OF ls _ d, of io] cs by (simp add: file_rel_def)
  next
    case (Some ns)
    then obtain b p where b: "contents = log_file ls @ p" "prefix p (b @ [newline])" "line_ok env b"
      "line_items env b = ns" "\<forall>q. strict_prefix q b \<longrightarrow> le_parse env q = None"
      using assms(1) by (auto simp: file_rel_def)
    consider "p = b @ [newline]" | "p = []" | "prefix p b" "p \<noteq> []" using b(2) by (auto simp: prefix_snoc)
    then show ?thesis
    proof cases
      case 1
      have "decided_file env ls pend (ls @ [b])" using ls b Some by (auto simp: decided_file_def)
      then show ?thesis using load_outcome_whole[of env "ls @ [b]" io ls pend] ls b 1 cs by simp
    next
      case 2
      then show ?thesis using load_outcome_whole[OF ls _ d, of io] b(1) cs by simp
    next
      case 3
      then show ?thesis using load_outcome_torn[OF ls _ 3 b(3,4,5)] cs b(1) Some by simp
    qed
  qed
next
  assume "read_failed (ld_chunks io)"
  then obtain e where "load_history env io contents = (Inl e, contents)" using load_history_read_failed by blast
  then show ?thesis by (simp add: load_outcome_def)
qed

subsection \<open>The simulation\<close>

lemma sp_outcomes_decided:
  "decided_file env ls (sp_pending a) ls' \<Longrightarrow> sp_items a = log_items env ls \<Longrightarrow> log_items env ls' \<in> sp_outcomes a"
  by (auto simp: decided_file_def sp_outcomes_def)

lemma sim_load:
  assumes rel: "log_rel env c a" and c: "\<not> hs_loaded c" "chunks_of (ld_chunks io) (hs_file c) \<or> read_failed (ld_chunks io)"
    and r: "load_history env io (hs_file c) = (Inr (xs, tms, index), contents)"
  shows "\<exists>a'. spec_step a (Shown xs) a' \<and> log_rel env \<lparr>hs_file = contents, hs_loaded = True, hs_history = xs,
      hs_times = tms, hs_index = Some index, hs_blocked = None\<rparr> a'"
proof -
  from rel c(1) obtain ls where v: "sp_view a = None" and ls: "file_rel env (hs_file c) ls (sp_pending a)"
    "sp_items a = log_items env ls" by (auto simp: log_rel_def)
  from load_outcome_file[OF ls(1) c(2)] r obtain ls' where d: "decided_file env ls (sp_pending a) ls'"
    "contents = log_file ls'" "(xs, tms, index) = loaded_log env ls'" by (auto simp: load_outcome_def)
  let ?b = "\<lparr>sp_items = xs, sp_pending = None, sp_view = Some xs\<rparr>"
  have "spec_step a (Shown xs) ?b"
    using v sp_outcomes_decided[OF d(1) ls(2)] d(3) by (intro spec_shown) (auto simp: loaded_log_def)
  moreover have "log_rel env \<lparr>hs_file = contents, hs_loaded = True, hs_history = xs, hs_times = tms,
      hs_index = Some index, hs_blocked = None\<rparr> ?b"
    unfolding log_rel_def using d
    by (intro conjI exI[of _ ls']) (simp_all add: file_rel_def loaded_log_def decided_file_def)
  ultimately show ?thesis by blast
qed

lemma sim_load_failed:
  assumes rel: "log_rel env c a" and c: "\<not> hs_loaded c" "chunks_of (ld_chunks io) (hs_file c) \<or> read_failed (ld_chunks io)"
    and r: "load_history env io (hs_file c) = (Inl e, contents)"
  shows "\<exists>a'. spec_step a LoadRefused a' \<and> log_rel env (c\<lparr>hs_file := contents\<rparr>) a'"
proof -
  from rel c(1) obtain ls where v: "sp_view a = None" and ls: "file_rel env (hs_file c) ls (sp_pending a)"
    "sp_items a = log_items env ls" by (auto simp: log_rel_def)
  from load_outcome_file[OF ls(1) c(2)] r consider "contents = hs_file c"
    | ls' where "decided_file env ls (sp_pending a) ls'" "contents = log_file ls'" by (auto simp: load_outcome_def)
  then show ?thesis
  proof cases
    case 1
    then have "c\<lparr>hs_file := contents\<rparr> = c" by simp
    then show ?thesis using rel spec_load_refused[OF v] by auto
  next
    case (2 ls')
    let ?b = "a\<lparr>sp_items := log_items env ls', sp_pending := None\<rparr>"
    have "spec_step a LoadRefused ?b" using v sp_outcomes_decided[OF 2(1) ls(2)] by (intro spec_load_refused) auto
    moreover have "log_rel env (c\<lparr>hs_file := contents\<rparr>) ?b"
      using 2 v c(1) by (auto simp: log_rel_def file_rel_def decided_file_def)
    ultimately show ?thesis by blast
  qed
qed

definition log_laws :: "log_env \<Rightarrow> bool" where
  "log_laws env \<longleftrightarrow> codec_law env \<and> reasoning_law env"

lemma persist_report_cases:
  assumes "persist_report env io stored sanitized s = (outcome, s')" "log_laws env"
    and "normalize_history env reported = Inr sanitized" "lr_items stored = sanitized"
  obtains (ok) b where "appended_line env stored b" "line_items env b = sanitized" "hs_file s' = hs_file s @ b @ [newline]"
      "hs_history s' = hs_history s @ sanitized" "hs_loaded s' = hs_loaded s" "outcome = (Persisted, False)"
      "hs_index s' = map_option (\<lambda>ix. history_index_line ix (b @ [newline]) stored (length (line_items env b))) (hs_index s)"
  | (refused) "s' = s" "outcome = (NotPersisted, False)"
  | (unknown) b p where "appended_line env stored b" "line_items env b = sanitized" "prefix p (b @ [newline])"
      "s' = s\<lparr>hs_file := hs_file s @ p, hs_blocked := Some BlockedPersistence\<rparr>" "outcome = (NotPersisted, True)"
proof -
  have laws: "codec_law env" "reasoning_law env" using assms(2) by (simp_all add: log_laws_def)
  have norm: "normalize_history env (lr_items stored) = Inr sanitized"
    using normalize_items_idem[OF laws(2)] assms(3,4) by (simp add: normalize_history_def)
  obtain res f ix where r: "append_loop env io stored (hs_file s, hs_index s) = (res, f, ix)"
    by (cases "append_loop env io stored (hs_file s, hs_index s)") auto
  note d = assms(1)[unfolded persist_report_def r]
  from r laws show thesis
  proof (cases rule: append_loop_cases)
    case (ok b)
    then have "line_items env b = sanitized" using norm by (simp add: appended_line_def)
    moreover obtain y where "res = Inr y" using ok(2) by (cases res) auto
    ultimately show thesis using that(1)[of b] d ok by auto
  next
    case (refused e)
    then show thesis using that(2) d by auto
  next
    case (unknown b p)
    then have "line_items env b = sanitized" using norm by (simp add: appended_line_def)
    then show thesis using that(3)[of b p] d unknown by auto
  qed
qed

lemma sim_persist:
  assumes rel: "log_rel env c a" and laws: "log_laws env" and c: "hs_loaded c" "hs_blocked c \<noteq> Some BlockedPersistence"
    and p: "normalize_history env reported = Inr sanitized" "lr_items stored = sanitized"
      "persist_report env io stored sanitized c = (outcome, c')"
  shows "\<exists>a'. spec_step a (turn_event outcome sanitized) a' \<and> log_rel env c' a'"
proof -
  from rel c have v: "sp_view a = Some (hs_history c)" "hs_history c = sp_items a" and pend: "sp_pending a = None"
    by (auto simp: log_rel_def)
  from rel c pend obtain ls where ls: "list_all (line_ok env) ls" "hs_file c = log_file ls" "sp_items a = log_items env ls"
    "hs_index c = Some (index_of env ls)" by (auto simp: log_rel_def file_rel_def)
  from p(3) laws p(1,2) show ?thesis
  proof (cases rule: persist_report_cases)
    case (ok b)
    let ?a = "a\<lparr>sp_items := sp_items a @ sanitized, sp_view := Some (hs_history c @ sanitized)\<rparr>"
    have "spec_step a (turn_event outcome sanitized) ?a"
      unfolding ok turn_event.simps by (rule spec_persisted[OF v(1) pend])
    moreover have "log_rel env c' ?a"
      unfolding log_rel_def using ok ls c pend v
      by (intro conjI exI[of _ "ls @ [b]"]) (simp_all add: file_rel_def appended_line_def index_of_snoc[OF ok(1), unfolded ok(2)])
    ultimately show ?thesis by blast
  next
    case refused
    then show ?thesis using rel spec_refused[OF v(1) pend] by auto
  next
    case (unknown b q)
    let ?a = "a\<lparr>sp_pending := Some sanitized\<rparr>"
    have "spec_step a (turn_event outcome sanitized) ?a"
      unfolding unknown turn_event.simps by (rule spec_undecided[OF v(1) pend])
    moreover have "log_rel env c' ?a"
      unfolding log_rel_def using unknown ls c v
      by (intro conjI exI[of _ ls]) (auto simp: file_rel_def appended_line_def intro!: exI[of _ b])
    ultimately show ?thesis by blast
  qed
qed

lemma sim_step:
  assumes "log_rel env c a" "log_laws env" "hl_step env c ev c'"
  shows "\<exists>a'. spec_step a ev a' \<and> log_rel env c' a'"
  using assms(3)
proof cases
  case (load io xs tms index contents)
  show ?thesis unfolding load(1,2) by (rule sim_load[OF assms(1) load(3,4,5)])
next
  case (load_failed io e contents)
  show ?thesis unfolding load_failed(1,2) by (rule sim_load_failed[OF assms(1) load_failed(3,4,5)])
next
  case (persist reported sanitized stored io outcome)
  show ?thesis unfolding persist(1) by (rule sim_persist[OF assms(1,2) persist(2-)])
next
  case block
  then have "log_rel env c' a" "sp_view a \<noteq> None" using assms(1) by (auto simp: log_rel_def)
  then show ?thesis using block spec_block by blast
next
  case unload
  have "log_rel env c' (a\<lparr>sp_view := None\<rparr>)" using assms(1) unload by (auto simp: log_rel_def)
  moreover have "sp_view a \<noteq> None" using assms(1) unload by (auto simp: log_rel_def)
  ultimately show ?thesis using unload spec_unloaded by blast
qed

lemma log_rel_start: "hl_init env ls c \<Longrightarrow> log_rel env c (spec_start (log_items env ls))"
  by (auto simp: hl_init_def log_rel_def file_rel_def spec_start_def)

interpretation hl: forward_simulation "hl_step env" spec_step "\<lambda>c a. log_laws env \<and> log_rel env c a" for env
  by unfold_locales (use sim_step in blast)

section \<open>Usage totals\<close>

definition usage_fields :: "(Usage \<Rightarrow> nat option) list" where
  "usage_fields = [input_tokens, output_tokens, reasoning_tokens, cache_read_tokens, cache_write_tokens,
     provider_total_tokens]"

definition covered_usage_of :: "(LoopId \<times> Usage) list \<Rightarrow> CoveredUsage" where
  "covered_usage_of us = fold (\<lambda>(l, u) c. covered_usage_add l u c) us covered_usage_default"

text \<open>The values of one field over all loops: all reported and with a sum that fits, or not.\<close>

definition field_summable :: "nat option list \<Rightarrow> bool" where
  "field_summable xs \<longleftrightarrow> None \<notin> set xs \<and> sum_list (map the xs) < u64_bound"

definition field_total :: "nat option list \<Rightarrow> nat option" where
  "field_total xs = (if xs = [] then None else Some (sum_list (map the xs)))"

lemma usage_sum_flag:
  "usage_sum t x p = (fst (usage_sum t x False), p \<or> snd (usage_sum t x False))"
  by (cases t; cases x) (auto simp: usage_sum_def Let_def split: option.splits)

lemma usage_sum_total:
  assumes "field_summable xs" "\<forall>n. x = Some n \<longrightarrow> n < u64_bound"
  shows "snd (usage_sum (field_total xs) x False) \<longleftrightarrow> \<not> field_summable (xs @ [x])"
    "field_summable (xs @ [x]) \<Longrightarrow> fst (usage_sum (field_total xs) x False) = field_total (xs @ [x])"
  using assms
  by (cases xs; cases x; auto simp: usage_sum_def Let_def field_summable_def field_total_def checked_add_def)+

lemma covered_usage_add_fields:
  "cu_partial (covered_usage_add l n c) \<longleftrightarrow>
     cu_partial c \<or> (\<exists>f \<in> set usage_fields. snd (usage_sum (f (cu_usage c)) (f n) False))"
  "f \<in> set usage_fields \<Longrightarrow> f (cu_usage (covered_usage_add l n c)) = fst (usage_sum (f (cu_usage c)) (f n) False)"
  "cu_loop_count (covered_usage_add l n c) = cu_loop_count c + 1"
  "cu_last_loop_id (covered_usage_add l n c) = Some l"
  unfolding covered_usage_add_def usage_fields_def
  by (subst (1 2 3 4 5 6) usage_sum_flag; auto simp: Let_def)+

lemma covered_usage_of_snoc: "covered_usage_of (us @ [(l, n)]) = covered_usage_add l n (covered_usage_of us)"
  by (simp add: covered_usage_of_def)

definition loops_summable :: "(LoopId \<times> Usage) list \<Rightarrow> bool" where
  "loops_summable us \<longleftrightarrow> (\<forall>f \<in> set usage_fields. field_summable (map (f \<circ> snd) us))"

lemma loops_summable_snoc: "loops_summable (us @ [(l, n)]) \<Longrightarrow> loops_summable us"
  by (auto simp: loops_summable_def field_summable_def)

lemma covered_usage_of_total:
  assumes "\<forall>(l, u) \<in> set us. \<forall>f \<in> set usage_fields. \<forall>n. f u = Some n \<longrightarrow> n < u64_bound"
  shows "(cu_partial (covered_usage_of us) \<longleftrightarrow> \<not> loops_summable us) \<and> (loops_summable us \<longrightarrow>
    (\<forall>f \<in> set usage_fields. f (cu_usage (covered_usage_of us)) = field_total (map (f \<circ> snd) us)))"
  using assms
proof (induction us rule: rev_induct)
  case Nil
  then show ?case
    by (auto simp: covered_usage_of_def covered_usage_default_def empty_usage_def loops_summable_def
        field_summable_def field_total_def usage_fields_def u64_bound_def)
next
  case (snoc x us)
  obtain l n where x: "x = (l, n)" by (cases x)
  note IH = snoc.IH[OF ballI, OF bspec[OF snoc.prems], simplified]
  have b: "f \<in> set usage_fields \<Longrightarrow> \<forall>k. f n = Some k \<longrightarrow> k < u64_bound" for f using snoc.prems x by auto
  show ?case
  proof (cases "loops_summable us")
    case True
    have t: "f \<in> set usage_fields \<Longrightarrow> field_summable (map (f \<circ> snd) us)"
      "f \<in> set usage_fields \<Longrightarrow> f (cu_usage (covered_usage_of us)) = field_total (map (f \<circ> snd) us)" for f
      using IH True by (auto simp: loops_summable_def comp_def)
    show ?thesis
      using IH True t usage_sum_total[OF t(1) b]
      unfolding x covered_usage_of_snoc
      by (auto simp: covered_usage_add_fields loops_summable_def comp_def)
  next
    case False
    then show ?thesis
      using IH loops_summable_snoc unfolding x covered_usage_of_snoc by (auto simp: covered_usage_add_fields)
  qed
qed

section \<open>The index describes the prefixes of the log\<close>

definition line_usage :: "log_env \<Rightarrow> string \<Rightarrow> LoopId \<times> Usage" where
  "line_usage env l = (case parse_record env l of Inr (r, _) \<Rightarrow> (lr_loop_id r, lr_usage r) | Inl _ \<Rightarrow> ([], empty_usage))"

definition line_entry :: "log_env \<Rightarrow> string list \<Rightarrow> HistoryLine" where
  "line_entry env ls = \<lparr>hl_end = length (log_file ls), hl_items = length (log_items env ls), hl_hash = log_file ls,
     hl_usage = covered_usage_of (map (line_usage env) ls)\<rparr>"

lemma index_of_last:
  assumes "list_all (line_ok env) ls"
  shows "last_line (index_of env ls) = line_entry env ls \<and> length (index_of env ls) = length ls"
    "line_ok env l \<Longrightarrow> index_of env (ls @ [l]) = index_of env ls @ [line_entry env (ls @ [l])]"
proof -
  have step: "index_of env (ls @ [l]) = index_of env ls @ [line_entry env (ls @ [l])]"
    if "last_line (index_of env ls) = line_entry env ls" "line_ok env l" for ls l
    using that
    by (auto simp: index_of_def load_one_def load_record_def history_index_line_def line_entry_def line_items_def line_ok_def
        line_usage_def covered_usage_of_snoc isl_def Let_def split: sum.splits prod.splits)
  show "last_line (index_of env ls) = line_entry env ls \<and> length (index_of env ls) = length ls"
    using assms
  proof (induction ls rule: rev_induct)
    case Nil
    then show ?case
      by (simp add: index_of_def empty_load_def last_line_def empty_line_def line_entry_def covered_usage_of_def)
  next
    case (snoc l ls)
    then show ?case using step[of ls l] by (simp add: last_line_def)
  qed
  then show "line_ok env l \<Longrightarrow> index_of env (ls @ [l]) = index_of env ls @ [line_entry env (ls @ [l])]"
    using step by blast
qed

lemma index_of_prefixes:
  "list_all (line_ok env) ls \<Longrightarrow> index_of env ls = map (\<lambda>k. line_entry env (take (Suc k) ls)) [0..<length ls]"
proof (induction ls rule: rev_induct)
  case Nil
  then show ?case by (simp add: index_of_def empty_load_def)
next
  case (snoc l ls)
  then show ?case using index_of_last(2)[of env ls l] by (auto intro!: map_cong)
qed

lemma file_rel_loads:
  assumes "file_rel env contents ls pend" "chunks_of (ld_chunks io) contents" "load_io_ok io"
  shows "\<not> isl (fst (load_history env io contents))"
proof -
  have io: "ld_meta io = MetaRegular" "ld_open io" using assms(3) by (simp_all add: load_io_ok_def)
  have whole: "\<not> isl (fst (load_history env io (log_file ls' @ q)))"
    if "list_all (line_ok env) ls'" "newline \<notin> set q" "contents = log_file ls' @ q" for ls' q
    using load_history_log[OF _ line_ok_no_newline[OF that(1)] that(2) refl io, of env] assms(2) that
    by (simp add: repairs_ok[OF assms(3)])
  have ls: "list_all (line_ok env) ls" using assms(1) by (simp add: file_rel_def)
  show ?thesis
  proof (cases pend)
    case None
    then show ?thesis using whole[OF ls, of "[]"] assms(1) by (simp add: file_rel_def)
  next
    case (Some ns)
    then obtain b p where b: "contents = log_file ls @ p" "prefix p (b @ [newline])" "line_ok env b"
      using assms(1) by (auto simp: file_rel_def)
    then consider "p = b @ [newline]" | "prefix p b" by (auto simp: prefix_snoc)
    then show ?thesis
    proof cases
      case 1
      then show ?thesis using whole[of "ls @ [b]" "[]"] ls b by simp
    next
      case 2
      then show ?thesis using whole[OF ls, of p] b by (auto simp: line_ok_def dest: set_mono_prefix)
    qed
  qed
qed

section \<open>Properties\<close>

definition sample_loop :: "LoopId \<Rightarrow> StoredLoopRecord" where
  "sample_loop l = \<lparr>lr_loop_id = l, lr_outcome = OutcomeCompleted, lr_items = [UserItem l ''hi''],
     lr_usage = empty_usage\<lparr>input_tokens := Some 3\<rparr>, lr_requests = 1, lr_tool_rounds = 0, lr_final_config_revision = 0,
     lr_completed_at = [], lr_user_times = None, lr_interrupted = None\<rparr>"

definition sample_log_env :: log_env where
  "sample_log_env = \<lparr>
     le_encode = (\<lambda>r. if lr_loop_id r \<in> {''a'', ''b'', ''c''} \<and> r = sample_loop (lr_loop_id r)
                      then Some (''{'' @ lr_loop_id r @ ''}'') else None),
     le_parse = (\<lambda>b. if b \<in> {''{a}'', ''{b}'', ''{c}''} then Some (sample_loop [b ! 1]) else None),
     le_reasoning_new = (\<lambda>t s. Some \<lparr>rc_text = t, rc_summary = s, rc_opaque = None\<rparr>),
     le_replay_ok = (\<lambda>_ _. True),
     le_sha = (\<lambda>b. replicate 64 (if even (length b) then CHR ''0'' else CHR ''1''))\<rparr>"

lemma sample_line_ok: "l \<in> {''{a}'', ''{b}'', ''{c}''} \<Longrightarrow> line_ok sample_log_env l"
  by (auto simp: line_ok_def parse_record_def sample_log_env_def sample_loop_def normalize_history_def
      MAX_LOOP_RECORD_BYTES_def)

lemma sample_log_laws: "log_laws sample_log_env"
proof -
  have "le_parse sample_log_env p = None" if "strict_prefix p b" "length b = 3" for p b
    using prefix_length_less[OF that(1)] that(2) by (auto simp: sample_log_env_def)
  then have "codec_law sample_log_env"
    unfolding codec_law_def by (auto simp: sample_log_env_def split: if_splits)
  moreover have "reasoning_law sample_log_env" by (simp add: reasoning_law_def sample_log_env_def)
  ultimately show ?thesis by (simp add: log_laws_def)
qed

definition sample_load :: "chunks \<Rightarrow> LoadIo" where
  "sample_load cs = \<lparr>ld_meta = MetaRegular, ld_open = True, ld_chunks = cs, ld_append_open = True,
     ld_newline = \<lparr>iw_ok = True, iw_reached = 0\<rparr>, ld_repair_open = True, ld_set_len = True, ld_sync = True\<rparr>"

lemma sample_load_ok: "load_io_ok (sample_load cs)" "ld_chunks (sample_load cs) = cs"
  by (simp_all add: load_io_ok_def sample_load_def)

text \<open>\<^bold>\<open>Loading is the reading of lines\<close> (\<^verbatim>\<open>load_history\<close>). However the file is cut into chunks, and whatever
  bytes it holds, a load whose file operations succeed answers what the list of complete lines says: when every
  complete line is a record of at most 16 MiB whose items normalize, the items, user times and index of these lines;
  a last line without its newline counts when it is a whole record, and the newline is added, and is cut off
  otherwise. A complete line that is no such record makes the load fail as corrupt and leaves the file alone.\<close>

theorem load_history_reads_lines:
  assumes "chunks_of (ld_chunks io) contents" "load_io_ok io"
  shows "load_history env io contents =
    (let ls = file_lines contents; kept = kept_lines env ls (file_tail contents)
     in if list_all (line_ok env) ls then (Inr (loaded_log env kept), log_file kept) else (Inl Corrupt, contents))"
proof -
  define ls torn where "ls = file_lines contents" and "torn = file_tail contents"
  have f: "contents = log_file ls @ torn" using file_split[of contents] by (simp add: ls_def torn_def)
  have nl: "list_all (\<lambda>l. newline \<notin> set l) ls" "newline \<notin> set torn"
    using file_lines_no_newline[of contents] by (simp_all add: ls_def torn_def)
  have io: "ld_meta io = MetaRegular" "ld_open io" using assms(2) by (simp_all add: load_io_ok_def)
  show ?thesis
    unfolding load_history_log[OF _ nl f io, of env, folded f, OF assms(1)] Let_def ls_def[symmetric] torn_def[symmetric]
    by (cases rule: kept_lines_cases[of torn env ls]) (simp_all add: repairs_ok[OF assms(2)] f)
qed

text \<open>Two records, of which the second lost its newline, read in chunks of two and three bytes.\<close>

theorem load_history_reads_lines_witness:
  "chunks_of [Some ''{a'', Some (''}'' @ [newline] @ ''{''), Some ''b}''] (''{a}'' @ [newline] @ ''{b}'')
   \<and> fst (load_history sample_log_env (sample_load [Some ''{a'', Some (''}'' @ [newline] @ ''{''), Some ''b}''])
        (''{a}'' @ [newline] @ ''{b}'')) = Inr (loaded_log sample_log_env [''{a}'', ''{b}''])
   \<and> snd (load_history sample_log_env (sample_load [Some ''{a'', Some (''}'' @ [newline] @ ''{''), Some ''b}''])
        (''{a}'' @ [newline] @ ''{b}'')) = ''{a}'' @ [newline] @ ''{b}'' @ [newline]"
proof -
  have c: "chunks_of (ld_chunks (sample_load [Some ''{a'', Some (''}'' @ [newline] @ ''{''), Some ''b}'']))
      (''{a}'' @ [newline] @ ''{b}'')"
    by (simp add: sample_load_ok chunks_of_def MAX_LOOP_RECORD_BYTES_def)
  have ok: "line_ok sample_log_env l" if "l \<in> {''{a}'', ''{b}''}" for l using that sample_line_ok by blast
  have f: "file_lines (''{a}'' @ [newline] @ ''{b}'') = [''{a}'']" "file_tail (''{a}'' @ [newline] @ ''{b}'') = ''{b}''"
    by (simp_all add: file_lines_def file_tail_def)
  show ?thesis
    using load_history_reads_lines[OF c sample_load_ok(1), of sample_log_env] c ok
    unfolding f Let_def sample_load_ok by (simp add: kept_lines_def)
qed

text \<open>C32: \<^bold>\<open>The history file implements an append-only list\<close> (\<^verbatim>\<open>append_loop\<close>, \<^verbatim>\<open>rollback_append\<close>, \<^verbatim>\<open>load_history\<close>,
  \<^verbatim>\<open>persist_report\<close>). Over any sequence of loads, finished turns, blocks and unloads, with any outcome of every file
  operation and writes that stop anywhere, the loaded history behaves as an abstract list: a turn reported as
  persisted is appended, a turn reported as not written leaves no trace, and a turn whose outcome is unknown stays
  undecided until the next load keeps or drops it as a whole. At every moment the file can be loaded again, and
  gives the items of the list, with or without the undecided turn.\<close>

theorem history_refines_list:
  assumes "log_laws env" "hl_init env ls c" "run (hl_step env) c evs c'"
  shows "\<exists>a. run spec_step (spec_start (log_items env ls)) evs a
    \<and> sp_view a = (if hs_loaded c' then Some (hs_history c') else None)
    \<and> (\<forall>io. chunks_of (ld_chunks io) (hs_file c') \<and> load_io_ok io \<longrightarrow>
        (\<exists>xs tms ix. fst (load_history env io (hs_file c')) = Inr (xs, tms, ix) \<and> xs \<in> sp_outcomes a))"
proof -
  from hl.simulated[OF assms(3)] log_rel_start[OF assms(2)] assms(1) obtain a where
    a: "run spec_step (spec_start (log_items env ls)) evs a" "log_rel env c' a" by blast
  from a(2) obtain ls' where ls: "file_rel env (hs_file c') ls' (sp_pending a)" "sp_items a = log_items env ls'"
    and v: "sp_view a = (if hs_loaded c' then Some (hs_history c') else None)" unfolding log_rel_def by blast
  have "\<exists>xs tms ix. fst (load_history env io (hs_file c')) = Inr (xs, tms, ix) \<and> xs \<in> sp_outcomes a"
    if io: "chunks_of (ld_chunks io) (hs_file c')" "load_io_ok io" for io
  proof -
    have "load_outcome env (hs_file c') ls' (sp_pending a) (load_history env io (hs_file c'))"
      using load_outcome_file[OF ls(1)] io(1) by blast
    then show ?thesis
      using sp_outcomes_decided[OF _ ls(2)] file_rel_loads[OF ls(1) io] by (auto simp: load_outcome_def loaded_log_def)
  qed
  then show ?thesis using a v by blast
qed

definition sample_start :: HistSys where
  "sample_start = \<lparr>hs_file = [], hs_loaded = False, hs_history = [], hs_times = (\<lambda>_. None), hs_index = None,
     hs_blocked = None\<rparr>"

definition sample_torn_append :: AppendIo where
  "sample_torn_append = \<lparr>ap_meta = MetaRegular, ap_open = True, ap_write = \<lparr>iw_ok = False, iw_reached = 2\<rparr>,
     ap_reopen = False, ap_set_len = False, ap_sync = False\<rparr>"

lemma sample_empty_load:
  "load_history sample_log_env (sample_load []) [] = (Inr ([], (\<lambda>_. None), []), [])"
  by (simp add: load_history_def sample_load_def require_history_file_def load_loop.simps empty_load_def)

lemma sample_append:
  "append_loop sample_log_env sample_torn_append (sample_loop ''a'') ([], Some []) = (Inl AppendUnknown, ''{a'', Some [])"
  by (simp add: append_loop_def sample_torn_append_def require_history_file_def normalize_history_def sample_loop_def
      sample_log_env_def loop_bytes_def user_times_are_valid_def MAX_LOOP_RECORD_BYTES_def append_bytes_def
      rollback_append_def Let_def)

text \<open>A load of the empty file, a turn whose write stops after two bytes and cannot be taken back, and an unload.\<close>

theorem history_refines_list_witness:
  "log_laws sample_log_env \<and> hl_init sample_log_env [] sample_start
   \<and> (\<exists>c' a. run (hl_step sample_log_env) sample_start [Shown [], TurnUndecided [UserItem ''a'' ''hi''], SessionUnloaded] c'
      \<and> hs_file c' = ''{a''
      \<and> run spec_step (spec_start []) [Shown [], TurnUndecided [UserItem ''a'' ''hi''], SessionUnloaded] a
      \<and> (\<exists>xs tms ix. fst (load_history sample_log_env (sample_load [Some ''{'', Some ''a'']) ''{a'') = Inr (xs, tms, ix)
          \<and> xs \<in> sp_outcomes a))"
proof -
  let ?x = "[UserItem ''a'' ''hi'']"
  let ?s1 = "sample_start\<lparr>hs_loaded := True, hs_index := Some []\<rparr>"
  let ?s2 = "?s1\<lparr>hs_file := ''{a'', hs_blocked := Some BlockedPersistence\<rparr>"
  let ?s3 = "?s2\<lparr>hs_loaded := False, hs_history := [], hs_index := None\<rparr>"
  have 1: "hl_step sample_log_env sample_start (Shown []) ?s1"
    using hl_step.load[of sample_start "sample_load []" sample_log_env "[]" "\<lambda>_. None" "[]" "[]"] sample_empty_load
    by (simp add: sample_start_def sample_load_ok)
  have p: "persist_report sample_log_env sample_torn_append (sample_loop ''a'') ?x ?s1 = ((NotPersisted, True), ?s2)"
    by (simp add: persist_report_def sample_start_def sample_append)
  have n: "normalize_history sample_log_env ?x = Inr ?x" by (simp add: normalize_history_def)
  have 2: "hl_step sample_log_env ?s1 (TurnUndecided ?x) ?s2"
    using hl_step.persist[OF _ _ n _ p] by (simp add: sample_start_def sample_loop_def)
  have 3: "hl_step sample_log_env ?s2 SessionUnloaded ?s3"
    using hl_step.unload[of ?s2 sample_log_env] by (simp add: sample_start_def)
  have r: "run (hl_step sample_log_env) sample_start [Shown [], TurnUndecided ?x, SessionUnloaded] ?s3" using 1 2 3 by auto
  have i: "hl_init sample_log_env [] sample_start" by (simp add: hl_init_def sample_start_def)
  have c: "chunks_of (ld_chunks (sample_load [Some ''{'', Some ''a''])) (hs_file ?s3)"
    by (simp add: sample_load_ok chunks_of_def MAX_LOOP_RECORD_BYTES_def)
  obtain a where a: "run spec_step (spec_start []) [Shown [], TurnUndecided ?x, SessionUnloaded] a"
    "\<exists>xs tms ix. fst (load_history sample_log_env (sample_load [Some ''{'', Some ''a'']) ''{a'') = Inr (xs, tms, ix)
       \<and> xs \<in> sp_outcomes a"
    using history_refines_list[OF sample_log_laws i r] c sample_load_ok(1) by fastforce
  then show ?thesis using sample_log_laws i r by (intro conjI exI[of _ ?s3] exI[of _ a]) auto
qed

text \<open>\<^bold>\<open>Usage totals are exact or flagged\<close> (\<^verbatim>\<open>CoveredUsage::add\<close>, \<^verbatim>\<open>index_line\<close>). The totals in the last entry of the
  index a load builds count every loop of the log and name the last one. They are flagged as partial exactly when some
  loop does not report one of the six token counts or the sum of one of them exceeds 64 bits; when they are not
  flagged, each total is the sum over all loops.\<close>

theorem covered_usage_exact:
  assumes "list_all (line_ok env) ls"
    and "\<forall>(l, u) \<in> set (map (line_usage env) ls). \<forall>f \<in> set usage_fields. \<forall>n. f u = Some n \<longrightarrow> n < u64_bound"
  shows "let c = hl_usage (last_line (index_of env ls)); us = map (line_usage env) ls
    in cu_loop_count c = length ls \<and> cu_last_loop_id c = (if ls = [] then None else Some (fst (List.last us)))
      \<and> (cu_partial c \<longleftrightarrow> (\<exists>f \<in> set usage_fields. \<exists>(l, u) \<in> set us. f u = None)
           \<or> (\<exists>f \<in> set usage_fields. u64_bound \<le> (\<Sum>(l, u) \<leftarrow> us. the (f u))))
      \<and> (\<not> cu_partial c \<longrightarrow> ls \<noteq> [] \<longrightarrow>
           (\<forall>f \<in> set usage_fields. f (cu_usage c) = Some (\<Sum>(l, u) \<leftarrow> us. the (f u))))"
proof -
  define us where "us = map (line_usage env) ls"
  have c: "hl_usage (last_line (index_of env ls)) = covered_usage_of us"
    using index_of_last(1)[OF assms(1)] by (simp add: line_entry_def us_def)
  have n: "cu_loop_count (covered_usage_of vs) = length vs \<and>
      cu_last_loop_id (covered_usage_of vs) = (if vs = [] then None else Some (fst (List.last vs)))" for vs
    by (induction vs rule: rev_induct)
      (auto simp: covered_usage_of_snoc covered_usage_add_fields covered_usage_of_def[of "[]"] covered_usage_default_def)
  have s: "(\<Sum>(l, u) \<leftarrow> us. the (f u)) = sum_list (map the (map (f \<circ> snd) us))" for f :: "Usage \<Rightarrow> nat option"
    by (induction us) auto
  have m: "loops_summable us \<longleftrightarrow> \<not> ((\<exists>f \<in> set usage_fields. \<exists>(l, u) \<in> set us. f u = None)
           \<or> (\<exists>f \<in> set usage_fields. u64_bound \<le> (\<Sum>(l, u) \<leftarrow> us. the (f u))))"
  proof -
    have "None \<in> set (map (f \<circ> snd) us) \<longleftrightarrow> (\<exists>(l, u) \<in> set us. f u = None)" for f :: "Usage \<Rightarrow> nat option" by force
    then show ?thesis unfolding s loops_summable_def field_summable_def by (metis linorder_not_le)
  qed
  have len: "length us = length ls" "us = [] \<longleftrightarrow> ls = []" by (simp_all add: us_def)
  note t = covered_usage_of_total[OF assms(2)[folded us_def]]
  show ?thesis
    unfolding c Let_def us_def[symmetric]
  proof (intro conjI impI ballI)
    fix f assume f: "\<not> cu_partial (covered_usage_of us)" "ls \<noteq> []" "f \<in> set usage_fields"
    then have "f (cu_usage (covered_usage_of us)) = field_total (map (f \<circ> snd) us)" using t by blast
    then show "f (cu_usage (covered_usage_of us)) = Some (\<Sum>(l, u) \<leftarrow> us. the (f u))"
      unfolding s using f(2) len(2) by (simp add: field_total_def)
  next
    show "cu_loop_count (covered_usage_of us) = length ls"
      "cu_last_loop_id (covered_usage_of us) = (if ls = [] then None else Some (fst (List.last us)))"
      using n[of us] len by simp_all
    show "cu_partial (covered_usage_of us) = ((\<exists>f \<in> set usage_fields. \<exists>(l, u) \<in> set us. f u = None)
           \<or> (\<exists>f \<in> set usage_fields. u64_bound \<le> (\<Sum>(l, u) \<leftarrow> us. the (f u))))"
      using t m by blast
  qed
qed

theorem covered_usage_exact_witness:
  "list_all (line_ok sample_log_env) [''{a}'', ''{b}'']
   \<and> cu_loop_count (hl_usage (last_line (index_of sample_log_env [''{a}'', ''{b}'']))) = 2
   \<and> cu_last_loop_id (hl_usage (last_line (index_of sample_log_env [''{a}'', ''{b}'']))) = Some ''b''
   \<and> cu_partial (hl_usage (last_line (index_of sample_log_env [''{a}'', ''{b}''])))"
proof -
  have ok: "list_all (line_ok sample_log_env) [''{a}'', ''{b}'']" by (simp add: sample_line_ok)
  have u: "line_usage sample_log_env ''{a}'' = (''a'', empty_usage\<lparr>input_tokens := Some 3\<rparr>)"
    "line_usage sample_log_env ''{b}'' = (''b'', empty_usage\<lparr>input_tokens := Some 3\<rparr>)"
    by (simp_all add: line_usage_def parse_record_def sample_log_env_def sample_loop_def normalize_history_def)
  have b: "\<forall>(l, u) \<in> set (map (line_usage sample_log_env) [''{a}'', ''{b}'']). \<forall>f \<in> set usage_fields. \<forall>n. f u = Some n \<longrightarrow> n < u64_bound"
    by (auto simp: u usage_fields_def empty_usage_def u64_bound_def)
  show ?thesis
    using covered_usage_exact[OF ok b] ok by (auto simp: u Let_def usage_fields_def empty_usage_def)
qed

end
