(* ===== verification/Spec2Isabelle.thy ===== *)
theory Spec2Isabelle
  imports Ids Store_Time Input_Queue Patch_Codex Sse Preview_Observer Display Tool_Text Workspace_Status Aux_Store
    Tool_Paging History_Log
begin

text \<open>
  A verification library for MiniCore Agent, a local coding-agent backend: it keeps Sessions over
  workspaces, runs model and tool turns on the MiniCore Runtime, and serves a client over JSON-RPC.
  File names below are relative to the repository's \<^verbatim>\<open>src\<close> directory.

  \<^bold>\<open>Parts and theories.\<close>

  \<^item> \<open>Prelude\<close>: the parts of the Rust standard library the components use (results and the
    question-mark operator, checked 64-bit arithmetic, string search and splitting on bytes, UTF-8
    boundaries, decimal numerals) with their laws, and the locale \<open>invariant_system\<close>, through which
    every step relation gets its invariants.
  \<^item> \<open>Text_Budget\<close>: \<^verbatim>\<open>text.rs\<close>, \<^verbatim>\<open>budget.rs\<close>. Longest prefixes within a byte or an encoded-JSON
    budget; both meet the locale \<open>byte_cut\<close>.
  \<^item> \<open>Ids\<close>: \<^verbatim>\<open>ids.rs\<close>. Session and load identifiers, parsed, printed and drawn.
  \<^item> \<open>Store_Time\<close>: \<^verbatim>\<open>store/time.rs\<close>. Timestamps and the civil calendar.
  \<^item> \<open>Results\<close>: \<^verbatim>\<open>sessions/results.rs\<close>. The process-wide catalog of turn results: memory
    reservations, eviction, completion windows. Its step relation \<open>cstep\<close> interleaves the
    operations of all Sessions; the counters are exact and within budget in every reachable state,
    and a reservation ends.
  \<^item> \<open>Input_Queue\<close>: \<^verbatim>\<open>sessions/inputs.rs\<close>, \<^verbatim>\<open>sessions/active_loop.rs\<close>, \<^verbatim>\<open>sessions/boundary.rs\<close> and the
    closing of \<^verbatim>\<open>sessions.rs\<close>. Inputs of a Session queue, are claimed, start loops, join running
    loops as steers, and are restored when a start fails. The step relation \<open>qstep\<close> has one rule per
    critical section of the code; every input is delivered at most once and in order, and the queue
    refines the list its view shows. A finished turn enters the catalog of \<open>Results\<close>.
  \<^item> \<open>History_Log\<close>: \<^verbatim>\<open>history.rs\<close>, the loop records of \<^verbatim>\<open>store.rs\<close>, the usage totals of \<^verbatim>\<open>read.rs\<close>,
    appending, rollback, loading, repair and index of \<^verbatim>\<open>store/history.rs\<close>, and \<^verbatim>\<open>persist_report\<close> of
    \<^verbatim>\<open>sessions/active_loop.rs\<close>. The log file is its bytes; the step relation \<open>hl_step\<close> lets every file
    operation fail and a write stop anywhere. Through the locale \<open>forward_simulation\<close> it refines an
    append-only list whose last append may be undecided until the next load; a load reads exactly
    the lines of the file however it is cut into chunks, and usage totals are exact or flagged.
  \<^item> \<open>Patch_Apply\<close>, \<open>Patch_Unified\<close>, \<open>Patch_Codex\<close>: \<^verbatim>\<open>tools/apply_patch\<close>. Source lines, hunks and
    their application; unified diffs with quoted paths; Codex envelopes whose hunks are located by
    context. The failure-table search equals the naive search, resolved hunks fit the file, the lines of
    the hunks are exactly the content lines of the patch, and a patched file is the file with exactly
    the hunks' lines replaced.
  \<^item> \<open>Tool_Text\<close>: \<^verbatim>\<open>tools/edit.rs\<close> and \<^verbatim>\<open>tools/truncate.rs\<close>. Literal replacement, and the kept end of
    long outputs.
  \<^item> \<open>Sse\<close>: the event-stream parser of \<^verbatim>\<open>models/openai/sse.rs\<close>, which delivers the frames of the
    stream however it is cut into chunks, up to the first byte it refuses; frames can be taken after a
    refusal, as the adapter does.
  \<^item> \<open>Preview_Parser\<close>, \<open>Preview_Observer\<close>: \<^verbatim>\<open>presentation/preview\<close>. The streaming recognizer of tool
    arguments, panic-free and bounded for every allocator, and the observer that announces,
    updates and closes previews; the observer uses the recognizers through the locale
    \<open>metered_feed\<close>.
  \<^item> \<open>Display\<close>: \<^verbatim>\<open>presentation/display.rs\<close>. Tool cards: safe one-line details, bodies cut at their
    limit, count-only cards that agree with full ones.
  \<^item> \<open>Workspace_Paths\<close>: the lexical paths of \<^verbatim>\<open>workspace.rs\<close> and the search roots of
    \<^verbatim>\<open>workspace/page.rs\<close>. Search roots are kept disjoint and cover every requested directory.
  \<^item> \<open>Workspace_Status\<close>: \<^verbatim>\<open>workspace/status.rs\<close>, \<^verbatim>\<open>workspace/status/porcelain.rs\<close> and the roots of
    \<^verbatim>\<open>workspace/status/git.rs\<close>. From the bytes git prints to the status result: a cut stream reports a
    prefix of the entries. \<open>printed\<close> reads the records independently of the parser's state: a complete
    result has the entry of every printed record whose path lies in the workspace.
  \<^item> \<open>Tool_Record\<close>: the stored tool record and \<^verbatim>\<open>store/tool_records/validate.rs\<close>; reading the blobs of
    a validated record stays within them.
  \<^item> \<open>Aux_Store\<close>: \<^verbatim>\<open>store/tool_records/ledger.rs\<close>, \<^verbatim>\<open>store/tool_records/commit.rs\<close> and the deletion
    of a Session in \<^verbatim>\<open>store.rs\<close>. The ledger of stored records: scan, eviction, commit, batches. Its step
    relation \<open>aux_step\<close> lets every file operation fail, and carries beside the ledger the foreign bytes
    that the scan which built it noted; the ledger's counters stay exactly the sums of its entries and
    of these bytes, and a commit keeps the store within its budget.
  \<^item> \<open>Workspace_Write\<close>: the path resolution and file operations of \<^verbatim>\<open>workspace.rs\<close>, the atomic write of
    \<^verbatim>\<open>workspace/atomic.rs\<close>, the recording of changes in \<^verbatim>\<open>tools/file_change.rs\<close> and \<open>FileChange\<close> of
    \<^verbatim>\<open>changes.rs\<close>. Resolved paths stay below the root for any answers of the file system, a change is
    recorded as applied only when it was observed, and which recorded changes can be stored is
    characterised exactly.
  \<^item> \<open>Tool_Data\<close>, \<open>Tool_Data_Safe\<close>: \<^verbatim>\<open>tool_data/record.rs\<close> and \<^verbatim>\<open>tool_data/data.rs\<close>. The store of live tool
    calls with its fifteen operations, byte budget and eviction, and the snapshot for persistence; then,
    over the step relations \<open>td_step\<close> and \<open>call_step\<close>, exact accounting, windows that show the end of what a
    process wrote, and which snapshots can be stored and how their six blobs read back.
  \<^item> \<open>Tool_Paging\<close>: \<^verbatim>\<open>tool_data/paging.rs\<close>, \<^verbatim>\<open>tool_data/read.rs\<close> and \<open>read_tool_source\<close>. Pages of live and stored
    tool output and the summaries of a call, within the requested size; stored data answers as the
    live record did before it was evicted.

  \<^bold>\<open>Conventions.\<close> A Rust string is the list of its UTF-8 bytes; only the argument recognizer works on
  lists of Unicode scalars, as its code does. Errors are the left side of a sum. Panics
  (unwraps, unsigned underflow, debug assertions, slice indices) are \<^const>\<open>None\<close>, and where they are
  modelled it is proved that they do not occur. A \<^verbatim>\<open>usize\<close> is a natural number; where the code
  checks or wraps, the 64-bit bound is written out.

  \<^bold>\<open>Loops.\<close> All loops are total functions, with a measure where the recursion is not structural,
  except the walk down the failure table of the Codex search, which is a partial function whose
  value \<^const>\<open>None\<close> means that it does not end; that it ends is proved, and with it that applying a
  patch ends. The reservation loop of the catalog has as its measure the sources that are left: a round
  that evicts releases one. So has the eviction loop of the record store: a round removes one record. The
  eviction loops of the live tool data count what is left to evict. Creating missing directories
  (\<open>ensure_component\<close>) is a partial function too, as another process may remove what was just created; it ends on
  a file system that is \<open>settled\<close>, where a directory that was just created is seen. The loading loop of the
  history counts the bytes that are left to read. No definition uses fuel.

  \<^bold>\<open>Parameters.\<close> Entropy, clocks, the allocator, the home directory, the line diff of the
  \<^verbatim>\<open>similar\<close> crate, hashes, the JSON encoder, what git prints, the canonical form of a directory and the
  answers of the file system to every read, write and removal are parameters; a deadline is the number of
  checks that still succeed. So are the base64 encoder and the sizes of serde's output (\<open>base64_law\<close>,
  \<open>page_len_law\<close>, \<open>read_len_law\<close>), the position where a ring buffer wraps, the slack of the allocator (with \<open>op_fits\<close>: what an
  operation is given fits the address space), the JSON codec of loop records, the provider's check of
  replay data and the constructor of reasoning content (\<open>log_laws\<close>). What is assumed of them is a named
  predicate of the statement that uses it, and a witness gives an instance that has it.

  \<^bold>\<open>Not modelled.\<close> The asynchronous orchestration in \<^verbatim>\<open>agent.rs\<close> and the event hub, the RPC server,
  configuration and prompts, JSON decoding through serde, HTTP and the OpenAI request and event types,
  process control, running git and walking the file system, the JSON projections of stored history and the page and
  prefix reads over its index, compaction driven by model requests, the line diff of the \<^verbatim>\<open>similar\<close>
  crate, floating-point formatting and update intervals, and the test instrumentation.
\<close>

end
